(* ===== verification/Prelude.thy ===== *)
theory Prelude
  imports Main "HOL-Library.Word"
begin

unbundle bit_operations_syntax

text \<open>
  Shared vocabulary of the development: machine-integer type synonyms, the run-time faults a C
  program of this repository can run into, the result type of an operation that may fault, and
  generic lemmas on lists, options and words that the component theories use.

  \<^item> \<open>fault\<close> lists the ways a C operation leaves defined behaviour (a NULL or dangling pointer, an
    access outside an object, a division by zero, a signed overflow, a non-void function that ends with no value).
  \<^item> \<open>'a res\<close> is \<open>fault + 'a\<close>: \<open>Inl\<close> is the fault, \<open>Inr\<close> the value.
  \<^item> \<open>rbind\<close> sequences two such operations, as the C statements follow each other.

  Integer widths are those of the LP64 Linux ABI: \<open>unsigned char\<close> is \<open>u8\<close>, \<open>unsigned short\<close> is
  \<open>u16\<close>, \<open>unsigned int\<close> is \<open>u32\<close> and \<open>unsigned long\<close> is \<open>u64\<close>. A C \<open>int\<close> whose values stay far
  from its limits is an \<open>int\<close>.
\<close>

section \<open>Machine integers\<close>

type_synonym u8 = "8 word"
type_synonym u16 = "16 word"
type_synonym u32 = "32 word"
type_synonym u64 = "64 word"

section \<open>Faults and results\<close>

datatype fault =
    NullDeref        \<comment> \<open>a NULL pointer is dereferenced\<close>
  | BadPointer       \<comment> \<open>a pointer to no live object (freed or never allocated) is dereferenced\<close>
  | OutOfBounds      \<comment> \<open>an access outside the array it goes through\<close>
  | DivByZero        \<comment> \<open>an integer division by zero\<close>
  | Overflow         \<comment> \<open>a signed integer computation leaves the range of its type\<close>
  | NoReturn         \<comment> \<open>the value of a function that ended with no \<open>return\<close> is used\<close>
  | NoFuel           \<comment> \<open>no C fault: the fuel given to the model of a loop ran out\<close>

type_synonym 'a res = "fault + 'a"

definition rbind :: "'a res \<Rightarrow> ('a \<Rightarrow> 'b res) \<Rightarrow> 'b res" where
  "rbind m f = (case m of Inl e \<Rightarrow> Inl e | Inr x \<Rightarrow> f x)"

lemma rbind_Inr [simp]: "rbind (Inr x) f = f x"
  by (simp add: rbind_def)

lemma rbind_Inl [simp]: "rbind (Inl e) f = Inl e"
  by (simp add: rbind_def)

lemma rbind_assoc: "rbind (rbind m f) g = rbind m (\<lambda>x. rbind (f x) g)"
  by (cases m) simp_all

lemma rbind_eq_Inr: "rbind m f = Inr y \<longleftrightarrow> (\<exists>x. m = Inr x \<and> f x = Inr y)"
  by (cases m) simp_all

lemma rbind_InrE [elim!]:
  assumes "rbind m f = Inr y"
  obtains x where "m = Inr x" and "f x = Inr y"
  using assms by (auto simp: rbind_eq_Inr)

lemma rbind_cong [fundef_cong]:
  "m = m' \<Longrightarrow> (\<And>x. m' = Inr x \<Longrightarrow> f x = f' x) \<Longrightarrow> rbind m f = rbind m' f'"
  by (cases m') simp_all

section \<open>Lists\<close>

lemma length3_conv: "length xs = 3 \<longleftrightarrow> (\<exists>a b c. xs = [a, b, c])"
  by (auto simp: numeral_3_eq_3 length_Suc_conv)

section \<open>Words\<close>

lemma unat_u8_le: "unat (x :: u8) \<le> 255"
  using unsigned_less [of x, where ?'a = nat] by simp

lemma bit_u8_lt: "bit (x :: u8) n \<Longrightarrow> n < 8"
  using bit_imp_le_length [of x n] by simp

lemma ucast_of_nat_u16: "(ucast (of_nat n :: u16) :: u32) = of_nat (n mod 65536)"
  by (rule word_unat_eq_iff [THEN iffD2]) (simp add: unsigned_of_nat unsigned_ucast_eq take_bit_eq_mod)

lemma ucast_of_nat_u32: "n < 2 ^ 32 \<Longrightarrow> (ucast (of_nat n :: u32) :: u64) = of_nat n"
  by (rule word_unat_eq_iff [THEN iffD2]) (simp add: unsigned_of_nat unsigned_ucast_eq take_bit_eq_mod)

lemma ex_if_Inr:
  assumes "b \<Longrightarrow> \<exists>x. m = Inr x \<and> P x" and "\<not> b \<Longrightarrow> \<exists>x. m' = Inr x \<and> P x"
  shows "\<exists>x. (if b then m else m') = Inr x \<and> P x"
  using assms by (cases b) auto

section \<open>C strings in character arrays\<close>

abbreviation NUL :: char where "NUL \<equiv> CHR 0x00"

text \<open>The C string an array starts with, and the read of it (up to the terminator, which must be there).\<close>

definition cstr :: "char list \<Rightarrow> char list" where
  "cstr b = takeWhile (\<lambda>c. c \<noteq> NUL) b"

definition get_str :: "char list \<Rightarrow> char list res" where
  "get_str b = (if NUL \<in> set b then Inr (cstr b) else Inl OutOfBounds)"

text \<open>\<open>strcpy\<close> of the string \<open>s\<close> into the array \<open>b\<close>.\<close>

definition strcpy_block :: "char list \<Rightarrow> char list \<Rightarrow> char list res" where
  "strcpy_block s b = (if length s < length b then Inr (s @ NUL # drop (Suc (length s)) b) else Inl OutOfBounds)"

text \<open>\<open>strcmp(a, b) == 0\<close>: the arrays are read up to the first difference or the terminator.\<close>

fun str_eq :: "char list \<Rightarrow> char list \<Rightarrow> bool res" where
  "str_eq (a # as) (b # bs) = (if a \<noteq> b then Inr False else if a = NUL then Inr True else str_eq as bs)"
| "str_eq _ _ = Inl OutOfBounds"

lemma cstr_append [simp]: "NUL \<notin> set s \<Longrightarrow> cstr (s @ NUL # t) = s"
  unfolding cstr_def by (induction s) auto

lemma NUL_cstr [simp]: "NUL \<notin> set (cstr b)"
  by (auto simp: cstr_def dest: set_takeWhileD)

lemma length_cstr: "NUL \<in> set b \<Longrightarrow> length (cstr b) < length b"
  unfolding cstr_def by (induction b) auto

lemma get_str_term [simp]: "NUL \<in> set b \<Longrightarrow> get_str b = Inr (cstr b)"
  by (simp add: get_str_def)

lemma str_eq_term [simp]: "NUL \<in> set a \<Longrightarrow> NUL \<in> set b \<Longrightarrow> str_eq a b = Inr (cstr a = cstr b)"
  by (induction a b rule: str_eq.induct) (auto simp: cstr_def)

lemma strcpy_block_fits:
  "NUL \<notin> set s \<Longrightarrow> length s < length b \<Longrightarrow> \<exists>b'. strcpy_block s b = Inr b' \<and> cstr b' = s \<and> NUL \<in> set b' \<and> length b' = length b"
  by (simp add: strcpy_block_def)

section \<open>Pointers and a C heap\<close>

text \<open>
  An address is a natural number, a pointer an address or NULL (\<open>None\<close>). A heap of nodes of one
  struct type keeps the live cells, the next address \<open>malloc\<close> hands out (addresses are never handed
  out twice, so a dangling pointer stays distinguishable) and how many more allocations succeed
  before \<open>malloc\<close> returns NULL.
\<close>

type_synonym addr = nat
type_synonym ptr = "addr option"

record 'n heap =
  cells :: "addr \<rightharpoonup> 'n"
  brk :: addr
  avail :: nat

definition malloc :: "'n \<Rightarrow> 'n heap \<Rightarrow> ptr \<times> 'n heap" where
  "malloc n h = (if avail h = 0 then (None, h)
     else (Some (brk h), h\<lparr>cells := (cells h)(brk h \<mapsto> n), brk := Suc (brk h), avail := avail h - 1\<rparr>))"

definition load :: "'n heap \<Rightarrow> ptr \<Rightarrow> 'n res" where
  "load h p = (case p of None \<Rightarrow> Inl NullDeref
     | Some a \<Rightarrow> (case cells h a of None \<Rightarrow> Inl BadPointer | Some n \<Rightarrow> Inr n))"

definition store :: "'n heap \<Rightarrow> ptr \<Rightarrow> ('n \<Rightarrow> 'n) \<Rightarrow> 'n heap res" where
  "store h p f = (case p of None \<Rightarrow> Inl NullDeref
     | Some a \<Rightarrow> (case cells h a of None \<Rightarrow> Inl BadPointer
         | Some n \<Rightarrow> Inr (h\<lparr>cells := (cells h)(a \<mapsto> f n)\<rparr>)))"

definition c_free :: "'n heap \<Rightarrow> ptr \<Rightarrow> 'n heap res" where
  "c_free h p = (case p of None \<Rightarrow> Inr h
     | Some a \<Rightarrow> (case cells h a of None \<Rightarrow> Inl BadPointer
         | Some n \<Rightarrow> Inr (h\<lparr>cells := (cells h)(a := None), avail := Suc (avail h)\<rparr>)))"

definition heap_ok :: "'n heap \<Rightarrow> bool" where
  "heap_ok h \<longleftrightarrow> (\<forall>a. cells h a \<noteq> None \<longrightarrow> a < brk h)"

lemma load_simps [simp]:
  "load h None = Inl NullDeref"
  "cells h a = Some n \<Longrightarrow> load h (Some a) = Inr n"
  "cells h a = None \<Longrightarrow> load h (Some a) = Inl BadPointer"
  by (simp_all add: load_def)

lemma store_simps [simp]:
  "store h None f = Inl NullDeref"
  "cells h a = Some n \<Longrightarrow> store h (Some a) f = Inr (h\<lparr>cells := (cells h)(a \<mapsto> f n)\<rparr>)"
  "cells h a = None \<Longrightarrow> store h (Some a) f = Inl BadPointer"
  by (simp_all add: store_def)

lemma c_free_simps [simp]:
  "c_free h None = Inr h"
  "cells h a = Some n \<Longrightarrow>
    c_free h (Some a) = Inr (h\<lparr>cells := (cells h)(a := None), avail := Suc (avail h)\<rparr>)"
  "cells h a = None \<Longrightarrow> c_free h (Some a) = Inl BadPointer"
  by (simp_all add: c_free_def)

lemma load_eq_Inr: "load h p = Inr n \<longleftrightarrow> (\<exists>a. p = Some a \<and> cells h a = Some n)"
  by (auto simp: load_def split: option.splits)

lemma heap_upd_order [simp]:
  "h\<lparr>brk := b, avail := v, cells := c\<rparr> = h\<lparr>cells := c, brk := b, avail := v\<rparr>"
  by (cases h) simp

lemma heap_ok_fresh: "heap_ok h \<Longrightarrow> cells h (brk h) = None"
  by (metis heap_ok_def less_irrefl)

text \<open>
  The nodes on the way from \<open>p\<close> to \<open>q\<close> along a link field, given as the partial function \<open>nx\<close>
  from a live address to the pointer stored there.
\<close>

fun path :: "(addr \<rightharpoonup> ptr) \<Rightarrow> ptr \<Rightarrow> addr list \<Rightarrow> ptr \<Rightarrow> bool" where
  "path nx p [] q \<longleftrightarrow> p = q"
| "path nx p (a # as) q \<longleftrightarrow> p = Some a \<and> (\<exists>r. nx a = Some r \<and> path nx r as q)"

lemma path_append:
  "path nx p (as @ bs) q \<longleftrightarrow> (\<exists>r. path nx p as r \<and> path nx r bs q)"
  by (induction as arbitrary: p) auto

lemma path_None [simp]: "path nx None as q \<longleftrightarrow> as = [] \<and> q = None"
  by (cases as) auto

lemma path_cong:
  "(\<And>a. a \<in> set as \<Longrightarrow> nx a = nx' a) \<Longrightarrow> path nx p as q = path nx' p as q"
  by (induction as arbitrary: p) auto

lemma path_upd [simp]: "a \<notin> set as \<Longrightarrow> path (nx(a := v)) p as q = path nx p as q"
  by (rule path_cong) auto

lemma path_dom: "path nx p as q \<Longrightarrow> a \<in> set as \<Longrightarrow> \<exists>r. nx a = Some r"
  by (induction as arbitrary: p) auto

lemma path_snoc_upd:
  assumes "path nx p (as @ [l]) None" and "distinct (as @ [l])" and "b \<notin> set (as @ [l])"
  shows "path (nx(l \<mapsto> Some b, b \<mapsto> None)) p (as @ [l, b]) None"
proof -
  have "path nx p as (Some l)" using assms(1) by (auto simp: path_append)
  then have "path (nx(l \<mapsto> Some b, b \<mapsto> None)) p as (Some l)" using assms(2,3) by simp
  then show ?thesis using assms(3) by (auto simp: path_append)
qed

lemma path_unlink:
  assumes "path nx p (xs @ q # a # ys) None" and "distinct (xs @ q # a # ys)" and "nx a = Some r"
  shows "path (nx(q \<mapsto> r, a := None)) p (xs @ q # ys) None"
proof -
  have 1: "path nx p xs (Some q)" "path nx r ys None" using assms(1,3) by (auto simp: path_append)
  then have "path (nx(q \<mapsto> r, a := None)) p xs (Some q)" "path (nx(q \<mapsto> r, a := None)) r ys None"
    using assms(2) by (auto simp: fun_upd_def [symmetric])
  then show ?thesis using assms(2) by (auto simp: path_append)
qed

end
