(* ===== verification/Hlw8032.thy ===== *)
theory Hlw8032
  imports Prelude
begin

text \<open>
  The HLW8032 energy meter reader, \<^verbatim>\<open>src/wt_hlw8032.c\<close>: the median filter over the last three
  samples of each quantity, the decoding of a 24-byte UART frame (\<open>DealUartInf\<close>), the serial-port
  set-up (\<open>set_parity\<close>, \<open>set_serial\<close>) and the read loop (\<open>deal_data\<close>).

  The function-local \<open>static\<close> arrays and counters of \<open>DealUartInf\<close> and the global \<open>runingInf\<close> are
  the record \<open>hlw\<close>; the lines the program prints are a list of events, in order.
\<close>

section \<open>State\<close>

record RuningInf =
  ri_voltage :: u16
  ri_electricity :: u16
  ri_power :: u16
  energy :: u64
  energyCurrent :: u16
  energyLast :: u16
  energyFlowFlag :: u8
  energyUnit :: u64

record hlw =
  voltage_a :: "u64 list"
  voltageCnt :: u32
  electricity_a :: "u64 list"
  electricityCnt :: u32
  power_a :: "u64 list"
  powerCnt :: u32
  powerNewFlag :: u64
  runingInf :: RuningInf

text \<open>What a call prints. \<open>EvSamples\<close> and \<open>EvReading\<close> carry the letter of the quantity.\<close>

datatype hlw_event =
    EvErrLength
  | EvInput "u8 list"
  | EvChecksum u32 u8
  | EvErrChecksum
  | EvSamples char "u64 list"
  | EvReading char u64 u64 u64
  | EvFlagError char
  | EvNotCheck
  | EvBroken
  | EvPowerError
  | EvSummary u8 u64 u64 u64

abbreviation (input) DATA_PACKAGE :: nat where "DATA_PACKAGE \<equiv> 24"
abbreviation (input) ARRAY_LEN :: nat where "ARRAY_LEN \<equiv> 3"
abbreviation (input) COUNT_NUM :: u32 where "COUNT_NUM \<equiv> 1"
abbreviation (input) ENERGY_FLOW_NUM :: u32 where "ENERGY_FLOW_NUM \<equiv> 65536"

definition init_RuningInf :: RuningInf where
  "init_RuningInf = \<lparr>ri_voltage = 0, ri_electricity = 0, ri_power = 0, energy = 0,
     energyCurrent = 0, energyLast = 0, energyFlowFlag = 0, energyUnit = 0\<rparr>"

definition init_hlw :: hlw where
  "init_hlw = \<lparr>voltage_a = [0, 0, 0], voltageCnt = 0, electricity_a = [0, 0, 0],
     electricityCnt = 0, power_a = [0, 0, 0], powerCnt = 0, powerNewFlag = 1,
     runingInf = init_RuningInf\<rparr>"

section \<open>The sample window\<close>

fun vip_scan :: "u64 list \<Rightarrow> nat list \<Rightarrow> nat \<times> nat \<Rightarrow> nat \<times> nat" where
  "vip_scan arr [] (maxIndex, minIndex) = (maxIndex, minIndex)"
| "vip_scan arr (j # js) (maxIndex, minIndex) =
     vip_scan arr js
       (if arr ! maxIndex \<le> arr ! j then j else maxIndex,
        if arr ! minIndex > arr ! j then j else minIndex)"

fun vip_pick :: "u64 list \<Rightarrow> nat list \<Rightarrow> nat \<Rightarrow> nat \<Rightarrow> u64 option" where
  "vip_pick arr [] maxIndex minIndex = None"
| "vip_pick arr (j # js) maxIndex minIndex =
     (if maxIndex = j \<or> minIndex = j then vip_pick arr js maxIndex minIndex else Some (arr ! j))"

definition getVIPvalue :: "u64 list \<Rightarrow> u64 res" where
  "getVIPvalue arr =
     (let (maxIndex, minIndex) = vip_scan arr [1 ..< ARRAY_LEN] (0, 0)
      in case vip_pick arr [0 ..< ARRAY_LEN] maxIndex minIndex of
           None \<Rightarrow> Inl NoReturn | Some v \<Rightarrow> Inr v)"

definition isUpdataNewData :: "u64 list \<Rightarrow> u64 \<Rightarrow> bool" where
  "isUpdataNewData arr dat = (arr ! 0 \<noteq> dat)"

fun vip_shift :: "nat \<Rightarrow> u64 list \<Rightarrow> u64 list" where
  "vip_shift 0 arr = arr"
| "vip_shift (Suc i) arr = vip_shift i (arr[Suc i := arr ! i])"

definition updataVIPvalue :: "u64 list \<Rightarrow> u64 \<Rightarrow> u64 list" where
  "updataVIPvalue arr dat = (vip_shift (ARRAY_LEN - 1) arr)[0 := dat]"

definition resetVIPvalue :: "u64 list \<Rightarrow> u64 \<Rightarrow> u64 list" where
  "resetVIPvalue arr dat = fold (\<lambda>ii a. a[ii := dat]) (rev [0 ..< ARRAY_LEN]) arr"

section \<open>Decoding one quantity\<close>

text \<open>A 24-bit big-endian field of the frame, and the byte indices of its fields.\<close>

definition be24 :: "u8 list \<Rightarrow> nat \<Rightarrow> u64" where
  "be24 buf i = push_bit 16 (ucast (buf ! i)) OR push_bit 8 (ucast (buf ! (i + 1)))
     OR ucast (buf ! (i + 2))"

abbreviation (input) UART_IND_HD :: nat where "UART_IND_HD \<equiv> 0"
abbreviation (input) UART_IND_5A :: nat where "UART_IND_5A \<equiv> 1"
abbreviation (input) UART_IND_VK :: nat where "UART_IND_VK \<equiv> 2"
abbreviation (input) UART_IND_VT :: nat where "UART_IND_VT \<equiv> 5"
abbreviation (input) UART_IND_IK :: nat where "UART_IND_IK \<equiv> 8"
abbreviation (input) UART_IND_IT :: nat where "UART_IND_IT \<equiv> 11"
abbreviation (input) UART_IND_PK :: nat where "UART_IND_PK \<equiv> 14"
abbreviation (input) UART_IND_PT :: nat where "UART_IND_PT \<equiv> 17"
abbreviation (input) UART_IND_FG :: nat where "UART_IND_FG \<equiv> 20"
abbreviation (input) UART_IND_EN :: nat where "UART_IND_EN \<equiv> 21"
abbreviation (input) UART_IND_SM :: nat where "UART_IND_SM \<equiv> 23"

text \<open>The window update every measured quantity goes through (\<open>if (isUpdataNewData \<dots>)\<close>).\<close>

definition push_sample :: "u64 list \<Rightarrow> u32 \<Rightarrow> u64 \<Rightarrow> u64 list \<times> u32" where
  "push_sample arr cnt dat =
     (if isUpdataNewData arr dat then (updataVIPvalue arr dat, 0)
      else let cnt' = cnt + 1
           in if cnt' \<ge> COUNT_NUM then (updataVIPvalue arr dat, 0) else (arr, cnt'))"

text \<open>\<open>k * 100 / t\<close> and then \<open>* 10\<close>, with the guard against a zero period.\<close>

definition scale :: "u64 \<Rightarrow> u64 \<Rightarrow> u64" where
  "scale k t = (if t = 0 then 0 else k * 100 div t * 10)"

definition flag_set :: "u8 list \<Rightarrow> u8 \<Rightarrow> bool" where
  "flag_set buf m = (buf ! UART_IND_FG AND m = m)"

text \<open>
  The three quantities. The boolean is true in the 0x55 branch, where the window is printed too;
  the branch for damaged parameters has those \<open>printf\<close> calls commented out.
\<close>

definition deal_voltage :: "bool \<Rightarrow> u8 list \<Rightarrow> hlw \<Rightarrow> (u64 \<times> hlw \<times> hlw_event list) res" where
  "deal_voltage verbose buf s =
     (if flag_set buf 0x40 then
        let voltage_k = be24 buf UART_IND_VK;
            (a, cnt) = push_sample (voltage_a s) (voltageCnt s) (be24 buf UART_IND_VT)
        in rbind (getVIPvalue a) (\<lambda>voltage_t.
             let voltage = scale voltage_k voltage_t
             in Inr (voltage, s\<lparr>voltage_a := a, voltageCnt := cnt\<rparr>,
                     (if verbose then [EvSamples CHR ''V'' a] else [])
                     @ [EvReading CHR ''V'' voltage_k voltage_t voltage]))
      else Inr (0, s, [EvFlagError CHR ''V'']))"

definition deal_electricity :: "bool \<Rightarrow> u8 list \<Rightarrow> hlw \<Rightarrow> (u64 \<times> hlw \<times> hlw_event list) res" where
  "deal_electricity verbose buf s =
     (if flag_set buf 0x20 then
        let electricity_k = be24 buf UART_IND_IK;
            (a, cnt) = push_sample (electricity_a s) (electricityCnt s) (be24 buf UART_IND_IT)
        in rbind (getVIPvalue a) (\<lambda>electricity_t.
             let electricity = scale electricity_k electricity_t
             in Inr (electricity, s\<lparr>electricity_a := a, electricityCnt := cnt\<rparr>,
                     (if verbose then [EvSamples CHR ''I'' a] else [])
                     @ [EvReading CHR ''I'' electricity_k electricity_t electricity]))
      else Inr (0, s, [EvFlagError CHR ''I'']))"

text \<open>
  The power, when the frame has a new period: as the others, and \<open>powerNewFlag\<close> is cleared. The
  result is \<open>power_k\<close> (used for the energy unit later) and \<open>power\<close>.
\<close>

definition deal_power_new ::
    "bool \<Rightarrow> u8 list \<Rightarrow> hlw \<Rightarrow> (u64 \<times> u64 \<times> hlw \<times> hlw_event list) res" where
  "deal_power_new verbose buf s =
     (let power_k = be24 buf UART_IND_PK;
          (a, cnt) = push_sample (power_a s) (powerCnt s) (be24 buf UART_IND_PT)
      in rbind (getVIPvalue a) (\<lambda>power_t.
           let power = scale power_k power_t
           in Inr (power_k, power, s\<lparr>powerNewFlag := 0, power_a := a, powerCnt := cnt\<rparr>,
                   (if verbose then [EvSamples CHR ''P'' a] else [])
                   @ [EvReading CHR ''P'' power_k power_t power])))"

text \<open>
  No new period, but one was seen before: a period more than a quarter above the filtered one
  (the load dropped) replaces the whole window.
\<close>

definition deal_power_old ::
    "bool \<Rightarrow> u8 list \<Rightarrow> hlw \<Rightarrow> (u64 \<times> u64 \<times> hlw \<times> hlw_event list) res" where
  "deal_power_old verbose buf s =
     (let power_k = be24 buf UART_IND_PK; period = be24 buf UART_IND_PT
      in rbind (if isUpdataNewData (power_a s) period then
                  rbind (getVIPvalue (power_a s)) (\<lambda>powerData.
                    Inr (if period > powerData \<and> period - powerData > drop_bit 2 powerData
                         then resetVIPvalue (power_a s) period else power_a s))
                else Inr (power_a s)) (\<lambda>a.
         rbind (getVIPvalue a) (\<lambda>power_t.
           let power = scale power_k power_t
           in Inr (power_k, power, s\<lparr>power_a := a\<rparr>,
                   (if verbose then [EvSamples CHR ''P'' a] else [])
                   @ [EvReading CHR ''P'' power_k power_t power]))))"

definition deal_power :: "bool \<Rightarrow> u8 list \<Rightarrow> hlw \<Rightarrow> (u64 \<times> u64 \<times> hlw \<times> hlw_event list) res" where
  "deal_power verbose buf s =
     (if flag_set buf 0x10 then deal_power_new verbose buf s
      else if powerNewFlag s = 0 then deal_power_old verbose buf s
      else Inr (0, 0, s, []))"

section \<open>The energy counter\<close>

definition deal_energy :: "u8 list \<Rightarrow> u64 \<Rightarrow> RuningInf \<Rightarrow> RuningInf res" where
  "deal_energy buf power_k r =
     (let flag = drop_bit 7 (buf ! UART_IND_FG);
          cur = (push_bit 8 (ucast (buf ! UART_IND_EN)) OR ucast (buf ! (UART_IND_EN + 1))) :: u16;
          (flag', cur', energy_cnt :: u32) =
            (if energyFlowFlag r \<noteq> flag then
               (let cur' = (if cur > energyLast r then 0 else cur)
                in (flag, cur', ucast cur' + ENERGY_FLOW_NUM - ucast (energyLast r)))
             else (energyFlowFlag r, cur, ucast cur - ucast (energyLast r)))
      in if drop_bit 1 power_k = 0 then Inl DivByZero
         else Inr (r\<lparr>energyFlowFlag := flag', energyCurrent := cur', energyLast := cur',
                     energy := energy r + ucast (energy_cnt * 10),
                     energyUnit := (ucast (drop_bit 1 (0xD693A400 :: u32)) div drop_bit 1 power_k) * 10\<rparr>))"

section \<open>The frame\<close>

definition checksum :: "u8 list \<Rightarrow> u32" where
  "checksum buf = fold (\<lambda>j c. c + ucast (buf ! (j + 2))) [0 ..< 21] 0 AND 0xFF"

definition deal_ok :: "u8 list \<Rightarrow> hlw \<Rightarrow> (hlw \<times> hlw_event list) res" where
  "deal_ok buf s0 =
     rbind (deal_voltage True buf s0) (\<lambda>(voltage, s1, e1).
     rbind (deal_electricity True buf s1) (\<lambda>(electricity, s2, e2).
     rbind (deal_power True buf s2) (\<lambda>(power_k, power, s3, e3).
     rbind (deal_energy buf power_k (runingInf s3)) (\<lambda>r.
       Inr (s3\<lparr>runingInf := r\<rparr>, e1 @ e2 @ e3)))))"

definition deal_damaged :: "u8 list \<Rightarrow> hlw \<Rightarrow> (hlw \<times> hlw_event list) res" where
  "deal_damaged buf s0 =
     (let startFlag = buf ! UART_IND_HD;
          e0 = (if startFlag AND 0xF1 = 0xF1 then [EvBroken] else [])
      in rbind (if startFlag AND 0xF2 = 0xF2
                then Inr (0, 0, s0\<lparr>runingInf := (runingInf s0)\<lparr>ri_power := 0\<rparr>\<rparr>, [EvPowerError])
                else deal_power False buf s0) (\<lambda>(power_k, power, s1, e1).
         rbind (if startFlag AND 0xF4 = 0xF4
                then Inr (0, s1\<lparr>runingInf := (runingInf s1)\<lparr>ri_electricity := 0\<rparr>\<rparr>, [])
                else deal_electricity False buf s1) (\<lambda>(electricity, s2, e2).
         rbind (if startFlag AND 0xF8 = 0xF8
                then Inr (0, s2\<lparr>runingInf := (runingInf s2)\<lparr>ri_voltage := 0\<rparr>\<rparr>, [])
                else deal_voltage False buf s2) (\<lambda>(voltage, s3, e3).
           Inr (s3, e0 @ e1 @ e2 @ e3 @ [EvSummary startFlag voltage electricity power])))))"

definition DealUartInf :: "u8 list \<Rightarrow> int \<Rightarrow> hlw \<Rightarrow> (int \<times> hlw \<times> hlw_event list) res" where
  "DealUartInf inDataBuffer recvlen s =
     (if recvlen \<noteq> 24 then Inr (-1, s, [EvErrLength])
      else if length inDataBuffer < 24 then Inl OutOfBounds
      else let c = checksum inDataBuffer;
               e = [EvInput (take 24 inDataBuffer), EvChecksum c (inDataBuffer ! UART_IND_SM)]
           in if c \<noteq> ucast (inDataBuffer ! UART_IND_SM) then Inr (-2, s, e @ [EvErrChecksum])
              else if inDataBuffer ! UART_IND_HD = 0x55 then
                rbind (deal_ok inDataBuffer s) (\<lambda>(s', es). Inr (1, s', e @ es))
              else if inDataBuffer ! UART_IND_HD = 0xAA then Inr (1, s, e @ [EvNotCheck])
              else rbind (deal_damaged inDataBuffer s) (\<lambda>(s', es). Inr (1, s', e @ es)))"

section \<open>The serial port\<close>

record termios =
  c_iflag :: u32
  c_oflag :: u32
  c_cflag :: u32
  c_lflag :: u32
  c_vtime :: u8
  c_vmin :: u8

text \<open>The flag bits of the Linux \<^verbatim>\<open>termios.h\<close> that the program uses.\<close>

abbreviation (input) B4800 :: u32 where "B4800 \<equiv> 0xC"
abbreviation (input) CS7 :: u32 where "CS7 \<equiv> 0x20"
abbreviation (input) CS8 :: u32 where "CS8 \<equiv> 0x30"
abbreviation (input) CSTOPB :: u32 where "CSTOPB \<equiv> 0x40"
abbreviation (input) CREAD :: u32 where "CREAD \<equiv> 0x80"
abbreviation (input) PARENB :: u32 where "PARENB \<equiv> 0x100"
abbreviation (input) PARODD :: u32 where "PARODD \<equiv> 0x200"
abbreviation (input) CLOCAL :: u32 where "CLOCAL \<equiv> 0x800"
abbreviation (input) INPCK :: u32 where "INPCK \<equiv> 0x10"
abbreviation (input) ICRNL :: u32 where "ICRNL \<equiv> 0x100"

abbreviation (input) FALSE :: int where "FALSE \<equiv> -1"
abbreviation (input) TRUE :: int where "TRUE \<equiv> 0"
abbreviation (input) EPERM :: int where "EPERM \<equiv> 1"
abbreviation (input) ENODEV :: int where "ENODEV \<equiv> 19"

definition data_bits :: "int \<Rightarrow> termios \<Rightarrow> termios option" where
  "data_bits databits t =
     (if databits = 7 then Some (t\<lparr>c_cflag := c_cflag t OR CS7\<rparr>)
      else if databits = 8 then Some (t\<lparr>c_cflag := c_cflag t OR CS8\<rparr>)
      else None)"

definition parity_bits :: "char \<Rightarrow> termios \<Rightarrow> termios option" where
  "parity_bits parity t =
     (if parity = CHR ''n'' \<or> parity = CHR ''N'' then
        Some (t\<lparr>c_cflag := c_cflag t AND NOT PARENB, c_iflag := c_iflag t AND NOT INPCK\<rparr>)
      else if parity = CHR ''o'' \<or> parity = CHR ''O'' then
        Some (t\<lparr>c_cflag := c_cflag t OR (PARODD OR PARENB), c_iflag := c_iflag t OR INPCK\<rparr>)
      else if parity = CHR ''e'' \<or> parity = CHR ''E'' then
        Some (t\<lparr>c_cflag := (c_cflag t OR PARENB) AND NOT PARODD, c_iflag := c_iflag t OR INPCK\<rparr>)
      else if parity = CHR ''S'' \<or> parity = CHR ''s'' then
        Some (t\<lparr>c_cflag := (c_cflag t AND NOT PARENB) AND NOT CSTOPB\<rparr>)
      else None)"

definition stop_bits :: "int \<Rightarrow> termios \<Rightarrow> termios option" where
  "stop_bits stopbits t =
     (if stopbits = 1 then Some (t\<lparr>c_cflag := c_cflag t AND NOT CSTOPB\<rparr>)
      else if stopbits = 2 then Some (t\<lparr>c_cflag := c_cflag t OR CSTOPB\<rparr>)
      else None)"

text \<open>
  \<open>tcget\<close> is what \<open>tcgetattr\<close> delivered (\<open>None\<close> when it failed) and \<open>tcset_ok\<close> whether
  \<open>tcsetattr\<close> succeeds. The result is the return value and the settings handed to \<open>tcsetattr\<close>, if
  that call was reached.
\<close>

definition set_parity ::
    "termios option \<Rightarrow> bool \<Rightarrow> int \<Rightarrow> int \<Rightarrow> char \<Rightarrow> int \<times> termios option" where
  "set_parity tcget tcset_ok databits stopbits parity =
     (case tcget of None \<Rightarrow> (FALSE, None)
      | Some options \<Rightarrow>
          (case Option.bind (Option.bind (data_bits databits
                   (options\<lparr>c_cflag := B4800 OR CLOCAL OR CREAD\<rparr>)) (parity_bits parity))
                  (stop_bits stopbits) of
             None \<Rightarrow> (FALSE, None)
           | Some t \<Rightarrow>
               let t1 = (if parity \<noteq> CHR ''n'' then t\<lparr>c_iflag := c_iflag t OR INPCK\<rparr> else t);
                   t2 = t1\<lparr>c_vtime := 0, c_vmin := 24, c_iflag := c_iflag t1 AND NOT ICRNL,
                           c_lflag := 0, c_oflag := 0\<rparr>
               in (if tcset_ok then TRUE else FALSE, Some t2)))"

definition set_serial ::
    "termios option \<Rightarrow> bool \<Rightarrow> int \<Rightarrow> int \<Rightarrow> char \<Rightarrow> int \<times> termios option" where
  "set_serial tcget tcset_ok databits stopbits parity =
     (case set_parity tcget tcset_ok databits stopbits parity of
        (r, t) \<Rightarrow> (if r = FALSE then - EPERM else 0, t))"

section \<open>The read loop\<close>

record port =
  buf48 :: "u8 list"
  hlw_buff :: "u8 list"
  wait_flag :: int
  dev :: hlw

definition init_port :: port where
  "init_port = \<lparr>buf48 = replicate 48 0, hlw_buff = replicate 24 0, wait_flag = 0, dev = init_hlw\<rparr>"

text \<open>The loop of \<open>cpy\<close> over the indices; reading or writing outside an array is a fault.\<close>

fun cpy_each :: "u8 list \<Rightarrow> nat list \<Rightarrow> u8 list \<Rightarrow> u8 list res" where
  "cpy_each p_src [] p_dest = Inr p_dest"
| "cpy_each p_src (num # nums) p_dest =
     (if num < length p_src \<and> num < length p_dest then cpy_each p_src nums (p_dest[num := p_src ! num])
      else Inl OutOfBounds)"

definition cpy :: "u8 list \<Rightarrow> u8 list \<Rightarrow> nat \<Rightarrow> u8 list res" where
  "cpy p_src p_dest sz = cpy_each p_src [0 ..< sz] p_dest"

definition signal_handler_IO :: "port \<Rightarrow> port" where
  "signal_handler_IO p = p\<lparr>wait_flag := FALSE\<rparr>"

text \<open>
  \<open>read(fd, buf, 48)\<close>: \<open>None\<close> is a failure (the result is \<open>-1\<close>, the buffer keeps its bytes), \<open>Some
  bs\<close> delivers the first 48 bytes of \<open>bs\<close>.
\<close>

definition read48 :: "u8 list option \<Rightarrow> u8 list \<Rightarrow> int \<times> u8 list" where
  "read48 r buf = (case r of None \<Rightarrow> (-1, buf)
     | Some bs \<Rightarrow> (int (length (take 48 bs)), take 48 bs @ drop (length (take 48 bs)) buf))"

text \<open>The search for the check byte: every \<open>0x5A\<close> among the bytes \<open>is\<close> of \<open>buf\<close> copies the frame.\<close>

fun take_frame :: "u8 list \<Rightarrow> nat list \<Rightarrow> u8 list \<Rightarrow> u8 list res" where
  "take_frame buf [] hb = Inr hb"
| "take_frame buf (i # is) hb =
     (if length buf \<le> i then Inl OutOfBounds
      else if buf ! i = 0x5A then rbind (cpy buf hb DATA_PACKAGE) (take_frame buf is)
      else take_frame buf is hb)"

text \<open>
  One turn of the loop of \<open>deal_data\<close>. The input of a turn says whether \<open>SIGIO\<close> arrived before the
  test of \<open>wait_flag\<close>, and what the \<open>read\<close> (if there is one) delivers. Nothing in the program
  writes \<open>signal_stop\<close>, so the loop has no other exit.
\<close>

definition deal_data_turn ::
    "bool \<times> u8 list option \<Rightarrow> port \<Rightarrow> (port \<times> hlw_event list) res" where
  "deal_data_turn inp p0 =
     (let p = (if fst inp then signal_handler_IO p0 else p0)
      in if wait_flag p = FALSE then
           let (n, buf) = read48 (snd inp) (buf48 p)
           in rbind (take_frame buf [0 ..< DATA_PACKAGE] (hlw_buff p)) (\<lambda>hb.
              rbind (if hb ! 1 = 0x5A
                     then rbind (DealUartInf hb n (dev p)) (\<lambda>(ret, d, es). Inr (d, es))
                     else Inr (dev p, [])) (\<lambda>(d, es).
                Inr (p\<lparr>buf48 := buf, hlw_buff := hb, wait_flag := TRUE, dev := d\<rparr>, es)))
         else Inr (p, []))"

fun deal_data ::
    "(bool \<times> u8 list option) list \<Rightarrow> port \<Rightarrow> (port \<times> hlw_event list) res" where
  "deal_data [] p = Inr (p, [])"
| "deal_data (x # xs) p =
     rbind (deal_data_turn x p) (\<lambda>(p', es).
     rbind (deal_data xs p') (\<lambda>(p'', es'). Inr (p'', es @ es')))"

text \<open>
  \<open>main\<close> up to the given turns of its loop: \<open>Inl\<close> an exit code, \<open>Inr\<close> the state of the running
  loop.
\<close>

definition hlw_main ::
    "int \<Rightarrow> termios option \<Rightarrow> bool \<Rightarrow> (bool \<times> u8 list option) list \<Rightarrow>
     (int + (port \<times> hlw_event list) res)" where
  "hlw_main fd tcget tcset_ok inps =
     (if fd < 0 then Inl (- ENODEV)
      else if fst (set_serial tcget tcset_ok 8 1 CHR ''E'') \<noteq> 0 then Inl (- EPERM)
      else Inr (deal_data inps init_port))"

section \<open>Lemmas\<close>

named_theorems hlw_window

lemma getVIPvalue_median: "getVIPvalue [a, b, c] = Inr (sort [a, b, c] ! 1)"
  by (auto simp: getVIPvalue_def upt_rec insort_key.simps split: if_splits)

lemma updataVIPvalue_3 [hlw_window]: "updataVIPvalue [a, b, c] d = [d, a, b]"
  by (simp add: updataVIPvalue_def numeral_2_eq_2)

lemma resetVIPvalue_3 [hlw_window]: "resetVIPvalue [a, b, c] d = [d, d, d]"
  by (simp add: resetVIPvalue_def upt_rec)

lemma push_sample_3 [hlw_window]: "push_sample [a, b, c] 0 d = ([d, a, b], 0)"
  by (simp add: push_sample_def hlw_window Let_def)

lemma length_resetVIPvalue [simp]: "length (resetVIPvalue a d) = length a"
  by (simp add: resetVIPvalue_def upt_rec)

definition hlw_inv :: "hlw \<Rightarrow> bool" where
  "hlw_inv s \<longleftrightarrow> length (voltage_a s) = 3 \<and> voltageCnt s = 0
     \<and> length (electricity_a s) = 3 \<and> electricityCnt s = 0
     \<and> length (power_a s) = 3 \<and> powerCnt s = 0"

lemma getVIPvalue_Inr:
  assumes "length a = 3" shows "\<exists>v. getVIPvalue a = Inr v \<and> v \<in> set a"
proof -
  from assms obtain x y z where a: "a = [x, y, z]" by (auto simp: length3_conv)
  have "sort [x, y, z] ! 1 \<in> set (sort [x, y, z])" by (rule nth_mem) simp
  then show ?thesis unfolding a getVIPvalue_median by simp
qed

lemma push_sample_inv:
  "length a = 3 \<Longrightarrow> push_sample a 0 d = (d # butlast a, 0)"
  by (auto simp: length3_conv hlw_window)

lemma deal_voltage_inv:
  assumes "hlw_inv s"
  shows "\<exists>v s' es. deal_voltage b buf s = Inr (v, s', es) \<and> hlw_inv s'
    \<and> runingInf s' = runingInf s \<and> powerNewFlag s' = powerNewFlag s"
proof -
  have l: "length (be24 buf 5 # butlast (voltage_a s)) = 3" using assms by (simp add: hlw_inv_def)
  obtain v where "getVIPvalue (be24 buf 5 # butlast (voltage_a s)) = Inr v"
    using getVIPvalue_Inr [OF l] by blast
  then show ?thesis using assms by (simp add: deal_voltage_def hlw_inv_def push_sample_inv Let_def)
qed

lemma deal_electricity_inv:
  assumes "hlw_inv s"
  shows "\<exists>v s' es. deal_electricity b buf s = Inr (v, s', es) \<and> hlw_inv s'
    \<and> runingInf s' = runingInf s \<and> powerNewFlag s' = powerNewFlag s"
proof -
  have l: "length (be24 buf 11 # butlast (electricity_a s)) = 3" using assms by (simp add: hlw_inv_def)
  obtain v where "getVIPvalue (be24 buf 11 # butlast (electricity_a s)) = Inr v"
    using getVIPvalue_Inr [OF l] by blast
  then show ?thesis using assms by (simp add: deal_electricity_def hlw_inv_def push_sample_inv Let_def)
qed

text \<open>The coefficient the energy unit is computed from: what the frame says, or 0.\<close>

definition power_k_of :: "u8 list \<Rightarrow> hlw \<Rightarrow> u64" where
  "power_k_of buf s = (if flag_set buf 0x10 \<or> powerNewFlag s = 0 then be24 buf 14 else 0)"

lemma deal_power_inv:
  assumes "hlw_inv s"
  shows "\<exists>v s' es. deal_power b buf s = Inr (power_k_of buf s, v, s', es) \<and> hlw_inv s'
    \<and> runingInf s' = runingInf s
    \<and> powerNewFlag s' = (if flag_set buf 0x10 then 0 else powerNewFlag s)"
proof (cases "flag_set buf 0x10")
  case True
  have l: "length (be24 buf 17 # butlast (power_a s)) = 3" using assms by (simp add: hlw_inv_def)
  obtain v where "getVIPvalue (be24 buf 17 # butlast (power_a s)) = Inr v"
    using getVIPvalue_Inr [OF l] by blast
  then show ?thesis using assms True
    by (simp add: deal_power_def deal_power_new_def hlw_inv_def push_sample_inv Let_def power_k_of_def)
next
  case False
  have l: "length (power_a s) = 3" "length (resetVIPvalue (power_a s) (be24 buf 17)) = 3"
    using assms by (simp_all add: hlw_inv_def)
  obtain v w where "getVIPvalue (power_a s) = Inr v"
    "getVIPvalue (resetVIPvalue (power_a s) (be24 buf 17)) = Inr w"
    using getVIPvalue_Inr [OF l(1)] getVIPvalue_Inr [OF l(2)] by blast
  then show ?thesis using assms False
    by (auto simp add: deal_power_def deal_power_old_def hlw_inv_def Let_def power_k_of_def)
qed

lemma deal_energy_cases:
  "(drop_bit 1 k = 0 \<and> deal_energy buf k r = Inl DivByZero)
    \<or> (drop_bit 1 k \<noteq> 0 \<and> (\<exists>r'. deal_energy buf k r = Inr r'))"
  by (auto simp: deal_energy_def Let_def split: prod.splits)

lemma deal_ok_cases:
  assumes "hlw_inv s"
  shows "if drop_bit 1 (power_k_of buf s) = 0 then deal_ok buf s = Inl DivByZero
         else \<exists>s' es. deal_ok buf s = Inr (s', es) \<and> hlw_inv s'
              \<and> deal_energy buf (power_k_of buf s) (runingInf s) = Inr (runingInf s')"
proof -
  obtain v s1 e1 where 1: "deal_voltage True buf s = Inr (v, s1, e1)" "hlw_inv s1"
    "runingInf s1 = runingInf s" "powerNewFlag s1 = powerNewFlag s"
    using deal_voltage_inv [OF assms] by blast
  obtain i s2 e2 where 2: "deal_electricity True buf s1 = Inr (i, s2, e2)" "hlw_inv s2"
    "runingInf s2 = runingInf s1" "powerNewFlag s2 = powerNewFlag s1"
    using deal_electricity_inv [OF 1(2)] by blast
  have k: "power_k_of buf s2 = power_k_of buf s" using 1 2 by (simp add: power_k_of_def)
  obtain p s3 e3 where 3: "deal_power True buf s2 = Inr (power_k_of buf s, p, s3, e3)" "hlw_inv s3"
    "runingInf s3 = runingInf s2"
    using deal_power_inv [OF 2(2), of True buf] unfolding k by blast
  show ?thesis
    using deal_energy_cases [of "power_k_of buf s" buf "runingInf s"] 1 2 3
    by (auto simp: deal_ok_def hlw_inv_def)
qed


definition damaged_post :: "hlw \<Rightarrow> hlw \<Rightarrow> bool" where
  "damaged_post s s' \<longleftrightarrow> hlw_inv s' \<and> energy (runingInf s') = energy (runingInf s)
     \<and> energyLast (runingInf s') = energyLast (runingInf s)
     \<and> energyFlowFlag (runingInf s') = energyFlowFlag (runingInf s)"

lemma deal_damaged_inv:
  assumes "hlw_inv s"
  shows "\<exists>s' es. deal_damaged buf s = Inr (s', es) \<and> damaged_post s s'"
proof -
  let ?c = "buf ! 0"
  let ?m1 = "if ?c AND 0xF2 = 0xF2
      then Inr (0, 0, s\<lparr>runingInf := (runingInf s)\<lparr>ri_power := 0\<rparr>\<rparr>, [EvPowerError])
      else deal_power False buf s"
  have "\<exists>x. ?m1 = Inr x \<and> damaged_post s (fst (snd (snd x)))"
  proof (rule ex_if_Inr)
    show "\<exists>x. Inr (0, 0, s\<lparr>runingInf := (runingInf s)\<lparr>ri_power := 0\<rparr>\<rparr>, [EvPowerError]) = Inr x
        \<and> damaged_post s (fst (snd (snd x)))"
      using assms by (simp add: damaged_post_def hlw_inv_def)
    show "\<exists>x. deal_power False buf s = Inr x \<and> damaged_post s (fst (snd (snd x)))"
      using deal_power_inv [OF assms, of False buf] by (auto simp: damaged_post_def)
  qed
  then obtain k p s1 e1 where 1: "?m1 = Inr (k, p, s1, e1)" "damaged_post s s1" by auto
  let ?m2 = "if ?c AND 0xF4 = 0xF4
      then Inr (0, s1\<lparr>runingInf := (runingInf s1)\<lparr>ri_electricity := 0\<rparr>\<rparr>, [])
      else deal_electricity False buf s1"
  have i1: "hlw_inv s1" using 1 by (simp add: damaged_post_def)
  have "\<exists>x. ?m2 = Inr x \<and> damaged_post s (fst (snd x))"
  proof (rule ex_if_Inr)
    show "\<exists>x. Inr (0, s1\<lparr>runingInf := (runingInf s1)\<lparr>ri_electricity := 0\<rparr>\<rparr>, []) = Inr x
        \<and> damaged_post s (fst (snd x))"
      using 1(2) by (simp add: damaged_post_def hlw_inv_def)
    show "\<exists>x. deal_electricity False buf s1 = Inr x \<and> damaged_post s (fst (snd x))"
      using deal_electricity_inv [OF i1, of False buf] 1(2) by (auto simp: damaged_post_def)
  qed
  then obtain i s2 e2 where 2: "?m2 = Inr (i, s2, e2)" "damaged_post s s2" by auto
  let ?m3 = "if ?c AND 0xF8 = 0xF8
      then Inr (0, s2\<lparr>runingInf := (runingInf s2)\<lparr>ri_voltage := 0\<rparr>\<rparr>, [])
      else deal_voltage False buf s2"
  have i2: "hlw_inv s2" using 2 by (simp add: damaged_post_def)
  have "\<exists>x. ?m3 = Inr x \<and> damaged_post s (fst (snd x))"
  proof (rule ex_if_Inr)
    show "\<exists>x. Inr (0, s2\<lparr>runingInf := (runingInf s2)\<lparr>ri_voltage := 0\<rparr>\<rparr>, []) = Inr x
        \<and> damaged_post s (fst (snd x))"
      using 2(2) by (simp add: damaged_post_def hlw_inv_def)
    show "\<exists>x. deal_voltage False buf s2 = Inr x \<and> damaged_post s (fst (snd x))"
      using deal_voltage_inv [OF i2, of False buf] 2(2) by (auto simp: damaged_post_def)
  qed
  then obtain v s3 e3 where 3: "?m3 = Inr (v, s3, e3)" "damaged_post s s3" by auto
  have "deal_damaged buf s = Inr (s3, (if ?c AND 0xF1 = 0xF1 then [EvBroken] else [])
      @ e1 @ e2 @ e3 @ [EvSummary ?c v i p])"
    unfolding deal_damaged_def Let_def 1(1) rbind_Inr prod.case 2(1) 3(1) ..
  then show ?thesis using 3(2) by blast
qed

text \<open>Scaling never wraps.\<close>

lemma be24_bound: "unat (be24 buf i) < 2 ^ 24"
proof -
  have "be24 buf i = take_bit 24 (be24 buf i)"
    by (rule bit_word_eqI) (auto simp: be24_def bit_simps intro: ccontr dest: bit_u8_lt)
  then show ?thesis by (metis unsigned_take_bit_eq take_bit_nat_less_exp)
qed

lemma scale_exact:
  assumes "unat k < 2 ^ 24"
  shows "unat (scale k t) = (if t = 0 then 0 else unat k * 100 div unat t * 10)"
proof -
  have a: "unat k * 100 < 2 ^ 31" using assms by simp
  have b: "unat (k * 100) = unat k * 100" using a by (simp add: unat_word_ariths)
  have c: "unat k * 100 div unat t < 2 ^ 31" using a div_le_dividend le_less_trans by blast
  have d: "unat (k * 100 div t) = unat k * 100 div unat t" by (simp only: unat_div_distrib b)
  have e: "unat (w * 10) = unat w * 10" if "unat w < 2 ^ 31" for w :: u64
    using that by (simp add: unat_word_ariths)
  have "unat (k * 100 div t * 10) = unat k * 100 div unat t * 10"
    using e [of "k * 100 div t"] c unfolding d by blast
  then show ?thesis by (simp add: scale_def)
qed

lemma checksum_sum:
  assumes "length buf \<ge> 23"
  shows "unat (checksum buf) = (\<Sum>x\<leftarrow>take 21 (drop 2 buf). unat x) mod 256"
proof -
  have gen: "n \<le> 21 \<Longrightarrow> unat (fold (\<lambda>j c. c + ucast (buf ! (j + 2))) [0 ..< n] (0::u32))
      = (\<Sum>x\<leftarrow>take n (drop 2 buf). unat x) \<and> (\<Sum>x\<leftarrow>take n (drop 2 buf). unat x) \<le> n * 255" for n
  proof (induction n)
    case 0 then show ?case by simp
  next
    case (Suc n)
    have u: "unat (buf ! (n + 2)) \<le> 255" by (rule unat_u8_le)
    have "take (Suc n) (drop 2 buf) = take n (drop 2 buf) @ [buf ! (n + 2)]"
      using Suc.prems assms by (subst take_Suc_conv_app_nth) (auto simp: add.commute)
    then show ?case using Suc u by (simp add: unat_word_ariths unsigned_ucast_eq take_bit_nat_eq_self)
  qed
  have "checksum buf = take_bit 8 (fold (\<lambda>j c. c + ucast (buf ! (j + 2))) [0 ..< 21] 0)"
    unfolding checksum_def by (simp add: take_bit_eq_mask mask_eq_decr_exp)
  then show ?thesis using gen [of 21] by (simp add: unsigned_take_bit_eq take_bit_eq_mod unat_mod_distrib)
qed

section \<open>The energy counter against a true pulse count\<close>

definition counts_to :: "RuningInf \<Rightarrow> nat \<Rightarrow> bool" where
  "counts_to r n \<longleftrightarrow> energyLast r = of_nat n \<and> energyFlowFlag r = of_nat (n div 65536 mod 2)
     \<and> energy r = of_nat (10 * n)"

definition frame_count :: "u8 list \<Rightarrow> u16" where
  "frame_count buf = push_bit 8 (ucast (buf ! 21)) OR ucast (buf ! 22)"

definition frame_reports :: "u8 list \<Rightarrow> nat \<Rightarrow> bool" where
  "frame_reports buf n \<longleftrightarrow> drop_bit 7 (buf ! 20) = of_nat (n div 65536 mod 2)
     \<and> frame_count buf = of_nat n"

lemma flag_parity_eq:
  "(of_nat (a mod 2) :: u8) = of_nat (b mod 2) \<longleftrightarrow> a mod 2 = b mod 2"
proof
  assume "(of_nat (a mod 2) :: u8) = of_nat (b mod 2)"
  then have "unat (of_nat (a mod 2) :: u8) = unat (of_nat (b mod 2) :: u8)" by simp
  then show "a mod 2 = b mod 2" by (simp add: unsigned_of_nat take_bit_eq_mod)
qed simp

lemma energy_add:
  assumes "n \<le> n'" and "n' \<le> n + 65536" and "energy r = of_nat (10 * n)"
    and "c = (of_nat (n' - n) :: u32)"
  shows "energy r + ucast (c * 10) = of_nat (10 * n')"
proof -
  have "c * 10 = of_nat ((n' - n) * 10)" using assms by simp
  then have "(ucast (c * 10) :: u64) = of_nat ((n' - n) * 10)"
    using assms ucast_of_nat_u32 [of "(n' - n) * 10"] by simp
  then have "energy r + ucast (c * 10) = of_nat (10 * n + (n' - n) * 10)"
    by (simp only: assms(3) of_nat_add)
  also have "10 * n + (n' - n) * 10 = 10 * n'" using assms by simp
  finally show ?thesis .
qed

lemma parity_block: "(q :: nat) \<le> q' \<Longrightarrow> q' \<le> q + 1 \<Longrightarrow> q mod 2 = q' mod 2 \<Longrightarrow> q = q'"
  by presburger

lemma next_block_arith:
  fixes q m m' n n' :: nat
  assumes "q * 65536 + m = n" "(q + 1) * 65536 + m' = n'" "m < 65536" "n' \<le> n + 65536"
  shows "n' - n = m' + 65536 - m" "m' \<le> m"
  using assms by auto

lemma deal_energy_counts:
  assumes r: "counts_to r n" and b: "frame_reports buf n'" and n: "n \<le> n'" "n' \<le> n + 65536"
    and e: "deal_energy buf k r = Inr r'"
  shows "counts_to r' n'"
proof (cases "n div 65536 mod 2 = n' div 65536 mod 2")
  case True
  have same: "n div 65536 = n' div 65536"
  proof -
    have "n div 65536 \<le> n' div 65536" "n' div 65536 \<le> n div 65536 + 1"
      using n div_le_mono [of n' "n + 65536" 65536] div_le_mono [of n n' 65536] by auto
    then show ?thesis using True parity_block by blast
  qed
  have d: "n' - n = n' mod 65536 - n mod 65536" "n mod 65536 \<le> n' mod 65536"
    using n(1) div_mult_mod_eq [of n 65536] div_mult_mod_eq [of n' 65536] unfolding same
    by linarith+
  have c: "ucast (of_nat n' :: u16) - ucast (of_nat n :: u16) = (of_nat (n' - n) :: u32)"
    unfolding ucast_of_nat_u16 d(1) using d(2) by (simp add: of_nat_diff)
  show ?thesis
    using e r b energy_add [OF n, of r] True c
    by (auto simp: deal_energy_def counts_to_def frame_reports_def frame_count_def Let_def
        flag_parity_eq split: if_splits)
next
  case False
  have next_block: "n' div 65536 = n div 65536 + 1"
  proof -
    have "n div 65536 \<le> n' div 65536" "n' div 65536 \<le> n div 65536 + 1"
      using n div_le_mono [of n' "n + 65536" 65536] div_le_mono [of n n' 65536] by auto
    then show ?thesis using False by (metis le_antisym le_SucE Suc_eq_plus1)
  qed
  have mod_lt: "n mod 65536 < 65536" by simp
  have d: "n' - n = n' mod 65536 + 65536 - n mod 65536" "n' mod 65536 \<le> n mod 65536"
    using next_block_arith [OF div_mult_mod_eq [of n 65536] _ mod_lt n(2)]
      div_mult_mod_eq [of n' 65536] unfolding next_block by blast+
  have c: "ucast (of_nat n' :: u16) + 65536 - ucast (of_nat n :: u16) = (of_nat (n' - n) :: u32)"
    unfolding ucast_of_nat_u16 d(1) using mod_lt by (simp add: of_nat_diff)
  have g: "\<not> (of_nat n :: u16) < of_nat n'"
    using d(2) by (simp add: word_less_nat_alt unsigned_of_nat take_bit_eq_mod)
  show ?thesis
    using e r b energy_add [OF n, of r] False c g
    by (auto simp: deal_energy_def counts_to_def frame_reports_def frame_count_def Let_def
        flag_parity_eq split: if_splits)
qed

lemma DealUartInf_valid:
  assumes "hlw_inv s" and "24 \<le> length buf" and "checksum buf = ucast (buf ! 23)"
  shows "(buf ! 0 = 0x55 \<and> drop_bit 1 (power_k_of buf s) = 0 \<and> DealUartInf buf 24 s = Inl DivByZero)
    \<or> (\<exists>s' es. DealUartInf buf 24 s = Inr (1, s', es) \<and> hlw_inv s'
        \<and> \<not> (buf ! 0 = 0x55 \<and> drop_bit 1 (power_k_of buf s) = 0)
        \<and> (if buf ! 0 = 0x55 then deal_energy buf (power_k_of buf s) (runingInf s) = Inr (runingInf s')
           else damaged_post s s'))"
proof -
  consider "buf ! 0 = 0x55" | "buf ! 0 = 0xAA" | "buf ! 0 \<noteq> 0x55" "buf ! 0 \<noteq> 0xAA" by blast
  then show ?thesis
  proof cases
    case 1
    then show ?thesis using deal_ok_cases [OF assms(1), of buf] assms
      by (auto simp: DealUartInf_def Let_def split: if_splits)
  next
    case 2
    then show ?thesis using assms by (simp add: DealUartInf_def Let_def damaged_post_def)
  next
    case 3
    then show ?thesis using deal_damaged_inv [OF assms(1), of buf] assms
      by (auto simp: DealUartInf_def Let_def damaged_post_def)
  qed
qed

definition frame_sum_ok :: "u8 list \<Rightarrow> bool" where
  "frame_sum_ok buf \<longleftrightarrow> (\<Sum>x\<leftarrow>take 21 (drop 2 buf). unat x) mod 256 = unat (buf ! 23)"

lemma checksum_ok_iff:
  assumes "24 \<le> length buf"
  shows "checksum buf = ucast (buf ! 23) \<longleftrightarrow> frame_sum_ok buf"
proof -
  have "unat (ucast (buf ! 23) :: u32) = unat (buf ! 23)"
    using unat_u8_le [of "buf ! 23"] by (simp add: unsigned_ucast_eq take_bit_nat_eq_self)
  then show ?thesis using assms checksum_sum [of buf] by (simp add: word_unat_eq_iff frame_sum_ok_def)
qed

lemma DealUartInf_cases:
  assumes "hlw_inv s" and "24 \<le> length buf"
  shows "(DealUartInf buf n s = Inl DivByZero \<and> n = 24 \<and> frame_sum_ok buf \<and> buf ! 0 = 0x55
            \<and> drop_bit 1 (power_k_of buf s) = 0)
       \<or> (\<exists>r s' es. DealUartInf buf n s = Inr (r, s', es) \<and> hlw_inv s'
            \<and> \<not> (n = 24 \<and> frame_sum_ok buf \<and> buf ! 0 = 0x55 \<and> drop_bit 1 (power_k_of buf s) = 0))"
proof (cases "n = 24 \<and> frame_sum_ok buf")
  case True
  then show ?thesis
    using DealUartInf_valid [OF assms] checksum_ok_iff [OF assms(2)] by auto
next
  case False
  then show ?thesis using assms checksum_ok_iff [OF assms(2)] by (auto simp: DealUartInf_def Let_def)
qed

text \<open>C30: A call of \<open>DealUartInf\<close> on a buffer of at least 24 bytes, from any state whose sample windows
  are intact, either returns and keeps the windows intact, or divides by zero; and it divides by zero
  exactly for a complete frame with a correct checksum and header 0x55 whose power coefficient
  (0 while no power frame has been seen) is below 2. It never reads outside the windows or falls off
  the end of \<open>getVIPvalue\<close>.\<close>

theorem DealUartInf_faults:
  assumes "hlw_inv s" and "24 \<le> length buf"
  shows "(DealUartInf buf n s = Inl DivByZero \<and> n = 24 \<and> frame_sum_ok buf \<and> buf ! 0 = 0x55
            \<and> drop_bit 1 (power_k_of buf s) = 0)
       \<or> (\<exists>r s' es. DealUartInf buf n s = Inr (r, s', es) \<and> hlw_inv s'
            \<and> \<not> (n = 24 \<and> frame_sum_ok buf \<and> buf ! 0 = 0x55 \<and> drop_bit 1 (power_k_of buf s) = 0))"
  using assms by (rule DealUartInf_cases)

text \<open>A calibrated frame: all three flags set, two pulses counted.\<close>

definition sample_frame :: "u8 list" where
  "sample_frame = [0x55, 0x5A, 0x02, 0xDB, 0x6C, 0x01, 0x86, 0xA0, 0x00, 0x3E, 0xB1, 0x00, 0x09,
     0xC4, 0x59, 0x68, 0x2F, 0x01, 0x11, 0x70, 0x71, 0x00, 0x02, 0x11]"

text \<open>The same with the power flag clear.\<close>

definition sample_frame_no_power :: "u8 list" where
  "sample_frame_no_power = sample_frame[20 := 0x61, 23 := 0x1]"

lemma sample_frame_sum: "frame_sum_ok sample_frame" "frame_sum_ok sample_frame_no_power"
  by (simp_all add: frame_sum_ok_def sample_frame_def sample_frame_no_power_def)

lemma sample_frame_length [simp]: "length sample_frame = 24" "length sample_frame_no_power = 24"
  by (simp_all add: sample_frame_def sample_frame_no_power_def)

lemma hlw_inv_init [simp]: "hlw_inv init_hlw"
  by (simp add: hlw_inv_def init_hlw_def)

lemma powerNewFlag_init: "powerNewFlag init_hlw = 1"
  by (simp add: init_hlw_def)

theorem DealUartInf_faults_witness:
  "hlw_inv init_hlw \<and> \<not> (\<exists>x. DealUartInf sample_frame 24 init_hlw = Inl x)"
  using DealUartInf_faults [of init_hlw sample_frame 24]
  by (auto simp: power_k_of_def sample_frame_def flag_set_def be24_def)

text \<open>The meter started on a complete, correct 0x55 frame that does not carry the
  power-update flag divides by zero: \<open>power_k\<close> is still 0 when the energy unit is computed.\<close>

theorem DealUartInf_uncalibrated_start:
  assumes "24 \<le> length buf" and "frame_sum_ok buf" and "buf ! 0 = 0x55" and "\<not> flag_set buf 0x10"
  shows "DealUartInf buf 24 init_hlw = Inl DivByZero"
  using assms DealUartInf_cases [of init_hlw buf 24]
  by (auto simp: power_k_of_def powerNewFlag_init)

theorem DealUartInf_uncalibrated_start_witness:
  "DealUartInf sample_frame_no_power 24 init_hlw = Inl DivByZero"
  by (rule DealUartInf_uncalibrated_start)
    (simp_all add: sample_frame_sum, simp_all add: sample_frame_no_power_def sample_frame_def flag_set_def)

text \<open>A frame is taken (result 1) exactly when 24 bytes were received and bytes 2 to 22 add up to
  byte 23 modulo 256; otherwise the result is -1 or -2 and no state changes.\<close>

theorem DealUartInf_accepts:
  assumes "24 \<le> length buf" and "DealUartInf buf n s = Inr (r, s', es)"
  shows "(r = 1 \<longleftrightarrow> n = 24 \<and> frame_sum_ok buf)
    \<and> (n \<noteq> 24 \<longrightarrow> r = -1 \<and> s' = s) \<and> (n = 24 \<and> \<not> frame_sum_ok buf \<longrightarrow> r = -2 \<and> s' = s)"
  using assms checksum_ok_iff [OF assms(1)]
  by (auto simp: DealUartInf_def Let_def split: if_splits)

theorem DealUartInf_accepts_witness:
  "24 \<le> length (sample_frame[23 := 0]) \<and> (\<exists>s'. s' = init_hlw \<and>
     DealUartInf (sample_frame[23 := 0]) 24 init_hlw
       = Inr (-2, s', [EvInput (sample_frame[23 := 0]), EvChecksum 0x11 0, EvErrChecksum]))"
proof -
  have 1: "24 \<le> length (sample_frame[23 := 0])" by simp
  have "DealUartInf (sample_frame[23 := 0]) 24 init_hlw
       = Inr (-2, init_hlw, [EvInput (sample_frame[23 := 0]), EvChecksum 0x11 0, EvErrChecksum])"
    by (simp add: DealUartInf_def Let_def checksum_def upt_rec sample_frame_def)
  with DealUartInf_accepts [OF 1 this] show ?thesis by simp
qed

text \<open>The filter returns the median of its three samples, duplicates included: the two-index
  scan for the last maximum and the first minimum always leaves one index.\<close>

theorem getVIPvalue_is_median:
  "getVIPvalue [a, b, c] = Inr (sort [a, b, c] ! 1)"
  by (rule getVIPvalue_median)

fun feed :: "u8 list list \<Rightarrow> hlw \<Rightarrow> hlw res" where
  "feed [] s = Inr s"
| "feed (buf # bufs) s = rbind (DealUartInf buf 24 s) (\<lambda>(r, s', es). feed bufs s')"

text \<open>The frames of a meter whose pulse count moves from \<open>n\<close> through \<open>ns\<close>.\<close>

fun frames_of :: "nat \<Rightarrow> nat list \<Rightarrow> u8 list list \<Rightarrow> bool" where
  "frames_of n [] bufs = (bufs = [])"
| "frames_of n (m # ms) bufs = (case bufs of [] \<Rightarrow> False
     | buf # bufs' \<Rightarrow> n \<le> m \<and> m \<le> n + 65536 \<and> length buf = 24 \<and> frame_sum_ok buf
         \<and> buf ! 0 = 0x55 \<and> frame_reports buf m \<and> frames_of m ms bufs')"

text \<open>C1: The accumulated energy is ten times the true pulse count: over any run of 0x55 frames of a
  meter whose 16-bit counter and overflow bit report a growing count, with at most 65536 new pulses
  per frame, the model's \<open>energy\<close> is the last count times ten (modulo the width of the field),
  through every counter overflow.\<close>

theorem energy_tracks_pulses:
  assumes "hlw_inv s" and "counts_to (runingInf s) n" and "frames_of n ms bufs"
    and "feed bufs s = Inr s'"
  shows "energy (runingInf s') = of_nat (10 * last (n # ms))"
proof -
  have "counts_to (runingInf s') (last (n # ms))"
    using assms
  proof (induction ms arbitrary: n bufs s)
    case Nil
    then show ?case by simp
  next
    case (Cons m ms)
    then obtain buf bufs' where b: "bufs = buf # bufs'" "n \<le> m" "m \<le> n + 65536" "length buf = 24"
      "frame_sum_ok buf" "buf ! 0 = 0x55" "frame_reports buf m" "frames_of m ms bufs'"
      by (auto split: list.splits)
    from Cons.prems(4) b(1) obtain r s1 es where f: "DealUartInf buf 24 s = Inr (r, s1, es)"
      "feed bufs' s1 = Inr s'" by auto
    have c: "checksum buf = ucast (buf ! 23)" using b checksum_ok_iff [of buf] by simp
    from DealUartInf_valid [OF Cons.prems(1) _ c] b f
    have "hlw_inv s1" "deal_energy buf (power_k_of buf s) (runingInf s) = Inr (runingInf s1)"
      by (auto split: if_splits)
    with deal_energy_counts [OF Cons.prems(2) b(7) b(2,3)] Cons.IH [of s1 m bufs'] b(8) f(2)
    show ?case by auto
  qed
  then show ?thesis by (simp add: counts_to_def)
qed

theorem energy_tracks_pulses_witness:
  "\<exists>s'. feed [sample_frame] init_hlw = Inr s' \<and> energy (runingInf s') = 20"
proof -
  have i: "counts_to (runingInf init_hlw) 0"
    by (simp add: counts_to_def init_hlw_def init_RuningInf_def)
  have f: "frames_of 0 [2] [sample_frame]"
    by (simp add: sample_frame_sum)
      (simp add: sample_frame_def frame_reports_def frame_count_def)
  obtain s' where s: "feed [sample_frame] init_hlw = Inr s'"
    using DealUartInf_cases [of init_hlw sample_frame 24]
    by (auto simp: power_k_of_def sample_frame_def flag_set_def be24_def)
  from energy_tracks_pulses [OF hlw_inv_init i f s] s show ?thesis by simp
qed

text \<open>The set-up \<open>main\<close> asks for (8 data bits, 1 stop bit, even parity) either fails with -EPERM
  or installs exactly 4800 baud, 8 bits, even parity, one stop bit, parity check on input, no CR
  translation, raw mode and reads of at least 24 bytes, whatever the previous settings.\<close>

theorem set_serial_even_parity:
  "set_serial tcget tcset_ok 8 1 CHR ''E'' =
     (case tcget of None \<Rightarrow> (-1, None)
      | Some t \<Rightarrow> (if tcset_ok then 0 else -1,
          Some (t\<lparr>c_iflag := (c_iflag t OR 0x10) AND NOT 0x100, c_oflag := 0, c_cflag := 0x9BC,
                  c_lflag := 0, c_vtime := 0, c_vmin := 24\<rparr>)))"
  by (cases tcget) (simp_all add: set_serial_def set_parity_def data_bits_def parity_bits_def
      stop_bits_def Let_def)

definition port_inv :: "port \<Rightarrow> bool" where
  "port_inv p \<longleftrightarrow> length (buf48 p) = 48 \<and> length (hlw_buff p) = 24 \<and> hlw_inv (dev p)"

text \<open>The copy of a frame: the first 24 bytes read take its place.\<close>

lemma cpy_take:
  assumes "length d = n" and "n \<le> length src"
  shows "cpy src d n = Inr (take n src)"
proof -
  have "k \<le> n \<Longrightarrow> cpy_each src [k ..< n] (take k src @ drop k d) = Inr (take n src)" for k
  proof (induction "n - k" arbitrary: k)
    case (Suc m)
    then have k: "k < n" "k < length src" "k < length (take k src @ drop k d)" using assms by auto
    have "(take k src @ drop k d)[k := src ! k] = take (Suc k) src @ drop (Suc k) d"
      using assms k by (simp add: list_update_append take_Suc_conv_app_nth Cons_nth_drop_Suc [symmetric])
    then show ?case using Suc.hyps(1) [of "Suc k"] Suc.hyps(2) k by (simp add: upt_conv_Cons)
  qed (use assms in simp)
  from this [of 0] show ?thesis by (simp add: cpy_def)
qed

lemma take_frame_run:
  assumes "24 \<le> length buf" "length h = 24" "\<forall>i\<in>set is. i < 24"
  shows "take_frame buf is h = Inr (if \<exists>i\<in>set is. buf ! i = 0x5A then take 24 buf else h)"
  using assms(2,3)
proof (induction "is" arbitrary: h)
  case (Cons i "is")
  have "cpy buf h 24 = Inr (take 24 buf)" using Cons.prems assms(1) by (intro cpy_take) auto
  then show ?case using Cons assms(1) by auto
qed simp

lemma check_byte:
  assumes "24 \<le> length buf"
  shows "(\<exists>i\<in>set [0 ..< 24]. buf ! i = 0x5A) \<longleftrightarrow> (0x5A :: u8) \<in> set (take 24 buf)"
  unfolding in_set_conv_nth using assms by (auto simp del: upt_rec_numeral)

subsection \<open>The read loop\<close>

text \<open>What the loop does, without its arrays and flags: a signal lets one \<open>read\<close> overwrite the start of the input
  \<open>b\<close>; when a check byte is among the first 24 bytes of the input they become the frame \<open>h\<close>; and the frame, new or
  old, is dealt with under the length read when its own check byte is in place.\<close>

definition bytes_read :: "u8 list option \<Rightarrow> u8 list" where
  "bytes_read r = (case r of None \<Rightarrow> [] | Some bs \<Rightarrow> take 48 bs)"

fun offered :: "(bool \<times> u8 list option) list \<Rightarrow> u8 list \<Rightarrow> u8 list \<Rightarrow> (u8 list \<times> int) list" where
  "offered [] b h = []"
| "offered ((signal, r) # xs) b h =
     (if signal then
        let bs = bytes_read r; b' = bs @ drop (length bs) b; h' = (if 0x5A \<in> set (take 24 b') then take 24 b' else h)
        in (if h' ! 1 = 0x5A then [(h', if r = None then -1 else int (length bs))] else []) @ offered xs b' h'
      else offered xs b h)"

fun deal_frames :: "(u8 list \<times> int) list \<Rightarrow> hlw \<Rightarrow> (hlw \<times> hlw_event list) res" where
  "deal_frames [] d = Inr (d, [])"
| "deal_frames ((h, n) # fs) d = rbind (DealUartInf h n d) (\<lambda>(ret, d, es).
     rbind (deal_frames fs d) (\<lambda>(d, es'). Inr (d, es @ es')))"

lemma read48_bytes:
  "read48 r b = (if r = None then -1 else int (length (bytes_read r)), bytes_read r @ drop (length (bytes_read r)) b)"
  by (cases r) (simp_all add: read48_def bytes_read_def)

lemma rbind_same: "rbind m (\<lambda>(a, b). Inr (a, b)) = m" "rbind m Inr = m"
  by (cases m; auto)+

lemma idle_turn: "wait_flag p = TRUE \<Longrightarrow> deal_data_turn (False, r) p = Inr (p, [])"
  by (simp add: deal_data_turn_def)

lemma signal_turn:
  assumes p: "port_inv p" and b: "b = bytes_read r @ drop (length (bytes_read r)) (buf48 p)"
    and h: "h = (if 0x5A \<in> set (take 24 b) then take 24 b else hlw_buff p)"
  shows "deal_data_turn (True, r) p =
      rbind (if h ! 1 = 0x5A then rbind (DealUartInf h (if r = None then -1 else int (length (bytes_read r))) (dev p)) (\<lambda>(ret, d, es). Inr (d, es))
        else Inr (dev p, [])) (\<lambda>(d, es). Inr (p\<lparr>buf48 := b, hlw_buff := h, wait_flag := TRUE, dev := d\<rparr>, es))"
    and "length b = 48" "length h = 24"
proof -
  have len: "length (bytes_read r) \<le> 48" by (cases r) (simp_all add: bytes_read_def)
  then show l: "length b = 48" using p by (simp add: b port_inv_def)
  then show "length h = 24" using p by (simp add: h port_inv_def)
  have f: "take_frame b [0 ..< 24] (hlw_buff p) = Inr h"
  proof -
    have "24 \<le> length b" "length (hlw_buff p) = 24" "\<forall>i\<in>set [0 ..< 24]. i < 24" using l p by (simp_all add: port_inv_def)
    then show ?thesis unfolding h check_byte [OF \<open>24 \<le> length b\<close>, symmetric] by (rule take_frame_run)
  qed
  show "deal_data_turn (True, r) p =
      rbind (if h ! 1 = 0x5A then rbind (DealUartInf h (if r = None then -1 else int (length (bytes_read r))) (dev p)) (\<lambda>(ret, d, es). Inr (d, es))
        else Inr (dev p, [])) (\<lambda>(d, es). Inr (p\<lparr>buf48 := b, hlw_buff := h, wait_flag := TRUE, dev := d\<rparr>, es))"
    using f by (simp add: deal_data_turn_def signal_handler_IO_def read48_bytes b [symmetric] del: upt_rec_numeral)
qed

text \<open>C38: the read loop, over any sequence of signals and of results of \<open>read\<close>, failures and short reads included,
  deals with exactly the frames that have been offered, in order and each once, and its events are theirs. It never
  reads or writes outside its arrays, which keep their sizes; the only fault it can meet is the division by zero of a
  frame. A \<open>read\<close> of 24 bytes without a check byte has the frame before dealt with again.\<close>

theorem deal_data_safe:
  assumes "port_inv p" "wait_flag p = TRUE"
  shows "case deal_frames (offered xs (buf48 p) (hlw_buff p)) (dev p) of
      Inl e \<Rightarrow> deal_data xs p = Inl e \<and> e = DivByZero
    | Inr (d, es) \<Rightarrow> \<exists>p'. deal_data xs p = Inr (p', es) \<and> dev p' = d \<and> port_inv p' \<and> wait_flag p' = TRUE"
  using assms
proof (induction xs arbitrary: p)
  case (Cons x xs)
  obtain sg r where x: "x = (sg, r)" by (cases x)
  show ?case
  proof (cases sg)
    case False
    then have "deal_data (x # xs) p = deal_data xs p" "offered (x # xs) (buf48 p) (hlw_buff p) = offered xs (buf48 p) (hlw_buff p)"
      using idle_turn [OF Cons.prems(2), of r] by (simp_all add: x rbind_same)
    then show ?thesis using Cons.IH [OF Cons.prems] by (simp only:)
  next
    case True
    obtain b h n where b: "b = bytes_read r @ drop (length (bytes_read r)) (buf48 p)"
      and h: "h = (if 0x5A \<in> set (take 24 b) then take 24 b else hlw_buff p)"
      and n: "n = (if r = None then -1 else int (length (bytes_read r)))" by blast
    let ?p = "p\<lparr>buf48 := b, hlw_buff := h, wait_flag := TRUE\<rparr>"
    note t = signal_turn [OF Cons.prems(1) b h, folded n]
    have d: "hlw_inv (dev p)" using Cons.prems(1) by (simp add: port_inv_def)
    have off: "offered (x # xs) (buf48 p) (hlw_buff p) = (if h ! 1 = 0x5A then [(h, n)] else []) @ offered xs b h"
      using True unfolding x h n b by (simp add: Let_def del: take_append)
    have step: "port_inv (?p\<lparr>dev := d'\<rparr>) \<and> wait_flag (?p\<lparr>dev := d'\<rparr>) = TRUE" if "hlw_inv d'" for d'
      using t(2,3) that by (simp add: port_inv_def)
    show ?thesis
    proof (cases "h ! 1 = 0x5A")
      case False
      obtain q where q: "q = ?p\<lparr>dev := dev p\<rparr>" by blast
      then have qs: "buf48 q = b" "hlw_buff q = h" "dev q = dev p" "port_inv q \<and> wait_flag q = TRUE" using step [OF d] by simp_all
      have "deal_data_turn x p = Inr (q, [])" using t(1) \<open>sg\<close> False by (simp add: x q)
      then have e: "deal_data (x # xs) p = deal_data xs q" by (simp add: rbind_same)
      have o: "offered (x # xs) (buf48 p) (hlw_buff p) = offered xs b h" using off False by simp
      show ?thesis using Cons.IH [OF conjunct1 [OF qs(4)] conjunct2 [OF qs(4)]] by (simp only: e o qs(1-3))
    next
      case ok: True
      have turn: "deal_data_turn x p = rbind (DealUartInf h n (dev p)) (\<lambda>(ret, d, es). Inr (?p\<lparr>dev := d\<rparr>, es))"
        using t(1) ok \<open>sg\<close> by (cases "DealUartInf h n (dev p)") (auto simp: x)
      have o: "offered (x # xs) (buf48 p) (hlw_buff p) = (h, n) # offered xs b h" using off ok by simp
      have "24 \<le> length h" using t(3) by simp
      from DealUartInf_cases [OF d this, of n]
      consider "DealUartInf h n (dev p) = Inl DivByZero" | ret d' es where "DealUartInf h n (dev p) = Inr (ret, d', es)" "hlw_inv d'"
        by blast
      then show ?thesis
      proof cases
        case 1
        then show ?thesis using turn o by simp
      next
        case 2
        obtain q where q: "q = ?p\<lparr>dev := d'\<rparr>" by blast
        then have qs: "buf48 q = b" "hlw_buff q = h" "dev q = d'" "port_inv q \<and> wait_flag q = TRUE" using step [OF 2(2)] by simp_all
        have "deal_data_turn x p = Inr (q, es)" using turn 2(1) by (simp add: q)
        then have e: "deal_data (x # xs) p = rbind (deal_data xs q) (\<lambda>(p, es'). Inr (p, es @ es'))" by simp
        have "deal_frames (offered (x # xs) (buf48 p) (hlw_buff p)) (dev p)
            = rbind (deal_frames (offered xs b h) d') (\<lambda>(d, es'). Inr (d, es @ es'))" unfolding o using 2(1) by simp
        then show ?thesis using Cons.IH [OF conjunct1 [OF qs(4)] conjunct2 [OF qs(4)]] unfolding qs(1-3)
          by (cases "deal_frames (offered xs b h) d'") (auto simp: e simp del: deal_data.simps)
      qed
    qed
  qed
qed simp

lemma init_port_inv: "port_inv init_port" "wait_flag init_port = TRUE"
  by (simp_all add: port_inv_def init_port_def)

lemma init_port_sel: "buf48 init_port = replicate 48 0" "hlw_buff init_port = replicate 24 0" "dev init_port = init_hlw"
  by (simp_all add: init_port_def)

lemma offered_sample:
  "offered [(True, Some sample_frame), (True, Some (replicate 24 0))] (replicate 48 0) (replicate 24 0) = [(sample_frame, 24), (sample_frame, 24)]"
  by (simp add: bytes_read_def sample_frame_def Let_def)

theorem deal_data_safe_witness:
  "port_inv init_port \<and> (\<exists>p' d es. deal_frames [(sample_frame, 24), (sample_frame, 24)] init_hlw = Inr (d, es)
     \<and> deal_data [(True, Some sample_frame), (True, Some (replicate 24 0))] init_port = Inr (p', es) \<and> dev p' = d)"
proof -
  have "case deal_frames [(sample_frame, 24), (sample_frame, 24)] init_hlw of Inr x \<Rightarrow> True | Inl _ \<Rightarrow> False" by code_simp
  then obtain d es where "deal_frames [(sample_frame, 24), (sample_frame, 24)] init_hlw = Inr (d, es)" by (auto split: sum.splits)
  then show ?thesis
    using deal_data_safe [OF init_port_inv, of "[(True, Some sample_frame), (True, Some (replicate 24 0))]"] init_port_inv(1)
    by (auto simp del: offered.simps deal_data.simps simp: init_port_sel offered_sample)
qed

end
