(* ===== verification/KList.thy ===== *)
theory KList
  imports Prelude
begin

text \<open>
  The circular doubly linked list of \<^verbatim>\<open>src/config_item/include/list.h\<close> (the port of the Linux
  kernel's \<^verbatim>\<open>list.h\<close>): \<open>struct list_head\<close> cells in a pointer heap, every operation as the sequence
  of pointer reads and writes the code performs (a read or write through a pointer to no live cell is
  the fault \<open>BadPointer\<close>), and the traversal macros as loops with fuel.

  The abstraction \<open>dll h head xs\<close> says that the cell \<open>head\<close> heads a well-formed ring whose entries
  are \<open>xs\<close>, in order. Each operation's lemma says what it does to that list.
\<close>

record list_head =
  lnext :: addr
  lprev :: addr

type_synonym lheap = "addr \<rightharpoonup> list_head"

abbreviation (input) LIST_POISON1 :: addr where "LIST_POISON1 \<equiv> 0x00100100"
abbreviation (input) LIST_POISON2 :: addr where "LIST_POISON2 \<equiv> 0x00200200"

section \<open>Reads and writes of the two fields\<close>

definition get_next :: "lheap \<Rightarrow> addr \<Rightarrow> addr res" where
  "get_next h a = (case h a of None \<Rightarrow> Inl BadPointer | Some c \<Rightarrow> Inr (lnext c))"

definition get_prev :: "lheap \<Rightarrow> addr \<Rightarrow> addr res" where
  "get_prev h a = (case h a of None \<Rightarrow> Inl BadPointer | Some c \<Rightarrow> Inr (lprev c))"

definition set_next :: "addr \<Rightarrow> addr \<Rightarrow> lheap \<Rightarrow> lheap res" where
  "set_next a v h = (case h a of None \<Rightarrow> Inl BadPointer | Some c \<Rightarrow> Inr (h(a \<mapsto> c\<lparr>lnext := v\<rparr>)))"

definition set_prev :: "addr \<Rightarrow> addr \<Rightarrow> lheap \<Rightarrow> lheap res" where
  "set_prev a v h = (case h a of None \<Rightarrow> Inl BadPointer | Some c \<Rightarrow> Inr (h(a \<mapsto> c\<lparr>lprev := v\<rparr>)))"

section \<open>The operations\<close>

definition INIT_LIST_HEAD :: "addr \<Rightarrow> lheap \<Rightarrow> lheap res" where
  "INIT_LIST_HEAD l h = rbind (set_next l l h) (set_prev l l)"

definition list_add_between :: "addr \<Rightarrow> addr \<Rightarrow> addr \<Rightarrow> lheap \<Rightarrow> lheap res" where
  "list_add_between new prv nxt h =
     rbind (set_prev nxt new h) (\<lambda>h.
     rbind (set_next new nxt h) (\<lambda>h.
     rbind (set_prev new prv h) (\<lambda>h.
     set_next prv new h)))"

definition list_add :: "addr \<Rightarrow> addr \<Rightarrow> lheap \<Rightarrow> lheap res" where
  "list_add new head h = rbind (get_next h head) (\<lambda>n. list_add_between new head n h)"

definition list_add_tail :: "addr \<Rightarrow> addr \<Rightarrow> lheap \<Rightarrow> lheap res" where
  "list_add_tail new head h = rbind (get_prev h head) (\<lambda>p. list_add_between new p head h)"

definition list_unlink :: "addr \<Rightarrow> addr \<Rightarrow> lheap \<Rightarrow> lheap res" where
  "list_unlink prv nxt h = rbind (set_prev nxt prv h) (set_next prv nxt)"

definition list_del_entry :: "addr \<Rightarrow> lheap \<Rightarrow> lheap res" where
  "list_del_entry e h =
     rbind (get_prev h e) (\<lambda>p. rbind (get_next h e) (\<lambda>n. list_unlink p n h))"

definition list_del :: "addr \<Rightarrow> lheap \<Rightarrow> lheap res" where
  "list_del e h =
     rbind (get_prev h e) (\<lambda>p. rbind (get_next h e) (\<lambda>n.
     rbind (list_unlink p n h) (\<lambda>h.
     rbind (set_next e LIST_POISON1 h) (set_prev e LIST_POISON2))))"

definition list_replace :: "addr \<Rightarrow> addr \<Rightarrow> lheap \<Rightarrow> lheap res" where
  "list_replace old new h =
     rbind (get_next h old) (\<lambda>on. rbind (set_next new on h) (\<lambda>h.
     rbind (get_next h new) (\<lambda>nn. rbind (set_prev nn new h) (\<lambda>h.
     rbind (get_prev h old) (\<lambda>op. rbind (set_prev new op h) (\<lambda>h.
     rbind (get_prev h new) (\<lambda>np. set_next np new h)))))))"

definition list_replace_init :: "addr \<Rightarrow> addr \<Rightarrow> lheap \<Rightarrow> lheap res" where
  "list_replace_init old new h = rbind (list_replace old new h) (INIT_LIST_HEAD old)"

definition list_del_init :: "addr \<Rightarrow> lheap \<Rightarrow> lheap res" where
  "list_del_init e h = rbind (list_del_entry e h) (INIT_LIST_HEAD e)"

definition list_move :: "addr \<Rightarrow> addr \<Rightarrow> lheap \<Rightarrow> lheap res" where
  "list_move l head h = rbind (list_del_entry l h) (list_add l head)"

definition list_move_tail :: "addr \<Rightarrow> addr \<Rightarrow> lheap \<Rightarrow> lheap res" where
  "list_move_tail l head h = rbind (list_del_entry l h) (list_add_tail l head)"

definition list_is_last :: "addr \<Rightarrow> addr \<Rightarrow> lheap \<Rightarrow> bool res" where
  "list_is_last l head h = rbind (get_next h l) (\<lambda>n. Inr (n = head))"

definition list_empty :: "addr \<Rightarrow> lheap \<Rightarrow> bool res" where
  "list_empty head h = rbind (get_next h head) (\<lambda>n. Inr (n = head))"

definition list_empty_careful :: "addr \<Rightarrow> lheap \<Rightarrow> bool res" where
  "list_empty_careful head h =
     rbind (get_next h head) (\<lambda>n.
     if n = head then rbind (get_prev h head) (\<lambda>p. Inr (n = p)) else Inr False)"

definition list_rotate_left :: "addr \<Rightarrow> lheap \<Rightarrow> lheap res" where
  "list_rotate_left head h =
     rbind (list_empty head h) (\<lambda>e.
     if e then Inr h else rbind (get_next h head) (\<lambda>first. list_move_tail first head h))"

definition list_is_singular :: "addr \<Rightarrow> lheap \<Rightarrow> bool res" where
  "list_is_singular head h =
     rbind (list_empty head h) (\<lambda>e.
     if e then Inr False
     else rbind (get_next h head) (\<lambda>n. rbind (get_prev h head) (\<lambda>p. Inr (n = p))))"

definition list_cut_raw :: "addr \<Rightarrow> addr \<Rightarrow> addr \<Rightarrow> lheap \<Rightarrow> lheap res" where
  "list_cut_raw l head entry h =
     rbind (get_next h entry) (\<lambda>new_first.
     rbind (get_next h head) (\<lambda>hn. rbind (set_next l hn h) (\<lambda>h.
     rbind (get_next h l) (\<lambda>ln. rbind (set_prev ln l h) (\<lambda>h.
     rbind (set_prev l entry h) (\<lambda>h.
     rbind (set_next entry l h) (\<lambda>h.
     rbind (set_next head new_first h) (\<lambda>h.
     set_prev new_first head h))))))))"

definition list_cut_position :: "addr \<Rightarrow> addr \<Rightarrow> addr \<Rightarrow> lheap \<Rightarrow> lheap res" where
  "list_cut_position l head entry h =
     rbind (list_empty head h) (\<lambda>e.
     if e then Inr h
     else rbind (list_is_singular head h) (\<lambda>sg.
     rbind (if sg then rbind (get_next h head) (\<lambda>n. Inr (n \<noteq> entry \<and> head \<noteq> entry)) else Inr False) (\<lambda>c.
     if c then Inr h
     else if entry = head then INIT_LIST_HEAD l h
     else list_cut_raw l head entry h)))"

definition list_splice_between :: "addr \<Rightarrow> addr \<Rightarrow> addr \<Rightarrow> lheap \<Rightarrow> lheap res" where
  "list_splice_between l prv nxt h =
     rbind (get_next h l) (\<lambda>first. rbind (get_prev h l) (\<lambda>last.
     rbind (set_prev first prv h) (\<lambda>h.
     rbind (set_next prv first h) (\<lambda>h.
     rbind (set_next last nxt h) (\<lambda>h.
     set_prev nxt last h)))))"

definition list_splice :: "addr \<Rightarrow> addr \<Rightarrow> lheap \<Rightarrow> lheap res" where
  "list_splice l head h =
     rbind (list_empty l h) (\<lambda>e.
     if e then Inr h else rbind (get_next h head) (\<lambda>n. list_splice_between l head n h))"

definition list_splice_tail :: "addr \<Rightarrow> addr \<Rightarrow> lheap \<Rightarrow> lheap res" where
  "list_splice_tail l head h =
     rbind (list_empty l h) (\<lambda>e.
     if e then Inr h else rbind (get_prev h head) (\<lambda>p. list_splice_between l p head h))"

definition list_splice_init :: "addr \<Rightarrow> addr \<Rightarrow> lheap \<Rightarrow> lheap res" where
  "list_splice_init l head h =
     rbind (list_empty l h) (\<lambda>e.
     if e then Inr h
     else rbind (get_next h head) (\<lambda>n. rbind (list_splice_between l head n h) (INIT_LIST_HEAD l)))"

definition list_splice_tail_init :: "addr \<Rightarrow> addr \<Rightarrow> lheap \<Rightarrow> lheap res" where
  "list_splice_tail_init l head h =
     rbind (list_empty l h) (\<lambda>e.
     if e then Inr h
     else rbind (get_prev h head) (\<lambda>p. rbind (list_splice_between l p head h) (INIT_LIST_HEAD l)))"

section \<open>The traversal macros\<close>

text \<open>
  The loop macros expand around a body that may use and change the heap and the program's own state
  \<open>'s\<close>. \<open>None\<close> means that the fuel ran out before the loop ended; a fault ends the loop.
\<close>

type_synonym 's body = "addr \<Rightarrow> 's \<Rightarrow> lheap \<Rightarrow> ('s \<times> lheap) res"

text \<open>
  \<open>step\<close> is \<open>get_next\<close> for the forward macros and \<open>get_prev\<close> for the backward ones;
  \<open>list_entry\<close> is the identity on addresses (\<open>container_of\<close> adds a constant offset), so the
  \<open>_entry\<close> variants are the same loops.
\<close>

fun each_from :: "(lheap \<Rightarrow> addr \<Rightarrow> addr res) \<Rightarrow> nat \<Rightarrow> 's body \<Rightarrow> addr \<Rightarrow> addr \<Rightarrow> 's \<Rightarrow> lheap
    \<Rightarrow> ('s \<times> lheap) res option" where
  "each_from step 0 body head pos s h = None"
| "each_from step (Suc k) body head pos s h =
     (if pos = head then Some (Inr (s, h))
      else case body pos s h of Inl e \<Rightarrow> Some (Inl e)
        | Inr (s', h') \<Rightarrow> (case step h' pos of Inl e \<Rightarrow> Some (Inl e)
            | Inr pos' \<Rightarrow> each_from step k body head pos' s' h'))"

definition list_for_each :: "nat \<Rightarrow> 's body \<Rightarrow> addr \<Rightarrow> 's \<Rightarrow> lheap \<Rightarrow> ('s \<times> lheap) res option" where
  "list_for_each k body head s h =
     (case get_next h head of Inl e \<Rightarrow> Some (Inl e)
      | Inr pos \<Rightarrow> each_from get_next k body head pos s h)"

definition list_for_each_prev ::
    "nat \<Rightarrow> 's body \<Rightarrow> addr \<Rightarrow> 's \<Rightarrow> lheap \<Rightarrow> ('s \<times> lheap) res option" where
  "list_for_each_prev k body head s h =
     (case get_prev h head of Inl e \<Rightarrow> Some (Inl e)
      | Inr pos \<Rightarrow> each_from get_prev k body head pos s h)"

definition list_for_each_continue ::
    "nat \<Rightarrow> 's body \<Rightarrow> addr \<Rightarrow> addr \<Rightarrow> 's \<Rightarrow> lheap \<Rightarrow> ('s \<times> lheap) res option" where
  "list_for_each_continue k body head pos s h =
     (case get_next h pos of Inl e \<Rightarrow> Some (Inl e)
      | Inr pos' \<Rightarrow> each_from get_next k body head pos' s h)"

definition list_for_each_continue_reverse ::
    "nat \<Rightarrow> 's body \<Rightarrow> addr \<Rightarrow> addr \<Rightarrow> 's \<Rightarrow> lheap \<Rightarrow> ('s \<times> lheap) res option" where
  "list_for_each_continue_reverse k body head pos s h =
     (case get_prev h pos of Inl e \<Rightarrow> Some (Inl e)
      | Inr pos' \<Rightarrow> each_from get_prev k body head pos' s h)"

definition list_for_each_from ::
    "nat \<Rightarrow> 's body \<Rightarrow> addr \<Rightarrow> addr \<Rightarrow> 's \<Rightarrow> lheap \<Rightarrow> ('s \<times> lheap) res option" where
  "list_for_each_from k body head pos s h = each_from get_next k body head pos s h"

text \<open>The loops that fetch the following entry \<open>n\<close> before the body runs.\<close>

fun each_safe :: "(lheap \<Rightarrow> addr \<Rightarrow> addr res) \<Rightarrow> nat \<Rightarrow> 's body \<Rightarrow> addr \<Rightarrow> addr \<Rightarrow> addr \<Rightarrow> 's \<Rightarrow> lheap
    \<Rightarrow> ('s \<times> lheap) res option" where
  "each_safe step 0 body head pos n s h = None"
| "each_safe step (Suc k) body head pos n s h =
     (if pos = head then Some (Inr (s, h))
      else case body pos s h of Inl e \<Rightarrow> Some (Inl e)
        | Inr (s', h') \<Rightarrow> (case step h' n of Inl e \<Rightarrow> Some (Inl e)
            | Inr n' \<Rightarrow> each_safe step k body head n n' s' h'))"

definition list_for_each_safe_from ::
    "nat \<Rightarrow> 's body \<Rightarrow> addr \<Rightarrow> addr \<Rightarrow> 's \<Rightarrow> lheap \<Rightarrow> ('s \<times> lheap) res option" where
  "list_for_each_safe_from k body head pos s h =
     (case get_next h pos of Inl e \<Rightarrow> Some (Inl e)
      | Inr n \<Rightarrow> each_safe get_next k body head pos n s h)"

definition list_for_each_safe :: "nat \<Rightarrow> 's body \<Rightarrow> addr \<Rightarrow> 's \<Rightarrow> lheap \<Rightarrow> ('s \<times> lheap) res option" where
  "list_for_each_safe k body head s h =
     (case get_next h head of Inl e \<Rightarrow> Some (Inl e)
      | Inr pos \<Rightarrow> list_for_each_safe_from k body head pos s h)"

definition list_for_each_safe_continue ::
    "nat \<Rightarrow> 's body \<Rightarrow> addr \<Rightarrow> addr \<Rightarrow> 's \<Rightarrow> lheap \<Rightarrow> ('s \<times> lheap) res option" where
  "list_for_each_safe_continue k body head pos s h =
     (case get_next h pos of Inl e \<Rightarrow> Some (Inl e)
      | Inr pos' \<Rightarrow> list_for_each_safe_from k body head pos' s h)"

definition list_for_each_prev_safe ::
    "nat \<Rightarrow> 's body \<Rightarrow> addr \<Rightarrow> 's \<Rightarrow> lheap \<Rightarrow> ('s \<times> lheap) res option" where
  "list_for_each_prev_safe k body head s h =
     (case get_prev h head of Inl e \<Rightarrow> Some (Inl e)
      | Inr pos \<Rightarrow> (case get_prev h pos of Inl e \<Rightarrow> Some (Inl e)
          | Inr n \<Rightarrow> each_safe get_prev k body head pos n s h))"

section \<open>The first and last entry\<close>

definition list_first_entry :: "addr \<Rightarrow> lheap \<Rightarrow> addr res" where
  "list_first_entry head h = get_next h head"

definition list_last_entry :: "addr \<Rightarrow> lheap \<Rightarrow> addr res" where
  "list_last_entry head h = get_prev h head"

definition list_first_entry_or_null :: "addr \<Rightarrow> lheap \<Rightarrow> ptr res" where
  "list_first_entry_or_null head h =
     rbind (list_empty head h) (\<lambda>e. if \<not> e then rbind (list_first_entry head h) (\<lambda>a. Inr (Some a)) else Inr None)"

section \<open>The heap seen through its two link fields\<close>

definition nx :: "lheap \<Rightarrow> addr \<rightharpoonup> addr" where "nx h a = map_option lnext (h a)"
definition pv :: "lheap \<Rightarrow> addr \<rightharpoonup> addr" where "pv h a = map_option lprev (h a)"

lemma get_next_nx: "nx h a = Some b \<Longrightarrow> get_next h a = Inr b"
  by (auto simp: nx_def get_next_def)

lemma get_prev_pv: "pv h a = Some b \<Longrightarrow> get_prev h a = Inr b"
  by (auto simp: pv_def get_prev_def)

lemma live_nx: "nx h a = Some b \<Longrightarrow> a \<in> dom h" and live_pv: "pv h a = Some b \<Longrightarrow> a \<in> dom h"
  by (auto simp: nx_def pv_def)

lemma set_next_nx:
  assumes "a \<in> dom h"
  shows "\<exists>h'. set_next a v h = Inr h' \<and> nx h' = (nx h)(a \<mapsto> v) \<and> pv h' = pv h \<and> dom h' = dom h"
proof -
  obtain c where c: "h a = Some c" using assms by auto
  show ?thesis
    by (rule exI [of _ "h(a \<mapsto> c\<lparr>lnext := v\<rparr>)"]) (use c in \<open>auto simp: set_next_def nx_def pv_def fun_eq_iff\<close>)
qed

lemma set_prev_pv:
  assumes "a \<in> dom h"
  shows "\<exists>h'. set_prev a v h = Inr h' \<and> nx h' = nx h \<and> pv h' = (pv h)(a \<mapsto> v) \<and> dom h' = dom h"
proof -
  obtain c where c: "h a = Some c" using assms by auto
  show ?thesis
    by (rule exI [of _ "h(a \<mapsto> c\<lparr>lprev := v\<rparr>)"]) (use c in \<open>auto simp: set_prev_def nx_def pv_def fun_eq_iff\<close>)
qed

text \<open>
  \<open>links h N P D\<close>: the heap has next-links \<open>N\<close>, prev-links \<open>P\<close> and live cells \<open>D\<close>. The primitive
  writes as rules over such a view; a sequence of writes is run by applying them in order.
\<close>

definition links :: "lheap \<Rightarrow> (addr \<rightharpoonup> addr) \<Rightarrow> (addr \<rightharpoonup> addr) \<Rightarrow> addr set \<Rightarrow> bool" where
  "links h N P D \<longleftrightarrow> nx h = N \<and> pv h = P \<and> dom h = D"

definition yields :: "lheap res \<Rightarrow> (addr \<rightharpoonup> addr) \<Rightarrow> (addr \<rightharpoonup> addr) \<Rightarrow> addr set \<Rightarrow> bool" where
  "yields m N P D \<longleftrightarrow> (\<exists>h. m = Inr h \<and> links h N P D)"

lemma yields_Inr: "links h N P D \<Longrightarrow> yields (Inr h) N P D"
  by (auto simp: yields_def)

lemma yields_set_next: "links h N P D \<Longrightarrow> a \<in> D \<Longrightarrow> yields (set_next a v h) (N(a \<mapsto> v)) P D"
  using set_next_nx [of a h v] by (auto simp: yields_def links_def)

lemma yields_set_prev: "links h N P D \<Longrightarrow> a \<in> D \<Longrightarrow> yields (set_prev a v h) N (P(a \<mapsto> v)) D"
  using set_prev_pv [of a h v] by (auto simp: yields_def links_def)

lemma yields_bind:
  assumes "yields m N P D" and "\<And>h. links h N P D \<Longrightarrow> yields (f h) N' P' D'"
  shows "yields (rbind m f) N' P' D'"
  using assms by (auto simp: yields_def)

lemma links_get_next: "links h N P D \<Longrightarrow> N a = Some b \<Longrightarrow> get_next h a = Inr b"
  by (auto simp: links_def get_next_nx)

lemma links_get_prev: "links h N P D \<Longrightarrow> P a = Some b \<Longrightarrow> get_prev h a = Inr b"
  by (auto simp: links_def get_prev_pv)

lemma links_self: "links h (nx h) (pv h) (dom h)"
  by (simp add: links_def)

text \<open>What the two internal routines do to the links.\<close>

lemma yields_add_between:
  assumes "links h N P D" and "{new, p, n} \<subseteq> D"
  shows "yields (list_add_between new p n h) (N(new \<mapsto> n, p \<mapsto> new)) (P(n \<mapsto> new, new \<mapsto> p)) D"
  unfolding list_add_between_def using assms
  by (intro yields_bind [OF yields_set_prev] yields_bind [OF yields_set_next] yields_set_next) auto

lemma yields_unlink:
  assumes "links h N P D" and "{p, n} \<subseteq> D"
  shows "yields (list_unlink p n h) (N(p \<mapsto> n)) (P(n \<mapsto> p)) D"
  unfolding list_unlink_def using assms
  by (intro yields_bind [OF yields_set_prev] yields_set_next) auto

lemma yields_init:
  assumes "links h N P D" and "l \<in> D"
  shows "yields (INIT_LIST_HEAD l h) (N(l \<mapsto> l)) (P(l \<mapsto> l)) D"
  unfolding INIT_LIST_HEAD_def using assms
  by (intro yields_bind [OF yields_set_next] yields_set_prev) auto

lemma yields_splice_between:
  assumes "links h N P D" and "{l, p, n, f, t} \<subseteq> D" and "N l = Some f" and "P l = Some t"
  shows "yields (list_splice_between l p n h) (N(p \<mapsto> f, t \<mapsto> n)) (P(f \<mapsto> p, n \<mapsto> t)) D"
  unfolding list_splice_between_def
    links_get_next [OF assms(1,3)] links_get_prev [OF assms(1,4)] rbind_Inr using assms
  by (intro yields_bind [OF yields_set_prev] yields_bind [OF yields_set_next] yields_set_prev) auto

section \<open>Chains and rings\<close>

fun chain :: "(addr \<rightharpoonup> addr) \<Rightarrow> (addr \<rightharpoonup> addr) \<Rightarrow> addr list \<Rightarrow> bool" where
  "chain N P (a # b # r) \<longleftrightarrow> N a = Some b \<and> P b = Some a \<and> chain N P (b # r)"
| "chain N P r \<longleftrightarrow> True"

lemma chain_append:
  "chain N P (xs @ a # ys) \<longleftrightarrow> chain N P (xs @ [a]) \<and> chain N P (a # ys)"
proof (induction xs)
  case (Cons x xs)
  then show ?case by (cases xs) auto
qed simp

lemma chain_cong:
  "(\<And>a. a \<in> set (butlast L) \<Longrightarrow> N a = N' a) \<Longrightarrow> (\<And>a. a \<in> set (tl L) \<Longrightarrow> P a = P' a)
    \<Longrightarrow> chain N P L = chain N' P' L"
proof (induction L)
  case (Cons a L)
  then show ?case by (cases L) auto
qed simp

lemma chain_upd_next [simp]: "a \<notin> set (butlast L) \<Longrightarrow> chain (N(a \<mapsto> v)) P L = chain N P L"
  by (rule chain_cong) auto

lemma chain_upd_prev [simp]: "a \<notin> set (tl L) \<Longrightarrow> chain N (P(a \<mapsto> v)) L = chain N P L"
  by (rule chain_cong) auto

definition ring :: "(addr \<rightharpoonup> addr) \<Rightarrow> (addr \<rightharpoonup> addr) \<Rightarrow> addr set \<Rightarrow> addr \<Rightarrow> addr list \<Rightarrow> bool" where
  "ring N P D head xs \<longleftrightarrow> distinct (head # xs) \<and> set (head # xs) \<subseteq> D \<and> chain N P (head # xs @ [head])"

definition dll :: "lheap \<Rightarrow> addr \<Rightarrow> addr list \<Rightarrow> bool" where
  "dll h head xs \<longleftrightarrow> ring (nx h) (pv h) (dom h) head xs"

lemma dll_links: "links h N P D \<Longrightarrow> dll h head xs \<longleftrightarrow> ring N P D head xs"
  by (simp add: dll_def links_def)

lemma ring_next: "ring N P D head xs \<Longrightarrow> N head = Some (hd (xs @ [head]))"
  by (cases xs) (auto simp: ring_def)

lemma chain_last: "chain N P (xs @ [a, b]) \<Longrightarrow> N a = Some b \<and> P b = Some a"
  by (subst (asm) chain_append) simp

lemma ring_prev: "ring N P D head xs \<Longrightarrow> P head = Some (last (head # xs))"
proof (cases xs rule: rev_cases)
  case (snoc ys y)
  assume "ring N P D head xs"
  then have "chain N P ((head # ys) @ [y, head])" using snoc by (simp add: ring_def)
  then show ?thesis using chain_last snoc by fastforce
qed (simp add: ring_def)

text \<open>The neighbours of an entry in the middle.\<close>

lemma ring_mid:
  assumes "ring N P D head (as @ e # bs)"
  shows "P e = Some (last (head # as))" "N e = Some (hd (bs @ [head]))"
proof -
  have c: "chain N P ((head # as) @ e # (bs @ [head]))" using assms by (simp add: ring_def)
  then have "chain N P ((head # as) @ [e])" and e: "chain N P (e # bs @ [head])"
    by (subst (asm) chain_append, simp)+
  then have "chain N P (butlast (head # as) @ [last (head # as), e])"
    by (metis append_butlast_last_id append.assoc append_Cons append_Nil list.distinct(1))
  then show "P e = Some (last (head # as))" using chain_last by blast
  show "N e = Some (hd (bs @ [head]))" using e by (cases bs) auto
qed

text \<open>
  Inserting between, and unlinking between, two neighbours of a chain whose cells are distinct but for
  the two ends.
\<close>

definition open_distinct :: "addr list \<Rightarrow> bool" where
  "open_distinct L \<longleftrightarrow> distinct (butlast L) \<and> distinct (tl L)"

lemma chain_insert:
  assumes "chain N P (ps @ p # n # ns)" and "open_distinct (ps @ p # n # ns)"
    and "new \<notin> set (ps @ p # n # ns)"
  shows "chain (N(new \<mapsto> n, p \<mapsto> new)) (P(n \<mapsto> new, new \<mapsto> p)) (ps @ p # new # n # ns)"
proof -
  let ?N = "N(new \<mapsto> n, p \<mapsto> new)" let ?P = "P(n \<mapsto> new, new \<mapsto> p)"
  have c: "chain N P (ps @ [p])" "chain N P (n # ns)"
    using assms(1) chain_append [of N P ps p "n # ns"] by auto
  have "p \<notin> set ps" "n \<notin> set (tl (ps @ [p]))" "n \<notin> set ns" "p \<notin> set (butlast (n # ns))"
    using assms(2,3) by (cases ps; auto simp: open_distinct_def butlast_append split: if_splits)+
  moreover have "new \<notin> set (tl (ps @ [p]))" "new \<notin> set (butlast (n # ns))"
    using assms(3) by (cases ps; auto dest: in_set_butlastD split: if_splits)+
  ultimately show ?thesis using c assms(3) by (subst chain_append) (auto simp: fun_upd_twist)
qed

lemma chain_delete:
  assumes "chain N P (ps @ p # e # n # ns)" and "open_distinct (ps @ p # e # n # ns)"
  shows "chain (N(p \<mapsto> n)) (P(n \<mapsto> p)) (ps @ p # n # ns)"
proof -
  have c: "chain N P (ps @ [p])" "chain N P (n # ns)"
    using assms(1) chain_append [of N P ps p "e # n # ns"] by auto
  have "p \<notin> set ps" "n \<notin> set (tl (ps @ [p]))" "n \<notin> set ns" "p \<notin> set (butlast (n # ns))"
    using assms(2) by (cases ps; auto simp: open_distinct_def butlast_append split: if_splits)+
  then show ?thesis using c by (subst chain_append) auto
qed

lemma open_distinct_ring: "distinct (head # xs) \<Longrightarrow> open_distinct (head # xs @ [head])"
  by (auto simp: open_distinct_def butlast_append)

lemma ring_splits:
  obtains ps ns where "head # as = ps @ [last (head # as)]" "bs @ [head] = hd (bs @ [head]) # ns"
  by (metis append_butlast_last_id append_is_Nil_conv list.collapse list.distinct(1))

lemma ring_insert:
  assumes r: "ring N P D head (as @ bs)" and new: "new \<in> D" "new \<notin> set (head # as @ bs)"
    and pn: "p = last (head # as)" "n = hd (bs @ [head])"
  shows "ring (N(new \<mapsto> n, p \<mapsto> new)) (P(n \<mapsto> new, new \<mapsto> p)) D head (as @ new # bs)"
proof -
  obtain ps ns where s: "head # as = ps @ [p]" "bs @ [head] = n # ns"
    using ring_splits [of head as bs] unfolding pn by metis
  have L: "head # (as @ bs) @ [head] = ps @ p # n # ns" "head # (as @ new # bs) @ [head] = ps @ p # new # n # ns"
    using s by (metis append.assoc append_Cons append_Nil)+
  have "new \<notin> set (ps @ p # n # ns)" using new(2) unfolding L(1) [symmetric] by simp
  moreover have "open_distinct (ps @ p # n # ns)"
    using r open_distinct_ring [of head "as @ bs"] unfolding L(1) [symmetric] ring_def by blast
  moreover have "chain N P (ps @ p # n # ns)" using r unfolding L(1) [symmetric] ring_def by blast
  ultimately have "chain (N(new \<mapsto> n, p \<mapsto> new)) (P(n \<mapsto> new, new \<mapsto> p)) (ps @ p # new # n # ns)"
    by (intro chain_insert)
  then show ?thesis using r new unfolding ring_def L(2) by auto
qed

lemma ring_delete:
  assumes r: "ring N P D head (as @ e # bs)"
    and pn: "p = last (head # as)" "n = hd (bs @ [head])"
  shows "ring (N(p \<mapsto> n)) (P(n \<mapsto> p)) D head (as @ bs)"
proof -
  obtain ps ns where s: "head # as = ps @ [p]" "bs @ [head] = n # ns"
    using ring_splits [of head as bs] unfolding pn by metis
  have L: "head # (as @ bs) @ [head] = ps @ p # n # ns" "head # (as @ e # bs) @ [head] = ps @ p # e # n # ns"
    using s by (metis append.assoc append_Cons append_Nil)+
  have "open_distinct (ps @ p # e # n # ns)"
    using r open_distinct_ring [of head "as @ e # bs"] unfolding L(2) [symmetric] ring_def by blast
  moreover have "chain N P (ps @ p # e # n # ns)" using r unfolding L(2) [symmetric] ring_def by blast
  ultimately have "chain (N(p \<mapsto> n)) (P(n \<mapsto> p)) (ps @ p # n # ns)" by (intro chain_delete)
  then show ?thesis using r unfolding ring_def L(1) by auto
qed

text \<open>Writes to the cells of no entry leave a ring as it is.\<close>

lemma ring_frame:
  assumes "\<And>a. a \<in> set (head # xs) \<Longrightarrow> N a = N' a" "\<And>a. a \<in> set (head # xs) \<Longrightarrow> P a = P' a"
  shows "ring N P D head xs = ring N' P' D head xs"
proof -
  have "chain N P (head # xs @ [head]) = chain N' P' (head # xs @ [head])"
    using assms by (intro chain_cong) (auto simp: butlast_append)
  then show ?thesis by (simp add: ring_def)
qed

lemma ring_upd [simp]:
  "a \<notin> set (head # xs) \<Longrightarrow> ring (N(a \<mapsto> v)) P D head xs = ring N P D head xs"
  "a \<notin> set (head # xs) \<Longrightarrow> ring N (P(a \<mapsto> v)) D head xs = ring N P D head xs"
  by (rule ring_frame; auto)+

lemma ring_empty: "ring N P D head [] \<longleftrightarrow> head \<in> D \<and> N head = Some head \<and> P head = Some head"
  by (auto simp: ring_def)

lemma hd_in_ring [simp]: "hd (xs @ [head]) \<in> set (head # xs)"
  by (cases xs) auto

lemma last_in_ring [simp]: "last (head # xs) \<in> set (head # xs)"
  by (rule last_in_set) simp

section \<open>What each operation does to the list\<close>

text \<open>
  \<open>framed h h' S\<close>: \<open>h'\<close> has the live cells of \<open>h\<close> and differs from it only in cells of \<open>S\<close>; every
  list with no cell in \<open>S\<close> is the list it was (\<open>framed_dll\<close>).
\<close>

definition framed :: "lheap \<Rightarrow> lheap \<Rightarrow> addr set \<Rightarrow> bool" where
  "framed h h' S \<longleftrightarrow> dom h' = dom h \<and> (\<forall>a. a \<notin> S \<longrightarrow> nx h' a = nx h a \<and> pv h' a = pv h a)"

lemma framed_dll: "framed h h' S \<Longrightarrow> set (hd2 # ys) \<inter> S = {} \<Longrightarrow> dll h hd2 ys \<Longrightarrow> dll h' hd2 ys"
  unfolding dll_def framed_def
  by (metis (no_types, lifting) IntI empty_iff ring_frame)

lemma links_framed:
  assumes "links h' N P (dom h)" and "\<And>a. a \<notin> S \<Longrightarrow> N a = nx h a \<and> P a = pv h a"
  shows "framed h h' S"
  using assms by (auto simp: framed_def links_def)

lemma INIT_LIST_HEAD_dll:
  assumes "l \<in> dom h"
  shows "\<exists>h'. INIT_LIST_HEAD l h = Inr h' \<and> dll h' l [] \<and> framed h h' {l}"
proof -
  obtain h' where "INIT_LIST_HEAD l h = Inr h'" and l: "links h' ((nx h)(l \<mapsto> l)) ((pv h)(l \<mapsto> l)) (dom h)"
    using yields_init [OF links_self assms] by (auto simp: yields_def)
  moreover have "dll h' l []" using assms by (simp add: dll_links [OF l] ring_empty)
  moreover have "framed h h' {l}" using l by (rule links_framed) auto
  ultimately show ?thesis by blast
qed

lemma list_add_at_dll:
  assumes "dll h head (as @ bs)" and "new \<in> dom h" and "new \<notin> set (head # as @ bs)"
    and "p = last (head # as)" and "n = hd (bs @ [head])"
  shows "\<exists>h'. list_add_between new p n h = Inr h' \<and> dll h' head (as @ new # bs)
    \<and> framed h h' (set (new # head # as @ bs))"
proof -
  have r: "ring (nx h) (pv h) (dom h) head (as @ bs)" using assms(1) by (simp add: dll_def)
  have in_r: "p \<in> set (head # as @ bs)" "n \<in> set (head # as @ bs)"
    using last_in_ring [of head as] hd_in_ring [of bs head] assms(4,5) by auto
  then have "{new, p, n} \<subseteq> dom h" using r assms(2) by (auto simp: ring_def)
  from yields_add_between [OF links_self this]
  obtain h' where "list_add_between new p n h = Inr h'"
    and l: "links h' ((nx h)(new \<mapsto> n, p \<mapsto> new)) ((pv h)(n \<mapsto> new, new \<mapsto> p)) (dom h)"
    by (auto simp: yields_def)
  moreover have "dll h' head (as @ new # bs)"
    unfolding dll_links [OF l] using r assms(2-5) by (rule ring_insert)
  moreover have "framed h h' (set (new # head # as @ bs))"
    using l by (rule links_framed) (use in_r in auto)
  ultimately show ?thesis by blast
qed

lemma list_unlink_dll:
  assumes "dll h head (as @ e # bs)" and "p = last (head # as)" and "n = hd (bs @ [head])"
  shows "\<exists>h'. list_unlink p n h = Inr h' \<and> dll h' head (as @ bs) \<and> framed h h' (set (head # as @ bs))"
proof -
  have r: "ring (nx h) (pv h) (dom h) head (as @ e # bs)" using assms(1) by (simp add: dll_def)
  have in_r: "p \<in> set (head # as @ bs)" "n \<in> set (head # as @ bs)"
    using last_in_ring [of head as] hd_in_ring [of bs head] assms(2,3) by auto
  then have "{p, n} \<subseteq> dom h" using r by (auto simp: ring_def)
  from yields_unlink [OF links_self this] obtain h' where "list_unlink p n h = Inr h'"
    and l: "links h' ((nx h)(p \<mapsto> n)) ((pv h)(n \<mapsto> p)) (dom h)" by (auto simp: yields_def)
  moreover have "dll h' head (as @ bs)"
    unfolding dll_links [OF l] using r assms(2,3) by (rule ring_delete)
  moreover have "framed h h' (set (head # as @ bs))"
    using l by (rule links_framed) (use in_r in auto)
  ultimately show ?thesis by blast
qed

lemma dll_reads:
  assumes "dll h head xs"
  shows "get_next h head = Inr (hd (xs @ [head]))" "get_prev h head = Inr (last (head # xs))"
    "list_empty head h = Inr (xs = [])"
proof -
  have r: "ring (nx h) (pv h) (dom h) head xs" using assms by (simp add: dll_def)
  show 1: "get_next h head = Inr (hd (xs @ [head]))" using ring_next [OF r] by (rule get_next_nx)
  show "get_prev h head = Inr (last (head # xs))" using ring_prev [OF r] by (rule get_prev_pv)
  have "head \<notin> set xs" using r by (simp add: ring_def)
  then show "list_empty head h = Inr (xs = [])" by (cases xs) (auto simp: list_empty_def 1)
qed

lemma dll_reads_mid:
  assumes "dll h head (as @ e # bs)"
  shows "get_next h e = Inr (hd (bs @ [head]))" "get_prev h e = Inr (last (head # as))"
  using ring_mid [of "nx h" "pv h" "dom h" head as e bs] assms
  by (auto simp: dll_def get_next_nx get_prev_pv)

lemma list_add_dll:
  assumes "dll h head xs" and "new \<in> dom h" and "new \<notin> set (head # xs)"
  shows "\<exists>h'. list_add new head h = Inr h' \<and> dll h' head (new # xs) \<and> framed h h' (set (new # head # xs))"
  using list_add_at_dll [of h head "[]" xs new] assms by (simp add: list_add_def dll_reads)

lemma list_add_tail_dll:
  assumes "dll h head xs" and "new \<in> dom h" and "new \<notin> set (head # xs)"
  shows "\<exists>h'. list_add_tail new head h = Inr h' \<and> dll h' head (xs @ [new]) \<and> framed h h' (set (new # head # xs))"
  using list_add_at_dll [of h head xs "[]" new] assms by (simp add: list_add_tail_def dll_reads)

lemma list_del_entry_dll:
  assumes "dll h head (as @ e # bs)"
  shows "\<exists>h'. list_del_entry e h = Inr h' \<and> dll h' head (as @ bs) \<and> framed h h' (set (head # as @ bs))"
  using list_unlink_dll [OF assms refl refl] by (simp add: list_del_entry_def dll_reads_mid [OF assms])

lemma framed_trans: "framed h h' S \<Longrightarrow> framed h' h'' T \<Longrightarrow> framed h h'' (S \<union> T)"
  by (auto simp: framed_def)

lemma framed_mono: "framed h h' S \<Longrightarrow> S \<subseteq> T \<Longrightarrow> framed h h' T"
  by (auto simp: framed_def)

lemma dll_live: "dll h head xs \<Longrightarrow> a \<in> set (head # xs) \<Longrightarrow> a \<in> dom h"
  unfolding dll_def ring_def by blast

lemma dll_distinct: "dll h head xs \<Longrightarrow> distinct (head # xs)"
  by (simp add: dll_def ring_def)

lemma framed_dom: "framed h h' S \<Longrightarrow> dom h' = dom h"
  by (simp add: framed_def)

lemma list_del_dll:
  assumes "dll h head (as @ e # bs)"
  shows "\<exists>h'. list_del e h = Inr h' \<and> dll h' head (as @ bs) \<and> framed h h' (set (head # as @ e # bs))
     \<and> nx h' e = Some LIST_POISON1 \<and> pv h' e = Some LIST_POISON2"
proof -
  obtain h1 where 1: "list_unlink (last (head # as)) (hd (bs @ [head])) h = Inr h1"
    "dll h1 head (as @ bs)" "framed h h1 (set (head # as @ bs))"
    using list_unlink_dll [OF assms refl refl] by blast
  have e: "e \<in> dom h1" "e \<notin> set (head # as @ bs)"
    using dll_live [OF assms, of e] dll_distinct [OF assms] framed_dom [OF 1(3)] by auto
  have "yields (rbind (set_next e LIST_POISON1 h1) (set_prev e LIST_POISON2))
      ((nx h1)(e \<mapsto> LIST_POISON1)) ((pv h1)(e \<mapsto> LIST_POISON2)) (dom h1)"
    by (rule yields_bind [OF yields_set_next [OF links_self e(1)]]) (rule yields_set_prev, simp_all add: e)
  then obtain h' where h': "rbind (set_next e LIST_POISON1 h1) (set_prev e LIST_POISON2) = Inr h'"
    and l: "links h' ((nx h1)(e \<mapsto> LIST_POISON1)) ((pv h1)(e \<mapsto> LIST_POISON2)) (dom h1)"
    by (auto simp: yields_def)
  have f: "framed h1 h' {e}" using l by (rule links_framed) auto
  have "list_del e h = Inr h'"
    using 1(1) h' by (simp add: list_del_def dll_reads_mid [OF assms])
  moreover have "dll h' head (as @ bs)" using framed_dll [OF f _ 1(2)] e(2) by simp
  moreover have "framed h h' (set (head # as @ e # bs))"
    by (rule framed_mono [OF framed_trans [OF 1(3) f]]) auto
  moreover have "nx h' e = Some LIST_POISON1" "pv h' e = Some LIST_POISON2"
    using l by (simp_all add: links_def)
  ultimately show ?thesis by blast
qed

lemma list_del_init_dll:
  assumes "dll h head (as @ e # bs)"
  shows "\<exists>h'. list_del_init e h = Inr h' \<and> dll h' head (as @ bs) \<and> dll h' e []
     \<and> framed h h' (set (head # as @ e # bs))"
proof -
  obtain h1 where 1: "list_del_entry e h = Inr h1" "dll h1 head (as @ bs)"
    "framed h h1 (set (head # as @ bs))"
    using list_del_entry_dll [OF assms] by blast
  have e: "e \<in> dom h1" "e \<notin> set (head # as @ bs)"
    using dll_live [OF assms, of e] dll_distinct [OF assms] framed_dom [OF 1(3)] by auto
  obtain h2 where 2: "INIT_LIST_HEAD e h1 = Inr h2" "dll h2 e []" "framed h1 h2 {e}"
    using INIT_LIST_HEAD_dll [OF e(1)] by blast
  have "dll h2 head (as @ bs)" using framed_dll [OF 2(3) _ 1(2)] e(2) by simp
  moreover have "framed h h2 (set (head # as @ e # bs))"
    by (rule framed_mono [OF framed_trans [OF 1(3) 2(3)]]) auto
  ultimately show ?thesis using 1 2 by (auto simp: list_del_init_def)
qed

lemma list_move_gen:
  assumes "dll h head (as @ e # bs)"
    and "\<And>h1. dll h1 head (as @ bs) \<Longrightarrow> e \<in> dom h1 \<Longrightarrow> e \<notin> set (head # as @ bs) \<Longrightarrow>
      \<exists>h'. f e head h1 = Inr h' \<and> dll h' head zs \<and> framed h1 h' (set (e # head # as @ bs))"
  shows "\<exists>h'. rbind (list_del_entry e h) (f e head) = Inr h' \<and> dll h' head zs
     \<and> framed h h' (set (head # as @ e # bs))"
proof -
  obtain h1 where 1: "list_del_entry e h = Inr h1" "dll h1 head (as @ bs)"
    "framed h h1 (set (head # as @ bs))"
    using list_del_entry_dll [OF assms(1)] by blast
  have e: "e \<in> dom h1" "e \<notin> set (head # as @ bs)"
    using dll_live [OF assms(1), of e] dll_distinct [OF assms(1)] framed_dom [OF 1(3)] by auto
  from assms(2) [OF 1(2) e] obtain h' where 2: "f e head h1 = Inr h'" "dll h' head zs"
    "framed h1 h' (set (e # head # as @ bs))" by blast
  have "framed h h' (set (head # as @ e # bs))"
    by (rule framed_mono [OF framed_trans [OF 1(3) 2(3)]]) auto
  then show ?thesis using 1 2 by auto
qed

lemma list_move_dll:
  assumes "dll h head (as @ e # bs)"
  shows "\<exists>h'. list_move e head h = Inr h' \<and> dll h' head (e # as @ bs) \<and> framed h h' (set (head # as @ e # bs))"
  unfolding list_move_def using assms by (rule list_move_gen) (rule list_add_dll)

lemma list_move_tail_dll:
  assumes "dll h head (as @ e # bs)"
  shows "\<exists>h'. list_move_tail e head h = Inr h' \<and> dll h' head ((as @ bs) @ [e]) \<and> framed h h' (set (head # as @ e # bs))"
  unfolding list_move_tail_def using assms by (rule list_move_gen) (rule list_add_tail_dll)

lemma list_rotate_left_dll:
  assumes "dll h head xs"
  shows "\<exists>h'. list_rotate_left head h = Inr h' \<and> dll h' head (rotate1 xs) \<and> framed h h' (set (head # xs))"
proof (cases xs)
  case Nil
  then show ?thesis using assms by (simp add: list_rotate_left_def dll_reads framed_def)
next
  case (Cons x ys)
  then show ?thesis using list_move_tail_dll [of h head "[]" x ys] assms
    by (simp add: list_rotate_left_def dll_reads [OF assms])
qed

lemma list_is_singular_dll:
  assumes "dll h head xs"
  shows "list_is_singular head h = Inr (length xs = 1)"
proof (cases xs rule: rev_cases)
  case Nil
  then show ?thesis using assms by (simp add: list_is_singular_def dll_reads)
next
  case (snoc ys y)
  then show ?thesis using dll_distinct [OF assms]
    by (cases ys) (auto simp: list_is_singular_def dll_reads [OF assms])
qed

lemma list_is_last_dll:
  assumes "dll h head (as @ e # bs)"
  shows "list_is_last e head h = Inr (bs = [])"
  using dll_distinct [OF assms] by (cases bs) (auto simp: list_is_last_def dll_reads_mid [OF assms])

lemma list_empty_careful_dll:
  assumes "dll h head xs"
  shows "list_empty_careful head h = Inr (xs = [])"
proof (cases xs)
  case Nil
  then show ?thesis using assms by (simp add: list_empty_careful_def dll_reads)
next
  case (Cons y ys)
  then show ?thesis using dll_distinct [OF assms] by (auto simp: list_empty_careful_def dll_reads [OF assms])
qed

section \<open>Replacing an entry\<close>

lemma list_replace_dll:
  assumes "dll h head (as @ old # bs)" and "new \<in> dom h" and "new \<notin> set (head # as @ old # bs)"
  shows "\<exists>h'. list_replace old new h = Inr h' \<and> dll h' head (as @ new # bs)
     \<and> framed h h' (set (new # head # as @ bs))"
proof -
  let ?p = "last (head # as)" let ?n = "hd (bs @ [head])"
  let ?N = "nx h" let ?P = "pv h"
  have r: "ring ?N ?P (dom h) head (as @ old # bs)" using assms(1) by (simp add: dll_def)
  have m: "?P old = Some ?p" "?N old = Some ?n" using ring_mid [OF r] by auto
  have in_r: "?p \<in> set (head # as @ bs)" "?n \<in> set (head # as @ bs)"
    using last_in_ring [of head as] hd_in_ring [of bs head] by auto
  then have live: "?p \<in> dom h" "?n \<in> dom h" using dll_live [OF assms(1)] by auto
  have ne: "?n \<noteq> old" "?p \<noteq> old" "new \<noteq> old" "?n \<noteq> new" "?p \<noteq> new"
    using in_r assms(3) dll_distinct [OF assms(1)] by auto
  have "yields (list_replace old new h) (?N(new \<mapsto> ?n, ?p \<mapsto> new)) (?P(?n \<mapsto> new, new \<mapsto> ?p)) (dom h)"
    unfolding list_replace_def get_next_nx [OF m(2)] rbind_Inr
  proof (rule yields_bind [OF yields_set_next [OF links_self assms(2)]])
    fix h1 assume l1: "links h1 (?N(new \<mapsto> ?n)) ?P (dom h)"
    then have g: "get_next h1 new = Inr ?n" by (rule links_get_next) simp
    show "yields (rbind (get_next h1 new) (\<lambda>nn. rbind (set_prev nn new h1) (\<lambda>h.
        rbind (get_prev h old) (\<lambda>op. rbind (set_prev new op h) (\<lambda>h.
        rbind (get_prev h new) (\<lambda>np. set_next np new h))))))
        (?N(new \<mapsto> ?n, ?p \<mapsto> new)) (?P(?n \<mapsto> new, new \<mapsto> ?p)) (dom h)"
      unfolding g rbind_Inr
    proof (rule yields_bind [OF yields_set_prev [OF l1 live(2)]])
      fix h2 assume l2: "links h2 (?N(new \<mapsto> ?n)) (?P(?n \<mapsto> new)) (dom h)"
      then have g2: "get_prev h2 old = Inr ?p" by (rule links_get_prev) (use ne m in simp)
      show "yields (rbind (get_prev h2 old) (\<lambda>op. rbind (set_prev new op h2) (\<lambda>h.
          rbind (get_prev h new) (\<lambda>np. set_next np new h))))
          (?N(new \<mapsto> ?n, ?p \<mapsto> new)) (?P(?n \<mapsto> new, new \<mapsto> ?p)) (dom h)"
        unfolding g2 rbind_Inr
      proof (rule yields_bind [OF yields_set_prev [OF l2 assms(2)]])
        fix h3 assume l3: "links h3 (?N(new \<mapsto> ?n)) (?P(?n \<mapsto> new, new \<mapsto> ?p)) (dom h)"
        then have g3: "get_prev h3 new = Inr ?p" by (rule links_get_prev) simp
        show "yields (rbind (get_prev h3 new) (\<lambda>np. set_next np new h3))
          (?N(new \<mapsto> ?n, ?p \<mapsto> new)) (?P(?n \<mapsto> new, new \<mapsto> ?p)) (dom h)"
          unfolding g3 rbind_Inr using l3 live(1) by (rule yields_set_next)
      qed
    qed
  qed
  then obtain h' where "list_replace old new h = Inr h'"
    and l: "links h' (?N(new \<mapsto> ?n, ?p \<mapsto> new)) (?P(?n \<mapsto> new, new \<mapsto> ?p)) (dom h)"
    by (auto simp: yields_def)
  moreover have "dll h' head (as @ new # bs)"
  proof -
    have "ring (?N(?p \<mapsto> ?n)) (?P(?n \<mapsto> ?p)) (dom h) head (as @ bs)" using r by (rule ring_delete) auto
    moreover have "new \<notin> set (head # as @ bs)" using assms(3) by simp
    ultimately have "ring ((?N(?p \<mapsto> ?n))(new \<mapsto> ?n, ?p \<mapsto> new)) ((?P(?n \<mapsto> ?p))(?n \<mapsto> new, new \<mapsto> ?p)) (dom h)
        head (as @ new # bs)"
      using assms(2) by (intro ring_insert) auto
    moreover have "(?N(?p \<mapsto> ?n))(new \<mapsto> ?n, ?p \<mapsto> new) = ?N(new \<mapsto> ?n, ?p \<mapsto> new)"
      "(?P(?n \<mapsto> ?p))(?n \<mapsto> new, new \<mapsto> ?p) = ?P(?n \<mapsto> new, new \<mapsto> ?p)" by auto
    ultimately show ?thesis by (simp only: dll_links [OF l])
  qed
  moreover have "framed h h' (set (new # head # as @ bs))"
    using l by (rule links_framed) (use in_r in auto)
  ultimately show ?thesis by blast
qed

section \<open>Splicing\<close>

lemma chain_link:
  "chain N P (xs @ a # b # ys) \<longleftrightarrow> chain N P (xs @ [a]) \<and> N a = Some b \<and> P b = Some a \<and> chain N P (b # ys)"
  by (subst chain_append) simp

lemma chain_inner: "chain N P (xs @ ys @ zs) \<Longrightarrow> chain N P ys"
proof (cases ys rule: rev_cases)
  case (snoc us u)
  assume "chain N P (xs @ ys @ zs)"
  then have "chain N P ((xs @ us) @ [u])" using chain_append [of N P "xs @ us" u zs] snoc by simp
  then show ?thesis
  proof (cases us)
    case Nil
    then show ?thesis using snoc by simp
  next
    case (Cons v vs)
    with \<open>chain N P ((xs @ us) @ [u])\<close> show ?thesis
      using chain_append [of N P xs v "vs @ [u]"] snoc by simp
  qed
qed simp

lemma ring_splice:
  assumes r: "ring N P D head (as @ bs)" and r2: "ring N P D l ys" and "ys \<noteq> []"
    and dj: "set (head # as @ bs) \<inter> set (l # ys) = {}"
    and pn: "p = last (head # as)" "n = hd (bs @ [head])" and ft: "f = hd ys" "t = last ys"
  shows "ring (N(p \<mapsto> f, t \<mapsto> n)) (P(f \<mapsto> p, n \<mapsto> t)) D head (as @ ys @ bs)"
proof -
  let ?N = "N(p \<mapsto> f, t \<mapsto> n)" and ?P = "P(f \<mapsto> p, n \<mapsto> t)"
  obtain ps ns where s: "head # as = ps @ [p]" "bs @ [head] = n # ns"
    using ring_splits [of head as bs] unfolding pn by metis
  obtain ys1 ys2 where y: "ys = f # ys1" "ys = ys2 @ [t]"
    using \<open>ys \<noteq> []\<close> ft by (metis list.collapse append_butlast_last_id)
  have "chain N P (ps @ p # n # ns)" using r s unfolding ring_def by (metis append.assoc append_Cons append_Nil)
  then have c: "chain N P (ps @ [p])" "chain N P (n # ns)" by (auto simp: chain_link)
  have "chain N P ([l] @ ys @ [l])" using r2 by (simp add: ring_def)
  then have cy: "chain N P ys" by (rule chain_inner)
  have od: "open_distinct (ps @ p # n # ns)"
    using r open_distinct_ring [of head "as @ bs"] s
    by (metis ring_def append.assoc append_Cons append_Nil)
  have sets: "set (ps @ [p]) \<inter> set ys = {}" "set (n # ns) \<inter> set ys = {}"
    using dj s [THEN arg_cong [of _ _ set]] by auto
  have ftys: "f \<in> set ys" "t \<in> set ys" using \<open>ys \<noteq> []\<close> ft by simp_all
  have e: "p \<notin> set ps" "n \<notin> set (tl (ps @ [p]))" "n \<notin> set ns" "p \<notin> set (butlast (n # ns))"
    using od by (cases ps; auto simp: open_distinct_def butlast_append split: if_splits)+
  have dy: "distinct ys" using r2 by (simp add: ring_def)
  have "chain ?N ?P (ps @ [p])"
  proof -
    have "t \<notin> set (butlast (ps @ [p]))" "f \<notin> set (tl (ps @ [p]))"
      using sets(1) ftys by (cases ps; auto)+
    then show ?thesis using c(1) e by simp
  qed
  moreover have "chain ?N ?P (n # ns)"
  proof -
    have "t \<notin> set (butlast (n # ns))" "f \<notin> set ns"
      using sets(2) ftys by (auto dest: in_set_butlastD)
    then show ?thesis using c(2) e by simp
  qed
  moreover have "chain ?N ?P ys"
  proof -
    have "t \<notin> set (butlast ys)" using dy by (cases ys rule: rev_cases) (simp_all add: ft)
    moreover have "f \<notin> set (tl ys)" using dy by (cases ys) (auto simp: ft)
    moreover have "p \<notin> set (butlast ys)" "n \<notin> set (tl ys)"
      using sets by (auto dest: in_set_butlastD simp: y(1))
    ultimately show ?thesis using cy by simp
  qed
  moreover have k: "?N p = Some f" "?P f = Some p" "?N t = Some n" "?P n = Some t"
    using sets ftys by auto
  ultimately have "chain ?N ?P (ps @ [p])" and "chain ?N ?P (ys2 @ t # n # ns)"
    using y(2) chain_link [of ?N ?P ys2 t n ns] by simp_all
  moreover have "ys2 @ t # n # ns = f # ys1 @ n # ns" using y by (metis append.assoc append_Cons append_Nil)
  ultimately have "chain ?N ?P (ps @ p # f # ys1 @ n # ns)"
    using k(1,2) chain_link [of ?N ?P ps p f "ys1 @ n # ns"] by metis
  then have "chain ?N ?P (head # (as @ ys @ bs) @ [head])"
    using s y(1) by (metis append.assoc append_Cons append_Nil)
  then show ?thesis using r r2 dj by (auto simp: ring_def)
qed

lemma list_splice_between_dll:
  assumes "dll h head (as @ bs)" and "dll h l ys" and "ys \<noteq> []"
    and dj: "set (head # as @ bs) \<inter> set (l # ys) = {}"
    and pn: "p = last (head # as)" "n = hd (bs @ [head])"
  shows "\<exists>h'. list_splice_between l p n h = Inr h' \<and> dll h' head (as @ ys @ bs)
    \<and> framed h h' (set (head # as @ bs @ ys))"
proof -
  let ?f = "hd ys" let ?t = "last ys"
  have r: "ring (nx h) (pv h) (dom h) head (as @ bs)" "ring (nx h) (pv h) (dom h) l ys"
    using assms by (simp_all add: dll_def)
  have lk: "nx h l = Some ?f" "pv h l = Some ?t"
    using ring_next [OF r(2)] ring_prev [OF r(2)] \<open>ys \<noteq> []\<close> by (simp_all add: hd_append)
  have i: "?f \<in> set ys" "?t \<in> set ys" using \<open>ys \<noteq> []\<close> by simp_all
  have in_r: "p \<in> set (head # as @ bs)" "n \<in> set (head # as @ bs)"
    using last_in_ring [of head as] hd_in_ring [of bs head] pn by auto
  then have "{l, p, n, ?f, ?t} \<subseteq> dom h" using i dll_live [OF assms(1)] dll_live [OF assms(2)] by auto
  from yields_splice_between [OF links_self this lk]
  obtain h' where "list_splice_between l p n h = Inr h'"
    and k: "links h' ((nx h)(p \<mapsto> ?f, ?t \<mapsto> n)) ((pv h)(?f \<mapsto> p, n \<mapsto> ?t)) (dom h)"
    by (auto simp: yields_def)
  moreover have "dll h' head (as @ ys @ bs)"
    unfolding dll_links [OF k] using r \<open>ys \<noteq> []\<close> dj pn refl refl by (rule ring_splice)
  moreover have "framed h h' (set (head # as @ bs @ ys))"
    using k by (rule links_framed) (use in_r i in auto)
  ultimately show ?thesis by blast
qed

lemma list_splice_dll:
  assumes "dll h head xs" and "dll h l ys" and "set (head # xs) \<inter> set (l # ys) = {}"
  shows "\<exists>h'. list_splice l head h = Inr h' \<and> dll h' head (ys @ xs) \<and> framed h h' (set (head # xs @ ys))"
proof (cases "ys = []")
  case True
  then show ?thesis using assms by (simp add: list_splice_def dll_reads [OF assms(2)] framed_def)
next
  case False
  then show ?thesis
    using list_splice_between_dll [of h head "[]" xs l ys] assms
    by (simp add: list_splice_def dll_reads [OF assms(2)] dll_reads [OF assms(1)])
qed

lemma list_splice_tail_dll:
  assumes "dll h head xs" and "dll h l ys" and "set (head # xs) \<inter> set (l # ys) = {}"
  shows "\<exists>h'. list_splice_tail l head h = Inr h' \<and> dll h' head (xs @ ys) \<and> framed h h' (set (head # xs @ ys))"
proof (cases "ys = []")
  case True
  then show ?thesis using assms by (simp add: list_splice_tail_def dll_reads [OF assms(2)] framed_def)
next
  case False
  then show ?thesis
    using list_splice_between_dll [of h head xs "[]" l ys] assms
    by (simp add: list_splice_tail_def dll_reads [OF assms(2)] dll_reads [OF assms(1)])
qed

lemma reinit_after_splice:
  assumes "dll h1 head zs" and "framed h h1 S" and "l \<in> dom h" and "l \<notin> set (head # zs)"
  shows "\<exists>h'. INIT_LIST_HEAD l h1 = Inr h' \<and> dll h' head zs \<and> dll h' l [] \<and> framed h h' (insert l S)"
proof -
  obtain h' where 1: "INIT_LIST_HEAD l h1 = Inr h'" "dll h' l []" "framed h1 h' {l}"
    using INIT_LIST_HEAD_dll [of l h1] assms framed_dom [OF assms(2)] by auto
  have "dll h' head zs" using framed_dll [OF 1(3) _ assms(1)] assms(4) by simp
  moreover have "framed h h' (insert l S)"
    by (rule framed_mono [OF framed_trans [OF assms(2) 1(3)]]) auto
  ultimately show ?thesis using 1 by blast
qed

lemma list_splice_init_dll:
  assumes "dll h head xs" and "dll h l ys" and "set (head # xs) \<inter> set (l # ys) = {}"
  shows "\<exists>h'. list_splice_init l head h = Inr h' \<and> dll h' head (ys @ xs) \<and> dll h' l []
    \<and> framed h h' (set (l # head # xs @ ys))"
proof (cases "ys = []")
  case True
  then show ?thesis using assms by (simp add: list_splice_init_def dll_reads [OF assms(2)] framed_def)
next
  case False
  obtain h1 where 1: "list_splice_between l head (hd (xs @ [head])) h = Inr h1" "dll h1 head (ys @ xs)"
    "framed h h1 (set (head # xs @ ys))"
    using list_splice_between_dll [of h head "[]" xs l ys head "hd (xs @ [head])"] assms False by auto
  have "l \<notin> set (head # ys @ xs)" using assms(3) dll_distinct [OF assms(2)] by auto
  from reinit_after_splice [OF 1(2,3) _ this] dll_live [OF assms(2)]
  show ?thesis using 1(1) False
    by (auto simp: list_splice_init_def dll_reads [OF assms(2)] dll_reads [OF assms(1)])
qed

lemma list_splice_tail_init_dll:
  assumes "dll h head xs" and "dll h l ys" and "set (head # xs) \<inter> set (l # ys) = {}"
  shows "\<exists>h'. list_splice_tail_init l head h = Inr h' \<and> dll h' head (xs @ ys) \<and> dll h' l []
    \<and> framed h h' (set (l # head # xs @ ys))"
proof (cases "ys = []")
  case True
  then show ?thesis using assms by (simp add: list_splice_tail_init_def dll_reads [OF assms(2)] framed_def)
next
  case False
  obtain h1 where 1: "list_splice_between l (last (head # xs)) head h = Inr h1" "dll h1 head (xs @ ys)"
    "framed h h1 (set (head # xs @ ys))"
    using list_splice_between_dll [of h head xs "[]" l ys "last (head # xs)" head] assms False by auto
  have "l \<notin> set (head # xs @ ys)" using assms(3) dll_distinct [OF assms(2)] by auto
  from reinit_after_splice [OF 1(2,3) _ this] dll_live [OF assms(2)]
  show ?thesis using 1(1) False
    by (auto simp: list_splice_tail_init_def dll_reads [OF assms(2)] dll_reads [OF assms(1)])
qed

section \<open>Cutting\<close>

lemma yields_cut_raw:
  assumes "links h N P D" and "{l, head, e, hn, nf} \<subseteq> D" and "N e = Some nf" and "N head = Some hn"
    and "l \<noteq> head" "l \<noteq> e"
  shows "yields (list_cut_raw l head e h) (N(l \<mapsto> hn, e \<mapsto> l, head \<mapsto> nf)) (P(hn \<mapsto> l, l \<mapsto> e, nf \<mapsto> head)) D"
proof -
  have 1: "yields (set_next l hn h) (N(l \<mapsto> hn)) P D" using assms by (intro yields_set_next) auto
  have 2: "get_next h1 l = Inr hn" if "links h1 (N(l \<mapsto> hn)) P D" for h1
    using that by (rule links_get_next) simp
  show ?thesis
    unfolding list_cut_raw_def links_get_next [OF assms(1,3)] links_get_next [OF assms(1,4)] rbind_Inr
    by (rule yields_bind [OF 1], simp only: 2 rbind_Inr)
      (use assms in \<open>intro yields_bind [OF yields_set_prev] yields_bind [OF yields_set_next] yields_set_prev; auto\<close>)
qed

lemma ring_cut:
  assumes r: "ring N P D head (as @ e # bs)" and l: "l \<in> D" "l \<notin> set (head # as @ e # bs)"
    and h: "hn = hd (as @ [e])" "nf = hd (bs @ [head])"
  shows "ring (N(l \<mapsto> hn, e \<mapsto> l, head \<mapsto> nf)) (P(hn \<mapsto> l, l \<mapsto> e, nf \<mapsto> head)) D l (as @ [e])"
    "ring (N(l \<mapsto> hn, e \<mapsto> l, head \<mapsto> nf)) (P(hn \<mapsto> l, l \<mapsto> e, nf \<mapsto> head)) D head bs"
proof -
  let ?N = "N(l \<mapsto> hn, e \<mapsto> l, head \<mapsto> nf)" and ?P = "P(hn \<mapsto> l, l \<mapsto> e, nf \<mapsto> head)"
  obtain r1 where r1: "as @ [e] = hn # r1" using h by (cases as) auto
  obtain ns where ns: "bs @ [head] = nf # ns" using h by (cases bs) auto
  have d: "distinct (head # as @ e # bs)" using r by (simp add: ring_def)
  have hn: "hn \<in> set (as @ [e])" "nf \<in> set (bs @ [head])" using r1 ns by auto
  have "chain N P ([head] @ (as @ [e]) @ (bs @ [head]))" using r by (simp add: ring_def)
  then have c1: "chain N P (as @ [e])" by (rule chain_inner)
  have "chain N P ((head # as @ [e]) @ (bs @ [head]) @ [])" using r by (simp add: ring_def)
  then have c2: "chain N P (bs @ [head])" by (rule chain_inner)
  have dd1: "hn \<notin> set (tl (as @ [e]))" using d by (cases as) (auto simp: h)
  have dd2: "nf \<notin> set (tl (bs @ [head]))" using d by (cases bs) (auto simp: h)
  note dd = dd1 dd2
  have c1': "chain ?N ?P (as @ [e])"
  proof -
    have "nf \<notin> set (tl (as @ [e]))" "l \<notin> set (tl (as @ [e]))"
      using hn d l by (cases as; auto)+
    then show ?thesis using c1 dd d l by simp
  qed
  have c2': "chain ?N ?P (bs @ [head])"
  proof -
    have "hn \<notin> set (tl (bs @ [head]))" "l \<notin> set (tl (bs @ [head]))"
      using hn d l by (cases bs; auto)+
    then show ?thesis using c2 dd d l by simp
  qed
  have ne: "hn \<noteq> nf" "hn \<noteq> l" "nf \<noteq> l" "e \<noteq> head" "l \<noteq> head" "l \<noteq> e" using hn d l by auto
  have "chain ?N ?P (l # hn # r1 @ [l])"
    using c1' chain_link [of ?N ?P as e l "[]"] ne r1 by (simp, metis append_Cons append.assoc append_Nil)
  then have "chain ?N ?P (l # (as @ [e]) @ [l])" unfolding r1 by simp
  then show "ring ?N ?P D l (as @ [e])" using r l unfolding ring_def by auto
  have "chain ?N ?P (head # bs @ [head])" unfolding ns using c2' ns ne by simp
  then show "ring ?N ?P D head bs" using r by (auto simp: ring_def)
qed

lemma list_cut_raw_dll:
  assumes "dll h head (as @ e # bs)" and l: "l \<in> dom h" "l \<notin> set (head # as @ e # bs)"
  shows "\<exists>h'. list_cut_raw l head e h = Inr h' \<and> dll h' l (as @ [e]) \<and> dll h' head bs
    \<and> framed h h' (set (l # head # as @ e # bs))"
proof -
  let ?hn = "hd (as @ [e])" let ?nf = "hd (bs @ [head])"
  have r: "ring (nx h) (pv h) (dom h) head (as @ e # bs)" using assms(1) by (simp add: dll_def)
  have m: "nx h e = Some ?nf" "nx h head = Some ?hn"
    using ring_mid [OF r] ring_next [OF r] by (auto simp: hd_append split: if_splits)
  have i: "?hn \<in> set (as @ [e])" "?nf \<in> set (bs @ [head])" by (rule hd_in_set, simp)+
  then have "{l, head, e, ?hn, ?nf} \<subseteq> dom h" using dll_live [OF assms(1)] l by auto
  from yields_cut_raw [OF links_self this m] l
  obtain h' where "list_cut_raw l head e h = Inr h'"
    and k: "links h' ((nx h)(l \<mapsto> ?hn, e \<mapsto> l, head \<mapsto> ?nf)) ((pv h)(?hn \<mapsto> l, l \<mapsto> e, ?nf \<mapsto> head)) (dom h)"
    by (auto simp: yields_def)
  moreover have "dll h' l (as @ [e])" "dll h' head bs"
    unfolding dll_links [OF k] using ring_cut [OF r l refl refl] .
  moreover have "framed h h' (set (l # head # as @ e # bs))"
    using k by (rule links_framed) (use i in auto)
  ultimately show ?thesis by blast
qed

lemma list_cut_position_dll:
  assumes d: "dll h head (as @ e # bs)" and l: "l \<in> dom h" "l \<notin> set (head # as @ e # bs)"
  shows "\<exists>h'. list_cut_position l head e h = Inr h' \<and> dll h' l (as @ [e]) \<and> dll h' head bs
    \<and> framed h h' (set (l # head # as @ e # bs))"
proof -
  have ne: "e \<noteq> head" using dll_distinct [OF d] by auto
  have "list_cut_position l head e h = list_cut_raw l head e h"
  proof (cases "length (as @ e # bs) = 1")
    case True
    then show ?thesis using ne
      by (simp add: list_cut_position_def list_is_singular_dll [OF d] dll_reads [OF d])
  next
    case False
    then show ?thesis using ne
      by (simp add: list_cut_position_def list_is_singular_dll [OF d] dll_reads [OF d])
  qed
  with list_cut_raw_dll [OF assms] show ?thesis by simp
qed

lemma list_replace_init_dll:
  assumes "dll h head (as @ old # bs)" and "new \<in> dom h" and "new \<notin> set (head # as @ old # bs)"
  shows "\<exists>h'. list_replace_init old new h = Inr h' \<and> dll h' head (as @ new # bs) \<and> dll h' old []
     \<and> framed h h' (set (new # head # as @ old # bs))"
proof -
  obtain h1 where 1: "list_replace old new h = Inr h1" "dll h1 head (as @ new # bs)"
    "framed h h1 (set (new # head # as @ bs))"
    using list_replace_dll [OF assms] by blast
  have o: "old \<in> dom h" "old \<notin> set (head # as @ new # bs)"
    using dll_live [OF assms(1), of old] dll_distinct [OF assms(1)] assms(3) by auto
  from reinit_after_splice [OF 1(2,3) o] obtain h' where 2: "INIT_LIST_HEAD old h1 = Inr h'"
    "dll h' head (as @ new # bs)" "dll h' old []" "framed h h' (insert old (set (new # head # as @ bs)))" by blast
  have "framed h h' (set (new # head # as @ old # bs))" by (rule framed_mono [OF 2(4)]) auto
  then show ?thesis using 1(1) 2 by (auto simp: list_replace_init_def)
qed

section \<open>The traversals\<close>

text \<open>A traversal whose body keeps the heap visits the entries in order, and needs one step more
  than there are entries.\<close>

lemma each_next_body:
  assumes "dll h head (as @ bs)" and "length bs < k" and "\<And>a s. a \<in> set bs \<Longrightarrow> body a s h = Inr (f a s, h)"
  shows "each_from get_next k body head (hd (bs @ [head])) s h = Some (Inr (fold f bs s, h))"
  using assms
proof (induction bs arbitrary: as s k)
  case Nil
  then show ?case by (cases k) auto
next
  case (Cons b bs)
  obtain k' where k: "k = Suc k'" "length bs < k'" using Cons.prems(2) by (cases k) auto
  have "b \<noteq> head" using dll_distinct [OF Cons.prems(1)] by auto
  moreover have d: "dll h head ((as @ [b]) @ bs)" using Cons.prems(1) by simp
  have "body a s h = Inr (f a s, h)" if "a \<in> set bs" for a s using that Cons.prems(3) by simp
  note Cons.IH [OF d k(2) this]
  ultimately show ?case using k Cons.prems(3) by (simp add: dll_reads_mid [OF Cons.prems(1)])
qed

lemma each_next_suffix:
  assumes "dll h head (as @ bs)" and "length bs < k"
  shows "each_from get_next k (\<lambda>a s h. Inr (f a s, h)) head (hd (bs @ [head])) s h
    = Some (Inr (fold f bs s, h))"
  using assms by (rule each_next_body) simp

lemma list_for_each_body:
  assumes "dll h head xs" and "length xs < k" and "\<And>a s. a \<in> set xs \<Longrightarrow> body a s h = Inr (f a s, h)"
  shows "list_for_each k body head s h = Some (Inr (fold f xs s, h))"
  using each_next_body [of h head "[]" xs k body f] assms by (simp add: list_for_each_def dll_reads [OF assms(1)])

lemma each_prev_prefix:
  assumes "dll h head (as @ bs)" and "length as < k"
  shows "each_from get_prev k (\<lambda>a s h. Inr (f a s, h)) head (last (head # as)) s h
    = Some (Inr (fold f (rev as) s, h))"
  using assms
proof (induction as arbitrary: bs s k rule: rev_induct)
  case Nil
  then show ?case by (cases k) auto
next
  case (snoc a as)
  have d: "dll h head (as @ a # bs)" using snoc.prems(1) by simp
  obtain k' where k: "k = Suc k'" "length as < k'" using snoc.prems(2) by (cases k) auto
  have "a \<noteq> head" using dll_distinct [OF d] by auto
  then show ?case using k snoc.IH [OF d k(2)] by (simp add: dll_reads_mid [OF d])
qed

lemma list_for_each_dll:
  assumes "dll h head xs" and "length xs < k"
  shows "list_for_each k (\<lambda>a s h. Inr (f a s, h)) head s h = Some (Inr (fold f xs s, h))"
    "list_for_each_prev k (\<lambda>a s h. Inr (f a s, h)) head s h = Some (Inr (fold f (rev xs) s, h))"
  using each_next_suffix [of h head "[]" xs k f s] each_prev_prefix [of h head xs "[]" k f s] assms
  by (simp_all add: list_for_each_def list_for_each_prev_def dll_reads [OF assms(1)] del: last.simps)

lemma list_for_each_mid_dll:
  assumes "dll h head (as @ e # bs)" and "length as < k" and "Suc (length bs) < k"
  shows "list_for_each_continue k (\<lambda>a s h. Inr (f a s, h)) head e s h = Some (Inr (fold f bs s, h))"
    "list_for_each_continue_reverse k (\<lambda>a s h. Inr (f a s, h)) head e s h = Some (Inr (fold f (rev as) s, h))"
    "list_for_each_from k (\<lambda>a s h. Inr (f a s, h)) head e s h = Some (Inr (fold f (e # bs) s, h))"
  using each_next_suffix [of h head "as @ [e]" bs k f s] each_next_suffix [of h head as "e # bs" k f s]
    each_prev_prefix [of h head as "e # bs" k f s] assms
  by (simp_all add: list_for_each_continue_def list_for_each_continue_reverse_def list_for_each_from_def
      dll_reads_mid [OF assms(1)] del: last.simps)

text \<open>The safe loops survive a body that unlinks (and may then free) the entry it is at.\<close>

abbreviation del_body :: "(addr \<Rightarrow> 's \<Rightarrow> 's) \<Rightarrow> 's body" where
  "del_body f \<equiv> \<lambda>a s h. rbind (list_del a h) (\<lambda>h'. Inr (f a s, h'))"

lemma each_safe_next_del:
  assumes "dll h head (as @ bs)" and "length bs < k" and "bs \<noteq> [] \<Longrightarrow> n = hd (tl bs @ [head])"
  shows "\<exists>h'. each_safe get_next k (del_body f) head (hd (bs @ [head])) n s h
    = Some (Inr (fold f bs s, h')) \<and> dll h' head as"
  using assms
proof (induction bs arbitrary: h n s k)
  case Nil
  then show ?case by (cases k) auto
next
  case (Cons x xs)
  obtain k' where k: "k = Suc k'" "length xs < k'" using Cons.prems(2) by (cases k) auto
  obtain h1 where 1: "list_del x h = Inr h1" "dll h1 head (as @ xs)"
    using list_del_dll [of h head as x xs] Cons.prems(1) by auto
  obtain m where m: "get_next h1 n = Inr m" "xs \<noteq> [] \<Longrightarrow> m = hd (tl xs @ [head])"
  proof (cases xs)
    case Nil
    then show ?thesis using that Cons.prems(3) dll_reads [OF 1(2)] by simp
  next
    case (Cons y ys)
    then show ?thesis using that Cons.prems(3) dll_reads_mid [of h1 head as y ys] 1(2) by simp
  qed
  have "x \<noteq> head" using dll_distinct [OF Cons.prems(1)] by auto
  moreover from Cons.IH [OF 1(2) k(2) m(2)] obtain h' where
    "each_safe get_next k' (del_body f) head (hd (xs @ [head])) m (f x s) h1
      = Some (Inr (fold f xs (f x s), h')) \<and> dll h' head as" by blast
  ultimately show ?case using k 1(1) m(1) Cons.prems(3) by simp
qed

lemma each_safe_prev_del:
  assumes "dll h head (as @ bs)" and "length as < k" and "as \<noteq> [] \<Longrightarrow> n = last (head # butlast as)"
  shows "\<exists>h'. each_safe get_prev k (del_body f) head (last (head # as)) n s h
    = Some (Inr (fold f (rev as) s, h')) \<and> dll h' head bs"
  using assms
proof (induction as arbitrary: h n s k rule: rev_induct)
  case Nil
  then show ?case by (cases k) auto
next
  case (snoc x xs)
  have d: "dll h head (xs @ x # bs)" using snoc.prems(1) by simp
  obtain k' where k: "k = Suc k'" "length xs < k'" using snoc.prems(2) by (cases k) auto
  obtain h1 where 1: "list_del x h = Inr h1" "dll h1 head (xs @ bs)"
    using list_del_dll [OF d] by auto
  have n: "n = last (head # xs)" using snoc.prems(3) by simp
  obtain m where m: "get_prev h1 n = Inr m" "xs \<noteq> [] \<Longrightarrow> m = last (head # butlast xs)"
  proof (cases xs rule: rev_cases)
    case Nil
    then show ?thesis using that n dll_reads [OF 1(2)] by simp
  next
    case (snoc ys y)
    then have "dll h1 head (ys @ y # bs)" using 1(2) by simp
    from dll_reads_mid [OF this] show ?thesis using that n snoc by simp
  qed
  have "x \<noteq> head" using dll_distinct [OF d] by auto
  moreover from snoc.IH [OF 1(2) k(2) m(2)] obtain h' where
    "each_safe get_prev k' (del_body f) head (last (head # xs)) m (f x s) h1
      = Some (Inr (fold f (rev xs) (f x s), h')) \<and> dll h' head bs" by blast
  ultimately show ?case using k 1(1) m(1) n by simp
qed

lemma list_for_each_safe_from_del:
  assumes "dll h head (as @ e # bs)" and "Suc (length bs) < k"
  shows "\<exists>h'. list_for_each_safe_from k (del_body f) head e s h
    = Some (Inr (fold f (e # bs) s, h')) \<and> dll h' head as"
  using each_safe_next_del [of h head as "e # bs" k "hd (bs @ [head])"] assms
  by (simp add: list_for_each_safe_from_def dll_reads_mid [OF assms(1)])

lemma list_for_each_safe_del:
  assumes "dll h head xs" and "length xs < k"
  shows "\<exists>h'. list_for_each_safe k (del_body f) head s h = Some (Inr (fold f xs s, h')) \<and> dll h' head []"
    "\<exists>h'. list_for_each_prev_safe k (del_body f) head s h = Some (Inr (fold f (rev xs) s, h')) \<and> dll h' head []"
proof -
  obtain k' where k: "k = Suc k'" using assms(2) by (cases k) auto
  show "\<exists>h'. list_for_each_safe k (del_body f) head s h = Some (Inr (fold f xs s, h')) \<and> dll h' head []"
  proof (cases xs)
    case Nil
    then show ?thesis using assms(1) k
      by (simp add: list_for_each_safe_def list_for_each_safe_from_def dll_reads [OF assms(1)])
  next
    case (Cons y ys)
    then show ?thesis using list_for_each_safe_from_del [of h head "[]" y ys k f s] assms
      by (simp add: list_for_each_safe_def dll_reads [OF assms(1)])
  qed
  show "\<exists>h'. list_for_each_prev_safe k (del_body f) head s h = Some (Inr (fold f (rev xs) s, h')) \<and> dll h' head []"
  proof (cases xs rule: rev_cases)
    case Nil
    then show ?thesis using assms(1) k
      by (simp add: list_for_each_prev_safe_def dll_reads [OF assms(1)])
  next
    case (snoc ys y)
    then have "dll h head (ys @ y # [])" using assms(1) by simp
    from dll_reads_mid [OF this] show ?thesis
      using snoc each_safe_prev_del [of h head xs "[]" k "last (head # ys)" f s] assms
      by (simp add: list_for_each_prev_safe_def dll_reads [OF assms(1)] del: last.simps) simp
  qed
qed

lemma list_for_each_safe_continue_del:
  assumes "dll h head (as @ e # bs)" and "length bs < k"
  shows "\<exists>h'. list_for_each_safe_continue k (del_body f) head e s h
    = Some (Inr (fold f bs s, h')) \<and> dll h' head (as @ [e])"
proof (cases bs)
  case Nil
  then show ?thesis using assms
    by (cases k) (auto simp: list_for_each_safe_continue_def list_for_each_safe_from_def dll_reads_mid [OF assms(1)]
      dll_reads [OF assms(1)])
next
  case (Cons y ys)
  then show ?thesis using list_for_each_safe_from_del [of h head "as @ [e]" y ys k f s] assms
    by (simp add: list_for_each_safe_continue_def dll_reads_mid [OF assms(1)])
qed

lemma list_first_last_dll:
  assumes "dll h head xs"
  shows "list_first_entry_or_null head h = Inr (if xs = [] then None else Some (hd xs))"
    "xs \<noteq> [] \<Longrightarrow> list_first_entry head h = Inr (hd xs)"
    "xs \<noteq> [] \<Longrightarrow> list_last_entry head h = Inr (last xs)"
  by (simp_all add: list_first_entry_or_null_def list_first_entry_def list_last_entry_def dll_reads [OF assms])

section \<open>Properties\<close>

text \<open>Adding a live cell that is on no list puts it first (\<open>list_add\<close>) or last
  (\<open>list_add_tail\<close>) on the list, without a fault, and writes to no cell outside the new one and the
  list's own, so every disjoint list stays as it was (\<open>framed_dll\<close>).\<close>

theorem list_insertion:
  assumes "dll h head xs" and "new \<in> dom h" and "new \<notin> set (head # xs)"
  shows "(\<exists>h'. list_add new head h = Inr h' \<and> dll h' head (new # xs) \<and> framed h h' (set (new # head # xs)))
    \<and> (\<exists>h'. list_add_tail new head h = Inr h' \<and> dll h' head (xs @ [new]) \<and> framed h h' (set (new # head # xs)))"
  using list_add_dll [OF assms] list_add_tail_dll [OF assms] by auto

text \<open>A concrete heap: the list 1, 2, 3 headed by 0, the list 5 headed by 4, and a loose cell 6.\<close>

definition demo_heap :: lheap where
  "demo_heap = [0 \<mapsto> \<lparr>lnext = 1, lprev = 3\<rparr>, 1 \<mapsto> \<lparr>lnext = 2, lprev = 0\<rparr>, 2 \<mapsto> \<lparr>lnext = 3, lprev = 1\<rparr>,
     3 \<mapsto> \<lparr>lnext = 0, lprev = 2\<rparr>, 4 \<mapsto> \<lparr>lnext = 5, lprev = 5\<rparr>, 5 \<mapsto> \<lparr>lnext = 4, lprev = 4\<rparr>,
     6 \<mapsto> \<lparr>lnext = 6, lprev = 6\<rparr>]"

lemma demo_heap_dll: "dll demo_heap 0 [1, 2, 3]" "dll demo_heap 4 [5]" "6 \<in> dom demo_heap"
  by (simp_all add: dll_def ring_def demo_heap_def nx_def pv_def)

lemma list_insertion_witness:
  "\<exists>h'. list_add 6 0 demo_heap = Inr h' \<and> dll h' 0 [6, 1, 2, 3]"
  using list_insertion [OF demo_heap_dll(1) demo_heap_dll(3)] by auto

text \<open>Unlinking an entry leaves the rest of the list in order; \<open>list_del\<close> poisons the entry's two
  pointers, \<open>list_del_init\<close> makes it an empty list of its own, \<open>list_move\<close> and \<open>list_move_tail\<close> put it
  first or last again, \<open>list_replace_init\<close> puts another cell in its place, and \<open>list_rotate_left\<close>
  moves the first entry to the end. None of them faults.\<close>

theorem list_removal:
  assumes d: "dll h head (as @ e # bs)"
  shows "(\<exists>h'. list_del e h = Inr h' \<and> dll h' head (as @ bs) \<and> nx h' e = Some LIST_POISON1 \<and> pv h' e = Some LIST_POISON2)
    \<and> (\<exists>h'. list_del_init e h = Inr h' \<and> dll h' head (as @ bs) \<and> dll h' e [])
    \<and> (\<exists>h'. list_move e head h = Inr h' \<and> dll h' head (e # as @ bs))
    \<and> (\<exists>h'. list_move_tail e head h = Inr h' \<and> dll h' head (as @ bs @ [e]))
    \<and> (\<exists>h'. list_rotate_left head h = Inr h' \<and> dll h' head (rotate1 (as @ e # bs)))
    \<and> (new \<in> dom h \<longrightarrow> new \<notin> set (head # as @ e # bs) \<longrightarrow>
      (\<exists>h'. list_replace_init e new h = Inr h' \<and> dll h' head (as @ new # bs) \<and> dll h' e []))"
  using list_del_dll [OF d] list_del_init_dll [OF d] list_move_dll [OF d] list_move_tail_dll [OF d]
    list_rotate_left_dll [OF d] list_replace_init_dll [OF d, of new] by simp (blast | metis)+

lemma list_removal_witness:
  "(\<exists>h'. list_del 2 demo_heap = Inr h' \<and> dll h' 0 [1, 3])
    \<and> (\<exists>h'. list_replace_init 2 6 demo_heap = Inr h' \<and> dll h' 0 [1, 6, 3] \<and> dll h' 2 [])"
  using list_removal [of demo_heap 0 "[1]" 2 "[3]" 6]
    demo_heap_dll by auto

text \<open>The four splices put all entries of the list at \<open>l\<close>, in order, in front of or behind the
  entries of a disjoint list, and do nothing when \<open>l\<close> is empty; the two \<open>_init\<close> forms leave \<open>l\<close> an
  empty list that can be used again.\<close>

theorem list_splices:
  assumes "dll h head xs" and "dll h l ys" and "set (head # xs) \<inter> set (l # ys) = {}"
  shows "(\<exists>h'. list_splice l head h = Inr h' \<and> dll h' head (ys @ xs))
    \<and> (\<exists>h'. list_splice_tail l head h = Inr h' \<and> dll h' head (xs @ ys))
    \<and> (\<exists>h'. list_splice_init l head h = Inr h' \<and> dll h' head (ys @ xs) \<and> dll h' l [])
    \<and> (\<exists>h'. list_splice_tail_init l head h = Inr h' \<and> dll h' head (xs @ ys) \<and> dll h' l [])"
  using list_splice_dll [OF assms] list_splice_tail_dll [OF assms] list_splice_init_dll [OF assms]
    list_splice_tail_init_dll [OF assms] by auto

lemma list_splices_witness:
  "\<exists>h'. list_splice_tail_init 4 0 demo_heap = Inr h' \<and> dll h' 0 [1, 2, 3, 5] \<and> dll h' 4 []"
  using list_splices [OF demo_heap_dll(1,2)] by auto

text \<open>C8: cutting a list at one of its entries moves the entries up to and including it to the
  list at \<open>l\<close> and leaves the others at \<open>head\<close>, and splicing \<open>l\<close> back in front gives the original
  list again.\<close>

theorem list_cut_then_splice:
  assumes d: "dll h head (as @ e # bs)" and l: "l \<in> dom h" "l \<notin> set (head # as @ e # bs)"
  shows "\<exists>h1 h2. list_cut_position l head e h = Inr h1 \<and> dll h1 l (as @ [e]) \<and> dll h1 head bs
    \<and> list_splice_init l head h1 = Inr h2 \<and> dll h2 head (as @ e # bs) \<and> dll h2 l []"
proof -
  obtain h1 where 1: "list_cut_position l head e h = Inr h1" "dll h1 l (as @ [e])" "dll h1 head bs"
    using list_cut_position_dll [OF assms] by blast
  have "set (head # bs) \<inter> set (l # as @ [e]) = {}" using dll_distinct [OF d] l(2) by auto
  from list_splice_init_dll [OF 1(3,2) this] show ?thesis using 1 by auto
qed

lemma list_cut_then_splice_witness:
  "\<exists>h1 h2. list_cut_position 6 0 2 demo_heap = Inr h1 \<and> dll h1 6 [1, 2] \<and> dll h1 0 [3]
    \<and> list_splice_init 6 0 h1 = Inr h2 \<and> dll h2 0 [1, 2, 3] \<and> dll h2 6 []"
  using list_cut_then_splice [of demo_heap 0 "[1]" 2 "[3]" 6] demo_heap_dll by simp

text \<open>The traversal loops end after one step more than there are entries to visit and run
  their body on each entry once: forwards, backwards, or from an entry in the middle, in both
  directions.\<close>

theorem list_traversals:
  assumes d: "dll h head (as @ e # bs)" and k: "length (as @ e # bs) < k"
  shows "(list_for_each k (\<lambda>a s h. Inr (f a s, h)) head s h = Some (Inr (fold f (as @ e # bs) s, h)))
    \<and> (list_for_each_prev k (\<lambda>a s h. Inr (f a s, h)) head s h = Some (Inr (fold f (rev (as @ e # bs)) s, h)))
    \<and> (list_for_each_continue k (\<lambda>a s h. Inr (f a s, h)) head e s h = Some (Inr (fold f bs s, h)))
    \<and> (list_for_each_continue_reverse k (\<lambda>a s h. Inr (f a s, h)) head e s h = Some (Inr (fold f (rev as) s, h)))
    \<and> (list_for_each_from k (\<lambda>a s h. Inr (f a s, h)) head e s h = Some (Inr (fold f (e # bs) s, h)))"
  using list_for_each_dll [OF d k, of f s] list_for_each_mid_dll [OF d, of k f s] k by simp

lemma list_traversals_witness:
  "list_for_each_prev 4 (\<lambda>a s h. Inr (s @ [a], h)) 0 [] demo_heap = Some (Inr ([3, 2, 1], demo_heap))"
  using list_traversals [of demo_heap 0 "[1]" 2 "[3]" 4 "\<lambda>a s. s @ [a]" "[]"] demo_heap_dll(1) by simp

text \<open>C29: a \<open>_safe\<close> loop whose body deletes the entry it is at visits every entry once, never reads a
  poisoned pointer, and leaves exactly the entries it did not visit: the way the configuration list
  is freed.\<close>

theorem list_safe_deletion:
  assumes d: "dll h head (as @ e # bs)" and k: "length (as @ e # bs) < k"
  shows "(\<exists>h'. list_for_each_safe k (del_body f) head s h = Some (Inr (fold f (as @ e # bs) s, h')) \<and> dll h' head [])
    \<and> (\<exists>h'. list_for_each_prev_safe k (del_body f) head s h = Some (Inr (fold f (rev (as @ e # bs)) s, h')) \<and> dll h' head [])
    \<and> (\<exists>h'. list_for_each_safe_from k (del_body f) head e s h = Some (Inr (fold f (e # bs) s, h')) \<and> dll h' head as)
    \<and> (\<exists>h'. list_for_each_safe_continue k (del_body f) head e s h = Some (Inr (fold f bs s, h')) \<and> dll h' head (as @ [e]))"
  using list_for_each_safe_del [OF d k, of f s] list_for_each_safe_from_del [OF d, of k f s]
    list_for_each_safe_continue_del [OF d, of k f s] k
  by simp

lemma list_safe_deletion_witness:
  "\<exists>h'. list_for_each_safe 4 (del_body (\<lambda>a s. s @ [a])) 0 [] demo_heap = Some (Inr ([1, 2, 3], h')) \<and> dll h' 0 []"
  using list_safe_deletion [of demo_heap 0 "[1]" 2 "[3]" 4 "\<lambda>a s. s @ [a]" "[]"] demo_heap_dll(1) by simp

end
