(* ===== verification/HList.thy ===== *)
theory HList
  imports KList
begin

text \<open>
  The singly headed lists of \<^verbatim>\<open>src/config_item/include/list.h\<close> (\<open>hlist\<close>). A node points to the
  next node and, with \<open>pprev\<close>, to the pointer that points to it: the \<open>first\<close> field of the list head
  or the \<open>next\<close> field of the previous node. Such a pointer to a pointer is a \<open>slot\<close>, and a write
  through it writes the field it stands for.
\<close>

datatype slot = First addr | Next addr | Poison2

record hlist_node =
  hnext :: ptr
  hpprev :: "slot option"

record hheap =
  heads :: "addr \<rightharpoonup> ptr"
  hnodes :: "addr \<rightharpoonup> hlist_node"

section \<open>Field accesses\<close>

fun read_slot :: "hheap \<Rightarrow> slot \<Rightarrow> ptr option" where
  "read_slot h (First l) = heads h l"
| "read_slot h (Next a) = map_option hnext (hnodes h a)"
| "read_slot h Poison2 = None"

definition pprev_of :: "hheap \<Rightarrow> addr \<Rightarrow> slot option option" where
  "pprev_of h a = map_option hpprev (hnodes h a)"

definition get_slot :: "hheap \<Rightarrow> slot \<Rightarrow> ptr res" where
  "get_slot h s = (case read_slot h s of None \<Rightarrow> Inl BadPointer | Some p \<Rightarrow> Inr p)"

definition get_pprev :: "hheap \<Rightarrow> addr \<Rightarrow> slot option res" where
  "get_pprev h a = (case pprev_of h a of None \<Rightarrow> Inl BadPointer | Some s \<Rightarrow> Inr s)"

fun set_slot :: "slot \<Rightarrow> ptr \<Rightarrow> hheap \<Rightarrow> hheap res" where
  "set_slot (First l) p h = (case heads h l of None \<Rightarrow> Inl BadPointer
     | Some _ \<Rightarrow> Inr (h\<lparr>heads := (heads h)(l \<mapsto> p)\<rparr>))"
| "set_slot (Next a) p h = (case hnodes h a of None \<Rightarrow> Inl BadPointer
     | Some n \<Rightarrow> Inr (h\<lparr>hnodes := (hnodes h)(a \<mapsto> n\<lparr>hnext := p\<rparr>)\<rparr>))"
| "set_slot Poison2 p h = Inl BadPointer"

definition set_pprev :: "addr \<Rightarrow> slot option \<Rightarrow> hheap \<Rightarrow> hheap res" where
  "set_pprev a s h = (case hnodes h a of None \<Rightarrow> Inl BadPointer
     | Some n \<Rightarrow> Inr (h\<lparr>hnodes := (hnodes h)(a \<mapsto> n\<lparr>hpprev := s\<rparr>)\<rparr>))"

text \<open>\<open>*pprev = p\<close> for a \<open>pprev\<close> that may be NULL.\<close>

definition set_through :: "slot option \<Rightarrow> ptr \<Rightarrow> hheap \<Rightarrow> hheap res" where
  "set_through s p h = (case s of None \<Rightarrow> Inl NullDeref | Some s \<Rightarrow> set_slot s p h)"

section \<open>The operations\<close>

definition INIT_HLIST_HEAD :: "addr \<Rightarrow> hheap \<Rightarrow> hheap res" where
  "INIT_HLIST_HEAD l h = set_slot (First l) None h"

definition INIT_HLIST_NODE :: "addr \<Rightarrow> hheap \<Rightarrow> hheap res" where
  "INIT_HLIST_NODE n h = rbind (set_slot (Next n) None h) (set_pprev n None)"

definition hlist_unhashed :: "addr \<Rightarrow> hheap \<Rightarrow> bool res" where
  "hlist_unhashed n h = rbind (get_pprev h n) (\<lambda>s. Inr (s = None))"

definition hlist_empty :: "addr \<Rightarrow> hheap \<Rightarrow> bool res" where
  "hlist_empty l h = rbind (get_slot h (First l)) (\<lambda>p. Inr (p = None))"

text \<open>\<open>if (p) p->pprev = s;\<close>\<close>

definition fix_pprev :: "ptr \<Rightarrow> slot option \<Rightarrow> hheap \<Rightarrow> hheap res" where
  "fix_pprev p s h = (case p of None \<Rightarrow> Inr h | Some a \<Rightarrow> set_pprev a s h)"

definition hlist_unlink :: "addr \<Rightarrow> hheap \<Rightarrow> hheap res" where
  "hlist_unlink n h =
     rbind (get_slot h (Next n)) (\<lambda>next.
     rbind (get_pprev h n) (\<lambda>pprev.
     rbind (set_through pprev next h) (\<lambda>h.
     fix_pprev next pprev h)))"

definition hlist_del :: "addr \<Rightarrow> hheap \<Rightarrow> hheap res" where
  "hlist_del n h =
     rbind (hlist_unlink n h) (\<lambda>h.
     rbind (set_slot (Next n) (Some LIST_POISON1) h) (set_pprev n (Some Poison2)))"

definition hlist_del_init :: "addr \<Rightarrow> hheap \<Rightarrow> hheap res" where
  "hlist_del_init n h =
     rbind (hlist_unhashed n h) (\<lambda>u.
     if \<not> u then rbind (hlist_unlink n h) (INIT_HLIST_NODE n) else Inr h)"

definition hlist_add_head :: "addr \<Rightarrow> addr \<Rightarrow> hheap \<Rightarrow> hheap res" where
  "hlist_add_head n l h =
     rbind (get_slot h (First l)) (\<lambda>first.
     rbind (set_slot (Next n) first h) (\<lambda>h.
     rbind (fix_pprev first (Some (Next n)) h) (\<lambda>h.
     rbind (set_slot (First l) (Some n) h) (\<lambda>h.
     set_pprev n (Some (First l)) h))))"

definition hlist_add_before :: "addr \<Rightarrow> addr \<Rightarrow> hheap \<Rightarrow> hheap res" where
  "hlist_add_before n next h =
     rbind (get_pprev h next) (\<lambda>s.
     rbind (set_pprev n s h) (\<lambda>h.
     rbind (set_slot (Next n) (Some next) h) (\<lambda>h.
     rbind (set_pprev next (Some (Next n)) h) (\<lambda>h.
     rbind (get_pprev h n) (\<lambda>s. set_through s (Some n) h)))))"

definition hlist_add_behind :: "addr \<Rightarrow> addr \<Rightarrow> hheap \<Rightarrow> hheap res" where
  "hlist_add_behind n prev h =
     rbind (get_slot h (Next prev)) (\<lambda>p.
     rbind (set_slot (Next n) p h) (\<lambda>h.
     rbind (set_slot (Next prev) (Some n) h) (\<lambda>h.
     rbind (set_pprev n (Some (Next prev)) h) (\<lambda>h.
     rbind (get_slot h (Next n)) (\<lambda>p. fix_pprev p (Some (Next n)) h)))))"

definition hlist_add_fake :: "addr \<Rightarrow> hheap \<Rightarrow> hheap res" where
  "hlist_add_fake n h = set_pprev n (Some (Next n)) h"

definition hlist_move_list :: "addr \<Rightarrow> addr \<Rightarrow> hheap \<Rightarrow> hheap res" where
  "hlist_move_list old new h =
     rbind (get_slot h (First old)) (\<lambda>p.
     rbind (set_slot (First new) p h) (\<lambda>h.
     rbind (get_slot h (First new)) (\<lambda>p.
     rbind (fix_pprev p (Some (First new)) h) (\<lambda>h.
     set_slot (First old) None h))))"

text \<open>\<open>hlist_for_each\<close> and \<open>hlist_for_each_safe\<close>; \<open>None\<close> when the fuel runs out.\<close>

fun hlist_each :: "nat \<Rightarrow> (addr \<Rightarrow> 's \<Rightarrow> hheap \<Rightarrow> ('s \<times> hheap) res) \<Rightarrow> ptr \<Rightarrow> 's \<Rightarrow> hheap
    \<Rightarrow> ('s \<times> hheap) res option" where
  "hlist_each k body None s h = Some (Inr (s, h))"
| "hlist_each 0 body (Some a) s h = None"
| "hlist_each (Suc k) body (Some a) s h =
     (case body a s h of Inl e \<Rightarrow> Some (Inl e)
      | Inr (s', h') \<Rightarrow> (case get_slot h' (Next a) of Inl e \<Rightarrow> Some (Inl e)
          | Inr p \<Rightarrow> hlist_each k body p s' h'))"

definition hlist_for_each :: "nat \<Rightarrow> (addr \<Rightarrow> 's \<Rightarrow> hheap \<Rightarrow> ('s \<times> hheap) res) \<Rightarrow> addr \<Rightarrow> 's \<Rightarrow> hheap
    \<Rightarrow> ('s \<times> hheap) res option" where
  "hlist_for_each k body l s h = (case get_slot h (First l) of Inl e \<Rightarrow> Some (Inl e)
     | Inr p \<Rightarrow> hlist_each k body p s h)"

fun hlist_each_safe :: "nat \<Rightarrow> (addr \<Rightarrow> 's \<Rightarrow> hheap \<Rightarrow> ('s \<times> hheap) res) \<Rightarrow> ptr \<Rightarrow> 's \<Rightarrow> hheap
    \<Rightarrow> ('s \<times> hheap) res option" where
  "hlist_each_safe k body None s h = Some (Inr (s, h))"
| "hlist_each_safe 0 body (Some a) s h = None"
| "hlist_each_safe (Suc k) body (Some a) s h =
     (case get_slot h (Next a) of Inl e \<Rightarrow> Some (Inl e)
      | Inr n \<Rightarrow> (case body a s h of Inl e \<Rightarrow> Some (Inl e)
          | Inr (s', h') \<Rightarrow> hlist_each_safe k body n s' h'))"

definition hlist_for_each_safe :: "nat \<Rightarrow> (addr \<Rightarrow> 's \<Rightarrow> hheap \<Rightarrow> ('s \<times> hheap) res) \<Rightarrow> addr \<Rightarrow> 's \<Rightarrow> hheap
    \<Rightarrow> ('s \<times> hheap) res option" where
  "hlist_for_each_safe k body l s h = (case get_slot h (First l) of Inl e \<Rightarrow> Some (Inl e)
     | Inr p \<Rightarrow> hlist_each_safe k body p s h)"

section \<open>The heap seen through its slots\<close>

definition view :: "hheap \<Rightarrow> (slot \<rightharpoonup> ptr) \<Rightarrow> (addr \<rightharpoonup> slot option) \<Rightarrow> bool" where
  "view h R Q \<longleftrightarrow> read_slot h = R \<and> pprev_of h = Q"

definition gives :: "hheap res \<Rightarrow> (slot \<rightharpoonup> ptr) \<Rightarrow> (addr \<rightharpoonup> slot option) \<Rightarrow> bool" where
  "gives m R Q \<longleftrightarrow> (\<exists>h. m = Inr h \<and> view h R Q)"

lemma view_self: "view h (read_slot h) (pprev_of h)"
  by (simp add: view_def)

lemma view_node: "view h R Q \<Longrightarrow> R (Next a) = None \<longleftrightarrow> Q a = None"
  by (auto simp: view_def pprev_of_def)

lemma view_get:
  "view h R Q \<Longrightarrow> R s = Some p \<Longrightarrow> get_slot h s = Inr p"
  "view h R Q \<Longrightarrow> Q a = Some t \<Longrightarrow> get_pprev h a = Inr t"
  by (auto simp: view_def get_slot_def get_pprev_def)

lemma gives_set_slot:
  assumes "view h R Q" and "R s \<noteq> None"
  shows "gives (set_slot s p h) (R(s \<mapsto> p)) Q"
proof (cases s)
  case (First l)
  then obtain v where "heads h l = Some v" using assms by (auto simp: view_def)
  moreover have "read_slot (h\<lparr>heads := (heads h)(l \<mapsto> p)\<rparr>) t = (R(s \<mapsto> p)) t" for t
    using First assms(1) by (cases t) (auto simp: view_def)
  moreover have "pprev_of (h\<lparr>heads := (heads h)(l \<mapsto> p)\<rparr>) = Q"
    using assms(1) by (auto simp: view_def pprev_of_def fun_eq_iff)
  ultimately show ?thesis using First by (auto simp: gives_def view_def)
next
  case (Next a)
  then obtain n where n: "hnodes h a = Some n" using assms by (auto simp: view_def)
  let ?h = "h\<lparr>hnodes := (hnodes h)(a \<mapsto> n\<lparr>hnext := p\<rparr>)\<rparr>"
  have "read_slot ?h t = (R(s \<mapsto> p)) t" for t using Next assms(1) by (cases t) (auto simp: view_def)
  moreover have "pprev_of ?h = Q" by (rule ext) (use n assms(1) in \<open>auto simp: view_def pprev_of_def\<close>)
  ultimately show ?thesis using Next n by (auto simp: gives_def view_def)
next
  case Poison2
  then show ?thesis using assms unfolding view_def by (metis read_slot.simps(3))
qed

lemma gives_set_pprev:
  assumes "view h R Q" and "Q a \<noteq> None"
  shows "gives (set_pprev a s h) R (Q(a \<mapsto> s))"
proof -
  obtain n where n: "hnodes h a = Some n" using assms by (auto simp: view_def pprev_of_def)
  let ?h = "h\<lparr>hnodes := (hnodes h)(a \<mapsto> n\<lparr>hpprev := s\<rparr>)\<rparr>"
  have "read_slot ?h t = R t" for t using n assms(1) by (cases t) (auto simp: view_def)
  moreover have "pprev_of ?h = Q(a \<mapsto> s)" using assms(1) by (auto simp: view_def pprev_of_def fun_eq_iff)
  ultimately show ?thesis using n by (auto simp: gives_def view_def set_pprev_def)
qed

lemma gives_bind:
  assumes "gives m R Q" and "\<And>h. view h R Q \<Longrightarrow> gives (f h) R' Q'"
  shows "gives (rbind m f) R' Q'"
  using assms by (auto simp: gives_def)

text \<open>The back pointer of the node \<open>p\<close> points to, if any.\<close>

definition fixq :: "ptr \<Rightarrow> slot option \<Rightarrow> (addr \<rightharpoonup> slot option) \<Rightarrow> addr \<rightharpoonup> slot option" where
  "fixq p s Q = (case p of None \<Rightarrow> Q | Some a \<Rightarrow> Q(a \<mapsto> s))"

lemma gives_fix_pprev:
  assumes "view h R Q" and "\<And>a. p = Some a \<Longrightarrow> Q a \<noteq> None"
  shows "gives (fix_pprev p s h) R (fixq p s Q)"
  using assms gives_set_pprev by (cases p) (auto simp: fix_pprev_def fixq_def gives_def)

declare read_slot.simps [simp del] set_slot.simps [simp del]

section \<open>The list at a head\<close>

text \<open>The slots from \<open>s\<close> on point to \<open>as\<close>, one after the other, and each node points back to the slot
  that points to it; \<open>t\<close> is the slot behind the last one.\<close>

fun seg :: "(slot \<rightharpoonup> ptr) \<Rightarrow> (addr \<rightharpoonup> slot option) \<Rightarrow> slot \<Rightarrow> addr list \<Rightarrow> slot \<Rightarrow> bool" where
  "seg R Q s [] t \<longleftrightarrow> s = t"
| "seg R Q s (a # as) t \<longleftrightarrow> R s = Some (Some a) \<and> Q a = Some (Some s) \<and> seg R Q (Next a) as t"

definition hl :: "(slot \<rightharpoonup> ptr) \<Rightarrow> (addr \<rightharpoonup> slot option) \<Rightarrow> addr \<Rightarrow> addr list \<Rightarrow> bool" where
  "hl R Q l xs \<longleftrightarrow> distinct xs \<and> (\<exists>t. seg R Q (First l) xs t \<and> R t = Some None)"

definition hlist :: "hheap \<Rightarrow> addr \<Rightarrow> addr list \<Rightarrow> bool" where
  "hlist h l xs \<longleftrightarrow> hl (read_slot h) (pprev_of h) l xs"

lemma hlist_view: "view h R Q \<Longrightarrow> hlist h l xs \<longleftrightarrow> hl R Q l xs"
  by (simp add: hlist_def view_def)

definition end_slot :: "slot \<Rightarrow> addr list \<Rightarrow> slot" where
  "end_slot s as = (if as = [] then s else Next (last as))"

lemma seg_end: "seg R Q s as t \<Longrightarrow> t = end_slot s as"
  by (induction as arbitrary: s) (auto simp: end_slot_def)

lemma seg_append: "seg R Q s (as @ bs) t \<longleftrightarrow> seg R Q s as (end_slot s as) \<and> seg R Q (end_slot s as) bs t"
proof (induction as arbitrary: s)
  case (Cons a as)
  then show ?case using Cons [of "Next a"] by (cases as) (auto simp: end_slot_def)
qed (simp add: end_slot_def)

lemma seg_cong:
  assumes "\<And>u. u \<in> set (butlast (s # map Next as)) \<Longrightarrow> R u = R' u" and "\<And>a. a \<in> set as \<Longrightarrow> Q a = Q' a"
  shows "seg R Q s as t = seg R' Q' s as t"
  using assms
proof (induction as arbitrary: s)
  case (Cons a as)
  then show ?case by simp
qed simp

lemma seg_cong_all:
  assumes "\<And>u. u \<in> insert s (Next ` set as) \<Longrightarrow> R u = R' u" and "\<And>a. a \<in> set as \<Longrightarrow> Q a = Q' a"
  shows "seg R Q s as t = seg R' Q' s as t"
proof (rule seg_cong)
  show "R u = R' u" if "u \<in> set (butlast (s # map Next as))" for u
    using in_set_butlastD [OF that] by (intro assms(1)) auto
qed (rule assms(2))

lemma seg_upd [simp]:
  "u \<notin> set (butlast (s # map Next as)) \<Longrightarrow> seg (R(u \<mapsto> p)) Q s as t = seg R Q s as t"
  "a \<notin> set as \<Longrightarrow> seg R (Q(a \<mapsto> q)) s as t = seg R Q s as t"
  by (rule seg_cong; auto)+

lemma hl_split:
  "hl R Q l (as @ bs) \<longleftrightarrow> distinct (as @ bs) \<and> seg R Q (First l) as (end_slot (First l) as)
     \<and> (\<exists>t. seg R Q (end_slot (First l) as) bs t \<and> R t = Some None)"
  by (auto simp: hl_def seg_append)

lemma end_slot_fresh:
  "distinct as \<Longrightarrow> end_slot (First l) as \<notin> set (butlast (First l # map Next as))"
  "a \<notin> set as \<Longrightarrow> Next a \<notin> set (butlast (First l # map Next as))"
proof -
  show "Next a \<notin> set (butlast (First l # map Next as))" if "a \<notin> set as"
    using that by (auto dest: in_set_butlastD)
  show "end_slot (First l) as \<notin> set (butlast (First l # map Next as))" if "distinct as"
    using that by (cases as rule: rev_cases) (auto simp: end_slot_def butlast_append dest: in_set_butlastD)
qed

text \<open>The three facts the operations rest on: what is where in a list with an entry \<open>e\<close>.\<close>

lemma hl_entry:
  assumes "hl R Q l (as @ e # bs)"
  shows "R (end_slot (First l) as) = Some (Some e)" "Q e = Some (Some (end_slot (First l) as))"
    "R (Next e) = Some (case bs of [] \<Rightarrow> None | b # _ \<Rightarrow> Some b)"
    "bs = b # cs \<Longrightarrow> Q b = Some (Some (Next e))"
  using assms by (auto simp: hl_split split: list.splits)

lemma hl_first:
  assumes "hl R Q l xs"
  shows "R (First l) = Some (case xs of [] \<Rightarrow> None | b # _ \<Rightarrow> Some b)"
  using assms by (auto simp: hl_def split: list.splits)

abbreviation opt_hd :: "addr list \<Rightarrow> ptr" where
  "opt_hd bs \<equiv> (case bs of [] \<Rightarrow> None | b # _ \<Rightarrow> Some b)"

lemma end_slot_not_later:
  "distinct (as @ bs) \<Longrightarrow> end_slot (First l) as \<notin> set (map Next bs)"
  using last_in_set [of as] by (auto simp: end_slot_def simp del: last_in_set)

lemma seg_end_in: "seg R Q s as t \<Longrightarrow> t = s \<or> t \<in> set (map Next as)"
  by (drule seg_end) (auto simp: end_slot_def)

lemma hl_delete:
  assumes h: "hl R Q l (as @ e # bs)"
  defines "s \<equiv> end_slot (First l) as"
  shows "hl (R(s \<mapsto> opt_hd bs)) (fixq (opt_hd bs) (Some s) Q) l (as @ bs)"
proof -
  let ?R = "R(s \<mapsto> opt_hd bs)" and ?Q = "fixq (opt_hd bs) (Some s) Q"
  have d: "distinct (as @ e # bs)" and sa: "seg R Q (First l) as s"
    using h by (auto simp: hl_split s_def)
  obtain t where t: "seg R Q (Next e) bs t" "R t = Some None" using h by (auto simp: hl_split)
  have q: "?Q a = Q a" if "a \<in> set as" for a using that d by (auto simp: fixq_def split: list.splits)
  have "seg ?R ?Q (First l) as s = seg R Q (First l) as s"
    using q end_slot_fresh(1) [where as = as and l = l] d by (intro seg_cong) (auto simp: s_def)
  then have 1: "seg ?R ?Q (First l) as s" using sa by simp
  show ?thesis
  proof (cases bs)
    case Nil
    then show ?thesis using 1 d by (auto simp: hl_def intro!: exI [of _ s])
  next
    case (Cons b cs)
    have 2: "s \<notin> set (map Next bs)" using d end_slot_not_later [of as bs] by (simp add: s_def)
    have c: "seg R Q (Next b) cs t" using t Cons by simp
    have "seg ?R ?Q (Next b) cs t = seg R Q (Next b) cs t"
      using 2 d Cons by (intro seg_cong_all) (auto simp: fixq_def)
    moreover have "t \<noteq> s" using seg_end_in [OF c] 2 Cons by auto
    ultimately show ?thesis using 1 d c t(2) Cons by (auto simp: hl_split s_def fixq_def)
  qed
qed

lemma hl_insert:
  assumes h: "hl R Q l (as @ bs)" and n: "n \<notin> set (as @ bs)"
  defines "s \<equiv> end_slot (First l) as"
  shows "hl (R(Next n \<mapsto> opt_hd bs, s \<mapsto> Some n)) ((fixq (opt_hd bs) (Some (Next n)) Q)(n \<mapsto> Some s)) l (as @ n # bs)"
proof -
  let ?R = "R(Next n \<mapsto> opt_hd bs, s \<mapsto> Some n)"
  let ?Q = "(fixq (opt_hd bs) (Some (Next n)) Q)(n \<mapsto> Some s)"
  have d: "distinct (as @ bs)" and sa: "seg R Q (First l) as s"
    using h by (auto simp: hl_split s_def)
  obtain t where t: "seg R Q s bs t" "R t = Some None" using h by (auto simp: hl_split s_def)
  have q: "?Q a = Q a" if "a \<in> set as" for a using that d n by (auto simp: fixq_def split: list.splits)
  have f: "s \<notin> set (butlast (First l # map Next as))" "Next n \<notin> set (butlast (First l # map Next as))"
    using end_slot_fresh(1) [where as = as and l = l] end_slot_fresh(2) [where as = as and l = l and a = n] d n by (auto simp: s_def)
  have "seg ?R ?Q (First l) as s = seg R Q (First l) as s"
    using q f by (intro seg_cong) auto
  then have 1: "seg ?R ?Q (First l) as s" using sa by simp
  have sn: "s \<noteq> Next n" using n by (auto simp: s_def end_slot_def split: if_splits)
  show ?thesis
  proof (cases bs)
    case Nil
    then show ?thesis using 1 d n sn by (auto simp: hl_split s_def)
  next
    case (Cons b cs)
    have 2: "s \<notin> set (map Next bs)" using d end_slot_not_later [of as bs] by (simp add: s_def)
    have c: "seg R Q (Next b) cs t" using t Cons by simp
    have "seg ?R ?Q (Next b) cs t = seg R Q (Next b) cs t"
      using 2 d n Cons by (intro seg_cong_all) (auto simp: fixq_def)
    moreover have "t \<noteq> s" "t \<noteq> Next n" using seg_end_in [OF c] 2 n Cons by auto
    ultimately show ?thesis using 1 d n c t(2) Cons sn by (auto simp: hl_split s_def fixq_def)
  qed
qed

section \<open>What the operations do\<close>

lemma gives_hlist: "gives m R Q \<Longrightarrow> hl R Q l xs \<Longrightarrow> \<exists>h'. m = Inr h' \<and> hlist h' l xs"
  by (auto simp: gives_def hlist_view)

lemma hl_self: "hlist h l xs \<Longrightarrow> hl (read_slot h) (pprev_of h) l xs"
  by (simp add: hlist_def)

lemma gives_unlink:
  assumes v: "view h R Q" and h: "hl R Q l (as @ e # bs)"
  shows "gives (hlist_unlink e h) (R(end_slot (First l) as \<mapsto> opt_hd bs))
     (fixq (opt_hd bs) (Some (end_slot (First l) as)) Q)"
proof -
  note e = hl_entry [OF h]
  have "gives (set_slot (end_slot (First l) as) (opt_hd bs) h) (R(end_slot (First l) as \<mapsto> opt_hd bs)) Q"
    using v e(1) by (intro gives_set_slot) auto
  moreover have "Q b \<noteq> None" if "opt_hd bs = Some b" for b
    using that h by (auto simp: hl_split split: list.splits)
  ultimately show ?thesis
    using view_get(1) [OF v e(3)] view_get(2) [OF v e(2)]
    by (auto simp: hlist_unlink_def set_through_def intro!: gives_bind gives_fix_pprev)
qed

lemma fixq_other: "a \<notin> set bs \<Longrightarrow> fixq (opt_hd bs) s Q a = Q a"
  by (auto simp: fixq_def split: list.splits)

lemma hl_unused:
  "Next n \<notin> insert (First l) (set (map Next xs)) \<Longrightarrow> hl (R(Next n \<mapsto> p)) (Q(n \<mapsto> q)) l xs = hl R Q l xs"
proof -
  assume a: "Next n \<notin> insert (First l) (set (map Next xs))"
  have "seg (R(Next n \<mapsto> p)) (Q(n \<mapsto> q)) (First l) xs t = seg R Q (First l) xs t" for t
    using a by (intro seg_cong_all) auto
  moreover have "t \<noteq> Next n" if "seg R Q (First l) xs t" for t using seg_end_in [OF that] a by auto
  ultimately show ?thesis unfolding hl_def by auto
qed

lemma unlink_then_set:
  assumes h: "hlist h l (as @ e # bs)"
  shows "\<exists>h'. rbind (hlist_unlink e h) (\<lambda>h. rbind (set_slot (Next e) p h) (set_pprev e q)) = Inr h'
    \<and> hlist h' l (as @ bs) \<and> read_slot h' (Next e) = Some p \<and> pprev_of h' e = Some q"
proof -
  let ?R = "read_slot h" and ?Q = "pprev_of h" and ?s = "end_slot (First l) as"
  let ?R1 = "?R(?s \<mapsto> opt_hd bs)" and ?Q1 = "fixq (opt_hd bs) (Some ?s) ?Q"
  have d: "e \<notin> set (as @ bs)" "hl ?R ?Q l (as @ e # bs)" using h by (auto simp: hlist_def hl_def)
  note e = hl_entry [OF d(2)]
  have live: "?R1 (Next e) \<noteq> None" "?Q1 e \<noteq> None" using e d(1) by (auto simp: fixq_other)
  have "gives (rbind (hlist_unlink e h) (\<lambda>h. rbind (set_slot (Next e) p h) (set_pprev e q)))
      (?R1(Next e \<mapsto> p)) (?Q1(e \<mapsto> q))"
    using live by (intro gives_bind [OF gives_unlink [OF view_self d(2)]] gives_bind [OF gives_set_slot] gives_set_pprev) auto
  moreover have "hl (?R1(Next e \<mapsto> p)) (?Q1(e \<mapsto> q)) l (as @ bs)"
    using hl_delete [OF d(2)] d(1) by (subst hl_unused) auto
  ultimately obtain h' where "rbind (hlist_unlink e h) (\<lambda>h. rbind (set_slot (Next e) p h) (set_pprev e q)) = Inr h'"
    "view h' (?R1(Next e \<mapsto> p)) (?Q1(e \<mapsto> q))" "hlist h' l (as @ bs)"
    by (auto simp: gives_def hlist_view)
  then show ?thesis by (auto simp: view_def)
qed

lemma hlist_del_result:
  assumes "hlist h l (as @ e # bs)"
  shows "\<exists>h'. hlist_del e h = Inr h' \<and> hlist h' l (as @ bs)
    \<and> read_slot h' (Next e) = Some (Some LIST_POISON1) \<and> pprev_of h' e = Some (Some Poison2)"
  unfolding hlist_del_def by (rule unlink_then_set [OF assms])

lemma hlist_del_init_result:
  assumes "hlist h l (as @ e # bs)"
  shows "\<exists>h'. hlist_del_init e h = Inr h' \<and> hlist h' l (as @ bs) \<and> hlist_unhashed e h' = Inr True"
proof -
  have "hlist_unhashed e h = Inr False"
    using view_get(2) [OF view_self hl_entry(2) [OF hl_self [OF assms]]] by (simp add: hlist_unhashed_def)
  moreover obtain h' where "rbind (hlist_unlink e h) (INIT_HLIST_NODE e) = Inr h'" "hlist h' l (as @ bs)"
    "pprev_of h' e = Some None"
    using unlink_then_set [OF assms, of None None] by (auto simp: INIT_HLIST_NODE_def [abs_def])
  ultimately show ?thesis by (auto simp: hlist_del_init_def hlist_unhashed_def get_pprev_def)
qed

text \<open>A node that may be added: live, and on no list at this head.\<close>

definition loose :: "hheap \<Rightarrow> addr \<Rightarrow> addr list \<Rightarrow> bool" where
  "loose h n xs \<longleftrightarrow> hnodes h n \<noteq> None \<and> n \<notin> set xs"

lemma loose_live: "loose h n xs \<Longrightarrow> read_slot h (Next n) \<noteq> None \<and> pprev_of h n \<noteq> None"
  by (simp add: loose_def pprev_of_def read_slot.simps)

lemma hlist_add_head_result:
  assumes h: "hlist h l xs" and n: "loose h n xs"
  shows "\<exists>h'. hlist_add_head n l h = Inr h' \<and> hlist h' l (n # xs)"
proof -
  let ?R = "read_slot h" and ?Q = "pprev_of h"
  note live = loose_live [OF n]
  have f: "?R (First l) = Some (opt_hd xs)" using hl_first [OF hl_self [OF h]] .
  have q: "?Q b \<noteq> None" if "opt_hd xs = Some b" for b
    using that hl_self [OF h] by (auto simp: hl_def split: list.splits)
  have q2: "fixq (opt_hd xs) (Some (Next n)) ?Q n \<noteq> None"
    using live n by (simp add: fixq_other loose_def)
  have "gives (hlist_add_head n l h) (?R(Next n \<mapsto> opt_hd xs, First l \<mapsto> Some n))
      ((fixq (opt_hd xs) (Some (Next n)) ?Q)(n \<mapsto> Some (First l)))"
    unfolding hlist_add_head_def view_get(1) [OF view_self f] rbind_Inr
    using live f q q2
    by (intro gives_bind [OF gives_set_slot [OF view_self]] gives_bind [OF gives_fix_pprev]
        gives_bind [OF gives_set_slot] gives_set_pprev) auto
  moreover have "hl (?R(Next n \<mapsto> opt_hd xs, First l \<mapsto> Some n))
      ((fixq (opt_hd xs) (Some (Next n)) ?Q)(n \<mapsto> Some (First l))) l (n # xs)"
    using hl_insert [of ?R ?Q l "[]" xs n] hl_self [OF h] n by (simp add: end_slot_def loose_def)
  ultimately show ?thesis by (rule gives_hlist)
qed

lemma hlist_add_before_result:
  assumes h: "hlist h l (as @ e # bs)" and n: "loose h n (as @ e # bs)"
  shows "\<exists>h'. hlist_add_before n e h = Inr h' \<and> hlist h' l (as @ n # e # bs)"
proof -
  let ?R = "read_slot h" and ?Q = "pprev_of h" and ?s = "end_slot (First l) as"
  note live = loose_live [OF n] and en = hl_entry [OF hl_self [OF h]]
  have ne: "n \<noteq> e" "?s \<noteq> Next n" using n by (auto simp: loose_def end_slot_def)
  let ?R1 = "?R(Next n \<mapsto> Some e)" and ?Q1 = "?Q(n \<mapsto> Some ?s, e \<mapsto> Some (Next n))"
  have s1: "gives (set_pprev n (Some ?s) h) ?R (?Q(n \<mapsto> Some ?s))"
    using live by (intro gives_set_pprev view_self) auto
  have s2: "gives (set_slot (Next n) (Some e) h1) ?R1 (?Q(n \<mapsto> Some ?s))" if "view h1 ?R (?Q(n \<mapsto> Some ?s))" for h1
    using that live by (intro gives_set_slot) auto
  have s3: "gives (set_pprev e (Some (Next n)) h2) ?R1 ?Q1" if "view h2 ?R1 (?Q(n \<mapsto> Some ?s))" for h2
    using that en by (intro gives_set_pprev) auto
  have s4: "gives (rbind (get_pprev h3 n) (\<lambda>s. set_through s (Some n) h3)) (?R1(?s \<mapsto> Some n)) ?Q1"
    if v: "view h3 ?R1 ?Q1" for h3
  proof -
    have "get_pprev h3 n = Inr (Some ?s)" using v by (rule view_get(2)) (use ne in simp)
    then show ?thesis using gives_set_slot [OF v, of ?s "Some n"] en(1) ne by (simp add: set_through_def)
  qed
  have "gives (hlist_add_before n e h) (?R1(?s \<mapsto> Some n)) ?Q1"
    unfolding hlist_add_before_def view_get(2) [OF view_self en(2)] rbind_Inr
    by (intro gives_bind [OF s1] gives_bind [OF s2] gives_bind [OF s3] s4; assumption)
  moreover have "hl (?R(Next n \<mapsto> Some e, ?s \<mapsto> Some n)) (?Q(n \<mapsto> Some ?s, e \<mapsto> Some (Next n))) l (as @ n # e # bs)"
    using hl_insert [OF hl_self [OF h], of n] n ne by (simp add: loose_def fixq_def fun_upd_twist)
  ultimately show ?thesis by (rule gives_hlist)
qed

lemma hlist_add_behind_result:
  assumes h: "hlist h l (as @ e # bs)" and n: "loose h n (as @ e # bs)"
  shows "\<exists>h'. hlist_add_behind n e h = Inr h' \<and> hlist h' l (as @ e # n # bs)"
proof -
  let ?R = "read_slot h" and ?Q = "pprev_of h"
  let ?R2 = "?R(Next n \<mapsto> opt_hd bs, Next e \<mapsto> Some n)" and ?Q2 = "fixq (opt_hd bs) (Some (Next n)) (?Q(n \<mapsto> Some (Next e)))"
  note live = loose_live [OF n] and en = hl_entry [OF hl_self [OF h]]
  have ne: "n \<noteq> e" "n \<notin> set bs" using n by (auto simp: loose_def)
  have qb: "?Q b \<noteq> None" if "opt_hd bs = Some b" for b
    using that hl_self [OF h] by (auto simp: hl_split split: list.splits)
  let ?R1 = "?R(Next n \<mapsto> opt_hd bs)" and ?Q1 = "?Q(n \<mapsto> Some (Next e))"
  have s1: "gives (set_slot (Next n) (opt_hd bs) h) ?R1 ?Q"
    using live by (intro gives_set_slot view_self) auto
  have s2: "gives (set_slot (Next e) (Some n) h1) ?R2 ?Q" if "view h1 ?R1 ?Q" for h1
    using that en by (intro gives_set_slot) auto
  have s3: "gives (set_pprev n (Some (Next e)) h2) ?R2 ?Q1" if "view h2 ?R2 ?Q" for h2
    using that live by (intro gives_set_pprev) auto
  have s4: "gives (rbind (get_slot h3 (Next n)) (\<lambda>p. fix_pprev p (Some (Next n)) h3)) ?R2 ?Q2"
    if v: "view h3 ?R2 ?Q1" for h3
  proof -
    have "get_slot h3 (Next n) = Inr (opt_hd bs)" using v by (rule view_get(1)) (use ne in simp)
    then show ?thesis using gives_fix_pprev [OF v, of "opt_hd bs"] qb by simp
  qed
  have "gives (hlist_add_behind n e h) ?R2 ?Q2"
    unfolding hlist_add_behind_def view_get(1) [OF view_self en(3)] rbind_Inr
    by (intro gives_bind [OF s1] gives_bind [OF s2] gives_bind [OF s3] s4; assumption)
  moreover have "?Q2 = (fixq (opt_hd bs) (Some (Next n)) ?Q)(n \<mapsto> Some (Next e))"
    using ne by (auto simp: fixq_def fun_upd_twist split: list.splits)
  moreover have "hl ?R2 ((fixq (opt_hd bs) (Some (Next n)) ?Q)(n \<mapsto> Some (Next e))) l ((as @ [e]) @ n # bs)"
    using hl_insert [of ?R ?Q l "as @ [e]" bs n] hl_self [OF h] n by (simp add: loose_def end_slot_def)
  ultimately show ?thesis using gives_hlist by force
qed

lemma hlist_move_list_result:
  assumes h: "hlist h old xs" and "heads h new \<noteq> None" and ne: "new \<noteq> old"
  shows "\<exists>h'. hlist_move_list old new h = Inr h' \<and> hlist h' new xs \<and> hlist h' old []"
proof -
  let ?R = "read_slot h" and ?Q = "pprev_of h" and ?p = "opt_hd xs"
  let ?R1 = "?R(First new \<mapsto> ?p)" and ?Q1 = "fixq ?p (Some (First new)) ?Q"
  have d: "distinct xs" using h by (simp add: hlist_def hl_def)
  obtain t where t: "seg ?R ?Q (First old) xs t" "?R t = Some None" using h by (auto simp: hlist_def hl_def)
  have f: "?R (First old) = Some ?p" using hl_first [OF hl_self [OF h]] .
  have live: "?R (First new) \<noteq> None" using assms(2) by (simp add: read_slot.simps)
  have qb: "?Q b \<noteq> None" if "?p = Some b" for b using that t by (auto split: list.splits)
  have s1: "gives (set_slot (First new) ?p h) ?R1 ?Q" using live by (intro gives_set_slot view_self) auto
  have s2: "gives (fix_pprev ?p (Some (First new)) h1) ?R1 ?Q1" if "view h1 ?R1 ?Q" for h1
    using that qb by (intro gives_fix_pprev) auto
  have s3: "gives (set_slot (First old) None h2) (?R1(First old \<mapsto> None)) ?Q1" if "view h2 ?R1 ?Q1" for h2
    using that f by (intro gives_set_slot) auto
  have "gives (hlist_move_list old new h) (?R1(First old \<mapsto> None)) ?Q1"
    unfolding hlist_move_list_def view_get(1) [OF view_self f] rbind_Inr
  proof (rule gives_bind [OF s1])
    fix h1 assume v: "view h1 ?R1 ?Q"
    then have "get_slot h1 (First new) = Inr ?p" by (rule view_get(1)) simp
    then show "gives (rbind (get_slot h1 (First new)) (\<lambda>p. rbind (fix_pprev p (Some (First new)) h1)
        (set_slot (First old) None))) (?R1(First old \<mapsto> None)) ?Q1"
      using gives_bind [OF s2 [OF v] s3] by simp
  qed
  moreover have "hl (?R1(First old \<mapsto> None)) ?Q1 old []" by (auto simp: hl_def)
  moreover have "hl (?R1(First old \<mapsto> None)) ?Q1 new xs"
  proof (cases xs)
    case Nil
    then show ?thesis using ne by (auto simp: hl_def)
  next
    case (Cons b cs)
    have c: "seg ?R ?Q (Next b) cs t" using t Cons by simp
    have "seg (?R1(First old \<mapsto> None)) ?Q1 (Next b) cs t = seg ?R ?Q (Next b) cs t"
      using d Cons by (intro seg_cong_all) (auto simp: fixq_def)
    moreover have "t \<noteq> First new" "t \<noteq> First old" using seg_end_in [OF c] by auto
    ultimately show ?thesis using c t(2) ne d Cons by (auto simp: hl_def fixq_def)
  qed
  ultimately show ?thesis by (auto simp: gives_def hlist_view)
qed

lemma hlist_fake_del:
  assumes "hnodes h n \<noteq> None"
  shows "\<exists>h1 h2. hlist_add_fake n h = Inr h1 \<and> hlist_unhashed n h1 = Inr False
    \<and> (read_slot h (Next n) = Some None \<longrightarrow> hlist_del_init n h1 = Inr h2 \<and> hlist_unhashed n h2 = Inr True)"
  using assms
  by (auto simp: hlist_add_fake_def set_pprev_def hlist_unhashed_def get_pprev_def pprev_of_def hlist_del_init_def
      hlist_unlink_def get_slot_def set_through_def set_slot.simps read_slot.simps fix_pprev_def INIT_HLIST_NODE_def)

section \<open>Traversals\<close>

lemma hlist_each_suffix:
  assumes "hlist h l (as @ bs)" and "length bs \<le> k"
  shows "hlist_each k (\<lambda>a s h. Inr (f a s, h)) (opt_hd bs) s h = Some (Inr (fold f bs s, h))"
  using assms
proof (induction bs arbitrary: as s k)
  case (Cons b bs)
  obtain k' where k: "k = Suc k'" "length bs \<le> k'" using Cons.prems(2) by (cases k) auto
  have "get_slot h (Next b) = Inr (opt_hd bs)"
    using view_get(1) [OF view_self hl_entry(3) [OF hl_self [OF Cons.prems(1)]]] .
  moreover have "hlist h l ((as @ [b]) @ bs)" using Cons.prems(1) by simp
  note Cons.IH [OF this k(2)]
  ultimately show ?case using k by simp
qed simp

lemma hlist_each_safe_del:
  assumes "hlist h l xs" and "length xs \<le> k"
  shows "\<exists>h'. hlist_each_safe k (\<lambda>a s h. rbind (hlist_del a h) (\<lambda>h'. Inr (f a s, h'))) (opt_hd xs) s h
    = Some (Inr (fold f xs s, h')) \<and> hlist h' l []"
  using assms
proof (induction xs arbitrary: h s k)
  case (Cons b bs)
  obtain k' where k: "k = Suc k'" "length bs \<le> k'" using Cons.prems(2) by (cases k) auto
  have d: "hlist h l ([] @ b # bs)" using Cons.prems(1) by simp
  have "get_slot h (Next b) = Inr (opt_hd bs)"
    using view_get(1) [OF view_self hl_entry(3) [OF hl_self [OF d]]] .
  moreover obtain h1 where "hlist_del b h = Inr h1" "hlist h1 l bs"
    using hlist_del_result [OF d] by auto
  moreover note Cons.IH [OF \<open>hlist h1 l bs\<close> k(2), of "f b s"]
  ultimately show ?case using k by simp
qed simp

section \<open>Properties\<close>

text \<open>C40: putting a loose node on an hlist, empty or not: at the head of any list, before an entry or behind one.
  Each leaves a well-formed list, back pointers included, with the node in its place; moving any list to another head
  leaves the old head empty.\<close>

theorem hlist_additions:
  assumes h: "hlist h l xs" and n: "loose h n xs" and new: "heads h new \<noteq> None" "new \<noteq> l"
  shows "(\<exists>h'. hlist_add_head n l h = Inr h' \<and> hlist h' l (n # xs))
    \<and> (\<exists>h'. hlist_move_list l new h = Inr h' \<and> hlist h' new xs \<and> hlist h' l [])
    \<and> (\<forall>as e bs. xs = as @ e # bs \<longrightarrow>
          (\<exists>h'. hlist_add_before n e h = Inr h' \<and> hlist h' l (as @ n # e # bs))
        \<and> (\<exists>h'. hlist_add_behind n e h = Inr h' \<and> hlist h' l (as @ e # n # bs)))"
  using hlist_add_head_result [OF h n] hlist_move_list_result [OF h new] hlist_add_before_result [of h l _ _ _ n]
    hlist_add_behind_result [of h l _ _ _ n] h n by blast

definition demo_hheap :: hheap where
  "demo_hheap = \<lparr>heads = [0 \<mapsto> Some 1, 7 \<mapsto> None],
     hnodes = [1 \<mapsto> \<lparr>hnext = Some 2, hpprev = Some (First 0)\<rparr>, 2 \<mapsto> \<lparr>hnext = Some 3, hpprev = Some (Next 1)\<rparr>,
       3 \<mapsto> \<lparr>hnext = None, hpprev = Some (Next 2)\<rparr>, 4 \<mapsto> \<lparr>hnext = None, hpprev = None\<rparr>]\<rparr>"

lemma demo_hheap_hlist: "hlist demo_hheap 0 [1, 2, 3]" "loose demo_hheap 4 [1, 2, 3]" "heads demo_hheap 7 \<noteq> None"
  "hlist demo_hheap 7 []" "loose demo_hheap 4 []" "heads demo_hheap 0 \<noteq> None"
  by (simp_all add: hlist_def hl_def demo_hheap_def pprev_of_def read_slot.simps loose_def)

lemma hlist_additions_witness:
  "(\<exists>h'. hlist_add_before 4 2 demo_hheap = Inr h' \<and> hlist h' 0 [1, 4, 2, 3])
    \<and> (\<exists>h'. hlist_move_list 0 7 demo_hheap = Inr h' \<and> hlist h' 7 [1, 2, 3] \<and> hlist h' 0 [])
    \<and> (\<exists>h'. hlist_add_head 4 7 demo_hheap = Inr h' \<and> hlist h' 7 [4])
    \<and> (\<exists>h'. hlist_move_list 7 0 demo_hheap = Inr h' \<and> hlist h' 0 [] \<and> hlist h' 7 [])"
proof -
  note full = hlist_additions [of demo_hheap 0 "[1, 2, 3]" 4 7, OF demo_hheap_hlist(1-3)]
    and empty = hlist_additions [of demo_hheap 7 "[]" 4 0, OF demo_hheap_hlist(4-6)]
  have "\<exists>h'. hlist_add_before 4 2 demo_hheap = Inr h' \<and> hlist h' 0 [1, 4, 2, 3]"
    using full [THEN conjunct2, THEN conjunct2, rule_format, of "[1]" 2 "[3]"] by simp
  then show ?thesis using full empty by simp
qed

text \<open>Taking a node off an hlist: \<open>hlist_del\<close> poisons it and \<open>hlist_del_init\<close> leaves it unhashed,
  wherever it stands; the loops visit the entries in order, and the safe loop can delete each entry it
  is at until the list is empty.\<close>

theorem hlist_removals:
  assumes h: "hlist h l (as @ e # bs)" and k: "length (as @ e # bs) \<le> k"
  shows "(\<exists>h'. hlist_del e h = Inr h' \<and> hlist h' l (as @ bs)
        \<and> read_slot h' (Next e) = Some (Some LIST_POISON1) \<and> pprev_of h' e = Some (Some Poison2))
    \<and> (\<exists>h'. hlist_del_init e h = Inr h' \<and> hlist h' l (as @ bs) \<and> hlist_unhashed e h' = Inr True)
    \<and> hlist_for_each k (\<lambda>a s h. Inr (f a s, h)) l s h = Some (Inr (fold f (as @ e # bs) s, h))
    \<and> (\<exists>h'. hlist_for_each_safe k (\<lambda>a s h. rbind (hlist_del a h) (\<lambda>h'. Inr (f a s, h'))) l s h
          = Some (Inr (fold f (as @ e # bs) s, h')) \<and> hlist h' l [])"
proof -
  have "get_slot h (First l) = Inr (opt_hd (as @ e # bs))"
    using view_get(1) [OF view_self hl_first [OF hl_self [OF h]]] .
  then show ?thesis
    using hlist_del_result [OF h] hlist_del_init_result [OF h] hlist_each_suffix [of h l "[]" "as @ e # bs" k f s]
      hlist_each_safe_del [OF h k, of f s] h k
    by (simp only: hlist_for_each_def hlist_for_each_safe_def sum.case append_Nil)
qed

lemma hlist_removals_witness:
  "(\<exists>h'. hlist_del 2 demo_hheap = Inr h' \<and> hlist h' 0 [1, 3])
    \<and> hlist_for_each 3 (\<lambda>a s h. Inr (s @ [a], h)) 0 [] demo_hheap = Some (Inr ([1, 2, 3], demo_hheap))"
  using hlist_removals [of demo_hheap 0 "[1]" 2 "[3]" 3 "\<lambda>a s. s @ [a]" "[]"] demo_hheap_hlist by auto

end
