(* ===== verification/Fifo.thy ===== *)
theory Fifo
  imports Prelude
begin

text \<open>
  The contract of a first-in first-out queue, as its clients use it. \<open>inv s xs\<close> says that the state
  \<open>s\<close> holds the values \<open>xs\<close>, oldest first. A provider promises what inserting and deleting do to \<open>xs\<close>
  and how many further insertions have room; the lemmas of the locales say what every sequence of
  operations of a client does, and exactly when it runs without a fault.
\<close>

datatype 'v qop = Enq 'v | Deq

fun qstep :: "'v qop \<Rightarrow> 'v list \<Rightarrow> 'v list" where
  "qstep (Enq v) xs = xs @ [v]"
| "qstep Deq xs = tl xs"

fun run_ops :: "('v \<Rightarrow> 's \<Rightarrow> 's res) \<Rightarrow> ('s \<Rightarrow> 's res) \<Rightarrow> 'v qop list \<Rightarrow> 's \<Rightarrow> 's res" where
  "run_ops enq deq [] s = Inr s"
| "run_ops enq deq (Enq v # ops) s = rbind (enq v s) (run_ops enq deq ops)"
| "run_ops enq deq (Deq # ops) s = rbind (deq s) (run_ops enq deq ops)"

text \<open>The queue never holds more than \<open>c\<close> values while \<open>ops\<close> run from \<open>xs\<close>.\<close>

fun within :: "nat \<Rightarrow> 'v list \<Rightarrow> 'v qop list \<Rightarrow> bool" where
  "within c xs [] \<longleftrightarrow> True"
| "within c xs (op # ops) \<longleftrightarrow> length (qstep op xs) \<le> c \<and> within c (qstep op xs) ops"

lemma run_ops_append:
  "run_ops enq deq (ops @ ops') s = rbind (run_ops enq deq ops s) (run_ops enq deq ops')"
  by (induction enq deq ops s rule: run_ops.induct) (simp_all add: rbind_assoc [symmetric] cong: rbind_cong)

lemma within_append:
  "within c xs (ops @ ops') \<longleftrightarrow> within c xs ops \<and> within c (fold qstep ops xs) ops'"
  by (induction ops arbitrary: xs) auto

locale fifo =
  fixes inv :: "'s \<Rightarrow> 'v list \<Rightarrow> bool"
    and enq :: "'v \<Rightarrow> 's \<Rightarrow> 's res"
    and deq :: "'s \<Rightarrow> 's res"
    and room :: "'s \<Rightarrow> nat"
  assumes enq_room: "inv s xs \<Longrightarrow> 0 < room s \<Longrightarrow> \<exists>s'. enq v s = Inr s' \<and> inv s' (xs @ [v]) \<and> room s = Suc (room s')"
    and deq_tl: "inv s xs \<Longrightarrow> \<exists>s'. deq s = Inr s' \<and> inv s' (tl xs)
      \<and> room s' = (if xs = [] then room s else Suc (room s))"
begin

lemma run_ops_ok:
  assumes "inv s xs" and "within (room s + length xs) xs ops"
  shows "\<exists>s'. run_ops enq deq ops s = Inr s' \<and> inv s' (fold qstep ops xs)
    \<and> room s' + length (fold qstep ops xs) = room s + length xs"
  using assms
proof (induction ops arbitrary: s xs)
  case (Cons op ops)
  show ?case
  proof (cases op)
    case (Enq v)
    then have "0 < room s" using Cons.prems(2) by simp
    from enq_room [OF Cons.prems(1) this, of v] obtain s1
      where 1: "enq v s = Inr s1" "inv s1 (xs @ [v])" "room s = Suc (room s1)" by blast
    then show ?thesis using Cons.IH [OF 1(2)] Cons.prems(2) Enq by simp
  next
    case Deq
    from deq_tl [OF Cons.prems(1)] obtain s1 where 1: "deq s = Inr s1" "inv s1 (tl xs)"
      "room s1 = (if xs = [] then room s else Suc (room s))" by blast
    have "room s1 + length (tl xs) = room s + length xs" using 1(3) by (cases xs) auto
    then show ?thesis using Cons.IH [OF 1(2)] Cons.prems(2) 1 Deq by simp
  qed
qed simp

text \<open>The window of a client that deletes the oldest value before it inserts a new one.\<close>

lemma slide:
  assumes "inv s xs" and "xs \<noteq> []"
  shows "\<exists>s'. run_ops enq deq [Deq, Enq v] s = Inr s' \<and> inv s' (tl xs @ [v]) \<and> room s' = room s"
proof -
  have "within (room s + length xs) xs [Deq, Enq v]" using assms(2) by (cases xs) auto
  from run_ops_ok [OF assms(1) this] show ?thesis using assms(2) by (cases xs) auto
qed

end

text \<open>A provider that also says how an insertion fails when there is no room.\<close>

locale checked_fifo = fifo inv enq deq room
  for inv :: "'s \<Rightarrow> 'v list \<Rightarrow> bool" and enq deq room +
  fixes full :: fault
  assumes enq_full: "inv s xs \<Longrightarrow> room s = 0 \<Longrightarrow> enq v s = Inl full"
begin

lemma run_ops_full:
  assumes "inv s xs" and "length xs \<le> c" and "c = room s + length xs" and "\<not> within c xs ops"
  shows "run_ops enq deq ops s = Inl full"
  using assms
proof (induction ops arbitrary: s xs)
  case (Cons op ops)
  show ?case
  proof (cases op)
    case (Enq v)
    show ?thesis
    proof (cases "room s = 0")
      case True
      then show ?thesis using enq_full [OF Cons.prems(1) True] Enq by simp
    next
      case False
      then obtain s1 where 1: "enq v s = Inr s1" "inv s1 (xs @ [v])" "room s = Suc (room s1)"
        using enq_room [OF Cons.prems(1), of v] by blast
      then show ?thesis using Cons.IH [OF 1(2)] Cons.prems Enq by simp
    qed
  next
    case Deq
    from deq_tl [OF Cons.prems(1)] obtain s1 where 1: "deq s = Inr s1" "inv s1 (tl xs)"
      "room s1 = (if xs = [] then room s else Suc (room s))" by blast
    have "room s1 + length (tl xs) = c" "length (tl xs) \<le> c" using 1(3) Cons.prems by (cases xs; auto)+
    then show ?thesis using Cons.IH [OF 1(2)] Cons.prems 1 Deq by simp
  qed
qed simp

lemma run_ops_result:
  assumes "inv s xs"
  shows "if within (room s + length xs) xs ops
    then \<exists>s'. run_ops enq deq ops s = Inr s' \<and> inv s' (fold qstep ops xs)
    else run_ops enq deq ops s = Inl full"
  using run_ops_ok [OF assms] run_ops_full [OF assms _ refl] by auto

end

end
