(* ===== verification/LinkQueue.thy ===== *)
theory LinkQueue
  imports Fifo
begin

text \<open>
  The linked queue of \<^verbatim>\<open>src/queue_test/queue.c\<close>: nodes on a heap behind a dummy head node, a \<open>front\<close>
  pointer to the dummy and a \<open>rear\<close> pointer to the last node, and the program built on it: a room of
  fifty, in which each newcomer pushes the oldest out. \<open>malloc\<close> is the \<open>malloc\<close> of the heap model; the
  code does not check its result in \<open>insert_queue\<close>, so an exhausted heap is a NULL dereference there,
  and a call of \<open>exit\<close> in \<open>init_queue\<close>.
\<close>

record Node =
  node_data :: int
  node_next :: ptr

record LinkQueue =
  front :: ptr
  rear :: ptr

type_synonym qstate = "LinkQueue \<times> Node heap"

section \<open>The operations\<close>

text \<open>\<open>None\<close>: the process has called \<open>exit(0)\<close>. The fields of a fresh node are unspecified (\<open>g\<close>)
  until they are written.\<close>

definition init_queue :: "Node \<Rightarrow> Node heap \<Rightarrow> qstate res option" where
  "init_queue g h = (let (p, h) = malloc g h in
     if p = None then None
     else Some (rbind (store h p (node_next_update (\<lambda>_. None))) (\<lambda>h.
       rbind (store h p (node_data_update (\<lambda>_. 0))) (\<lambda>h.
       Inr (\<lparr>front = p, rear = p\<rparr>, h)))))"

definition is_empty :: "LinkQueue \<Rightarrow> bool" where
  "is_empty q \<longleftrightarrow> rear q = front q"

definition insert_queue :: "Node \<Rightarrow> int \<Rightarrow> qstate \<Rightarrow> qstate res" where
  "insert_queue g temp s = (case s of (queue, h) \<Rightarrow>
     let (q, h) = malloc g h in
     rbind (store h q (node_data_update (\<lambda>_. temp))) (\<lambda>h.
     rbind (store h q (node_next_update (\<lambda>_. None))) (\<lambda>h.
     rbind (store h (rear queue) (node_next_update (\<lambda>_. q))) (\<lambda>h.
     Inr (queue\<lparr>rear := q\<rparr>, h)))))"

definition delete_queue :: "qstate \<Rightarrow> qstate res" where
  "delete_queue s = (case s of (queue, h) \<Rightarrow>
     if \<not> is_empty queue then
       rbind (load h (front queue)) (\<lambda>f.
       let q = node_next f in
       rbind (load h q) (\<lambda>qn.
       rbind (store h (front queue) (node_next_update (\<lambda>_. node_next qn))) (\<lambda>h.
       let queue = (if rear queue = q then queue\<lparr>rear := front queue\<rparr> else queue) in
       rbind (c_free h q) (\<lambda>h. Inr (queue, h)))))
     else rbind (c_free h None) (\<lambda>h. Inr (queue, h)))"

text \<open>The loop of \<open>traversal\<close>: the numbers it prints, \<open>None\<close> when the fuel runs out.\<close>

fun traverse_from :: "nat \<Rightarrow> Node heap \<Rightarrow> ptr \<Rightarrow> int list res option" where
  "traverse_from k h None = Some (Inr [])"
| "traverse_from 0 h (Some a) = None"
| "traverse_from (Suc k) h (Some a) =
     (case load h (Some a) of Inl e \<Rightarrow> Some (Inl e)
      | Inr n \<Rightarrow> map_option (\<lambda>r. rbind r (\<lambda>ds. Inr (node_data n # ds))) (traverse_from k h (node_next n)))"

definition traversal :: "nat \<Rightarrow> qstate \<Rightarrow> int list res option" where
  "traversal k s = (case s of (queue, h) \<Rightarrow>
     (case load h (front queue) of Inl e \<Rightarrow> Some (Inl e) | Inr f \<Rightarrow> traverse_from k h (node_next f)))"

section \<open>The program\<close>

text \<open>\<open>while (i++ < 51) insert_queue(&queue_myself, i - 1);\<close> from \<open>i\<close>, \<open>n\<close> rounds before it stops.\<close>

function fill_room :: "Node \<Rightarrow> int \<Rightarrow> qstate \<Rightarrow> qstate res" where
  "fill_room g i s =
     (if i < 51 then rbind (insert_queue g (i + 1 - 1) s) (fill_room g (i + 1)) else Inr s)"
  by auto
termination by (relation "measure (\<lambda>(g, i, s). nat (51 - i))") auto

declare fill_room.simps [simp del]

definition create_room_50ps :: "Node \<Rightarrow> Node heap \<Rightarrow> qstate res option" where
  "create_room_50ps g h = map_option (\<lambda>r. rbind r (fill_room g 1)) (init_queue g h)"

definition room_survive :: "Node \<Rightarrow> int \<Rightarrow> qstate \<Rightarrow> qstate res" where
  "room_survive g d s = rbind (delete_queue s) (insert_queue g d)"

text \<open>The four rounds of \<open>main\<close> and the lines printed; the inner \<open>None\<close> is a traversal out of fuel.\<close>

fun rounds :: "nat \<Rightarrow> Node \<Rightarrow> int list \<Rightarrow> qstate \<Rightarrow> int list list res option" where
  "rounds k g [] s = Some (Inr [])"
| "rounds k g (d # ds) s =
     (case room_survive g d s of Inl e \<Rightarrow> Some (Inl e)
      | Inr s' \<Rightarrow> (case traversal k s' of None \<Rightarrow> None | Some (Inl e) \<Rightarrow> Some (Inl e)
          | Some (Inr line) \<Rightarrow> map_option (\<lambda>r. rbind r (\<lambda>ls. Inr (line # ls))) (rounds k g ds s')))"

datatype run_end = Exited | Faulted fault | Printed "int list list" | OutOfFuel

definition queue_main :: "nat \<Rightarrow> Node \<Rightarrow> Node heap \<Rightarrow> run_end" where
  "queue_main k g h =
     (case create_room_50ps g h of None \<Rightarrow> Exited | Some (Inl e) \<Rightarrow> Faulted e
      | Some (Inr s) \<Rightarrow> (case traversal k s of None \<Rightarrow> OutOfFuel | Some (Inl e) \<Rightarrow> Faulted e
          | Some (Inr line) \<Rightarrow> (case rounds k g [51, 52, 53, 54] s of None \<Rightarrow> OutOfFuel
              | Some (Inl e) \<Rightarrow> Faulted e | Some (Inr ls) \<Rightarrow> Printed (line # ls))))"

section \<open>The queue a state holds\<close>

definition nxt :: "Node heap \<Rightarrow> addr \<rightharpoonup> ptr" where
  "nxt h a = map_option node_next (cells h a)"

definition val_at :: "Node heap \<Rightarrow> addr \<Rightarrow> int" where
  "val_at h a = (case cells h a of None \<Rightarrow> 0 | Some n \<Rightarrow> node_data n)"

text \<open>
  The state holds the values \<open>xs\<close>: the dummy \<open>f\<close> and the nodes \<open>as\<close> of the values form a
  NULL-terminated chain of distinct nodes, \<open>rear\<close> is its last node, and no other node is allocated
  (so nothing has leaked).
\<close>

definition lq_nodes :: "qstate \<Rightarrow> addr \<Rightarrow> addr list \<Rightarrow> bool" where
  "lq_nodes s f as \<longleftrightarrow> (case s of (q, h) \<Rightarrow>
     heap_ok h \<and> front q = Some f \<and> rear q = Some (last (f # as)) \<and> distinct (f # as)
     \<and> dom (cells h) = set (f # as) \<and> path (nxt h) (Some f) (f # as) None)"

definition lq_inv :: "qstate \<Rightarrow> int list \<Rightarrow> bool" where
  "lq_inv s xs \<longleftrightarrow> (\<exists>f as. lq_nodes s f as \<and> map (val_at (snd s)) as = xs)"

definition lq_room :: "qstate \<Rightarrow> nat" where
  "lq_room s = avail (snd s)"

lemma nxt_simps [simp]:
  "nxt (h\<lparr>cells := (cells h)(a \<mapsto> n)\<rparr>) = (nxt h)(a \<mapsto> node_next n)"
  "nxt (h\<lparr>cells := (cells h)(a \<mapsto> n), brk := b, avail := v\<rparr>) = (nxt h)(a \<mapsto> node_next n)"
  "nxt (h\<lparr>cells := (cells h)(a := None), avail := v\<rparr>) = (nxt h)(a := None)"
  by (auto simp: nxt_def)

lemma nxt_eq_Some: "nxt h a = Some r \<longleftrightarrow> (\<exists>n. cells h a = Some n \<and> node_next n = r)"
  by (simp add: nxt_def)

lemma insert_queue_result:
  assumes "lq_nodes (q, h) f as" and "0 < avail h"
  shows "\<exists>n h'. insert_queue g v (q, h) = Inr (q\<lparr>rear := Some (brk h)\<rparr>, h')
    \<and> h' = h\<lparr>cells := (cells h)(brk h \<mapsto> g\<lparr>node_data := v, node_next := None\<rparr>,
          last (f # as) \<mapsto> n\<lparr>node_next := Some (brk h)\<rparr>), brk := Suc (brk h), avail := avail h - 1\<rparr>
    \<and> cells h (last (f # as)) = Some n"
proof -
  have d: "dom (cells h) = set (f # as)" and r: "rear q = Some (last (f # as))" and ok: "heap_ok h"
    using assms(1) by (simp_all add: lq_nodes_def)
  have "last (f # as) \<in> dom (cells h)" unfolding d by (rule last_in_set) simp
  then obtain n where n: "cells h (last (f # as)) = Some n" by blast
  have b: "last (f # as) \<noteq> brk h" using heap_ok_fresh [OF ok] n by auto
  show ?thesis
    using assms(2) n b by (simp add: insert_queue_def malloc_def r fun_upd_twist del: last.simps)
qed

lemma insert_queue_inv:
  assumes "lq_inv s xs" and "0 < lq_room s"
  shows "\<exists>s'. insert_queue g v s = Inr s' \<and> lq_inv s' (xs @ [v]) \<and> lq_room s = Suc (lq_room s')"
proof -
  obtain q h where s: "s = (q, h)" by (cases s)
  obtain f as where n: "lq_nodes (q, h) f as" and xs: "map (val_at h) as = xs"
    using assms(1) s by (auto simp: lq_inv_def)
  let ?b = "brk h" and ?l = "last (f # as)"
  have av: "0 < avail h" using assms(2) s by (simp add: lq_room_def)
  from insert_queue_result [OF n av, of g v] obtain m h' where 1: "insert_queue g v (q, h) = Inr (q\<lparr>rear := Some ?b\<rparr>, h')"
    "h' = h\<lparr>cells := (cells h)(?b \<mapsto> g\<lparr>node_data := v, node_next := None\<rparr>,
        ?l \<mapsto> m\<lparr>node_next := Some ?b\<rparr>), brk := Suc ?b, avail := avail h - 1\<rparr>"
    "cells h ?l = Some m"
    by blast
  have ok: "heap_ok h" and d: "dom (cells h) = set (f # as)" and dis: "distinct (f # as)"
    and p: "path (nxt h) (Some f) (f # as) None" and fr: "front q = Some f"
    using n by (simp_all add: lq_nodes_def)
  have b: "?b \<notin> set (f # as)" using heap_ok_fresh [OF ok] d by blast
  have l: "?l \<in> set (f # as)" "f # as = butlast (f # as) @ [?l]" by (rule last_in_set, simp) (rule append_butlast_last_id [symmetric], simp)
  have bl: "?l \<noteq> ?b" using l(1) b by metis
  have "nxt h' = (nxt h)(?l \<mapsto> Some ?b, ?b \<mapsto> None)" using bl unfolding 1(2) by (auto simp: nxt_def)
  moreover have "path ((nxt h)(?l \<mapsto> Some ?b, ?b \<mapsto> None)) (Some f) (butlast (f # as) @ [?l, ?b]) None"
    by (rule path_snoc_upd) (use p dis b in \<open>unfold l(2) [symmetric]\<close>)
  moreover have "butlast (f # as) @ [?l, ?b] = f # as @ [?b]" using l(2) by (metis append.assoc append_Cons append_Nil)
  ultimately have "path (nxt h') (Some f) (f # as @ [?b]) None" by metis
  moreover have "?l < brk h" using ok 1(3) by (auto simp: heap_ok_def)
  then have "heap_ok h'" using ok unfolding 1(2) heap_ok_def by (auto simp: less_Suc_eq)
  moreover have "dom (cells h') = set (f # as @ [?b])" using d l(1) unfolding 1(2) by auto
  ultimately have "lq_nodes (q\<lparr>rear := Some ?b\<rparr>, h') f (as @ [?b])"
    using fr dis b by (simp add: lq_nodes_def)
  moreover have "map (val_at h') (as @ [?b]) = xs @ [v]"
    using 1(3) b bl xs unfolding 1(2) by (auto simp: val_at_def)
  ultimately have "lq_inv (q\<lparr>rear := Some ?b\<rparr>, h') (xs @ [v])" unfolding lq_inv_def snd_conv by blast
  then show ?thesis using 1(1,2) assms(2) s by (auto simp: lq_room_def)
qed

lemma insert_queue_full: "lq_inv s xs \<Longrightarrow> lq_room s = 0 \<Longrightarrow> insert_queue g v s = Inl NullDeref"
  by (cases s) (simp add: insert_queue_def malloc_def lq_room_def)

lemma delete_queue_inv:
  assumes "lq_inv s xs"
  shows "\<exists>s'. delete_queue s = Inr s' \<and> lq_inv s' (tl xs)
    \<and> lq_room s' = (if xs = [] then lq_room s else Suc (lq_room s))"
proof -
  obtain q h where s: "s = (q, h)" by (cases s)
  obtain f as where n: "lq_nodes (q, h) f as" and xs: "map (val_at h) as = xs"
    using assms s by (auto simp: lq_inv_def)
  have ok: "heap_ok h" and d: "dom (cells h) = set (f # as)" and dis: "distinct (f # as)"
    and p: "path (nxt h) (Some f) (f # as) None" and fr: "front q = Some f" "rear q = Some (last (f # as))"
    using n by (simp_all add: lq_nodes_def)
  show ?thesis
  proof (cases as)
    case Nil
    then have "delete_queue s = Inr s" using fr s by (simp add: delete_queue_def is_empty_def)
    then show ?thesis using assms Nil xs by auto
  next
    case (Cons a bs)
    obtain nf na where c: "cells h f = Some nf" "cells h a = Some na"
      using d Cons by (metis domD insertI1 list.set(2) set_subset_Cons subsetD)
    have nx: "node_next nf = Some a" "path (nxt h) (node_next na) bs None"
      using p Cons c by (auto simp: nxt_def)
    have ne: "f \<noteq> a" "a \<notin> set bs" "f \<notin> set bs" using dis Cons by auto
    have "rear q \<noteq> front q" using fr dis Cons by (auto split: if_splits)
    moreover define q' where "q' = (if rear q = Some a then q\<lparr>rear := front q\<rparr> else q)"
    moreover define h' where "h' = h\<lparr>cells := (cells h)(f \<mapsto> nf\<lparr>node_next := node_next na\<rparr>, a := None), avail := Suc (avail h)\<rparr>"
    ultimately have del: "delete_queue s = Inr (q', h')"
      using s c ne nx(1) by (simp add: delete_queue_def is_empty_def fr(1))
    have "rear q = Some a \<longleftrightarrow> bs = []" using fr(2) ne Cons by (auto split: if_splits)
    then have "rear q' = Some (last (f # bs))" "front q' = Some f" using fr Cons by (auto simp: q'_def)
    moreover have "nxt h' = (nxt h)(f \<mapsto> node_next na, a := None)" by (auto simp: h'_def nxt_def)
    then have "path (nxt h') (Some f) (f # bs) None" using nx ne by auto
    moreover have "heap_ok h'" using ok c by (auto simp: h'_def heap_ok_def)
    moreover have "dom (cells h') = set (f # bs)" using d ne Cons by (auto simp: h'_def)
    ultimately have "lq_nodes (q', h') f bs" using dis Cons by (simp add: lq_nodes_def)
    moreover have "map (val_at h') bs = tl xs" using xs ne Cons by (auto simp: h'_def val_at_def)
    ultimately have "lq_inv (q', h') (tl xs)" by (auto simp: lq_inv_def)
    then show ?thesis using del xs Cons s by (auto simp: lq_room_def h'_def)
  qed
qed

interpretation lq: checked_fifo lq_inv "insert_queue g" delete_queue lq_room NullDeref
  by unfold_locales (blast intro: insert_queue_inv delete_queue_inv insert_queue_full)+

section \<open>Traversal\<close>

lemma traverse_path:
  assumes "path (nxt h) p as None" and "length as \<le> k"
  shows "traverse_from k h p = Some (Inr (map (val_at h) as))"
  using assms
proof (induction as arbitrary: p k)
  case (Cons a as)
  obtain n where n: "cells h a = Some n" "p = Some a" "path (nxt h) (node_next n) as None"
    using Cons.prems(1) by (auto simp: nxt_eq_Some)
  obtain k' where k: "k = Suc k'" "length as \<le> k'" using Cons.prems(2) by (cases k) auto
  show ?case using Cons.IH [OF n(3) k(2)] n(1,2) k(1) by (simp add: val_at_def)
qed simp

lemma traversal_lq:
  assumes "lq_inv s xs" and "length xs \<le> k"
  shows "traversal k s = Some (Inr xs)"
proof -
  obtain q h where s: "s = (q, h)" by (cases s)
  obtain f as where n: "lq_nodes (q, h) f as" and xs: "map (val_at h) as = xs"
    using assms(1) s by (auto simp: lq_inv_def)
  then obtain nf where "cells h f = Some nf" "path (nxt h) (node_next nf) as None" "front q = Some f"
    by (auto simp: lq_nodes_def nxt_eq_Some)
  then show ?thesis using traverse_path [of h _ as k] assms(2) s xs by (auto simp: traversal_def)
qed

lemma is_empty_lq: "lq_inv (q, h) xs \<Longrightarrow> is_empty q \<longleftrightarrow> xs = []"
  by (auto simp: lq_inv_def lq_nodes_def is_empty_def split: if_splits)

section \<open>The room of fifty\<close>

lemma init_queue_result:
  assumes "cells h = Map.empty" and "0 < avail h"
  shows "\<exists>s. init_queue g h = Some (Inr s) \<and> lq_inv s [] \<and> Suc (lq_room s) = avail h"
proof -
  let ?n = "g\<lparr>node_data := 0, node_next := None\<rparr>"
  let ?h = "h\<lparr>cells := [brk h \<mapsto> ?n], brk := Suc (brk h), avail := avail h - 1\<rparr>"
  let ?s = "(\<lparr>front = Some (brk h), rear = Some (brk h)\<rparr>, ?h)"
  have "init_queue g h = Some (Inr ?s)"
    using assms by (cases h, cases g) (simp add: init_queue_def malloc_def)
  moreover have "lq_nodes ?s (brk h) []" by (simp add: lq_nodes_def heap_ok_def nxt_def)
  then have "lq_inv ?s []" by (auto simp: lq_inv_def)
  ultimately show ?thesis using assms(2) by (auto simp: lq_room_def)
qed

lemma fill_room_run:
  assumes "i \<le> 51"
  shows "fill_room g i s = run_ops (insert_queue g) delete_queue (map Enq [i..50]) s"
  using assms
proof (induction g i s rule: fill_room.induct)
  case (1 g i s)
  show ?case
  proof (cases "i < 51")
    case True
    have "fill_room g i s = rbind (insert_queue g i s) (fill_room g (i + 1))"
      using True by (subst fill_room.simps) simp
    also have "\<dots> = rbind (insert_queue g i s) (run_ops (insert_queue g) delete_queue (map Enq [i + 1..50]))"
      using 1 True by (intro rbind_cong refl) simp
    finally show ?thesis using True by (simp add: upto_rec1 [of i])
  next
    case False
    then show ?thesis using 1(2) by (subst fill_room.simps) (simp add: upto_empty)
  qed
qed

lemma enq_all: "fold qstep (map Enq vs) xs = xs @ vs"
  by (induction vs arbitrary: xs) auto

lemma within_enq_all: "within c xs (map Enq vs) \<longleftrightarrow> vs = [] \<or> length xs + length vs \<le> c"
  by (induction vs arbitrary: xs) (auto simp: Suc_le_eq)

lemma create_room_ok:
  assumes "cells h = Map.empty" and "50 < avail h"
  shows "\<exists>s. create_room_50ps g h = Some (Inr s) \<and> lq_inv s [1..50]"
proof -
  have "0 < avail h" using assms(2) by simp
  then obtain s where s: "init_queue g h = Some (Inr s)" "lq_inv s []" "Suc (lq_room s) = avail h"
    using init_queue_result [OF assms(1)] by blast
  have "within (lq_room s + length ([] :: int list)) [] (map Enq [1..50])"
    using s(3) assms(2) by (subst within_enq_all) simp
  then obtain s' where "run_ops (insert_queue g) delete_queue (map Enq [1..50]) s = Inr s'" "lq_inv s' [1..50]"
    using lq.run_ops_result [OF s(2), of "map Enq [1..50]" g] by (auto simp only: if_True enq_all append_Nil)
  then show ?thesis using s(1) fill_room_run [of 1 g s] by (auto simp: create_room_50ps_def)
qed

lemma create_room_fails:
  assumes "cells h = Map.empty" and "avail h \<le> 50"
  shows "create_room_50ps g h = (if avail h = 0 then None else Some (Inl NullDeref))"
proof (cases "avail h = 0")
  case True
  then show ?thesis by (simp add: create_room_50ps_def init_queue_def malloc_def)
next
  case False
  then obtain s where s: "init_queue g h = Some (Inr s)" "lq_inv s []" "Suc (lq_room s) = avail h"
    using init_queue_result [OF assms(1)] by blast
  have "\<not> within (lq_room s + length ([] :: int list)) [] (map Enq [1..50])"
    using s(3) assms(2) by (subst within_enq_all) simp
  then have "run_ops (insert_queue g) delete_queue (map Enq [1..50]) s = Inl NullDeref"
    using lq.run_ops_result [OF s(2), of "map Enq [1..50]" g] by (simp only: if_False)
  then show ?thesis using s(1) fill_room_run [of 1 g s] False by (simp add: create_room_50ps_def)
qed

lemma room_survive_result:
  assumes "lq_inv s xs" and "xs \<noteq> []"
  shows "\<exists>s'. room_survive g d s = Inr s' \<and> lq_inv s' (tl xs @ [d])"
  using lq.slide [OF assms, of g d] by (auto simp: room_survive_def)

lemma rounds_result:
  assumes "lq_inv s xs" and "xs \<noteq> []" and "length xs \<le> k"
  shows "rounds k g ds s = Some (Inr (map (\<lambda>n. drop n (xs @ take n ds)) [1..<Suc (length ds)]))"
  using assms
proof (induction ds arbitrary: s xs)
  case (Cons d ds)
  obtain s' where 1: "room_survive g d s = Inr s'" "lq_inv s' (tl xs @ [d])"
    using room_survive_result [OF Cons.prems(1,2)] by blast
  have len: "length (tl xs @ [d]) \<le> k" using Cons.prems(2,3) by (cases xs) auto
  have "rounds k g ds s' = Some (Inr (map (\<lambda>n. drop n ((tl xs @ [d]) @ take n ds)) [1..<Suc (length ds)]))"
    using Cons.IH [OF 1(2) _ len] by simp
  moreover have "map (\<lambda>n. drop n ((tl xs @ [d]) @ take n ds)) [1..<Suc (length ds)]
      = map (\<lambda>n. drop n (xs @ take n (d # ds))) [2..<Suc (Suc (length ds))]"
    unfolding map_Suc_upt [of 1, simplified, symmetric] numeral_2_eq_2 map_map comp_def
    using Cons.prems(2) by (cases xs) (auto simp: map_Suc_upt [symmetric] simp del: upt_Suc)
  moreover have "[1..<Suc (length (d # ds))] = 1 # [2..<Suc (Suc (length ds))]"
    by (simp add: upt_conv_Cons numeral_2_eq_2 del: upt_Suc)
  ultimately show ?case using 1 traversal_lq [OF 1(2) len] Cons.prems(2)
    by (cases xs) auto
qed simp

lemma queue_main_printed:
  assumes "cells h = Map.empty" and "50 < avail h" and "50 \<le> k"
  shows "queue_main k g h = Printed [[1..50], [2..51], [3..52], [4..53], [5..54]]"
proof -
  obtain s where s: "create_room_50ps g h = Some (Inr s)" "lq_inv s [1..50]"
    using create_room_ok [OF assms(1,2)] by blast
  have len: "length [1..50 :: int] \<le> k" using assms(3) by simp
  have ne: "[1..50 :: int] \<noteq> []" by simp
  have "map (\<lambda>n. drop n ([1..50] @ take n [51, 52, 53, 54])) [1..<Suc (length [51, 52, 53, 54 :: int])]
      = [[2..51], [3..52], [4..53], [5..54]]" by code_simp
  then have "rounds k g [51, 52, 53, 54] s = Some (Inr [[2..51], [3..52], [4..53], [5..54]])"
    using rounds_result [OF s(2) ne len, of g "[51, 52, 53, 54]"] by simp
  then show ?thesis using s(1) traversal_lq [OF s(2) len] by (simp add: queue_main_def)
qed

section \<open>Properties\<close>

text \<open>C4: from a queue holding \<open>xs\<close>, any sequence of insertions and deletions leaves the nodes of
  exactly the values an abstract queue would hold (no node leaked or lost), as long as the values never
  outnumber the allocations that succeed; the first insertion beyond that dereferences the NULL that
  \<open>malloc\<close> returned. Deleting from an empty queue does nothing.\<close>

theorem queue_refines_fifo:
  assumes "lq_inv s xs"
  shows "if within (lq_room s + length xs) xs ops
    then \<exists>s'. run_ops (insert_queue g) delete_queue ops s = Inr s' \<and> lq_inv s' (fold qstep ops xs)
    else run_ops (insert_queue g) delete_queue ops s = Inl NullDeref"
  using assms by (rule lq.run_ops_result)

definition demo_room :: "nat \<Rightarrow> Node heap" where
  "demo_room n = \<lparr>cells = Map.empty, brk = 1, avail = n\<rparr>"

lemma queue_refines_fifo_witness:
  "\<exists>s s'. init_queue \<lparr>node_data = 9, node_next = Some 7\<rparr> (demo_room 3) = Some (Inr s)
    \<and> run_ops (insert_queue \<lparr>node_data = 9, node_next = Some 7\<rparr>) delete_queue [Deq, Enq 4, Enq 5, Deq, Enq 6] s = Inr s'
    \<and> lq_inv s' [5, 6]"
proof -
  obtain s where s: "init_queue \<lparr>node_data = 9, node_next = Some 7\<rparr> (demo_room 3) = Some (Inr s)"
    "lq_inv s []" "Suc (lq_room s) = 3"
    using init_queue_result [of "demo_room 3" "\<lparr>node_data = 9, node_next = Some 7\<rparr>"] by (auto simp: demo_room_def)
  have "within (lq_room s + length ([] :: int list)) [] [Deq, Enq 4, Enq 5, Deq, Enq 6]"
    using s(3) by simp
  then show ?thesis
    using queue_refines_fifo [OF s(2), of "[Deq, Enq 4, Enq 5, Deq, Enq 6]" "\<lparr>node_data = 9, node_next = Some 7\<rparr>"] s(1)
    by auto
qed

text \<open>What the program prints, for every amount of memory: with 51 allocations or more, the room
  1 to 50 and then the four rooms after each newcomer, each with the oldest gone; with none, it exits;
  with 1 to 50 it dereferences NULL in the unchecked insertion. Fuel 50 is enough for every
  traversal.\<close>

theorem queue_main_outcome:
  assumes "cells h = Map.empty" and "50 \<le> k"
  shows "queue_main k g h =
    (if avail h = 0 then Exited
     else if avail h \<le> 50 then Faulted NullDeref
     else Printed [[1..50], [2..51], [3..52], [4..53], [5..54]])"
  using queue_main_printed [OF assms(1) _ assms(2)] create_room_fails [OF assms(1)]
  by (auto simp: queue_main_def not_le)

lemma queue_main_outcome_witness:
  "queue_main 60 \<lparr>node_data = 9, node_next = Some 7\<rparr> (demo_room 51) = Printed [[1..50], [2..51], [3..52], [4..53], [5..54]]
    \<and> queue_main 60 \<lparr>node_data = 9, node_next = Some 7\<rparr> (demo_room 20) = Faulted NullDeref"
  using queue_main_outcome [of "demo_room 51" 60 "\<lparr>node_data = 9, node_next = Some 7\<rparr>"] queue_main_outcome [of "demo_room 20" 60 "\<lparr>node_data = 9, node_next = Some 7\<rparr>"]
  by (simp add: demo_room_def)

end
