(* ===== verification/ConfigItem.thy ===== *)
theory ConfigItem
  imports KList
begin

text \<open>
  The configuration items of \<^verbatim>\<open>src/config_item/src/config_item.c\<close>: an item owns two strings on
  the heap and carries a \<open>list_head\<close>, through which the test program hangs the items on a list and
  prints them. The items, the string blocks and the links of the embedded list heads are three heaps
  of one state; \<open>item_list\<close> of the item at address \<open>a\<close> is the list cell \<open>a\<close>.
\<close>

record config_item =
  option_ptr :: ptr
  value_ptr :: ptr

record cfg_state =
  items :: "config_item heap"
  blocks :: "char list heap"
  links_of :: lheap

section \<open>Strings in blocks\<close>

definition strcpy :: "ptr \<Rightarrow> char list \<Rightarrow> char list heap \<Rightarrow> char list heap res" where
  "strcpy p s h = rbind (load h p) (\<lambda>b. rbind (strcpy_block s b) (\<lambda>b'. store h p (\<lambda>_. b')))"

text \<open>\<open>malloc(n)\<close> of a string: \<open>n\<close> bytes of unspecified contents (\<open>g\<close>).\<close>

definition malloc_str :: "char \<Rightarrow> nat \<Rightarrow> char list heap \<Rightarrow> ptr \<times> char list heap" where
  "malloc_str g n h = malloc (replicate n g) h"

section \<open>The operations\<close>

text \<open>\<open>sizeof(opt)\<close> is the size of a pointer, 8 bytes.\<close>

definition create_config_item :: "char \<Rightarrow> char list \<Rightarrow> char list \<Rightarrow> cfg_state \<Rightarrow> (ptr \<times> cfg_state) res" where
  "create_config_item g opt val st =
     (let (item, is) = malloc \<lparr>option_ptr = None, value_ptr = None\<rparr> (items st);
          (po, bs) = malloc_str g (8 * length opt) (blocks st)
      in rbind (store is item (option_ptr_update (\<lambda>_. po))) (\<lambda>is.
         let (pv, bs) = malloc_str g (8 * length val) bs in
         rbind (store is item (value_ptr_update (\<lambda>_. pv))) (\<lambda>is.
         rbind (load is item) (\<lambda>it. rbind (strcpy (option_ptr it) opt bs) (\<lambda>bs.
         rbind (load is item) (\<lambda>it. rbind (strcpy (value_ptr it) val bs) (\<lambda>bs.
         Inr (item, st\<lparr>items := is, blocks := bs,
           links_of := (links_of st)(the item \<mapsto> \<lparr>lnext = 0, lprev = 0\<rparr>)\<rparr>))))))))"

definition free_config_item :: "ptr \<Rightarrow> cfg_state \<Rightarrow> cfg_state res" where
  "free_config_item obj st =
     rbind (load (items st) obj) (\<lambda>it.
     rbind (c_free (blocks st) (option_ptr it)) (\<lambda>bs.
     rbind (c_free bs (value_ptr it)) (\<lambda>bs.
     rbind (c_free (items st) obj) (\<lambda>is.
     rbind (store is obj (value_ptr_update (\<lambda>_. None))) (\<lambda>is.
     rbind (store is obj (option_ptr_update (\<lambda>_. None))) (\<lambda>is.
     Inr (st\<lparr>items := is, blocks := bs\<rparr>)))))))"

text \<open>The strings of the item at \<open>a\<close>, as \<open>printf("%s")\<close> reads them.\<close>

definition item_strings :: "cfg_state \<Rightarrow> addr \<Rightarrow> (char list \<times> char list) res" where
  "item_strings st a =
     rbind (load (items st) (Some a)) (\<lambda>it.
     rbind (load (blocks st) (option_ptr it)) (\<lambda>ob.
     rbind (load (blocks st) (value_ptr it)) (\<lambda>vb.
     if NUL \<in> set ob \<and> NUL \<in> set vb then Inr (cstr ob, cstr vb) else Inl OutOfBounds)))"

section \<open>The test program\<close>

text \<open>\<open>printf("%s = %s\n", ...)\<close> for each item on the list at \<open>head\<close>; the lines printed.\<close>

definition item_line :: "char list \<times> char list \<Rightarrow> char list" where
  "item_line ov = fst ov @ '' = '' @ snd ov"

definition print_items :: "nat \<Rightarrow> addr \<Rightarrow> cfg_state \<Rightarrow> char list list res option" where
  "print_items k head st =
     map_option (\<lambda>r. rbind r (\<lambda>(ls, _). Inr ls))
       (list_for_each k (\<lambda>a ls h. rbind (item_strings st a) (\<lambda>ov. Inr (ls @ [item_line ov], h)))
         head [] (links_of st))"

definition add_item :: "char \<Rightarrow> addr \<Rightarrow> char list \<Rightarrow> char list \<Rightarrow> cfg_state \<Rightarrow> cfg_state res" where
  "add_item g head opt val st =
     rbind (create_config_item g opt val st) (\<lambda>(p, st).
     rbind (list_add_tail (the p) head (links_of st)) (\<lambda>h. Inr (st\<lparr>links_of := h\<rparr>)))"

definition config_item_test :: "nat \<Rightarrow> char \<Rightarrow> addr \<Rightarrow> cfg_state \<Rightarrow> char list list res option" where
  "config_item_test k g head st =
     (case rbind (INIT_LIST_HEAD head (links_of st)) (\<lambda>h.
        rbind (add_item g head ''item1'' ''1'' (st\<lparr>links_of := h\<rparr>)) (add_item g head ''item2'' ''2''))
      of Inl e \<Rightarrow> Some (Inl e) | Inr st \<Rightarrow> print_items k head st)"

section \<open>Creating and freeing an item\<close>

lemma strcpy_block_fresh: "strcpy_block s (replicate (8 * length s) g) =
    (if s = [] then Inl OutOfBounds else Inr (s @ NUL # replicate (8 * length s - Suc (length s)) g))"
  by (cases s) (auto simp: strcpy_block_def)

lemma malloc_avail: "0 < avail h \<Longrightarrow> malloc n h =
    (Some (brk h), h\<lparr>cells := (cells h)(brk h \<mapsto> n), brk := Suc (brk h), avail := avail h - 1\<rparr>)"
  by (simp add: malloc_def)

definition enough :: "nat \<Rightarrow> cfg_state \<Rightarrow> bool" where
  "enough n st \<longleftrightarrow> heap_ok (items st) \<and> heap_ok (blocks st) \<and> n \<le> avail (items st) \<and> 2 * n \<le> avail (blocks st)"

lemma create_config_item_empty:
  assumes "enough 1 st" and "opt = [] \<or> val = []"
  shows "create_config_item g opt val st = Inl OutOfBounds"
  using assms by (auto simp: enough_def create_config_item_def malloc_avail malloc_str_def strcpy_def strcpy_block_fresh)

lemma create_config_item_result:
  assumes e: "enough (Suc n) st" and s: "opt \<noteq> []" "val \<noteq> []" "NUL \<notin> set opt" "NUL \<notin> set val"
  defines "a \<equiv> brk (items st)"
  shows "\<exists>st'. create_config_item g opt val st = Inr (Some a, st') \<and> item_strings st' a = Inr (opt, val)
    \<and> (\<forall>b os. item_strings st b = Inr os \<longrightarrow> item_strings st' b = Inr os)
    \<and> links_of st' = (links_of st)(a \<mapsto> \<lparr>lnext = 0, lprev = 0\<rparr>)
    \<and> enough n st' \<and> brk (items st') = Suc a"
proof -
  let ?b = "brk (blocks st)"
  let ?o = "opt @ NUL # replicate (8 * length opt - Suc (length opt)) g"
  let ?v = "val @ NUL # replicate (8 * length val - Suc (length val)) g"
  let ?is = "(items st)\<lparr>cells := (cells (items st))(a \<mapsto> \<lparr>option_ptr = Some ?b, value_ptr = Some (Suc ?b)\<rparr>),
      brk := Suc a, avail := avail (items st) - 1\<rparr>"
  let ?bs = "(blocks st)\<lparr>cells := (cells (blocks st))(?b \<mapsto> ?o, Suc ?b \<mapsto> ?v),
      brk := Suc (Suc ?b), avail := avail (blocks st) - 2\<rparr>"
  let ?st = "st\<lparr>items := ?is, blocks := ?bs, links_of := (links_of st)(a \<mapsto> \<lparr>lnext = 0, lprev = 0\<rparr>)\<rparr>"
  have av: "0 < avail (items st)" "1 < avail (blocks st)" and ok: "heap_ok (items st)" "heap_ok (blocks st)"
    using e by (auto simp: enough_def)
  have "create_config_item g opt val st = Inr (Some a, ?st)"
    using av s by (simp add: create_config_item_def malloc_avail malloc_str_def strcpy_def strcpy_block_fresh
        a_def fun_upd_twist numeral_2_eq_2)
  moreover have "item_strings ?st a = Inr (opt, val)" using s by (simp add: item_strings_def)
  moreover have "item_strings ?st b = Inr os" if i: "item_strings st b = Inr os" for b os
  proof -
    obtain it where it: "cells (items st) b = Some it" using i by (cases "cells (items st) b") (auto simp: item_strings_def)
    then have "b \<noteq> a" using heap_ok_fresh [OF ok(1)] by (auto simp: a_def)
    have "load ?bs p = Inr x" if l: "load (blocks st) p = Inr x" for p x
    proof -
      obtain q where q: "p = Some q" "cells (blocks st) q = Some x" using l by (auto simp: load_eq_Inr)
      then have "q < ?b" using ok(2) by (auto simp: heap_ok_def)
      then show ?thesis using q by simp
    qed
    then show ?thesis using i it \<open>b \<noteq> a\<close> by (auto simp: item_strings_def rbind_eq_Inr split: if_splits)
  qed
  moreover have "enough n ?st" using e ok by (auto simp: enough_def heap_ok_def a_def less_Suc_eq)
  ultimately show ?thesis by (intro exI [of _ ?st]) auto
qed

lemma free_config_item_faults:
  assumes "cells (items st) a = Some it" and "option_ptr it = Some p" and "value_ptr it = Some q" and "p \<noteq> q"
    and "cells (blocks st) p \<noteq> None" and "cells (blocks st) q \<noteq> None"
  shows "free_config_item (Some a) st = Inl BadPointer"
  using assms by (auto simp: free_config_item_def)

section \<open>The list of items\<close>

text \<open>The items on the list at \<open>head\<close> hold the given pairs of strings, in order.\<close>

definition cfg_list :: "addr \<Rightarrow> cfg_state \<Rightarrow> (char list \<times> char list) list \<Rightarrow> bool" where
  "cfg_list head st xs \<longleftrightarrow> head < brk (items st)
     \<and> (\<exists>as. dll (links_of st) head as \<and> map (item_strings st) as = map Inr xs \<and> (\<forall>a\<in>set as. a < brk (items st)))"

lemma dll_fresh_cell:
  assumes "dll h head xs" and "b \<notin> set (head # xs)"
  shows "dll (h(b \<mapsto> c)) head xs"
proof -
  have "ring (nx (h(b \<mapsto> c))) (pv (h(b \<mapsto> c))) (dom h) head xs = ring (nx h) (pv h) (dom h) head xs"
    using assms(2) by (intro ring_frame) (auto simp: nx_def pv_def)
  then show ?thesis using assms(1) by (auto simp: dll_def ring_def)
qed

lemma add_item_result:
  assumes l: "cfg_list head st xs" and e: "enough (Suc n) st"
    and s: "opt \<noteq> []" "val \<noteq> []" "NUL \<notin> set opt" "NUL \<notin> set val"
  shows "\<exists>st'. add_item g head opt val st = Inr st' \<and> cfg_list head st' (xs @ [(opt, val)]) \<and> enough n st'"
proof -
  let ?a = "brk (items st)"
  obtain as where as: "dll (links_of st) head as" "map (item_strings st) as = map Inr xs"
    "\<forall>a\<in>set as. a < ?a" and hd: "head < ?a" using l by (auto simp: cfg_list_def)
  obtain st1 where 1: "create_config_item g opt val st = Inr (Some ?a, st1)" "item_strings st1 ?a = Inr (opt, val)"
    "\<And>b os. item_strings st b = Inr os \<Longrightarrow> item_strings st1 b = Inr os"
    "links_of st1 = (links_of st)(?a \<mapsto> \<lparr>lnext = 0, lprev = 0\<rparr>)" "enough n st1" "brk (items st1) = Suc ?a"
    using create_config_item_result [OF e s, of g] by blast
  have fresh: "?a \<notin> set (head # as)" using as(3) hd by auto
  have "dll (links_of st1) head as" unfolding 1(4) using as(1) fresh by (rule dll_fresh_cell)
  from list_add_tail_dll [OF this _ fresh] obtain h' where
    2: "list_add_tail ?a head (links_of st1) = Inr h'" "dll h' head (as @ [?a])" using 1(4) by auto
  let ?st = "st1\<lparr>links_of := h'\<rparr>"
  have "item_strings st1 a = item_strings st a" if "a \<in> set as" for a
  proof -
    have "item_strings st a \<in> set (map Inr xs)" using that as(2) by (metis list.set_map imageI)
    then show ?thesis using 1(3) by auto
  qed
  then have "map (item_strings st1) (as @ [?a]) = map Inr (xs @ [(opt, val)])"
    using as(2) 1(2) by (simp cong: map_cong)
  moreover have "item_strings ?st = item_strings st1" by (simp add: item_strings_def fun_eq_iff)
  ultimately have "cfg_list head ?st (xs @ [(opt, val)])"
    unfolding cfg_list_def using 2(2) hd 1(6) as(3) by (intro conjI exI [of _ "as @ [?a]"]) (auto simp: less_Suc_eq)
  moreover have "enough n ?st" using 1(5) by (simp add: enough_def)
  ultimately show ?thesis using 1(1) 2(1) by (simp add: add_item_def)
qed

lemma print_items_result:
  assumes "cfg_list head st xs" and "length xs < k"
  shows "print_items k head st = Some (Inr (map item_line xs))"
proof -
  obtain as where as: "dll (links_of st) head as" "map (item_strings st) as = map Inr xs"
    using assms(1) by (auto simp: cfg_list_def)
  let ?g = "\<lambda>a. item_line (projr (item_strings st a))"
  have len: "length as < k" using as(2) assms(2) by (metis length_map)
  have i: "\<exists>ov. item_strings st a = Inr ov" if "a \<in> set as" for a
  proof -
    have "item_strings st a \<in> set (map Inr xs)" using that as(2) by (metis list.set_map imageI)
    then show ?thesis by auto
  qed
  have "list_for_each k (\<lambda>a ls h. rbind (item_strings st a) (\<lambda>ov. Inr (ls @ [item_line ov], h))) head [] (links_of st)
      = Some (Inr (fold (\<lambda>a ls. ls @ [?g a]) as [], links_of st))"
    using as(1) len by (rule list_for_each_body) (use i in force)
  moreover have "fold (\<lambda>a ls. ls @ [?g a]) as ys = ys @ map ?g as" for ys
    by (induction as arbitrary: ys) auto
  moreover have "map ?g as = map item_line xs"
    using arg_cong [OF as(2), of "map (\<lambda>r. item_line (projr r))"] by (simp add: comp_def)
  ultimately show ?thesis by (simp add: print_items_def)
qed

lemma cfg_list_init:
  assumes "head \<in> dom (links_of st)" and "head < brk (items st)" and "enough n st"
  shows "\<exists>h. INIT_LIST_HEAD head (links_of st) = Inr h \<and> cfg_list head (st\<lparr>links_of := h\<rparr>) [] \<and> enough n (st\<lparr>links_of := h\<rparr>)"
  using INIT_LIST_HEAD_dll [OF assms(1)] assms(2,3) by (auto simp: cfg_list_def enough_def)

fun add_all :: "char \<Rightarrow> addr \<Rightarrow> (char list \<times> char list) list \<Rightarrow> cfg_state \<Rightarrow> cfg_state res" where
  "add_all g head [] st = Inr st"
| "add_all g head (ov # r) st = rbind (add_item g head (fst ov) (snd ov) st) (add_all g head r)"

lemma add_all_result:
  assumes "cfg_list head st xs" and "enough (length ys) st"
    and "\<forall>ov\<in>set ys. fst ov \<noteq> [] \<and> snd ov \<noteq> [] \<and> NUL \<notin> set (fst ov) \<and> NUL \<notin> set (snd ov)"
  shows "\<exists>st'. add_all g head ys st = Inr st' \<and> cfg_list head st' (xs @ ys)"
  using assms
proof (induction ys arbitrary: st xs)
  case (Cons y ys)
  then obtain st1 where "add_item g head (fst y) (snd y) st = Inr st1" "cfg_list head st1 (xs @ [(fst y, snd y)])"
    "enough (length ys) st1"
    using add_item_result [of head st xs "length ys" "fst y" "snd y" g] by auto
  then show ?case using Cons.IH [of st1 "xs @ [y]"] Cons.prems(3) by simp
qed simp

lemma config_item_test_prints:
  assumes "head \<in> dom (links_of st)" and "head < brk (items st)" and "enough 2 st" and "2 < k"
  shows "config_item_test k g head st = Some (Inr [''item1 = 1'', ''item2 = 2''])"
proof -
  obtain h where h: "INIT_LIST_HEAD head (links_of st) = Inr h" "cfg_list head (st\<lparr>links_of := h\<rparr>) []"
    "enough 2 (st\<lparr>links_of := h\<rparr>)" using cfg_list_init [OF assms(1-3)] by blast
  obtain st' where "add_all g head [(''item1'', ''1''), (''item2'', ''2'')] (st\<lparr>links_of := h\<rparr>) = Inr st'"
    and c: "cfg_list head st' [(''item1'', ''1''), (''item2'', ''2'')]"
    using add_all_result [OF h(2), of "[(''item1'', ''1''), (''item2'', ''2'')]" g] h(3) by (auto simp: numeral_2_eq_2)
  then have "rbind (add_item g head ''item1'' ''1'' (st\<lparr>links_of := h\<rparr>)) (add_item g head ''item2'' ''2'') = Inr st'"
    by (auto simp: rbind_eq_Inr)
  then show ?thesis using h(1) print_items_result [OF c, of k] assms(4)
    by (simp add: config_item_test_def item_line_def)
qed

section \<open>Properties\<close>

text \<open>Starting from an initialised list head, appending any items with non-empty option and
  value strings, with memory for them, and then walking the list with \<open>list_for_each_entry\<close> prints
  \<open>option = value\<close> for each of them, in the order they were added.\<close>

theorem config_items_print:
  assumes "head \<in> dom (links_of st)" and "head < brk (items st)" and "enough (length ys) st"
    and "\<forall>ov\<in>set ys. fst ov \<noteq> [] \<and> snd ov \<noteq> [] \<and> NUL \<notin> set (fst ov) \<and> NUL \<notin> set (snd ov)"
    and "length ys < k"
  shows "\<exists>h st'. INIT_LIST_HEAD head (links_of st) = Inr h \<and> add_all g head ys (st\<lparr>links_of := h\<rparr>) = Inr st'
    \<and> print_items k head st' = Some (Inr (map (\<lambda>(opt, val). opt @ '' = '' @ val) ys))"
proof -
  obtain h where h: "INIT_LIST_HEAD head (links_of st) = Inr h" "cfg_list head (st\<lparr>links_of := h\<rparr>) []"
    "enough (length ys) (st\<lparr>links_of := h\<rparr>)" using cfg_list_init [OF assms(1-3)] by blast
  obtain st' where "add_all g head ys (st\<lparr>links_of := h\<rparr>) = Inr st'" "cfg_list head st' ys"
    using add_all_result [OF h(2,3) assms(4)] by auto
  moreover have "map (\<lambda>(opt, val). opt @ '' = '' @ val) ys = map item_line ys"
    by (auto simp: item_line_def)
  ultimately show ?thesis using h(1) print_items_result assms(5) by fastforce
qed

definition demo_cfg :: cfg_state where
  "demo_cfg = \<lparr>items = \<lparr>cells = Map.empty, brk = 10, avail = 5\<rparr>, blocks = \<lparr>cells = Map.empty, brk = 10, avail = 10\<rparr>,
     links_of = [1 \<mapsto> \<lparr>lnext = 0, lprev = 0\<rparr>]\<rparr>"

lemma config_items_print_witness:
  "\<exists>h st'. INIT_LIST_HEAD 1 (links_of demo_cfg) = Inr h
    \<and> add_all CHR ''?'' 1 [(''ip'', ''10.0.0.1''), (''port'', ''80'')] (demo_cfg\<lparr>links_of := h\<rparr>) = Inr st'
    \<and> print_items 3 1 st' = Some (Inr [''ip = 10.0.0.1'', ''port = 80''])"
  using config_items_print [of 1 demo_cfg "[(''ip'', ''10.0.0.1''), (''port'', ''80'')]" 3 "CHR ''?''"]
  by (simp add: demo_cfg_def enough_def heap_ok_def)

text \<open>The two ways the item code leaves defined behaviour. \<open>create_config_item\<close> sizes a block as
  eight bytes per character, which has no room for the terminator of an empty string, so an empty option
  or value is written out of bounds (and any other string fits); \<open>free_config_item\<close> writes to the item
  after freeing it, so freeing any well-formed item faults.\<close>

theorem config_item_faults:
  assumes "enough 1 st" and "NUL \<notin> set opt" "NUL \<notin> set val"
  shows "if opt = [] \<or> val = [] then create_config_item g opt val st = Inl OutOfBounds
    else \<exists>p st'. create_config_item g opt val st = Inr (p, st') \<and> free_config_item p st' = Inl BadPointer"
proof (cases "opt = [] \<or> val = []")
  case True
  then show ?thesis using create_config_item_empty [OF assms(1)] by simp
next
  case False
  let ?b = "brk (blocks st)"
  have av: "0 < avail (items st)" "1 < avail (blocks st)" using assms(1) by (auto simp: enough_def)
  then show ?thesis using False
    by (auto simp: create_config_item_def malloc_avail malloc_str_def strcpy_def strcpy_block_fresh
        free_config_item_def)
qed

lemma config_item_faults_witness:
  "create_config_item CHR ''?'' ''ip'' [] demo_cfg = Inl OutOfBounds
    \<and> (\<exists>p st'. create_config_item CHR ''?'' ''ip'' ''1'' demo_cfg = Inr (p, st') \<and> free_config_item p st' = Inl BadPointer)"
  using config_item_faults [of demo_cfg "''ip''" "[]" "CHR ''?''"] config_item_faults [of demo_cfg "''ip''" "''1''" "CHR ''?''"]
  by (simp add: demo_cfg_def enough_def heap_ok_def)

end
