(* ===== verification/Decimal.thy ===== *)
theory Decimal
  imports Prelude
begin

text \<open>
  Numbers as the C library prints and reads them: \<open>%d\<close> of an \<open>int\<close> or \<open>long\<close>, shared by the components
  that format or read text.
\<close>

definition is_digit :: "char \<Rightarrow> bool" where
  "is_digit c \<longleftrightarrow> 48 \<le> (of_char c :: nat) \<and> (of_char c :: nat) \<le> 57"

fun digits_of :: "nat \<Rightarrow> char list" where
  "digits_of n = (if n < 10 then [] else digits_of (n div 10)) @ [char_of (48 + n mod 10)]"

declare digits_of.simps [simp del]

definition decimal :: "int \<Rightarrow> char list" where
  "decimal n = (if n < 0 then CHR ''-'' # digits_of (nat (- n)) else digits_of (nat n))"

lemma digit_char: "d < 10 \<Longrightarrow> is_digit (char_of (48 + d)) \<and> int (of_char (char_of (48 + d) :: char)) - 48 = int d"
  by (simp add: is_digit_def)

lemma digits_of_digit: "c \<in> set (digits_of m) \<Longrightarrow> is_digit c"
proof (induction m rule: digits_of.induct)
  case (1 m)
  have "is_digit (char_of (48 + m mod 10))" using digit_char [of "m mod 10"] by simp
  then show ?case using 1 by (subst (asm) (2) digits_of.simps) (auto split: if_splits)
qed

lemma digits_of_nonempty: "digits_of m \<noteq> []"
  by (subst digits_of.simps) simp

lemma length_digits_of: "m < 10 ^ k \<Longrightarrow> 0 < k \<Longrightarrow> length (digits_of m) \<le> k"
proof (induction k arbitrary: m)
  case (Suc k)
  show ?case
  proof (cases "m < 10")
    case False
    then have "0 < k" using Suc.prems(1) by (cases k) auto
    moreover have "m div 10 < 10 ^ k" using Suc.prems(1) by (simp add: less_mult_imp_div_less mult.commute)
    ultimately show ?thesis using Suc.IH [of "m div 10"] False by (subst digits_of.simps) simp
  qed (subst digits_of.simps, simp)
qed simp

lemma decimal_chars: "c \<in> set (decimal n) \<Longrightarrow> is_digit c \<or> c = CHR ''-''"
  using digits_of_digit by (auto simp: decimal_def split: if_splits)

lemma decimal_NUL: "NUL \<notin> set (decimal n)"
  using decimal_chars [of NUL n] by (auto simp: is_digit_def)

lemma decimal_pos: "0 < length (decimal n)"
  using digits_of_nonempty by (auto simp: decimal_def)

text \<open>The value of a run of digits, as \<open>atoi\<close> and \<open>%d\<close> read it.\<close>

definition is_space :: "char \<Rightarrow> bool" where
  "is_space c \<longleftrightarrow> c = CHR '' '' \<or> (9 \<le> (of_char c :: nat) \<and> (of_char c :: nat) \<le> 13)"

definition digits_value :: "char list \<Rightarrow> int" where
  "digits_value s = fold (\<lambda>c n. 10 * n + (int (of_char c) - 48)) (takeWhile is_digit s) 0"

lemma digits_of_value: "fold (\<lambda>c n. 10 * n + (int (of_char c) - 48)) (digits_of m) 0 = int m"
proof (induction m rule: digits_of.induct)
  case (1 m)
  have d: "int (of_char (char_of (48 + m mod 10) :: char)) - 48 = int (m mod 10)"
    using digit_char [of "m mod 10"] by simp
  show ?case
  proof (cases "m < 10")
    case True
    then show ?thesis using d by (subst digits_of.simps) simp
  next
    case False
    then have "fold (\<lambda>c n. 10 * n + (int (of_char c) - 48)) (digits_of m) 0 = 10 * int (m div 10) + int (m mod 10)"
      using 1 d by (subst digits_of.simps) simp
    also have "10 * int (m div 10) + int (m mod 10) = int (10 * (m div 10) + m mod 10)" by (simp only: of_nat_add of_nat_mult of_nat_numeral)
    also have "10 * (m div 10) + m mod 10 = m" by (rule mult_div_mod_eq)
    finally show ?thesis .
  qed
qed

lemma digits_value_append:
  "r = [] \<or> \<not> is_digit (hd r) \<Longrightarrow> digits_value (digits_of m @ r) = int m"
proof -
  assume r: "r = [] \<or> \<not> is_digit (hd r)"
  have "takeWhile is_digit (digits_of m @ r) = digits_of m @ takeWhile is_digit r"
    using digits_of_digit by (simp add: takeWhile_append2)
  also have "takeWhile is_digit r = []" using r by (cases r) auto
  finally show ?thesis by (simp add: digits_value_def digits_of_value)
qed

end
