(* ===== verification/ConfigFile.thy ===== *)
theory ConfigFile
  imports ConfigItem Decimal
begin

text \<open>
  The INI file access of \<^verbatim>\<open>src/config_item/src/config_file.c\<close>. A stream is the file's bytes, the
  position and the end-of-file flag; \<open>fgets\<close>, \<open>feof\<close>, \<open>fseek\<close> and \<open>fputs\<close> are modelled on it as the
  C standard says. The line buffer is 256 bytes, cleared before each \<open>fgets\<close>. Strings passed in are
  the characters before their terminator.
\<close>

abbreviation NL :: char where "NL \<equiv> CHR 0x0A"
abbreviation CR :: char where "CR \<equiv> CHR 0x0D"

record stream =
  bytes :: "char list"
  fpos :: nat
  feof :: bool

section \<open>The stream\<close>

definition fopen :: "char list \<Rightarrow> stream" where
  "fopen c = \<lparr>bytes = c, fpos = 0, feof = False\<rparr>"

fun take_line :: "nat \<Rightarrow> char list \<Rightarrow> char list" where
  "take_line 0 cs = []"
| "take_line (Suc n) [] = []"
| "take_line (Suc n) (c # cs) = c # (if c = NL then [] else take_line n cs)"

text \<open>\<open>fgets(buf, n, fp)\<close>: the bytes stored and the stream after. End of file is met when the bytes run
  out before a newline and before \<open>n - 1\<close> bytes.\<close>

definition fgets :: "nat \<Rightarrow> stream \<Rightarrow> char list \<times> stream" where
  "fgets n f =
     (let rest = drop (fpos f) (bytes f); l = take_line (n - 1) rest
      in (l, f\<lparr>fpos := fpos f + length l,
               feof := feof f \<or> (length l = length rest \<and> length l < n - 1 \<and> (l = [] \<or> last l \<noteq> NL))\<rparr>))"

definition fseek_cur :: "int \<Rightarrow> stream \<Rightarrow> stream" where
  "fseek_cur d f = f\<lparr>fpos := nat (int (fpos f) + d), feof := False\<rparr>"

definition fputs :: "char list \<Rightarrow> stream \<Rightarrow> stream" where
  "fputs s f = f\<lparr>bytes := take (fpos f) (bytes f) @ s @ drop (fpos f + length s) (bytes f),
                 fpos := fpos f + length s\<rparr>"

section \<open>String functions\<close>

abbreviation LINE_CONTENT_MAX_LEN :: nat where "LINE_CONTENT_MAX_LEN \<equiv> 256"

text \<open>The line buffer after \<open>memset\<close> and \<open>fgets\<close>.\<close>

definition line_buf :: "char list \<Rightarrow> char list" where
  "line_buf l = l @ replicate (LINE_CONTENT_MAX_LEN - length l) NUL"

definition strlen :: "char list \<Rightarrow> nat" where
  "strlen b = length (cstr b)"

text \<open>\<open>strncmp(b, s, strlen(s)) == 0\<close>\<close>

definition starts_with :: "char list \<Rightarrow> char list \<Rightarrow> bool" where
  "starts_with b s \<longleftrightarrow> take (length s) (cstr b) = s"

text \<open>The first index from \<open>i\<close> below \<open>n\<close> at which \<open>P\<close> holds of the buffer: the two \<open>for\<close> loops.\<close>

function find_from :: "(char \<Rightarrow> bool) \<Rightarrow> char list \<Rightarrow> nat \<Rightarrow> nat \<Rightarrow> nat" where
  "find_from P b i n = (if i < n then if P (b ! i) then i else find_from P b (Suc i) n else i)"
  by auto
termination by (relation "measure (\<lambda>(P, b, i, n). n - i)") auto

declare find_from.simps [simp del]

definition line_end :: "char \<Rightarrow> bool" where
  "line_end c \<longleftrightarrow> c = NUL \<or> c = CR \<or> c = NL"

definition skipped :: "char list \<Rightarrow> bool" where
  "skipped b \<longleftrightarrow> b ! 0 = CHR '';'' \<or> b ! 0 = NUL \<or> b ! 0 = CR \<or> b ! 0 = NL"

section \<open>IniReadValue\<close>

text \<open>\<open>strncpy\<close> of the text behind the equals sign into the caller's buffer \<open>val\<close> (with no terminator
  of its own), then the loop that looks for a line end in the \<^emph>\<open>line\<close> buffer and cuts \<open>val\<close> there.\<close>

definition store_value :: "char list \<Rightarrow> char list \<Rightarrow> nat \<Rightarrow> char list res" where
  "store_value val b position =
     (let s = cstr (drop position b); val' = s @ drop (length s) val
      in if length s > length val \<or> NUL \<notin> set val' then Inl OutOfBounds
         else let n = strlen val'; i = find_from line_end b 0 n
              in Inr (if i < n then val'[i := NUL] else val'))"

text \<open>The inner loop, over the lines of the section found. The result is \<open>val\<close> and whether the key was
  found.\<close>

definition left :: "stream \<Rightarrow> nat" where
  "left f = length (bytes f) - fpos f + (if feof f then 0 else 1)"

lemma fgets_left:
  assumes "(l, f') = fgets 256 f" and "\<not> feof f"
  shows "left f' < left f"
proof (cases "drop (fpos f) (bytes f)")
  case Nil
  then show ?thesis using assms by (auto simp: fgets_def Let_def eval_nat_numeral left_def)
next
  case (Cons c cs)
  then have "take_line 255 (c # cs) \<noteq> []" "fpos f < length (bytes f)"
    by (auto simp: eval_nat_numeral intro: ccontr)
  then show ?thesis using Cons assms by (cases "take_line 255 (c # cs)") (auto simp: fgets_def Let_def left_def)
qed

function read_keys :: "char list \<Rightarrow> char list \<Rightarrow> bool \<Rightarrow> stream \<Rightarrow> (char list \<times> bool) res" where
  "read_keys key val found f =
     (if feof f then Inr (val, found)
      else let (l, f') = fgets LINE_CONTENT_MAX_LEN f; b = line_buf l
        in if starts_with b key then
             (let n = strlen b; i = find_from (\<lambda>c. c = CHR ''='') b (length key) n
              in if i \<ge> n then Inr (val, True)
                 else case store_value val b (i + 1) of Inl e \<Rightarrow> Inl e
                   | Inr val' \<Rightarrow> read_keys key val' True f')
           else if b ! 0 = CHR ''['' then Inr (val, found)
           else read_keys key val found f')"
  by auto
termination
  by (relation "measure (\<lambda>(key, val, found, f). left f)") (auto intro: fgets_left)

declare read_keys.simps [simp del]

text \<open>The outer loop, over the lines up to the section. \<open>val\<close>, section found, key found.\<close>

function read_sections :: "char list \<Rightarrow> char list \<Rightarrow> char list \<Rightarrow> stream \<Rightarrow> (char list \<times> bool \<times> bool) res" where
  "read_sections sect key val f =
     (if feof f then Inr (val, False, False)
      else let (l, f') = fgets LINE_CONTENT_MAX_LEN f; b = line_buf l
        in if skipped b then read_sections sect key val f'
           else if starts_with b sect then rbind (read_keys key val False f') (\<lambda>(val', k). Inr (val', True, k))
           else read_sections sect key val f')"
  by auto
termination
  by (relation "measure (\<lambda>(sect, key, val, f). left f)") (auto intro: fgets_left)

declare read_sections.simps [simp del]

datatype ini_message = OpenFailed | NoSection | NoKey | Wrote | NullParam

text \<open>\<open>file\<close> is \<open>None\<close> when \<open>fopen\<close> fails. The result is the value buffer and the messages printed.\<close>

definition IniReadValue :: "char list \<Rightarrow> char list \<Rightarrow> char list \<Rightarrow> char list option \<Rightarrow> (char list \<times> ini_message list) res" where
  "IniReadValue sect key val file = (case file of None \<Rightarrow> Inr (val, [OpenFailed])
     | Some c \<Rightarrow> rbind (read_sections sect key val (fopen c)) (\<lambda>(val', s, k).
         Inr (val', if \<not> s then [NoSection] else if \<not> k then [NoKey] else [])))"

section \<open>readStringValue and readIntValue\<close>

definition READ_STR_OK :: int where "READ_STR_OK = 0"
definition READ_STR_ERR :: int where "READ_STR_ERR = -1"

abbreviation SECTION_MAX_LEN :: nat where "SECTION_MAX_LEN \<equiv> 256"

text \<open>\<open>sprintf(sect, "[%s]", section)\<close> into 256 bytes.\<close>

definition section_tag :: "char list \<Rightarrow> char list res" where
  "section_tag section = (let s = ''['' @ section @ '']''
     in if length s < SECTION_MAX_LEN then Inr s else Inl OutOfBounds)"

text \<open>The pointer arguments may be NULL (\<open>None\<close>); a file that cannot be opened is \<open>Some None\<close>.\<close>

definition readStringValue :: "char list option \<Rightarrow> char list option \<Rightarrow> char list option \<Rightarrow> char list option option
    \<Rightarrow> (int \<times> char list option \<times> ini_message list) res" where
  "readStringValue section key val file =
     (case (section, key, val, file) of
        (Some section, Some key, Some val, Some file) \<Rightarrow>
          rbind (section_tag section) (\<lambda>sect.
          rbind (IniReadValue sect key val file) (\<lambda>(val', ms). Inr (READ_STR_OK, Some val', ms)))
      | _ \<Rightarrow> Inr (READ_STR_ERR, val, [NullParam]))"

text \<open>\<open>atoi\<close>; \<open>None\<close> when the value is no \<open>int\<close> (undefined in C).\<close>

definition atoi :: "char list \<Rightarrow> int option" where
  "atoi b =
     (let s = dropWhile is_space (cstr b);
          n = (case s of [] \<Rightarrow> 0
             | c # r \<Rightarrow> if c = CHR ''-'' then - digits_value r
                 else if c = CHR ''+'' then digits_value r else digits_value s)
      in if -(2 ^ 31) \<le> n \<and> n < 2 ^ 31 then Some n else None)"

abbreviation STRVALUE_MAX_LEN :: nat where "STRVALUE_MAX_LEN \<equiv> 256"

definition readIntValue :: "char list option \<Rightarrow> char list option \<Rightarrow> char list option option
    \<Rightarrow> (int option \<times> ini_message list) res" where
  "readIntValue section key file =
     rbind (readStringValue section key (Some (replicate STRVALUE_MAX_LEN NUL)) file) (\<lambda>(rc, val, ms).
     if rc \<noteq> READ_STR_OK then Inr (Some 0, ms) else Inr (atoi (the val), ms))"

section \<open>IniWriteValue\<close>

text \<open>The inner loop of the writer: the first line of the section that starts with the key is
  overwritten in place.\<close>

function write_keys :: "char list \<Rightarrow> char list \<Rightarrow> stream \<Rightarrow> stream \<times> bool" where
  "write_keys key w f =
     (if feof f then (f, False)
      else let (l, f') = fgets LINE_CONTENT_MAX_LEN f; b = line_buf l
        in if starts_with b key then (fputs w (fseek_cur (- int (strlen b)) f'), True)
           else if b ! 0 = CHR ''['' then (f', False)
           else write_keys key w f')"
  by auto
termination
  by (relation "measure (\<lambda>(key, w, f). left f)") (auto intro: fgets_left)

declare write_keys.simps [simp del]

function write_sections :: "char list \<Rightarrow> char list \<Rightarrow> char list \<Rightarrow> stream \<Rightarrow> stream \<times> bool \<times> bool" where
  "write_sections sect key w f =
     (if feof f then (f, False, False)
      else let (l, f') = fgets LINE_CONTENT_MAX_LEN f; b = line_buf l
        in if skipped b then write_sections sect key w f'
           else if starts_with b sect then (let (f'', k) = write_keys key w f' in (f'', True, k))
           else write_sections sect key w f')"
  by auto
termination
  by (relation "measure (\<lambda>(sect, key, w, f). left f)") (auto intro: fgets_left)

declare write_sections.simps [simp del]

text \<open>The result is the file after the call (\<open>None\<close>: it could not be opened) and the messages.\<close>

definition IniWriteValue :: "char list \<Rightarrow> char list \<Rightarrow> char list \<Rightarrow> char list option
    \<Rightarrow> (char list option \<times> ini_message list) res" where
  "IniWriteValue sect key val file =
     (let w = key @ ''='' @ val @ [NL]
      in if length w \<ge> LINE_CONTENT_MAX_LEN then Inl OutOfBounds
         else case file of None \<Rightarrow> Inr (None, [OpenFailed])
           | Some c \<Rightarrow> (let (f, s, k) = write_sections sect key w (fopen c)
               in Inr (Some (bytes f), if \<not> s then [NoSection] else if \<not> k then [NoKey] else [Wrote])))"

text \<open>\<open>writeStringVlaue\<close> ends without a \<open>return\<close> on its main path: the value returned is \<open>None\<close>.\<close>

definition writeStringVlaue :: "char list option \<Rightarrow> char list option \<Rightarrow> char list option \<Rightarrow> char list option option
    \<Rightarrow> (int option \<times> char list option option \<times> ini_message list) res" where
  "writeStringVlaue section key val file =
     (case (section, key, val, file) of
        (Some section, Some key, Some val, Some file) \<Rightarrow>
          rbind (section_tag section) (\<lambda>sect.
          rbind (IniWriteValue sect key val file) (\<lambda>(file', ms). Inr (None, Some file', ms)))
      | _ \<Rightarrow> Inr (Some READ_STR_ERR, file, [NullParam]))"

text \<open>\<open>sprintf(strValue, "%-4d", val)\<close>: decimal, padded with spaces on the right to four places.\<close>

definition padded4 :: "int \<Rightarrow> char list" where
  "padded4 n = (let d = decimal n in d @ replicate (4 - length d) CHR '' '')"

definition writeIntValue :: "char list option \<Rightarrow> char list option \<Rightarrow> int \<Rightarrow> char list option option
    \<Rightarrow> (char list option option \<times> ini_message list) res" where
  "writeIntValue section key val file =
     rbind (writeStringVlaue section key (Some (padded4 val)) file) (\<lambda>(rc, file', ms). Inr (file', ms))"

section \<open>Files made of lines\<close>

definition line_ok :: "char list \<Rightarrow> bool" where
  "line_ok l \<longleftrightarrow> (\<exists>t. l = t @ [NL] \<and> NL \<notin> set t \<and> NUL \<notin> set t) \<and> length l < LINE_CONTENT_MAX_LEN"

definition at :: "char list \<Rightarrow> stream \<Rightarrow> bool" where
  "at rest f \<longleftrightarrow> \<not> feof f \<and> fpos f \<le> length (bytes f) \<and> drop (fpos f) (bytes f) = rest"

definition advance :: "nat \<Rightarrow> stream \<Rightarrow> stream" where
  "advance n f = f\<lparr>fpos := fpos f + n\<rparr>"

lemma take_line_append: "NL \<notin> set t \<Longrightarrow> length t < n \<Longrightarrow> take_line n (t @ NL # rest) = t @ [NL]"
  by (induction n "t @ NL # rest" arbitrary: t rule: take_line.induct) (auto simp: Cons_eq_append_conv)

lemma fgets_line:
  assumes "at (l @ rest) f" and "line_ok l"
  shows "fgets 256 f = (l, advance (length l) f)" "at rest (advance (length l) f)"
proof -
  obtain t where t: "l = t @ [NL]" "NL \<notin> set t" "length l < 256" using assms(2) by (auto simp: line_ok_def)
  have d: "drop (fpos f) (bytes f) = l @ rest" "\<not> feof f" "fpos f \<le> length (bytes f)" using assms(1) by (auto simp: at_def)
  have "take_line 255 (l @ rest) = l" using take_line_append [OF t(2), of 255 rest] t by simp
  then show "fgets 256 f = (l, advance (length l) f)"
    using d t by (auto simp: fgets_def Let_def advance_def)
  have "length (drop (fpos f) (bytes f)) = length (l @ rest)" using d(1) by simp
  then have "fpos f + length l \<le> length (bytes f)" using d(3) by simp
  moreover have "drop (fpos f + length l) (bytes f) = rest"
    using arg_cong [OF d(1), of "drop (length l)"] by (simp add: add.commute)
  ultimately show "at rest (advance (length l) f)" using d by (simp add: at_def advance_def)
qed

lemma fgets_end: "at [] f \<Longrightarrow> fgets 256 f = ([], f\<lparr>feof := True\<rparr>)"
  by (cases f) (auto simp: at_def fgets_def Let_def eval_nat_numeral)

lemma advance_0 [simp]: "advance 0 f = f"
  by (simp add: advance_def)

lemma advance_advance [simp]: "advance n (advance m f) = advance (m + n) f"
  by (simp add: advance_def)

lemma at_feof: "at r f \<Longrightarrow> \<not> feof f"
  by (simp add: at_def)

lemma at_fopen: "at c (fopen c)"
  by (simp add: at_def fopen_def)

text \<open>The line buffer holds the line, and the tests on it are tests on the line.\<close>

lemma pad_NUL: "m < 256 \<Longrightarrow> replicate (256 - m) c = c # replicate (255 - m) c"
proof -
  assume "m < 256"
  then have "256 - m = Suc (255 - m)" by simp
  then show ?thesis by simp
qed

lemma cstr_line: "line_ok l \<Longrightarrow> cstr (line_buf l) = l"
proof -
  assume "line_ok l"
  then obtain t where "l = t @ [NL]" "NUL \<notin> set t" "length l < 256" by (auto simp: line_ok_def)
  then have n: "NUL \<notin> set l" "line_buf l = l @ NUL # replicate (255 - length l) NUL"
    using pad_NUL [of "length l"] by (auto simp: line_buf_def simp del: replicate_Suc)
  then show ?thesis by simp
qed

definition begins :: "char list \<Rightarrow> char list \<Rightarrow> bool" where
  "begins l s \<longleftrightarrow> take (length s) l = s"

lemma starts_with_line: "line_ok l \<Longrightarrow> starts_with (line_buf l) s \<longleftrightarrow> begins l s"
  by (simp add: starts_with_def begins_def cstr_line)

lemma line_nonempty: "line_ok l \<Longrightarrow> l \<noteq> []"
  by (auto simp: line_ok_def)

lemma line_buf_0: "line_ok l \<Longrightarrow> line_buf l ! 0 = hd l"
  by (drule line_nonempty) (auto simp: line_buf_def nth_append hd_conv_nth)

definition blank :: "char list \<Rightarrow> bool" where
  "blank l \<longleftrightarrow> hd l \<in> {CHR '';'', NUL, CR, NL}"

lemma skipped_line: "line_ok l \<Longrightarrow> skipped (line_buf l) \<longleftrightarrow> blank l"
  by (simp add: skipped_def line_buf_0 blank_def)

lemma end_buf: "line_buf [] ! 0 = NUL" "s \<noteq> [] \<Longrightarrow> \<not> starts_with (line_buf []) s"
  by (auto simp: line_buf_def starts_with_def cstr_def eval_nat_numeral)

section \<open>Stepping over lines\<close>

lemma read_sections_skip:
  assumes "at (concat as @ rest) f" and "\<forall>l\<in>set as. line_ok l \<and> (blank l \<or> \<not> begins l sect)"
  shows "read_sections sect key val f = read_sections sect key val (advance (length (concat as)) f)"
    "write_sections sect key w f = write_sections sect key w (advance (length (concat as)) f)"
    "at rest (advance (length (concat as)) f)"
proof -
  have "read_sections sect key val f = read_sections sect key val (advance (length (concat as)) f)
      \<and> write_sections sect key w f = write_sections sect key w (advance (length (concat as)) f)
      \<and> at rest (advance (length (concat as)) f)"
    using assms
  proof (induction as arbitrary: f)
    case (Cons l as)
    have l: "line_ok l" "blank l \<or> \<not> begins l sect" using Cons.prems(2) by auto
    have "at (l @ concat as @ rest) f" using Cons.prems(1) by simp
    note g = fgets_line [OF this l(1)]
    note i = Cons.IH [OF g(2)] Cons.prems(2)
    have "read_sections sect key val f = read_sections sect key val (advance (length l) f)"
      "write_sections sect key w f = write_sections sect key w (advance (length l) f)"
      using at_feof [OF Cons.prems(1)] g(1) l
      by (subst read_sections.simps write_sections.simps, auto simp: Let_def starts_with_line skipped_line)+
    then show ?case using i by simp
  qed simp
  then show "read_sections sect key val f = read_sections sect key val (advance (length (concat as)) f)"
    "write_sections sect key w f = write_sections sect key w (advance (length (concat as)) f)"
    "at rest (advance (length (concat as)) f)" by auto
qed

lemma read_keys_skip:
  assumes "at (concat bs @ rest) f" and "\<forall>l\<in>set bs. line_ok l \<and> hd l \<noteq> CHR ''['' \<and> \<not> begins l key"
  shows "read_keys key val k f = read_keys key val k (advance (length (concat bs)) f)
    \<and> write_keys key w f = write_keys key w (advance (length (concat bs)) f)
    \<and> at rest (advance (length (concat bs)) f)"
  using assms
proof (induction bs arbitrary: f)
  case (Cons l bs)
  have l: "line_ok l" "hd l \<noteq> CHR ''[''" "\<not> begins l key" using Cons.prems(2) by auto
  have "at (l @ concat bs @ rest) f" using Cons.prems(1) by simp
  note g = fgets_line [OF this l(1)]
  note i = Cons.IH [OF g(2)] Cons.prems(2)
  have "read_keys key val k f = read_keys key val k (advance (length l) f)"
    "write_keys key w f = write_keys key w (advance (length l) f)"
    using at_feof [OF Cons.prems(1)] g(1) l
    by (subst read_keys.simps write_keys.simps, auto simp: Let_def starts_with_line line_buf_0)+
  then show ?case using i by simp
qed simp

text \<open>Behind the key's line: lines that do not start with the key, up to the next section or the end.\<close>

lemma read_keys_rest:
  assumes "at (concat cs) f" and "\<forall>l\<in>set cs. line_ok l"
    and "\<forall>l\<in>set (takeWhile (\<lambda>l. hd l \<noteq> CHR ''['') cs). \<not> begins l key"
    and key: "key \<noteq> []" "hd key \<noteq> CHR ''[''"
  shows "read_keys key val k f = Inr (val, k)"
proof -
  let ?p = "\<lambda>l. hd l \<noteq> CHR ''[''"
  let ?a = "takeWhile ?p cs" let ?b = "dropWhile ?p cs"
  let ?f = "advance (length (concat ?a)) f"
  have s: "concat cs = concat ?a @ concat ?b" by (metis concat_append takeWhile_dropWhile_id)
  have "\<forall>l\<in>set ?a. line_ok l \<and> hd l \<noteq> CHR ''['' \<and> \<not> begins l key"
    using assms(2,3) by (auto dest: set_takeWhileD)
  from read_keys_skip [OF assms(1) [unfolded s] this]
  have 1: "read_keys key val k f = read_keys key val k ?f" "at (concat ?b) ?f" by auto
  have "read_keys key val k ?f = Inr (val, k)"
  proof (cases ?b)
    case Nil
    then have "at [] ?f" using 1(2) by (metis concat.simps(1))
    from fgets_end [OF this] at_feof [OF this] show ?thesis
      using end_buf key(1) by (subst read_keys.simps, simp add: Let_def) (simp add: read_keys.simps)
  next
    case (Cons l ls)
    have l: "hd l = CHR ''[''" "l \<in> set cs"
      using hd_dropWhile [of ?p cs] Cons set_dropWhileD [of l ?p cs] by auto
    have "at (l @ concat ls) ?f" using 1(2) Cons by simp
    moreover have "\<not> begins l key" using l(1) key line_nonempty assms(2) l(2)
      by (cases l; cases key) (auto simp: begins_def)
    ultimately show ?thesis
      using fgets_line(1) [of l "concat ls" ?f] at_feof [of _ ?f] l assms(2)
      by (subst read_keys.simps) (auto simp: Let_def starts_with_line line_buf_0)
  qed
  then show ?thesis using 1(1) by simp
qed

section \<open>The value in the line\<close>

lemma find_from_hit:
  "i \<le> j \<Longrightarrow> j < n \<Longrightarrow> P (b ! j) \<Longrightarrow> \<forall>m. i \<le> m \<and> m < j \<longrightarrow> \<not> P (b ! m) \<Longrightarrow> find_from P b i n = j"
proof (induction P b i n rule: find_from.induct)
  case (1 P b i n)
  show ?case
  proof (cases "i = j")
    case True
    then show ?thesis using 1 by (subst find_from.simps) auto
  next
    case False
    then show ?thesis using 1 by (subst find_from.simps) auto
  qed
qed

lemma find_from_none: "i \<le> n \<Longrightarrow> \<forall>m. i \<le> m \<and> m < n \<longrightarrow> \<not> P (b ! m) \<Longrightarrow> find_from P b i n = n"
proof (induction P b i n rule: find_from.induct)
  case (1 P b i n)
  then show ?case by (subst find_from.simps) auto
qed

text \<open>A line \<open>key mid = v t\<close>: \<open>mid\<close> holds no equals sign and \<open>t\<close> is the line end, LF or CR LF.\<close>

definition key_line :: "char list \<Rightarrow> char list \<Rightarrow> char list \<Rightarrow> char list \<Rightarrow> char list" where
  "key_line key mid v t = key @ mid @ CHR ''='' # v @ t"

definition key_line_ok :: "char list \<Rightarrow> char list \<Rightarrow> char list \<Rightarrow> char list \<Rightarrow> bool" where
  "key_line_ok key mid v t \<longleftrightarrow> key \<noteq> [] \<and> hd key \<noteq> CHR ''['' \<and> t \<in> {[NL], [CR, NL]} \<and> CHR ''='' \<notin> set mid
     \<and> (\<forall>c\<in>set (key @ mid @ v). \<not> line_end c) \<and> length (key_line key mid v t) < LINE_CONTENT_MAX_LEN"

lemma key_line_facts:
  assumes o: "key_line_ok key mid v t"
  shows "t = [NL] \<or> t = [CR, NL]" "key \<noteq> []" "CHR ''='' \<notin> set mid" "length (key_line key mid v t) < 256"
    "hd key \<noteq> CHR ''[''" "\<And>c. c \<in> set key \<union> set mid \<union> set v \<Longrightarrow> \<not> line_end c"
    "NUL \<notin> set key \<union> set mid \<union> set v" "NL \<notin> set key \<union> set mid \<union> set v"
proof -
  show u: "\<not> line_end c" if "c \<in> set key \<union> set mid \<union> set v" for c
    using o that unfolding key_line_ok_def set_append by blast
  show "NUL \<notin> set key \<union> set mid \<union> set v" "NL \<notin> set key \<union> set mid \<union> set v"
    using u unfolding line_end_def by blast+
qed (use o in \<open>unfold key_line_ok_def, blast+\<close>)

lemma key_line_line:
  assumes "key_line_ok key mid v t"
  shows "line_ok (key_line key mid v t)"
proof -
  note f = key_line_facts [OF assms]
  have "key_line key mid v t = (key @ mid @ CHR ''='' # v @ butlast t) @ [NL]"
    using f(1) by (auto simp: key_line_def)
  moreover have "NL \<notin> set (key @ mid @ CHR ''='' # v @ butlast t)" "NUL \<notin> set (key @ mid @ CHR ''='' # v @ butlast t)"
    using f(1,7,8) by auto
  ultimately show ?thesis using f(4) unfolding line_ok_def by blast
qed

lemma key_line_scan:
  assumes o: "key_line_ok key mid v t"
  defines "b \<equiv> line_buf (key_line key mid v t)"
  shows "find_from (\<lambda>c. c = CHR ''='') b (length key) (strlen b) = length key + length mid"
    "length key + length mid < strlen b"
    "cstr (drop (length key + length mid + 1) b) = v @ t"
    "find_from line_end b 0 (length (v @ t)) = length (v @ t)"
    "starts_with b key"
proof -
  let ?k = "key_line key mid v t"
  have ok: "line_ok ?k" using o by (rule key_line_line)
  have sl: "strlen b = length ?k" using cstr_line [OF ok] by (simp add: strlen_def b_def)
  have nth: "b ! i = ?k ! i" if "i < length ?k" for i using that by (simp add: b_def line_buf_def nth_append)
  show lt: "length key + length mid < strlen b" unfolding sl by (simp add: key_line_def)
  show "find_from (\<lambda>c. c = CHR ''='') b (length key) (strlen b) = length key + length mid"
  proof (rule find_from_hit)
    show "b ! (length key + length mid) = CHR ''=''" using lt sl nth by (simp add: key_line_def nth_append)
    show "\<forall>m. length key \<le> m \<and> m < length key + length mid \<longrightarrow> b ! m \<noteq> CHR ''=''"
    proof (intro allI impI)
      fix m assume m: "length key \<le> m \<and> m < length key + length mid"
      then have "b ! m = mid ! (m - length key)" using lt sl nth by (auto simp: key_line_def nth_append)
      moreover have "mid ! (m - length key) \<in> set mid" using m by auto
      ultimately show "b ! m \<noteq> CHR ''=''" using key_line_facts(3) [OF o] by metis
    qed
  qed (use lt in auto)
  note fx = key_line_facts [OF o]
  have t: "t \<in> {[NL], [CR, NL]}" "NUL \<notin> set (v @ t)" "length ?k < 256" "key \<noteq> []"
    using fx(1,2,4,7) by auto
  have "drop (length key + length mid + 1) b = (v @ t) @ NUL # replicate (255 - length ?k) NUL"
    unfolding b_def line_buf_def pad_NUL [OF t(3)] by (simp add: key_line_def)
  then show "cstr (drop (length key + length mid + 1) b) = v @ t" using cstr_append [OF t(2)] by simp
  show "find_from line_end b 0 (length (v @ t)) = length (v @ t)"
  proof (rule find_from_none)
    let ?p = "key @ mid @ CHR ''='' # v"
    have l: "length (v @ t) \<le> length ?p" using t(1,4) by (cases key) auto
    have "\<not> line_end (b ! m)" if "m < length (v @ t)" for m
    proof -
      have m: "m < length ?p" using that l by simp
      then have "b ! m = ?p ! m" using nth [of m] nth_append [of ?p t m] by (simp add: key_line_def)
      moreover have "?p ! m \<in> set ?p" using m by (rule nth_mem)
      ultimately have "b ! m = CHR ''='' \<or> b ! m \<in> set key \<union> set mid \<union> set v" by auto
      then show ?thesis using fx(6) by (auto simp: line_end_def)
    qed
    then show "\<forall>m. 0 \<le> m \<and> m < length (v @ t) \<longrightarrow> \<not> line_end (b ! m)" by blast
  qed simp
  show "starts_with b key" using starts_with_line [OF ok] by (simp add: b_def begins_def key_line_def)
qed

lemma store_value_line:
  assumes o: "key_line_ok key mid v t"
  shows "store_value (replicate 256 NUL) (line_buf (key_line key mid v t)) (length key + length mid + 1)
    = Inr ((v @ t) @ replicate (256 - length (v @ t)) NUL)"
proof -
  let ?b = "line_buf (key_line key mid v t)"
  have n: "NUL \<notin> set (v @ t)" "length (v @ t) < 256"
    using key_line_facts(1,4,7) [OF o] by (auto simp: key_line_def)
  let ?v = "(v @ t) @ replicate (256 - length (v @ t)) NUL"
  have v: "?v = (v @ t) @ NUL # replicate (255 - length (v @ t)) NUL"
    using pad_NUL [OF n(2)] by simp
  then have "cstr ?v = v @ t" "NUL \<in> set ?v" using cstr_append [OF n(1)] by simp_all
  moreover note key_line_scan(3,4) [OF o]
  ultimately show ?thesis using n(2) by (simp add: store_value_def strlen_def Let_def)
qed

section \<open>A file with the section and the key\<close>

text \<open>
  The file: lines \<open>as\<close> before the section, the section's line \<open>s\<close>, lines \<open>bs\<close> of the section before
  the key, the key's line and the rest \<open>cs\<close>.
\<close>

definition ini_file :: "char list list \<Rightarrow> char list \<Rightarrow> char list list \<Rightarrow> char list \<Rightarrow> char list list \<Rightarrow> char list" where
  "ini_file as s bs k cs = concat (as @ [s] @ bs @ [k] @ cs)"

definition ini_ok :: "char list \<Rightarrow> char list \<Rightarrow> char list list \<Rightarrow> char list \<Rightarrow> char list list \<Rightarrow> char list list \<Rightarrow> bool" where
  "ini_ok section key as s bs cs \<longleftrightarrow> length section + 2 < SECTION_MAX_LEN
     \<and> (\<forall>l\<in>set as. line_ok l \<and> (blank l \<or> \<not> begins l (''['' @ section @ '']'')))
     \<and> line_ok s \<and> begins s (''['' @ section @ '']'')
     \<and> (\<forall>l\<in>set bs. line_ok l \<and> hd l \<noteq> CHR ''['' \<and> \<not> begins l key)
     \<and> (\<forall>l\<in>set cs. line_ok l) \<and> (\<forall>l\<in>set (takeWhile (\<lambda>l. hd l \<noteq> CHR ''['') cs). \<not> begins l key)"

lemma reach_key:
  assumes i: "ini_ok section key as s bs cs" and at: "at (ini_file as s bs k cs) f"
  defines "f' \<equiv> advance (length (concat (as @ [s] @ bs))) f"
  shows "read_sections (''['' @ section @ '']'') key val f = rbind (read_keys key val False f') (\<lambda>(v, k). Inr (v, True, k))"
    "write_sections (''['' @ section @ '']'') key w f = (let (f'', k) = write_keys key w f' in (f'', True, k))"
    "at (k @ concat cs) f'"
proof -
  let ?sect = "''['' @ section @ '']''"
  let ?f1 = "advance (length (concat as)) f" let ?f2 = "advance (length s) ?f1"
  have as: "\<forall>l\<in>set as. line_ok l \<and> (blank l \<or> \<not> begins l ?sect)" using i by (simp add: ini_ok_def)
  have s: "line_ok s" "begins s ?sect" using i by (simp_all add: ini_ok_def)
  then have nb: "\<not> blank s" by (cases s) (auto simp: begins_def blank_def)
  have "at (concat as @ s @ concat bs @ k @ concat cs) f" using at by (simp add: ini_file_def)
  note sk = read_sections_skip [OF this as]
  note g = fgets_line [OF sk(3) s(1)]
  have bs: "\<forall>l\<in>set bs. line_ok l \<and> hd l \<noteq> CHR ''['' \<and> \<not> begins l key" using i by (simp add: ini_ok_def)
  note kk = read_keys_skip [OF g(2) bs]
  have f': "f' = advance (length (concat bs)) ?f2" by (simp add: f'_def add.assoc)
  show "at (k @ concat cs) f'" using kk f' by simp
  have nf: "\<not> feof ?f1" using sk(3) by (rule at_feof)
  show "read_sections ?sect key val f = rbind (read_keys key val False f') (\<lambda>(v, k). Inr (v, True, k))"
    unfolding sk(1) f' using nf g(1) s nb kk
    by (subst read_sections.simps) (simp add: Let_def starts_with_line skipped_line)
  show "write_sections ?sect key w f = (let (f'', k) = write_keys key w f' in (f'', True, k))"
    unfolding sk(2) f' using nf g(1) s nb kk
    by (subst write_sections.simps) (simp add: Let_def starts_with_line skipped_line)
qed

lemma section_tag_ok: "ini_ok section key as s bs cs \<Longrightarrow> section_tag section = Inr (''['' @ section @ '']'')"
  by (simp add: section_tag_def ini_ok_def Let_def)

lemma read_value:
  assumes i: "ini_ok section key as s bs cs" and k: "key_line_ok key mid v t"
  shows "readStringValue (Some section) (Some key) (Some (replicate 256 NUL)) (Some (Some (ini_file as s bs (key_line key mid v t) cs)))
    = Inr (READ_STR_OK, Some ((v @ t) @ replicate (256 - length (v @ t)) NUL), [])"
proof -
  let ?k = "key_line key mid v t"
  let ?f = "advance (length (concat (as @ [s] @ bs))) (fopen (ini_file as s bs ?k cs))"
  let ?v = "(v @ t) @ replicate (256 - length (v @ t)) NUL"
  note r = reach_key(1) [OF i at_fopen, where k = ?k and val = "replicate 256 NUL"]
  note r3 = reach_key(3) [OF i at_fopen, where k = ?k]
  note g = fgets_line [OF r3 key_line_line [OF k]]
  have "read_keys key ?v True (advance (length ?k) ?f) = Inr (?v, True)"
    using i k by (intro read_keys_rest [OF g(2)]) (auto simp: ini_ok_def key_line_ok_def)
  then have "read_keys key (replicate 256 NUL) False ?f = Inr (?v, True)"
    using at_feof [OF r3] g(1) key_line_scan(1,2,5) [OF k] store_value_line [OF k]
    by (subst read_keys.simps) (simp add: Let_def)
  then show ?thesis using r section_tag_ok [OF i]
    by (simp add: readStringValue_def IniReadValue_def)
qed

lemma write_value:
  assumes i: "ini_ok section key as s bs cs" and k: "key_line_ok key mid v t"
    and len: "length key + length val + 2 < 256"
  defines "w \<equiv> key @ ''='' @ val @ [NL]"
  shows "writeStringVlaue (Some section) (Some key) (Some val) (Some (Some (ini_file as s bs (key_line key mid v t) cs)))
    = Inr (None, Some (Some (concat (as @ [s] @ bs) @ w @ drop (length w) (key_line key mid v t @ concat cs))), [Wrote])"
proof -
  let ?k = "key_line key mid v t" let ?pre = "concat (as @ [s] @ bs)"
  let ?f = "advance (length ?pre) (fopen (ini_file as s bs ?k cs))"
  note r = reach_key(2) [OF i at_fopen, where k = ?k and w = w]
  note r3 = reach_key(3) [OF i at_fopen, where k = ?k]
  note g = fgets_line [OF r3 key_line_line [OF k]]
  have sl: "strlen (line_buf ?k) = length ?k" using cstr_line [OF key_line_line [OF k]] by (simp add: strlen_def)
  have "fseek_cur (- int (length ?k)) (advance (length ?k) ?f) = ?f"
    using at_feof [OF r3] by (simp add: fseek_cur_def advance_def fopen_def)
  then have "write_keys key w ?f = (fputs w ?f, True)"
    using at_feof [OF r3] g(1) key_line_scan(5) [OF k] sl
    by (subst write_keys.simps) (simp add: Let_def)
  moreover have "bytes (fputs w ?f) = ?pre @ w @ drop (length w) (?k @ concat cs)"
  proof -
    have "bytes ?f = ?pre @ ?k @ concat cs" "fpos ?f = length ?pre"
      by (simp_all add: advance_def fopen_def ini_file_def)
    then show ?thesis by (simp add: fputs_def)
  qed
  ultimately show ?thesis using r section_tag_ok [OF i] len
    by (simp add: writeStringVlaue_def IniWriteValue_def w_def [symmetric] Let_def) (simp add: w_def)
qed

section \<open>Decimal numbers\<close>

lemma digit_not_space: "is_digit c \<Longrightarrow> \<not> is_space c \<and> c \<noteq> CHR ''-'' \<and> c \<noteq> CHR ''+'' \<and> \<not> line_end c"
  by (auto simp: is_digit_def is_space_def line_end_def)

lemma atoi_decimal:
  assumes "cstr b = decimal n @ r" and "r = [] \<or> \<not> is_digit (hd r)" and "-(2 ^ 31) \<le> n" "n < 2 ^ 31"
  shows "atoi b = Some n"
proof (cases "n < 0")
  case True
  then show ?thesis using assms digits_value_append [OF assms(2), of "nat (- n)"]
    by (simp add: atoi_def decimal_def is_space_def)
next
  case False
  obtain c cs where c: "digits_of (nat n) = c # cs" using digits_of_nonempty by (cases "digits_of (nat n)") auto
  then have "is_digit c" using digits_of_digit [of c "nat n"] by simp
  then show ?thesis using False c assms digits_value_append [OF assms(2), of "nat n"] digit_not_space [of c]
    by (simp add: atoi_def decimal_def)
qed

lemma padded4_length: "-999 \<le> n \<Longrightarrow> n \<le> 9999 \<Longrightarrow> length (padded4 n) = 4"
  using length_digits_of [of "nat n" 4] length_digits_of [of "nat (- n)" 3]
  by (auto simp: padded4_def decimal_def Let_def nat_less_iff)

lemma padded4_chars: "c \<in> set (padded4 n) \<Longrightarrow> \<not> line_end c"
  using digits_of_digit digit_not_space by (auto simp: padded4_def decimal_def Let_def line_end_def split: if_splits)

lemma atoi_padded4:
  assumes "cstr b = padded4 n @ [NL]" and "-999 \<le> n" "n \<le> 9999"
  shows "atoi b = Some n"
proof -
  have "cstr b = decimal n @ (replicate (4 - length (decimal n)) CHR '' '' @ [NL])"
    using assms(1) by (simp add: padded4_def Let_def)
  then show ?thesis
    by (rule atoi_decimal) (use assms(2,3) in \<open>auto simp: is_digit_def hd_append hd_replicate\<close>)
qed

section \<open>Properties\<close>

text \<open>Reading a key of a well-formed file. The value found is the text behind the equals sign of
  the first line of the section that starts with the key, \<^emph>\<open>with its line end\<close>: the loop meant to cut
  the line end off looks at the line buffer, whose line end lies further to the right, and never
  fires.\<close>

theorem ini_read_keeps_line_end:
  assumes "ini_ok section key as s bs cs" and "key_line_ok key mid v t"
  shows "\<exists>val. readStringValue (Some section) (Some key) (Some (replicate 256 NUL))
      (Some (Some (ini_file as s bs (key_line key mid v t) cs))) = Inr (READ_STR_OK, Some val, [])
    \<and> cstr val = v @ t"
proof -
  have f: "length (v @ t) < 256" "NUL \<notin> set (v @ t)"
    using key_line_facts(1,4,7) [OF assms(2)] by (auto simp: key_line_def)
  then have "cstr ((v @ t) @ replicate (256 - length (v @ t)) NUL) = v @ t"
    unfolding pad_NUL [OF f(1)] by (intro cstr_append)
  then show ?thesis using read_value [OF assms] by blast
qed

lemma ini_read_keeps_line_end_witness:
  "\<exists>val. readStringValue (Some ''net'') (Some ''port'') (Some (replicate 256 NUL))
      (Some (Some (''# net'' @ [NL] @ ''[net]'' @ [NL] @ ''ip=1.2.3.4'' @ [NL] @ ''port = 80'' @ [CR, NL] @ ''[x]'' @ [NL]))) = Inr (0, Some val, [])
    \<and> cstr val = '' 80'' @ [CR, NL]"
proof -
  have l: "line_ok (''# net'' @ [NL])" "line_ok (''[net]'' @ [NL])" "line_ok (''ip=1.2.3.4'' @ [NL])" "line_ok (''[x]'' @ [NL])"
    unfolding line_ok_def by (rule conjI, (rule exI, rule conjI, rule refl, simp), simp)+
  have i: "ini_ok ''net'' ''port'' [''# net'' @ [NL]] (''[net]'' @ [NL]) [''ip=1.2.3.4'' @ [NL]] [''[x]'' @ [NL]]"
    using l by (simp add: ini_ok_def begins_def)
  have k: "key_line_ok ''port'' '' '' '' 80'' [CR, NL]"
    by (simp add: key_line_ok_def key_line_def line_end_def)
  show ?thesis using ini_read_keeps_line_end [OF i k] by (simp add: ini_file_def key_line_def READ_STR_OK_def)
qed

text \<open>Writing a key of a well-formed file replaces exactly as many bytes as the new line has, from
  the start of the key's old line on: when the new line is as long as the old one, the file is the old
  file with that line replaced; a shorter one leaves the tail of the old line behind it, a longer one
  runs over the lines that follow.\<close>

theorem ini_write_in_place:
  assumes "ini_ok section key as s bs cs" and "key_line_ok key mid v t" and "length key + length val + 2 < 256"
  shows "\<exists>c. writeStringVlaue (Some section) (Some key) (Some val) (Some (Some (ini_file as s bs (key_line key mid v t) cs)))
      = Inr (None, Some (Some c), [Wrote])
    \<and> c = concat (as @ [s] @ bs) @ (key @ ''='' @ val @ [NL])
        @ drop (length key + length val + 2) (key_line key mid v t @ concat cs)
    \<and> (length val + 2 = length mid + length v + length t + 1 \<longrightarrow> c = ini_file as s bs (key_line key [] val [NL]) cs)"
  using write_value [OF assms] by (auto simp: ini_file_def key_line_def)

lemma ini_write_in_place_witness:
  "\<exists>c. writeStringVlaue (Some ''net'') (Some ''port'') (Some ''8'') (Some (Some (''[net]'' @ [NL] @ ''port=80'' @ [NL])))
      = Inr (None, Some (Some c), [Wrote]) \<and> c = ''[net]'' @ [NL] @ ''port=8'' @ [NL] @ [NL]"
proof -
  have l: "line_ok (''[net]'' @ [NL])"
    unfolding line_ok_def by (rule conjI, (rule exI, rule conjI, rule refl, simp), simp)
  have i: "ini_ok ''net'' ''port'' [] (''[net]'' @ [NL]) [] []"
    using l by (simp add: ini_ok_def begins_def)
  have k: "key_line_ok ''port'' [] ''80'' [NL]"
    by (simp add: key_line_ok_def key_line_def line_end_def)
  show ?thesis using ini_write_in_place [OF i k, of "''8''"] by (simp add: ini_file_def key_line_def)
qed

text \<open>C15: an integer from -999 to 9999 written with \<open>writeIntValue\<close> over a value field of four
  characters is what \<open>readIntValue\<close> then reads, and the rest of the file is as it was.\<close>

theorem ini_int_roundtrip:
  assumes i: "ini_ok section key as s bs cs" and k: "key_line_ok key [] v [NL]" and v: "length v = 4"
    and n: "-999 \<le> n" "n \<le> 9999"
  shows "\<exists>c. writeIntValue (Some section) (Some key) n (Some (Some (ini_file as s bs (key_line key [] v [NL]) cs)))
      = Inr (Some (Some c), [Wrote])
    \<and> c = ini_file as s bs (key_line key [] (padded4 n) [NL]) cs
    \<and> readIntValue (Some section) (Some key) (Some (Some c)) = Inr (Some n, [])"
proof -
  note f = key_line_facts [OF k]
  have l4: "length (padded4 n) = 4" using padded4_length [OF n] .
  have k': "key_line_ok key [] (padded4 n) [NL]"
    using f padded4_chars [of _ n] l4 v unfolding key_line_ok_def by (auto simp: key_line_def)
  have len: "length key + length (padded4 n) + 2 < 256" using f(4) l4 v by (simp add: key_line_def)
  have b: "length (padded4 n @ [NL]) < 256" "NUL \<notin> set (padded4 n @ [NL])"
    using l4 padded4_chars [of NUL n] by (auto simp: line_end_def)
  have "cstr ((padded4 n @ [NL]) @ replicate (256 - length (padded4 n @ [NL])) NUL) = padded4 n @ [NL]"
    unfolding pad_NUL [OF b(1)] using b(2) by (rule cstr_append)
  then have "atoi ((padded4 n @ [NL]) @ replicate (256 - length (padded4 n @ [NL])) NUL) = Some n"
    using n by (rule atoi_padded4)
  then have "readIntValue (Some section) (Some key) (Some (Some (ini_file as s bs (key_line key [] (padded4 n) [NL]) cs)))
      = Inr (Some n, [])"
    using read_value [OF i k'] by (simp add: readIntValue_def)
  moreover have "writeIntValue (Some section) (Some key) n (Some (Some (ini_file as s bs (key_line key [] v [NL]) cs)))
      = Inr (Some (Some (ini_file as s bs (key_line key [] (padded4 n) [NL]) cs)), [Wrote])"
    using write_value [OF i k len] l4 v by (simp add: writeIntValue_def ini_file_def key_line_def)
  ultimately show ?thesis by blast
qed

lemma ini_int_roundtrip_witness:
  "\<exists>c. writeIntValue (Some ''net'') (Some ''port'') (-7) (Some (Some (''[net]'' @ [NL] @ ''port=8080'' @ [NL])))
      = Inr (Some (Some c), [Wrote]) \<and> readIntValue (Some ''net'') (Some ''port'') (Some (Some c)) = Inr (Some (-7), [])"
proof -
  have l: "line_ok (''[net]'' @ [NL])"
    unfolding line_ok_def by (rule conjI, (rule exI, rule conjI, rule refl, simp), simp)
  have i: "ini_ok ''net'' ''port'' [] (''[net]'' @ [NL]) [] []"
    using l by (simp add: ini_ok_def begins_def)
  have k: "key_line_ok ''port'' [] ''8080'' [NL]"
    by (simp add: key_line_ok_def key_line_def line_end_def)
  show ?thesis using ini_int_roundtrip [OF i k, of "-7"] by (auto simp: ini_file_def key_line_def)
qed

end
