(* ===== verification/UserList.thy ===== *)
theory UserList
  imports Prelude
begin

text \<open>
  The list of online users of the chat server, \<^verbatim>\<open>list.c\<close> and \<^verbatim>\<open>config.c\<close> of
  \<^verbatim>\<open>src/socket_test/ChatRome -- select/server\<close>: a NULL-terminated linked list on a node heap, with
  users compared by name. The character arrays of a user are kept as their bytes; a string read runs
  up to the terminator, and off the array when there is none. Loops take fuel (\<open>NoFuel\<close> when it runs
  out); for a list of \<open>n\<close> users fuel \<open>n\<close> is enough.
\<close>

record User =
  userName :: "char list"
  password :: "char list"
  userAddr :: nat
  sockfd :: int
  speak :: int
  registerTime :: "char list"

record ListNode =
  user :: User
  next_node :: ptr

text \<open>The arrays are 20 bytes; \<open>calloc\<close> and \<open>memset\<close> clear a user to this.\<close>

definition zero_user :: User where
  "zero_user = \<lparr>userName = replicate 20 NUL, password = replicate 20 NUL, userAddr = 0, sockfd = 0,
     speak = 0, registerTime = replicate 20 NUL\<rparr>"

section \<open>Operations\<close>

text \<open>
  \<open>copyUser(user1, user2)\<close> gives the new \<open>*user1\<close>. Its last \<open>strcpy\<close> copies \<open>user2->registerTime\<close> onto
  itself: it reads that string and leaves \<open>user1->registerTime\<close> as it was.
\<close>

definition copyUser :: "User \<Rightarrow> User \<Rightarrow> User res" where
  "copyUser user1 user2 =
     rbind (get_str (userName user2)) (\<lambda>s. rbind (strcpy_block s (userName user1)) (\<lambda>nm.
     rbind (get_str (password user2)) (\<lambda>s. rbind (strcpy_block s (password user1)) (\<lambda>pw.
     rbind (get_str (registerTime user2)) (\<lambda>_.
     Inr (user1\<lparr>userName := nm, password := pw, userAddr := userAddr user2, sockfd := sockfd user2,
       speak := speak user2\<rparr>))))))"

fun last_node :: "nat \<Rightarrow> ListNode heap \<Rightarrow> ptr \<Rightarrow> ptr res" where
  "last_node 0 h p = Inl NoFuel"
| "last_node (Suc k) h p =
     rbind (load h p) (\<lambda>n. if next_node n = None then Inr p else last_node k h (next_node n))"

definition insertNode :: "nat \<Rightarrow> ptr \<Rightarrow> User \<Rightarrow> ListNode heap \<Rightarrow> (ptr \<times> ListNode heap) res" where
  "insertNode k list u h =
     (let (node, h) = malloc \<lparr>user = zero_user, next_node = None\<rparr> h in
      rbind (load h node) (\<lambda>n.
      rbind (copyUser (user n) u) (\<lambda>v.
      rbind (store h node (user_update (\<lambda>_. v))) (\<lambda>h.
      rbind (store h node (next_node_update (\<lambda>_. None))) (\<lambda>h.
      if list = None then Inr (node, h)
      else rbind (last_node k h list) (\<lambda>p.
        rbind (store h p (next_node_update (\<lambda>_. node))) (\<lambda>h. Inr (list, h))))))))"

text \<open>The search loop shared by \<open>isOnLine\<close> and \<open>deleteNode\<close>: the last node passed and the node found.\<close>

fun find_user :: "nat \<Rightarrow> ListNode heap \<Rightarrow> ptr \<Rightarrow> ptr \<Rightarrow> char list \<Rightarrow> (ptr \<times> ptr) res" where
  "find_user k h pre None name = Inr (pre, None)"
| "find_user 0 h pre (Some a) name = Inl NoFuel"
| "find_user (Suc k) h pre (Some a) name =
     rbind (load h (Some a)) (\<lambda>n. rbind (str_eq (userName (user n)) name) (\<lambda>eq.
     if eq then Inr (pre, Some a) else find_user k h (Some a) (next_node n) name))"

definition isOnLine :: "nat \<Rightarrow> ptr \<Rightarrow> User \<Rightarrow> ListNode heap \<Rightarrow> bool res" where
  "isOnLine k list u h = rbind (find_user k h list list (userName u)) (\<lambda>(pre, p). Inr (p \<noteq> None))"

text \<open>\<open>list\<close> is passed by value: the caller's pointer is not changed.\<close>

definition deleteNode :: "nat \<Rightarrow> ptr \<Rightarrow> User \<Rightarrow> ListNode heap \<Rightarrow> ListNode heap res" where
  "deleteNode k list u h =
     (if list = None then Inr h
      else rbind (find_user k h list list (userName u)) (\<lambda>(pre, p).
        if p = None then Inr h
        else if p = list then rbind (load h list) (\<lambda>_. c_free h p)
        else rbind (load h p) (\<lambda>n.
          if next_node n = None then rbind (store h pre (next_node_update (\<lambda>_. None))) (\<lambda>h. c_free h p)
          else rbind (store h pre (next_node_update (\<lambda>_. next_node n))) (\<lambda>h. c_free h p))))"

text \<open>What \<open>displayList\<close> prints.\<close>

fun display_from :: "nat \<Rightarrow> ListNode heap \<Rightarrow> ptr \<Rightarrow> char list res" where
  "display_from 0 h p = Inl NoFuel"
| "display_from (Suc k) h p =
     rbind (load h p) (\<lambda>n. rbind (get_str (userName (user n))) (\<lambda>s.
     if next_node n \<noteq> None then rbind (display_from k h (next_node n)) (\<lambda>r. Inr (s @ '' --> '' @ r))
     else Inr (s @ [CHR 0x0A])))"

definition displayList :: "nat \<Rightarrow> ListNode heap \<Rightarrow> ptr \<Rightarrow> char list res" where
  "displayList k h list = (if list = None then Inr [] else display_from k h list)"

section \<open>The users a list holds\<close>

definition user_ok :: "User \<Rightarrow> bool" where
  "user_ok u \<longleftrightarrow> length (userName u) = 20 \<and> length (password u) = 20 \<and> length (registerTime u) = 20
     \<and> NUL \<in> set (userName u) \<and> NUL \<in> set (password u) \<and> NUL \<in> set (registerTime u)"

definition uname :: "User \<Rightarrow> char list" where
  "uname u = cstr (userName u)"

definition unext :: "ListNode heap \<Rightarrow> addr \<rightharpoonup> ptr" where
  "unext h a = map_option next_node (cells h a)"

definition user_at :: "ListNode heap \<Rightarrow> addr \<rightharpoonup> User" where
  "user_at h a = map_option user (cells h a)"

text \<open>The list at \<open>p\<close> has the nodes \<open>as\<close>, and they hold the users \<open>us\<close>.\<close>

definition ulist :: "ListNode heap \<Rightarrow> ptr \<Rightarrow> addr list \<Rightarrow> User list \<Rightarrow> bool" where
  "ulist h p as us \<longleftrightarrow> heap_ok h \<and> path (unext h) p as None \<and> distinct as
     \<and> map (user_at h) as = map Some us \<and> (\<forall>u\<in>set us. user_ok u)"

lemma unext_Some: "unext h a = Some r \<longleftrightarrow> (\<exists>n. cells h a = Some n \<and> next_node n = r)"
  by (simp add: unext_def)

lemma ulist_Cons:
  "ulist h p (a # as) (u # us) \<longleftrightarrow> p = Some a \<and> a \<notin> set as \<and> user_ok u
     \<and> (\<exists>n. cells h a = Some n \<and> user n = u \<and> ulist h (next_node n) as us)"
  by (auto simp: ulist_def unext_Some user_at_def)

lemma ulist_Nil [simp]: "ulist h p [] us \<longleftrightarrow> heap_ok h \<and> p = None \<and> us = []"
  by (auto simp: ulist_def)

lemma ulist_length: "ulist h p as us \<Longrightarrow> length as = length us"
  unfolding ulist_def by (metis length_map)

lemma ulist_ok: "ulist h p as us \<Longrightarrow> u \<in> set us \<Longrightarrow> user_ok u"
  by (simp add: ulist_def)

text \<open>Induction along the list: its nodes one by one.\<close>

lemma ulist_cases [consumes 1, case_names Nil Cons]:
  assumes "ulist h p as us"
  obtains "p = None" "as = []" "us = []"
    | a as' u us' n where "p = Some a" "as = a # as'" "us = u # us'" "cells h a = Some n" "user n = u" "user_ok u"
      "a \<notin> set as'" "ulist h (next_node n) as' us'"
proof (cases as)
  case Nil
  then show ?thesis using assms that(1) by simp
next
  case (Cons a as')
  then obtain u us' where "us = u # us'" using ulist_length [OF assms] by (cases us) auto
  then show ?thesis using assms Cons that(2) by (auto simp: ulist_Cons)
qed

section \<open>Searching\<close>

lemma find_user_none:
  assumes "ulist h p as us" and "\<forall>u\<in>set us. uname u \<noteq> cstr name" and "NUL \<in> set name" and "length us \<le> k"
  shows "\<exists>q. find_user k h pre p name = Inr (q, None)"
  using assms
proof (induction k arbitrary: pre p as us)
  case 0
  then show ?case by (auto elim: ulist_cases)
next
  case (Suc k)
  from Suc.prems(1) show ?case
  proof (cases rule: ulist_cases)
    case (Cons a as' u us' n)
    then show ?thesis using Suc.IH [of "next_node n" as' us' "Some a"] Suc.prems(2-4)
      by (simp add: user_ok_def uname_def)
  qed simp
qed

lemma find_user_hit:
  assumes "ulist h p (xs @ a # ys) (us1 @ u # us2)" and "length xs = length us1"
    and "\<forall>v\<in>set us1. uname v \<noteq> cstr name" and "uname u = cstr name" and "NUL \<in> set name" and "length us1 < k"
  shows "find_user k h pre p name = Inr (last (pre # map Some xs), Some a)"
  using assms
proof (induction k arbitrary: pre p xs us1)
  case (Suc k)
  show ?case
  proof (cases xs)
    case Nil
    then show ?thesis using Suc.prems by (auto simp: ulist_Cons user_ok_def uname_def)
  next
    case (Cons b bs)
    then obtain v vs where v: "us1 = v # vs" using Suc.prems(2) by (cases us1) auto
    obtain n where n: "p = Some b" "user_ok v" "cells h b = Some n" "user n = v"
      "ulist h (next_node n) (bs @ a # ys) (vs @ u # us2)"
      using Suc.prems(1) Cons v by (auto simp: ulist_Cons)
    have "find_user k h (Some b) (next_node n) name = Inr (last (Some b # map Some bs), Some a)"
      using Suc.IH [OF n(5), of "Some b"] Suc.prems Cons v by simp
    then show ?thesis using n Suc.prems(3,5) Cons v by (simp add: user_ok_def uname_def)
  qed
qed simp

lemma isOnLine_ulist:
  assumes "ulist h p as us" and "NUL \<in> set (userName v)" and "length us \<le> k"
  shows "isOnLine k p v h = Inr (\<exists>u\<in>set us. uname u = uname v)"
proof (cases "\<exists>u\<in>set us. uname u = uname v")
  case False
  then show ?thesis using find_user_none [OF assms(1), of "userName v" k p] assms(2,3)
    by (auto simp: isOnLine_def uname_def)
next
  case True
  then obtain us1 u us2 where us: "us = us1 @ u # us2" "uname u = uname v" "\<forall>w\<in>set us1. uname w \<noteq> uname v"
    using split_list_first_prop [of us "\<lambda>u. uname u = uname v"] by blast
  define xs where "xs = take (length us1) as"
  have "length us1 < length as" using ulist_length [OF assms(1)] us(1) by simp
  then have as: "as = xs @ as ! length us1 # drop (Suc (length us1)) as" "length xs = length us1"
    unfolding xs_def by (simp_all add: id_take_nth_drop)
  have "find_user k h p p (userName v) = Inr (last (p # map Some xs), Some (as ! length us1))"
    by (rule find_user_hit [of h p xs _ "drop (Suc (length us1)) as" us1 u us2])
      (use assms us as in \<open>auto simp: uname_def\<close>)
  then show ?thesis using us by (auto simp: isOnLine_def)
qed

section \<open>Inserting\<close>

definition copied :: "User \<Rightarrow> User" where
  "copied v = zero_user\<lparr>userName := uname v @ replicate (20 - length (uname v)) NUL,
     password := cstr (password v) @ replicate (20 - length (cstr (password v))) NUL,
     userAddr := userAddr v, sockfd := sockfd v, speak := speak v\<rparr>"

lemma strcpy_zeros: "length s < n \<Longrightarrow> strcpy_block s (replicate n NUL) = Inr (s @ replicate (n - length s) NUL)"
proof -
  assume l: "length s < n"
  then have "n - length s = Suc (n - Suc (length s))" by simp
  then have "replicate (n - length s) NUL = NUL # replicate (n - Suc (length s)) NUL" by simp
  then show ?thesis using l by (simp add: strcpy_block_def)
qed

lemma copyUser_zero: "user_ok v \<Longrightarrow> copyUser zero_user v = Inr (copied v)"
  using length_cstr [of "userName v"] length_cstr [of "password v"]
  by (auto simp: copyUser_def user_ok_def zero_user_def strcpy_zeros copied_def uname_def)

lemma cstr_pad [simp]: "NUL \<notin> set s \<Longrightarrow> cstr (s @ replicate m NUL) = s"
proof (cases m)
  case (Suc m')
  assume "NUL \<notin> set s"
  then show ?thesis using cstr_append [of s "replicate m' NUL"] Suc by simp
next
  case 0
  assume "NUL \<notin> set s"
  then show ?thesis using 0 by (simp add: cstr_def takeWhile_eq_all_conv) metis
qed

lemma copied_facts:
  assumes "user_ok v"
  shows "uname (copied v) = uname v" "sockfd (copied v) = sockfd v" "user_ok (copied v)"
    "cstr (password (copied v)) = cstr (password v)" "registerTime (copied v) = replicate 20 NUL"
  using assms length_cstr [of "userName v"] length_cstr [of "password v"]
  by (auto simp: copied_def uname_def user_ok_def zero_user_def)

lemma ulist_None_iff: "ulist h p as us \<Longrightarrow> p = None \<longleftrightarrow> as = []"
  by (cases as) (auto simp: ulist_def)

lemma last_node_ulist:
  assumes "ulist h p as us" and "as \<noteq> []" and "length us \<le> k"
  shows "last_node k h p = Inr (Some (last as))"
  using assms
proof (induction k arbitrary: p as us)
  case 0
  then show ?case using ulist_length [OF 0(1)] by auto
next
  case (Suc k)
  from Suc.prems(1) show ?case
  proof (cases rule: ulist_cases)
    case (Cons a as' u us' n)
    then show ?thesis using Suc.IH [of "next_node n" as' us'] Suc.prems(3) ulist_None_iff [OF Cons(8)]
      by auto
  qed (use Suc.prems in simp)
qed

lemma unext_upds [simp]:
  "unext (h\<lparr>cells := (cells h)(a \<mapsto> n)\<rparr>) = (unext h)(a \<mapsto> next_node n)"
  "unext (h\<lparr>cells := f, brk := b, avail := v\<rparr>) = unext (h\<lparr>cells := f\<rparr>)"
  "user_at (h\<lparr>cells := (cells h)(a \<mapsto> n)\<rparr>) = (user_at h)(a \<mapsto> user n)"
  "user_at (h\<lparr>cells := f, brk := b, avail := v\<rparr>) = user_at (h\<lparr>cells := f\<rparr>)"
  by (auto simp: unext_def user_at_def fun_eq_iff)

lemma insertNode_ulist:
  assumes l: "ulist h p as us" and v: "user_ok v" and av: "0 < avail h" and k: "length us \<le> k"
  defines "p' \<equiv> if p = None then Some (brk h) else p"
  shows "\<exists>h'. insertNode k p v h = Inr (p', h') \<and> ulist h' p' (as @ [brk h]) (us @ [copied v]) \<and> Suc (avail h') = avail h"
proof -
  let ?b = "brk h" and ?n = "\<lparr>user = copied v, next_node = None\<rparr>"
  let ?h1 = "h\<lparr>cells := (cells h)(?b \<mapsto> ?n), brk := Suc ?b, avail := avail h - 1\<rparr>"
  have ok: "heap_ok h" "path (unext h) p as None" "distinct as" "map (user_at h) as = map Some us"
    "\<forall>u\<in>set us. user_ok u" using l by (simp_all add: ulist_def)
  have live: "\<exists>n. cells h a = Some n" if "a \<in> set as" for a
    using path_dom [OF ok(2) that] by (auto simp: unext_Some)
  have fresh: "?b \<notin> set as" using live heap_ok_fresh [OF ok(1)] by force
  have "insertNode k p v h = (if p = None then Inr (Some ?b, ?h1)
      else rbind (last_node k ?h1 p) (\<lambda>q. rbind (store ?h1 q (next_node_update (\<lambda>_. Some ?b))) (\<lambda>h. Inr (p, h))))"
    using av copyUser_zero [OF v] by (simp add: insertNode_def malloc_def Let_def)
  then have ins: "insertNode k p v h = (if p = None then Inr (Some ?b, ?h1)
      else rbind (last_node k ?h1 p) (\<lambda>q. rbind (store ?h1 q (next_node_update (\<lambda>_. Some ?b))) (\<lambda>h. Inr (p, h))))" .
  have hok1: "heap_ok ?h1" using ok(1) by (auto simp: heap_ok_def less_Suc_eq)
  have users1: "map (user_at ?h1) (as @ [?b]) = map Some (us @ [copied v])"
    using ok(4) fresh by (auto simp: user_at_def)
  show ?thesis
  proof (cases "p = None")
    case True
    then have "as = []" "us = []" using ok(2) ok(4) by auto
    then have "ulist ?h1 (Some ?b) (as @ [?b]) (us @ [copied v])"
      using hok1 users1 copied_facts(3) [OF v] by (simp add: ulist_def unext_def)
    then show ?thesis using ins True av by (simp add: p'_def)
  next
    case False
    then have ne: "as \<noteq> []" using ok(2) by auto
    have "unext ?h1 a = unext h a" if "a \<in> set as" for a using that fresh by (auto simp: unext_def)
    then have "path (unext ?h1) p as None" using ok(2) path_cong [of as "unext ?h1" "unext h" p None] by auto
    then have "ulist ?h1 p as us" using hok1 ok users1 by (simp add: ulist_def)
    then have ln: "last_node k ?h1 p = Inr (Some (last as))" using ne k by (rule last_node_ulist)
    obtain n where n: "cells h (last as) = Some n" using live ne by force
    have lb: "last as \<noteq> ?b" using fresh ne by (metis last_in_set)
    let ?h2 = "?h1\<lparr>cells := (cells ?h1)(last as \<mapsto> n\<lparr>next_node := Some ?b\<rparr>)\<rparr>"
    have "insertNode k p v h = Inr (p, ?h2)" using ins False ln n lb by simp
    moreover have "unext ?h2 = (unext h)(last as \<mapsto> Some ?b, ?b \<mapsto> None)" using lb by (auto simp: unext_def)
    then have "path (unext ?h2) p (butlast as @ [last as, ?b]) None"
      using path_snoc_upd [of "unext h" p "butlast as" "last as" ?b] ok(2,3) fresh ne by simp
    then have "path (unext ?h2) p (as @ [?b]) None"
      using append_butlast_last_id [OF ne] by (metis append.assoc append_Cons append_Nil)
    moreover have "map (user_at ?h2) (as @ [?b]) = map Some (us @ [copied v])"
    proof -
      have "user_at ?h2 = user_at ?h1" using n lb by (auto simp: user_at_def)
      then show ?thesis using users1 by simp
    qed
    moreover have "heap_ok ?h2" using hok1 n lb by (auto simp: heap_ok_def)
    ultimately have "insertNode k p v h = Inr (p, ?h2) \<and> ulist ?h2 p (as @ [?b]) (us @ [copied v])"
      using ok fresh copied_facts(3) [OF v] by (auto simp: ulist_def)
    then show ?thesis using False av by (auto simp: p'_def)
  qed
qed

section \<open>Deleting\<close>

lemma deleteNode_absent:
  assumes "ulist h p as us" and "\<forall>u\<in>set us. uname u \<noteq> uname v" and "NUL \<in> set (userName v)" and "length us \<le> k"
  shows "deleteNode k p v h = Inr h"
  using find_user_none [OF assms(1), of "userName v" k p] assms(2-4)
  by (auto simp: deleteNode_def uname_def)

lemma split_at_first:
  assumes l: "ulist h p as us" and e: "\<exists>u\<in>set us. uname u = uname v"
  obtains xs a ys us1 u us2 where "as = xs @ a # ys" "us = us1 @ u # us2" "length xs = length us1"
    "uname u = uname v" "\<forall>w\<in>set us1. uname w \<noteq> uname v"
proof -
  obtain us1 u us2 where us: "us = us1 @ u # us2" "uname u = uname v" "\<forall>w\<in>set us1. uname w \<noteq> uname v"
    using split_list_first_prop [OF e] by blast
  have "length us1 < length as" using ulist_length [OF l] us(1) by simp
  then have "as = take (length us1) as @ as ! length us1 # drop (Suc (length us1)) as"
    "length (take (length us1) as) = length us1" by (simp_all add: id_take_nth_drop)
  then show ?thesis using that us by metis
qed

lemma deleteNode_head:
  assumes l: "ulist h p as (u # us)" and "uname u = uname v" and "NUL \<in> set (userName v)" and "0 < k"
  shows "\<exists>h'. deleteNode k p v h = Inr h' \<and> load h' p = Inl BadPointer"
proof -
  obtain a as' n where a: "p = Some a" "as = a # as'" "cells h a = Some n"
    using l by (cases as) (auto simp: ulist_Cons)
  have "find_user k h p p (userName v) = Inr (p, p)"
    using find_user_hit [of h p "[]" a as' "[]" u us "userName v" k p] l a assms(2-4) by (simp add: uname_def)
  then show ?thesis using a by (auto simp: deleteNode_def)
qed

lemma deleteNode_inner:
  assumes l: "ulist h p (xs @ a # ys) (us1 @ u # us2)" and len: "length xs = length us1" and ne: "us1 \<noteq> []"
    and v: "\<forall>w\<in>set us1. uname w \<noteq> uname v" "uname u = uname v" "NUL \<in> set (userName v)" and k: "length us1 < k"
  shows "\<exists>h'. deleteNode k p v h = Inr h' \<and> ulist h' p (xs @ ys) (us1 @ us2) \<and> avail h' = Suc (avail h)"
proof -
  have "xs \<noteq> []" using len ne by auto
  then have xs: "xs \<noteq> []" "xs = butlast xs @ [last xs]" by simp_all
  have ok: "heap_ok h" "path (unext h) p (xs @ a # ys) None" "distinct (xs @ a # ys)"
    "map (user_at h) (xs @ a # ys) = map Some (us1 @ u # us2)" "\<forall>u\<in>set (us1 @ u # us2). user_ok u"
    using l by (simp_all add: ulist_def)
  have f: "find_user k h p p (userName v) = Inr (Some (last xs), Some a)"
    using find_user_hit [OF l len, of "userName v" k p] v k xs(1) by (simp add: uname_def last_map)
  obtain n where n: "cells h a = Some n" using path_dom [OF ok(2), of a] by (auto simp: unext_Some)
  obtain m where m: "cells h (last xs) = Some m"
    using path_dom [OF ok(2), of "last xs"] xs(1) by (auto simp: unext_Some)
  have neq: "last xs \<noteq> a" using ok(3) xs(1) by auto
  have pa: "p \<noteq> Some a"
  proof
    assume "p = Some a"
    moreover obtain x xs' where "xs = x # xs'" using xs(1) by (cases xs) auto
    ultimately show False using ok(2,3) by auto
  qed
  have pn: "p \<noteq> None" using ok(2) by (cases xs) auto
  let ?h = "h\<lparr>cells := (cells h)(last xs \<mapsto> m\<lparr>next_node := next_node n\<rparr>, a := None), avail := Suc (avail h)\<rparr>"
  have "deleteNode k p v h = Inr ?h"
    using f n m neq pa pn by (auto simp: deleteNode_def)
  moreover have "ulist ?h p (xs @ ys) (us1 @ us2)"
  proof -
    have "unext ?h = (unext h)(last xs \<mapsto> next_node n, a := None)" by (auto simp: unext_def)
    moreover have e: "butlast xs @ last xs # a # ys = xs @ a # ys" using xs(2) by (metis append.assoc append_Cons append_Nil)
    have "path ((unext h)(last xs \<mapsto> next_node n, a := None)) p (butlast xs @ last xs # ys) None"
    proof (rule path_unlink)
      show "path (unext h) p (butlast xs @ last xs # a # ys) None" unfolding e by (rule ok(2))
      show "distinct (butlast xs @ last xs # a # ys)" unfolding e by (rule ok(3))
      show "unext h a = Some (next_node n)" using n by (simp add: unext_def)
    qed
    moreover have "butlast xs @ last xs # ys = xs @ ys" using xs(2) by (metis append.assoc append_Cons append_Nil)
    ultimately have "path (unext ?h) p (xs @ ys) None" by metis
    moreover have "user_at ?h b = user_at h b" if "b \<in> set (xs @ ys)" for b
      using that ok(3) m by (auto simp: user_at_def)
    moreover have "map (user_at h) xs = map Some us1" "map (user_at h) ys = map Some us2"
      using ok(4) len by (simp_all add: append_eq_append_conv)
    moreover have "heap_ok ?h" using ok(1) m by (auto simp: heap_ok_def)
    ultimately show ?thesis using ok(3,5) by (auto simp: ulist_def cong: map_cong)
  qed
  ultimately show ?thesis by auto
qed

section \<open>Display\<close>

fun shown :: "User list \<Rightarrow> char list" where
  "shown [] = []"
| "shown [u] = uname u @ [CHR 0x0A]"
| "shown (u # us) = uname u @ '' --> '' @ shown us"

lemma display_from_ulist:
  assumes "ulist h p as us" and "us \<noteq> []" and "length us \<le> k"
  shows "display_from k h p = Inr (shown us)"
  using assms
proof (induction k arbitrary: p as us)
  case (Suc k)
  from Suc.prems(1) show ?case
  proof (cases rule: ulist_cases)
    case (Cons a as' u us' n)
    have "next_node n = None \<longleftrightarrow> us' = []" using ulist_None_iff [OF Cons(8)] ulist_length [OF Cons(8)] by auto
    then show ?thesis using Suc.IH [OF Cons(8)] Suc.prems(3) Cons
      by (cases us') (auto simp: user_ok_def uname_def)
  qed (use Suc.prems in simp)
qed simp

lemma displayList_ulist:
  "ulist h p as us \<Longrightarrow> length us \<le> k \<Longrightarrow> displayList k h p = Inr (shown us)"
  using display_from_ulist [of h p as us k] ulist_None_iff [of h p as us] ulist_length [of h p as us]
  by (cases us) (auto simp: displayList_def)

section \<open>Properties\<close>

text \<open>Inserting a user puts a copy of it, with the same name and socket, at the end of the list and
  keeps the other users; afterwards exactly the users listed before and the new one are found online,
  and the list displays as its names in order. The copy's \<open>registerTime\<close> stays empty, because
  \<open>copyUser\<close> copies the source's field onto itself.\<close>

theorem user_insertion:
  assumes "ulist h p as us" and "user_ok v" and "0 < avail h" and "length us \<le> k"
  shows "\<exists>p' h' as' c. insertNode k p v h = Inr (p', h') \<and> ulist h' p' as' (us @ [c])
    \<and> uname c = uname v \<and> sockfd c = sockfd v \<and> registerTime c = replicate 20 NUL
    \<and> (p \<noteq> None \<longrightarrow> p' = p)
    \<and> (\<forall>w. NUL \<in> set (userName w) \<longrightarrow>
         isOnLine (Suc k) p' w h' = Inr (uname w = uname v \<or> (\<exists>u\<in>set us. uname u = uname w)))
    \<and> displayList (Suc k) h' p' = Inr (shown (us @ [c]))"
proof -
  let ?p = "if p = None then Some (brk h) else p"
  obtain h' where 1: "insertNode k p v h = Inr (?p, h')" "ulist h' ?p (as @ [brk h]) (us @ [copied v])"
    using insertNode_ulist [OF assms] by blast
  have "isOnLine (Suc k) ?p w h' = Inr (uname w = uname v \<or> (\<exists>u\<in>set us. uname u = uname w))"
    if "NUL \<in> set (userName w)" for w
    using isOnLine_ulist [OF 1(2) that, of "Suc k"] assms(4) copied_facts(1) [OF assms(2)] by auto
  moreover have "displayList (Suc k) h' ?p = Inr (shown (us @ [copied v]))"
    using displayList_ulist [OF 1(2)] assms(4) by simp
  ultimately show ?thesis using 1 copied_facts [OF assms(2)] by (intro exI [of _ ?p] exI) auto
qed

definition demo_user :: "char list \<Rightarrow> int \<Rightarrow> User" where
  "demo_user n fd = \<lparr>userName = n @ replicate (20 - length n) NUL, password = replicate 20 NUL, userAddr = 1,
     sockfd = fd, speak = 1, registerTime = ''now'' @ replicate 17 NUL\<rparr>"

definition demo_users :: "ListNode heap" where
  "demo_users = \<lparr>cells = [1 \<mapsto> \<lparr>user = demo_user ''ann'' 4, next_node = Some 2\<rparr>,
     2 \<mapsto> \<lparr>user = demo_user ''bob'' 5, next_node = None\<rparr>], brk = 3, avail = 9\<rparr>"

lemma user_ok_demo: "length n < 20 \<Longrightarrow> user_ok (demo_user n fd)"
  by (simp add: user_ok_def demo_user_def)

lemma demo_users_ulist: "ulist demo_users (Some 1) [1, 2] [demo_user ''ann'' 4, demo_user ''bob'' 5]"
  by (simp add: ulist_def demo_users_def heap_ok_def unext_def user_at_def user_ok_demo)

lemma uname_demo: "NUL \<notin> set n \<Longrightarrow> uname (demo_user n fd) = n" "NUL \<in> set (userName (demo_user n fd)) \<longleftrightarrow> NUL \<in> set n \<or> length n < 20"
  by (auto simp: uname_def demo_user_def)

lemma user_insertion_witness:
  "\<exists>p' h'. insertNode 2 (Some 1) (demo_user ''eve'' 6) demo_users = Inr (p', h')
    \<and> isOnLine 3 p' (demo_user ''eve'' 0) h' = Inr True \<and> isOnLine 3 p' (demo_user ''kim'' 0) h' = Inr False"
proof -
  have "0 < avail demo_users" by (simp add: demo_users_def)
  from user_insertion [OF demo_users_ulist user_ok_demo this, of "''eve''" 2 6]
  obtain p' h' where 1: "insertNode 2 (Some 1) (demo_user ''eve'' 6) demo_users = Inr (p', h')"
    "\<And>w. NUL \<in> set (userName w) \<Longrightarrow> isOnLine (Suc 2) p' w h'
      = Inr (uname w = uname (demo_user ''eve'' 6) \<or> (\<exists>u\<in>set [demo_user ''ann'' 4, demo_user ''bob'' 5]. uname u = uname w))"
    by auto
  show ?thesis using 1(1) 1(2) [of "demo_user ''eve'' 0"] 1(2) [of "demo_user ''kim'' 0"]
    by (simp add: uname_demo numeral_3_eq_3 numeral_2_eq_2)
qed

text \<open>C32: deleting a user by name. An absent user leaves the list alone; a user who is not the first is
  taken out and its node freed, the others keep their order. Deleting the \<^emph>\<open>first\<close> user frees the head
  node but cannot change the caller's pointer, so the caller's list dangles: the next look-up or display
  reads a freed node.\<close>

theorem user_deletion:
  assumes l: "ulist h p as (us1 @ u # us2)" and v: "\<forall>w\<in>set us1. uname w \<noteq> uname v" "uname u = uname v"
    and n: "NUL \<in> set (userName v)" and k: "length us1 < k"
  shows "\<exists>h'. deleteNode k p v h = Inr h'
    \<and> (if us1 = [] then isOnLine k p w h' = Inl BadPointer \<and> displayList k h' p = Inl BadPointer
       else \<exists>as'. ulist h' p as' (us1 @ us2) \<and> avail h' = Suc (avail h))
    \<and> (\<forall>z. NUL \<in> set (userName z) \<longrightarrow> length (us1 @ u # us2) \<le> k \<longrightarrow>
         (\<forall>w\<in>set (us1 @ u # us2). uname w \<noteq> uname z) \<longrightarrow> deleteNode k p z h = Inr h)"
proof -
  have absent: "\<forall>z. NUL \<in> set (userName z) \<longrightarrow> length (us1 @ u # us2) \<le> k \<longrightarrow>
      (\<forall>w\<in>set (us1 @ u # us2). uname w \<noteq> uname z) \<longrightarrow> deleteNode k p z h = Inr h"
    using deleteNode_absent [OF l] by blast
  show ?thesis
  proof (cases "us1 = []")
    case True
    obtain h' where h': "deleteNode k p v h = Inr h'" "load h' p = Inl BadPointer"
      using deleteNode_head [of h p as u us2 v k] l v n k True by auto
    then obtain a where "p = Some a" by (cases p) auto
    moreover obtain k' where "k = Suc k'" using k by (cases k) auto
    ultimately have "isOnLine k p w h' = Inl BadPointer" "displayList k h' p = Inl BadPointer"
      using h'(2) by (simp_all add: isOnLine_def displayList_def)
    then show ?thesis using h'(1) True absent by auto
  next
    case False
    have m: "\<exists>x\<in>set (us1 @ u # us2). uname x = uname v" using v(2) by auto
    have "length us1 < length as" using ulist_length [OF l] by simp
    then have "as = take (length us1) as @ as ! length us1 # drop (Suc (length us1)) as"
      "length (take (length us1) as) = length us1" by (simp_all add: id_take_nth_drop)
    then show ?thesis
      using deleteNode_inner [of h p "take (length us1) as" "as ! length us1" "drop (Suc (length us1)) as" us1 u us2 v k]
        l v n k False absent by auto
  qed
qed

lemma user_deletion_witness:
  "(\<exists>h' as'. deleteNode 3 (Some 1) (demo_user ''bob'' 0) demo_users = Inr h' \<and> ulist h' (Some 1) as' [demo_user ''ann'' 4])
    \<and> (\<exists>h'. deleteNode 3 (Some 1) (demo_user ''ann'' 0) demo_users = Inr h'
        \<and> isOnLine 3 (Some 1) (demo_user ''bob'' 0) h' = Inl BadPointer)"
  using user_deletion [of demo_users "Some 1" "[1, 2]" "[demo_user ''ann'' 4]" "demo_user ''bob'' 5" "[]" "demo_user ''bob'' 0" 3]
    user_deletion [of demo_users "Some 1" "[1, 2]" "[]" "demo_user ''ann'' 4" "[demo_user ''bob'' 5]" "demo_user ''ann'' 0" 3 "demo_user ''bob'' 0"]
    demo_users_ulist by (auto simp: uname_demo)

end
