(* ===== verification/ChatServer.thy ===== *)
theory ChatServer
  imports UserList Decimal
begin

text \<open>
  The request handlers of the chat server, \<^verbatim>\<open>login.c\<close>, \<^verbatim>\<open>register.c\<close>, \<^verbatim>\<open>chat.c\<close> and
  the per-connection thread of \<^verbatim>\<open>server.c\<close> under \<^verbatim>\<open>src/socket_test/ChatRome -- select/server\<close>,
  on the user list of theory UserList.

  \<^item> A message or user received is given as the structure the bytes hold; what is sent is recorded as
    the socket and the structure put into the (zeroed) send buffer, in order.
  \<^item> The SQLite library is a parameter (\<open>db\<close>): whether the database opens, which statements prepare,
    and what a query answers, which may depend on the statements executed before.
  \<^item> The handlers copy a whole receive buffer of 8192 bytes into a structure
    (\<open>memcpy(&message, buf, sizeof(buf))\<close>). Whether that fits is decided by the size of the structure,
    an argument of the handlers (\<open>msz\<close>, \<open>usz\<close>): with the real sizes it never does, with
    buffer-sized structures the rest of the handler runs.
\<close>

section \<open>Constants\<close>

abbreviation (input) REGISTER :: int where "REGISTER \<equiv> 1"
abbreviation (input) LOGIN :: int where "LOGIN \<equiv> 2"
abbreviation (input) HELP :: int where "HELP \<equiv> 3"
abbreviation (input) EXIT :: int where "EXIT \<equiv> 4"
abbreviation (input) VIEW_USER_LIST :: int where "VIEW_USER_LIST \<equiv> 5"
abbreviation (input) GROUP_CHAT :: int where "GROUP_CHAT \<equiv> 6"
abbreviation (input) PERSONAL_CHAT :: int where "PERSONAL_CHAT \<equiv> 7"
abbreviation (input) VIEW_RECORDS :: int where "VIEW_RECORDS \<equiv> 8"
abbreviation (input) RESULT :: int where "RESULT \<equiv> 9"
abbreviation (input) UNKONWN :: int where "UNKONWN \<equiv> 10"

abbreviation (input) EXCEED :: int where "EXCEED \<equiv> 0"
abbreviation (input) SUCCESS :: int where "SUCCESS \<equiv> 1"
abbreviation (input) FAILED :: int where "FAILED \<equiv> 2"
abbreviation (input) DUPLICATEID :: int where "DUPLICATEID \<equiv> 3"
abbreviation (input) INVALID :: int where "INVALID \<equiv> 4"
abbreviation (input) ID_NOT_EXIST :: int where "ID_NOT_EXIST \<equiv> 5"
abbreviation (input) WRONGPWD :: int where "WRONGPWD \<equiv> 6"
abbreviation (input) ALREADY_ONLINE :: int where "ALREADY_ONLINE \<equiv> 7"
abbreviation (input) ID_NOT_ONLINE :: int where "ID_NOT_ONLINE \<equiv> 8"
abbreviation (input) ALL_NOT_ONLINE :: int where "ALL_NOT_ONLINE \<equiv> 9"
abbreviation (input) MESSAGE_SELF :: int where "MESSAGE_SELF \<equiv> 10"

abbreviation MAX_LINE :: nat where "MAX_LINE \<equiv> 8192"

text \<open>\<open>sizeof(Message)\<close> and \<open>sizeof(User)\<close>.\<close>

definition sizeof_Message :: nat where
  "sizeof_Message = 2048 + 4 + 4 + 16 + 16 + 20 + 20 + 20"

definition sizeof_User :: nat where
  "sizeof_User = 20 + 20 + 16 + 4 + 4 + 20"

definition utf8 :: "nat list \<Rightarrow> char list" where
  "utf8 = map char_of"

text \<open>The texts are UTF-8 in the source.\<close>

definition stateMsg :: "int \<Rightarrow> char list" where
  "stateMsg ret =
    (if ret = EXCEED then utf8 [229, 183, 178, 232, 190, 190, 230, 156, 141, 229, 138, 161, 229, 153, 168, 233, 147, 190, 230,
       142, 165, 228, 184, 138, 233, 153, 144, 239, 188, 129, 10]
     else if ret = SUCCESS then utf8 [230, 147, 141, 228, 189, 156, 230, 136, 144, 229, 138, 159, 239, 188, 129, 10]
     else if ret = FAILED then utf8 [230, 147, 141, 228, 189, 156, 229, 164, 177, 232, 180, 165, 239, 188, 129, 10]
     else if ret = DUPLICATEID then utf8 [233, 135, 141, 229, 164, 141, 231, 154, 132, 231, 148, 168, 230, 136, 183, 229, 144, 141, 239,
       188, 129, 10]
     else if ret = INVALID then utf8 [228, 184, 141, 229, 144, 136, 230, 179, 149, 232, 190, 147, 229, 133, 165, 239, 188, 129, 10]
     else if ret = ID_NOT_EXIST then utf8 [232, 180, 166, 229, 143, 183, 228, 184, 141, 229, 173, 152, 229, 156, 168, 239, 188, 129, 10]
     else if ret = WRONGPWD then utf8 [229, 175, 134, 231, 160, 129, 233, 148, 153, 232, 175, 175, 239, 188, 129, 10]
     else if ret = ALREADY_ONLINE then utf8 [232, 175, 165, 231, 148, 168, 230, 136, 183, 229, 183, 178, 229, 156, 168, 231, 186, 191, 239,
       188, 129, 10]
     else if ret = ID_NOT_ONLINE then utf8 [232, 175, 165, 231, 148, 168, 230, 136, 183, 228, 184, 141, 229, 156, 168, 231, 186, 191, 239,
       188, 129, 10]
     else if ret = ALL_NOT_ONLINE then utf8 [230, 151, 160, 228, 186, 186, 229, 156, 168, 231, 186, 191, 239, 188, 129, 10]
     else if ret = MESSAGE_SELF then utf8 [228, 184, 141, 232, 131, 189, 231, 187, 153, 232, 135, 170, 229, 183, 177, 229, 143, 145, 233,
       128, 129, 230, 182, 136, 230, 129, 175, 10]
     else utf8 [230, 156, 170, 231, 159, 165, 230, 147, 141, 228, 189, 156, 231, 187, 147, 230, 158, 156, 239,
       188, 129, 10])"

section \<open>State\<close>

record Message =
  content :: "char list"
  msgType :: int
  msgRet :: int
  sendAddr :: nat
  recvAddr :: nat
  sendName :: "char list"
  recvName :: "char list"
  msgTime :: "char list"

definition zero_message :: Message where
  "zero_message = \<lparr>content = replicate 2048 NUL, msgType = 0, msgRet = 0, sendAddr = 0, recvAddr = 0,
     sendName = replicate 20 NUL, recvName = replicate 20 NUL, msgTime = replicate 20 NUL\<rparr>"

record server =
  users_ptr :: ptr
  uheap :: "ListNode heap"
  sends :: "(int \<times> Message) list"
  executed :: "char list list"
  closed :: "int list"

record db =
  db_open :: bool
  db_prepare :: "char list \<Rightarrow> bool"
  db_row :: "char list list \<Rightarrow> char list \<Rightarrow> bool"
  db_table :: "char list list \<Rightarrow> char list \<Rightarrow> (nat \<times> nat \<times> char list list) option"

definition send_msg :: "int \<Rightarrow> Message \<Rightarrow> server \<Rightarrow> server" where
  "send_msg fd m st = st\<lparr>sends := sends st @ [(fd, m)]\<rparr>"

definition close_fd :: "int \<Rightarrow> server \<Rightarrow> server" where
  "close_fd fd st = st\<lparr>closed := closed st @ [fd]\<rparr>"

text \<open>\<open>sprintf\<close> into an array of \<open>n\<close> bytes; \<open>memcpy\<close> of \<open>n\<close> bytes into an object of \<open>sz\<close> bytes.\<close>

definition sprintf_into :: "nat \<Rightarrow> char list \<Rightarrow> char list res" where
  "sprintf_into n s = (if length s < n then Inr s else Inl OutOfBounds)"

definition memcpy_into :: "nat \<Rightarrow> nat \<Rightarrow> unit res" where
  "memcpy_into sz n = (if n \<le> sz then Inr () else Inl OutOfBounds)"

definition set_content :: "char list \<Rightarrow> Message \<Rightarrow> Message res" where
  "set_content s m = rbind (strcpy_block s (content m)) (\<lambda>c. Inr (m\<lparr>content := c\<rparr>))"

section \<open>Chat requests\<close>

text \<open>The answer a handler starts from: names and type of the request.\<close>

definition start_reply :: "Message \<Rightarrow> Message res" where
  "start_reply msg =
     rbind (get_str (sendName msg)) (\<lambda>s. rbind (strcpy_block s (sendName zero_message)) (\<lambda>sn.
     rbind (get_str (recvName msg)) (\<lambda>s. rbind (strcpy_block s (recvName zero_message)) (\<lambda>rn.
     Inr (zero_message\<lparr>sendName := sn, recvName := rn, msgType := msgType msg\<rparr>)))))"

text \<open>A RESULT message with the text of \<open>ret\<close>.\<close>

definition send_result :: "int \<Rightarrow> Message \<Rightarrow> int \<Rightarrow> server \<Rightarrow> server res" where
  "send_result fd m ret st =
     rbind (set_content (stateMsg ret) (m\<lparr>msgType := RESULT\<rparr>)) (\<lambda>m. Inr (send_msg fd m st))"

text \<open>The insertion into the message table, into \<open>char sql[128]\<close>.\<close>

abbreviation QT :: "char list" where "QT \<equiv> [CHR 0x27]"

definition message_sql :: "Message \<Rightarrow> char list res" where
  "message_sql m =
     rbind (get_str (sendName m)) (\<lambda>sn. rbind (get_str (recvName m)) (\<lambda>rn.
     rbind (get_str (content m)) (\<lambda>c. rbind (get_str (msgTime m)) (\<lambda>t.
     sprintf_into 128 (''insert into Message(msgType , sendName , recvName , content , msgTime)''
       @ replicate 4 (CHR 0x09) @ ''values('' @ decimal (msgType m) @ '','' @ QT @ sn @ QT @ '','' @ QT @ rn @ QT
       @ '','' @ QT @ c @ QT @ '', '' @ QT @ t @ QT @ '');'')))))"

definition store_message :: "db \<Rightarrow> Message \<Rightarrow> server \<Rightarrow> (int \<times> server) res" where
  "store_message db m st =
     (if \<not> db_open db then Inr (FAILED, st)
      else rbind (message_sql m) (\<lambda>sql.
        if \<not> db_prepare db sql then Inr (FAILED, st)
        else Inr (SUCCESS, st\<lparr>executed := executed st @ [sql]\<rparr>)))"

fun broadcast :: "nat \<Rightarrow> ptr \<Rightarrow> Message \<Rightarrow> server \<Rightarrow> server res" where
  "broadcast k None m st = Inr st"
| "broadcast 0 (Some a) m st = Inl NoFuel"
| "broadcast (Suc k) (Some a) m st =
     rbind (load (uheap st) (Some a)) (\<lambda>n. rbind (str_eq (userName (user n)) (sendName m)) (\<lambda>eq.
     broadcast k (next_node n) m (if eq then st else send_msg (sockfd (user n)) m st)))"

definition groupChat :: "nat \<Rightarrow> db \<Rightarrow> Message \<Rightarrow> int \<Rightarrow> server \<Rightarrow> (int \<times> server) res" where
  "groupChat k db msg fd st =
     rbind (start_reply msg) (\<lambda>m.
     rbind (load (uheap st) (users_ptr st)) (\<lambda>n.
     if next_node n = None then
       rbind (send_result fd m ALL_NOT_ONLINE st) (\<lambda>st. Inr (ALL_NOT_ONLINE, st))
     else
       rbind (strcpy_block [] (recvName m)) (\<lambda>rn.
       rbind (get_str (content msg)) (\<lambda>c. rbind (set_content c (m\<lparr>recvName := rn\<rparr>)) (\<lambda>m.
       rbind (get_str (msgTime msg)) (\<lambda>t. rbind (strcpy_block t (msgTime m)) (\<lambda>mt.
       let m = m\<lparr>msgTime := mt\<rparr> in
       rbind (broadcast k (users_ptr st) m st) (store_message db m))))))))"

text \<open>The search loop of \<open>personalChat\<close>.\<close>

fun find_receiver :: "nat \<Rightarrow> ListNode heap \<Rightarrow> ptr \<Rightarrow> char list \<Rightarrow> ptr res" where
  "find_receiver k h None name = Inr None"
| "find_receiver 0 h (Some a) name = Inl NoFuel"
| "find_receiver (Suc k) h (Some a) name =
     rbind (load h (Some a)) (\<lambda>n. rbind (str_eq (userName (user n)) name) (\<lambda>eq.
     if eq then Inr (Some a) else find_receiver k h (next_node n) name))"

definition personalChat :: "nat \<Rightarrow> db \<Rightarrow> Message \<Rightarrow> int \<Rightarrow> server \<Rightarrow> (int \<times> server) res" where
  "personalChat k db msg fd st =
     rbind (start_reply msg) (\<lambda>m.
     rbind (str_eq (sendName msg) (recvName msg)) (\<lambda>self.
     if self then rbind (send_result fd m MESSAGE_SELF st) (\<lambda>st. Inr (MESSAGE_SELF, st))
     else rbind (find_receiver k (uheap st) (users_ptr st) (recvName msg)) (\<lambda>p.
       if p = None then rbind (send_result fd m ID_NOT_ONLINE st) (\<lambda>st. Inr (ID_NOT_ONLINE, st))
       else
         rbind (get_str (content msg)) (\<lambda>c. rbind (set_content c m) (\<lambda>m.
         rbind (get_str (msgTime msg)) (\<lambda>t. rbind (strcpy_block t (msgTime m)) (\<lambda>mt.
         let m = m\<lparr>msgTime := mt\<rparr> in
         rbind (load (uheap st) p) (\<lambda>n. store_message db m (send_msg (sockfd (user n)) m st)))))))))"

text \<open>The names of the online users, each behind a tab; \<open>strcat\<close> into the content of 2048 bytes.\<close>

fun list_names :: "nat \<Rightarrow> ListNode heap \<Rightarrow> ptr \<Rightarrow> char list \<Rightarrow> char list res" where
  "list_names k h None acc = Inr acc"
| "list_names 0 h (Some a) acc = Inl NoFuel"
| "list_names (Suc k) h (Some a) acc =
     rbind (load h (Some a)) (\<lambda>n. rbind (get_str (userName (user n))) (\<lambda>s.
     rbind (sprintf_into 2048 (acc @ CHR 0x09 # s)) (\<lambda>acc. list_names k h (next_node n) acc)))"

definition viewUserList :: "nat \<Rightarrow> Message \<Rightarrow> int \<Rightarrow> server \<Rightarrow> (int \<times> server) res" where
  "viewUserList k msg fd st =
     rbind (start_reply msg) (\<lambda>m.
     if users_ptr st = None then rbind (send_result fd m ALL_NOT_ONLINE st) (\<lambda>st. Inr (ALL_NOT_ONLINE, st))
     else rbind (list_names k (uheap st) (users_ptr st) []) (\<lambda>s.
       rbind (set_content s m) (\<lambda>m. Inr (SUCCESS, send_msg fd m st))))"

text \<open>The records of a query: \<open>tbl\<close> is the table \<open>sqlite3_get_table\<close> returns, row by row behind the
  row of column names.\<close>

fun records :: "char list list \<Rightarrow> nat \<Rightarrow> nat \<Rightarrow> nat \<Rightarrow> char list \<Rightarrow> char list res" where
  "records tbl nCol idx 0 acc = Inr acc"
| "records tbl nCol idx (Suc i) acc =
     (if idx + 4 < length tbl then
        rbind (sprintf_into MAX_LINE (tbl ! (idx + 1) @ [CHR 0x09] @ tbl ! (idx + 4) @ [CHR 0x0A, CHR 0x09]
           @ tbl ! (idx + 3) @ [CHR 0x0A, CHR 0x0A])) (\<lambda>r.
        rbind (sprintf_into 2048 (acc @ r)) (\<lambda>acc. records tbl nCol (idx + nCol) i acc))
      else Inl OutOfBounds)"

definition records_sql :: "char list \<Rightarrow> char list \<Rightarrow> char list res" where
  "records_sql sn rn = sprintf_into 128
     (if rn = [] then ''select * from Message where recvName='' @ QT @ rn @ QT @ '' order by msgTime;''
      else ''select * from Message where sendName='' @ QT @ sn @ QT @ '' and recvName='' @ QT @ rn @ QT
        @ '' or sendName='' @ QT @ rn @ QT @ '' and recvName='' @ QT @ sn @ QT @ '' order by msgTime;'')"

definition viewRecords :: "db \<Rightarrow> Message \<Rightarrow> int \<Rightarrow> server \<Rightarrow> (int \<times> server) res" where
  "viewRecords db msg fd st =
     rbind (get_str (sendName msg)) (\<lambda>sn. rbind (strcpy_block sn (sendName zero_message)) (\<lambda>snb.
     rbind (str_eq (recvName msg) (''all'' @ [NUL])) (\<lambda>all.
     rbind (if all then Inr [] else get_str (recvName msg)) (\<lambda>rn.
     rbind (strcpy_block rn (recvName zero_message)) (\<lambda>rnb.
     let m = zero_message\<lparr>sendName := snb, recvName := rnb, msgType := msgType msg\<rparr> in
     if \<not> db_open db then rbind (send_result fd m FAILED st) (\<lambda>st. Inr (FAILED, st))
     else rbind (records_sql sn rn) (\<lambda>sql.
       case db_table db (executed st) sql of
         None \<Rightarrow> rbind (send_result fd m FAILED st) (\<lambda>st. Inr (FAILED, st))
       | Some (nRow, nCol, tbl) \<Rightarrow>
           rbind (records tbl nCol nCol nRow []) (\<lambda>s.
           if s = [] then Inl OutOfBounds
           else rbind (set_content (butlast s) m) (\<lambda>m. Inr (SUCCESS, send_msg fd m st)))))))))"

text \<open>The switch of \<open>enterChat\<close> on a message. The second component says whether the loop goes on.\<close>

definition chat_request :: "nat \<Rightarrow> db \<Rightarrow> Message \<Rightarrow> int \<Rightarrow> server \<Rightarrow> (bool \<times> server) res" where
  "chat_request k db m fd st =
     (if msgType m = GROUP_CHAT then rbind (groupChat k db m fd st) (\<lambda>(r, st). Inr (True, st))
      else if msgType m = PERSONAL_CHAT then rbind (personalChat k db m fd st) (\<lambda>(r, st). Inr (True, st))
      else if msgType m = VIEW_USER_LIST then rbind (viewUserList k m fd st) (\<lambda>(r, st). Inr (True, st))
      else if msgType m = VIEW_RECORDS then rbind (viewRecords db m fd st) (\<lambda>(r, st). Inr (True, st))
      else if msgType m = EXIT then
        rbind (get_str (sendName m)) (\<lambda>s. rbind (strcpy_block s (userName zero_user)) (\<lambda>nm.
        rbind (deleteNode k (users_ptr st) (zero_user\<lparr>userName := nm\<rparr>) (uheap st)) (\<lambda>h.
        Inr (False, close_fd fd (st\<lparr>uheap := h\<rparr>)))))
      else Inr (True, st))"

text \<open>
  The loop of \<open>enterChat\<close> over the results of its \<open>recv\<close> calls: the number of bytes and the structure
  the buffer then starts with. The list ends where the loop waits for more; the first component of the
  result says whether \<open>enterChat\<close> has returned. \<open>recv\<close> may store \<open>sizeof(buf) + 1\<close> bytes.
\<close>

fun enterChat :: "nat \<Rightarrow> nat \<Rightarrow> db \<Rightarrow> (int \<times> Message) list \<Rightarrow> int \<Rightarrow> server \<Rightarrow> (bool \<times> server) res" where
  "enterChat msz k db [] fd st = Inr (False, st)"
| "enterChat msz k db ((n, m) # evs) fd st =
     (if n = 0 then Inr (True, close_fd fd st)
      else if n > int MAX_LINE then Inl OutOfBounds
      else rbind (memcpy_into msz MAX_LINE) (\<lambda>_.
        rbind (chat_request k db m fd st) (\<lambda>(go, st).
        if go then enterChat msz k db evs fd st else Inr (True, st))))"

section \<open>Login and registration\<close>

definition login_sql :: "User \<Rightarrow> char list res" where
  "login_sql u = rbind (get_str (userName u)) (\<lambda>n. rbind (get_str (password u)) (\<lambda>p.
     sprintf_into 128 (''select * from User where userName='' @ QT @ n @ QT @ '' and password='' @ QT @ p @ QT @ '';'')))"

text \<open>\<open>u\<close> is the user structure received; \<open>usz\<close> the size of the structure the buffer is copied to.\<close>

definition loginUser :: "nat \<Rightarrow> nat \<Rightarrow> db \<Rightarrow> User \<Rightarrow> Message \<Rightarrow> int \<Rightarrow> server \<Rightarrow> (int \<times> server) res" where
  "loginUser usz k db u msg fd st =
     rbind (memcpy_into usz MAX_LINE) (\<lambda>_.
     let u = u\<lparr>userAddr := sendAddr msg, sockfd := fd\<rparr> in
     rbind (isOnLine k (users_ptr st) u (uheap st)) (\<lambda>on.
     if on then Inr (ALREADY_ONLINE, st)
     else if \<not> db_open db then Inr (FAILED, st)
     else rbind (login_sql u) (\<lambda>sql.
       if \<not> db_prepare db sql then Inr (FAILED, st)
       else if db_row db (executed st) sql then
         rbind (insertNode k (users_ptr st) u (uheap st)) (\<lambda>(p, h).
         Inr (SUCCESS, st\<lparr>users_ptr := p, uheap := h, executed := executed st @ [sql]\<rparr>))
       else Inr (FAILED, st\<lparr>executed := executed st @ [sql]\<rparr>))))"

text \<open>\<open>inet_ntoa\<close>; \<open>now\<close> is the text \<open>asctime(gmtime(&timeNow))\<close> returns.\<close>

definition dotted :: "nat \<Rightarrow> char list" where
  "dotted a = digits_of (a mod 256) @ ''.'' @ digits_of (a div 256 mod 256) @ ''.''
     @ digits_of (a div 65536 mod 256) @ ''.'' @ digits_of (a div 16777216 mod 256)"

definition exists_sql :: "User \<Rightarrow> char list res" where
  "exists_sql u = rbind (get_str (userName u)) (\<lambda>n.
     sprintf_into 128 (''select * from User where userName='' @ QT @ n @ QT @ '';''))"

definition insert_sql :: "User \<Rightarrow> char list \<Rightarrow> char list res" where
  "insert_sql u now = rbind (get_str (userName u)) (\<lambda>n. rbind (get_str (password u)) (\<lambda>p.
     sprintf_into 128 (''insert into User(userName , password , userAddr , sockfd , speak , registerTime)''
       @ replicate 3 (CHR 0x09) @ ''values('' @ QT @ n @ QT @ '','' @ QT @ p @ QT @ '','' @ QT @ dotted (userAddr u) @ QT
       @ '','' @ decimal (sockfd u) @ '', '' @ decimal 0 @ '' , '' @ QT @ now @ QT @ '');'')))"

definition registerUser :: "nat \<Rightarrow> db \<Rightarrow> char list \<Rightarrow> User \<Rightarrow> Message \<Rightarrow> int \<Rightarrow> server \<Rightarrow> (int \<times> server) res" where
  "registerUser usz db now u msg fd st =
     rbind (memcpy_into usz MAX_LINE) (\<lambda>_.
     let u = u\<lparr>userAddr := sendAddr msg, sockfd := fd\<rparr> in
     rbind (get_str (userName u)) (\<lambda>n.
     if length n > 20 then Inr (INVALID, st)
     else if \<not> db_open db then Inr (FAILED, st)
     else rbind (exists_sql u) (\<lambda>sql.
       if \<not> db_prepare db sql then Inr (FAILED, st)
       else if db_row db (executed st) sql then Inr (FAILED, st\<lparr>executed := executed st @ [sql]\<rparr>)
       else let st = st\<lparr>executed := executed st @ [sql]\<rparr> in
         rbind (insert_sql u now) (\<lambda>sql.
         if \<not> db_prepare db sql then Inr (FAILED, st)
         else Inr (SUCCESS, st\<lparr>executed := executed st @ [sql]\<rparr>)))))"

text \<open>The answer to a registration or login, sent by \<open>handleRequest\<close>.\<close>

definition answer :: "int \<Rightarrow> int \<Rightarrow> server \<Rightarrow> server res" where
  "answer fd ret st =
     rbind (set_content (stateMsg ret) (zero_message\<lparr>msgType := RESULT, msgRet := ret\<rparr>)) (\<lambda>m.
     Inr (send_msg fd m st))"

text \<open>
  The thread of a connection: the first \<open>recv\<close> gives \<open>n\<close> and the message \<open>m\<close>, the handler's own one
  the user \<open>u\<close>, and \<open>evs\<close> are those of the chat loop.
\<close>

definition handleRequest :: "nat \<Rightarrow> nat \<Rightarrow> nat \<Rightarrow> db \<Rightarrow> char list \<Rightarrow> int \<Rightarrow> Message \<Rightarrow> User \<Rightarrow> (int \<times> Message) list
    \<Rightarrow> int \<Rightarrow> server \<Rightarrow> server res" where
  "handleRequest msz usz k db now n m u evs fd st =
     (if n \<le> 0 then Inr (close_fd fd st)
      else if n > int MAX_LINE then Inl OutOfBounds
      else rbind (memcpy_into msz MAX_LINE) (\<lambda>_.
        if msgType m = REGISTER then
          rbind (registerUser usz db now u m fd st) (\<lambda>(ret, st). rbind (answer fd ret st) (\<lambda>st. Inr (close_fd fd st)))
        else if msgType m = LOGIN then
          rbind (loginUser usz k db u m fd st) (\<lambda>(ret, st). rbind (answer fd ret st) (\<lambda>st.
          rbind (enterChat msz k db evs fd st) (\<lambda>(returned, st).
          Inr (if returned then close_fd fd st else st))))
        else Inr (close_fd fd st)))"

section \<open>Arrays and texts\<close>

definition pad :: "nat \<Rightarrow> char list \<Rightarrow> char list" where
  "pad n s = s @ replicate (n - length s) NUL"

lemma strcpy_pad: "length s < n \<Longrightarrow> strcpy_block s (replicate n NUL) = Inr (pad n s)"
  by (simp add: strcpy_zeros pad_def)

lemma pad_facts [simp]:
  "NUL \<notin> set s \<Longrightarrow> cstr (pad n s) = s"
  "length s < n \<Longrightarrow> NUL \<in> set (pad n s)"
  "length s \<le> n \<Longrightarrow> length (pad n s) = n"
  by (simp_all add: pad_def)

lemma NUL_utf8: "NUL \<in> set (utf8 ns) \<longleftrightarrow> (\<exists>x\<in>set ns. x mod 256 = 0)"
proof -
  have "NUL = char_of x \<longleftrightarrow> x mod 256 = 0" for x :: nat
    by (subst eq_commute) (simp add: char_of_eq_iff take_bit_eq_mod)
  then show ?thesis unfolding utf8_def set_map image_iff Bex_def by metis
qed

lemma stateMsg_fits: "NUL \<notin> set (stateMsg r)" "length (stateMsg r) < 2048"
  by (simp_all add: stateMsg_def NUL_utf8) (simp add: utf8_def)

definition msg_ok :: "Message \<Rightarrow> bool" where
  "msg_ok m \<longleftrightarrow> length (sendName m) = 20 \<and> length (recvName m) = 20 \<and> length (msgTime m) = 20 \<and> length (content m) = 2048
     \<and> NUL \<in> set (sendName m) \<and> NUL \<in> set (recvName m) \<and> NUL \<in> set (msgTime m) \<and> NUL \<in> set (content m)"

lemma msg_ok_strings:
  assumes "msg_ok m"
  shows "length (cstr (sendName m)) < 20" "length (cstr (recvName m)) < 20" "length (cstr (msgTime m)) < 20"
    "length (cstr (content m)) < 2048"
  using assms length_cstr [of "sendName m"] length_cstr [of "recvName m"] length_cstr [of "msgTime m"]
    length_cstr [of "content m"] by (simp_all add: msg_ok_def)

definition reply :: "Message \<Rightarrow> Message" where
  "reply msg = zero_message\<lparr>sendName := pad 20 (cstr (sendName msg)), recvName := pad 20 (cstr (recvName msg)),
     msgType := msgType msg\<rparr>"

lemma start_reply_ok: "msg_ok msg \<Longrightarrow> start_reply msg = Inr (reply msg)"
  using msg_ok_strings [of msg]
  by (simp add: start_reply_def msg_ok_def zero_message_def strcpy_pad reply_def)

lemma send_result_reply:
  "send_result fd (reply msg) r st
    = Inr (send_msg fd ((reply msg)\<lparr>msgType := RESULT, content := pad 2048 (stateMsg r)\<rparr>) st)"
  using stateMsg_fits by (simp add: send_result_def set_content_def reply_def zero_message_def strcpy_pad)

text \<open>The message passed on to receivers: the sender, the given receiver name, text and time.\<close>

definition relayed :: "Message \<Rightarrow> char list \<Rightarrow> Message" where
  "relayed msg rn = zero_message\<lparr>sendName := pad 20 (cstr (sendName msg)), recvName := rn, msgType := msgType msg,
     content := pad 2048 (cstr (content msg)), msgTime := pad 20 (cstr (msgTime msg))\<rparr>"

section \<open>Group chat\<close>

lemma send_msg_simps [simp]:
  "uheap (send_msg fd m st) = uheap st" "users_ptr (send_msg fd m st) = users_ptr st"
  "sends (send_msg fd m st) = sends st @ [(fd, m)]" "executed (send_msg fd m st) = executed st"
  "closed (send_msg fd m st) = closed st"
  by (simp_all add: send_msg_def)

lemma broadcast_ulist:
  assumes "ulist (uheap st) p as us" and "length us \<le> k" and "NUL \<in> set (sendName m)"
  shows "broadcast k p m st = Inr (st\<lparr>sends := sends st
      @ map (\<lambda>u. (sockfd u, m)) (filter (\<lambda>u. uname u \<noteq> cstr (sendName m)) us)\<rparr>)"
  using assms
proof (induction k arbitrary: st p as us)
  case 0
  then have "us = []" "p = None" using ulist_None_iff [OF 0(1)] ulist_length [OF 0(1)] by auto
  then show ?case by simp
next
  case (Suc k)
  from Suc.prems(1) show ?case
  proof (cases rule: ulist_cases)
    case (Cons a as' u us' n)
    let ?st = "if uname u = cstr (sendName m) then st else send_msg (sockfd u) m st"
    have "ulist (uheap ?st) (next_node n) as' us'" using Cons(8) by simp
    from Suc.IH [OF this] show ?thesis
      using Cons Suc.prems(2,3) by (auto simp: user_ok_def uname_def send_msg_def)
  qed simp
qed

lemma sql_length:
  assumes "length (recvName m) = 20" "msg_ok m"
  shows "message_sql m = (if length (decimal (msgType m)) + length (cstr (sendName m)) + length (cstr (recvName m))
      + length (cstr (content m)) + length (cstr (msgTime m)) < 32
    then Inr (''insert into Message(msgType , sendName , recvName , content , msgTime)''
       @ replicate 4 (CHR 0x09) @ ''values('' @ decimal (msgType m) @ '','' @ QT @ cstr (sendName m) @ QT @ '','' @ QT
       @ cstr (recvName m) @ QT @ '','' @ QT @ cstr (content m) @ QT @ '', '' @ QT @ cstr (msgTime m) @ QT @ '');'')
    else Inl OutOfBounds)"
  using assms by (simp add: message_sql_def msg_ok_def sprintf_into_def)

definition relay_size :: "Message \<Rightarrow> char list \<Rightarrow> nat" where
  "relay_size msg rn = length (decimal (msgType msg)) + length (cstr (sendName msg)) + length (cstr rn)
     + length (cstr (content msg)) + length (cstr (msgTime msg))"

definition name_array :: "char list \<Rightarrow> bool" where
  "name_array rn \<longleftrightarrow> NUL \<in> set rn \<and> length rn = 20"

text \<open>The statement that stores a message, column by column, and what storing it does.\<close>

definition insert_text :: "int \<Rightarrow> char list \<Rightarrow> char list \<Rightarrow> char list \<Rightarrow> char list \<Rightarrow> char list" where
  "insert_text typ from_name to_name txt time =
     ''insert into Message(msgType , sendName , recvName , content , msgTime)'' @ [CHR 0x09, CHR 0x09, CHR 0x09, CHR 0x09]
     @ ''values('' @ decimal typ @ concat (map (\<lambda>column. [CHR 0x2C, CHR 0x27] @ column @ [CHR 0x27]) [from_name, to_name, txt])
     @ [CHR 0x2C, CHR 0x20, CHR 0x27] @ time @ [CHR 0x27, CHR 0x29, CHR 0x3B]"

definition stored :: "db \<Rightarrow> char list \<Rightarrow> server \<Rightarrow> int \<times> server" where
  "stored db sql st =
     (if db_open db \<and> db_prepare db sql then (SUCCESS, st\<lparr>executed := executed st @ [sql]\<rparr>) else (FAILED, st))"

text \<open>What \<open>store_message\<close> makes of a relayed message: the statement has 96 bytes of its own.\<close>

lemma store_message_relayed:
  assumes "msg_ok msg" and "name_array rn"
  shows "store_message db (relayed msg rn) st =
    (if db_open db \<and> 32 \<le> relay_size msg rn then Inl OutOfBounds
     else Inr (stored db (insert_text (msgType msg) (cstr (sendName msg)) (cstr rn) (cstr (content msg)) (cstr (msgTime msg))) st))"
proof -
  note l = msg_ok_strings [OF assms(1)]
  have ok: "msg_ok (relayed msg rn)"
    using l assms(2) by (simp add: msg_ok_def relayed_def zero_message_def name_array_def)
  have f: "msgType (relayed msg rn) = msgType msg" "cstr (sendName (relayed msg rn)) = cstr (sendName msg)"
    "recvName (relayed msg rn) = rn" "cstr (content (relayed msg rn)) = cstr (content msg)"
    "cstr (msgTime (relayed msg rn)) = cstr (msgTime msg)" using l by (simp_all add: relayed_def)
  have "length (recvName (relayed msg rn)) = 20" using assms(2) f(3) by (simp add: name_array_def)
  note sql = sql_length [OF this ok, unfolded f]
  have "replicate 4 (CHR 0x09) = [CHR 0x09, CHR 0x09, CHR 0x09, CHR 0x09]" by code_simp
  then show ?thesis
    by (simp add: store_message_def sql stored_def insert_text_def relay_size_def)
qed

lemma groupChat_run:
  assumes "ulist (uheap st) (users_ptr st) as (u # v # us)" and "msg_ok msg" and "length (u # v # us) \<le> k"
  shows "\<exists>rn. name_array rn \<and> cstr rn = [] \<and> groupChat k db msg fd st = store_message db (relayed msg rn)
    (st\<lparr>sends := sends st @ map (\<lambda>w. (sockfd w, relayed msg rn))
        (filter (\<lambda>w. uname w \<noteq> cstr (sendName msg)) (u # v # us))\<rparr>)"
proof -
  let ?rn = "NUL # drop (Suc 0) (pad 20 (cstr (recvName msg)))"
  let ?m = "relayed msg ?rn"
  note l = msg_ok_strings [OF assms(2)]
  obtain a b n where n: "users_ptr st = Some a" "cells (uheap st) a = Some n" "next_node n = Some b"
    using assms(1) ulist_length [OF assms(1)] by (cases as; cases "tl as") (auto simp: ulist_Cons)
  have rn: "strcpy_block [] (recvName (reply msg)) = Inr ?rn"
    using l(2) by (simp add: strcpy_block_def reply_def)
  have c: "set_content (cstr (content msg)) ((reply msg)\<lparr>recvName := ?rn\<rparr>)
      = Inr ((reply msg)\<lparr>recvName := ?rn, content := pad 2048 (cstr (content msg))\<rparr>)"
    using l(4) by (simp add: set_content_def reply_def zero_message_def strcpy_pad)
  have t: "strcpy_block (cstr (msgTime msg)) (msgTime (reply msg)) = Inr (pad 20 (cstr (msgTime msg)))"
    using l(3) by (simp add: reply_def zero_message_def strcpy_pad)
  have m: "(reply msg)\<lparr>recvName := ?rn, content := pad 2048 (cstr (content msg)), msgTime := pad 20 (cstr (msgTime msg))\<rparr> = ?m"
    by (simp add: relayed_def reply_def zero_message_def)
  have sn: "sendName ?m = pad 20 (cstr (sendName msg))" by (simp add: relayed_def)
  have "groupChat k db msg fd st = rbind (broadcast k (users_ptr st) ?m st) (store_message db ?m)"
    using n rn c t m assms(2) by (simp add: groupChat_def start_reply_ok msg_ok_def Let_def)
  also have "broadcast k (users_ptr st) ?m st = Inr (st\<lparr>sends := sends st @ map (\<lambda>w. (sockfd w, ?m))
        (filter (\<lambda>w. uname w \<noteq> cstr (sendName msg)) (u # v # us))\<rparr>)"
    using broadcast_ulist [OF assms(1,3), of ?m] l(1) sn by simp
  finally have "groupChat k db msg fd st = store_message db ?m (st\<lparr>sends := sends st @ map (\<lambda>w. (sockfd w, ?m))
        (filter (\<lambda>w. uname w \<noteq> cstr (sendName msg)) (u # v # us))\<rparr>)" by simp
  moreover have "name_array ?rn" using l(2) by (simp add: name_array_def)
  moreover have "cstr ?rn = []" by (simp add: cstr_def)
  ultimately show ?thesis by blast
qed

section \<open>Personal chat\<close>

lemma find_receiver_none:
  assumes "ulist h p as us" and "\<forall>u\<in>set us. uname u \<noteq> cstr name" and "NUL \<in> set name" and "length us \<le> k"
  shows "find_receiver k h p name = Inr None"
  using assms
proof (induction k arbitrary: p as us)
  case 0
  then have "p = None" using ulist_None_iff [OF 0(1)] ulist_length [OF 0(1)] by auto
  then show ?case by simp
next
  case (Suc k)
  from Suc.prems(1) show ?case
  proof (cases rule: ulist_cases)
    case (Cons a as' u us' n)
    then show ?thesis using Suc.IH [OF Cons(8)] Suc.prems(2-4) by (simp add: user_ok_def uname_def)
  qed simp
qed

lemma find_receiver_hit:
  assumes "ulist h p as (us1 @ u # us2)" and "\<forall>v\<in>set us1. uname v \<noteq> cstr name" and "uname u = cstr name"
    and "NUL \<in> set name" and "length us1 < k"
  shows "\<exists>a n. find_receiver k h p name = Inr (Some a) \<and> cells h a = Some n \<and> user n = u"
  using assms
proof (induction k arbitrary: p as us1)
  case (Suc k)
  show ?case
  proof (cases us1)
    case Nil
    then obtain a as' where "as = a # as'" using ulist_length [OF Suc.prems(1)] by (cases as) auto
    then show ?thesis using Suc.prems Nil by (auto simp: ulist_Cons user_ok_def uname_def)
  next
    case (Cons v vs)
    then obtain a as' where as: "as = a # as'" using ulist_length [OF Suc.prems(1)] by (cases as) auto
    obtain n where n: "p = Some a" "user_ok v" "cells h a = Some n" "user n = v" "ulist h (next_node n) as' (vs @ u # us2)"
      using Suc.prems(1) Cons as by (auto simp: ulist_Cons)
    obtain b m where "find_receiver k h (next_node n) name = Inr (Some b)" "cells h b = Some m" "user m = u"
      using Suc.IH [OF n(5)] Suc.prems Cons by auto
    then show ?thesis using n Suc.prems(2,4) Cons by (simp add: user_ok_def uname_def)
  qed
qed simp

lemma personalChat_run:
  assumes l: "ulist (uheap st) (users_ptr st) as us" and m: "msg_ok msg" and k: "length us \<le> k"
  shows "cstr (sendName msg) = cstr (recvName msg) \<Longrightarrow> personalChat k db msg fd st = Inr (MESSAGE_SELF,
      send_msg fd ((reply msg)\<lparr>msgType := RESULT, content := pad 2048 (stateMsg MESSAGE_SELF)\<rparr>) st)"
    and "cstr (sendName msg) \<noteq> cstr (recvName msg) \<Longrightarrow> \<forall>u\<in>set us. uname u \<noteq> cstr (recvName msg) \<Longrightarrow>
      personalChat k db msg fd st = Inr (ID_NOT_ONLINE,
        send_msg fd ((reply msg)\<lparr>msgType := RESULT, content := pad 2048 (stateMsg ID_NOT_ONLINE)\<rparr>) st)"
    and "cstr (sendName msg) \<noteq> cstr (recvName msg) \<Longrightarrow> us = us1 @ u # us2 \<Longrightarrow>
      \<forall>w\<in>set us1. uname w \<noteq> cstr (recvName msg) \<Longrightarrow> uname u = cstr (recvName msg) \<Longrightarrow>
      personalChat k db msg fd st = store_message db (relayed msg (pad 20 (cstr (recvName msg))))
        (send_msg (sockfd u) (relayed msg (pad 20 (cstr (recvName msg)))) st)"
proof -
  note ls = msg_ok_strings [OF m]
  have eq: "str_eq (sendName msg) (recvName msg) = Inr (cstr (sendName msg) = cstr (recvName msg))"
    using m by (simp add: msg_ok_def)
  show "personalChat k db msg fd st = Inr (MESSAGE_SELF,
      send_msg fd ((reply msg)\<lparr>msgType := RESULT, content := pad 2048 (stateMsg MESSAGE_SELF)\<rparr>) st)"
    if "cstr (sendName msg) = cstr (recvName msg)"
    using that eq by (simp add: personalChat_def start_reply_ok m send_result_reply)
  show "personalChat k db msg fd st = Inr (ID_NOT_ONLINE,
        send_msg fd ((reply msg)\<lparr>msgType := RESULT, content := pad 2048 (stateMsg ID_NOT_ONLINE)\<rparr>) st)"
    if "cstr (sendName msg) \<noteq> cstr (recvName msg)" "\<forall>u\<in>set us. uname u \<noteq> cstr (recvName msg)"
    using that eq find_receiver_none [OF l that(2) _ k] m
    by (simp add: personalChat_def start_reply_ok send_result_reply msg_ok_def)
  let ?m = "relayed msg (pad 20 (cstr (recvName msg)))"
  show "personalChat k db msg fd st = store_message db ?m (send_msg (sockfd u) ?m st)"
    if a: "cstr (sendName msg) \<noteq> cstr (recvName msg)" and b: "us = us1 @ u # us2"
      "\<forall>w\<in>set us1. uname w \<noteq> cstr (recvName msg)" "uname u = cstr (recvName msg)"
  proof -
    obtain x n where f: "find_receiver k (uheap st) (users_ptr st) (recvName msg) = Inr (Some x)"
      "cells (uheap st) x = Some n" "user n = u"
      using find_receiver_hit [of "uheap st" "users_ptr st" as us1 u us2 "recvName msg" k] l b k m by (auto simp: msg_ok_def)
    have c: "set_content (cstr (content msg)) (reply msg) = Inr ((reply msg)\<lparr>content := pad 2048 (cstr (content msg))\<rparr>)"
      using ls(4) by (simp add: set_content_def reply_def zero_message_def strcpy_pad)
    have t: "strcpy_block (cstr (msgTime msg)) (msgTime (reply msg)) = Inr (pad 20 (cstr (msgTime msg)))"
      using ls(3) by (simp add: reply_def zero_message_def strcpy_pad)
    have e: "(reply msg)\<lparr>content := pad 2048 (cstr (content msg)), msgTime := pad 20 (cstr (msgTime msg))\<rparr> = ?m"
      by (simp add: relayed_def reply_def zero_message_def)
    show ?thesis using a eq f c t e m by (simp add: personalChat_def start_reply_ok msg_ok_def Let_def)
  qed
qed

section \<open>Lists and records\<close>

definition tabbed :: "User list \<Rightarrow> char list" where
  "tabbed us = concat (map (\<lambda>u. CHR 0x09 # uname u) us)"

lemma list_names_ulist:
  assumes "ulist h p as us" and "length us \<le> k" and "length acc < 2048"
  shows "list_names k h p acc = sprintf_into 2048 (acc @ tabbed us)"
  using assms
proof (induction k arbitrary: p as us acc)
  case 0
  then have "p = None" "us = []" using ulist_None_iff [OF 0(1)] ulist_length [OF 0(1)] by auto
  then show ?case using 0 by (simp add: tabbed_def sprintf_into_def)
next
  case (Suc k)
  from Suc.prems(1) show ?case
  proof (cases rule: ulist_cases)
    case (Cons a as' u us' n)
    then show ?thesis using Suc.IH [OF Cons(8), of "acc @ CHR 0x09 # uname u"] Suc.prems(2,3)
      by (auto simp: user_ok_def uname_def sprintf_into_def tabbed_def)
  qed (use Suc.prems in \<open>simp add: tabbed_def sprintf_into_def\<close>)
qed

lemma NUL_tabbed: "NUL \<notin> set (tabbed us)"
  by (auto simp: tabbed_def uname_def)

lemma viewUserList_run:
  assumes "ulist (uheap st) (users_ptr st) as us" and "us \<noteq> []" and "msg_ok msg" and "length us \<le> k"
  shows "viewUserList k msg fd st = (if length (tabbed us) < 2048
    then Inr (SUCCESS, send_msg fd ((reply msg)\<lparr>content := pad 2048 (tabbed us)\<rparr>) st) else Inl OutOfBounds)"
proof -
  have "users_ptr st \<noteq> None" using ulist_None_iff [OF assms(1)] ulist_length [OF assms(1)] assms(2) by auto
  moreover have "list_names k (uheap st) (users_ptr st) [] = sprintf_into 2048 (tabbed us)"
    using list_names_ulist [OF assms(1,4), of "[]"] by simp
  ultimately show ?thesis using assms(3)
    by (auto simp: viewUserList_def start_reply_ok sprintf_into_def set_content_def reply_def zero_message_def strcpy_pad)
qed

section \<open>Login, registration, exit\<close>

definition login_text :: "User \<Rightarrow> char list" where
  "login_text u = ''select * from User where userName='' @ QT @ uname u @ QT @ '' and password='' @ QT @ cstr (password u) @ QT @ '';''"

lemma login_sql_ok: "user_ok u \<Longrightarrow> login_sql u = Inr (login_text u)"
  using length_cstr [of "userName u"] length_cstr [of "password u"]
  by (simp add: login_sql_def sprintf_into_def login_text_def user_ok_def uname_def)

lemma loginUser_online:
  assumes "MAX_LINE \<le> usz" and "ulist (uheap st) (users_ptr st) as us" and "user_ok u" and "length us \<le> k"
    and "uname u \<in> uname ` set us"
  shows "loginUser usz k db u msg fd st = Inr (ALREADY_ONLINE, st)"
proof -
  have "isOnLine k (users_ptr st) (u\<lparr>userAddr := sendAddr msg, sockfd := fd\<rparr>) (uheap st) = Inr True"
    using isOnLine_ulist [OF assms(2), of "u\<lparr>userAddr := sendAddr msg, sockfd := fd\<rparr>" k] assms(3-5)
    by (auto simp: user_ok_def uname_def)
  then show ?thesis using assms(1) by (simp add: loginUser_def memcpy_into_def Let_def)
qed

lemma loginUser_new:
  assumes "MAX_LINE \<le> usz" and l: "ulist (uheap st) (users_ptr st) as us" and u: "user_ok u" and k: "length us \<le> k"
    and new: "uname u \<notin> uname ` set us" and av: "0 < avail (uheap st)"
  shows "\<exists>r st'. loginUser usz k db u msg fd st = Inr (r, st') \<and> r \<in> {SUCCESS, FAILED}
    \<and> (r = SUCCESS \<longleftrightarrow> db_open db \<and> db_prepare db (login_text u) \<and> db_row db (executed st) (login_text u))
    \<and> sends st' = sends st
    \<and> (\<exists>as' us'. ulist (uheap st') (users_ptr st') as' us'
        \<and> (if r = SUCCESS then \<exists>c. us' = us @ [c] \<and> uname c = uname u \<and> sockfd c = fd else us' = us))"
proof -
  let ?u = "u\<lparr>userAddr := sendAddr msg, sockfd := fd\<rparr>"
  have u': "user_ok ?u" "uname ?u = uname u" using u by (simp_all add: user_ok_def uname_def)
  have on: "isOnLine k (users_ptr st) ?u (uheap st) = Inr False"
  proof -
    have "\<not> (\<exists>w\<in>set us. uname w = uname ?u)" using new u'(2) by (metis imageI)
    then show ?thesis using isOnLine_ulist [OF l, of ?u k] k u'(1) by (simp add: user_ok_def)
  qed
  have sql: "login_sql ?u = Inr (login_text u)" using login_sql_ok [OF u'(1)] u' by (simp add: login_text_def)
  obtain p' h' where i: "insertNode k (users_ptr st) ?u (uheap st) = Inr (p', h')"
    "ulist h' p' (as @ [brk (uheap st)]) (us @ [copied ?u])"
    using insertNode_ulist [OF l u'(1) av k] by blast
  show ?thesis using assms(1) on sql i l copied_facts(1,2) [OF u'(1)] u'
    by (auto simp: loginUser_def memcpy_into_def Let_def)
qed

lemma insert_sql_overflows:
  assumes "length now = 25"
  shows "\<nexists>sql. insert_sql u now = Inr sql"
  using assms by (auto simp: insert_sql_def sprintf_into_def split: if_splits)

lemma zero_name: "user_ok (zero_user\<lparr>userName := pad 20 (cstr (sendName m))\<rparr>)"
  "uname (zero_user\<lparr>userName := pad 20 (cstr (sendName m))\<rparr>) = cstr (sendName m)" if "msg_ok m"
  using msg_ok_strings(1) [OF that] by (simp_all add: user_ok_def zero_user_def uname_def)

lemma exit_request:
  assumes "msg_ok m" and "msgType m = EXIT"
  shows "chat_request k db m fd st = rbind (deleteNode k (users_ptr st)
      (zero_user\<lparr>userName := pad 20 (cstr (sendName m))\<rparr>) (uheap st)) (\<lambda>h. Inr (False, close_fd fd (st\<lparr>uheap := h\<rparr>)))"
  using assms msg_ok_strings(1) [OF assms(1)]
  by (simp add: chat_request_def msg_ok_def zero_user_def strcpy_pad)

text \<open>With the real structure sizes the copy of the receive buffer runs over the structure.\<close>

lemma requests_overflow:
  "0 < n \<Longrightarrow> handleRequest sizeof_Message usz k db now n m u evs fd st = Inl OutOfBounds"
  "loginUser sizeof_User k db u m fd st = Inl OutOfBounds"
  "registerUser sizeof_User db now u m fd st = Inl OutOfBounds"
  "n \<noteq> 0 \<Longrightarrow> enterChat sizeof_Message k db ((n, m) # evs) fd st = Inl OutOfBounds"
  by (simp_all add: handleRequest_def loginUser_def registerUser_def memcpy_into_def sizeof_Message_def sizeof_User_def)

text \<open>A query without a record writes before the start of the content.\<close>

lemma viewRecords_empty:
  assumes "msg_ok msg" and "db_open db" and "records_sql (cstr (sendName msg)) (cstr (recvName msg)) = Inr sql"
    and "cstr (recvName msg) \<noteq> ''all''" and "db_table db (executed st) sql = Some (0, nCol, tbl)"
  shows "viewRecords db msg fd st = Inl OutOfBounds"
proof -
  have "str_eq (recvName msg) (''all'' @ [NUL]) = Inr (cstr (recvName msg) = cstr (''all'' @ [NUL]))"
    using assms(1) by (intro str_eq_term) (simp_all add: msg_ok_def)
  moreover have "cstr (''all'' @ [NUL]) = ''all''" by (rule cstr_append) simp
  ultimately have "str_eq (recvName msg) (''all'' @ [NUL]) = Inr False" using assms(4) by simp
  then show ?thesis using assms msg_ok_strings [OF assms(1)]
    by (simp add: viewRecords_def msg_ok_def zero_message_def strcpy_pad Let_def)
qed

section \<open>Properties\<close>

text \<open>C13: a group message with at least two users online is sent, with its sender, text and time, to
  the socket of every user whose name is not the sender's, in list order and once each; then it is stored, by the
  statement that names the type, the sender, no receiver, the text and the time in this order, when the database opens
  and accepts the statement. Otherwise the answer is a failure and nothing is stored, but the message has been
  sent. The statement is built in 128 bytes of which 96 are its own, so with an open database a message whose
  names, text and time have 32 characters or more with the type's digits runs over the buffer. The user
  list is not touched.\<close>

theorem group_chat_delivery:
  assumes "ulist (uheap st) (users_ptr st) as (u # v # us)" and "msg_ok msg" and "length (u # v # us) \<le> k"
  shows "\<exists>m. cstr (sendName m) = cstr (sendName msg) \<and> cstr (recvName m) = [] \<and> msgType m = msgType msg
      \<and> cstr (content m) = cstr (content msg) \<and> cstr (msgTime m) = cstr (msgTime msg)
    \<and> groupChat k db msg fd st =
      (if db_open db \<and> 32 \<le> length (decimal (msgType msg)) + length (cstr (sendName msg))
            + length (cstr (content msg)) + length (cstr (msgTime msg))
       then Inl OutOfBounds
       else Inr (stored db (insert_text (msgType msg) (cstr (sendName msg)) [] (cstr (content msg)) (cstr (msgTime msg)))
         (st\<lparr>sends := sends st @ map (\<lambda>w. (sockfd w, m)) (filter (\<lambda>w. uname w \<noteq> cstr (sendName msg)) (u # v # us))\<rparr>)))"
proof -
  let ?sent = "\<lambda>m. map (\<lambda>w. (sockfd w, m)) (filter (\<lambda>w. uname w \<noteq> cstr (sendName msg)) (u # v # us))"
  obtain rn where rn: "name_array rn" "cstr rn = []" and g: "groupChat k db msg fd st
      = store_message db (relayed msg rn) (st\<lparr>sends := sends st @ ?sent (relayed msg rn)\<rparr>)"
    using groupChat_run [OF assms, of db fd] by blast
  have f: "cstr (sendName (relayed msg rn)) = cstr (sendName msg)" "cstr (recvName (relayed msg rn)) = []"
    "msgType (relayed msg rn) = msgType msg" "cstr (content (relayed msg rn)) = cstr (content msg)"
    "cstr (msgTime (relayed msg rn)) = cstr (msgTime msg)"
    using rn(2) msg_ok_strings [OF assms(2)] by (simp_all add: relayed_def)
  show ?thesis
    using f g store_message_relayed [OF assms(2) rn(1)] rn(2)
    by (intro exI [of _ "relayed msg rn"]) (simp add: relay_size_def)
qed

definition demo_msg :: "int \<Rightarrow> char list \<Rightarrow> char list \<Rightarrow> char list \<Rightarrow> Message" where
  "demo_msg t sn rn c = zero_message\<lparr>msgType := t, sendName := pad 20 sn, recvName := pad 20 rn, content := pad 2048 c\<rparr>"

lemma msg_ok_demo: "length sn < 20 \<Longrightarrow> length rn < 20 \<Longrightarrow> length c < 2048 \<Longrightarrow> msg_ok (demo_msg t sn rn c)"
  by (simp add: msg_ok_def demo_msg_def zero_message_def)

definition demo_server :: server where
  "demo_server = \<lparr>users_ptr = Some 1, uheap = demo_users, sends = [], executed = [], closed = []\<rparr>"

definition demo_db :: "bool \<Rightarrow> db" where
  "demo_db open = \<lparr>db_open = open, db_prepare = \<lambda>_. True, db_row = \<lambda>_ _. True, db_table = \<lambda>_ _. Some (0, 6, [])\<rparr>"

lemma demo_server_users: "ulist (uheap demo_server) (users_ptr demo_server) [1, 2] [demo_user ''ann'' 4, demo_user ''bob'' 5]"
  using demo_users_ulist by (simp add: demo_server_def)

lemma demo_msg_strings [simp]:
  "NUL \<notin> set sn \<Longrightarrow> cstr (sendName (demo_msg t sn rn c)) = sn" "NUL \<notin> set rn \<Longrightarrow> cstr (recvName (demo_msg t sn rn c)) = rn"
  "NUL \<notin> set c \<Longrightarrow> cstr (content (demo_msg t sn rn c)) = c" "cstr (msgTime (demo_msg t sn rn c)) = []"
  "msgType (demo_msg t sn rn c) = t"
  by (simp_all add: demo_msg_def zero_message_def) (simp add: cstr_def)

lemma sockfd_demo: "sockfd (demo_user n fd) = fd"
  by (simp add: demo_user_def)

lemma group_chat_delivery_witness:
  "(\<exists>st' m. groupChat 2 (demo_db True) (demo_msg GROUP_CHAT ''ann'' ''all'' ''hi'') 4 demo_server = Inr (SUCCESS, st')
      \<and> sends st' = [(5, m)] \<and> cstr (content m) = ''hi''
      \<and> executed st' = [insert_text GROUP_CHAT ''ann'' [] ''hi'' []])
    \<and> groupChat 2 (demo_db True) (demo_msg GROUP_CHAT ''ann'' ''all'' ''a message of thirty characters!'') 4 demo_server = Inl OutOfBounds"
proof -
  have k: "length [demo_user ''ann'' 4, demo_user ''bob'' 5] \<le> 2" by simp
  have ok: "msg_ok (demo_msg GROUP_CHAT ''ann'' ''all'' ''hi'')"
    "msg_ok (demo_msg GROUP_CHAT ''ann'' ''all'' ''a message of thirty characters!'')"
    by (rule msg_ok_demo; simp)+
  have d: "length (decimal 6) = 1" by (simp add: decimal_def digits_of.simps)
  show ?thesis
    using group_chat_delivery [OF demo_server_users ok(1) k, of "demo_db True" 4]
      group_chat_delivery [OF demo_server_users ok(2) k, of "demo_db True" 4]
    by (auto simp: demo_db_def demo_server_def uname_demo sockfd_demo d stored_def)
qed

text \<open>C37: a personal message. To oneself or to a name that is not online it is answered to the sender's
  own socket with that result and nothing else is sent or stored; otherwise it goes to the socket of the first user
  of that name and to no one else, and is stored, by the statement that names the type, the sender, the receiver, the
  text and the time, when the database opens and accepts the statement; else the answer is a failure. There is the
  same limit on its length as for a group message.\<close>

theorem personal_chat_delivery:
  assumes l: "ulist (uheap st) (users_ptr st) as us" and m: "msg_ok msg" and k: "length us \<le> k"
  defines "sn \<equiv> cstr (sendName msg)" and "rn \<equiv> cstr (recvName msg)"
  shows "(sn = rn \<or> rn \<notin> uname ` set us \<longrightarrow> (\<exists>a. personalChat k db msg fd st
      = Inr (if sn = rn then MESSAGE_SELF else ID_NOT_ONLINE, st\<lparr>sends := sends st @ [(fd, a)]\<rparr>)
      \<and> msgType a = RESULT \<and> cstr (content a) = stateMsg (if sn = rn then MESSAGE_SELF else ID_NOT_ONLINE)))
    \<and> (\<forall>us1 u us2. us = us1 @ u # us2 \<longrightarrow> uname u = rn \<longrightarrow> rn \<notin> uname ` set us1 \<longrightarrow> sn \<noteq> rn \<longrightarrow>
        (\<exists>a. msgType a = msgType msg \<and> cstr (content a) = cstr (content msg)
        \<and> cstr (sendName a) = sn \<and> cstr (recvName a) = rn \<and> cstr (msgTime a) = cstr (msgTime msg)
        \<and> personalChat k db msg fd st =
          (if db_open db \<and> 32 \<le> length (decimal (msgType msg)) + length sn + length rn
               + length (cstr (content msg)) + length (cstr (msgTime msg))
           then Inl OutOfBounds
           else Inr (stored db (insert_text (msgType msg) sn rn (cstr (content msg)) (cstr (msgTime msg)))
             (st\<lparr>sends := sends st @ [(sockfd u, a)]\<rparr>)))))"
proof (intro conjI impI)
  assume c: "sn = rn \<or> rn \<notin> uname ` set us"
  let ?r = "if sn = rn then MESSAGE_SELF else ID_NOT_ONLINE"
  let ?a = "(reply msg)\<lparr>msgType := RESULT, content := pad 2048 (stateMsg ?r)\<rparr>"
  have "personalChat k db msg fd st = Inr (?r, send_msg fd ?a st)"
  proof (cases "sn = rn")
    case True
    then show ?thesis using personalChat_run(1) [OF l m k, where db = db and fd = fd] by (simp add: sn_def rn_def)
  next
    case False
    then have "\<forall>u\<in>set us. uname u \<noteq> rn" using c by auto
    then show ?thesis using personalChat_run(2) [OF l m k, where db = db and fd = fd] False by (simp add: sn_def rn_def)
  qed
  then show "\<exists>a. personalChat k db msg fd st = Inr (?r, st\<lparr>sends := sends st @ [(fd, a)]\<rparr>)
      \<and> msgType a = RESULT \<and> cstr (content a) = stateMsg ?r"
    using stateMsg_fits by (intro exI [of _ ?a]) (simp add: send_msg_def)
next
  show "\<forall>us1 u us2. us = us1 @ u # us2 \<longrightarrow> uname u = rn \<longrightarrow> rn \<notin> uname ` set us1 \<longrightarrow> sn \<noteq> rn \<longrightarrow>
        (\<exists>a. msgType a = msgType msg \<and> cstr (content a) = cstr (content msg)
        \<and> cstr (sendName a) = sn \<and> cstr (recvName a) = rn \<and> cstr (msgTime a) = cstr (msgTime msg)
        \<and> personalChat k db msg fd st =
          (if db_open db \<and> 32 \<le> length (decimal (msgType msg)) + length sn + length rn
               + length (cstr (content msg)) + length (cstr (msgTime msg))
           then Inl OutOfBounds
           else Inr (stored db (insert_text (msgType msg) sn rn (cstr (content msg)) (cstr (msgTime msg)))
             (st\<lparr>sends := sends st @ [(sockfd u, a)]\<rparr>))))"
  proof (intro allI impI)
    fix us1 u us2 assume us: "us = us1 @ u # us2" "uname u = rn" "rn \<notin> uname ` set us1" and c: "sn \<noteq> rn"
    let ?a = "relayed msg (pad 20 rn)"
    have "\<forall>w\<in>set us1. uname w \<noteq> rn" using us(3) by auto
    then have g: "personalChat k db msg fd st = store_message db ?a (send_msg (sockfd u) ?a st)"
      using personalChat_run(3) [OF l m k, of us1 u us2] c us by (simp add: sn_def rn_def)
    have na: "name_array (pad 20 rn)" using msg_ok_strings(2) [OF m] by (simp add: name_array_def rn_def)
    show "\<exists>a. msgType a = msgType msg \<and> cstr (content a) = cstr (content msg)
        \<and> cstr (sendName a) = sn \<and> cstr (recvName a) = rn \<and> cstr (msgTime a) = cstr (msgTime msg)
        \<and> personalChat k db msg fd st =
          (if db_open db \<and> 32 \<le> length (decimal (msgType msg)) + length sn + length rn
               + length (cstr (content msg)) + length (cstr (msgTime msg))
           then Inl OutOfBounds
           else Inr (stored db (insert_text (msgType msg) sn rn (cstr (content msg)) (cstr (msgTime msg)))
             (st\<lparr>sends := sends st @ [(sockfd u, a)]\<rparr>)))"
      using g store_message_relayed [OF m na]
      by (intro exI [of _ ?a]) (simp add: relay_size_def relayed_def send_msg_def sn_def rn_def)
  qed
qed

lemma personal_chat_delivery_witness:
  "(\<exists>st' a. personalChat 2 (demo_db True) (demo_msg PERSONAL_CHAT ''ann'' ''bob'' ''hi'') 4 demo_server = Inr (SUCCESS, st')
      \<and> sends st' = [(5, a)] \<and> cstr (content a) = ''hi'' \<and> executed st' = [insert_text PERSONAL_CHAT ''ann'' ''bob'' ''hi'' []])
    \<and> (\<exists>a. personalChat 2 (demo_db True) (demo_msg PERSONAL_CHAT ''ann'' ''eve'' ''hi'') 4 demo_server
        = Inr (ID_NOT_ONLINE, demo_server\<lparr>sends := [(4, a)]\<rparr>))"
proof -
  have k: "length [demo_user ''ann'' 4, demo_user ''bob'' 5] \<le> 2" by simp
  have ok: "msg_ok (demo_msg PERSONAL_CHAT ''ann'' ''bob'' ''hi'')" "msg_ok (demo_msg PERSONAL_CHAT ''ann'' ''eve'' ''hi'')"
    by (rule msg_ok_demo; simp)+
  have d: "length (decimal 7) = 1" by (simp add: decimal_def digits_of.simps)
  have us: "[demo_user ''ann'' 4, demo_user ''bob'' 5] = [demo_user ''ann'' 4] @ demo_user ''bob'' 5 # []" by simp
  note bob = conjunct2 [OF personal_chat_delivery [OF demo_server_users ok(1) k, of "demo_db True" 4], rule_format, OF us]
  note eve = conjunct1 [OF personal_chat_delivery [OF demo_server_users ok(2) k, of "demo_db True" 4]]
  have "\<exists>a. personalChat 2 (demo_db True) (demo_msg PERSONAL_CHAT ''ann'' ''eve'' ''hi'') 4 demo_server
        = Inr (ID_NOT_ONLINE, demo_server\<lparr>sends := [(4, a)]\<rparr>)"
    using eve by (auto simp: uname_demo demo_server_def)
  moreover have "\<exists>st' a. personalChat 2 (demo_db True) (demo_msg PERSONAL_CHAT ''ann'' ''bob'' ''hi'') 4 demo_server = Inr (SUCCESS, st')
      \<and> sends st' = [(5, a)] \<and> cstr (content a) = ''hi'' \<and> executed st' = [insert_text PERSONAL_CHAT ''ann'' ''bob'' ''hi'' []]"
    using bob by (auto simp: d uname_demo sockfd_demo stored_def demo_db_def demo_server_def)
  ultimately show ?thesis by blast
qed

text \<open>The list request answers the asking socket with a tab and the name of every online user, in
  order, when that fits the 2048 bytes of a message, and runs over the message otherwise. A record request
  whose query finds no record writes before the start of the message.\<close>

theorem list_and_records_answers:
  assumes l: "ulist (uheap st) (users_ptr st) as us" "us \<noteq> []" "length us \<le> k" and m: "msg_ok msg"
  shows "(let s = concat (map (\<lambda>u. CHR 0x09 # uname u) us) in
      if length s < 2048
      then \<exists>a. viewUserList k msg fd st = Inr (SUCCESS, st\<lparr>sends := sends st @ [(fd, a)]\<rparr>)
        \<and> cstr (content a) = s \<and> msgType a = msgType msg
      else viewUserList k msg fd st = Inl OutOfBounds)
    \<and> (\<forall>sql nCol tbl. db_open db \<and> cstr (recvName msg) \<noteq> ''all''
        \<and> records_sql (cstr (sendName msg)) (cstr (recvName msg)) = Inr sql
        \<and> db_table db (executed st) sql = Some (0, nCol, tbl) \<longrightarrow> viewRecords db msg fd st = Inl OutOfBounds)"
proof -
  have "viewRecords db msg fd st = Inl OutOfBounds" if "db_open db" "cstr (recvName msg) \<noteq> ''all''"
    "records_sql (cstr (sendName msg)) (cstr (recvName msg)) = Inr sql"
    "db_table db (executed st) sql = Some (0, nCol, tbl)" for sql nCol tbl
    using viewRecords_empty [OF m that(1,3,2,4)] .
  moreover have "NUL \<notin> set (tabbed us)" by (rule NUL_tabbed)
  ultimately show ?thesis
    using viewUserList_run [OF l(1,2) m l(3), of fd] unfolding tabbed_def
    by (auto simp: Let_def send_msg_def reply_def intro!: exI)
qed

lemma list_and_records_answers_witness:
  "(\<exists>a. viewUserList 2 (demo_msg VIEW_USER_LIST ''ann'' [] []) 4 demo_server = Inr (SUCCESS, demo_server\<lparr>sends := [(4, a)]\<rparr>)
      \<and> cstr (content a) = CHR 0x09 # ''ann'' @ CHR 0x09 # ''bob'')
    \<and> viewRecords (demo_db True) (demo_msg VIEW_USER_LIST ''ann'' [] []) 4 demo_server = Inl OutOfBounds"
proof -
  have k: "length [demo_user ''ann'' 4, demo_user ''bob'' 5] \<le> 2" by simp
  have ok: "msg_ok (demo_msg VIEW_USER_LIST ''ann'' [] [])" by (rule msg_ok_demo; simp)
  have n: "[demo_user ''ann'' 4, demo_user ''bob'' 5] \<noteq> []" by simp
  have r: "records_sql ''ann'' [] = Inr (''select * from Message where recvName='' @ QT @ QT @ '' order by msgTime;'')"
    by (simp add: records_sql_def sprintf_into_def)
  show ?thesis
    using list_and_records_answers [OF demo_server_users n k ok, of 4 "demo_db True"] r
    by (auto simp: demo_server_def uname_demo demo_db_def)
qed

text \<open>Login, for a structure large enough for the receive buffer. A user whose name is online is
  refused; otherwise the login succeeds exactly when the database opens, the query prepares and it finds a
  row, and then a copy of the user with the connection's socket is appended to the list. No name is ever
  online twice.\<close>

theorem user_login:
  assumes "MAX_LINE \<le> usz" and l: "ulist (uheap st) (users_ptr st) as us" and d: "distinct (map uname us)"
    and u: "user_ok u" and k: "length us \<le> k" and av: "0 < avail (uheap st)"
  shows "\<exists>r st' as' us'. loginUser usz k db u msg fd st = Inr (r, st')
    \<and> ulist (uheap st') (users_ptr st') as' us' \<and> distinct (map uname us') \<and> sends st' = sends st
    \<and> (r = ALREADY_ONLINE \<longleftrightarrow> uname u \<in> uname ` set us)
    \<and> (r = SUCCESS \<longleftrightarrow> uname u \<notin> uname ` set us \<and> db_open db \<and> db_prepare db (login_text u)
        \<and> db_row db (executed st) (login_text u))
    \<and> (if r = SUCCESS then \<exists>c. us' = us @ [c] \<and> uname c = uname u \<and> sockfd c = fd else us' = us)"
proof (cases "uname u \<in> uname ` set us")
  case True
  then show ?thesis using loginUser_online [OF assms(1) l u k True] l d
    by (intro exI [of _ ALREADY_ONLINE] exI [of _ st] exI [of _ as] exI [of _ us]) simp
next
  case False
  from loginUser_new [OF assms(1) l u k False av, of db msg fd] obtain r st' as' us' where
    1: "loginUser usz k db u msg fd st = Inr (r, st')" "r \<in> {SUCCESS, FAILED}" "sends st' = sends st"
    "r = SUCCESS \<longleftrightarrow> db_open db \<and> db_prepare db (login_text u) \<and> db_row db (executed st) (login_text u)"
    "ulist (uheap st') (users_ptr st') as' us'"
    "if r = SUCCESS then \<exists>c. us' = us @ [c] \<and> uname c = uname u \<and> sockfd c = fd else us' = us" by blast
  have "distinct (map uname us')" using 1(6) d False by (auto split: if_splits)
  then show ?thesis using 1 False by (intro exI [of _ r] exI [of _ st'] exI [of _ as'] exI [of _ us']) auto
qed

lemma user_login_witness:
  "\<exists>st' as' us'. loginUser MAX_LINE 2 (demo_db True) (demo_user ''eve'' 0) zero_message 6 demo_server = Inr (SUCCESS, st')
    \<and> ulist (uheap st') (users_ptr st') as' us' \<and> map uname us' = [''ann'', ''bob'', ''eve'']"
proof -
  have k: "length [demo_user ''ann'' 4, demo_user ''bob'' 5] \<le> 2" by simp
  have d: "distinct (map uname [demo_user ''ann'' 4, demo_user ''bob'' 5])" by (simp add: uname_demo)
  have u: "user_ok (demo_user ''eve'' 0)" by (rule user_ok_demo) simp
  have av: "0 < avail (uheap demo_server)" by (simp add: demo_server_def demo_users_def)
  obtain st' as' c where "loginUser MAX_LINE 2 (demo_db True) (demo_user ''eve'' 0) zero_message 6 demo_server = Inr (SUCCESS, st')"
    "ulist (uheap st') (users_ptr st') as' [demo_user ''ann'' 4, demo_user ''bob'' 5, c]" "uname c = ''eve''"
    using user_login [OF order_refl demo_server_users d u k av, of "demo_db True" zero_message 6]
    by (auto simp: uname_demo demo_db_def)
  moreover from this have "map uname [demo_user ''ann'' 4, demo_user ''bob'' 5, c] = [''ann'', ''bob'', ''eve'']"
    by (simp add: uname_demo)
  ultimately show ?thesis
    by (intro exI [of _ st'] exI [of _ as'] exI [of _ "[demo_user ''ann'' 4, demo_user ''bob'' 5, c]"] conjI)
qed

text \<open>Registration never succeeds. The statement that would insert the new user has 108 bytes of its
  own and the 25 of the time text, more than the 128 of its buffer: once the name is found free, every
  registration runs over the buffer, whatever the names and the size of the receive structure.\<close>

theorem registration_overflows:
  assumes "length now = 25" and "MAX_LINE \<le> usz" and "user_ok u"
  defines "q \<equiv> ''select * from User where userName='' @ QT @ uname u @ QT @ '';''"
  shows "registerUser usz db now u msg fd st =
    (if \<not> db_open db \<or> \<not> db_prepare db q then Inr (FAILED, st)
     else if db_row db (executed st) q then Inr (FAILED, st\<lparr>executed := executed st @ [q]\<rparr>)
     else Inl OutOfBounds)"
proof -
  let ?u = "u\<lparr>userAddr := sendAddr msg, sockfd := fd\<rparr>"
  have n: "get_str (userName u) = Inr (uname u)" "length (uname u) < 20"
    using assms(3) length_cstr [of "userName u"] by (simp_all add: user_ok_def uname_def)
  have "exists_sql ?u = Inr q" using n by (simp add: exists_sql_def sprintf_into_def q_def)
  moreover have "insert_sql ?u now = Inl OutOfBounds"
    using assms(1,3) by (simp add: insert_sql_def sprintf_into_def user_ok_def)
  ultimately show ?thesis using n assms(2) by (simp add: registerUser_def memcpy_into_def Let_def)
qed

lemma registration_overflows_witness:
  "registerUser MAX_LINE (demo_db False) ''Tue Nov 18 07:00:00 2025'' (demo_user ''eve'' 0) zero_message 6 demo_server
      = Inr (FAILED, demo_server)
    \<and> registerUser MAX_LINE ((demo_db True)\<lparr>db_row := \<lambda>_ _. False\<rparr>) (''Tue Nov 18 07:00:00 2025'' @ [CHR 0x0A])
        (demo_user ''eve'' 0) zero_message 6 demo_server = Inl OutOfBounds"
proof -
  have u: "user_ok (demo_user ''eve'' 0)" by (rule user_ok_demo) simp
  have t: "length (''Tue Nov 18 07:00:00 2025'' @ [CHR 0x0A]) = 25" by simp
  have "registerUser MAX_LINE (demo_db False) ''Tue Nov 18 07:00:00 2025'' (demo_user ''eve'' 0) zero_message 6 demo_server
      = Inr (FAILED, demo_server)"
    using u by (simp add: registerUser_def memcpy_into_def user_ok_def demo_db_def length_cstr less_imp_le)
      (use length_cstr [of "userName (demo_user ''eve'' 0)"] u in \<open>simp add: user_ok_def\<close>)
  then show ?thesis using registration_overflows [OF t order_refl u, of "(demo_db True)\<lparr>db_row := \<lambda>_ _. False\<rparr>" zero_message 6 demo_server]
    by (simp add: demo_db_def)
qed

text \<open>Leaving the chat. When a user who is not the first of the list exits, the others stay online in
  order and the socket is closed. When the first user exits, the server keeps a pointer to the freed node:
  the next group message of anyone reads it.\<close>

theorem exit_of_user:
  assumes l: "ulist (uheap st) (users_ptr st) as (us1 @ u # us2)" and m: "msg_ok m" "msgType m = EXIT"
    and u: "uname u = cstr (sendName m)" "\<forall>w\<in>set us1. uname w \<noteq> cstr (sendName m)" and k: "length us1 < k"
  shows "\<exists>st'. chat_request k db m fd st = Inr (False, st') \<and> closed st' = closed st @ [fd]
    \<and> (if us1 = [] then \<forall>msg fd2. msg_ok msg \<longrightarrow> groupChat k db msg fd2 st' = Inl BadPointer
       else \<exists>as'. ulist (uheap st') (users_ptr st') as' (us1 @ us2))"
proof -
  let ?v = "zero_user\<lparr>userName := pad 20 (cstr (sendName m))\<rparr>"
  note v = zero_name [OF m(1)]
  have nul: "NUL \<in> set (userName ?v)" using v(1) by (simp only: user_ok_def)
  show ?thesis
  proof (cases "us1 = []")
    case True
    then obtain h' where h: "deleteNode k (users_ptr st) ?v (uheap st) = Inr h'" "load h' (users_ptr st) = Inl BadPointer"
      using deleteNode_head [of "uheap st" "users_ptr st" as u us2 ?v k] l u v nul k by auto
    have "groupChat k db msg fd2 (close_fd fd (st\<lparr>uheap := h'\<rparr>)) = Inl BadPointer" if "msg_ok msg" for msg fd2
      using that h(2) by (simp add: groupChat_def start_reply_ok close_fd_def)
    then show ?thesis using h(1) True exit_request [OF m, of k db fd st] by (auto simp: close_fd_def)
  next
    case False
    have "length us1 < length as" using ulist_length [OF l] by simp
    then have as: "as = take (length us1) as @ as ! length us1 # drop (Suc (length us1)) as"
      "length (take (length us1) as) = length us1" by (simp_all add: id_take_nth_drop)
    obtain h' where h: "deleteNode k (users_ptr st) ?v (uheap st) = Inr h'"
      "ulist h' (users_ptr st) (take (length us1) as @ drop (Suc (length us1)) as) (us1 @ us2)"
      using deleteNode_inner [of "uheap st" "users_ptr st" "take (length us1) as" "as ! length us1"
          "drop (Suc (length us1)) as" us1 u us2 ?v k] l u v nul k False as by auto
    then show ?thesis using False exit_request [OF m, of k db fd st] by (auto simp: close_fd_def)
  qed
qed

lemma exit_of_user_witness:
  "(\<exists>st'. chat_request 3 (demo_db True) (demo_msg EXIT ''ann'' [] []) 4 demo_server = Inr (False, st')
      \<and> groupChat 3 (demo_db True) (demo_msg GROUP_CHAT ''bob'' [] ''hi'') 5 st' = Inl BadPointer)
    \<and> (\<exists>st' as'. chat_request 3 (demo_db True) (demo_msg EXIT ''bob'' [] []) 5 demo_server = Inr (False, st')
      \<and> ulist (uheap st') (users_ptr st') as' [demo_user ''ann'' 4])"
proof -
  have ok: "msg_ok (demo_msg EXIT ''ann'' [] [])" "msg_ok (demo_msg EXIT ''bob'' [] [])" "msg_ok (demo_msg GROUP_CHAT ''bob'' [] ''hi'')"
    by (rule msg_ok_demo; simp)+
  have l: "ulist (uheap demo_server) (users_ptr demo_server) [1, 2] ([] @ demo_user ''ann'' 4 # [demo_user ''bob'' 5])"
    "ulist (uheap demo_server) (users_ptr demo_server) [1, 2] ([demo_user ''ann'' 4] @ demo_user ''bob'' 5 # [])"
    using demo_server_users by simp_all
  show ?thesis
    using exit_of_user [OF l(1) ok(1), of 3 "demo_db True" 4] exit_of_user [OF l(2) ok(2), of 3 "demo_db True" 5] ok(3)
    by (auto simp: uname_demo)
qed

end
