(* ===== verification/Runs.thy ===== *)
theory Runs
  imports Main
begin

text \<open>
  The contract of a step relation with an invariant, and of one whose runs all end: the concurrent programs
  of the repository are step relations on a record of their shared and local variables, and each of them
  provides one of these contracts.
\<close>

locale invariant_system =
  fixes step :: "'s \<Rightarrow> 's \<Rightarrow> bool" and init :: 's and inv :: "'s \<Rightarrow> bool"
  assumes init_inv: "inv init"
    and step_inv: "inv s \<Longrightarrow> step s t \<Longrightarrow> inv t"
begin

lemma run_inv: "step\<^sup>*\<^sup>* s t \<Longrightarrow> inv s \<Longrightarrow> inv t"
  by (induction rule: rtranclp_induct) (blast intro: step_inv)+

lemma reach_inv: "step\<^sup>*\<^sup>* init s \<Longrightarrow> inv s"
  using run_inv init_inv by blast

end

locale ending_system = invariant_system +
  fixes weight :: "'s \<Rightarrow> nat"
  assumes step_weight: "inv s \<Longrightarrow> step s t \<Longrightarrow> weight t < weight s"
begin

lemma run_length: "(step ^^ n) s t \<Longrightarrow> inv s \<Longrightarrow> n + weight t \<le> weight s"
proof (induction n arbitrary: s)
  case (Suc n)
  then obtain u where u: "step s u" "(step ^^ n) u t" by (meson relpowp_Suc_D2)
  show ?case using Suc.IH [OF u(2) step_inv [OF Suc.prems(2) u(1)]] step_weight [OF Suc.prems(2) u(1)] by simp
qed simp

lemma reach_length: "(step ^^ n) init s \<Longrightarrow> n \<le> weight init"
  using run_length init_inv by fastforce

lemma run_end: "inv s \<Longrightarrow> \<exists>t. step\<^sup>*\<^sup>* s t \<and> inv t \<and> (\<forall>u. \<not> step t u)"
proof (induction "weight s" arbitrary: s rule: less_induct)
  case less
  show ?case
  proof (cases "\<exists>u. step s u")
    case True
    then obtain u where u: "step s u" by blast
    obtain t where "step\<^sup>*\<^sup>* u t" "inv t" "\<forall>u. \<not> step t u"
      using less.hyps [OF step_weight [OF less.prems u] step_inv [OF less.prems u]] by blast
    then show ?thesis using converse_rtranclp_into_rtranclp [of step, OF u] by blast
  qed (use less.prems in blast)
qed

end

end
