(* ===== verification/ChatSelect.thy ===== *)
theory ChatSelect
  imports Prelude Runs "HOL-Library.Multiset"
begin

text \<open>
  The accept loop of the chat server, \<open>main\<close> of
  \<^verbatim>\<open>src/socket_test/ChatRome -- select/server/server.c\<close>: the table of waiting connections, the
  descriptor set passed to \<open>select\<close>, and the hand-over of a connection to a thread through the address
  of the loop's own variable. The results of \<open>select\<close> and \<open>accept\<close> are inputs, and so are the writes of the threads
  to the variable while the loop uses it.
\<close>

section \<open>One pass of the loop\<close>

record accept_state =
  allset :: "int set"
  client_sockfd :: "int list"
  maxi :: int
  maxfd :: int

definition accept_init :: "nat \<Rightarrow> int \<Rightarrow> accept_state" where
  "accept_init n listenfd = \<lparr>allset = {listenfd}, client_sockfd = replicate n (-1), maxi = -1, maxfd = listenfd\<rparr>"

text \<open>The first free index of the table from \<open>i\<close> on; the length of the table when there is none.\<close>

fun free_slot :: "int list \<Rightarrow> nat" where
  "free_slot [] = 0"
| "free_slot (c # cs) = (if c < 0 then 0 else Suc (free_slot cs))"

text \<open>\<open>None\<close>: the process exits, because \<open>accept\<close> failed or the table is full.\<close>

definition accept_client :: "int \<Rightarrow> accept_state \<Rightarrow> accept_state option" where
  "accept_client connfd s =
     (if connfd < 0 then None
      else let i = free_slot (client_sockfd s)
        in if i = length (client_sockfd s) then None
           else Some (s\<lparr>client_sockfd := (client_sockfd s)[i := connfd], allset := insert connfd (allset s),
             maxfd := (if connfd > maxfd s then connfd else maxfd s),
             maxi := (if int i > maxi s then int i else maxi s)\<rparr>))"

text \<open>
  The loop over the table from index \<open>i\<close>, \<open>n\<close> indices to go. A thread is given the address of \<open>sockfd\<close> and stores
  \<open>-1\<close> there when it is done, in this turn or a later one: \<open>w i\<close> says whether such a write has come between the
  assignment of \<open>sockfd\<close> and its test by \<open>FD_ISSET\<close>, and whether one has come between the test and \<open>FD_CLR\<close>.
  Both macros are undefined for \<open>-1\<close>: a fault. The result counts the threads created; what they read from the
  address is the matter of \<open>race_step\<close> below.
\<close>

fun scan :: "(nat \<Rightarrow> bool \<times> bool) \<Rightarrow> nat \<Rightarrow> nat \<Rightarrow> int \<Rightarrow> int set \<Rightarrow> accept_state \<Rightarrow> nat \<Rightarrow> (accept_state \<times> nat) res" where
  "scan w 0 i nready rset s threads = Inr (s, threads)"
| "scan w (Suc n) i nready rset s threads =
     (if length (client_sockfd s) \<le> i then Inl OutOfBounds
      else let sockfd = client_sockfd s ! i in
      if sockfd < 0 then scan w n (Suc i) nready rset s threads
      else let sockfd = (if fst (w i) then -1 else sockfd) in
      if sockfd < 0 then Inl OutOfBounds
      else if sockfd \<in> rset \<and> nready - 1 < 0 then Inr (s, threads)
      else let ready = sockfd \<in> rset; sockfd = (if snd (w i) then -1 else sockfd) in
      if sockfd < 0 then Inl OutOfBounds
      else scan w n (Suc i) (if ready then nready - 1 else nready) rset
        (s\<lparr>allset := allset s - {sockfd}, client_sockfd := (client_sockfd s)[i := -1]\<rparr>)
        (if ready then Suc threads else threads))"

definition scan_all :: "(nat \<Rightarrow> bool \<times> bool) \<Rightarrow> int \<Rightarrow> int set \<Rightarrow> accept_state \<Rightarrow> (accept_state \<times> nat) res" where
  "scan_all w nready rset s = scan w (nat (maxi s + 1)) 0 nready rset s 0"

text \<open>One turn of \<open>while (1)\<close>: \<open>select\<close> has answered \<open>nready\<close> and \<open>rset\<close>, \<open>accept\<close> would answer
  \<open>connfd\<close>.\<close>

definition select_pass :: "(nat \<Rightarrow> bool \<times> bool) \<Rightarrow> int \<Rightarrow> int \<Rightarrow> int set \<Rightarrow> int \<Rightarrow> accept_state \<Rightarrow> (accept_state \<times> nat) option res" where
  "select_pass w listenfd nready rset connfd s =
     (if listenfd \<in> rset then
        (case accept_client connfd s of None \<Rightarrow> Inr None
         | Some s' \<Rightarrow> if nready - 1 \<le> 0 then Inr (Some (s', 0)) else rbind (scan_all w (nready - 1) rset s') (\<lambda>r. Inr (Some r)))
      else rbind (scan_all w nready rset s) (\<lambda>r. Inr (Some r)))"

section \<open>What a pass does to the table\<close>

text \<open>The connections in the table, in order.\<close>

definition waiting :: "accept_state \<Rightarrow> int list" where
  "waiting s = filter (\<lambda>c. 0 \<le> c) (client_sockfd s)"

definition accept_inv :: "int \<Rightarrow> accept_state \<Rightarrow> bool" where
  "accept_inv listenfd s \<longleftrightarrow> 0 \<le> listenfd \<and> -1 \<le> maxi s \<and> maxi s < int (length (client_sockfd s))
     \<and> (\<forall>i < length (client_sockfd s). maxi s < int i \<longrightarrow> client_sockfd s ! i < 0)
     \<and> distinct (waiting s) \<and> listenfd \<notin> set (waiting s) \<and> allset s = insert listenfd (set (waiting s))"

lemma accept_init_inv: "0 \<le> listenfd \<Longrightarrow> accept_inv listenfd (accept_init n listenfd)"
  by (auto simp: accept_inv_def accept_init_def waiting_def)

lemma free_slot_le: "free_slot cs \<le> length cs"
  by (induction cs) auto

lemma free_slot_nth: "free_slot cs < length cs \<Longrightarrow> cs ! free_slot cs < 0"
  by (induction cs) auto

lemma filter_free_slot:
  "free_slot cs < length cs \<Longrightarrow> 0 \<le> c \<Longrightarrow>
    mset (filter (\<lambda>c. 0 \<le> c) (cs[free_slot cs := c])) = add_mset c (mset (filter (\<lambda>c. 0 \<le> c) cs))"
  by (induction cs) (auto split: if_splits)

lemma filter_other_slot:
  "free_slot cs < length cs \<Longrightarrow> \<not> P c \<Longrightarrow> filter (\<lambda>c. 0 \<le> c \<and> P c) (cs[free_slot cs := c]) = filter (\<lambda>c. 0 \<le> c \<and> P c) cs"
  by (induction cs) auto

lemma accept_client_inv:
  assumes i: "accept_inv listenfd s" and c: "0 \<le> connfd" "connfd \<notin> allset s" and room: "free_slot (client_sockfd s) < length (client_sockfd s)"
  shows "\<exists>s'. accept_client connfd s = Some s' \<and> accept_inv listenfd s' \<and> set (waiting s') = insert connfd (set (waiting s))
    \<and> (\<forall>P. \<not> P connfd \<longrightarrow> filter P (waiting s') = filter P (waiting s))"
proof -
  let ?cs = "client_sockfd s" let ?i = "free_slot ?cs"
  let ?s = "s\<lparr>client_sockfd := ?cs[?i := connfd], allset := insert connfd (allset s),
     maxfd := (if connfd > maxfd s then connfd else maxfd s), maxi := (if int ?i > maxi s then int ?i else maxi s)\<rparr>"
  have a: "accept_client connfd s = Some ?s" using c(1) room by (simp add: accept_client_def Let_def)
  have m: "mset (waiting ?s) = add_mset connfd (mset (waiting s))"
    using filter_free_slot [OF room c(1)] by (simp add: waiting_def)
  have w: "set (waiting ?s) = insert connfd (set (waiting s))" using arg_cong [OF m, of set_mset] by simp
  have nw: "connfd \<notin> set (waiting s)" "connfd \<noteq> listenfd" using c(2) i by (auto simp: accept_inv_def)
  have "distinct (waiting s)" using i by (simp add: accept_inv_def)
  then have "distinct (connfd # waiting s)" using nw(1) by simp
  moreover have "mset (waiting ?s) = mset (connfd # waiting s)" using m by simp
  ultimately have d: "distinct (waiting ?s)" using mset_eq_imp_distinct_iff by blast
  have "accept_inv listenfd ?s"
    using i room d w nw unfolding accept_inv_def by (auto simp: nth_list_update split: if_splits)
  moreover have "filter P (waiting ?s) = filter P (waiting s)" if "\<not> P connfd" for P
    using filter_other_slot [OF room, of P connfd] that by (simp add: waiting_def conj_commute)
  ultimately show ?thesis using a w by blast
qed

definition cleared :: "int list \<Rightarrow> int list" where
  "cleared = map (\<lambda>c. if c < 0 then c else -1)"

text \<open>A thread has written to the variable while a connection of the table was being looked at.\<close>

definition overwritten :: "(nat \<Rightarrow> bool \<times> bool) \<Rightarrow> accept_state \<Rightarrow> nat \<Rightarrow> bool" where
  "overwritten w s i \<longleftrightarrow> i < length (client_sockfd s) \<and> 0 \<le> client_sockfd s ! i \<and> (fst (w i) \<or> snd (w i))"

abbreviation (input) ready_in :: "int set \<Rightarrow> int list \<Rightarrow> int list" where
  "ready_in rset cs \<equiv> filter (\<lambda>c. 0 \<le> c \<and> c \<in> rset) cs"

lemma scan_step:
  assumes "i < length (client_sockfd s)" "0 \<le> client_sockfd s ! i" "client_sockfd s ! i \<in> rset \<longrightarrow> 1 \<le> nready"
  shows "scan w (Suc n) i nready rset s k = (if overwritten w s i then Inl OutOfBounds
    else scan w n (Suc i) (if client_sockfd s ! i \<in> rset then nready - 1 else nready) rset
      (s\<lparr>allset := allset s - {client_sockfd s ! i}, client_sockfd := (client_sockfd s)[i := -1]\<rparr>)
      (if client_sockfd s ! i \<in> rset then Suc k else k))"
  using assms by (auto simp: overwritten_def Let_def)

lemma scan_run:
  assumes "i + n \<le> length (client_sockfd s)" "int (length (ready_in rset (take n (drop i (client_sockfd s))))) \<le> nready"
  shows "scan w n i nready rset s k =
    (if \<exists>j\<ge>i. j < i + n \<and> overwritten w s j then Inl OutOfBounds else
     Inr (s\<lparr>allset := allset s - {c \<in> set (take n (drop i (client_sockfd s))). 0 \<le> c},
       client_sockfd := take i (client_sockfd s) @ cleared (take n (drop i (client_sockfd s))) @ drop (i + n) (client_sockfd s)\<rparr>,
     k + length (ready_in rset (take n (drop i (client_sockfd s))))))"
  using assms
proof (induction n arbitrary: i nready s k)
  case (Suc n)
  let ?cs = "client_sockfd s" and ?c = "client_sockfd s ! i"
  have i: "i < length ?cs" using Suc.prems(1) by simp
  have d: "take (Suc n) (drop i ?cs) = ?c # take n (drop (Suc i) ?cs)"
    using i by (simp add: Cons_nth_drop_Suc [symmetric])
  have ex: "(\<exists>j\<ge>i. j < i + Suc n \<and> overwritten w s j) \<longleftrightarrow> overwritten w s i \<or> (\<exists>j\<ge>Suc i. j < Suc i + n \<and> overwritten w s j)"
    by (metis Suc_leI add_Suc add_Suc_right le_add1 le_less less_Suc_eq_le Suc_leD)
  show ?case
  proof (cases "?c < 0")
    case True
    then have st: "scan w (Suc n) i nready rset s k = scan w n (Suc i) nready rset s k" using i by (simp add: Let_def)
    have tk: "take (Suc i) ?cs = take i ?cs @ [?c]" using i by (simp add: take_Suc_conv_app_nth)
    have g1: "{c \<in> set (take (Suc n) (drop i ?cs)). 0 \<le> c} = {c \<in> set (take n (drop (Suc i) ?cs)). 0 \<le> c}"
      using True unfolding d by auto
    have g2: "ready_in rset (take (Suc n) (drop i ?cs)) = ready_in rset (take n (drop (Suc i) ?cs))"
      and g3: "cleared (take (Suc n) (drop i ?cs)) = ?c # cleared (take n (drop (Suc i) ?cs))"
      using True unfolding d by (auto simp: cleared_def)
    have no: "\<not> overwritten w s i" using True by (simp add: overwritten_def)
    have "Suc i + n \<le> length ?cs" "int (length (ready_in rset (take n (drop (Suc i) ?cs)))) \<le> nready"
      using Suc.prems unfolding g2 by simp_all
    note ih = Suc.IH [OF this, of k]
    show ?thesis unfolding st ih ex g1 g2 g3 tk using no by auto
  next
    case False
    let ?s = "s\<lparr>allset := allset s - {?c}, client_sockfd := ?cs[i := -1]\<rparr>"
    let ?r = "if ?c \<in> rset then nready - 1 else nready" and ?k = "if ?c \<in> rset then Suc k else k"
    have rest: "drop (Suc i) (?cs[i := -1]) = drop (Suc i) ?cs" "take (Suc i) (?cs[i := -1]) = take i ?cs @ [-1]"
      "drop (Suc i + n) (?cs[i := -1]) = drop (Suc i + n) ?cs"
      using i by (simp_all add: take_Suc_conv_app_nth)
    have step: "scan w (Suc n) i nready rset s k = (if overwritten w s i then Inl OutOfBounds else scan w n (Suc i) ?r rset ?s ?k)"
      using False Suc.prems(2) i unfolding d by (intro scan_step) auto
    have same: "overwritten w ?s j \<longleftrightarrow> overwritten w s j" if "Suc i \<le> j" for j using that by (simp add: overwritten_def)
    have "Suc i + n \<le> length (client_sockfd ?s)"
      "int (length (ready_in rset (take n (drop (Suc i) (client_sockfd ?s))))) \<le> ?r"
      using Suc.prems False unfolding d by (auto simp: rest)
    from Suc.IH [OF this, of ?k] have ih: "scan w n (Suc i) ?r rset ?s ?k =
      (if \<exists>j\<ge>Suc i. j < Suc i + n \<and> overwritten w s j then Inl OutOfBounds else
       Inr (?s\<lparr>allset := allset ?s - {c \<in> set (take n (drop (Suc i) ?cs)). 0 \<le> c},
         client_sockfd := (take i ?cs @ [-1]) @ cleared (take n (drop (Suc i) ?cs)) @ drop (Suc i + n) ?cs\<rparr>,
       ?k + length (ready_in rset (take n (drop (Suc i) ?cs)))))"
      using same by (simp add: rest cong: conj_cong)
    have f1: "{c \<in> set (take (Suc n) (drop i ?cs)). 0 \<le> c} = insert ?c {c \<in> set (take n (drop (Suc i) ?cs)). 0 \<le> c}"
      using False unfolding d by auto
    have f2: "cleared (take (Suc n) (drop i ?cs)) = -1 # cleared (take n (drop (Suc i) ?cs))"
      using False unfolding d by (simp add: cleared_def)
    have f3: "k + length (ready_in rset (take (Suc n) (drop i ?cs))) = ?k + length (ready_in rset (take n (drop (Suc i) ?cs)))"
      using False unfolding d by simp
    have f4: "?s\<lparr>allset := allset ?s - A, client_sockfd := B\<rparr> = s\<lparr>allset := allset s - insert ?c A, client_sockfd := B\<rparr>" for A B
      using Diff_insert2 [of "allset s" ?c A] by (simp del: Diff_insert0 Diff_insert_absorb)
    show ?thesis unfolding step ih ex f1 f2 f3 f4 by auto
  qed
qed (simp add: cleared_def)

lemma waiting_cleared: "filter (\<lambda>c. 0 \<le> c) (cleared cs) = []"
  by (induction cs) (auto simp: cleared_def)

lemma waiting_take:
  assumes i: "accept_inv listenfd s"
  shows "nat (maxi s + 1) \<le> length (client_sockfd s)"
    and "filter (\<lambda>c. 0 \<le> c) (drop (nat (maxi s + 1)) (client_sockfd s)) = []"
    and "waiting s = filter (\<lambda>c. 0 \<le> c) (take (nat (maxi s + 1)) (client_sockfd s))"
proof -
  let ?cs = "client_sockfd s" and ?n = "nat (maxi s + 1)"
  show "?n \<le> length ?cs" using i by (auto simp: accept_inv_def)
  have "\<forall>c\<in>set (drop ?n ?cs). c < 0"
  proof
    fix c assume "c \<in> set (drop ?n ?cs)"
    then obtain j where "c = ?cs ! (?n + j)" "?n + j < length ?cs" by (auto simp: in_set_conv_nth)
    then show "c < 0" using i by (auto simp: accept_inv_def)
  qed
  then show none: "filter (\<lambda>c. 0 \<le> c) (drop ?n ?cs) = []" by (auto simp: filter_empty_conv)
  show "waiting s = filter (\<lambda>c. 0 \<le> c) (take ?n ?cs)"
    unfolding waiting_def using none by (metis append_Nil2 append_take_drop_id filter_append)
qed

lemma scan_all_result:
  assumes i: "accept_inv listenfd s" and n: "int (length (filter (\<lambda>c. c \<in> rset) (waiting s))) \<le> nready"
  shows "if \<exists>j. overwritten w s j then scan_all w nready rset s = Inl OutOfBounds
    else \<exists>s'. scan_all w nready rset s = Inr (s', length (filter (\<lambda>c. c \<in> rset) (waiting s))) \<and> waiting s' = [] \<and> allset s' = {listenfd}
      \<and> accept_inv listenfd s'"
proof -
  let ?cs = "client_sockfd s" and ?n = "nat (maxi s + 1)"
  note le = waiting_take(1) [OF i] and rest = waiting_take(2) [OF i] and w = waiting_take(3) [OF i]
  have ready: "filter (\<lambda>c. c \<in> rset) (waiting s) = ready_in rset (take ?n ?cs)"
    by (simp add: w conj_commute)
  have overwrites: "(\<exists>j\<ge>0. j < 0 + ?n \<and> overwritten w s j) \<longleftrightarrow> (\<exists>j. overwritten w s j)"
  proof -
    have "j < ?n" if "overwritten w s j" for j
    proof (rule ccontr)
      assume "\<not> j < ?n"
      then have "maxi s < int j" by linarith
      then show False using i that by (auto simp: overwritten_def accept_inv_def)
    qed
    then show ?thesis by auto
  qed
  let ?s = "s\<lparr>allset := allset s - {c \<in> set (take ?n ?cs). 0 \<le> c}, client_sockfd := cleared (take ?n ?cs) @ drop ?n ?cs\<rparr>"
  have r: "scan_all w nready rset s = (if \<exists>j. overwritten w s j then Inl OutOfBounds else Inr (?s, length (filter (\<lambda>c. c \<in> rset) (waiting s))))"
    using scan_run [of 0 ?n s rset nready w 0] le n unfolding scan_all_def ready overwrites by simp
  have wt: "waiting ?s = []" using rest waiting_cleared by (simp add: waiting_def)
  have al: "allset ?s = {listenfd}" using i w by (auto simp: accept_inv_def)
  have len: "length (cleared (take ?n ?cs) @ drop ?n ?cs) = length ?cs" using le by (simp add: cleared_def)
  have "(cleared (take ?n ?cs) @ drop ?n ?cs) ! j < 0" if "j < length ?cs" for j
  proof -
    have "\<not> 0 \<le> (cleared (take ?n ?cs) @ drop ?n ?cs) ! j"
    proof
      assume "0 \<le> (cleared (take ?n ?cs) @ drop ?n ?cs) ! j"
      moreover have "(cleared (take ?n ?cs) @ drop ?n ?cs) ! j \<in> set (cleared (take ?n ?cs) @ drop ?n ?cs)"
        by (rule nth_mem) (use that len in simp)
      ultimately show False using wt by (auto simp: waiting_def filter_empty_conv)
    qed
    then show ?thesis by simp
  qed
  then have "accept_inv listenfd ?s" using i wt al len by (auto simp: accept_inv_def)
  then show ?thesis using r wt al by auto
qed

lemma ready_count:
  assumes "accept_inv listenfd s" "rset \<subseteq> allset s"
  shows "length (filter (\<lambda>c. c \<in> rset) (waiting s)) = card (rset - {listenfd})"
proof -
  have "set (filter (\<lambda>c. c \<in> rset) (waiting s)) = rset - {listenfd}" "distinct (waiting s)"
    using assms by (auto simp: accept_inv_def)
  then show ?thesis using distinct_card [OF distinct_filter] by metis
qed

text \<open>C31: one turn of the server's loop, with a truthful \<open>select\<close> and room in the table; \<open>t\<close> is the table with the new
  connection, if there is one. When only the listening socket is ready, the turn ends with that. In every other turn, if
  a thread of this turn or an earlier one writes to the loop's variable while a connection is looked at, the server
  passes \<open>-1\<close> to \<open>FD_ISSET\<close> or \<open>FD_CLR\<close>. If none does, as many threads are created as connections are ready, and then
  \<^emph>\<open>every\<close> connection is taken off the table and the descriptor set, the new one and those that had nothing to read
  included: they are never looked at again.\<close>

theorem select_pass_drops_waiting:
  assumes i: "accept_inv listenfd s" and r: "rset \<subseteq> allset s" "rset \<noteq> {}" "nready = int (card rset)"
    and c: "0 \<le> connfd" "connfd \<notin> allset s" and room: "free_slot (client_sockfd s) < length (client_sockfd s)"
  shows "\<exists>t. (if listenfd \<in> rset then accept_client connfd s = Some t \<and> accept_inv listenfd t \<and> set (waiting t) = insert connfd (set (waiting s))
        else t = s)
    \<and> (if rset = {listenfd} then select_pass w listenfd nready rset connfd s = Inr (Some (t, 0))
       else if \<exists>j. overwritten w t j then select_pass w listenfd nready rset connfd s = Inl OutOfBounds
       else \<exists>s'. select_pass w listenfd nready rset connfd s = Inr (Some (s', card (rset - {listenfd}))) \<and> accept_inv listenfd s'
         \<and> waiting s' = [] \<and> allset s' = {listenfd})"
proof (cases "listenfd \<in> rset")
  case True
  have fin: "finite rset" using r(1) i by (auto simp: accept_inv_def intro: finite_subset)
  obtain t where t: "accept_client connfd s = Some t" "accept_inv listenfd t"
    "set (waiting t) = insert connfd (set (waiting s))" "\<And>P. \<not> P connfd \<Longrightarrow> filter P (waiting t) = filter P (waiting s)"
    using accept_client_inv [OF i c room] by blast
  have nr: "nready - 1 = int (card (rset - {listenfd}))" using r(3) True fin card_Suc_Diff1 [OF fin True] by simp
  have fresh: "connfd \<notin> rset" using r(1) c(2) by auto
  have len: "length (filter (\<lambda>c. c \<in> rset) (waiting t)) = card (rset - {listenfd})"
    using ready_count [OF i r(1)] t(4) [of "\<lambda>c. c \<in> rset", OF fresh] by simp
  show ?thesis
  proof (cases "rset = {listenfd}")
    case True
    then show ?thesis using t(1-3) r(3) by (simp add: select_pass_def)
  next
    case False
    then have "rset - {listenfd} \<noteq> {}" using True by auto
    then have pos: "\<not> nready - 1 \<le> 0" using nr fin by (simp add: card_gt_0_iff)
    then show ?thesis using scan_all_result [OF t(2), of rset "nready - 1" w] len nr t(1-3) True False
      by (intro exI [of _ t]) (auto simp: select_pass_def split: if_splits)
  qed
next
  case False
  then have "card (rset - {listenfd}) = card rset" "rset \<noteq> {listenfd}" by auto
  then show ?thesis using False scan_all_result [OF i, of rset nready w] ready_count [OF i r(1)] r(3)
    by (intro exI [of _ s]) (auto simp: select_pass_def split: if_splits)
qed

lemma select_pass_drops_waiting_witness:
  "\<exists>s. accept_client 5 (accept_init 8 3) = Some s \<and> (\<exists>s'. select_pass (\<lambda>_. (False, False)) 3 2 {3, 5} 6 s = Inr (Some (s', 1)) \<and> waiting s' = [])
    \<and> select_pass (\<lambda>_. (False, True)) 3 2 {3, 5} 6 s = Inl OutOfBounds"
proof -
  have i0: "accept_inv 3 (accept_init 8 3)" by (rule accept_init_inv) simp
  obtain s where s: "accept_client 5 (accept_init 8 3) = Some s" "accept_inv 3 s"
    using accept_client_inv [OF i0, of 5] by (auto simp: accept_init_def eval_nat_numeral)
  have e: "s = \<lparr>allset = {5, 3}, client_sockfd = [5, -1, -1, -1, -1, -1, -1, -1], maxi = 0, maxfd = 5\<rparr>"
    using s(1) by (simp add: accept_client_def accept_init_def eval_nat_numeral)
  have sub: "{3, 5} \<subseteq> allset s" "{3 :: int, 5} \<noteq> {}" "(2 :: int) = int (card {3 :: int, 5})" "(0 :: int) \<le> 6" "6 \<notin> allset s"
    "free_slot (client_sockfd s) < length (client_sockfd s)" by (simp_all add: e)
  have t: "accept_client 6 s = Some t \<Longrightarrow> client_sockfd t = [5, 6, -1, -1, -1, -1, -1, -1]" for t
    by (drule sym) (auto simp: e accept_client_def)
  have h: "\<exists>j. overwritten (\<lambda>_. (False, True)) t j" "\<not> (\<exists>j. overwritten (\<lambda>_. (False, False)) t j)" if "accept_client 6 s = Some t" for t
    using t [OF that] by (auto simp: overwritten_def intro: exI [of _ 0])
  have ne: "{3 :: int, 5} \<noteq> {3}" "(3 :: int) \<in> {3, 5}" "card ({3, 5} - {3 :: int}) = 1" by auto
  note pass = select_pass_drops_waiting [OF s(2) sub, unfolded if_P [OF ne(2)] if_not_P [OF ne(1)] ne(3)]
  have "\<exists>s'. select_pass (\<lambda>_. (False, False)) 3 2 {3, 5} 6 s = Inr (Some (s', 1)) \<and> waiting s' = []"
    using pass [of "\<lambda>_. (False, False)"] h(2) by (auto simp only: if_False)
  moreover have "select_pass (\<lambda>_. (False, True)) 3 2 {3, 5} 6 s = Inl OutOfBounds"
    using pass [of "\<lambda>_. (False, True)"] h(1) by (auto simp only: if_True)
  ultimately show ?thesis using s(1) by blast
qed

section \<open>The loop variable shared with the threads\<close>

text \<open>The loop over the table runs beside the threads it has created, and each thread is given the address
  of the loop's variable \<open>sockfd\<close>: it reads the variable when it starts and stores \<open>-1\<close> there when it
  ends. \<open>todo\<close> holds the table entries still to visit; \<open>fresh\<close> counts the threads that have not read the
  variable yet, \<open>busy\<close> are the sockets being served, \<open>served\<close> all that were ever read and \<open>fd_clr\<close> the
  arguments of \<open>FD_CLR\<close>, in order.\<close>

datatype main_pc = AtFetch | AtTest | AtClear

record race =
  pc :: main_pc
  todo :: "int list"
  sockfd :: int
  fresh :: nat
  busy :: "int list"
  served :: "int list"
  fd_clr :: "int list"

definition race_init :: "int list \<Rightarrow> race" where
  "race_init cs = \<lparr>pc = AtFetch, todo = cs, sockfd = -1, fresh = 0, busy = [], served = [], fd_clr = []\<rparr>"

inductive race_step :: "int set \<Rightarrow> race \<Rightarrow> race \<Rightarrow> bool" for rset where
  skip: "pc s = AtFetch \<Longrightarrow> todo s = c # cs \<Longrightarrow> c < 0 \<Longrightarrow> race_step rset s (s\<lparr>todo := cs, sockfd := c\<rparr>)"
| fetch: "pc s = AtFetch \<Longrightarrow> todo s = c # cs \<Longrightarrow> 0 \<le> c \<Longrightarrow> race_step rset s (s\<lparr>pc := AtTest, todo := cs, sockfd := c\<rparr>)"
| spawn: "pc s = AtTest \<Longrightarrow> sockfd s \<in> rset \<Longrightarrow> race_step rset s (s\<lparr>pc := AtClear, fresh := Suc (fresh s)\<rparr>)"
| idle: "pc s = AtTest \<Longrightarrow> sockfd s \<notin> rset \<Longrightarrow> race_step rset s (s\<lparr>pc := AtClear\<rparr>)"
| clear: "pc s = AtClear \<Longrightarrow> race_step rset s (s\<lparr>pc := AtFetch, fd_clr := fd_clr s @ [sockfd s]\<rparr>)"
| start: "fresh s = Suc n \<Longrightarrow> race_step rset s (s\<lparr>fresh := n, busy := sockfd s # busy s, served := served s @ [sockfd s]\<rparr>)"
| finish: "c \<in> set (busy s) \<Longrightarrow> race_step rset s (s\<lparr>busy := remove1 c (busy s), sockfd := -1\<rparr>)"

abbreviation race_run :: "int set \<Rightarrow> race \<Rightarrow> race \<Rightarrow> bool" where
  "race_run rset \<equiv> (race_step rset)\<^sup>*\<^sup>*"

inductive_cases race_stepE: "race_step rset s s'"

lemmas race_step_then =
  converse_rtranclp_into_rtranclp [where r = "race_step rset" for rset]

text \<open>Nothing outside the table and \<open>-1\<close> is ever served or cleared, whatever the interleaving, and at most
  one thread exists for each entry.\<close>

definition race_inv :: "int list \<Rightarrow> race \<Rightarrow> bool" where
  "race_inv cs s \<longleftrightarrow> set (todo s) \<subseteq> set cs \<and> sockfd s \<in> insert (-1) (set cs) \<and> set (busy s) \<subseteq> set (served s)
     \<and> set (served s) \<subseteq> insert (-1) (set cs) \<and> set (fd_clr s) \<subseteq> insert (-1) (set cs)
     \<and> length (served s) + fresh s + length (todo s) + (if pc s = AtTest then 1 else 0) \<le> length cs"

lemma race_init_inv: "race_inv cs (race_init cs)"
  by (simp add: race_inv_def race_init_def)

lemma race_step_inv: "race_step rset s s' \<Longrightarrow> race_inv cs s \<Longrightarrow> race_inv cs s'"
  by (erule race_stepE) (auto simp: race_inv_def dest: set_remove1_subset [THEN subsetD] split: if_splits)

interpretation rc: invariant_system "race_step rset" "race_init cs" "race_inv cs" for rset cs
  by unfold_locales (rule race_init_inv, rule race_step_inv)

text \<open>Two schedules. In the first, every thread reads the variable before the loop goes on; in the second
  the threads start only when the loop has ended.\<close>

lemma eager_run:
  assumes "0 \<le> c" "c \<in> rset" "pc s = AtFetch" "todo s = c # cs" "fresh s = 0"
  shows "race_run rset s (s\<lparr>pc := AtFetch, todo := cs, sockfd := c, busy := c # busy s, served := served s @ [c], fd_clr := fd_clr s @ [c]\<rparr>)"
proof -
  let ?f = "s\<lparr>pc := AtTest, todo := cs, sockfd := c\<rparr>"
  let ?p = "?f\<lparr>pc := AtClear, fresh := Suc 0\<rparr>"
  let ?r = "?p\<lparr>fresh := 0, busy := c # busy s, served := served s @ [c]\<rparr>"
  have "race_step rset s ?f" using race_step.fetch [OF assms(3,4,1)] .
  moreover have "race_step rset ?f ?p" using race_step.spawn [of ?f rset] assms by simp
  moreover have "race_step rset ?p ?r" using race_step.start [of ?p 0 rset] by simp
  moreover have "race_step rset ?r (?r\<lparr>pc := AtFetch, fd_clr := fd_clr s @ [c]\<rparr>)" using race_step.clear [of ?r rset] by simp
  ultimately have "race_run rset s (?r\<lparr>pc := AtFetch, fd_clr := fd_clr s @ [c]\<rparr>)"
    by (meson rtranclp.rtrancl_into_rtrancl rtranclp.rtrancl_refl)
  moreover have "?r\<lparr>pc := AtFetch, fd_clr := fd_clr s @ [c]\<rparr> =
    s\<lparr>pc := AtFetch, todo := cs, sockfd := c, busy := c # busy s, served := served s @ [c], fd_clr := fd_clr s @ [c]\<rparr>"
    using assms(5) by (cases s) simp
  ultimately show ?thesis by simp
qed

lemma lazy_run:
  assumes "0 \<le> c" "c \<in> rset" "pc s = AtFetch" "todo s = c # cs"
  shows "race_run rset s (s\<lparr>pc := AtFetch, todo := cs, sockfd := c, fresh := Suc (fresh s), fd_clr := fd_clr s @ [c]\<rparr>)"
proof -
  let ?f = "s\<lparr>pc := AtTest, todo := cs, sockfd := c\<rparr>"
  let ?p = "?f\<lparr>pc := AtClear, fresh := Suc (fresh s)\<rparr>"
  have "race_step rset s ?f" using race_step.fetch [OF assms(3,4,1)] .
  moreover have "race_step rset ?f ?p" using race_step.spawn [of ?f rset] assms by simp
  moreover have "race_step rset ?p (?p\<lparr>pc := AtFetch, fd_clr := fd_clr s @ [c]\<rparr>)" using race_step.clear [of ?p rset] by simp
  ultimately have "race_run rset s (?p\<lparr>pc := AtFetch, fd_clr := fd_clr s @ [c]\<rparr>)"
    by (meson rtranclp.rtrancl_into_rtrancl rtranclp.rtrancl_refl)
  then show ?thesis by (cases s) simp
qed

lemma eager_runs:
  "\<forall>c\<in>set cs. 0 \<le> c \<and> c \<in> rset \<Longrightarrow> pc s = AtFetch \<Longrightarrow> todo s = cs \<Longrightarrow> fresh s = 0 \<Longrightarrow>
    \<exists>s'. race_run rset s s' \<and> todo s' = [] \<and> fresh s' = 0 \<and> pc s' = AtFetch \<and> served s' = served s @ cs \<and> fd_clr s' = fd_clr s @ cs"
proof (induction cs arbitrary: s)
  case (Cons c cs)
  let ?s = "s\<lparr>pc := AtFetch, todo := cs, sockfd := c, busy := c # busy s, served := served s @ [c], fd_clr := fd_clr s @ [c]\<rparr>"
  have "race_run rset s ?s" by (rule eager_run) (use Cons.prems in auto)
  moreover obtain s' where "race_run rset ?s s'" "todo s' = []" "fresh s' = 0" "pc s' = AtFetch"
    "served s' = served ?s @ cs" "fd_clr s' = fd_clr ?s @ cs"
    using Cons.IH [of ?s] Cons.prems by auto
  ultimately show ?case by (intro exI [of _ s']) (auto intro: rtranclp_trans)
qed auto

lemma lazy_runs:
  "\<forall>c\<in>set cs. 0 \<le> c \<and> c \<in> rset \<Longrightarrow> pc s = AtFetch \<Longrightarrow> todo s = cs \<Longrightarrow>
    \<exists>s'. race_run rset s s' \<and> todo s' = [] \<and> pc s' = AtFetch \<and> fresh s' = fresh s + length cs \<and> served s' = served s
      \<and> sockfd s' = (if cs = [] then sockfd s else last cs)"
proof (induction cs arbitrary: s)
  case (Cons c cs)
  let ?s = "s\<lparr>pc := AtFetch, todo := cs, sockfd := c, fresh := Suc (fresh s), fd_clr := fd_clr s @ [c]\<rparr>"
  have "race_run rset s ?s" by (rule lazy_run) (use Cons.prems in auto)
  moreover obtain s' where "race_run rset ?s s'" "todo s' = []" "pc s' = AtFetch" "fresh s' = fresh ?s + length cs"
    "served s' = served ?s" "sockfd s' = (if cs = [] then sockfd ?s else last cs)"
    using Cons.IH [of ?s] Cons.prems by auto
  ultimately show ?case by (intro exI [of _ s']) (auto intro: rtranclp_trans)
qed auto

lemma start_all:
  "fresh s = n \<Longrightarrow> \<exists>s'. race_run rset s s' \<and> todo s' = todo s \<and> pc s' = pc s \<and> fresh s' = 0 \<and> served s' = served s @ replicate n (sockfd s)"
proof (induction n arbitrary: s)
  case (Suc n)
  let ?s = "s\<lparr>fresh := n, busy := sockfd s # busy s, served := served s @ [sockfd s]\<rparr>"
  have "race_step rset s ?s" using race_step.start [OF Suc.prems] .
  moreover obtain s' where "race_run rset ?s s'" "todo s' = todo ?s" "pc s' = pc ?s" "fresh s' = 0"
    "served s' = served ?s @ replicate n (sockfd ?s)" using Suc.IH [of ?s] by auto
  ultimately show ?case by (intro exI [of _ s']) (auto intro: race_step_then)
qed auto

text \<open>A thread that is done before the loop reaches \<open>FD_CLR\<close> has put \<open>-1\<close> in its argument.\<close>

lemma clears_minus_one:
  assumes "0 \<le> c" "c \<in> rset"
  shows "\<exists>s. race_run rset (race_init (c # cs)) s \<and> fd_clr s = [-1] \<and> served s = [c] \<and> todo s = cs"
proof -
  let ?i = "race_init (c # cs)"
  let ?f = "?i\<lparr>pc := AtTest, todo := cs, sockfd := c\<rparr>"
  let ?p = "?f\<lparr>pc := AtClear, fresh := Suc 0\<rparr>"
  let ?r = "?p\<lparr>fresh := 0, busy := [c], served := [c]\<rparr>"
  let ?e = "?r\<lparr>busy := [], sockfd := -1\<rparr>"
  let ?d = "?e\<lparr>pc := AtFetch, fd_clr := [-1]\<rparr>"
  have "race_step rset ?i ?f" using race_step.fetch [of ?i c cs rset] assms by (simp add: race_init_def)
  moreover have "race_step rset ?f ?p" using race_step.spawn [of ?f rset] assms by (simp add: race_init_def)
  moreover have "race_step rset ?p ?r" using race_step.start [of ?p 0 rset] by (simp add: race_init_def)
  moreover have "race_step rset ?r ?e" using race_step.finish [of c ?r rset] by (simp add: race_init_def)
  moreover have "race_step rset ?e ?d" using race_step.clear [of ?e rset] by (simp add: race_init_def)
  ultimately have "race_run rset ?i ?d" by (meson rtranclp.rtrancl_into_rtrancl rtranclp.rtrancl_refl)
  then show ?thesis by (intro exI [of _ ?d]) simp
qed

text \<open>C39: the hand-over of the connections to the threads through the address of the loop's variable, for
  any table of ready connections. In every interleaving what the threads serve and what the loop clears
  comes from the table or is \<open>-1\<close>, and no more threads run than there are connections. The schedule in
  which each thread reads at once serves exactly the connections, in order; but when the threads start late
  they all serve the last connection and no other, and when a thread ends early \<open>FD_CLR\<close> is applied to
  \<open>-1\<close>.\<close>

theorem shared_socket_race:
  assumes "cs \<noteq> []" and ready: "\<forall>c\<in>set cs. 0 \<le> c \<and> c \<in> rset"
  shows "(\<forall>s. race_run rset (race_init cs) s \<longrightarrow>
        set (served s) \<union> set (fd_clr s) \<subseteq> insert (-1) (set cs) \<and> length (served s) + fresh s \<le> length cs)
    \<and> (\<exists>s. race_run rset (race_init cs) s \<and> todo s = [] \<and> pc s = AtFetch \<and> fresh s = 0 \<and> served s = cs \<and> fd_clr s = cs)
    \<and> (\<exists>s. race_run rset (race_init cs) s \<and> todo s = [] \<and> pc s = AtFetch \<and> fresh s = 0 \<and> served s = replicate (length cs) (last cs))
    \<and> (\<exists>s. race_run rset (race_init cs) s \<and> -1 \<in> set (fd_clr s))"
proof (intro conjI allI impI)
  fix s assume "race_run rset (race_init cs) s"
  then have "race_inv cs s" by (rule rc.reach_inv)
  then show "set (served s) \<union> set (fd_clr s) \<subseteq> insert (-1) (set cs)" "length (served s) + fresh s \<le> length cs"
    by (auto simp: race_inv_def)
next
  show "\<exists>s. race_run rset (race_init cs) s \<and> todo s = [] \<and> pc s = AtFetch \<and> fresh s = 0 \<and> served s = cs \<and> fd_clr s = cs"
    using eager_runs [OF ready, of "race_init cs"] by (auto simp: race_init_def)
next
  obtain s where s: "race_run rset (race_init cs) s" "todo s = []" "pc s = AtFetch" "fresh s = length cs" "served s = []" "sockfd s = last cs"
    using lazy_runs [OF ready, of "race_init cs"] assms(1) by (auto simp: race_init_def)
  obtain s' where "race_run rset s s'" "todo s' = []" "pc s' = AtFetch" "fresh s' = 0" "served s' = replicate (length cs) (last cs)"
    using start_all [OF s(4), of rset] s by auto
  then show "\<exists>s. race_run rset (race_init cs) s \<and> todo s = [] \<and> pc s = AtFetch \<and> fresh s = 0 \<and> served s = replicate (length cs) (last cs)"
    using rtranclp_trans [OF s(1)] by blast
next
  obtain c cs' where "cs = c # cs'" using assms(1) by (cases cs) auto
  then show "\<exists>s. race_run rset (race_init cs) s \<and> -1 \<in> set (fd_clr s)"
    using clears_minus_one [of c rset cs'] ready by auto
qed

lemma shared_socket_race_witness: "\<exists>s. race_run {4, 5} (race_init [4, 5]) s \<and> fresh s = 0 \<and> served s = [5, 5]"
  using shared_socket_race [of "[4, 5]" "{4, 5}"] by (auto simp: eval_nat_numeral)

end
