(* ===== verification/LineInput.thy ===== *)
theory LineInput
  imports Prelude
begin

text \<open>Lines typed at a terminal or read from a stream, as \<^verbatim>\<open>fgets\<close> delivers them to the socket programs.\<close>

abbreviation (input) LF :: char where "LF \<equiv> CHR 0x0A"

text \<open>\<open>fgets\<close> with room for \<open>n\<close> characters and a terminator: the line and the text that is left.\<close>

fun line_of :: "nat \<Rightarrow> char list \<Rightarrow> char list \<times> char list" where
  "line_of 0 t = ([], t)"
| "line_of (Suc n) [] = ([], [])"
| "line_of (Suc n) (c # t) = (if c = LF then ([c], t) else (case line_of n t of (l, r) \<Rightarrow> (c # l, r)))"

lemma line_of_rest: "line_of n t = (l, r) \<Longrightarrow> t = l @ r \<and> length l \<le> n"
  by (induction n t arbitrary: l r rule: line_of.induct) (auto split: if_splits prod.splits)

lemma line_of_shrinks: "t \<noteq> [] \<Longrightarrow> 0 < n \<Longrightarrow> length (snd (line_of n t)) < length t"
  by (cases n; cases t) (auto split: prod.splits dest: line_of_rest)

lemma line_of_cases:
  assumes "line_of n t = (l, r)"
  shows "(\<exists>xs. l = xs @ [LF] \<and> LF \<notin> set xs) \<or> LF \<notin> set l \<and> (length l = n \<or> r = [])"
  using assms
proof (induction n t arbitrary: l r rule: line_of.induct)
  case (3 n c t)
  then show ?case
  proof (cases "c = LF")
    case False
    then obtain l' where l': "l = c # l'" "line_of n t = (l', r)" using 3(2) by (auto split: prod.splits)
    from 3(1) [OF False l'(2)] show ?thesis using False unfolding l'(1) by (auto intro: exI [of _ "c # _"])
  qed (auto intro: exI [of _ "[]"])
qed auto

end
