(* ===== verification/ChatClient.thy ===== *)
theory ChatClient
  imports ChatServer LineInput
begin

text \<open>
  The client of the chat room, \<^verbatim>\<open>src/socket_test/ChatRome -- select/client\<close>: its menus, the requests it sends,
  and the thread that shows what the server sends. What is typed is an input (\<open>entry\<close>, \<open>visit\<close>), a message is the
  structure of theory ChatServer, and \<open>message_bytes\<close> is its layout in memory, which is also its form on the wire: the
  server sends it in a block of 8192 bytes, the client reads 2148 bytes at a time.
\<close>

section \<open>Messages as bytes\<close>

definition le_bytes :: "nat \<Rightarrow> nat \<Rightarrow> char list" where
  "le_bytes n x = map (\<lambda>i. char_of (x div 256 ^ i)) [0..<n]"

definition le_nat :: "char list \<Rightarrow> nat" where
  "le_nat bs = foldr (\<lambda>c x. of_char c + 256 * x) bs 0"

definition int_bytes :: "int \<Rightarrow> char list" where
  "int_bytes i = le_bytes 4 (nat (i mod 2 ^ 32))"

definition bytes_int :: "char list \<Rightarrow> int" where
  "bytes_int bs = (let x = int (le_nat bs) in if x < 2 ^ 31 then x else x - 2 ^ 32)"

definition message_bytes :: "Message \<Rightarrow> char list" where
  "message_bytes m = content m @ int_bytes (msgType m) @ int_bytes (msgRet m) @ le_bytes 16 (sendAddr m) @ le_bytes 16 (recvAddr m)
     @ sendName m @ recvName m @ msgTime m"

definition message_of :: "char list \<Rightarrow> Message" where
  "message_of b = \<lparr>content = take 2048 b, msgType = bytes_int (take 4 (drop 2048 b)), msgRet = bytes_int (take 4 (drop 2052 b)),
     sendAddr = le_nat (take 16 (drop 2056 b)), recvAddr = le_nat (take 16 (drop 2072 b)), sendName = take 20 (drop 2088 b),
     recvName = take 20 (drop 2108 b), msgTime = take 20 (drop 2128 b)\<rparr>"

text \<open>The block a message is sent in.\<close>

definition block :: "Message \<Rightarrow> char list" where
  "block m = message_bytes m @ replicate (MAX_LINE - sizeof_Message) NUL"

section \<open>Showing what arrives\<close>

definition show_message :: "Message \<Rightarrow> char list list res" where
  "show_message m =
     (if msgType m = VIEW_USER_LIST then rbind (get_str (content m)) (\<lambda>c.
        Inr [utf8 [229, 189, 147, 229, 137, 141, 229, 156, 168, 231, 186, 191, 231, 148, 168, 230, 136, 183, 230, 156, 137, 239, 188, 154, 10, 32] @ c @ [LF]])
      else if msgType m = PERSONAL_CHAT \<or> msgType m = GROUP_CHAT then
        rbind (get_str (sendName m)) (\<lambda>n. rbind (get_str (msgTime m)) (\<lambda>t. rbind (get_str (content m)) (\<lambda>c.
        rbind (sprintf_into MAX_LINE (n @ (if msgType m = PERSONAL_CHAT then '' '' @ [CHR 0x09] @ '' '' @ t
            @ utf8 [32, 9, 229, 175, 185, 228, 189, 160, 232, 175, 180, 239, 188, 154, 32]
          else '' '' @ [CHR 0x09] @ '' '' @ t @ utf8 [32, 9, 229, 143, 145, 233, 128, 129, 231, 190, 164, 230, 182, 136, 230, 129, 175, 239, 188, 154, 32])
          @ c @ [LF])) (\<lambda>str. Inr [[LF] @ str @ [LF]]))))
      else if msgType m = VIEW_RECORDS then
        rbind (get_str (recvName m)) (\<lambda>n. rbind (get_str (content m)) (\<lambda>c.
        Inr [if n = [] then utf8 [228, 189, 160, 229, 143, 130, 228, 184, 142, 231, 154, 132, 231, 190, 164, 230, 182, 136, 230, 129, 175, 232, 174, 176, 229, 189, 149, 239, 188, 154, 10, 10]
             else utf8 [228, 189, 160, 229, 146, 140] @ n @ utf8 [231, 154, 132, 232, 129, 138, 229, 164, 169, 232, 174, 176, 229, 189, 149, 239, 188, 154, 10, 10], c @ [LF]]))
      else if msgType m = RESULT then rbind (get_str (content m)) (\<lambda>c.
        Inr [utf8 [228, 189, 160, 231, 154, 132, 230, 147, 141, 228, 189, 156, 231, 187, 147, 230, 158, 156, 239, 188, 154] @ c @ [LF]])
      else Inr [])"

text \<open>The loop of \<open>recvMsg\<close> over the results of \<open>recv\<close> (an empty one is an end or an error): what is printed, and whether
  the process goes on. The buffer keeps what an earlier, longer result left in it. All of its
  8192 bytes are copied to a \<open>Message\<close>, which has 2148.\<close>

primrec recvMsg :: "char list \<Rightarrow> char list list \<Rightarrow> (char list list \<times> bool) res" where
  "recvMsg buf [] = Inr ([], True)"
| "recvMsg buf (d # ds) =
     (if d = [] then Inr ([utf8 [230, 130, 168, 229, 183, 178, 231, 187, 143, 229, 188, 130, 229, 184, 184, 230, 142, 137, 231, 186, 191, 239, 188, 140, 232, 175, 183, 233, 135, 141, 230, 150, 176, 231, 153, 187, 229, 189, 149, 239, 188, 129, 10]], False)
      else let buf = take sizeof_Message d @ drop (length (take sizeof_Message d)) buf in
        rbind (memcpy_into sizeof_Message MAX_LINE) (\<lambda>_. rbind (show_message (message_of buf)) (\<lambda>out.
        rbind (recvMsg buf ds) (\<lambda>(outs, go). Inr (out @ outs, go)))))"

text \<open>The results of \<open>recv\<close> while bytes are waiting.\<close>

function recv_all :: "char list \<Rightarrow> char list list" where
  "recv_all q = (if q = [] then [] else take sizeof_Message q # recv_all (drop sizeof_Message q))"
  by pat_completeness auto
termination by (relation "measure length") (auto simp: sizeof_Message_def)

declare recv_all.simps [simp del]

section \<open>Requests\<close>

text \<open>One round of \<open>enterChat\<close>: the numbers typed until one is accepted, the word and the line asked for, and the text
  \<open>ctime\<close> gives.\<close>

record entry =
  choices :: "int list"
  word_in :: "char list"
  line_in :: "char list"
  now :: "char list"

definition scan_word :: "char list \<Rightarrow> nat \<Rightarrow> char list res" where
  "scan_word w n = (if length w < n then Inr w else Inl OutOfBounds)"

text \<open>\<open>fgets\<close> into \<open>content\<close> with the size of another array, and the last character of the string cut off.\<close>

definition type_content :: "char list \<Rightarrow> char list \<Rightarrow> char list res" where
  "type_content t c =
     (let l = fst (line_of (MAX_LINE - 1) t); c' = (if l = [] then c else l @ NUL # drop (Suc (length l)) c) in
      if length l \<ge> length c then Inl OutOfBounds
      else if cstr c' = [] then Inl OutOfBounds
      else Inr (c'[length (cstr c') - 1 := NUL]))"

definition chat_entry :: "User \<Rightarrow> entry \<Rightarrow> (Message list \<times> bool) res" where
  "chat_entry u e =
     rbind (get_str (userName u)) (\<lambda>s. rbind (strcpy_block s (sendName zero_message)) (\<lambda>sn.
     let m = zero_message\<lparr>sendName := sn\<rparr>;
       timed = (\<lambda>m. rbind (strcpy_block (now e) (msgTime m)) (\<lambda>t. Inr ([m\<lparr>msgTime := t\<rparr>], True))) in
     case find (\<lambda>c. 1 \<le> c \<and> c \<le> 5) (choices e) of
       None \<Rightarrow> Inr ([], True)
     | Some c \<Rightarrow>
         if c = 1 then Inr ([m\<lparr>msgType := VIEW_USER_LIST\<rparr>], True)
         else if c = 2 then
           rbind (scan_word (word_in e) MAX_LINE) (\<lambda>w. rbind (strcpy_block w (recvName m)) (\<lambda>rn.
           rbind (type_content (line_in e) (content m)) (\<lambda>ct.
           timed (m\<lparr>msgType := PERSONAL_CHAT, recvName := rn, content := ct\<rparr>))))
         else if c = 3 then
           rbind (strcpy_block [] (recvName m)) (\<lambda>rn. rbind (type_content (line_in e) (content m)) (\<lambda>ct.
           timed (m\<lparr>msgType := GROUP_CHAT, recvName := rn, content := ct\<rparr>)))
         else if c = 4 then
           rbind (scan_word (word_in e) MAX_LINE) (\<lambda>w. rbind (strcpy_block w (recvName m)) (\<lambda>rn.
           Inr ([m\<lparr>msgType := VIEW_RECORDS, recvName := rn\<rparr>], True)))
         else Inr ([m\<lparr>msgType := EXIT\<rparr>], False)))"

text \<open>\<open>enterChat\<close> over what is typed: the messages sent, and whether it goes on.\<close>

primrec chat_entries :: "User \<Rightarrow> entry list \<Rightarrow> (Message list \<times> bool) res" where
  "chat_entries u [] = Inr ([], True)"
| "chat_entries u (e # es) = rbind (chat_entry u e) (\<lambda>(ms, go).
     if go then rbind (chat_entries u es) (\<lambda>(ms', go). Inr (ms @ ms', go)) else Inr (ms, False))"

section \<open>Registration, login and the main menu\<close>

text \<open>\<open>u\<close> is what the uninitialised structure holds.\<close>

definition type_user :: "char list \<Rightarrow> char list \<Rightarrow> User \<Rightarrow> User res" where
  "type_user name pw u =
     rbind (strcpy_block name (map (\<lambda>_. NUL) (userName u))) (\<lambda>n. rbind (strcpy_block pw (map (\<lambda>_. NUL) (password u))) (\<lambda>p.
     Inr (u\<lparr>userName := n, password := p\<rparr>)))"

text \<open>The answer: \<open>d\<close> is what one \<open>recv\<close> delivers into a cleared buffer.\<close>

definition read_answer :: "char list \<Rightarrow> (char list \<times> int) res" where
  "read_answer d = rbind (memcpy_into sizeof_Message MAX_LINE) (\<lambda>_.
     let m = message_of (take MAX_LINE d @ replicate (MAX_LINE - length d) NUL) in
     rbind (get_str (content m)) (\<lambda>s. Inr (s @ [LF], msgRet m)))"

text \<open>What goes over a connection to the server.\<close>

datatype packet = Msg Message | Usr User

text \<open>A round of the main menu: the numbers typed, the name and the password, the structure before, the answer of the server,
  and what is typed in the chat.\<close>

record visit =
  picks :: "int list"
  name_in :: "char list"
  pw_in :: "char list"
  junk :: User
  reply_in :: "char list"
  entries :: "entry list"

datatype way = Menu | Asking | Chatting | Left

definition menu_visit :: "nat \<Rightarrow> visit \<Rightarrow> (packet list \<times> way) res" where
  "menu_visit addr v = (case find (\<lambda>c. 1 \<le> c \<and> c \<le> 4) (picks v) of
       None \<Rightarrow> Inr ([], Asking)
     | Some c \<Rightarrow>
         if c = REGISTER then
           rbind (type_user (name_in v) (pw_in v) (junk v)) (\<lambda>u. let u = u\<lparr>speak := 0\<rparr> in
           rbind (read_answer (reply_in v)) (\<lambda>(out, ret).
           Inr ([Msg (zero_message\<lparr>msgType := REGISTER, sendAddr := addr\<rparr>), Usr u], Menu)))
         else if c = LOGIN then
           rbind (type_user (name_in v) (pw_in v) (junk v)) (\<lambda>u.
           rbind (read_answer (reply_in v)) (\<lambda>(out, ret).
           let ps = [Msg (zero_message\<lparr>msgType := LOGIN, sendAddr := addr\<rparr>), Usr u] in
           if ret = SUCCESS then
             rbind (chat_entries u (entries v)) (\<lambda>(ms, go). Inr (ps @ map Msg ms, if go then Chatting else Left))
           else Inr (ps, Menu)))
         else if c = HELP then Inr ([], Menu)
         else Inr ([], Left))"

text \<open>The loop of \<open>main\<close>: what is sent over each connection, in order. A connection that is left for the menu stays open.\<close>

primrec client_main :: "nat \<Rightarrow> visit list \<Rightarrow> (packet list list \<times> way) res" where
  "client_main addr [] = Inr ([], Menu)"
| "client_main addr (v # vs) = rbind (menu_visit addr v) (\<lambda>(ps, w).
     if w = Menu then rbind (client_main addr vs) (\<lambda>(pss, w). Inr (ps # pss, w)) else Inr ([ps], w))"

section \<open>Layout\<close>

lemma le_bytes_Suc: "le_bytes (Suc n) x = char_of x # le_bytes n (x div 256)"
  unfolding le_bytes_def by (simp add: upt_conv_Cons map_Suc_upt [symmetric] div_mult2_eq del: upt_Suc)

lemma le_nat_bytes: "le_nat (le_bytes n x) = x mod 256 ^ n"
proof (induction n arbitrary: x)
  case (Suc n)
  have "x mod (256 * 256 ^ n) = 256 * (x div 256 mod 256 ^ n) + x mod 256" by (rule mod_mult2_eq)
  then show ?case using Suc [of "x div 256"] by (simp add: le_bytes_Suc le_nat_def of_char_of)
qed (simp add: le_bytes_def le_nat_def)

lemma length_le_bytes [simp]: "length (le_bytes n x) = n"
  by (simp add: le_bytes_def)

lemma bytes_int_bytes: "- (2 ^ 31) \<le> i \<Longrightarrow> i < 2 ^ 31 \<Longrightarrow> bytes_int (int_bytes i) = i"
proof -
  assume i: "- (2 ^ 31) \<le> i" "i < 2 ^ 31"
  have r: "i mod 2 ^ 32 = (if 0 \<le> i then i else i + 2 ^ 32)"
  proof (cases "0 \<le> i")
    case False
    then have "(i + 2 ^ 32) mod 2 ^ 32 = i + 2 ^ 32" using i by (intro mod_pos_pos_trivial) simp_all
    then show ?thesis using False mod_add_self2 [of i "2 ^ 32"] by metis
  qed (use i in simp)
  have "0 \<le> i mod 2 ^ 32" "nat (i mod 2 ^ 32) < 256 ^ 4" by (simp_all add: nat_less_iff)
  then have e: "int (le_nat (int_bytes i)) = i mod 2 ^ 32" by (simp add: int_bytes_def le_nat_bytes)
  show "bytes_int (int_bytes i) = i" unfolding bytes_int_def Let_def e r using i by auto
qed

lemma length_int_bytes [simp]: "length (int_bytes i) = 4"
  by (simp add: int_bytes_def)

definition wire_ok :: "Message \<Rightarrow> bool" where
  "wire_ok m \<longleftrightarrow> length (content m) = 2048 \<and> length (sendName m) = 20 \<and> length (recvName m) = 20 \<and> length (msgTime m) = 20
     \<and> - (2 ^ 31) \<le> msgType m \<and> msgType m < 2 ^ 31 \<and> - (2 ^ 31) \<le> msgRet m \<and> msgRet m < 2 ^ 31
     \<and> sendAddr m < 256 ^ 16 \<and> recvAddr m < 256 ^ 16"

lemma message_bytes_length: "wire_ok m \<Longrightarrow> length (message_bytes m) = sizeof_Message"
  by (simp add: wire_ok_def message_bytes_def sizeof_Message_def)

lemma message_of_bytes: "wire_ok m \<Longrightarrow> message_of (message_bytes m @ x) = m"
  unfolding wire_ok_def message_of_def message_bytes_def
  by (simp add: bytes_int_bytes le_nat_bytes)

section \<open>Reading blocks\<close>

abbreviation (input) Z :: "nat \<Rightarrow> char list" where "Z n \<equiv> replicate n NUL"

lemma recv_all_simps:
  "recv_all [] = []"
  "length a = sizeof_Message \<Longrightarrow> recv_all (a @ b) = a # recv_all b"
  "0 < length a \<Longrightarrow> length a < sizeof_Message \<Longrightarrow> recv_all a = [a]"
  by (auto simp: recv_all.simps [of a] recv_all.simps [of "a @ b"] recv_all.simps [of "[]"] sizeof_Message_def)

lemma zeros_split: "Z 6044 = Z sizeof_Message @ Z sizeof_Message @ Z 1748" "Z 5644 = Z sizeof_Message @ Z sizeof_Message @ Z 1348"
  "Z 6044 = Z 400 @ Z 5644"
  by (simp_all add: replicate_add [symmetric] sizeof_Message_def)

lemma block_zeros: "block m = message_bytes m @ Z 6044"
  by (simp add: block_def sizeof_Message_def)

lemma recv_block: "wire_ok m \<Longrightarrow> recv_all (block m) = [message_bytes m, Z sizeof_Message, Z sizeof_Message, Z 1748]"
  using message_bytes_length [of m] unfolding block_zeros zeros_split(1)
  by (simp add: recv_all_simps) (simp add: recv_all_simps sizeof_Message_def)

text \<open>The copy of the whole buffer into the structure never fits, on either side of the wire.\<close>

lemma copies_overrun:
  "d \<noteq> [] \<Longrightarrow> recvMsg buf (d # ds) = Inl OutOfBounds"
  "read_answer d = Inl OutOfBounds"
  "n \<noteq> 0 \<Longrightarrow> enterChat sizeof_Message k db ((n, m) # evs) fd st = Inl OutOfBounds"
  by (simp_all add: read_answer_def memcpy_into_def sizeof_Message_def)

section \<open>Requests that are typed\<close>

text \<open>The message that is sent, with its arrays as strings.\<close>

definition client_request :: "User \<Rightarrow> int \<Rightarrow> char list \<Rightarrow> char list \<Rightarrow> char list \<Rightarrow> Message" where
  "client_request u ty rn ct t = zero_message\<lparr>sendName := pad 20 (uname u), msgType := ty, recvName := pad 20 rn, content := pad 2048 ct,
     msgTime := pad 20 t\<rparr>"

lemma pad_Nil: "pad n [] = replicate n NUL"
  by (simp add: pad_def)

lemma line_of_newline: "LF \<notin> set l \<Longrightarrow> line_of n (l @ LF # t) = (if length l < n then (l @ [LF], t) else (take n l, drop n l @ LF # t))"
proof (induction l arbitrary: n)
  case Nil
  then show ?case by (cases n) auto
next
  case (Cons c l)
  then show ?case by (cases n) auto
qed

lemma type_content_line:
  assumes "LF \<notin> set l" "NUL \<notin> set l"
  shows "type_content (l @ LF # t) (replicate 2048 NUL) = (if length l < 2047 then Inr (pad 2048 l) else Inl OutOfBounds)"
proof (cases "length l < 2047")
  case True
  have "(l @ LF # NUL # x)[length l := NUL] = l @ NUL # NUL # x" for x by (simp add: list_update_append)
  moreover have "2048 - length l = Suc (Suc (2046 - length l))" using True by arith
  then have "replicate (2048 - length l) NUL = NUL # NUL # replicate (2046 - length l) NUL" by (simp only: replicate_Suc)
  ultimately show ?thesis
    using True assms cstr_append [of "l @ [LF]"] by (simp add: type_content_def line_of_newline Let_def pad_def)
next
  case False
  then show ?thesis using assms by (auto simp: type_content_def line_of_newline Let_def)
qed

text \<open>C35: what a round of the chat menu sends, for a command \<open>c\<close>, a word and a line. The name of a user or a line that
  does not fit its array runs over it. So does the time: \<open>ctime\<close> gives 25 characters and the array has 20 bytes, so every
  personal or group message overflows the structure; the other requests are well formed.\<close>

theorem chat_requests:
  assumes "user_ok u" "find (\<lambda>c. 1 \<le> c \<and> c \<le> 5) (choices e) = Some c" "NUL \<notin> set (word_in e)" "NUL \<notin> set (now e)"
    and "line_in e = l @ LF # left" "LF \<notin> set l" "NUL \<notin> set l"
  shows "chat_entry u e =
      (if c = 1 then Inr ([client_request u VIEW_USER_LIST [] [] []], True)
       else if c = 2 then (if length (word_in e) < 20 \<and> length l < 2047 \<and> length (now e) < 20
         then Inr ([client_request u PERSONAL_CHAT (word_in e) l (now e)], True) else Inl OutOfBounds)
       else if c = 3 then (if length l < 2047 \<and> length (now e) < 20 then Inr ([client_request u GROUP_CHAT [] l (now e)], True) else Inl OutOfBounds)
       else if c = 4 then (if length (word_in e) < 20 then Inr ([client_request u VIEW_RECORDS (word_in e) [] []], True) else Inl OutOfBounds)
       else Inr ([client_request u EXIT [] [] []], False))
    \<and> (length (now e) = 25 \<and> (c = 2 \<or> c = 3) \<longrightarrow> chat_entry u e = Inl OutOfBounds)"
proof -
  have "1 \<le> c" "c \<le> 5" using assms(2) by (auto simp: find_Some_iff)
  then have c: "c = 1 \<or> c = 2 \<or> c = 3 \<or> c = 4 \<or> c = 5" by linarith
  have nm: "get_str (userName u) = Inr (uname u)" "strcpy_block (uname u) (replicate 20 NUL) = Inr (pad 20 (uname u))" "length (uname u) < 20"
    using assms(1) length_cstr [of "userName u"] by (auto simp: user_ok_def uname_def intro: strcpy_pad)
  have cp: "strcpy_block x (replicate 20 NUL) = (if length x < 20 then Inr (pad 20 x) else Inl OutOfBounds)" for x
    using strcpy_pad [of x 20] by (simp add: strcpy_block_def)
  show ?thesis using c assms(5-7)
    by (elim disjE) (simp_all add: chat_entry_def nm cp assms(2) zero_message_def type_content_line scan_word_def client_request_def pad_Nil)
qed

section \<open>The client and the server\<close>

lemma client_request_ok:
  assumes "user_ok u" "length rn < 20" "length ct < 2048" "length t < 20"
  shows "msg_ok (client_request u ty rn ct t)"
  using assms length_cstr [of "userName u"] by (simp add: msg_ok_def client_request_def zero_message_def user_ok_def uname_def)

lemma wire_ok_reply:
  assumes "msg_ok m" "msgType m = VIEW_USER_LIST" "length s < 2048"
  shows "wire_ok ((reply m)\<lparr>content := pad 2048 s\<rparr>)"
  using msg_ok_strings [OF assms(1)] assms(2,3) by (simp add: wire_ok_def reply_def zero_message_def)

text \<open>C17: the first command of the chat menu, from one end to the other. The request the client sends is one the server's
  handler answers; the answer goes over the wire as a block of bytes, the first piece of it that \<open>recv\<close> delivers to the
  client holds the whole message, and what the client's switch shows for it is the heading and the names of
  the users in the server's list, in order, when they fit a message. But neither side gets there within its memory:
  before the handler, the loop of the server copies the 8192 bytes of its buffer into a structure of 2148, and so does
  the client before the switch.\<close>

theorem chat_list_end_to_end:
  assumes "user_ok u" "find (\<lambda>c. 1 \<le> c \<and> c \<le> 5) (choices e) = Some 1"
    and "ulist (uheap st) (users_ptr st) as us" "us \<noteq> []" "length us \<le> k" "length (tabbed us) < 2048"
  shows "\<exists>m a b bs. chat_entry u e = Inr ([m], True) \<and> viewUserList k m fd st = Inr (SUCCESS, st\<lparr>sends := sends st @ [(fd, a)]\<rparr>)
    \<and> recv_all (block a) = b # bs
    \<and> show_message (message_of b) = Inr [utf8 [229, 189, 147, 229, 137, 141, 229, 156, 168, 231, 186, 191, 231, 148, 168, 230, 136, 183, 230, 156, 137, 239, 188, 154, 10, 32] @ tabbed us @ [LF]]
    \<and> enterChat sizeof_Message k db ((int MAX_LINE, m) # evs) fd st = Inl OutOfBounds
    \<and> recvMsg buf (recv_all (block a)) = Inl OutOfBounds"
proof -
  let ?m = "client_request u VIEW_USER_LIST [] [] []"
  let ?a = "(reply ?m)\<lparr>content := pad 2048 (tabbed us)\<rparr>"
  have "get_str (userName u) = Inr (uname u)" "strcpy_block (uname u) (replicate 20 NUL) = Inr (pad 20 (uname u))"
    using assms(1) length_cstr [of "userName u"] by (auto simp: user_ok_def uname_def intro: strcpy_pad)
  then have r: "chat_entry u e = Inr ([?m], True)"
    by (simp add: chat_entry_def assms(2) client_request_def zero_message_def pad_Nil)
  have ok: "msg_ok ?m" using assms(1) by (simp add: client_request_ok)
  have v: "viewUserList k ?m fd st = Inr (SUCCESS, st\<lparr>sends := sends st @ [(fd, ?a)]\<rparr>)"
    using viewUserList_run [OF assms(3,4) ok assms(5)] assms(6) by (simp add: send_msg_def)
  have ty: "msgType ?m = VIEW_USER_LIST" by (simp add: client_request_def)
  have w: "wire_ok ?a" by (rule wire_ok_reply [OF ok ty assms(6)])
  have "NUL \<notin> set (tabbed us)" by (rule NUL_tabbed)
  then have s: "show_message ?a = Inr [utf8 [229, 189, 147, 229, 137, 141, 229, 156, 168, 231, 186, 191, 231, 148, 168, 230, 136, 183, 230, 156, 137, 239, 188, 154, 10, 32] @ tabbed us @ [LF]]"
    using assms(6) by (simp add: show_message_def reply_def ty)
  have "message_bytes ?a \<noteq> []" using message_bytes_length [OF w] by (auto simp: sizeof_Message_def)
  then show ?thesis
    using r v s recv_block [OF w] message_of_bytes [OF w, of "[]"]
    by (intro exI [of _ ?m] exI [of _ ?a]) (simp add: copies_overrun del: recvMsg.simps enterChat.simps)
qed

lemma chat_list_end_to_end_witness:
  "\<exists>m a b bs. chat_entry (demo_user ''ann'' 4) \<lparr>choices = [9, 1], word_in = [], line_in = [], now = []\<rparr> = Inr ([m], True)
    \<and> viewUserList 2 m 4 demo_server = Inr (SUCCESS, demo_server\<lparr>sends := sends demo_server @ [(4, a)]\<rparr>)
    \<and> recv_all (block a) = b # bs
    \<and> show_message (message_of b) = Inr [utf8 [229, 189, 147, 229, 137, 141, 229, 156, 168, 231, 186, 191, 231, 148, 168, 230, 136, 183, 230, 156, 137, 239, 188, 154, 10, 32]
        @ tabbed [demo_user ''ann'' 4, demo_user ''bob'' 5] @ [LF]]
    \<and> enterChat sizeof_Message 2 (demo_db True) ((int MAX_LINE, m) # []) 4 demo_server = Inl OutOfBounds
    \<and> recvMsg [] (recv_all (block a)) = Inl OutOfBounds"
proof -
  have ok: "user_ok (demo_user ''ann'' 4)" by (rule user_ok_demo) simp_all
  have t: "length (tabbed [demo_user ''ann'' 4, demo_user ''bob'' 5]) < 2048" by (simp add: tabbed_def uname_demo)
  show ?thesis
    by (rule chat_list_end_to_end [OF ok _ demo_server_users _ _ t]) simp_all
qed

lemma chat_requests_witness:
  "chat_entry (demo_user ''ann'' 4) \<lparr>choices = [3], word_in = [], line_in = ''hi'' @ [LF], now = ''Sat Oct  3 10:00:00 2020'' @ [LF]\<rparr>
    = Inl OutOfBounds"
proof -
  have ok: "user_ok (demo_user ''ann'' 4)" by (rule user_ok_demo) simp_all
  let ?e = "\<lparr>choices = [3], word_in = [], line_in = ''hi'' @ [LF], now = ''Sat Oct  3 10:00:00 2020'' @ [LF]\<rparr>"
  have "find (\<lambda>c. 1 \<le> c \<and> c \<le> 5) (choices ?e) = Some 3" by simp
  from chat_requests [OF ok this, of "''hi''" "[]"] show ?thesis by simp
qed

end
