(* ===== verification/EchoServer.thy ===== *)
theory EchoServer
  imports ChatSelect
begin

text \<open>
  The echo servers under \<^verbatim>\<open>src/socket_test\<close> that serve many clients from one loop: \<^verbatim>\<open>select_socket\<close>,
  \<^verbatim>\<open>poll_socket\<close> and \<^verbatim>\<open>epoll_socket\<close>. What the kernel answers in a turn of the loop is an input, what the
  server does to its sockets is a log. The loops over the client tables of the first two are the same code
  over two layouts of the table; \<open>echo_table\<close> is the contract of such a layout.
\<close>

section \<open>What the kernel answers and what is done\<close>

abbreviation (input) MAX_LINE :: nat where "MAX_LINE \<equiv> 2048"

record kernel =
  nready :: int
  accepts :: int
  reads :: "int \<Rightarrow> char list option"
  writes :: "int \<Rightarrow> char list \<Rightarrow> int"

text \<open>\<open>reads K fd = None\<close> is a result of \<open>read\<close> that is not positive. \<open>Received\<close> is a message that was read and
  printed, \<open>Sent\<close> what went back, \<open>WriteError\<close> the message about a short write.\<close>

datatype io = Accepted int | Received int "char list" | Sent int "char list" | WriteError int | Closed int

text \<open>The loop over the clients, \<open>n\<close> indices from \<open>i\<close> on: \<open>slot\<close> is the descriptor at an index, \<open>hit\<close> says that it
  is ready and \<open>quit\<close> takes it out of the table. The buffer is printed as a string.\<close>

primrec echo_loop :: "('s \<Rightarrow> nat \<Rightarrow> int) \<Rightarrow> ('s \<Rightarrow> nat \<Rightarrow> bool) \<Rightarrow> (nat \<Rightarrow> 's \<Rightarrow> 's) \<Rightarrow> kernel \<Rightarrow> nat \<Rightarrow> nat \<Rightarrow> int \<Rightarrow> 's \<Rightarrow> io list
    \<Rightarrow> ('s \<times> io list) res" where
  "echo_loop slot hit quit K 0 i nr s log = Inr (s, log)"
| "echo_loop slot hit quit K (Suc n) i nr s log =
     (let sockfd = slot s i in
      if sockfd < 0 \<or> \<not> hit s i then echo_loop slot hit quit K n (Suc i) nr s log
      else (case reads K sockfd of
          None \<Rightarrow>
            (if nr - 1 \<le> 0 then Inr (quit i s, log @ [Closed sockfd])
             else echo_loop slot hit quit K n (Suc i) (nr - 1) (quit i s) (log @ [Closed sockfd]))
        | Some d \<Rightarrow>
            if MAX_LINE \<le> length d \<and> NUL \<notin> set d then Inl OutOfBounds
            else let ret = writes K sockfd d; log = log @ [Received sockfd d, Sent sockfd (take (nat ret) d)] in
              if ret \<noteq> int (length d) then Inr (s, log @ [WriteError sockfd])
              else if nr - 1 \<le> 0 then Inr (s, log)
              else echo_loop slot hit quit K n (Suc i) (nr - 1) s log))"

section \<open>The select server\<close>

text \<open>Its table is the one of the chat server's accept loop, and a new client enters it in the same way. \<open>None\<close>: the
  process exits.\<close>

definition select_slot :: "accept_state \<Rightarrow> nat \<Rightarrow> int" where
  "select_slot s i = client_sockfd s ! i"

definition select_hit :: "int set \<Rightarrow> accept_state \<Rightarrow> nat \<Rightarrow> bool" where
  "select_hit rset s i \<longleftrightarrow> client_sockfd s ! i \<in> rset"

definition select_quit :: "nat \<Rightarrow> accept_state \<Rightarrow> accept_state" where
  "select_quit i s = s\<lparr>allset := allset s - {client_sockfd s ! i}, client_sockfd := (client_sockfd s)[i := -1]\<rparr>"

definition select_echo :: "int \<Rightarrow> kernel \<times> int set \<Rightarrow> accept_state \<Rightarrow> (accept_state \<times> io list) option res" where
  "select_echo listenfd k s = (case k of (K, rset) \<Rightarrow>
     let scan = (\<lambda>nr s log. rbind (echo_loop select_slot (select_hit rset) select_quit K (nat (maxi s + 1)) 0 nr s log) (\<lambda>r. Inr (Some r)))
     in if listenfd \<in> rset then
          (case accept_client (accepts K) s of None \<Rightarrow> Inr None
           | Some s' \<Rightarrow> if nready K - 1 < 0 then Inr (Some (s', [Accepted (accepts K)]))
               else scan (nready K - 1) s' [Accepted (accepts K)])
        else scan (nready K) s [])"

section \<open>The poll server\<close>

abbreviation (input) POLLRDNORM :: "16 word" where "POLLRDNORM \<equiv> 0x40"
abbreviation (input) POLLERR :: "16 word" where "POLLERR \<equiv> 8"

record pollfd =
  fd :: int
  events :: "16 word"
  revents :: "16 word"

record poll_state =
  client :: "pollfd list"
  pmaxi :: nat

text \<open>The table is a local array: \<open>mem\<close> is what its memory holds before.\<close>

definition poll_init :: "pollfd list \<Rightarrow> int \<Rightarrow> poll_state" where
  "poll_init mem listenfd =
     \<lparr>client = (hd mem)\<lparr>fd := listenfd, events := POLLRDNORM\<rparr> # map (\<lambda>p. p\<lparr>fd := -1\<rparr>) (tl mem), pmaxi = 0\<rparr>"

text \<open>\<open>poll\<close> sets \<open>revents\<close> in the entries it is given, to 0 where the descriptor is negative.\<close>

definition do_poll :: "(int \<Rightarrow> 16 word) \<Rightarrow> poll_state \<Rightarrow> poll_state" where
  "do_poll rv s = s\<lparr>client :=
     map (\<lambda>p. p\<lparr>revents := if fd p < 0 then 0 else rv (fd p)\<rparr>) (take (Suc (pmaxi s)) (client s)) @ drop (Suc (pmaxi s)) (client s)\<rparr>"

definition poll_slot :: "poll_state \<Rightarrow> nat \<Rightarrow> int" where
  "poll_slot s i = fd (client s ! i)"

definition poll_hit :: "poll_state \<Rightarrow> nat \<Rightarrow> bool" where
  "poll_hit s i \<longleftrightarrow> revents (client s ! i) AND (POLLRDNORM OR POLLERR) \<noteq> 0"

definition poll_quit :: "nat \<Rightarrow> poll_state \<Rightarrow> poll_state" where
  "poll_quit i s = s\<lparr>client := (client s)[i := (client s ! i)\<lparr>fd := -1\<rparr>]\<rparr>"

definition poll_accept :: "int \<Rightarrow> poll_state \<Rightarrow> poll_state option" where
  "poll_accept connfd s =
     (if connfd < 0 then None
      else let i = Suc (free_slot (map fd (tl (client s)))) in
        if i = length (client s) then None
        else Some (s\<lparr>client := (client s)[i := (client s ! i)\<lparr>fd := connfd, events := POLLRDNORM\<rparr>],
                     pmaxi := (if i > pmaxi s then i else pmaxi s)\<rparr>))"

definition poll_echo :: "kernel \<times> (int \<Rightarrow> 16 word) \<Rightarrow> poll_state \<Rightarrow> (poll_state \<times> io list) option res" where
  "poll_echo k s = (case k of (K, rv) \<Rightarrow>
     let s = do_poll rv s;
         scan = (\<lambda>nr s log. rbind (echo_loop poll_slot poll_hit poll_quit K (pmaxi s) 1 nr s log) (\<lambda>r. Inr (Some r)))
     in if revents (client s ! 0) AND POLLRDNORM \<noteq> 0 then
          (case poll_accept (accepts K) s of None \<Rightarrow> Inr None
           | Some s' \<Rightarrow> if nready K - 1 < 0 then Inr (Some (s', [Accepted (accepts K)]))
               else scan (nready K - 1) s' [Accepted (accepts K)])
        else scan (nready K) s [])"

section \<open>Turns of a server\<close>

primrec turns :: "('k \<Rightarrow> 's \<Rightarrow> ('s \<times> io list) option res) \<Rightarrow> 'k list \<Rightarrow> 's \<Rightarrow> ('s \<times> io list) option res" where
  "turns pass [] s = Inr (Some (s, []))"
| "turns pass (k # ks) s = rbind (pass k s) (\<lambda>r. case r of None \<Rightarrow> Inr None
     | Some (s, log) \<Rightarrow> rbind (turns pass ks s) (\<lambda>r. case r of None \<Rightarrow> Inr None | Some (s, log') \<Rightarrow> Inr (Some (s, log @ log'))))"

text \<open>The laws of the kernel hold in every turn.\<close>

primrec lawful :: "('k \<Rightarrow> 's \<Rightarrow> ('s \<times> io list) option res) \<Rightarrow> ('s \<Rightarrow> 'k \<Rightarrow> bool) \<Rightarrow> 'k list \<Rightarrow> 's \<Rightarrow> bool" where
  "lawful pass law [] s \<longleftrightarrow> True"
| "lawful pass law (k # ks) s \<longleftrightarrow> law s k \<and> (case pass k s of Inr (Some (s', log)) \<Rightarrow> lawful pass law ks s' | _ \<Rightarrow> True)"

section \<open>What a log says\<close>

definition sent :: "int \<Rightarrow> io list \<Rightarrow> char list" where
  "sent c log = concat (map (\<lambda>x. case x of Sent d t \<Rightarrow> if d = c then t else [] | _ \<Rightarrow> []) log)"

definition received :: "int \<Rightarrow> io list \<Rightarrow> char list" where
  "received c log = concat (map (\<lambda>x. case x of Received d t \<Rightarrow> if d = c then t else [] | _ \<Rightarrow> []) log)"

text \<open>The descriptors that are connected after a log, when those in \<open>C\<close> were before.\<close>

definition connected :: "io list \<Rightarrow> int set \<Rightarrow> int set" where
  "connected log C = fold (\<lambda>x C. case x of Accepted c \<Rightarrow> insert c C | Closed c \<Rightarrow> C - {c} | _ \<Rightarrow> C) log C"

lemma log_simps [simp]:
  "sent c [] = []" "received c [] = []" "connected [] C = C"
  "sent c (log @ log') = sent c log @ sent c log'" "received c (log @ log') = received c log @ received c log'"
  "connected (log @ log') C = connected log' (connected log C)"
  "sent c (Accepted a # log) = sent c log" "received c (Accepted a # log) = received c log"
  "connected (Accepted a # log) C = connected log (insert a C)"
  by (simp_all add: sent_def received_def connected_def)

definition serve :: "kernel \<Rightarrow> int \<Rightarrow> io list" where
  "serve K c = (case reads K c of None \<Rightarrow> [Closed c] | Some d \<Rightarrow> [Received c d, Sent c d])"

definition told :: "kernel \<Rightarrow> int \<Rightarrow> char list" where
  "told K c = (case reads K c of None \<Rightarrow> [] | Some d \<Rightarrow> d)"

lemma serve_log:
  "sent c (serve K d) = (if d = c then told K c else [])" "received c (serve K d) = (if d = c then told K c else [])"
  "connected (serve K d) C = (if reads K d = None then C - {d} else C)"
  by (auto simp: serve_def told_def sent_def received_def connected_def split: option.split)

lemma serve_all_log:
  "distinct cs \<Longrightarrow> sent c (concat (map (serve K) cs)) = (if c \<in> set cs then told K c else [])"
  "distinct cs \<Longrightarrow> received c (concat (map (serve K) cs)) = (if c \<in> set cs then told K c else [])"
  "connected (concat (map (serve K) cs)) C = C - {d \<in> set cs. reads K d = None}"
  by (induction cs arbitrary: C) (auto simp: serve_log)

section \<open>The loop over a table of clients\<close>

text \<open>Messages leave room in the buffer, and every write takes all it is given.\<close>

definition calm :: "kernel \<Rightarrow> bool" where
  "calm K \<longleftrightarrow> (\<forall>c d. reads K c = Some d \<longrightarrow> length d < MAX_LINE \<and> writes K c d = int (length d))"

text \<open>The contract of a table: \<open>quit\<close> empties one slot and keeps the invariant, under which no descriptor is in two
  slots. The slots of clients begin at \<open>lo\<close>.\<close>

locale echo_table =
  fixes slot :: "'s \<Rightarrow> nat \<Rightarrow> int" and hit :: "'s \<Rightarrow> nat \<Rightarrow> bool" and quit :: "nat \<Rightarrow> 's \<Rightarrow> 's"
    and size_of :: "'s \<Rightarrow> nat" and lo :: nat and inv :: "'s \<Rightarrow> bool"
  assumes size_quit: "size_of (quit i s) = size_of s"
    and slot_quit: "i < size_of s \<Longrightarrow> j < size_of s \<Longrightarrow> slot (quit i s) j = (if j = i then -1 else slot s j)"
    and hit_quit: "i < j \<Longrightarrow> j < size_of s \<Longrightarrow> hit (quit i s) j = hit s j"
    and inv_quit: "inv s \<Longrightarrow> lo \<le> i \<Longrightarrow> i < size_of s \<Longrightarrow> 0 \<le> slot s i \<Longrightarrow> inv (quit i s)"
    and inv_distinct: "inv s \<Longrightarrow> distinct (filter (\<lambda>c. 0 \<le> c) (map (slot s) [lo..<size_of s]))"
begin

definition clients :: "'s \<Rightarrow> int list" where
  "clients s = filter (\<lambda>c. 0 \<le> c) (map (slot s) [lo..<size_of s])"

definition due :: "'s \<Rightarrow> nat \<Rightarrow> nat \<Rightarrow> nat list" where
  "due s i n = filter (\<lambda>j. 0 \<le> slot s j \<and> hit s j) [i..<i + n]"

lemma due_0: "due s i 0 = []"
  by (simp add: due_def)

lemma due_Suc: "due s i (Suc n) = (if 0 \<le> slot s i \<and> hit s i then [i] else []) @ due s (Suc i) n"
  by (simp add: due_def upt_conv_Cons del: upt_Suc)

lemma due_quit: "i < k \<Longrightarrow> k + n \<le> size_of s \<Longrightarrow> due (quit i s) k n = due s k n"
  unfolding due_def by (rule filter_cong) (auto simp: slot_quit hit_quit)

lemma due_range: "j \<in> set (due s i n) \<Longrightarrow> i \<le> j \<and> j < i + n"
  by (auto simp: due_def)

lemma loop_result:
  assumes K: "calm K" and len: "i + n \<le> size_of s" and nr: "int (length (due s i n)) \<le> nr"
  shows "echo_loop slot hit quit K n i nr s log =
    Inr (fold quit (filter (\<lambda>j. reads K (slot s j) = None) (due s i n)) s, log @ concat (map (\<lambda>j. serve K (slot s j)) (due s i n)))"
  using len nr
proof (induction n arbitrary: i nr s log)
  case (Suc n)
  show ?case
  proof (cases "0 \<le> slot s i \<and> hit s i")
    case False
    then show ?thesis using Suc.IH [of "Suc i" s nr log] Suc.prems by (auto simp: due_Suc Let_def)
  next
    case True
    have nr: "int (length (due s (Suc i) n)) \<le> nr - 1" using Suc.prems(2) True by (simp add: due_Suc)
    then have stop: "due s (Suc i) n = []" if "nr - 1 \<le> 0"
    proof -
      have "length (due s (Suc i) n) = 0" using nr that by linarith
      then show ?thesis by simp
    qed
    show ?thesis
    proof (cases "reads K (slot s i)")
      case None
      have d: "due (quit i s) (Suc i) n = due s (Suc i) n" using due_quit [of i "Suc i" n s] Suc.prems(1) by simp
      have sl: "slot (quit i s) j = slot s j" if "j \<in> set (due s (Suc i) n)" for j
        using slot_quit [of i s j] Suc.prems(1) due_range [OF that] by simp
      have f: "filter (\<lambda>j. reads K (slot (quit i s) j) = None) (due s (Suc i) n) = filter (\<lambda>j. reads K (slot s j) = None) (due s (Suc i) n)"
        by (rule filter_cong) (simp_all add: sl)
      have m: "concat (map (\<lambda>j. serve K (slot (quit i s) j)) (due s (Suc i) n)) = concat (map (\<lambda>j. serve K (slot s j)) (due s (Suc i) n))"
        by (rule arg_cong [where f = concat], rule map_cong) (simp_all add: sl)
      have sv: "serve K (slot s i) = [Closed (slot s i)]" using None by (simp add: serve_def)
      show ?thesis
        using Suc.IH [of "Suc i" "quit i s" "nr - 1" "log @ [Closed (slot s i)]"] Suc.prems(1) nr stop True None
        by (auto simp: due_Suc Let_def sv d f m size_quit)
    next
      case (Some d)
      then have "length d < MAX_LINE" "writes K (slot s i) d = int (length d)" using K by (auto simp: calm_def)
      then show ?thesis using Suc.IH [of "Suc i" s "nr - 1" "log @ serve K (slot s i)"] Suc.prems(1) nr stop True Some
        by (auto simp: due_Suc Let_def serve_def)
    qed
  qed
qed (simp add: due_0)

lemma set_clients: "set (clients s) = slot s ` {j. lo \<le> j \<and> j < size_of s \<and> 0 \<le> slot s j}"
  by (auto simp: clients_def)

lemma slots_inj: "inv s \<Longrightarrow> inj_on (slot s) {j. lo \<le> j \<and> j < size_of s \<and> 0 \<le> slot s j}"
  using inv_distinct [of s] by (auto simp: filter_map distinct_map inj_on_def o_def)

lemma quit_clients:
  assumes "inv s" "lo \<le> k" "k < size_of s" "0 \<le> slot s k"
  shows "set (clients (quit k s)) = set (clients s) - {slot s k}"
proof -
  have "{j. lo \<le> j \<and> j < size_of (quit k s) \<and> 0 \<le> slot (quit k s) j} = {j. lo \<le> j \<and> j < size_of s \<and> 0 \<le> slot s j} - {k}"
    using assms by (auto simp: size_quit slot_quit split: if_splits)
  moreover have "slot (quit k s) ` ({j. lo \<le> j \<and> j < size_of s \<and> 0 \<le> slot s j} - {k})
      = slot s ` ({j. lo \<le> j \<and> j < size_of s \<and> 0 \<le> slot s j} - {k})"
    using assms by (intro image_cong) (auto simp: slot_quit)
  moreover have "\<dots> = slot s ` {j. lo \<le> j \<and> j < size_of s \<and> 0 \<le> slot s j} - {slot s k}"
    using assms by (subst inj_on_image_set_diff [OF slots_inj [OF assms(1)]]) auto
  ultimately show ?thesis by (simp add: set_clients)
qed

lemma quits:
  "inv s \<Longrightarrow> distinct js \<Longrightarrow> \<forall>j\<in>set js. lo \<le> j \<and> j < size_of s \<and> 0 \<le> slot s j \<Longrightarrow>
   inv (fold quit js s) \<and> set (clients (fold quit js s)) = set (clients s) - slot s ` set js"
proof (induction js arbitrary: s)
  case (Cons j js)
  have j: "lo \<le> j" "j < size_of s" "0 \<le> slot s j" using Cons.prems by auto
  have other: "slot (quit j s) k = slot s k" if "k \<in> set js" for k
  proof -
    have "k \<noteq> j" using Cons.prems(2) that by auto
    then show ?thesis using j Cons.prems(3) that by (simp add: slot_quit)
  qed
  have "inv (fold quit js (quit j s)) \<and> set (clients (fold quit js (quit j s))) = set (clients (quit j s)) - slot (quit j s) ` set js"
    using Cons.prems other by (intro Cons.IH inv_quit [OF Cons.prems(1) j]) (simp_all add: size_quit)
  moreover have "slot (quit j s) ` set js = slot s ` set js" using other by (simp cong: image_cong)
  ultimately show ?case using quit_clients [OF Cons.prems(1) j] by auto
qed simp

text \<open>When a slot is ready exactly if its descriptor satisfies \<open>P\<close>, a scan serves the clients with \<open>P\<close> once each, in the
  order of the table, and drops those that have nothing more to say.\<close>

lemma due_clients:
  assumes len: "lo + n \<le> size_of s" and P: "\<And>j. lo \<le> j \<Longrightarrow> j < size_of s \<Longrightarrow> 0 \<le> slot s j \<Longrightarrow> j < lo + n \<and> hit s j = P (slot s j)"
  shows "map (slot s) (due s lo n) = filter P (clients s)"
proof -
  have u: "[lo..<size_of s] = [lo..<lo + n] @ [lo + n..<size_of s]" using len by (metis le_add1 upt_add_eq_append le_Suc_ex)
  have "\<not> 0 \<le> slot s j" if "lo + n \<le> j" "j < size_of s" for j using P [of j] that by auto
  then have none: "filter (\<lambda>j. 0 \<le> slot s j) [lo + n..<size_of s] = []" by (simp add: filter_empty_conv)
  have "clients s = map (slot s) (filter (\<lambda>j. 0 \<le> slot s j) [lo..<lo + n])"
    unfolding clients_def u by (simp add: filter_map o_def none)
  then have "filter P (clients s) = map (slot s) (filter (\<lambda>j. P (slot s j) \<and> 0 \<le> slot s j) [lo..<lo + n])"
    by (simp add: filter_map o_def conj_commute)
  also have "filter (\<lambda>j. P (slot s j) \<and> 0 \<le> slot s j) [lo..<lo + n] = due s lo n"
    unfolding due_def using P len by (intro filter_cong) auto
  finally show ?thesis by simp
qed

lemma scan:
  assumes i: "inv s" and K: "calm K" and len: "lo + n \<le> size_of s"
    and P: "\<And>j. lo \<le> j \<Longrightarrow> j < size_of s \<Longrightarrow> 0 \<le> slot s j \<Longrightarrow> j < lo + n \<and> hit s j = P (slot s j)"
    and nr: "int (length (filter P (clients s))) \<le> nr"
  shows "\<exists>s'. echo_loop slot hit quit K n lo nr s log = Inr (s', log @ concat (map (serve K) (filter P (clients s))))
    \<and> inv s' \<and> set (clients s') = connected (concat (map (serve K) (filter P (clients s)))) (set (clients s))"
proof -
  let ?due = "due s lo n" let ?js = "filter (\<lambda>j. reads K (slot s j) = None) ?due"
  note due = due_clients [where P = P, OF len P]
  have "length ?due = length (filter P (clients s))" using arg_cong [OF due, of length] by simp
  then have run: "echo_loop slot hit quit K n lo nr s log
      = Inr (fold quit ?js s, log @ concat (map (\<lambda>j. serve K (slot s j)) ?due))"
    using nr by (intro loop_result [OF K len]) simp
  have srv: "map (\<lambda>j. serve K (slot s j)) ?due = map (serve K) (filter P (clients s))"
    using arg_cong [OF due, of "map (serve K)"] by (simp add: o_def)
  have im: "slot s ` {j \<in> A. Q (slot s j)} = {c \<in> slot s ` A. Q c}" for A Q by blast
  have gone: "slot s ` set ?js = {c \<in> set (filter P (clients s)). reads K c = None}"
    using im [of "set ?due" "\<lambda>c. reads K c = None"] arg_cong [OF due, of set] by simp
  have js: "distinct ?js" "\<forall>j\<in>set ?js. lo \<le> j \<and> j < size_of s \<and> 0 \<le> slot s j"
    using len by (auto simp: due_def)
  show ?thesis using run quits [OF i js] unfolding srv gone serve_all_log(3) by blast
qed

end

section \<open>The select server: its table\<close>

lemma select_quit_inv:
  assumes i: "accept_inv listenfd s" and k: "k < length (client_sockfd s)" "0 \<le> client_sockfd s ! k"
  shows "accept_inv listenfd (select_quit k s)"
proof -
  let ?c = "client_sockfd s ! k" and ?t = "select_quit k s"
  have "mset (filter P xs) = add_mset (xs ! k) (mset (filter P (xs[k := y])))" if "k < length xs" "P (xs ! k)" "\<not> P y" for P and xs :: "int list" and y
    by (subst id_take_nth_drop [OF that(1)]) (simp add: upd_conv_take_nth_drop [OF that(1)] that)
  from this [of "client_sockfd s" "\<lambda>c. 0 \<le> c" "-1"] have m: "mset (waiting s) = mset (?c # waiting ?t)"
    using k by (simp add: waiting_def select_quit_def)
  moreover have "distinct (waiting s)" using i by (simp add: accept_inv_def)
  ultimately have "distinct (?c # waiting ?t)" using mset_eq_imp_distinct_iff by blast
  then have d: "distinct (waiting ?t)" "?c \<notin> set (waiting ?t)" by simp_all
  have w: "set (waiting s) = insert ?c (set (waiting ?t))" using arg_cong [OF m, of set_mset] by simp
  have len: "length (client_sockfd ?t) = length (client_sockfd s)" and cs: "client_sockfd ?t = (client_sockfd s)[k := -1]"
    and ms: "maxi ?t = maxi s" "maxfd ?t = maxfd s" and al: "allset ?t = allset s - {?c}" by (simp_all add: select_quit_def)
  have "client_sockfd ?t ! j < 0" if "j < length (client_sockfd s)" "maxi s < int j" for j
    using i that unfolding accept_inv_def cs by (cases "j = k") auto
  then show ?thesis using i d w unfolding accept_inv_def len ms al by auto
qed

lemma waiting_slots: "waiting s = filter (\<lambda>c. 0 \<le> c) (map (select_slot s) [0..<length (client_sockfd s)])"
  by (simp add: waiting_def select_slot_def [abs_def] map_nth)

interpretation sel: echo_table select_slot "select_hit rset" select_quit "\<lambda>s. length (client_sockfd s)" 0 "accept_inv listenfd"
  for rset listenfd
proof
  show "accept_inv listenfd s \<Longrightarrow> 0 \<le> i \<Longrightarrow> i < length (client_sockfd s) \<Longrightarrow> 0 \<le> select_slot s i \<Longrightarrow> accept_inv listenfd (select_quit i s)" for s i
    by (rule select_quit_inv) (simp_all add: select_slot_def)
  show "accept_inv listenfd s \<Longrightarrow> distinct (filter (\<lambda>c. 0 \<le> c) (map (select_slot s) [0..<length (client_sockfd s)]))" for s
    by (simp add: waiting_slots [symmetric] accept_inv_def)
qed (auto simp: select_slot_def select_hit_def select_quit_def)

lemma select_clients: "sel.clients s = waiting s"
  by (simp add: sel.clients_def waiting_slots)

definition select_law :: "int \<Rightarrow> accept_state \<Rightarrow> kernel \<times> int set \<Rightarrow> bool" where
  "select_law listenfd s k \<longleftrightarrow> (case k of (K, rset) \<Rightarrow> calm K \<and> rset \<subseteq> allset s \<and> nready K = int (card rset) \<and>
     (listenfd \<in> rset \<longrightarrow> 0 \<le> accepts K \<and> accepts K \<notin> allset s \<and> free_slot (client_sockfd s) < length (client_sockfd s)))"

definition select_told :: "int \<Rightarrow> kernel \<times> int set \<Rightarrow> int \<Rightarrow> char list" where
  "select_told listenfd k c = (case k of (K, rset) \<Rightarrow> if c \<in> rset \<and> c \<noteq> listenfd then told K c else [])"

lemma select_scan:
  assumes i: "accept_inv listenfd s" and K: "calm K" and nr: "int (length (filter (\<lambda>c. c \<in> rset) (waiting s))) \<le> nr"
  shows "\<exists>s'. echo_loop select_slot (select_hit rset) select_quit K (nat (maxi s + 1)) 0 nr s log
      = Inr (s', log @ concat (map (serve K) (filter (\<lambda>c. c \<in> rset) (waiting s))))
    \<and> accept_inv listenfd s' \<and> set (waiting s') = connected (concat (map (serve K) (filter (\<lambda>c. c \<in> rset) (waiting s)))) (set (waiting s))"
proof -
  have n: "nat (maxi s + 1) \<le> length (client_sockfd s)" by (rule waiting_take(1) [OF i])
  have P: "j < 0 + nat (maxi s + 1) \<and> select_hit rset s j = (select_slot s j \<in> rset)" if "j < length (client_sockfd s)" "0 \<le> select_slot s j" for j
  proof -
    have "\<not> maxi s < int j" using i that unfolding accept_inv_def select_slot_def by fastforce
    then show ?thesis by (simp add: select_hit_def select_slot_def)
  qed
  show ?thesis
    using sel.scan [OF i K, of "nat (maxi s + 1)" rset "\<lambda>c. c \<in> rset" nr log] n P nr unfolding select_clients by simp
qed

lemma select_turn:
  assumes i: "accept_inv listenfd s" and law: "select_law listenfd s k"
  shows "\<exists>s' log. select_echo listenfd k s = Inr (Some (s', log)) \<and> accept_inv listenfd s'
    \<and> set (waiting s') = connected log (set (waiting s))
    \<and> (\<forall>c. received c log = select_told listenfd k c \<and> sent c log = select_told listenfd k c)"
proof -
  obtain K rset where k: "k = (K, rset)" by (cases k)
  let ?cs = "filter (\<lambda>c. c \<in> rset) (waiting s)" let ?log = "concat (map (serve K) ?cs)"
  have l: "calm K" "rset \<subseteq> allset s" "nready K = int (card rset)" using law by (auto simp: select_law_def k)
  have dist: "distinct (waiting s)" "listenfd \<notin> set (waiting s)" "allset s = insert listenfd (set (waiting s))"
    using i by (auto simp: accept_inv_def)
  have fin: "finite rset" using l(2) dist(3) finite_subset by auto
  have cs: "set ?cs = rset - {listenfd}" "distinct ?cs" using l(2) dist by auto
  then have len: "length ?cs = card (rset - {listenfd})" by (metis distinct_card)
  have told: "received c ?log = select_told listenfd k c" "sent c ?log = select_told listenfd k c" for c
    using cs by (auto simp: serve_all_log select_told_def k)
  show ?thesis
  proof (cases "listenfd \<in> rset")
    case False
    then have "int (length ?cs) \<le> nready K" using len l(3) by simp
    then obtain s' where "echo_loop select_slot (select_hit rset) select_quit K (nat (maxi s + 1)) 0 (nready K) s [] = Inr (s', ?log)"
      "accept_inv listenfd s'" "set (waiting s') = connected ?log (set (waiting s))"
      using select_scan [OF i l(1), of rset "nready K" "[]"] by auto
    then show ?thesis using False told by (simp add: select_echo_def k)
  next
    case True
    have c: "0 \<le> accepts K" "accepts K \<notin> allset s" "free_slot (client_sockfd s) < length (client_sockfd s)"
      using law True by (auto simp: select_law_def k)
    obtain s1 where s1: "accept_client (accepts K) s = Some s1" "accept_inv listenfd s1"
      "set (waiting s1) = insert (accepts K) (set (waiting s))" "\<And>P. \<not> P (accepts K) \<Longrightarrow> filter P (waiting s1) = filter P (waiting s)"
      using accept_client_inv [OF i c] by blast
    have new: "accepts K \<notin> rset" using c(2) l(2) by blast
    then have f: "filter (\<lambda>c. c \<in> rset) (waiting s1) = ?cs" by (rule s1(4))
    have nr: "nready K - 1 = int (length ?cs)" using len l(3) True fin card_Suc_Diff1 [OF fin True] by simp
    have "int (length (filter (\<lambda>c. c \<in> rset) (waiting s1))) \<le> nready K - 1" using nr f by simp
    then obtain s' where "echo_loop select_slot (select_hit rset) select_quit K (nat (maxi s1 + 1)) 0 (nready K - 1) s1 [Accepted (accepts K)]
        = Inr (s', Accepted (accepts K) # ?log)"
      "accept_inv listenfd s'" "set (waiting s') = connected ?log (set (waiting s1))"
      using select_scan [OF s1(2) l(1), of rset "nready K - 1" "[Accepted (accepts K)]"] unfolding f by auto
    then show ?thesis using True told s1(1,3) nr by (simp add: select_echo_def k)
  qed
qed
section \<open>Runs of a server\<close>

text \<open>The contract of a turn: it does not stop the server, it keeps the invariant, the log accounts for the connections,
  and the bytes that are sent to a client are those that were received from it.\<close>

locale echo_service =
  fixes pass :: "'k \<Rightarrow> 's \<Rightarrow> ('s \<times> io list) option res" and law :: "'s \<Rightarrow> 'k \<Rightarrow> bool" and inv :: "'s \<Rightarrow> bool"
    and fds :: "'s \<Rightarrow> int set" and payload :: "'k \<Rightarrow> int \<Rightarrow> char list"
  assumes turn: "inv s \<Longrightarrow> law s k \<Longrightarrow> \<exists>s' log. pass k s = Inr (Some (s', log)) \<and> inv s' \<and> fds s' = connected log (fds s)
    \<and> (\<forall>c. received c log = payload k c \<and> sent c log = payload k c)"
begin

lemma run:
  "inv s \<Longrightarrow> lawful pass law ks s \<Longrightarrow> \<exists>s' log. turns pass ks s = Inr (Some (s', log)) \<and> inv s' \<and> fds s' = connected log (fds s)
    \<and> (\<forall>c. received c log = concat (map (\<lambda>k. payload k c) ks) \<and> sent c log = concat (map (\<lambda>k. payload k c) ks))"
proof (induction ks arbitrary: s)
  case (Cons k ks)
  have "law s k" using Cons.prems(2) by simp
  with turn [OF Cons.prems(1)] obtain s1 log1 where 1: "pass k s = Inr (Some (s1, log1))" "inv s1" "fds s1 = connected log1 (fds s)"
    "\<forall>c. received c log1 = payload k c \<and> sent c log1 = payload k c" by blast
  have "lawful pass law ks s1" using Cons.prems(2) 1(1) by simp
  with Cons.IH [OF 1(2)] obtain s2 log2 where 2: "turns pass ks s1 = Inr (Some (s2, log2))" "inv s2" "fds s2 = connected log2 (fds s1)"
    "\<forall>c. received c log2 = concat (map (\<lambda>k. payload k c) ks) \<and> sent c log2 = concat (map (\<lambda>k. payload k c) ks)" by blast
  show ?case using 1 2 by (intro exI [of _ s2] exI [of _ "log1 @ log2"]) simp
qed simp

end

interpretation selsrv: echo_service "select_echo listenfd" "select_law listenfd" "accept_inv listenfd" "\<lambda>s. set (waiting s)" "select_told listenfd"
  for listenfd
  by unfold_locales (rule select_turn)

lemma waiting_init: "waiting (accept_init n listenfd) = []"
  by (simp add: waiting_def accept_init_def)

text \<open>C11: as long as \<open>select\<close> is truthful, messages are shorter than the buffer, writes are complete and the table has room,
  the select server runs on, and over all its turns each client is sent exactly the bytes that it has sent, in order and
  however many clients are ready at once. The clients in the table are those that connected and have not hung up.\<close>

theorem select_server_echoes:
  assumes "0 \<le> listenfd" "lawful (select_echo listenfd) (select_law listenfd) ks (accept_init n listenfd)"
  shows "\<exists>s log. turns (select_echo listenfd) ks (accept_init n listenfd) = Inr (Some (s, log)) \<and> accept_inv listenfd s
    \<and> set (waiting s) = connected log {}
    \<and> (\<forall>c. received c log = concat (map (\<lambda>k. select_told listenfd k c) ks) \<and> sent c log = concat (map (\<lambda>k. select_told listenfd k c) ks))"
  using selsrv.run [OF accept_init_inv [OF assms(1)] assms(2)] by (simp add: waiting_init)

text \<open>A kernel in which one client, on descriptor 5, connects and says \<open>hi\<close>.\<close>

definition hi_kernel :: kernel where
  "hi_kernel = \<lparr>nready = 1, accepts = 5, reads = (\<lambda>c. Some ''hi''), writes = (\<lambda>c d. int (length d))\<rparr>"

lemma hi_simps [simp]:
  "nready hi_kernel = 1" "accepts hi_kernel = 5" "reads hi_kernel c = Some ''hi''" "writes hi_kernel c d = int (length d)"
  by (simp_all add: hi_kernel_def)

lemma hi_calm: "calm hi_kernel"
  by (auto simp: calm_def)

lemma select_server_echoes_witness:
  "\<exists>s log. turns (select_echo 3) [(hi_kernel, {3}), (hi_kernel, {5})] (accept_init 2 3) = Inr (Some (s, log)) \<and> accept_inv 3 s
    \<and> set (waiting s) = connected log {} \<and> sent 5 log = ''hi''"
proof -
  let ?ks = "[(hi_kernel, {3}), (hi_kernel, {5})] :: (kernel \<times> int set) list"
  have l: "lawful (select_echo 3) (select_law 3) ?ks (accept_init 2 3)"
    by (simp add: select_law_def hi_calm select_echo_def accept_init_def accept_client_def eval_nat_numeral select_slot_def select_hit_def Let_def)
  then obtain s log where r: "turns (select_echo 3) ?ks (accept_init 2 3) = Inr (Some (s, log))" "accept_inv 3 s" "set (waiting s) = connected log {}"
    "\<forall>c. received c log = concat (map (\<lambda>k. select_told 3 k c) ?ks) \<and> sent c log = concat (map (\<lambda>k. select_told 3 k c) ?ks)"
    using select_server_echoes [of 3 ?ks 2] by fastforce
  have "concat (map (\<lambda>k. select_told 3 k 5) ?ks) = ''hi''" by (simp add: select_told_def told_def)
  then show ?thesis using r by metis
qed

section \<open>The poll server: its table\<close>

definition ready :: "16 word \<Rightarrow> bool" where
  "ready r \<longleftrightarrow> r AND (POLLRDNORM OR POLLERR) \<noteq> 0"

definition poll_clients :: "poll_state \<Rightarrow> int list" where
  "poll_clients s = filter (\<lambda>c. 0 \<le> c) (map fd (tl (client s)))"

text \<open>In a slot that has not been polled \<open>revents\<close> shows nothing: that is an assumption on the memory of the array.\<close>

definition poll_inv :: "int \<Rightarrow> poll_state \<Rightarrow> bool" where
  "poll_inv listenfd s \<longleftrightarrow> 0 \<le> listenfd \<and> pmaxi s < length (client s) \<and> fd (client s ! 0) = listenfd
     \<and> (\<forall>i < length (client s). pmaxi s < i \<longrightarrow> fd (client s ! i) < 0 \<and> \<not> ready (revents (client s ! i)))
     \<and> distinct (poll_clients s) \<and> listenfd \<notin> set (poll_clients s)"

lemma poll_slots: "poll_clients s = filter (\<lambda>c. 0 \<le> c) (map (poll_slot s) [Suc 0..<length (client s)])"
proof -
  have "map fd (tl (client s)) = map (poll_slot s) [Suc 0..<length (client s)]"
    by (rule nth_equalityI) (auto simp: poll_slot_def nth_tl)
  then show ?thesis by (simp add: poll_clients_def)
qed

lemma filter_out:
  assumes "k < length xs" "P (xs ! k)" "\<not> P y"
  shows "mset (filter P xs) = mset (xs ! k # filter P (xs[k := y]))"
  by (subst id_take_nth_drop [OF assms(1)]) (simp add: upd_conv_take_nth_drop [OF assms(1)] assms)

lemma poll_quit_inv:
  assumes i: "poll_inv listenfd s" and k: "1 \<le> k" "k < length (client s)" "0 \<le> fd (client s ! k)"
  shows "poll_inv listenfd (poll_quit k s)"
proof -
  let ?t = "poll_quit k s" and ?fds = "map fd (tl (client s))"
  obtain k' where k': "k = Suc k'" using k(1) by (cases k) auto
  have ne: "client s \<noteq> []" using k(2) by auto
  have fds: "map fd (tl (client ?t)) = ?fds[k' := -1]"
    using ne by (cases "client s") (auto simp: poll_quit_def k' map_update)
  have "?fds ! k' = fd (client s ! k)" using k(2) by (simp add: k' nth_tl)
  then have m: "mset (poll_clients s) = mset (fd (client s ! k) # poll_clients ?t)"
    using filter_out [of k' ?fds "\<lambda>c. 0 \<le> c" "-1"] k unfolding poll_clients_def fds by (simp add: k' del: mset_filter mset_map)
  moreover have "distinct (poll_clients s)" using i by (simp add: poll_inv_def)
  ultimately have "distinct (fd (client s ! k) # poll_clients ?t)" using mset_eq_imp_distinct_iff by blast
  moreover have "set (poll_clients ?t) \<subseteq> set (poll_clients s)" using arg_cong [OF m, of set_mset] by auto
  ultimately show ?thesis
    using i k unfolding poll_inv_def by (auto simp: poll_quit_def nth_list_update)
qed

interpretation pol: echo_table poll_slot poll_hit poll_quit "\<lambda>s. length (client s)" "Suc 0" "poll_inv listenfd" for listenfd
proof
  show "poll_inv listenfd s \<Longrightarrow> Suc 0 \<le> i \<Longrightarrow> i < length (client s) \<Longrightarrow> 0 \<le> poll_slot s i \<Longrightarrow> poll_inv listenfd (poll_quit i s)" for s i
    by (rule poll_quit_inv) (simp_all add: poll_slot_def)
  show "poll_inv listenfd s \<Longrightarrow> distinct (filter (\<lambda>c. 0 \<le> c) (map (poll_slot s) [Suc 0..<length (client s)]))" for s
    by (simp add: poll_slots [symmetric] poll_inv_def)
qed (auto simp: poll_slot_def poll_hit_def poll_quit_def)

lemma poll_pol_clients: "pol.clients s = poll_clients s"
  by (simp add: pol.clients_def poll_slots)
text \<open>After \<open>poll\<close> the slots say what it has found: nothing in an empty slot, \<open>rv\<close> of the descriptor in the others.\<close>

definition polled :: "(int \<Rightarrow> 16 word) \<Rightarrow> poll_state \<Rightarrow> bool" where
  "polled rv s \<longleftrightarrow> (\<forall>j. Suc 0 \<le> j \<longrightarrow> j < length (client s) \<longrightarrow>
     (if 0 \<le> poll_slot s j then j \<le> pmaxi s \<and> poll_hit s j = ready (rv (poll_slot s j)) else \<not> poll_hit s j))"

lemma poll_scan:
  assumes i: "poll_inv listenfd s" and K: "calm K" and p: "polled rv s"
    and nr: "int (length (filter (\<lambda>c. ready (rv c)) (poll_clients s))) \<le> nr"
  shows "\<exists>s'. echo_loop poll_slot poll_hit poll_quit K (pmaxi s) (Suc 0) nr s log
      = Inr (s', log @ concat (map (serve K) (filter (\<lambda>c. ready (rv c)) (poll_clients s))))
    \<and> poll_inv listenfd s'
    \<and> set (poll_clients s') = connected (concat (map (serve K) (filter (\<lambda>c. ready (rv c)) (poll_clients s)))) (set (poll_clients s))"
proof -
  have n: "Suc 0 + pmaxi s \<le> length (client s)" using i by (simp add: poll_inv_def)
  have P: "j < Suc 0 + pmaxi s \<and> poll_hit s j = ready (rv (poll_slot s j))" if "Suc 0 \<le> j" "j < length (client s)" "0 \<le> poll_slot s j" for j
    using p that unfolding polled_def by fastforce
  show ?thesis
    using pol.scan [where P = "\<lambda>c. ready (rv c)", OF i K n P] nr unfolding poll_pol_clients by blast
qed

lemma do_poll_nth:
  "i < length (client s) \<Longrightarrow> client (do_poll rv s) ! i
     = (if i \<le> pmaxi s then (client s ! i)\<lparr>revents := if fd (client s ! i) < 0 then 0 else rv (fd (client s ! i))\<rparr> else client s ! i)"
  by (auto simp: do_poll_def nth_append min_def)

lemma do_poll_length: "length (client (do_poll rv s)) = length (client s)"
  by (simp add: do_poll_def)

lemma do_poll_fds: "map fd (client (do_poll rv s)) = map fd (client s)"
  by (rule nth_equalityI) (simp_all add: do_poll_length do_poll_nth)

lemma do_poll_clients: "poll_clients (do_poll rv s) = poll_clients s"
  using do_poll_fds [of rv s] by (simp add: poll_clients_def map_tl)

lemma do_poll_inv:
  assumes "poll_inv listenfd s"
  shows "poll_inv listenfd (do_poll rv s) \<and> polled rv (do_poll rv s)"
proof
  have l: "length (client (do_poll rv s)) = length (client s)" "pmaxi (do_poll rv s) = pmaxi s" by (simp_all add: do_poll_def)
  have ne: "0 < length (client s)" using assms by (auto simp: poll_inv_def)
  show "poll_inv listenfd (do_poll rv s)"
    using assms unfolding poll_inv_def l do_poll_clients by (auto simp: do_poll_nth [OF ne] do_poll_nth)
  show "polled rv (do_poll rv s)"
    using assms unfolding poll_inv_def polled_def l poll_slot_def poll_hit_def
    by (auto simp: do_poll_nth ready_def linorder_not_le)
qed

lemma poll_accept_inv:
  assumes i: "poll_inv listenfd s" and p: "polled rv s" and c: "0 \<le> connfd" "connfd \<noteq> listenfd" "connfd \<notin> set (poll_clients s)" "rv connfd = 0"
    and room: "free_slot (map fd (tl (client s))) < length (tl (client s))"
  shows "\<exists>s'. poll_accept connfd s = Some s' \<and> poll_inv listenfd s' \<and> polled rv s' \<and> set (poll_clients s') = insert connfd (set (poll_clients s))
    \<and> filter (\<lambda>c. ready (rv c)) (poll_clients s') = filter (\<lambda>c. ready (rv c)) (poll_clients s)"
proof -
  let ?fds = "map fd (tl (client s))" let ?f = "free_slot ?fds"
  let ?s = "s\<lparr>client := (client s)[Suc ?f := (client s ! Suc ?f)\<lparr>fd := connfd, events := POLLRDNORM\<rparr>],
    pmaxi := (if Suc ?f > pmaxi s then Suc ?f else pmaxi s)\<rparr>"
  have f: "Suc ?f < length (client s)" using room by simp
  have a: "poll_accept connfd s = Some ?s" using c(1) f by (simp add: poll_accept_def Let_def)
  have fds: "map fd (tl (client ?s)) = ?fds[?f := connfd]"
    using f by (cases "client s") (auto simp: map_update)
  have fr: "?f < length ?fds" using room by simp
  have m: "mset (poll_clients ?s) = mset (connfd # poll_clients s)"
    using filter_free_slot [OF fr c(1)] unfolding poll_clients_def fds by simp
  have st: "set (poll_clients ?s) = insert connfd (set (poll_clients s))" using arg_cong [OF m, of set_mset] by simp
  have d: "distinct (poll_clients ?s)"
    using mset_eq_imp_distinct_iff [OF m] i c(3) by (simp add: poll_inv_def)
  have "\<not> ready (rv connfd)" by (simp add: c(4) ready_def)
  then have fl: "filter (\<lambda>c. ready (rv c)) (poll_clients ?s) = filter (\<lambda>c. ready (rv c)) (poll_clients s)"
    using filter_other_slot [OF fr, of "\<lambda>c. ready (rv c)" connfd] unfolding poll_clients_def fds by (simp add: conj_commute)
  have neg: "fd (client s ! Suc ?f) < 0" using free_slot_nth [of ?fds] fr by (simp add: nth_tl)
  have "poll_inv listenfd ?s"
    using i d c(2) f unfolding poll_inv_def st by (auto simp: nth_list_update)
  moreover have "polled rv ?s"
    using p f neg c(1) \<open>\<not> ready (rv connfd)\<close> unfolding polled_def by (auto simp: poll_slot_def poll_hit_def nth_list_update ready_def not_less)
  ultimately show ?thesis using a st fl by blast
qed
definition poll_law :: "int \<Rightarrow> poll_state \<Rightarrow> kernel \<times> (int \<Rightarrow> 16 word) \<Rightarrow> bool" where
  "poll_law listenfd s k \<longleftrightarrow> (case k of (K, rv) \<Rightarrow> calm K \<and> {c. rv c \<noteq> 0} \<subseteq> insert listenfd (set (poll_clients s))
     \<and> nready K = int (card {c. rv c \<noteq> 0})
     \<and> (rv listenfd AND POLLRDNORM \<noteq> 0 \<longrightarrow> 0 \<le> accepts K \<and> accepts K \<noteq> listenfd \<and> accepts K \<notin> set (poll_clients s)
          \<and> free_slot (map fd (tl (client s))) < length (tl (client s))))"

definition poll_told :: "int \<Rightarrow> kernel \<times> (int \<Rightarrow> 16 word) \<Rightarrow> int \<Rightarrow> char list" where
  "poll_told listenfd k c = (case k of (K, rv) \<Rightarrow> if ready (rv c) \<and> c \<noteq> listenfd then told K c else [])"

lemma poll_counts:
  assumes "poll_inv listenfd s" "{c. rv c \<noteq> 0} \<subseteq> insert listenfd (set (poll_clients s))"
  shows "set (filter (\<lambda>c. ready (rv c)) (poll_clients s)) = {c. ready (rv c)} - {listenfd}"
    and "length (filter (\<lambda>c. ready (rv c)) (poll_clients s)) \<le> card ({c. rv c \<noteq> 0} - {listenfd})"
proof -
  let ?cs = "filter (\<lambda>c. ready (rv c)) (poll_clients s)"
  have nz: "rv c \<noteq> 0" if "ready (rv c)" for c using that by (auto simp: ready_def)
  have "listenfd \<notin> set (poll_clients s)" using assms(1) by (simp add: poll_inv_def)
  then show st: "set ?cs = {c. ready (rv c)} - {listenfd}" using assms(2) nz by auto
  have "finite ({c. rv c \<noteq> 0} - {listenfd})" using assms(2) by (auto intro: finite_subset)
  then have "card (set ?cs) \<le> card ({c. rv c \<noteq> 0} - {listenfd})" unfolding st using nz by (intro card_mono) auto
  moreover have "distinct ?cs" using assms(1) by (simp add: poll_inv_def)
  ultimately show "length ?cs \<le> card ({c. rv c \<noteq> 0} - {listenfd})" using distinct_card [of ?cs] by linarith
qed

lemma poll_turn:
  assumes i: "poll_inv listenfd s" and law: "poll_law listenfd s k"
  shows "\<exists>s' log. poll_echo k s = Inr (Some (s', log)) \<and> poll_inv listenfd s'
    \<and> set (poll_clients s') = connected log (set (poll_clients s))
    \<and> (\<forall>c. received c log = poll_told listenfd k c \<and> sent c log = poll_told listenfd k c)"
proof -
  obtain K rv where k: "k = (K, rv)" by (cases k)
  let ?cs = "filter (\<lambda>c. ready (rv c)) (poll_clients s)" let ?log = "concat (map (serve K) ?cs)" let ?p = "do_poll rv s"
  have l: "calm K" "{c. rv c \<noteq> 0} \<subseteq> insert listenfd (set (poll_clients s))" "nready K = int (card {c. rv c \<noteq> 0})"
    using law by (auto simp: poll_law_def k)
  have p: "poll_inv listenfd ?p" "polled rv ?p" using do_poll_inv [OF i] by auto
  have fin: "finite {c. rv c \<noteq> 0}" using l(2) finite_subset by auto
  have told: "received c ?log = poll_told listenfd k c" "sent c ?log = poll_told listenfd k c" for c
    using poll_counts(1) [OF i l(2)] i by (auto simp: serve_all_log poll_told_def k poll_inv_def)
  have "client s \<noteq> []" "fd (client s ! 0) = listenfd" "0 \<le> listenfd" using i by (auto simp: poll_inv_def)
  then have r0: "revents (client ?p ! 0) = rv listenfd" by (simp add: do_poll_nth)
  show ?thesis
  proof (cases "rv listenfd AND POLLRDNORM \<noteq> 0")
    case False
    have "card ({c. rv c \<noteq> 0} - {listenfd}) \<le> card {c. rv c \<noteq> 0}" using fin by (intro card_mono) auto
    then have "int (length (filter (\<lambda>c. ready (rv c)) (poll_clients ?p))) \<le> nready K"
      using poll_counts(2) [OF i l(2)] l(3) by (simp add: do_poll_clients)
    from poll_scan [OF p(1) l(1) p(2) this, of "[]"]
    obtain s' where "echo_loop poll_slot poll_hit poll_quit K (pmaxi ?p) (Suc 0) (nready K) ?p [] = Inr (s', ?log)"
      "poll_inv listenfd s'" "set (poll_clients s') = connected ?log (set (poll_clients s))" unfolding do_poll_clients by auto
    then show ?thesis using False told r0 by (simp add: poll_echo_def k)
  next
    case True
    have c: "0 \<le> accepts K" "accepts K \<noteq> listenfd" "accepts K \<notin> set (poll_clients ?p)" "rv (accepts K) = 0"
      "free_slot (map fd (tl (client ?p))) < length (tl (client ?p))"
      using law True l(2) do_poll_length [of rv s] do_poll_fds [of rv s] by (auto simp: poll_law_def k do_poll_clients map_tl)
    obtain s1 where s1: "poll_accept (accepts K) ?p = Some s1" "poll_inv listenfd s1" "polled rv s1"
      "set (poll_clients s1) = insert (accepts K) (set (poll_clients s))"
      "filter (\<lambda>c. ready (rv c)) (poll_clients s1) = ?cs"
      using poll_accept_inv [OF p c] unfolding do_poll_clients by blast
    have "listenfd \<in> {c. rv c \<noteq> 0}" using True by auto
    then have nr: "nready K - 1 = int (card ({c. rv c \<noteq> 0} - {listenfd}))"
      using l(3) fin card_Suc_Diff1 [OF fin \<open>listenfd \<in> _\<close>] by simp
    then have "int (length (filter (\<lambda>c. ready (rv c)) (poll_clients s1))) \<le> nready K - 1"
      using poll_counts(2) [OF i l(2)] s1(5) by simp
    from poll_scan [OF s1(2) l(1) s1(3) this, of "[Accepted (accepts K)]"]
    obtain s' where "echo_loop poll_slot poll_hit poll_quit K (pmaxi s1) (Suc 0) (nready K - 1) s1 [Accepted (accepts K)]
        = Inr (s', Accepted (accepts K) # ?log)"
      "poll_inv listenfd s'" "set (poll_clients s') = connected ?log (set (poll_clients s1))" unfolding s1(5) by auto
    then show ?thesis using True told r0 s1(1,4) nr by (simp add: poll_echo_def k)
  qed
qed

interpretation polsrv: echo_service poll_echo "poll_law listenfd" "poll_inv listenfd" "\<lambda>s. set (poll_clients s)" "poll_told listenfd"
  for listenfd
  by unfold_locales (rule poll_turn)

lemma poll_init_inv:
  assumes "0 \<le> listenfd" "mem \<noteq> []" "\<forall>p\<in>set (tl mem). \<not> ready (revents p)"
  shows "poll_inv listenfd (poll_init mem listenfd)" "poll_clients (poll_init mem listenfd) = []"
proof -
  show c: "poll_clients (poll_init mem listenfd) = []" by (simp add: poll_clients_def poll_init_def filter_empty_conv)
  show "poll_inv listenfd (poll_init mem listenfd)"
    using assms unfolding poll_inv_def c by (cases mem) (auto simp: poll_init_def nth_Cons split: nat.splits)
qed

text \<open>The poll server. Where the entries of its array that were never filled happen to show no event, the same holds as
  for the select server: it runs on, and over all its turns each client is sent exactly what it has sent.\<close>

theorem poll_server_echoes:
  assumes "0 \<le> listenfd" "mem \<noteq> []" "\<forall>p\<in>set (tl mem). \<not> ready (revents p)"
    "lawful poll_echo (poll_law listenfd) ks (poll_init mem listenfd)"
  shows "\<exists>s log. turns poll_echo ks (poll_init mem listenfd) = Inr (Some (s, log)) \<and> poll_inv listenfd s
    \<and> set (poll_clients s) = connected log {}
    \<and> (\<forall>c. received c log = concat (map (\<lambda>k. poll_told listenfd k c) ks) \<and> sent c log = concat (map (\<lambda>k. poll_told listenfd k c) ks))"
  using polsrv.run [OF poll_init_inv(1) [OF assms(1-3)] assms(4)] by (simp add: poll_init_inv(2) [OF assms(1-3)])

lemma poll_server_echoes_witness:
  "\<exists>s log. turns poll_echo [(hi_kernel, (\<lambda>_. 0)(3 := 0x40)), (hi_kernel, (\<lambda>_. 0)(5 := 0x40))] (poll_init (replicate 2 \<lparr>fd = 0, events = 0, revents = 0\<rparr>) 3)
      = Inr (Some (s, log)) \<and> poll_inv 3 s \<and> sent 5 log = ''hi''"
proof -
  let ?ks = "[(hi_kernel, (\<lambda>_. 0)(3 := 0x40)), (hi_kernel, (\<lambda>_. 0)(5 := 0x40))] :: (kernel \<times> (int \<Rightarrow> 16 word)) list"
  let ?mem = "replicate 2 \<lparr>fd = 0, events = 0, revents = 0\<rparr> :: pollfd list"
  have "(0x40 :: 16 word) \<noteq> 0" by simp
  then have nz: "\<not> iszero (0x40 :: 16 word)" unfolding iszero_def .
  have one: "{c. c = (d :: int)} = {d}" for d by auto
  note pol_eval = poll_echo_def poll_init_def poll_accept_def do_poll_def numeral_2_eq_2 poll_slot_def poll_hit_def poll_clients_def Let_def
  have l: "lawful poll_echo (poll_law 3) ?ks (poll_init ?mem 3)"
    by (simp add: poll_law_def hi_calm pol_eval one nz del: iszero_word_no)
  then obtain s log where r: "turns poll_echo ?ks (poll_init ?mem 3) = Inr (Some (s, log))" "poll_inv 3 s"
    "\<forall>c. received c log = concat (map (\<lambda>k. poll_told 3 k c) ?ks) \<and> sent c log = concat (map (\<lambda>k. poll_told 3 k c) ?ks)"
    using poll_server_echoes [of 3 ?mem ?ks] by (fastforce simp: ready_def)
  have "concat (map (\<lambda>k. poll_told 3 k 5) ?ks) = ''hi''" by (simp add: poll_told_def told_def ready_def)
  then show ?thesis using r by metis
qed

text \<open>Where it is not so, the accepted client is taken for ready although \<open>poll\<close> has never looked at it: when
  nothing but the listening socket is ready, the server reads from the new connection at once, and the whole server
  waits for its first message.\<close>

theorem poll_fresh_slot:
  assumes "ready (revents q)" "0 \<le> c" "nready K = 1" "accepts K = c" "rv 3 AND POLLRDNORM \<noteq> 0" "reads K c = Some d" "length d < MAX_LINE" "writes K c d = int (length d)"
  shows "\<exists>s. poll_echo (K, rv) (poll_init (p # q # mem) 3) = Inr (Some (s, [Accepted c, Received c d, Sent c d]))"
  using assms by (simp add: poll_echo_def poll_init_def do_poll_def poll_accept_def poll_slot_def poll_hit_def ready_def Let_def)

end
