(* ===== verification/EchoEpoll.thy ===== *)
theory EchoEpoll
  imports EchoServer
begin

text \<open>
  The echo server \<^verbatim>\<open>src/socket_test/epoll_socket/server.c\<close>. It reads a message when a client can be read from and
  answers when the client can be written to, but keeps one buffer and one length for all clients: \<open>answers\<close> is what
  it does in terms of the last message received from anyone.
\<close>

text \<open>One buffer \<open>ebuf\<close> and one length \<open>en\<close> for all clients. \<open>interest\<close> says which descriptors are registered and
  whether for reading (\<open>True\<close>) or for writing. An event carries its flags and what \<open>accept\<close>, \<open>read\<close> and \<open>write\<close>
  answer in its turn; a result of \<open>read\<close> that is not positive is an \<open>Inl\<close>.\<close>

record epoll_state =
  interest :: "int \<Rightarrow> bool option"
  ebuf :: "char list"
  en :: int

record epoll_evt =
  e_fd :: int
  e_in :: bool
  e_out :: bool
  e_accept :: int
  e_read :: "int + char list"
  e_write :: "char list \<Rightarrow> int"

definition epoll_start :: "int \<Rightarrow> char list \<Rightarrow> int \<Rightarrow> epoll_state" where
  "epoll_start listenfd buf n = \<lparr>interest = [listenfd \<mapsto> True], ebuf = buf, en = n\<rparr>"

text \<open>The body of the loop over the events; the flag in the result says that the loop goes on.\<close>

definition epoll_event :: "int \<Rightarrow> epoll_evt \<Rightarrow> epoll_state \<Rightarrow> io list \<Rightarrow> (bool \<times> epoll_state \<times> io list) option res" where
  "epoll_event listenfd e s log =
     (if e_fd e = listenfd then
        (if e_accept e < 0 then Inr None
         else Inr (Some (True, s\<lparr>interest := (interest s)(e_accept e \<mapsto> True)\<rparr>, log @ [Accepted (e_accept e)])))
      else if e_in e then
        (if e_fd e < 0 then Inr (Some (True, s, log))
         else (case e_read e of
             Inl n \<Rightarrow> Inr (Some (True, s\<lparr>interest := (interest s)(e_fd e := None), ebuf := replicate MAX_LINE NUL, en := n\<rparr>, log @ [Closed (e_fd e)]))
           | Inr d \<Rightarrow> if MAX_LINE \<le> length d then Inl OutOfBounds
               else Inr (Some (True, s\<lparr>interest := (interest s)(e_fd e \<mapsto> False), ebuf := d @ replicate (MAX_LINE - length d) NUL,
                      en := int (length d)\<rparr>, log @ [Received (e_fd e) d]))))
      else if e_out e then
        (if e_fd e < 0 then Inr (Some (True, s, log))
         else if en s < 0 then Inl OutOfBounds
         else let d = take (nat (en s)) (ebuf s); ret = e_write e d; log = log @ [Sent (e_fd e) (take (nat ret) d)] in
           if ret \<noteq> en s then Inr (Some (False, s, log @ [WriteError (e_fd e)]))
           else Inr (Some (True, s\<lparr>interest := (interest s)(e_fd e \<mapsto> True)\<rparr>, log)))
      else Inr (Some (True, s, log)))"

primrec epoll_events :: "int \<Rightarrow> epoll_evt list \<Rightarrow> epoll_state \<Rightarrow> io list \<Rightarrow> (epoll_state \<times> io list) option res" where
  "epoll_events listenfd [] s log = Inr (Some (s, log))"
| "epoll_events listenfd (e # es) s log =
     rbind (epoll_event listenfd e s log) (\<lambda>r. case r of None \<Rightarrow> Inr None
       | Some (go, s, log) \<Rightarrow> if go then epoll_events listenfd es s log else Inr (Some (s, log)))"

text \<open>\<open>epoll_wait\<close> is given room for 256 events and an array of 20.\<close>

definition epoll_pass :: "int \<Rightarrow> epoll_evt list \<Rightarrow> epoll_state \<Rightarrow> (epoll_state \<times> io list) option res" where
  "epoll_pass listenfd es s = (if 20 < length es then Inl OutOfBounds else epoll_events listenfd es s [])"


section \<open>What the server sends\<close>

text \<open>The last message after an event, and what client \<open>c\<close> is sent by it.\<close>

definition last_after :: "int \<Rightarrow> epoll_evt \<Rightarrow> char list \<Rightarrow> char list" where
  "last_after listenfd e m = (if e_fd e = listenfd \<or> \<not> e_in e then m else case e_read e of Inl n \<Rightarrow> [] | Inr d \<Rightarrow> d)"

primrec answers :: "int \<Rightarrow> int \<Rightarrow> epoll_evt list \<Rightarrow> char list \<Rightarrow> char list" where
  "answers listenfd c [] m = []"
| "answers listenfd c (e # es) m =
     (if e_fd e = c \<and> c \<noteq> listenfd \<and> \<not> e_in e \<and> e_out e then m else []) @ answers listenfd c es (last_after listenfd e m)"

text \<open>A truthful kernel: it reports what a descriptor is registered for, messages are not empty and shorter than the
  buffer, a client that leaves has closed its end, and writes are complete.\<close>

definition epoll_event_ok :: "int \<Rightarrow> epoll_state \<Rightarrow> epoll_evt \<Rightarrow> bool" where
  "epoll_event_ok listenfd s e \<longleftrightarrow>
     (if e_fd e = listenfd then 0 \<le> e_accept e \<and> interest s (e_accept e) = None
      else 0 \<le> e_fd e \<and>
        (if e_in e then interest s (e_fd e) = Some True \<and>
           (case e_read e of Inl n \<Rightarrow> n = 0 | Inr d \<Rightarrow> d \<noteq> [] \<and> length d < MAX_LINE)
         else e_out e \<longrightarrow> interest s (e_fd e) = Some False \<and> (\<forall>d. e_write e d = int (length d))))"

primrec epoll_events_ok :: "int \<Rightarrow> epoll_evt list \<Rightarrow> epoll_state \<Rightarrow> bool" where
  "epoll_events_ok listenfd [] s \<longleftrightarrow> True"
| "epoll_events_ok listenfd (e # es) s \<longleftrightarrow> epoll_event_ok listenfd s e \<and>
     (case epoll_event listenfd e s [] of Inr (Some (go, s', log)) \<Rightarrow> epoll_events_ok listenfd es s' | _ \<Rightarrow> True)"

text \<open>While anyone waits for an answer, the buffer holds the last message \<open>m\<close>.\<close>

definition holds_last :: "char list \<Rightarrow> epoll_state \<Rightarrow> bool" where
  "holds_last m s \<longleftrightarrow> ((\<exists>c. interest s c = Some False) \<longrightarrow> en s = int (length m) \<and> take (length m) (ebuf s) = m)"

lemma epoll_event_log: "epoll_event listenfd e s log = rbind (epoll_event listenfd e s []) (\<lambda>r. Inr (map_option (\<lambda>(go, s, l). (go, s, log @ l)) r))"
  by (auto simp: epoll_event_def Let_def split: sum.split)

lemma event_step:
  assumes "epoll_event_ok listenfd s e" "holds_last m s"
  shows "\<exists>s' log. epoll_event listenfd e s [] = Inr (Some (True, s', log)) \<and> holds_last (last_after listenfd e m) s'
    \<and> (\<forall>c. sent c log = answers listenfd c [e] m)"
proof -
  consider (acc) "e_fd e = listenfd" | (bye) n where "e_fd e \<noteq> listenfd" "e_in e" "e_read e = Inl n"
    | (rd) d where "e_fd e \<noteq> listenfd" "e_in e" "e_read e = Inr d" | (wr) "e_fd e \<noteq> listenfd" "\<not> e_in e" "e_out e"
    | (none) "e_fd e \<noteq> listenfd" "\<not> e_in e" "\<not> e_out e" by (cases "e_read e") auto
  then show ?thesis
  proof cases
    case acc
    then show ?thesis using assms by (auto simp: epoll_event_ok_def epoll_event_def holds_last_def last_after_def sent_def split: if_splits)
  next
    case bye
    then show ?thesis using assms by (auto simp: epoll_event_ok_def epoll_event_def holds_last_def last_after_def sent_def)
  next
    case rd
    then show ?thesis using assms by (auto simp: epoll_event_ok_def epoll_event_def holds_last_def last_after_def sent_def)
  next
    case wr
    then have "en s = int (length m)" "take (length m) (ebuf s) = m" using assms by (auto simp: epoll_event_ok_def holds_last_def)
    then show ?thesis using wr assms
      by (auto simp: epoll_event_ok_def epoll_event_def holds_last_def last_after_def sent_def Let_def)
  next
    case none
    then show ?thesis using assms by (auto simp: epoll_event_ok_def epoll_event_def holds_last_def last_after_def sent_def)
  qed
qed

lemma events_run:
  "epoll_events_ok listenfd es s \<Longrightarrow> holds_last m s \<Longrightarrow> \<exists>s' log'. epoll_events listenfd es s log = Inr (Some (s', log @ log'))
     \<and> holds_last (fold (last_after listenfd) es m) s' \<and> (\<forall>c. sent c log' = answers listenfd c es m)"
proof (induction es arbitrary: s m log)
  case (Cons e es)
  obtain s1 log1 where 1: "epoll_event listenfd e s [] = Inr (Some (True, s1, log1))" "holds_last (last_after listenfd e m) s1"
    "\<forall>c. sent c log1 = answers listenfd c [e] m"
    using event_step [of listenfd s e m] Cons.prems by auto
  have "epoll_events_ok listenfd es s1" using Cons.prems(1) 1(1) by simp
  from Cons.IH [OF this 1(2), of "log @ log1"] obtain s2 log2 where
    2: "epoll_events listenfd es s1 (log @ log1) = Inr (Some (s2, (log @ log1) @ log2))"
    "holds_last (fold (last_after listenfd) es (last_after listenfd e m)) s2" "\<forall>c. sent c log2 = answers listenfd c es (last_after listenfd e m)"
    by blast
  show ?case using 1 2 by (intro exI [of _ s2] exI [of _ "log1 @ log2"]) (simp add: epoll_event_log [of _ _ _ log])
qed simp

lemma answers_append: "answers listenfd c (es @ es') m = answers listenfd c es m @ answers listenfd c es' (fold (last_after listenfd) es m)"
  by (induction es arbitrary: m) simp_all

definition epoll_law :: "int \<Rightarrow> epoll_state \<Rightarrow> epoll_evt list \<Rightarrow> bool" where
  "epoll_law listenfd s es \<longleftrightarrow> length es \<le> 20 \<and> epoll_events_ok listenfd es s"

lemma passes_run:
  "lawful (epoll_pass listenfd) (epoll_law listenfd) ks s \<Longrightarrow> holds_last m s \<Longrightarrow>
   \<exists>s' log. turns (epoll_pass listenfd) ks s = Inr (Some (s', log)) \<and> (\<forall>c. sent c log = answers listenfd c (concat ks) m)"
proof (induction ks arbitrary: s m)
  case (Cons es ks)
  have l: "length es \<le> 20" "epoll_events_ok listenfd es s" using Cons.prems(1) by (simp_all add: epoll_law_def)
  from events_run [OF l(2) Cons.prems(2), of "[]"] obtain s1 log1 where
    1: "epoll_events listenfd es s [] = Inr (Some (s1, log1))" "holds_last (fold (last_after listenfd) es m) s1"
    "\<forall>c. sent c log1 = answers listenfd c es m" by auto
  then have p: "epoll_pass listenfd es s = Inr (Some (s1, log1))" using l(1) by (simp add: epoll_pass_def)
  have "lawful (epoll_pass listenfd) (epoll_law listenfd) ks s1" using Cons.prems(1) p by simp
  from Cons.IH [OF this 1(2)] obtain s2 log2 where
    2: "turns (epoll_pass listenfd) ks s1 = Inr (Some (s2, log2))"
    "\<forall>c. sent c log2 = answers listenfd c (concat ks) (fold (last_after listenfd) es m)" by blast
  show ?case using p 2 1(3) by (intro exI [of _ s2] exI [of _ "log1 @ log2"]) (simp add: answers_append)
qed simp

text \<open>C26: what the epoll server sends, over any passes with a truthful kernel: a client that becomes writable is sent the
  last message the server has read, whoever it came from. A client gets its own message back only when no other was read
  in between; when two clients have written before either is answered, both get the message of the second.\<close>

theorem epoll_sends_last:
  assumes "lawful (epoll_pass listenfd) (epoll_law listenfd) ks (epoll_start listenfd buf n)"
  shows "\<exists>s log. turns (epoll_pass listenfd) ks (epoll_start listenfd buf n) = Inr (Some (s, log))
    \<and> (\<forall>c. sent c log = answers listenfd c (concat ks) [])"
proof -
  have "holds_last [] (epoll_start listenfd buf n)" by (simp add: holds_last_def epoll_start_def)
  from passes_run [OF assms this] show ?thesis .
qed

definition ev :: "int \<Rightarrow> bool \<Rightarrow> char list \<Rightarrow> epoll_evt" where
  "ev c rd d = \<lparr>e_fd = c, e_in = rd, e_out = \<not> rd, e_accept = c + 2, e_read = Inr d, e_write = (\<lambda>d. int (length d))\<rparr>"

lemma epoll_sends_last_witness:
  "\<exists>s log. turns (epoll_pass 3) [[ev 3 True []], [(ev 3 True [])\<lparr>e_accept := 6\<rparr>], [ev 5 True ''one'', ev 6 True ''two''], [ev 5 False [], ev 6 False []]]
      (epoll_start 3 [] 0) = Inr (Some (s, log)) \<and> sent 5 log = ''two'' \<and> sent 6 log = ''two''"
proof -
  let ?ks = "[[ev 3 True []], [(ev 3 True [])\<lparr>e_accept := 6\<rparr>], [ev 5 True ''one'', ev 6 True ''two''], [ev 5 False [], ev 6 False []]]"
  have "lawful (epoll_pass 3) (epoll_law 3) ?ks (epoll_start 3 [] 0)"
    by (simp add: epoll_law_def epoll_event_ok_def epoll_pass_def epoll_event_def epoll_start_def ev_def Let_def)
  from epoll_sends_last [OF this] obtain s log where "turns (epoll_pass 3) ?ks (epoll_start 3 [] 0) = Inr (Some (s, log))"
    "\<forall>c. sent c log = answers 3 c (concat ?ks) []" by blast
  then show ?thesis by (simp add: last_after_def ev_def)
qed

text \<open>One client at a time is served as it should be.\<close>

lemma answers_one_by_one:
  "\<forall>(a, d)\<in>set ms. a \<noteq> listenfd \<Longrightarrow>
   answers listenfd c (concat (map (\<lambda>(a, d). [ev a True d, ev a False []]) ms)) m = concat (map snd (filter (\<lambda>(a, d). a = c) ms))"
  by (induction ms arbitrary: m) (auto simp: last_after_def ev_def)

text \<open>A message that fills the buffer is written past its end, and so is a pass with more than 20 events.\<close>

lemma epoll_overflows:
  assumes "e_fd e \<noteq> listenfd" "e_in e" "0 \<le> e_fd e" "e_read e = Inr d" "length d = MAX_LINE"
  shows "epoll_pass listenfd [e] s = Inl OutOfBounds" "20 < length es \<Longrightarrow> epoll_pass listenfd es s = Inl OutOfBounds"
  using assms by (simp_all add: epoll_pass_def epoll_event_def)

end
