(* ===== verification/EchoClient.thy ===== *)
theory EchoClient
  imports EchoEpoll LineInput
begin

text \<open>
  The line clients of the echo servers (\<^verbatim>\<open>client.c\<close> in \<^verbatim>\<open>select_socket\<close>, \<^verbatim>\<open>poll_socket\<close> and
  \<^verbatim>\<open>epoll_socket\<close> under \<^verbatim>\<open>src/socket_test\<close>, which share their functions) and the datagram pair in
  \<^verbatim>\<open>udp_socket\<close>. The terminal is the text still to be typed; a server is a function from its state and what it is
  sent to its new state and what it sends back. \<open>line_server\<close> is the contract the clients need.
\<close>

text \<open>How a connection goes on behind the bytes that are there.\<close>

datatype peer = Silent | Gone | Broken

text \<open>\<open>k\<close> turns of the loop are left; \<open>w\<close> has been stored. \<open>None\<close>: the call waits for a byte that does not come. The
  result is what is returned, all bytes stored, and the rest of the bytes of the connection.\<close>

fun readline_loop :: "nat \<Rightarrow> int \<Rightarrow> peer \<Rightarrow> char list \<Rightarrow> char list \<Rightarrow> (int \<times> char list \<times> char list) option" where
  "readline_loop 0 n p q w = Some (n, w @ [NUL], q)"
| "readline_loop (Suc k) n p [] w = (case p of Silent \<Rightarrow> None | Gone \<Rightarrow> Some (n - 1, w @ [NUL], []) | Broken \<Rightarrow> Some (-1, w, []))"
| "readline_loop (Suc k) n p (c # q) w = (if c = LF then Some (n, w @ [c, NUL], q) else readline_loop k (n + 1) p q (w @ [c]))"

definition readline :: "peer \<Rightarrow> char list \<Rightarrow> nat \<Rightarrow> (int \<times> char list \<times> char list) option" where
  "readline p q maxlen = readline_loop (maxlen - 1) 1 p q []"

text \<open>How a client ends: at the end of its text, waiting for ever, or because the server has gone.\<close>

datatype fate = Finished | Waiting | ServerGone

text \<open>\<open>q\<close> are the bytes from the server that have not been read. What is printed and how it ends.\<close>

function str_cli :: "('s \<Rightarrow> char list \<Rightarrow> 's \<times> char list \<times> peer) \<Rightarrow> 's \<Rightarrow> char list \<Rightarrow> char list \<Rightarrow> char list \<times> fate" where
  "str_cli server s q t =
     (if t = [] then ([], Finished)
      else let sendline = line_of (MAX_LINE - 1) t; (s, b, p) = server s (cstr (fst sendline)) in
        (case readline p (q @ b) MAX_LINE of
            None \<Rightarrow> ([], Waiting)
          | Some (r, w, q) \<Rightarrow> if r = 0 then ([], ServerGone)
              else (case str_cli server s q (snd sendline) of (out, f) \<Rightarrow> (cstr w @ out, f))))"
  by pat_completeness auto
termination by (relation "measure (\<lambda>(server, s, q, t). length t)") (auto intro: line_of_shrinks)

declare str_cli.simps [simp del]

text \<open>A turn of \<open>str_cli2\<close>: \<open>tin\<close> and \<open>sin\<close> say whether the terminal and the socket are ready, \<open>q\<close> and \<open>p\<close> what the socket
  holds, \<open>old\<close> what \<open>recvline\<close> held. The result is what is sent, what is printed, the text and the bytes left, or how the
  function ends.\<close>

definition str_cli2_turn :: "bool \<Rightarrow> bool \<Rightarrow> peer \<Rightarrow> char list \<Rightarrow> char list \<Rightarrow> char list
    \<Rightarrow> (fate + char list \<times> char list \<times> char list \<times> char list) res" where
  "str_cli2_turn tin sin p q old t =
     (let receive = (\<lambda>sendbytes t.
        if sin then (case readline p q MAX_LINE of
            None \<Rightarrow> Inr (Inl Waiting)
          | Some (r, w, q) \<Rightarrow> if r = 0 then Inr (Inl ServerGone)
              else rbind (get_str (w @ drop (length w) old)) (\<lambda>out. Inr (Inr (sendbytes, out, t, q))))
        else Inr (Inr (sendbytes, [], t, q)))
      in if tin then
           (if t = [] then Inr (Inl Finished)
            else let (l, t) = line_of (MAX_LINE - 1) t in
              if cstr l = [] then Inl OutOfBounds else receive (butlast (cstr l)) t)
         else receive [] t)"

section \<open>Lines\<close>

lemma readline_plain: "LF \<notin> set xs \<Longrightarrow> length xs \<le> k \<Longrightarrow>
    readline_loop k n p (xs @ q) w = readline_loop (k - length xs) (n + int (length xs)) p q (w @ xs)"
proof (induction xs arbitrary: k n w)
  case (Cons x xs)
  then obtain k' where "k = Suc k'" by (cases k) auto
  then show ?case using Cons.IH [of k' "n + 1" "w @ [x]"] Cons.prems by (auto simp: add.assoc)
qed simp

text \<open>A line that \<open>fgets\<close> delivers from a text that ends in a newline is what \<open>readline\<close> reads back.\<close>

lemma readline_line:
  assumes l: "line_of 2047 t = (l, r)" and t: "t \<noteq> []" "last t = LF"
  shows "\<exists>n. readline p l MAX_LINE = Some (n, l @ [NUL], []) \<and> 0 < n"
proof -
  have lr: "t = l @ r" "length l \<le> 2047" using line_of_rest [OF l] by auto
  consider xs where "l = xs @ [LF]" "LF \<notin> set xs" | "LF \<notin> set l" "length l = 2047" | "LF \<notin> set l" "r = []"
    using line_of_cases [OF l] by blast
  then show ?thesis
  proof cases
    case 1
    then have "length xs < 2047" using lr(2) by simp
    then obtain k where k: "2047 - length xs = Suc k" by (metis Suc_diff_Suc)
    show ?thesis using readline_plain [of xs 2047 1 p "[LF]" "[]"] 1 \<open>length xs < 2047\<close>
      by (simp add: readline_def k)
  next
    case 2
    then show ?thesis using readline_plain [of l 2047 1 p "[]" "[]"] by (simp add: readline_def)
  next
    case 3
    then show ?thesis using lr(1) t by (metis append_Nil2 last_in_set)
  qed
qed

section \<open>A client and a server that answers each line\<close>

text \<open>The contract: in good states \<open>inv\<close> the server answers bytes without a zero with the same bytes, and stays.\<close>

locale line_server =
  fixes server :: "'s \<Rightarrow> char list \<Rightarrow> 's \<times> char list \<times> peer" and inv :: "'s \<Rightarrow> bool"
  assumes echo: "inv s \<Longrightarrow> \<exists>s'. server s b = (s', b, Silent) \<and> inv s'"
begin

lemma session:
  "inv s \<Longrightarrow> NUL \<notin> set t \<Longrightarrow> t = [] \<or> last t = LF \<Longrightarrow> str_cli server s [] t = (t, Finished)"
proof (induction "length t" arbitrary: s t rule: less_induct)
  case less
  show ?case
  proof (cases "t = []")
    case False
    obtain l r where lr: "line_of 2047 t = (l, r)" by (cases "line_of 2047 t") auto
    have t: "t = l @ r" using line_of_rest [OF lr] by simp
    have cl: "cstr l = l" using less.prems(2) unfolding t cstr_def by (simp add: takeWhile_eq_all_conv) metis
    obtain s' where s': "server s l = (s', l, Silent)" "inv s'" using echo [OF less.prems(1)] by blast
    obtain n where n: "readline Silent l MAX_LINE = Some (n, l @ [NUL], [])" "0 < n"
      using readline_line [OF lr False] less.prems(3) False by blast
    have "length r < length t" using line_of_shrinks [OF False, of 2047] lr by simp
    moreover have "r = [] \<or> last r = LF" using less.prems(3) False t by (metis last_appendR)
    moreover have "NUL \<notin> set r" "NUL \<notin> set l" using less.prems(2) t by auto
    ultimately have "str_cli server s' [] r = (r, Finished)" using less.hyps s'(2) by blast
    then show ?thesis using False lr cl s'(1) n \<open>NUL \<notin> set l\<close> t by (simp add: str_cli.simps [of server s])
  qed (simp add: str_cli.simps)
qed

text \<open>A text without a newline that does not fill the buffer is sent, and the client waits for a newline for ever.\<close>

lemma unfinished_line:
  assumes "inv s" "t \<noteq> []" "LF \<notin> set t" "NUL \<notin> set t" "length t < 2047"
  shows "str_cli server s [] t = ([], Waiting)"
proof -
  have "line_of n xs = (xs, [])" if "LF \<notin> set xs" "length xs < n" for n xs
    using that by (induction n xs rule: line_of.induct) auto
  from this [of t 2047] have l: "line_of 2047 t = (t, [])" using assms(3,5) by simp
  have cl: "cstr t = t" using assms(4) unfolding cstr_def by (simp add: takeWhile_eq_all_conv) metis
  obtain s' where s': "server s t = (s', t, Silent)" using echo [OF assms(1)] by blast
  obtain k where "2047 - length t = Suc k" using assms(5) by (metis Suc_diff_Suc)
  then have "readline Silent t MAX_LINE = None"
    using readline_plain [of t 2047 1 Silent "[]" "[]"] assms(3,5) by (simp add: readline_def)
  then show ?thesis using assms(2) l cl s' by (simp add: str_cli.simps [of server s])
qed

end
section \<open>The three servers as line servers\<close>

text \<open>The bytes of one \<open>write\<close> reach the server in pieces; \<open>f\<close> says where they are cut, in this and in later calls.\<close>

function chunks :: "(nat \<Rightarrow> nat) \<Rightarrow> nat \<Rightarrow> char list \<Rightarrow> char list list" where
  "chunks f i b = (if b = [] then [] else let m = 1 + f i mod 2047 in take m b # chunks f (Suc i) (drop m b))"
  by pat_completeness auto
termination by (relation "measure (\<lambda>(f, i, b). length b)") auto

declare chunks.simps [simp del]

lemma chunks_concat: "concat (chunks f i b) = b"
proof (induction f i b rule: chunks.induct)
  case (1 f i b)
  show ?case
  proof (cases "b = []")
    case False
    then show ?thesis using 1 [OF False refl] by (subst chunks.simps) (simp add: Let_def)
  qed (simp add: chunks.simps)
qed

lemma chunks_fit: "d \<in> set (chunks f i b) \<Longrightarrow> length d < MAX_LINE"
proof (induction f i b rule: chunks.induct)
  case (1 f i b)
  show ?case
  proof (cases "b = []")
    case False
    have "f i mod 2047 < 2047" by simp
    then show ?thesis using 1(1) [OF False refl] 1(2) False by (subst (asm) (2) chunks.simps) (auto simp: Let_def)
  qed (use 1(2) in \<open>simp add: chunks.simps\<close>)
qed

text \<open>A server, seen from client \<open>c\<close>: a turn for each piece, and what it is sent.\<close>

definition line_peer :: "('k \<Rightarrow> 's \<Rightarrow> ('s \<times> io list) option res) \<Rightarrow> (char list \<Rightarrow> 'k) \<Rightarrow> int \<Rightarrow> (nat \<Rightarrow> nat)
    \<Rightarrow> 's \<times> nat \<Rightarrow> char list \<Rightarrow> ('s \<times> nat) \<times> char list \<times> peer" where
  "line_peer pass turn_of c f si b = (case si of (s, i) \<Rightarrow>
     let ds = chunks f i b in
     case turns pass (map turn_of ds) s of
       Inr (Some (s', log)) \<Rightarrow> ((s', i + length ds), sent c log, Silent)
     | _ \<Rightarrow> ((s, i), [], Gone))"

locale one_client =
  fixes pass :: "'k \<Rightarrow> 's \<Rightarrow> ('s \<times> io list) option res" and turn_of :: "char list \<Rightarrow> 'k" and c :: int and inv :: "'s \<Rightarrow> bool"
  assumes serves: "inv s \<Longrightarrow> length d < MAX_LINE \<Longrightarrow> \<exists>s'. pass (turn_of d) s = Inr (Some (s', [Received c d, Sent c d])) \<and> inv s'"
begin

lemma serves_all:
  "inv s \<Longrightarrow> \<forall>d\<in>set ds. length d < MAX_LINE \<Longrightarrow>
   \<exists>s' log. turns pass (map turn_of ds) s = Inr (Some (s', log)) \<and> inv s' \<and> sent c log = concat ds"
proof (induction ds arbitrary: s)
  case (Cons d ds)
  from serves [OF Cons.prems(1), of d] Cons.prems(2)
  obtain s1 where 1: "pass (turn_of d) s = Inr (Some (s1, [Received c d, Sent c d]))" "inv s1" by auto
  from Cons.IH [OF 1(2)] Cons.prems(2)
  obtain s2 log where 2: "turns pass (map turn_of ds) s1 = Inr (Some (s2, log))" "inv s2" "sent c log = concat ds" by auto
  have "sent c ([Received c d, Sent c d] @ log) = d @ concat ds" unfolding log_simps 2(3) by (simp add: sent_def)
  then show ?case using 1 2 by simp
qed simp

end

sublocale one_client \<subseteq> line_server "line_peer pass turn_of c f" "\<lambda>si. inv (fst si)" for f
proof
  fix si :: "'s \<times> nat" and b :: "char list" assume "inv (fst si)"
  moreover obtain s and i :: nat where si: "si = (s, i)" by (cases si)
  ultimately obtain s' log where "turns pass (map turn_of (chunks f i b)) s = Inr (Some (s', log))" "inv s'" "sent c log = b"
    using serves_all [of s "chunks f i b"] chunks_fit chunks_concat by fastforce
  then show "\<exists>si'. line_peer pass turn_of c f si b = (si', b, Silent) \<and> inv (fst si')" by (simp add: line_peer_def si Let_def)
qed

definition one_read :: "char list \<Rightarrow> kernel" where
  "one_read d = \<lparr>nready = 1, accepts = -1, reads = (\<lambda>c. Some d), writes = (\<lambda>c d. int (length d))\<rparr>"

lemma one_read_calm: "length d < MAX_LINE \<Longrightarrow> calm (one_read d)"
  by (simp add: calm_def one_read_def)

lemma filter_one: "distinct xs \<Longrightarrow> c \<in> set xs \<Longrightarrow> (\<And>x. P x \<longleftrightarrow> x = c) \<Longrightarrow> filter P xs = [c]"
  by (induction xs) (auto simp: filter_empty_conv)

lemma one_read_log: "concat (map (serve (one_read d)) [c]) = [Received c d, Sent c d]" "connected [Received c d, Sent c d] C = C"
  by (simp_all add: serve_def one_read_def connected_def)

definition select_one :: "int \<Rightarrow> char list \<Rightarrow> kernel \<times> int set" where
  "select_one c d = (one_read d, {c})"

interpretation selone: one_client "select_echo listenfd" "select_one c" c "\<lambda>s. accept_inv listenfd s \<and> c \<in> set (waiting s)" for listenfd c
proof
  fix s and d :: "char list" assume i: "accept_inv listenfd s \<and> c \<in> set (waiting s)" and d: "length d < MAX_LINE"
  then have f: "filter (\<lambda>x. x \<in> {c}) (waiting s) = [c]" and ne: "listenfd \<noteq> c" by (auto simp: accept_inv_def intro: filter_one)
  show "\<exists>s'. select_echo listenfd (select_one c d) s = Inr (Some (s', [Received c d, Sent c d])) \<and> accept_inv listenfd s' \<and> c \<in> set (waiting s')"
    using select_scan [of listenfd s "one_read d" "{c}" "nready (one_read d)" "[]"] i one_read_calm [OF d] ne unfolding f one_read_log
    by (auto simp: select_echo_def select_one_def one_read_def)
qed

definition poll_one :: "int \<Rightarrow> char list \<Rightarrow> kernel \<times> (int \<Rightarrow> 16 word)" where
  "poll_one c d = (one_read d, (\<lambda>x. if x = c then POLLRDNORM else 0))"

interpretation polone: one_client poll_echo "poll_one c" c "\<lambda>s. poll_inv listenfd s \<and> c \<in> set (poll_clients s)" for listenfd c
proof
  fix s and d :: "char list" assume i: "poll_inv listenfd s \<and> c \<in> set (poll_clients s)" and d: "length d < MAX_LINE"
  let ?rv = "\<lambda>x. if x = c then POLLRDNORM else 0" let ?p = "do_poll ?rv s"
  have rdy: "ready (?rv x) \<longleftrightarrow> x = c" for x by (simp add: ready_def)
  have f: "filter (\<lambda>x. ready (?rv x)) (poll_clients s) = [c]" and ne: "listenfd \<noteq> c"
    using i rdy by (auto simp: poll_inv_def simp del: if_split intro!: filter_one)
  have p: "poll_inv listenfd ?p" "polled ?rv ?p" using do_poll_inv i by blast+
  have "client s \<noteq> []" "fd (client s ! 0) = listenfd" "0 \<le> listenfd" using i by (auto simp: poll_inv_def)
  then have r0: "revents (client ?p ! 0) = 0" using ne by (simp add: do_poll_nth)
  show "\<exists>s'. poll_echo (poll_one c d) s = Inr (Some (s', [Received c d, Sent c d])) \<and> poll_inv listenfd s' \<and> c \<in> set (poll_clients s')"
    using poll_scan [OF p(1) one_read_calm [OF d] p(2), of "nready (one_read d)" "[]"] i r0
    unfolding do_poll_clients f one_read_log by (auto simp: poll_echo_def poll_one_def one_read_def)
qed

text \<open>The epoll server reads a piece in one pass and answers it in the next.\<close>

definition epoll_one :: "int \<Rightarrow> char list \<Rightarrow> epoll_evt list list" where
  "epoll_one c d = [[ev c True d], [ev c False []]]"

interpretation epone: one_client "turns (epoll_pass listenfd)" "epoll_one c" c "\<lambda>s. 0 \<le> c \<and> c \<noteq> listenfd" for listenfd c
  by unfold_locales (auto simp: epoll_one_def epoll_pass_def epoll_event_def ev_def Let_def)

text \<open>C10: a line client with any of the three servers. However the bytes are cut on their way, a text that ends in a
  newline and has no zero bytes is printed as it was typed, lines longer than the buffers included, and the client
  comes to the end of its text.\<close>

theorem echo_client_session:
  assumes "NUL \<notin> set t" "t = [] \<or> last t = LF"
    and "accept_inv listenfd s" "c \<in> set (waiting s)" and "poll_inv listenfd p" "c \<in> set (poll_clients p)"
    and "0 \<le> c" "c \<noteq> listenfd"
  shows "str_cli (line_peer (select_echo listenfd) (select_one c) c f) (s, i) [] t = (t, Finished)
    \<and> str_cli (line_peer poll_echo (poll_one c) c f) (p, i) [] t = (t, Finished)
    \<and> str_cli (line_peer (turns (epoll_pass listenfd)) (epoll_one c) c f) (e, i) [] t = (t, Finished)"
  using selone.session [where listenfd = listenfd and c = c and s = "(s, i)" and t = t and f = f]
    polone.session [where listenfd = listenfd and c = c and s = "(p, i)" and t = t and f = f]
    epone.session [where listenfd = listenfd and c = c and s = "(e, i)" and t = t and f = f] assms
  by simp
lemma echo_client_session_witness:
  "\<exists>s p. str_cli (line_peer (select_echo 3) (select_one 5) 5 (\<lambda>_. 0)) (s, 0) [] (''hi'' @ [LF]) = (''hi'' @ [LF], Finished)
    \<and> str_cli (line_peer poll_echo (poll_one 5) 5 (\<lambda>_. 0)) (p, 0) [] (''hi'' @ [LF]) = (''hi'' @ [LF], Finished)"
proof -
  let ?s = "\<lparr>allset = {3, 5}, client_sockfd = [5, -1], maxi = 0, maxfd = 5\<rparr>"
  let ?p = "\<lparr>client = [\<lparr>fd = 3, events = 0, revents = 0\<rparr>, \<lparr>fd = 5, events = 0, revents = 0\<rparr>], pmaxi = 1\<rparr>"
  have s: "accept_inv 3 ?s" "5 \<in> set (waiting ?s)" by (auto simp: accept_inv_def waiting_def less_Suc_eq)
  have p: "poll_inv 3 ?p" "5 \<in> set (poll_clients ?p)" by (auto simp: poll_inv_def poll_clients_def)
  show ?thesis using echo_client_session [of "''hi'' @ [LF]", OF _ _ s p] by auto
qed

end
