(* ===== verification/SocketTalk.thy ===== *)
theory SocketTalk
  imports EchoClient
begin

text \<open>
  The remaining socket pairs under \<^verbatim>\<open>src/socket_test\<close>: the datagram echo of \<^verbatim>\<open>udp_socket\<close>, the talk of
  \<^verbatim>\<open>pthread_socket\<close>, whose two programs run the same receiver and the same sender, and the receiver of
  \<^verbatim>\<open>tcp_socket\<close>. What the network delivers is a list of results.
\<close>

section \<open>Datagrams\<close>

text \<open>Each turn: what \<open>recvfrom\<close> gives (\<open>None\<close> is an error) with its sender, and whether \<open>sendto\<close> works. The result is what
  is sent, and whether the server still runs.\<close>

primrec dg_echo :: "(('a \<times> char list) option \<times> bool) list \<Rightarrow> ('a \<times> char list) list \<times> bool" where
  "dg_echo [] = ([], True)"
| "dg_echo (x # xs) = (case fst x of None \<Rightarrow> ([], False)
     | Some (a, m) \<Rightarrow> if \<not> snd x then ([], False)
         else (case dg_echo xs of (out, alive) \<Rightarrow> ((a, take MAX_LINE m) # out, alive)))"

datatype dg_reply = SendError | RecvError | Lost | Reply "char list"

function dg_cli :: "('s \<Rightarrow> char list \<Rightarrow> 's \<times> dg_reply) \<Rightarrow> 's \<Rightarrow> char list \<Rightarrow> char list \<times> fate" where
  "dg_cli net s t =
     (if t = [] then ([], Finished)
      else let sendline = line_of (MAX_LINE - 1) t; (s, r) = net s (cstr (fst sendline)) in
        case r of SendError \<Rightarrow> ([], ServerGone) | RecvError \<Rightarrow> ([], ServerGone) | Lost \<Rightarrow> ([], Waiting)
        | Reply d \<Rightarrow> (case dg_cli net s (snd sendline) of (out, f) \<Rightarrow> (cstr (take MAX_LINE d @ [NUL]) @ out, f)))"
  by pat_completeness auto
termination by (relation "measure (\<lambda>(net, s, t). length t)") (auto intro: line_of_shrinks)

declare dg_cli.simps [simp del]

text \<open>The lines \<open>fgets\<close> cuts a text into.\<close>

function pieces :: "char list \<Rightarrow> char list list" where
  "pieces t = (if t = [] then [] else fst (line_of 2047 t) # pieces (snd (line_of 2047 t)))"
  by pat_completeness auto
termination by (relation "measure length") (auto intro: line_of_shrinks)

declare pieces.simps [simp del]

text \<open>The network with the server at its other end; the state says which exchanges lose a datagram.\<close>

definition udp_peer :: "bool list \<Rightarrow> char list \<Rightarrow> bool list \<times> dg_reply" where
  "udp_peer losses b = (tl losses, if losses \<noteq> [] \<and> hd losses then Lost
     else case fst (dg_echo [(Some ((), b), True)]) of [] \<Rightarrow> Lost | x # xs \<Rightarrow> Reply (snd x))"

lemma udp_peer_Cons [simp]: "udp_peer (x # xs) b = (xs, if x then Lost else Reply (take MAX_LINE b))"
  by (simp add: udp_peer_def)

lemma pieces_simps: "pieces [] = []" "t \<noteq> [] \<Longrightarrow> line_of 2047 t = (l, r) \<Longrightarrow> pieces t = l # pieces r"
  by (simp_all add: pieces.simps)

lemma cstr_id: "NUL \<notin> set s \<Longrightarrow> cstr s = s"
  unfolding cstr_def by (auto simp: takeWhile_eq_all_conv)

lemma pieces_concat: "concat (pieces t) = t"
proof (induction t rule: pieces.induct)
  case (1 t)
  then show ?case using line_of_rest [of 2047 t "fst (line_of 2047 t)" "snd (line_of 2047 t)"]
    by (cases "t = []") (simp_all add: pieces_simps pieces.simps [of t])
qed

text \<open>The datagram client with the datagram server, for any text without zero bytes, a last line without its newline
  and lines longer than the buffer included. As long as no datagram is lost the client prints what was typed. When
  exchange number \<open>k\<close> loses a datagram, the client has printed the first \<open>k\<close> lines and waits for ever; there is no
  repetition and no time limit.\<close>

theorem udp_session:
  assumes "NUL \<notin> set t"
  shows "dg_cli udp_peer (replicate k False @ True # ls) t
    = (if k < length (pieces t) then (concat (take k (pieces t)), Waiting) else (t, Finished))"
  using assms
proof (induction t arbitrary: k rule: pieces.induct)
  case (1 t)
  show ?case
  proof (cases "t = []")
    case False
    obtain l r where lr: "line_of 2047 t = (l, r)" by (cases "line_of 2047 t") auto
    have t: "t = l @ r" "length l \<le> 2047" using line_of_rest [OF lr] by auto
    then have n: "NUL \<notin> set l" "NUL \<notin> set r" using 1(2) by auto
    note p = pieces_simps(2) [OF False lr]
    have cl: "cstr l = l" "cstr (l @ [NUL]) = l" using n(1) cstr_id cstr_append [of l "[]"] by auto
    show ?thesis
    proof (cases k)
      case 0
      then show ?thesis using False lr p by (simp add: dg_cli.simps [of _ _ t])
    next
      case (Suc k')
      have "dg_cli udp_peer (replicate k' False @ True # ls) r
          = (if k' < length (pieces r) then (concat (take k' (pieces r)), Waiting) else (r, Finished))"
        using 1(1) [OF False] lr n(2) by simp
      then show ?thesis using False lr p t(1) [symmetric] t(2) cl Suc by (simp add: dg_cli.simps [of _ _ t])
    qed
  qed (simp add: dg_cli.simps pieces_simps)
qed

lemma udp_session_witness:
  "dg_cli udp_peer [False, True] [CHR ''a'', LF, CHR ''b''] = ([CHR ''a'', LF], Waiting)"
proof -
  have p: "pieces [CHR ''a'', LF, CHR ''b''] = [[CHR ''a'', LF], [CHR ''b'']]"
    by (subst pieces.simps, simp add: numeral_eq_Suc, subst pieces.simps, simp add: numeral_eq_Suc, simp add: pieces.simps)
  show ?thesis using udp_session [of "[CHR ''a'', LF, CHR ''b'']" 1 "[]"] by (simp add: p)
qed

section \<open>Talking over a connection\<close>

datatype recv_end = Listening | RecvFailed | PeerLeft

text \<open>The receiver, over the results of \<open>recv\<close>: the strings it prints and how it ends. \<open>PeerLeft\<close> ends the process.\<close>

primrec recv_message :: "char list option list \<Rightarrow> (char list list \<times> recv_end) res" where
  "recv_message [] = Inr ([], Listening)"
| "recv_message (r # rs) = (case r of None \<Rightarrow> Inr ([], RecvFailed)
     | Some d \<Rightarrow> if MAX_LINE \<le> length d then Inl OutOfBounds
         else if cstr (d @ [NUL]) = ''byebye.'' then Inr ([], PeerLeft)
         else rbind (recv_message rs) (\<lambda>(out, e). Inr (cstr (d @ [NUL]) # out, e)))"

datatype send_end = EndOfText | Typed_exit | SendFailed

text \<open>The sender, over the text that is typed: the messages given to \<open>send\<close>, where \<open>ok\<close> says which of them it accepts.\<close>

function send_messages :: "(char list \<Rightarrow> bool) \<Rightarrow> char list \<Rightarrow> char list list \<times> send_end" where
  "send_messages ok t =
     (if t = [] then ([], EndOfText)
      else let msg = cstr (fst (line_of (MAX_LINE - 1) t)) in
        if msg = ''exit'' @ [LF] then ([''byebye.''], Typed_exit)
        else if \<not> ok msg then ([], SendFailed)
        else case send_messages ok (snd (line_of (MAX_LINE - 1) t)) of (ms, e) \<Rightarrow> (msg # ms, e))"
  by pat_completeness auto
termination by (relation "measure (\<lambda>(ok, t). length t)") (auto intro: line_of_shrinks)

declare send_messages.simps [simp del]

text \<open>The receiver leaves exactly when the farewell arrives as one piece of its own.\<close>

lemma recv_pieces:
  "\<forall>d\<in>set ds. NUL \<notin> set d \<and> length d < MAX_LINE \<Longrightarrow>
   recv_message (map Some ds) = Inr (takeWhile (\<lambda>d. d \<noteq> ''byebye.'') ds, if ''byebye.'' \<in> set ds then PeerLeft else Listening)"
  by (induction ds) auto

lemma pieces_lines:
  "NUL \<notin> set t \<Longrightarrow> t = [] \<or> last t = LF \<Longrightarrow> d \<in> set (pieces t) \<Longrightarrow> NUL \<notin> set d \<and> length d < MAX_LINE \<and> d \<noteq> [] \<and> d \<noteq> ''byebye.''"
proof (induction t arbitrary: d rule: pieces.induct)
  case (1 t)
  have ne: "t \<noteq> []" using 1(4) by (auto simp: pieces_simps)
  obtain l r where lr: "line_of 2047 t = (l, r)" by (cases "line_of 2047 t") auto
  have t: "t = l @ r" "length l \<le> 2047" using line_of_rest [OF lr] by auto
  have last: "last t = LF" using 1(3) ne by simp
  have r: "r = [] \<or> last r = LF" using last t(1) by (metis last_appendR)
  have l: "l \<noteq> [] \<and> l \<noteq> ''byebye.''"
    using line_of_cases [OF lr] last ne t(1) by (auto simp: Cons_eq_append_conv append_eq_Cons_conv)
  show ?case
  proof (cases "d = l")
    case True
    then show ?thesis using l t 1(2) by auto
  next
    case False
    then have "d \<in> set (pieces r)" using 1(4) pieces_simps(2) [OF ne lr] by auto
    then show ?thesis using 1(1) [OF ne, of d] lr r 1(2) t(1) by auto
  qed
qed

lemma send_pieces:
  "NUL \<notin> set t \<Longrightarrow> send_messages (\<lambda>_. True) t =
    (if ''exit'' @ [LF] \<in> set (pieces t) then (takeWhile (\<lambda>d. d \<noteq> ''exit'' @ [LF]) (pieces t) @ [''byebye.''], Typed_exit)
     else (pieces t, EndOfText))"
proof (induction t rule: pieces.induct)
  case (1 t)
  show ?case
  proof (cases "t = []")
    case False
    obtain l r where lr: "line_of 2047 t = (l, r)" by (cases "line_of 2047 t") auto
    then have "t = l @ r" using line_of_rest by blast
    then have n: "NUL \<notin> set l" "NUL \<notin> set r" using 1(2) by auto
    show ?thesis
      using 1(1) [OF False] lr n False by (simp add: send_messages.simps [of _ t] pieces_simps(2) [OF False lr] cstr_id)
  qed (simp add: send_messages.simps pieces_simps)
qed

text \<open>A talk in which one side types some lines and then \<open>exit\<close>. The sender sends the lines and a farewell. When each
  message arrives by itself, the other side prints the lines and leaves; when the farewell arrives in one piece with the
  line before it, the other side prints both and then, for every further (empty) result of \<open>recv\<close>, an empty message,
  and does not leave: a stream keeps no borders between messages.\<close>

theorem talk_farewell:
  assumes "NUL \<notin> set t" "last t = LF" "ls = takeWhile (\<lambda>d. d \<noteq> ''exit'' @ [LF]) (pieces t)" "''exit'' @ [LF] \<in> set (pieces t)"
    and "ls \<noteq> []" "length (last ls) + 7 < MAX_LINE"
  shows "send_messages (\<lambda>_. True) t = (ls @ [''byebye.''], Typed_exit)
    \<and> recv_message (map Some (ls @ [''byebye.''])) = Inr (ls, PeerLeft)
    \<and> (let got = butlast ls @ [last ls @ ''byebye.''] @ replicate m [] in recv_message (map Some got) = Inr (got, Listening))"
proof -
  have ok: "NUL \<notin> set d \<and> length d < MAX_LINE \<and> d \<noteq> [] \<and> d \<noteq> ''byebye.''" if "d \<in> set ls" for d
    using pieces_lines [of t d] assms(1,2) that set_takeWhileD unfolding assms(3) by fast
  have all: "takeWhile P xs = xs" if "\<forall>x\<in>set xs. P x" for P :: "char list \<Rightarrow> bool" and xs using that by (simp add: takeWhile_eq_all_conv)
  have "\<forall>d\<in>set (ls @ [''byebye.'']). NUL \<notin> set d \<and> length d < MAX_LINE" using ok by auto
  from recv_pieces [OF this] have alone: "recv_message (map Some (ls @ [''byebye.''])) = Inr (ls, PeerLeft)"
    using ok by (simp add: takeWhile_append2 all)
  let ?got = "butlast ls @ [last ls @ ''byebye.''] @ replicate m []"
  have l: "last ls \<in> set ls" "set (butlast ls) \<subseteq> set ls" using assms(5) by (auto dest: in_set_butlastD)
  have g: "\<forall>d\<in>set ?got. NUL \<notin> set d \<and> length d < MAX_LINE" "''byebye.'' \<notin> set ?got"
    using ok [OF l(1)] ok l(2) assms(6) by (auto split: if_splits)
  have "takeWhile (\<lambda>d. d \<noteq> ''byebye.'') ?got = ?got" by (rule all) (use g(2) in fast)
  then have "recv_message (map Some ?got) = Inr (?got, Listening)" using recv_pieces [OF g(1)] g(2) by simp
  then show ?thesis using alone send_pieces [OF assms(1)] assms(3,4) by (simp add: Let_def)
qed

lemma talk_farewell_witness:
  "recv_message (map Some ([] @ [(''hi'' @ [LF]) @ ''byebye.''] @ replicate 2 [])) = Inr ([] @ [(''hi'' @ [LF]) @ ''byebye.''] @ replicate 2 [], Listening)"
proof -
  let ?t = "''hi'' @ [LF] @ ''exit'' @ [LF]"
  have "line_of 2047 ?t = (''hi'' @ [LF], ''exit'' @ [LF])" "line_of 2047 (''exit'' @ [LF]) = (''exit'' @ [LF], [])" by (simp_all add: numeral_eq_Suc)
  then have p: "pieces ?t = [''hi'' @ [LF], ''exit'' @ [LF]]"
    using pieces_simps(2) [of ?t] pieces_simps(2) [of "''exit'' @ [LF]"] pieces_simps(1) by simp
  show ?thesis
    using talk_farewell [of ?t "[''hi'' @ [LF]]" 2] by (simp add: p [simplified])
qed

section \<open>The receiver without a terminator\<close>

text \<open>The child of the server in \<^verbatim>\<open>tcp_socket\<close>: \<open>buff\<close> is not cleared and gets no terminator, so what is printed goes on
  behind the bytes that were read, up to a zero somewhere in the array.\<close>

primrec tcp_child :: "char list \<Rightarrow> (char list \<times> char list) list \<Rightarrow> (char list \<times> char list) list res" where
  "tcp_child buff [] = Inr []"
| "tcp_child buff (x # xs) = (case x of (stamp, d) \<Rightarrow>
     if d = [] then Inr []
     else let buff = take MAX_LINE d @ drop (length (take MAX_LINE d)) buff in
       rbind (get_str buff) (\<lambda>out. rbind (tcp_child buff xs) (\<lambda>outs. Inr ((stamp, out) # outs))))"

text \<open>After a longer message the end of it is printed again behind a shorter one.\<close>

lemma tcp_prints_stale:
  assumes "d1 \<noteq> []" "d2 \<noteq> []" "NUL \<notin> set d1" "NUL \<notin> set d2" "length d2 \<le> length d1" "length d1 < MAX_LINE" "NUL \<in> set (drop (length d1) buff)"
  shows "tcp_child buff [(s1, d1), (s2, d2)]
    = Inr [(s1, d1 @ cstr (drop (length d1) buff)), (s2, d2 @ drop (length d2) d1 @ cstr (drop (length d1) buff))]"
proof -
  have c: "cstr (xs @ ys) = xs @ cstr ys" if "NUL \<notin> set xs" for xs ys using that unfolding cstr_def by (induction xs) auto
  have "NUL \<notin> set (drop (length d2) d1)" using assms(3) by (auto dest: in_set_dropD)
  then show ?thesis using assms by (simp add: c)
qed

end
