(* ===== verification/MutexTickets.thy ===== *)
theory MutexTickets
  imports Runs
begin

text \<open>
  The ticket windows of \<^verbatim>\<open>src/mutex_test/mutex_test.c\<close>: four threads that run the same loop (\<open>tprocess1\<close>
  to \<open>tprocess4\<close>, numbered from 0) over the shared counter \<open>tickets\<close> and the mutex \<open>mut\<close>. The mutex is a
  default one: unlocking releases it whoever holds it, as the last statement of each thread does.
\<close>

section \<open>The program\<close>

text \<open>The points of a window's loop at which another thread can run. \<open>tickets--\<close> is a load and a store.\<close>

datatype window_pc = AtLock | AtTest | AtLoad | AtStore | AtPrint | AtUnlock | AtBreak | AtExit | Finished

record windows =
  wpc :: "nat \<Rightarrow> window_pc"
  flag_a :: "nat \<Rightarrow> bool"
  loaded :: "nat \<Rightarrow> int"
  tickets :: int
  locked :: bool
  printed :: "(nat \<times> int) list"

definition windows_init :: windows where
  "windows_init = \<lparr>wpc = (\<lambda>_. AtLock), flag_a = (\<lambda>_. False), loaded = (\<lambda>_. 0), tickets = 10, locked = False, printed = []\<rparr>"

definition goto :: "nat \<Rightarrow> window_pc \<Rightarrow> windows \<Rightarrow> windows" where
  "goto i p s = s\<lparr>wpc := (wpc s)(i := p)\<rparr>"

inductive window_step :: "windows \<Rightarrow> windows \<Rightarrow> bool" where
  w_lock: "i < 4 \<Longrightarrow> wpc s i = AtLock \<Longrightarrow> \<not> locked s \<Longrightarrow> window_step s (goto i AtTest (s\<lparr>locked := True\<rparr>))"
| w_more: "i < 4 \<Longrightarrow> wpc s i = AtTest \<Longrightarrow> tickets s > 0 \<Longrightarrow> window_step s (goto i AtLoad s)"
| w_none: "i < 4 \<Longrightarrow> wpc s i = AtTest \<Longrightarrow> \<not> tickets s > 0 \<Longrightarrow> window_step s (goto i AtUnlock (s\<lparr>flag_a := (flag_a s)(i := True)\<rparr>))"
| w_read: "i < 4 \<Longrightarrow> wpc s i = AtLoad \<Longrightarrow> window_step s (goto i AtStore (s\<lparr>loaded := (loaded s)(i := tickets s)\<rparr>))"
| w_write: "i < 4 \<Longrightarrow> wpc s i = AtStore \<Longrightarrow> window_step s (goto i AtPrint (s\<lparr>tickets := loaded s i - 1\<rparr>))"
| w_print: "i < 4 \<Longrightarrow> wpc s i = AtPrint \<Longrightarrow> window_step s (goto i AtUnlock (s\<lparr>printed := printed s @ [(i, tickets s)]\<rparr>))"
| w_unlock: "i < 4 \<Longrightarrow> wpc s i = AtUnlock \<Longrightarrow> window_step s (goto i AtBreak (s\<lparr>locked := False\<rparr>))"
| w_again: "i < 4 \<Longrightarrow> wpc s i = AtBreak \<Longrightarrow> \<not> flag_a s i \<Longrightarrow> window_step s (goto i AtLock s)"
| w_leave: "i < 4 \<Longrightarrow> wpc s i = AtBreak \<Longrightarrow> flag_a s i \<Longrightarrow> window_step s (goto i AtExit s)"
| w_exit: "i < 4 \<Longrightarrow> wpc s i = AtExit \<Longrightarrow> window_step s (goto i Finished (s\<lparr>locked := False\<rparr>))"

inductive_cases window_stepE: "window_step s t"

text \<open>\<open>main\<close> returns from its four calls of \<open>pthread_join\<close>.\<close>

definition all_joined :: "windows \<Rightarrow> bool" where
  "all_joined s \<longleftrightarrow> (\<forall>i<4. wpc s i = Finished)"

section \<open>The invariant\<close>

definition inside :: "windows \<Rightarrow> nat \<Rightarrow> bool" where
  "inside s i \<longleftrightarrow> wpc s i \<in> {AtTest, AtLoad, AtStore, AtPrint, AtUnlock}"

definition selling :: "windows \<Rightarrow> nat \<Rightarrow> bool" where
  "selling s i \<longleftrightarrow> wpc s i \<in> {AtLoad, AtStore, AtPrint}"

text \<open>While no window has seen the counter at 0, at most one window is inside; afterwards nobody sells.\<close>

definition sold_out :: "windows \<Rightarrow> bool" where
  "sold_out s \<longleftrightarrow> (\<exists>i<4. flag_a s i)"

definition exclusive :: "windows \<Rightarrow> bool" where
  "exclusive s \<longleftrightarrow> (\<forall>i<4. inside s i \<longrightarrow> locked s \<and> (\<forall>j<4. inside s j \<longrightarrow> i = j))"

definition window_ok :: "windows \<Rightarrow> nat \<Rightarrow> bool" where
  "window_ok s i \<longleftrightarrow> (wpc s i \<in> {AtExit, Finished} \<longrightarrow> flag_a s i) \<and> (wpc s i \<in> {AtLock, AtTest} \<longrightarrow> \<not> flag_a s i)
     \<and> (selling s i \<longrightarrow> (if wpc s i = AtPrint then tickets s < 10 else tickets s > 0))
     \<and> (wpc s i = AtStore \<longrightarrow> loaded s i = tickets s)"

definition windows_inv :: "windows \<Rightarrow> bool" where
  "windows_inv s \<longleftrightarrow> 0 \<le> tickets s \<and> tickets s \<le> 10 \<and> (locked s \<longrightarrow> (\<exists>i<4. inside s i))
     \<and> (sold_out s \<longrightarrow> tickets s = 0 \<and> (\<forall>j<4. \<not> selling s j)) \<and> (\<not> sold_out s \<longrightarrow> exclusive s) \<and> (\<forall>i<4. window_ok s i)"

definition printing :: "windows \<Rightarrow> bool" where
  "printing s \<longleftrightarrow> (\<exists>i<4. wpc s i = AtPrint)"

definition printed_inv :: "windows \<Rightarrow> bool" where
  "printed_inv s \<longleftrightarrow> map snd (printed s) = rev [(if printing s then tickets s + 1 else tickets s)..9]"

definition pc_weight :: "bool \<Rightarrow> window_pc \<Rightarrow> nat" where
  "pc_weight a p = (case p of AtPrint \<Rightarrow> 12 | AtUnlock \<Rightarrow> (if a then 5 else 11) | AtBreak \<Rightarrow> (if a then 4 else 10)
     | AtLock \<Rightarrow> 9 | AtTest \<Rightarrow> 8 | AtLoad \<Rightarrow> 7 | AtStore \<Rightarrow> 6 | AtExit \<Rightarrow> 3 | Finished \<Rightarrow> 0)"

definition window_weight :: "windows \<Rightarrow> nat" where
  "window_weight s = 8 * nat (tickets s) + (\<Sum>i<4. pc_weight (flag_a s i) (wpc s i))"

lemma goto_simps [simp]:
  "wpc (goto i p s) = (wpc s)(i := p)" "flag_a (goto i p s) = flag_a s" "loaded (goto i p s) = loaded s"
  "tickets (goto i p s) = tickets s" "locked (goto i p s) = locked s" "printed (goto i p s) = printed s"
  by (simp_all add: goto_def)

lemma all_less_4: "(\<forall>i<4. P i) \<longleftrightarrow> P 0 \<and> P 1 \<and> P 2 \<and> P (3 :: nat)"
  by (auto simp: less_Suc_eq numeral_eq_Suc)

lemma ex_less_4: "(\<exists>i<4. P i) \<longleftrightarrow> P 0 \<or> P 1 \<or> P 2 \<or> P (3 :: nat)"
  by (auto simp: less_Suc_eq numeral_eq_Suc)

lemma upto_rev_step: "t \<le> 9 \<Longrightarrow> rev [t + 1..9] @ [t] = rev [t..9 :: int]"
  by (simp add: upto_rec1)

lemma inside_goto [simp]: "inside (goto i p s) j = (if j = i then p \<in> {AtTest, AtLoad, AtStore, AtPrint, AtUnlock} else inside s j)"
  by (simp add: inside_def)

lemma selling_goto [simp]: "selling (goto i p s) j = (if j = i then p \<in> {AtLoad, AtStore, AtPrint} else selling s j)"
  by (simp add: selling_def)

lemma inside_update [simp]:
  "inside (s\<lparr>flag_a := f\<rparr>) = inside s" "inside (s\<lparr>loaded := l\<rparr>) = inside s" "inside (s\<lparr>tickets := n\<rparr>) = inside s"
  "inside (s\<lparr>locked := b\<rparr>) = inside s" "inside (s\<lparr>printed := q\<rparr>) = inside s"
  by (simp_all add: inside_def fun_eq_iff)

lemma selling_update [simp]:
  "selling (s\<lparr>flag_a := f\<rparr>) = selling s" "selling (s\<lparr>loaded := l\<rparr>) = selling s" "selling (s\<lparr>tickets := n\<rparr>) = selling s"
  "selling (s\<lparr>locked := b\<rparr>) = selling s" "selling (s\<lparr>printed := q\<rparr>) = selling s"
  by (simp_all add: selling_def fun_eq_iff)

lemma selling_inside: "selling s i \<Longrightarrow> inside s i"
  by (auto simp: selling_def inside_def)

lemma only_seller: "windows_inv s \<Longrightarrow> i < 4 \<Longrightarrow> selling s i \<Longrightarrow> j < 4 \<Longrightarrow> inside s j \<Longrightarrow> i = j"
  unfolding windows_inv_def exclusive_def using selling_inside by blast

text \<open>Only taking and releasing the mutex change who is inside.\<close>

lemma step_inside:
  assumes "window_step s t"
  shows "(inside t = inside s \<and> locked t = locked s) \<or> (\<exists>i<4. wpc s i = AtLock \<and> \<not> locked s \<and> locked t \<and> inside t = (inside s)(i := True))
    \<or> (\<exists>i<4. wpc s i \<in> {AtUnlock, AtExit} \<and> \<not> locked t \<and> inside t = (inside s)(i := False))"
  using assms by cases (auto simp: inside_def fun_eq_iff)

lemma step_flags: "window_step s t \<Longrightarrow> flag_a s i \<Longrightarrow> flag_a t i"
  by (erule window_stepE) auto

lemma step_locked:
  assumes "window_step s t" "windows_inv s"
  shows "locked t \<longrightarrow> (\<exists>i<4. inside t i)"
  using step_inside [OF assms(1)] assms(2) by (auto simp: windows_inv_def)

lemma step_sold_out:
  assumes "window_step s t" "windows_inv s" "sold_out t"
  shows "tickets t = 0 \<and> (\<forall>j<4. \<not> selling t j)"
  using assms(1)
proof cases
  case (w_none i)
  have "\<not> selling s j" if "j < 4" for j
    using only_seller [OF assms(2) that, of i] w_none by (auto simp: inside_def selling_def)
  moreover have "tickets s = 0" using w_none assms(2) by (auto simp: windows_inv_def)
  ultimately show ?thesis using w_none by simp
next
  case (w_write i)
  then have "sold_out s" "selling s i" using assms(3) by (simp_all add: sold_out_def selling_def)
  then show ?thesis using w_write(2) assms(2) by (auto simp: windows_inv_def)
qed (use assms(2,3) in \<open>auto simp: windows_inv_def sold_out_def selling_def\<close>)

lemma step_exclusive:
  assumes "window_step s t" "windows_inv s" "\<not> sold_out t"
  shows "exclusive t"
proof -
  have s: "\<not> sold_out s \<Longrightarrow> exclusive s" using assms(2) by (simp add: windows_inv_def)
  have out: "\<not> flag_a s i" if "i < 4" for i using assms(3) step_flags [OF assms(1)] that by (auto simp: sold_out_def)
  then have s: "exclusive s" using s by (simp add: sold_out_def)
  from step_inside [OF assms(1)] consider (same) "inside t = inside s" "locked t = locked s"
    | (enter) i where "i < 4" "\<not> locked s" "locked t" "inside t = (inside s)(i := True)"
    | (leave) i where "i < 4" "wpc s i \<in> {AtUnlock, AtExit}" "inside t = (inside s)(i := False)" by blast
  then show ?thesis
  proof cases
    case same
    then show ?thesis using s by (simp add: exclusive_def)
  next
    case enter
    then show ?thesis using s unfolding exclusive_def by (metis fun_upd_apply)
  next
    case (leave i)
    then have "wpc s i = AtUnlock" using assms(2) out by (auto simp: windows_inv_def window_ok_def)
    then have "inside s i" by (simp add: inside_def)
    then show ?thesis using s leave unfolding exclusive_def by (metis fun_upd_apply)
  qed
qed

lemma step_window_ok:
  assumes "window_step s t" "windows_inv s" "j < 4"
  shows "window_ok t j"
proof -
  have ok: "window_ok s k" if "k < 4" for k using assms(2) that by (simp add: windows_inv_def)
  have t: "0 \<le> tickets s" "tickets s \<le> 10" using assms(2) by (simp_all add: windows_inv_def)
  show ?thesis
    using assms(1)
  proof cases
    case (w_write i)
    then have "selling s i" by (simp add: selling_def)
    then have "\<not> selling s j" if "j \<noteq> i" using only_seller [OF assms(2) w_write(2) _ assms(3)] that selling_inside by blast
    then show ?thesis using ok [OF assms(3)] ok [OF w_write(2)] t w_write(1,3) by (auto simp: window_ok_def selling_def)
  next
    case (w_none i)
    then show ?thesis using ok [OF assms(3)] by (auto simp: window_ok_def selling_def)
  qed (use ok [OF assms(3)] in \<open>auto simp: window_ok_def selling_def\<close>)
qed

lemma step_tickets: "window_step s t \<Longrightarrow> windows_inv s \<Longrightarrow> 0 \<le> tickets t \<and> tickets t \<le> 10"
  by (erule window_stepE) (auto simp: windows_inv_def window_ok_def selling_def)

lemma windows_step_inv: "windows_inv s \<Longrightarrow> window_step s t \<Longrightarrow> windows_inv t"
  using step_tickets step_locked step_sold_out step_exclusive step_window_ok unfolding windows_inv_def [of t] by blast

lemma printing_goto [simp]: "wpc s i \<noteq> AtPrint \<Longrightarrow> p \<noteq> AtPrint \<Longrightarrow> printing (goto i p s) = printing s"
  unfolding printing_def by (auto; metis)

lemma printing_update [simp]:
  "printing (s\<lparr>flag_a := f\<rparr>) = printing s" "printing (s\<lparr>loaded := l\<rparr>) = printing s" "printing (s\<lparr>locked := b\<rparr>) = printing s"
  by (simp_all add: printing_def)

lemma step_printed:
  assumes "window_step s t" "windows_inv s" "printed_inv s"
  shows "printed_inv t"
proof -
  have nobody: "wpc s j \<noteq> AtPrint" if "i < 4" "selling s i" "j < 4" "j \<noteq> i" for i j
    using only_seller [OF assms(2) that(1,2), of j] that by (auto simp: inside_def)
  show ?thesis
    using assms(1)
  proof cases
    case (w_write i)
    then have i: "loaded s i = tickets s" "selling s i" using assms(2) by (auto simp: windows_inv_def window_ok_def selling_def)
    then have "\<not> printing s" using nobody [of i] w_write(2,3) by (force simp: printing_def)
    moreover have "printing t" using w_write(1,2) by (auto simp: printing_def)
    ultimately show ?thesis using w_write(1) assms(3) i(1) by (simp add: printed_inv_def)
  next
    case (w_print i)
    then have i: "tickets s \<le> 9" "selling s i" using assms(2) by (auto simp: windows_inv_def window_ok_def selling_def)
    then have "\<not> printing t" using nobody [of i] w_print(1,2) by (auto simp: printing_def)
    moreover have "printing s" using w_print by (auto simp: printing_def)
    ultimately show ?thesis using assms(3) w_print(1) upto_rev_step [OF i(1)] by (simp add: printed_inv_def)
  qed (use assms(3) in \<open>simp_all add: printed_inv_def\<close>)
qed

lemma windows_init_inv: "windows_inv windows_init \<and> printed_inv windows_init"
  by (simp add: windows_inv_def printed_inv_def printing_def windows_init_def sold_out_def exclusive_def window_ok_def inside_def selling_def)

lemma sum_one: "i < (n :: nat) \<Longrightarrow> (\<And>j. j \<noteq> i \<Longrightarrow> f j = g j) \<Longrightarrow> (\<Sum>j<n. f j) + g i = (\<Sum>j<n. g j) + (f i :: nat)"
  using sum.remove [of "{..<n}" i f] sum.remove [of "{..<n}" i g] sum.cong [of "{..<n} - {i}" "{..<n} - {i}" f g] by simp

lemma step_pays:
  assumes "window_step s t" "windows_inv s"
  shows "\<exists>i<4. (\<forall>j. j \<noteq> i \<longrightarrow> wpc t j = wpc s j \<and> flag_a t j = flag_a s j)
    \<and> 8 * nat (tickets t) + pc_weight (flag_a t i) (wpc t i) < 8 * nat (tickets s) + pc_weight (flag_a s i) (wpc s i)"
  using assms(1)
proof cases
  case (w_write i)
  then have "0 < tickets s" "loaded s i = tickets s" using assms(2) by (auto simp: windows_inv_def window_ok_def selling_def)
  then show ?thesis using w_write by (intro exI [of _ i]) (simp add: pc_weight_def nat_diff_distrib)
qed (auto simp: pc_weight_def)

lemma step_weight:
  assumes "window_step s t" "windows_inv s"
  shows "window_weight t < window_weight s"
proof -
  obtain i where i: "i < 4" "\<And>j. j \<noteq> i \<Longrightarrow> wpc t j = wpc s j \<and> flag_a t j = flag_a s j"
    "8 * nat (tickets t) + pc_weight (flag_a t i) (wpc t i) < 8 * nat (tickets s) + pc_weight (flag_a s i) (wpc s i)"
    using step_pays [OF assms] by blast
  show ?thesis
    using sum_one [OF i(1), of "\<lambda>j. pc_weight (flag_a t j) (wpc t j)" "\<lambda>j. pc_weight (flag_a s j) (wpc s j)"] i(2,3)
    by (simp add: window_weight_def)
qed

interpretation tw: ending_system window_step windows_init "\<lambda>s. windows_inv s \<and> printed_inv s" window_weight
  by unfold_locales (use windows_init_inv windows_step_inv step_printed step_weight in auto)

text \<open>No deadlock: a window waits for the mutex only while another one is inside.\<close>

lemma windows_stuck:
  assumes "windows_inv s" "\<forall>t. \<not> window_step s t"
  shows "all_joined s"
proof -
  have "\<not> inside s i" if "i < 4" for i
    using assms(2) that window_step.intros [of i s] unfolding inside_def by auto
  then have free: "\<not> locked s" using assms(1) by (auto simp: windows_inv_def)
  show ?thesis
    unfolding all_joined_def
  proof (intro allI impI)
    fix i :: nat assume "i < 4"
    then show "wpc s i = Finished"
      using assms(2) free window_step.intros [of i s] by (cases "wpc s i") auto
  qed
qed

text \<open>One window sells tickets alone.\<close>

definition idle :: "int \<Rightarrow> windows \<Rightarrow> bool" where
  "idle n s \<longleftrightarrow> tickets s = n \<and> \<not> locked s \<and> (\<forall>i. wpc s i = AtLock \<and> \<not> flag_a s i)"

lemma sell_one:
  assumes "idle n s" "0 < n"
  shows "\<exists>t. window_step\<^sup>*\<^sup>* s t \<and> idle (n - 1) t"
proof -
  let ?a = "goto 0 AtTest (s\<lparr>locked := True\<rparr>)"
  let ?b = "goto 0 AtLoad ?a"
  let ?c = "goto 0 AtStore (?b\<lparr>loaded := (loaded ?b)(0 := tickets ?b)\<rparr>)"
  let ?d = "goto 0 AtPrint (?c\<lparr>tickets := loaded ?c 0 - 1\<rparr>)"
  let ?e = "goto 0 AtUnlock (?d\<lparr>printed := printed ?d @ [(0, tickets ?d)]\<rparr>)"
  let ?f = "goto 0 AtBreak (?e\<lparr>locked := False\<rparr>)"
  note steps = window_step.w_lock [of 0 s] window_step.w_more [of 0 ?a] window_step.w_read [of 0 ?b] window_step.w_write [of 0 ?c]
    window_step.w_print [of 0 ?d] window_step.w_unlock [of 0 ?e] window_step.w_again [of 0 ?f]
  have "window_step s ?a" by (rule steps) (use assms in \<open>simp_all add: idle_def\<close>)
  moreover have "window_step ?a ?b" by (rule steps) (use assms in \<open>simp_all add: idle_def\<close>)
  moreover have "window_step ?b ?c" "window_step ?c ?d" "window_step ?d ?e" "window_step ?e ?f" by (rule steps; simp)+
  moreover have "window_step ?f (goto 0 AtLock ?f)" by (rule steps) (use assms in \<open>simp_all add: idle_def\<close>)
  ultimately have "window_step\<^sup>*\<^sup>* s (goto 0 AtLock ?f)" by (meson rtranclp.rtrancl_into_rtrancl rtranclp.rtrancl_refl)
  moreover have "idle (n - 1) (goto 0 AtLock ?f)" using assms by (simp add: idle_def)
  ultimately show ?thesis by blast
qed

lemma sell_all: "idle (int n) s \<Longrightarrow> \<exists>t. window_step\<^sup>*\<^sup>* s t \<and> idle 0 t"
proof (induction n arbitrary: s)
  case (Suc n)
  obtain u where "window_step\<^sup>*\<^sup>* s u" "idle (int n) u" using sell_one [OF Suc.prems] by auto
  then show ?case using Suc.IH by (meson rtranclp_trans)
qed auto

lemma both_inside:
  assumes "idle 0 s"
  shows "\<exists>t. window_step\<^sup>*\<^sup>* s t \<and> inside t 1 \<and> inside t 2"
proof -
  let ?a = "goto 0 AtTest (s\<lparr>locked := True\<rparr>)"
  let ?b = "goto 0 AtUnlock (?a\<lparr>flag_a := (flag_a ?a)(0 := True)\<rparr>)"
  let ?c = "goto 0 AtBreak (?b\<lparr>locked := False\<rparr>)"
  let ?d = "goto 0 AtExit ?c"
  let ?e = "goto 1 AtTest (?d\<lparr>locked := True\<rparr>)"
  let ?f = "goto 0 Finished (?e\<lparr>locked := False\<rparr>)"
  let ?g = "goto 2 AtTest (?f\<lparr>locked := True\<rparr>)"
  note steps = window_step.w_lock [of 0 s] window_step.w_none [of 0 ?a] window_step.w_unlock [of 0 ?b] window_step.w_leave [of 0 ?c]
    window_step.w_lock [of 1 ?d] window_step.w_exit [of 0 ?e] window_step.w_lock [of 2 ?f]
  have "window_step s ?a" by (rule steps) (use assms in \<open>simp_all add: idle_def\<close>)
  moreover have "window_step ?a ?b" by (rule steps) (use assms in \<open>simp_all add: idle_def\<close>)
  moreover have "window_step ?b ?c" "window_step ?c ?d" by (rule steps; simp)+
  moreover have "window_step ?d ?e" by (rule steps) (use assms in \<open>simp_all add: idle_def\<close>)
  moreover have "window_step ?e ?f" by (rule steps; simp)
  moreover have "window_step ?f ?g" by (rule steps) (use assms in \<open>simp_all add: idle_def\<close>)
  ultimately have "window_step\<^sup>*\<^sup>* s ?g" by (meson rtranclp.rtrancl_into_rtrancl rtranclp.rtrancl_refl)
  moreover have "inside ?g 1 \<and> inside ?g 2" by simp
  ultimately show ?thesis by blast
qed

section \<open>The property\<close>

text \<open>C16: every run of the four windows ends, after at most 116 steps, and can only end with all threads
  joined; then the ten tickets have been sold, each once, and the numbers printed are 9 down to 0. At no
  point is the counter negative, and no two windows are inside the critical section before the tickets are
  sold out. After that two windows can be inside together, since the last statement of a thread unlocks a
  mutex it does not hold.\<close>

theorem ticket_windows:
  "(\<forall>n s. (window_step ^^ n) windows_init s \<longrightarrow> n \<le> 116)
   \<and> (\<forall>s. window_step\<^sup>*\<^sup>* windows_init s \<longrightarrow>
        0 \<le> tickets s
      \<and> ((\<forall>t. \<not> window_step s t) \<longrightarrow> all_joined s)
      \<and> (all_joined s \<longrightarrow> tickets s = 0 \<and> map snd (printed s) = [9, 8, 7, 6, 5, 4, 3, 2, 1, 0])
      \<and> (\<forall>i<4. \<forall>j<4. inside s i \<and> inside s j \<and> i \<noteq> j \<longrightarrow> tickets s = 0))
   \<and> (\<exists>s. window_step\<^sup>*\<^sup>* windows_init s \<and> inside s 1 \<and> inside s 2)"
proof (intro conjI allI impI)
  fix n s assume "(window_step ^^ n) windows_init s"
  then show "n \<le> 116"
    using tw.reach_length by (fastforce simp: window_weight_def windows_init_def pc_weight_def)
next
  fix s assume "window_step\<^sup>*\<^sup>* windows_init s"
  then have i: "windows_inv s" "printed_inv s" using tw.reach_inv by auto
  show "0 \<le> tickets s" using i by (simp add: windows_inv_def)
  show "all_joined s" if "\<forall>t. \<not> window_step s t" using windows_stuck [OF i(1) that] .
  show "tickets s = 0" "map snd (printed s) = [9, 8, 7, 6, 5, 4, 3, 2, 1, 0]" if j: "all_joined s"
  proof -
    have "flag_a s 0" using j i(1) by (auto simp: all_joined_def windows_inv_def window_ok_def)
    then show z: "tickets s = 0" using i(1) by (auto simp: windows_inv_def sold_out_def)
    have "\<not> printing s" using j by (auto simp: all_joined_def printing_def)
    then show "map snd (printed s) = [9, 8, 7, 6, 5, 4, 3, 2, 1, 0]"
      using i(2) z by (simp add: printed_inv_def upto_rec1)
  qed
  show "tickets s = 0" if "i < 4" "j < 4" "inside s i \<and> inside s j \<and> i \<noteq> j" for i j
    using i(1) that by (auto simp: windows_inv_def exclusive_def)
next
  have "idle (int 10) windows_init" by (simp add: idle_def windows_init_def)
  then obtain s where "window_step\<^sup>*\<^sup>* windows_init s" "idle 0 s" using sell_all by blast
  then show "\<exists>s. window_step\<^sup>*\<^sup>* windows_init s \<and> inside s 1 \<and> inside s 2"
    using both_inside by (meson rtranclp_trans)
qed

lemma ticket_windows_witness:
  "\<exists>s. window_step\<^sup>*\<^sup>* windows_init s \<and> all_joined s \<and> tickets s = 0"
proof -
  obtain s where "window_step\<^sup>*\<^sup>* windows_init s" "\<forall>u. \<not> window_step s u"
    using tw.run_end [of windows_init] windows_init_inv by blast
  then show ?thesis using ticket_windows by blast
qed

end
