(* ===== verification/CondBuffer.thy ===== *)
theory CondBuffer
  imports Runs
begin

text \<open>
  The producer and the two consumers of \<^verbatim>\<open>src/pthread_cond_test/cond_test.c\<close>: a one-place buffer under
  \<open>the_mutex\<close>, with the condition variables \<open>condp\<close> (only the producer waits on it) and \<open>condc\<close> (only the
  consumers). Thread 0 is \<open>producer\<close>, threads 1 and 2 are \<open>consumer1\<close> and \<open>consumer2\<close>.
\<close>

section \<open>The program\<close>

abbreviation MAX_ITEMS :: nat where "MAX_ITEMS \<equiv> 100"

text \<open>\<open>Asleep\<close> is inside \<open>pthread_cond_wait\<close> with the mutex released, \<open>Woken\<close> there taking it again. What a
  thread does between two uses of the mutex and the condition variables is one step, since every access to
  \<open>buffer\<close> is made with the mutex held.\<close>

datatype cond_pc = Loop | Test | Asleep | Woken | Work | Signal | Unlock | Done

record cond_state =
  cpc :: "nat \<Rightarrow> cond_pc"
  iter :: "nat \<Rightarrow> nat"
  buffer :: nat
  the_mutex :: bool
  produced :: "nat list"
  consumed :: "(nat \<times> nat) list"

definition cond_init :: cond_state where
  "cond_init = \<lparr>cpc = (\<lambda>_. Loop), iter = (\<lambda>_. 1), buffer = 0, the_mutex = False, produced = [], consumed = []\<rparr>"

definition move :: "nat \<Rightarrow> cond_pc \<Rightarrow> cond_state \<Rightarrow> cond_state" where
  "move i p s = s\<lparr>cpc := (cpc s)(i := p)\<rparr>"

text \<open>The condition of the \<open>while\<close> around \<open>pthread_cond_wait\<close>.\<close>

definition must_wait :: "nat \<Rightarrow> cond_state \<Rightarrow> bool" where
  "must_wait i s = (if i = 0 then buffer s \<noteq> 0 else buffer s = 0)"

definition wake :: "cond_pc \<Rightarrow> cond_pc" where
  "wake p = (if p = Asleep then Woken else p)"

inductive cond_step :: "cond_state \<Rightarrow> cond_state \<Rightarrow> bool" where
  c_lock: "i < 3 \<Longrightarrow> cpc s i = Loop \<Longrightarrow> iter s i < MAX_ITEMS \<Longrightarrow> \<not> the_mutex s \<Longrightarrow> cond_step s (move i Test (s\<lparr>the_mutex := True\<rparr>))"
| c_exit: "i < 3 \<Longrightarrow> cpc s i = Loop \<Longrightarrow> \<not> iter s i < MAX_ITEMS \<Longrightarrow> cond_step s (move i Done s)"
| c_wait: "i < 3 \<Longrightarrow> cpc s i = Test \<Longrightarrow> must_wait i s \<Longrightarrow> cond_step s (move i Asleep (s\<lparr>the_mutex := False\<rparr>))"
| c_go: "i < 3 \<Longrightarrow> cpc s i = Test \<Longrightarrow> \<not> must_wait i s \<Longrightarrow> cond_step s (move i Work s)"
| c_relock: "i < 3 \<Longrightarrow> cpc s i = Woken \<Longrightarrow> \<not> the_mutex s \<Longrightarrow> cond_step s (move i Test (s\<lparr>the_mutex := True\<rparr>))"
| c_produce: "cpc s 0 = Work \<Longrightarrow> cond_step s (move 0 Signal (s\<lparr>buffer := iter s 0, produced := produced s @ [iter s 0]\<rparr>))"
| c_consume: "i < 3 \<Longrightarrow> 0 < i \<Longrightarrow> cpc s i = Work \<Longrightarrow>
    cond_step s (move i Signal (s\<lparr>buffer := 0, consumed := consumed s @ [(i, buffer s)]\<rparr>))"
| c_broadcast: "cpc s 0 = Signal \<Longrightarrow>
    cond_step s (move 0 Unlock (s\<lparr>cpc := (cpc s)(1 := wake (cpc s 1), 2 := wake (cpc s 2))\<rparr>))"
| c_signal: "i < 3 \<Longrightarrow> 0 < i \<Longrightarrow> cpc s i = Signal \<Longrightarrow>
    cond_step s (move i Unlock (s\<lparr>cpc := (cpc s)(0 := wake (cpc s 0))\<rparr>))"
| c_unlock: "i < 3 \<Longrightarrow> cpc s i = Unlock \<Longrightarrow>
    cond_step s (move i Loop (s\<lparr>the_mutex := False, iter := (iter s)(i := Suc (iter s i))\<rparr>))"

text \<open>\<open>pthread_cond_wait\<close> may also return without a signal.\<close>

inductive spurious :: "cond_state \<Rightarrow> cond_state \<Rightarrow> bool" where
  spurious_wake: "i < 3 \<Longrightarrow> cpc s i = Asleep \<Longrightarrow> spurious s (move i Woken s)"

definition cond_any :: "cond_state \<Rightarrow> cond_state \<Rightarrow> bool" where
  "cond_any s t \<longleftrightarrow> cond_step s t \<or> spurious s t"

section \<open>The invariant\<close>

definition holds :: "cond_state \<Rightarrow> nat \<Rightarrow> bool" where
  "holds s i \<longleftrightarrow> cpc s i \<in> {Test, Work, Signal, Unlock}"

definition excluded :: "cond_state \<Rightarrow> bool" where
  "excluded s \<longleftrightarrow> (the_mutex s \<longleftrightarrow> (\<exists>i<3. holds s i)) \<and> (\<forall>i<3. \<forall>j<3. holds s i \<longrightarrow> holds s j \<longrightarrow> i = j)"

text \<open>The rounds a thread has finished: \<open>i\<close> counts from 1.\<close>

definition rounds_done :: "cond_state \<Rightarrow> nat \<Rightarrow> nat" where
  "rounds_done s i = iter s i - 1 + (if cpc s i \<in> {Signal, Unlock} then 1 else 0)"

definition thread_ok :: "cond_state \<Rightarrow> nat \<Rightarrow> bool" where
  "thread_ok s i \<longleftrightarrow> 1 \<le> iter s i \<and> iter s i \<le> MAX_ITEMS \<and> (cpc s i \<notin> {Loop, Done} \<longrightarrow> iter s i < MAX_ITEMS) \<and> (cpc s i = Done \<longrightarrow> iter s i = MAX_ITEMS)
     \<and> (cpc s i = Work \<longrightarrow> \<not> must_wait i s)"

text \<open>A sleeping thread has to wait, or the signal that wakes it is about to come.\<close>

definition wakeups :: "cond_state \<Rightarrow> bool" where
  "wakeups s \<longleftrightarrow> (\<forall>i\<in>{1, 2}. cpc s i = Asleep \<longrightarrow> buffer s = 0 \<or> cpc s 0 = Signal)
     \<and> (cpc s 0 = Asleep \<longrightarrow> buffer s \<noteq> 0 \<or> cpc s 1 = Signal \<or> cpc s 2 = Signal)"

definition items_ok :: "cond_state \<Rightarrow> bool" where
  "items_ok s \<longleftrightarrow> produced s = [1..<Suc (rounds_done s 0)]
     \<and> map snd (consumed s) = (if buffer s = 0 then produced s else butlast (produced s))
     \<and> (buffer s = 0 \<or> buffer s = rounds_done s 0)
     \<and> (\<forall>i\<in>{1, 2}. length (filter (\<lambda>c. fst c = i) (consumed s)) = rounds_done s i)
     \<and> fst ` set (consumed s) \<subseteq> {1, 2}"

definition cond_inv :: "cond_state \<Rightarrow> bool" where
  "cond_inv s \<longleftrightarrow> excluded s \<and> (\<forall>i<3. thread_ok s i) \<and> wakeups s \<and> items_ok s"

lemma move_simps [simp]:
  "cpc (move i p s) = (cpc s)(i := p)" "iter (move i p s) = iter s" "buffer (move i p s) = buffer s"
  "the_mutex (move i p s) = the_mutex s" "produced (move i p s) = produced s" "consumed (move i p s) = consumed s"
  by (simp_all add: move_def)

lemma less_3: "i < 3 \<longleftrightarrow> i = 0 \<or> i = 1 \<or> i = (2 :: nat)"
  by auto

lemma wake_simps [simp]:
  "wake p = Woken \<longleftrightarrow> p \<in> {Asleep, Woken}" "wake p \<noteq> Asleep"
  "q \<notin> {Asleep, Woken} \<Longrightarrow> wake p = q \<longleftrightarrow> p = q"
  by (auto simp: wake_def)

text \<open>How a step changes who holds the mutex.\<close>

lemma cond_step_holds:
  assumes "cond_any s t"
  shows "(holds t = holds s \<and> the_mutex t = the_mutex s)
    \<or> (\<exists>i<3. \<not> the_mutex s \<and> the_mutex t \<and> holds t = (holds s)(i := True))
    \<or> (\<exists>i<3. holds s i \<and> \<not> the_mutex t \<and> holds t = (holds s)(i := False))"
proof -
  from assms consider "cond_step s t" | "spurious s t" by (auto simp: cond_any_def)
  then show ?thesis
  proof cases
    case 1
    then show ?thesis by cases (auto simp: holds_def fun_eq_iff wake_def)
  next
    case 2
    then show ?thesis by cases (auto simp: holds_def fun_eq_iff)
  qed
qed

lemma excluded_step:
  assumes "cond_any s t" "excluded s"
  shows "excluded t"
proof -
  have m: "the_mutex s \<longleftrightarrow> (\<exists>i<3. holds s i)" and o: "\<And>i j. i < 3 \<Longrightarrow> j < 3 \<Longrightarrow> holds s i \<Longrightarrow> holds s j \<Longrightarrow> i = j"
    using assms(2) by (auto simp: excluded_def)
  from cond_step_holds [OF assms(1)] consider "holds t = holds s" "the_mutex t = the_mutex s"
    | i where "i < 3" "\<not> the_mutex s" "the_mutex t" "holds t = (holds s)(i := True)"
    | i where "i < 3" "holds s i" "\<not> the_mutex t" "holds t = (holds s)(i := False)" by blast
  then show ?thesis
  proof cases
    case 1
    then show ?thesis using assms(2) by (simp add: excluded_def)
  next
    case (2 i)
    then have "\<not> holds s j" if "j < 3" for j using m that by blast
    then show ?thesis using 2 by (auto simp: excluded_def)
  next
    case (3 i)
    then have "\<not> holds s j" if "j < 3" "j \<noteq> i" for j using o that by blast
    then show ?thesis using 3 by (auto simp: excluded_def)
  qed
qed

lemma alone:
  assumes "excluded s" "i < 3" "holds s i" "j < 3" "j \<noteq> i"
  shows "cpc s j \<in> {Loop, Asleep, Woken, Done}"
proof -
  have "\<not> holds s j" using assms by (auto simp: excluded_def)
  then show ?thesis by (cases "cpc s j") (simp_all add: holds_def)
qed

lemma holds_pc: "cpc s i \<in> {Test, Work, Signal, Unlock} \<Longrightarrow> holds s i"
  by (simp add: holds_def)

lemma must_wait_simps [simp]:
  "must_wait i (move j p s) = must_wait i s" "must_wait i (s\<lparr>the_mutex := b\<rparr>) = must_wait i s"
  "must_wait i (s\<lparr>cpc := c\<rparr>) = must_wait i s" "must_wait i (s\<lparr>iter := k\<rparr>) = must_wait i s"
  by (simp_all add: must_wait_def)

lemma thread_ok_step:
  assumes "cond_any s t" "excluded s" "\<forall>i<3. thread_ok s i" "j < 3"
  shows "thread_ok t j"
proof -
  have ok: "thread_ok s j" using assms(3,4) by blast
  from assms(1) consider "cond_step s t" | "spurious s t" by (auto simp: cond_any_def)
  then show ?thesis
  proof cases
    case 1
    then show ?thesis
    proof cases
      case c_produce
      then have "cpc s j \<in> {Loop, Asleep, Woken, Done}" if "j \<noteq> 0"
        using alone [OF assms(2) _ holds_pc assms(4) that] by simp
      then show ?thesis using c_produce ok by (auto simp: thread_ok_def)
    next
      case (c_consume i)
      then have "cpc s j \<in> {Loop, Asleep, Woken, Done}" if "j \<noteq> i"
        using alone [OF assms(2) _ holds_pc assms(4) that] by simp
      then show ?thesis using c_consume ok by (auto simp: thread_ok_def)
    qed (use ok in \<open>auto simp: thread_ok_def wake_def split: if_splits\<close>)
  next
    case 2
    then show ?thesis using ok by cases (auto simp: thread_ok_def)
  qed
qed

lemma wakeups_step:
  assumes "cond_any s t" "excluded s" "\<forall>i<3. thread_ok s i" "wakeups s"
  shows "wakeups t"
proof -
  from assms(1) consider "cond_step s t" | "spurious s t" by (auto simp: cond_any_def)
  then show ?thesis
  proof cases
    case 1
    then show ?thesis
    proof cases
      case c_produce
      then have "cpc s j \<in> {Loop, Asleep, Woken, Done}" if "j < 3" "j \<noteq> 0" for j
        using alone [OF assms(2) _ holds_pc that] by simp
      from this [of 1] this [of 2] show ?thesis using c_produce by (auto simp: wakeups_def)
    next
      case (c_consume i)
      then have "cpc s j \<in> {Loop, Asleep, Woken, Done}" if "j < 3" "j \<noteq> i" for j
        using alone [OF assms(2) _ holds_pc that] by simp
      then show ?thesis using c_consume by (auto simp: wakeups_def less_3)
    next
      case (c_wait i)
      then show ?thesis using assms(4) by (auto simp: wakeups_def must_wait_def less_3)
    next
      case (c_signal i)
      then have "cpc s j \<in> {Loop, Asleep, Woken, Done}" if "j < 3" "j \<noteq> i" for j
        using alone [OF assms(2) _ holds_pc that] by simp
      from this [of 0] show ?thesis using c_signal assms(4) by (auto simp: wakeups_def less_3)
    qed (use assms(4) in \<open>auto simp: wakeups_def less_3\<close>)
  next
    case 2
    then show ?thesis using assms(4) by cases (auto simp: wakeups_def less_3)
  qed
qed

lemma rounds_step:
  assumes "i < 3" "1 \<le> iter s i"
  shows "rounds_done (move i Signal s) i = (if cpc s i \<in> {Signal, Unlock} then rounds_done s i else Suc (rounds_done s i))"
  using assms by (simp add: rounds_done_def)

lemma items_ok_cong:
  assumes "items_ok s" "produced t = produced s" "consumed t = consumed s" "buffer t = buffer s"
    "\<And>i. i < 3 \<Longrightarrow> rounds_done t i = rounds_done s i"
  shows "items_ok t"
  using assms by (simp add: items_ok_def)

lemma items_ok_step:
  assumes "cond_any s t" "excluded s" "\<forall>i<3. thread_ok s i" "items_ok s"
  shows "items_ok t"
proof -
  have it: "1 \<le> iter s i" if "i < 3" for i using assms(3) that by (simp add: thread_ok_def)
  from assms(1) consider "cond_step s t" | "spurious s t" by (auto simp: cond_any_def)
  then show ?thesis
  proof cases
    case 1
    then show ?thesis
    proof cases
      case c_produce
      have "thread_ok s 0" using assms(3) by simp
      then have "buffer s = 0" using c_produce by (simp add: thread_ok_def must_wait_def)
      moreover have "Suc (rounds_done s 0) = iter s 0" using c_produce it [of 0] by (simp add: rounds_done_def)
      ultimately show ?thesis using c_produce assms(4) it [of 0] by (auto simp: items_ok_def rounds_done_def)
    next
      case (c_consume i)
      have "thread_ok s i" using c_consume assms(3) by simp
      then have b: "buffer s \<noteq> 0" using c_consume by (simp add: thread_ok_def must_wait_def)
      then have p: "produced s = [1..<Suc (buffer s)]" "buffer s = rounds_done s 0" "map snd (consumed s) = butlast (produced s)"
        using assms(4) by (auto simp: items_ok_def)
      have "produced s = butlast (produced s) @ [buffer s]" using p(1) b by simp
      then have "map snd (consumed t) = produced t" "produced t = [1..<Suc (rounds_done t 0)]"
        using c_consume p by (simp_all add: rounds_done_def)
      moreover have "length (filter (\<lambda>c. fst c = j) (consumed t)) = rounds_done t j" if "j \<in> {1, 2}" for j
        using c_consume assms(4) it [of i] that by (auto simp: items_ok_def rounds_done_def)
      ultimately show ?thesis using c_consume assms(4) by (auto simp: items_ok_def)
    next
      case (c_unlock i)
      then show ?thesis using it [of i] by (intro items_ok_cong [OF assms(4)]) (auto simp: rounds_done_def)
    qed (rule items_ok_cong [OF assms(4)]; auto simp: rounds_done_def less_3)+
  next
    case 2
    then show ?thesis by cases (rule items_ok_cong [OF assms(4)]; auto simp: rounds_done_def)
  qed
qed

lemma cond_inv_step: "cond_inv s \<Longrightarrow> cond_any s t \<Longrightarrow> cond_inv t"
  unfolding cond_inv_def using excluded_step thread_ok_step wakeups_step items_ok_step by blast

lemma cond_inv_init: "cond_inv cond_init"
  by (auto simp: cond_inv_def cond_init_def excluded_def holds_def thread_ok_def wakeups_def items_ok_def rounds_done_def)

section \<open>Every run without spurious wake-ups ends\<close>

definition cpc_weight :: "cond_pc \<Rightarrow> nat" where
  "cpc_weight p = (case p of Loop \<Rightarrow> 9 | Test \<Rightarrow> 8 | Asleep \<Rightarrow> 7 | Woken \<Rightarrow> 9 | Work \<Rightarrow> 7 | Signal \<Rightarrow> 6 | Unlock \<Rightarrow> 1 | Done \<Rightarrow> 0)"

definition thread_weight :: "cond_state \<Rightarrow> nat \<Rightarrow> nat" where
  "thread_weight s i = 9 * (MAX_ITEMS - iter s i) + cpc_weight (cpc s i)"

definition cond_weight :: "cond_state \<Rightarrow> nat" where
  "cond_weight s = thread_weight s 0 + thread_weight s 1 + thread_weight s 2"

lemma wake_weight: "cpc_weight (wake p) \<le> cpc_weight p + 2"
  by (cases p) (simp_all add: cpc_weight_def wake_def)

lemma thread_weight_move:
  "thread_weight (move i p s) j = (if j = i then 9 * (MAX_ITEMS - iter s i) + cpc_weight p else thread_weight s j)"
  "thread_weight (s\<lparr>the_mutex := b\<rparr>) j = thread_weight s j"
  "thread_weight (s\<lparr>buffer := n, produced := q\<rparr>) j = thread_weight s j"
  "thread_weight (s\<lparr>buffer := n, consumed := r\<rparr>) j = thread_weight s j"
  by (simp_all add: thread_weight_def)

lemma cond_step_weight:
  assumes "cond_step s t" "cond_inv s"
  shows "cond_weight t < cond_weight s"
  using assms(1)
proof cases
  case c_broadcast
  then show ?thesis using wake_weight [of "cpc s 1"] wake_weight [of "cpc s 2"]
    by (simp add: cond_weight_def thread_weight_def) (simp add: cpc_weight_def)
next
  case (c_signal i)
  then show ?thesis using wake_weight [of "cpc s 0"]
    by (auto simp: cond_weight_def thread_weight_def less_3) (simp_all add: cpc_weight_def)
next
  case (c_unlock i)
  have "thread_ok s i" using assms(2) c_unlock by (simp add: cond_inv_def)
  then have "iter s i < MAX_ITEMS" using c_unlock by (simp add: thread_ok_def)
  then show ?thesis using c_unlock by (auto simp: cond_weight_def thread_weight_def cpc_weight_def less_3)
qed (auto simp: cond_weight_def thread_weight_move thread_weight_def cpc_weight_def less_3)

interpretation cb: invariant_system cond_any cond_init cond_inv
  by unfold_locales (rule cond_inv_init, rule cond_inv_step)

interpretation cq: ending_system cond_step cond_init cond_inv cond_weight
  by unfold_locales (use cond_inv_init cond_inv_step cond_step_weight in \<open>auto simp: cond_any_def\<close>)

section \<open>Where the program stops\<close>

definition cond_stuck :: "cond_state \<Rightarrow> bool" where
  "cond_stuck s \<longleftrightarrow> (\<forall>t. \<not> cond_step s t)"

lemma cond_step_exists:
  assumes "i < 3" "cpc s i \<in> {Test, Work, Signal, Unlock} \<or> (cpc s i = Loop \<and> (iter s i < MAX_ITEMS \<longrightarrow> \<not> the_mutex s))
    \<or> (cpc s i = Woken \<and> \<not> the_mutex s)"
  shows "\<exists>t. cond_step s t"
proof (cases "cpc s i")
  case Loop
  then show ?thesis using assms cond_step.c_lock [of i s] cond_step.c_exit [of i s] by auto
next
  case Test
  then show ?thesis using assms cond_step.c_wait [of i s] cond_step.c_go [of i s] by auto
next
  case Woken
  then show ?thesis using assms cond_step.c_relock [of i s] by auto
next
  case Work
  then show ?thesis using assms cond_step.c_produce [of s] cond_step.c_consume [of i s] by (cases "i = 0") auto
next
  case Signal
  then show ?thesis using assms cond_step.c_broadcast [of s] cond_step.c_signal [of i s] by (cases "i = 0") auto
next
  case Unlock
  then show ?thesis using assms cond_step.c_unlock [of i s] by auto
qed (use assms in auto)

lemma stuck_pcs:
  assumes "cond_inv s" "cond_stuck s" "i < 3"
  shows "cpc s i \<in> {Asleep, Done}"
proof -
  have no: "\<not> holds s j" if "j < 3" for j
    using cond_step_exists [OF that] assms(2) unfolding cond_stuck_def holds_def by blast
  then have free: "\<not> the_mutex s" using assms(1) by (auto simp: cond_inv_def excluded_def)
  show ?thesis
    using assms(2) no [OF assms(3)] free cond_step_exists [OF assms(3), of s]
    unfolding cond_stuck_def holds_def by (cases "cpc s i") auto
qed

lemma counted: "fst ` set cs \<subseteq> {1, 2 :: nat} \<Longrightarrow>
    length cs = length (filter (\<lambda>c. fst c = 1) cs) + length (filter (\<lambda>c. fst c = 2) cs)"
  by (induction cs) auto

text \<open>The consumers cannot both finish: together they wait for twice as many items as are produced.\<close>

lemma items_bound:
  assumes "cond_inv s"
  shows "rounds_done s 1 + rounds_done s 2 \<le> 99"
proof -
  have ok: "items_ok s" "thread_ok s 0" using assms by (simp_all add: cond_inv_def)
  have "rounds_done s 1 + rounds_done s 2 = length (consumed s)"
    using ok(1) counted [of "consumed s"] unfolding items_ok_def by (simp del: upt_Suc)
  also have "\<dots> = length (map snd (consumed s))" by simp
  also have "\<dots> \<le> length (produced s)" using ok(1) unfolding items_ok_def by (metis diff_le_self length_butlast order_refl)
  also have "\<dots> \<le> 99" using ok by (auto simp: items_ok_def thread_ok_def rounds_done_def)
  finally show ?thesis .
qed

lemma consumers_not_done:
  assumes "cond_inv s"
  shows "\<not> (cpc s 1 = Done \<and> cpc s 2 = Done)"
proof
  assume d: "cpc s 1 = Done \<and> cpc s 2 = Done"
  have "thread_ok s 1" "thread_ok s 2" using assms by (simp_all add: cond_inv_def)
  then have "iter s 1 = MAX_ITEMS" "iter s 2 = MAX_ITEMS" using d by (simp_all add: thread_ok_def)
  then show False using items_bound [OF assms] d by (simp add: rounds_done_def)
qed

lemma stuck_state:
  assumes "cond_inv s" "cond_stuck s"
  shows "cpc s 0 = Done \<and> (cpc s 1 = Asleep \<or> cpc s 2 = Asleep) \<and> produced s = [1..<MAX_ITEMS] \<and> map snd (consumed s) = [1..<MAX_ITEMS]"
proof -
  have pcs: "cpc s 0 \<in> {Asleep, Done}" "cpc s 1 \<in> {Asleep, Done}" "cpc s 2 \<in> {Asleep, Done}"
    using stuck_pcs [OF assms] by simp_all
  have a: "cpc s 1 = Asleep \<or> cpc s 2 = Asleep" using consumers_not_done [OF assms(1)] pcs by auto
  have w: "wakeups s" and ok: "items_ok s" "thread_ok s 0" using assms(1) by (simp_all add: cond_inv_def)
  have b: "buffer s = 0" using w a pcs(1) by (auto simp: wakeups_def)
  then have d: "cpc s 0 = Done" using w pcs by (auto simp: wakeups_def)
  then have "rounds_done s 0 = 99" using ok(2) by (simp add: thread_ok_def rounds_done_def)
  moreover have "Suc 99 = (MAX_ITEMS :: nat)" by simp
  ultimately show ?thesis using a b d ok(1) unfolding items_ok_def by metis
qed

text \<open>C7: whatever the interleaving, and with any spurious wake-ups, the consumers get the items produced in
  order, each once, and at most the last one produced is still in the buffer; at most one thread holds the
  mutex. No wake-up is lost: when no thread can go on, all 99 items have been produced and consumed. But
  then a consumer still waits for an item, since each of the two wants 99: \<open>main\<close> never returns from
  joining them. Without spurious wake-ups every run comes to that point within 2700 steps.\<close>

theorem producer_consumers:
  "(\<forall>s. cond_any\<^sup>*\<^sup>* cond_init s \<longrightarrow>
       (map snd (consumed s) = produced s \<or> map snd (consumed s) @ [buffer s] = produced s)
     \<and> (\<forall>i<3. \<forall>j<3. holds s i \<longrightarrow> holds s j \<longrightarrow> i = j)
     \<and> \<not> (\<forall>i<3. cpc s i = Done)
     \<and> (cond_stuck s \<longrightarrow> map snd (consumed s) = [1..<100] \<and> cpc s 0 = Done \<and> (cpc s 1 = Asleep \<or> cpc s 2 = Asleep)))
   \<and> (\<forall>n s. (cond_step ^^ n) cond_init s \<longrightarrow> n \<le> 2700)"
proof (intro conjI allI impI)
  fix s assume "cond_any\<^sup>*\<^sup>* cond_init s"
  then have i: "cond_inv s" by (rule cb.reach_inv)
  show "map snd (consumed s) = produced s \<or> map snd (consumed s) @ [buffer s] = produced s"
  proof (cases "buffer s = 0")
    case False
    then have "produced s = [1..<Suc (buffer s)]" "map snd (consumed s) = butlast (produced s)"
      using i by (auto simp: cond_inv_def items_ok_def)
    then show ?thesis using False by simp
  qed (use i in \<open>simp add: cond_inv_def items_ok_def\<close>)
  show "i = j" if "i < 3" "j < 3" "holds s i" "holds s j" for i j
    using i that by (auto simp: cond_inv_def excluded_def)
  show "\<not> (\<forall>i<3. cpc s i = Done)" using consumers_not_done [OF i] by force
  show "map snd (consumed s) = [1..<100]" "cpc s 0 = Done" "cpc s 1 = Asleep \<or> cpc s 2 = Asleep" if "cond_stuck s"
    using stuck_state [OF i that] by auto
next
  fix n s assume "(cond_step ^^ n) cond_init s"
  then show "n \<le> 2700"
    using cq.reach_length by (fastforce simp: cond_weight_def thread_weight_def cond_init_def cpc_weight_def)
qed

lemma producer_consumers_witness:
  "\<exists>s. cond_any\<^sup>*\<^sup>* cond_init s \<and> cond_stuck s \<and> map snd (consumed s) = [1..<100]"
proof -
  obtain s where s: "cond_step\<^sup>*\<^sup>* cond_init s" "cond_stuck s"
    using cq.run_end [OF cond_inv_init] by (auto simp: cond_stuck_def)
  have "cond_any\<^sup>*\<^sup>* cond_init s" using s(1) by (rule mono_rtranclp [rule_format, rotated]) (simp add: cond_any_def)
  then show ?thesis using producer_consumers s(2) by blast
qed

end
