(* ===== verification/SemBuffer.thy ===== *)
theory SemBuffer
  imports Runs
begin

text \<open>
  The producer and the customer of \<^verbatim>\<open>src/semaphore_test/sem_test.c\<close>, over the semaphores \<open>put\<close> (1 at
  first) and \<open>get\<close> (0). The array \<open>buff\<close> has one element and both threads use \<open>buff[1]\<close>: an access outside the array is a
  fault that stops the program. The size is an argument of the initial state, so that the theorems speak of the program,
  where it is 1, and of the program with an array that has the element. \<open>taken\<close> is the customer's local \<open>value\<close>.
\<close>

section \<open>The program\<close>

text \<open>\<open>Wait\<close>: before \<open>sem_wait\<close>; \<open>Use\<close>: before the access to the cell; \<open>Print\<close>: before \<open>printf\<close>;
  \<open>Post\<close>: before \<open>sem_post\<close>.\<close>

datatype sem_pc = Wait | Use | Print | Post | Exit

record sem_state =
  put :: nat
  get :: nat
  buff :: "int list"
  producer_pc :: sem_pc
  producer_i :: int
  customer_pc :: sem_pc
  customer_i :: int
  taken :: int
  put_lines :: "int list"
  get_lines :: "int list"
  faulted :: bool

text \<open>The state after \<open>signal_init\<close> and the creation of the threads.\<close>

definition sem_start :: "nat \<Rightarrow> sem_state" where
  "sem_start n = \<lparr>put = 1, get = 0, buff = replicate n 0, producer_pc = Wait, producer_i = 1, customer_pc = Wait, customer_i = 1,
     taken = 0, put_lines = [], get_lines = [], faulted = False\<rparr>"

inductive sem_step :: "sem_state \<Rightarrow> sem_state \<Rightarrow> bool" where
  p_wait: "\<not> faulted s \<Longrightarrow> producer_pc s = Wait \<Longrightarrow> producer_i s \<le> 10 \<Longrightarrow> put s = Suc n \<Longrightarrow> sem_step s (s\<lparr>put := n, producer_pc := Use\<rparr>)"
| p_use: "\<not> faulted s \<Longrightarrow> producer_pc s = Use \<Longrightarrow> 1 < length (buff s) \<Longrightarrow> sem_step s (s\<lparr>buff := (buff s)[1 := producer_i s], producer_pc := Print\<rparr>)"
| p_overrun: "\<not> faulted s \<Longrightarrow> producer_pc s = Use \<Longrightarrow> \<not> 1 < length (buff s) \<Longrightarrow> sem_step s (s\<lparr>faulted := True\<rparr>)"
| p_print: "\<not> faulted s \<Longrightarrow> producer_pc s = Print \<Longrightarrow> sem_step s (s\<lparr>put_lines := put_lines s @ [producer_i s], producer_pc := Post\<rparr>)"
| p_post: "\<not> faulted s \<Longrightarrow> producer_pc s = Post \<Longrightarrow> sem_step s (s\<lparr>get := Suc (get s), producer_i := producer_i s + 1, producer_pc := Wait\<rparr>)"
| p_exit: "\<not> faulted s \<Longrightarrow> producer_pc s = Wait \<Longrightarrow> \<not> producer_i s \<le> 10 \<Longrightarrow> sem_step s (s\<lparr>producer_pc := Exit\<rparr>)"
| s_wait: "\<not> faulted s \<Longrightarrow> customer_pc s = Wait \<Longrightarrow> customer_i s \<le> 10 \<Longrightarrow> get s = Suc n \<Longrightarrow> sem_step s (s\<lparr>get := n, customer_pc := Use\<rparr>)"
| s_use: "\<not> faulted s \<Longrightarrow> customer_pc s = Use \<Longrightarrow> 1 < length (buff s) \<Longrightarrow> sem_step s (s\<lparr>taken := buff s ! 1, customer_pc := Print\<rparr>)"
| s_overrun: "\<not> faulted s \<Longrightarrow> customer_pc s = Use \<Longrightarrow> \<not> 1 < length (buff s) \<Longrightarrow> sem_step s (s\<lparr>faulted := True\<rparr>)"
| s_print: "\<not> faulted s \<Longrightarrow> customer_pc s = Print \<Longrightarrow> sem_step s (s\<lparr>get_lines := get_lines s @ [taken s], customer_pc := Post\<rparr>)"
| s_post: "\<not> faulted s \<Longrightarrow> customer_pc s = Post \<Longrightarrow> sem_step s (s\<lparr>put := Suc (put s), customer_i := customer_i s + 1, customer_pc := Wait\<rparr>)"
| s_exit: "\<not> faulted s \<Longrightarrow> customer_pc s = Wait \<Longrightarrow> \<not> customer_i s \<le> 10 \<Longrightarrow> sem_step s (s\<lparr>customer_pc := Exit\<rparr>)"

inductive_cases sem_stepE: "sem_step s t"

text \<open>\<open>main\<close> has joined both threads.\<close>

definition sem_joined :: "sem_state \<Rightarrow> bool" where
  "sem_joined s \<longleftrightarrow> producer_pc s = Exit \<and> customer_pc s = Exit"

section \<open>The invariant\<close>

definition working :: "sem_pc \<Rightarrow> bool" where
  "working p \<longleftrightarrow> p \<in> {Use, Print, Post}"

text \<open>One token goes round: it is \<open>put\<close>, the producer's, \<open>get\<close> or the customer's.\<close>

definition token_free :: "sem_state \<Rightarrow> bool" where
  "token_free s \<longleftrightarrow> put s = 1 \<and> get s = 0 \<and> \<not> working (producer_pc s) \<and> \<not> working (customer_pc s) \<and> producer_i s = customer_i s"

definition token_producer :: "sem_state \<Rightarrow> bool" where
  "token_producer s \<longleftrightarrow> put s = 0 \<and> get s = 0 \<and> working (producer_pc s) \<and> \<not> working (customer_pc s) \<and> producer_i s = customer_i s
     \<and> producer_i s \<le> 10 \<and> (producer_pc s = Use \<or> buff s ! 1 = producer_i s)"

definition token_full :: "sem_state \<Rightarrow> bool" where
  "token_full s \<longleftrightarrow> put s = 0 \<and> get s = 1 \<and> \<not> working (producer_pc s) \<and> \<not> working (customer_pc s)
     \<and> producer_i s = customer_i s + 1 \<and> buff s ! 1 = customer_i s"

definition token_customer :: "sem_state \<Rightarrow> bool" where
  "token_customer s \<longleftrightarrow> put s = 0 \<and> get s = 0 \<and> \<not> working (producer_pc s) \<and> working (customer_pc s)
     \<and> producer_i s = customer_i s + 1 \<and> buff s ! 1 = customer_i s \<and> (customer_pc s = Use \<or> taken s = customer_i s)"

lemmas token_defs = token_free_def token_producer_def token_full_def token_customer_def working_def

definition lines_ok :: "sem_state \<Rightarrow> bool" where
  "lines_ok s \<longleftrightarrow> put_lines s = [1..producer_i s - 1] @ (if producer_pc s = Post then [producer_i s] else [])
     \<and> get_lines s = [1..customer_i s - 1] @ (if customer_pc s = Post then [customer_i s] else [])"

definition counters_ok :: "sem_state \<Rightarrow> bool" where
  "counters_ok s \<longleftrightarrow> 1 \<le> customer_i s \<and> 1 \<le> producer_i s \<and> producer_i s \<le> 11
     \<and> (producer_pc s = Exit \<longrightarrow> producer_i s = 11) \<and> (customer_pc s = Exit \<longrightarrow> customer_i s = 11)"

definition sem_inv :: "sem_state \<Rightarrow> bool" where
  "sem_inv s \<longleftrightarrow> \<not> faulted s \<and> 1 < length (buff s) \<and> (token_free s \<or> token_producer s \<or> token_full s \<or> token_customer s) \<and> counters_ok s \<and> lines_ok s"

definition sem_weight :: "sem_state \<Rightarrow> nat" where
  "sem_weight s =
     5 * nat (11 - producer_i s) + (case producer_pc s of Wait \<Rightarrow> 5 | Use \<Rightarrow> 4 | Print \<Rightarrow> 3 | Post \<Rightarrow> 2 | Exit \<Rightarrow> 0)
   + 5 * nat (11 - customer_i s) + (case customer_pc s of Wait \<Rightarrow> 5 | Use \<Rightarrow> 4 | Print \<Rightarrow> 3 | Post \<Rightarrow> 2 | Exit \<Rightarrow> 0)"

lemma sem_start_inv: "1 < n \<Longrightarrow> sem_inv (sem_start n)"
  by (simp add: sem_inv_def token_free_def lines_ok_def counters_ok_def sem_start_def working_def)

lemma upto_snoc: "1 \<le> i \<Longrightarrow> [1..i - 1] @ [i] = [1..i :: int]"
  by (simp add: upto_rec2)

lemma token_cases:
  assumes "sem_inv s"
  obtains "token_free s" | "token_producer s" | "token_full s" | "token_customer s"
  using assms by (auto simp: sem_inv_def)

lemma token_step:
  assumes "sem_inv s" "sem_step s t"
  shows "token_free t \<or> token_producer t \<or> token_full t \<or> token_customer t"
proof -
  have r: "\<not> faulted s" "1 < length (buff s)" using assms(1) by (simp_all add: sem_inv_def)
  from assms(1) show ?thesis
  proof (cases rule: token_cases)
    case 1
    from assms(2) show ?thesis by cases (use 1 r in \<open>simp_all add: token_defs\<close>)
  next
    case 2
    from assms(2) show ?thesis by cases (use 2 r in \<open>simp_all add: token_defs\<close>)
  next
    case 3
    from assms(2) show ?thesis by cases (use 3 r in \<open>simp_all add: token_defs\<close>)
  next
    case 4
    from assms(2) show ?thesis by cases (use 4 r in \<open>simp_all add: token_defs\<close>)
  qed
qed

lemma working_bounds:
  assumes "sem_inv s"
  shows "(working (producer_pc s) \<longrightarrow> producer_i s \<le> 10) \<and> (working (customer_pc s) \<longrightarrow> customer_i s \<le> 10)
    \<and> (customer_pc s = Print \<longrightarrow> taken s = customer_i s)"
  using assms by (cases rule: token_cases) (use assms in \<open>auto simp: sem_inv_def counters_ok_def token_defs\<close>)

lemma counters_step:
  assumes "sem_inv s" "sem_step s t"
  shows "counters_ok t"
proof -
  have c: "counters_ok s" and r: "\<not> faulted s" "1 < length (buff s)" using assms(1) by (simp_all add: sem_inv_def)
  have w: "producer_pc s = Post \<Longrightarrow> producer_i s \<le> 10" "customer_i s \<le> producer_i s"
    using working_bounds [OF assms(1)] assms(1) by (auto simp: sem_inv_def token_defs)
  show ?thesis using assms(2) by cases (use c w r in \<open>auto simp: counters_ok_def\<close>)
qed

lemma lines_step:
  assumes "sem_inv s" "sem_step s t"
  shows "lines_ok t"
proof -
  have l: "lines_ok s" and "counters_ok s" using assms(1) by (simp_all add: sem_inv_def)
  then have u: "[1..producer_i s - 1] @ [producer_i s] = [1..producer_i s]" "[1..customer_i s - 1] @ [customer_i s] = [1..customer_i s]"
    by (auto simp: counters_ok_def intro: upto_snoc)
  have v: "customer_pc s = Print \<Longrightarrow> taken s = customer_i s" using working_bounds [OF assms(1)] by simp
  show ?thesis using assms(2) by cases (use l u v in \<open>simp_all add: lines_ok_def\<close>)
qed

lemma room_step:
  assumes "sem_inv s" "sem_step s t"
  shows "\<not> faulted t \<and> 1 < length (buff t)"
proof -
  have r: "\<not> faulted s" "1 < length (buff s)" using assms(1) by (simp_all add: sem_inv_def)
  show ?thesis using assms(2) by cases (use r in simp_all)
qed

lemma sem_step_inv: "sem_inv s \<Longrightarrow> sem_step s t \<Longrightarrow> sem_inv t"
  using token_step counters_step lines_step room_step unfolding sem_inv_def [of t] by blast

lemma sem_step_weight:
  assumes "sem_inv s" "sem_step s t"
  shows "sem_weight t < sem_weight s"
proof -
  have w: "producer_pc s = Post \<Longrightarrow> producer_i s \<le> 10" "customer_pc s = Post \<Longrightarrow> customer_i s \<le> 10"
    using working_bounds [OF assms(1)] by (simp_all add: working_def)
  have r: "1 < length (buff s)" using assms(1) by (simp add: sem_inv_def)
  show ?thesis using assms(2) by cases (use w r in \<open>simp_all add: sem_weight_def\<close>)
qed

interpretation sm: ending_system sem_step "sem_start (Suc (Suc n))" sem_inv sem_weight for n
  by unfold_locales (rule sem_start_inv, simp, rule sem_step_inv, assumption+, rule sem_step_weight, assumption+)

lemma sem_stuck:
  assumes "sem_inv s" "\<forall>t. \<not> sem_step s t"
  shows "sem_joined s"
proof -
  have r: "\<not> faulted s" "1 < length (buff s)" using assms(1) by (simp_all add: sem_inv_def)
  have "producer_pc s \<notin> {Use, Print, Post}" "customer_pc s \<notin> {Use, Print, Post}"
    using assms(2) r sem_step.p_use [of s] sem_step.p_print [of s] sem_step.p_post [of s] sem_step.s_use [of s]
      sem_step.s_print [of s] sem_step.s_post [of s] by auto
  then have p: "producer_pc s \<in> {Wait, Exit}" and c: "customer_pc s \<in> {Wait, Exit}"
    using sem_pc.exhaust by (blast, blast)
  have pw: "producer_pc s = Wait \<Longrightarrow> producer_i s \<le> 10 \<and> put s = 0"
    using assms(2) r(1) sem_step.p_wait [of s] sem_step.p_exit [of s] by (cases "put s") auto
  have cw: "customer_pc s = Wait \<Longrightarrow> customer_i s \<le> 10 \<and> get s = 0"
    using assms(2) r(1) sem_step.s_wait [of s] sem_step.s_exit [of s] by (cases "get s") auto
  from assms(1) show ?thesis
    by (cases rule: token_cases) (use assms(1) p c pw cw in \<open>auto simp: token_defs sem_joined_def sem_inv_def counters_ok_def\<close>)
qed

lemma sem_inv_turns:
  assumes i: "sem_inv s"
  shows "\<not> faulted s \<and> \<not> (working (producer_pc s) \<and> working (customer_pc s))
    \<and> (put_lines s = get_lines s \<or> (\<exists>k. put_lines s = get_lines s @ [k]))
    \<and> ((\<forall>t. \<not> sem_step s t) \<longrightarrow> sem_joined s)
    \<and> (sem_joined s \<longrightarrow> put_lines s = [1..10] \<and> get_lines s = [1..10])"
proof (intro conjI impI)
  show "\<not> faulted s" "\<not> (working (producer_pc s) \<and> working (customer_pc s))" using i by (auto simp: sem_inv_def token_defs)
  have u: "[1..customer_i s] = [1..customer_i s - 1] @ [customer_i s]"
    using i by (intro upto_snoc [symmetric]) (simp add: sem_inv_def counters_ok_def)
  from i show "put_lines s = get_lines s \<or> (\<exists>k. put_lines s = get_lines s @ [k])"
    by (cases rule: token_cases) (use i u in \<open>auto simp: sem_inv_def lines_ok_def token_defs\<close>)
  show "sem_joined s" if "\<forall>t. \<not> sem_step s t" using sem_stuck [OF i that] .
  show "put_lines s = [1..10]" "get_lines s = [1..10]" if "sem_joined s"
    using i that by (simp_all add: sem_inv_def sem_joined_def lines_ok_def counters_ok_def)
qed

lemma large_reach:
  "2 \<le> n \<Longrightarrow> (sem_step ^^ k) (sem_start n) s \<Longrightarrow> k \<le> 110"
  "2 \<le> n \<Longrightarrow> sem_step\<^sup>*\<^sup>* (sem_start n) s \<Longrightarrow> sem_inv s"
proof -
  assume "2 \<le> n"
  then obtain m where n: "n = Suc (Suc m)" by (metis add_2_eq_Suc le_Suc_ex)
  show "k \<le> 110" if "(sem_step ^^ k) (sem_start n) s"
    using sm.reach_length [of k m s] that by (simp add: n sem_weight_def sem_start_def)
  show "sem_inv s" if "sem_step\<^sup>*\<^sup>* (sem_start n) s" using sm.reach_inv [of m s] that by (simp add: n)
qed

section \<open>The program's own array\<close>

text \<open>With one element, the producer's first access ends the run.\<close>

definition one_cell :: "sem_state \<Rightarrow> bool" where
  "one_cell s \<longleftrightarrow> length (buff s) \<le> 1 \<and> put_lines s = [] \<and> get_lines s = [] \<and> get s = 0 \<and> customer_pc s = Wait \<and> customer_i s = 1
     \<and> producer_i s = 1 \<and> (producer_pc s = Wait \<and> put s = 1 \<and> \<not> faulted s \<or> producer_pc s = Use)"

definition cell_weight :: "sem_state \<Rightarrow> nat" where
  "cell_weight s = (if faulted s then 0 else if producer_pc s = Use then 1 else 2)"

lemma one_cell_step: "one_cell s \<Longrightarrow> sem_step s t \<Longrightarrow> one_cell t \<and> cell_weight t < cell_weight s"
  by (erule sem_stepE) (auto simp: one_cell_def cell_weight_def)

interpretation oc: ending_system sem_step "sem_start (Suc 0)" one_cell cell_weight
  by unfold_locales (simp add: one_cell_def sem_start_def, (drule (1) one_cell_step, simp)+)

lemma one_cell_stuck: "one_cell s \<Longrightarrow> (\<forall>t. \<not> sem_step s t) \<longleftrightarrow> faulted s"
  using sem_step.p_wait [of s 0] sem_step.p_overrun [of s] by (auto simp: one_cell_def elim: sem_stepE)

text \<open>C34: the program as it is, with an array of one element: every run stops after two steps, at the producer's first
  access, which is a write outside the array; no line has been printed. With an array that has the element the threads
  use, the two semaphores make them take turns: they never use it at the same time, the customer prints what the producer
  printed, at most one number behind, every run ends after at most 110 steps, and it ends with both threads joined and
  the numbers 1 to 10 printed in order by each.\<close>

theorem semaphore_turns:
  "(\<forall>k s. (sem_step ^^ k) (sem_start 1) s \<longrightarrow> k \<le> 2 \<and> put_lines s = [] \<and> get_lines s = [] \<and> ((\<forall>t. \<not> sem_step s t) \<longleftrightarrow> faulted s))
   \<and> (\<forall>n\<ge>2. (\<forall>k s. (sem_step ^^ k) (sem_start n) s \<longrightarrow> k \<le> 110)
     \<and> (\<forall>s. sem_step\<^sup>*\<^sup>* (sem_start n) s \<longrightarrow> \<not> faulted s
      \<and> \<not> (working (producer_pc s) \<and> working (customer_pc s))
      \<and> (put_lines s = get_lines s \<or> (\<exists>k. put_lines s = get_lines s @ [k]))
      \<and> ((\<forall>t. \<not> sem_step s t) \<longrightarrow> sem_joined s)
      \<and> (sem_joined s \<longrightarrow> put_lines s = [1..10] \<and> get_lines s = [1..10])))"
proof (rule conjI, intro allI impI)
  fix k s assume r: "(sem_step ^^ k) (sem_start 1) s"
  then have "sem_step\<^sup>*\<^sup>* (sem_start (Suc 0)) s" by (simp add: relpowp_imp_rtranclp)
  then have i: "one_cell s" by (rule oc.reach_inv)
  have "k \<le> cell_weight (sem_start (Suc 0))" by (rule oc.reach_length) (use r in simp)
  then have "k \<le> 2" by (simp add: cell_weight_def sem_start_def)
  moreover have "put_lines s = [] \<and> get_lines s = []" using i unfolding one_cell_def by blast
  ultimately show "k \<le> 2 \<and> put_lines s = [] \<and> get_lines s = [] \<and> ((\<forall>t. \<not> sem_step s t) \<longleftrightarrow> faulted s)"
    using one_cell_stuck [OF i] by blast
next
  show "\<forall>n\<ge>2. (\<forall>k s. (sem_step ^^ k) (sem_start n) s \<longrightarrow> k \<le> 110)
     \<and> (\<forall>s. sem_step\<^sup>*\<^sup>* (sem_start n) s \<longrightarrow> \<not> faulted s
      \<and> \<not> (working (producer_pc s) \<and> working (customer_pc s))
      \<and> (put_lines s = get_lines s \<or> (\<exists>k. put_lines s = get_lines s @ [k]))
      \<and> ((\<forall>t. \<not> sem_step s t) \<longrightarrow> sem_joined s)
      \<and> (sem_joined s \<longrightarrow> put_lines s = [1..10] \<and> get_lines s = [1..10]))"
    using large_reach sem_inv_turns by blast
qed

lemma semaphore_turns_witness:
  "(\<exists>s. sem_step\<^sup>*\<^sup>* (sem_start 1) s \<and> faulted s \<and> put_lines s = [])
    \<and> (\<exists>s. sem_step\<^sup>*\<^sup>* (sem_start 2) s \<and> get_lines s = [1..10])"
proof
  obtain s where s: "sem_step\<^sup>*\<^sup>* (sem_start 1) s" "one_cell s" "\<forall>u. \<not> sem_step s u"
    using oc.run_end [OF oc.init_inv] by auto
  obtain k where "(sem_step ^^ k) (sem_start 1) s" using rtranclp_imp_relpowp [OF s(1)] by blast
  then have "put_lines s = [] \<and> faulted s" using conjunct1 [OF semaphore_turns, rule_format, of k s] s(3) by blast
  then show "\<exists>s. sem_step\<^sup>*\<^sup>* (sem_start 1) s \<and> faulted s \<and> put_lines s = []" using s(1) by blast
  obtain t where t: "sem_step\<^sup>*\<^sup>* (sem_start (Suc (Suc 0))) t" "\<forall>u. \<not> sem_step t u"
    using sm.run_end [OF sm.init_inv [of 0]] by blast
  have "\<exists>s. sem_step\<^sup>*\<^sup>* (sem_start (Suc (Suc 0))) s \<and> get_lines s = [1..10]"
    using conjunct2 [OF semaphore_turns, rule_format, of "Suc (Suc 0)"] t by auto
  then show "\<exists>s. sem_step\<^sup>*\<^sup>* (sem_start 2) s \<and> get_lines s = [1..10]" by (simp add: eval_nat_numeral)
qed

end
