(* ===== verification/Ping.thy ===== *)
theory Ping
  imports Prelude "HOL-Library.Signed_Division"
begin

text \<open>
  The ICMP echo client \<^verbatim>\<open>src/ping_test/ping.c\<close>: checksum, packing and unpacking of packets on byte
  buffers, the loops of the sending and the receiving thread, the signal handler and the final report. What
  \<open>sendto\<close>, \<open>select\<close>, \<open>recv\<close> and \<open>gettimeofday\<close> answer is the sequence of events the threads see; one
  iteration of a loop is one event. The host is little-endian.
\<close>

section \<open>Checksum and time\<close>

text \<open>A 16-bit value in memory.\<close>

definition load16 :: "u8 list \<Rightarrow> nat \<Rightarrow> u16" where
  "load16 b k = ucast (b ! k) OR push_bit 8 (ucast (b ! Suc k))"

definition store16 :: "nat \<Rightarrow> u16 \<Rightarrow> u8 list \<Rightarrow> u8 list" where
  "store16 k v b = b[k := ucast v, Suc k := ucast (drop_bit 8 v)]"

text \<open>The two summing steps of \<open>cal_chksum\<close>: whole words, then a left-over byte.\<close>

fun sum_words :: "u8 list \<Rightarrow> int \<Rightarrow> int" where
  "sum_words (lo # hi # w) s = sum_words w (s + (uint lo + 256 * uint hi))"
| "sum_words [lo] s = s + uint lo"
| "sum_words [] s = s"

definition cal_chksum :: "u8 list \<Rightarrow> nat \<Rightarrow> u16 res" where
  "cal_chksum addr len =
     (if length addr < len then Inl OutOfBounds
      else let sum = sum_words (take len addr) 0;
             sum = drop_bit 16 sum + (sum AND 0xffff);
             sum = sum + drop_bit 16 sum
           in Inr (word_of_int (NOT sum)))"

record timeval =
  tv_sec :: int
  tv_usec :: int

definition cal_time_offset :: "timeval \<Rightarrow> timeval \<Rightarrow> timeval" where
  "cal_time_offset begin end =
     (let ans = \<lparr>tv_sec = tv_sec end - tv_sec begin, tv_usec = tv_usec end - tv_usec begin\<rparr>
      in if tv_usec ans < 0 then \<lparr>tv_sec = tv_sec ans - 1, tv_usec = tv_usec ans + 1000000\<rparr> else ans)"

section \<open>Packets\<close>

abbreviation PACKET_SEND_MAX_NUM :: nat where "PACKET_SEND_MAX_NUM \<equiv> 3"
abbreviation ICMP_ECHO :: u8 where "ICMP_ECHO \<equiv> 8"
abbreviation ICMP_ECHOREPLY :: u8 where "ICMP_ECHOREPLY \<equiv> 0"

text \<open>\<open>struct icmp\<close>: type, code, checksum (2), id (4), sequence number (6), data from 8 on.\<close>

fun fill_data :: "nat \<Rightarrow> nat \<Rightarrow> u8 list \<Rightarrow> u8 list" where
  "fill_data 0 i b = b"
| "fill_data (Suc n) i b = fill_data n (Suc i) (b[8 + i := of_nat i])"

definition icmp_pack :: "u8 list \<Rightarrow> int \<Rightarrow> nat \<Rightarrow> int \<Rightarrow> u8 list res" where
  "icmp_pack b seq n pid =
     (if length b < 8 + n then Inl OutOfBounds
      else let b = b[0 := ICMP_ECHO, 1 := 0];
             b = store16 2 0 b;
             b = store16 6 (word_of_int seq) b;
             b = store16 4 (word_of_int (pid AND 0xffff)) b;
             b = fill_data n 0 b
           in rbind (cal_chksum b n) (\<lambda>c. Inr (store16 2 c b)))"

record ping_packet_status =
  begin_time :: timeval
  end_time_of :: timeval
  flag :: int
  seq :: int

record ping =
  ping_packet :: "ping_packet_status list"
  alive_recv :: bool
  alive_send :: bool
  send_count :: int
  recv_count :: int
  ping_flag :: int
  pid :: int
  start_time :: timeval
  end_time :: timeval
  time_interval :: timeval
  replies :: "(int \<times> u16 \<times> u8 \<times> int) list"
  sent :: "u8 list list"
  report :: "(int \<times> int \<times> int \<times> int) list"

text \<open>\<open>now\<close> is what \<open>gettimeofday\<close> answers; \<open>replies\<close> holds the numbers of the line printed (length,
  sequence number, ttl, round-trip time).\<close>

definition icmp_unpack :: "u8 list \<Rightarrow> int \<Rightarrow> timeval \<Rightarrow> ping \<Rightarrow> (int \<times> ping) res" where
  "icmp_unpack buf len now st =
     (if buf = [] then Inl OutOfBounds
      else let hl = unat (buf ! 0 AND 0xf) * 4; len = len - int hl in
        if len < 8 then Inr (-1, st)
        else if length buf < hl + 8 then Inl OutOfBounds
        else if buf ! hl = ICMP_ECHOREPLY \<and> uint (load16 buf (hl + 4)) = pid st AND 0xffff then
          let sq = load16 buf (hl + 6) in
          if unat sq > PACKET_SEND_MAX_NUM then Inr (-1, st)
          else if length (ping_packet st) \<le> unat sq then Inl OutOfBounds
          else let p = ping_packet st ! unat sq;
                 off = cal_time_offset (begin_time p) now;
                 rtt = tv_sec off * 1000 + tv_usec off sdiv 1000
            in Inr (0, st\<lparr>ping_packet := (ping_packet st)[unat sq := p\<lparr>flag := 0\<rparr>],
                 replies := replies st @ [(len, sq, buf ! 8, rtt)]\<rparr>)
        else Inr (-1, st))"

section \<open>The threads\<close>

text \<open>An event is one iteration of a thread's loop with the answers it gets, or the signal \<open>SIGINT\<close>:
  \<open>Sent now size\<close> for \<open>ping_send\<close>; for \<open>ping_recv\<close>, \<open>select\<close> failing or timing out, or a packet with the
  size \<open>recv\<close> returns, the content of the buffer and two readings of the clock.\<close>

datatype ping_event =
    Sent timeval int
  | SelectFails
  | SelectTimeout
  | Packet int "u8 list" timeval timeval
  | Sigint timeval

text \<open>The local variables of the threads: whether the loop is still running, \<open>i\<close>, and the send buffer.\<close>

record ping_threads =
  sending :: bool
  send_i :: int
  send_buf :: "u8 list"
  receiving :: bool
  recv_i :: int

definition icmp_sigint :: "timeval \<Rightarrow> ping \<Rightarrow> ping" where
  "icmp_sigint now st = st\<lparr>alive_recv := False, alive_send := False, end_time := now,
     time_interval := cal_time_offset (start_time st) now\<rparr>"

definition ping_send :: "timeval \<Rightarrow> int \<Rightarrow> ping_threads \<Rightarrow> ping \<Rightarrow> (ping_threads \<times> ping) res" where
  "ping_send now sz th st =
     (let k = send_count st in
      if k < 0 \<or> int (length (ping_packet st)) \<le> k then Inl OutOfBounds
      else let st = st\<lparr>ping_packet := (ping_packet st)[nat k := (ping_packet st ! nat k)\<lparr>begin_time := now, flag := 1\<rparr>]\<rparr> in
        rbind (icmp_pack (send_buf th) k 64 (pid st)) (\<lambda>b.
        let th = th\<lparr>send_buf := b\<rparr>; st = st\<lparr>sent := sent st @ [take 64 b], send_count := k + 1\<rparr> in
        if send_count st \<ge> int PACKET_SEND_MAX_NUM then Inr (th\<lparr>sending := False\<rparr>, st\<lparr>alive_send := False\<rparr>)
        else if sz < 0 then
          (if send_i th \<ge> 3 then Inr (th\<lparr>send_i := send_i th + 1, sending := False\<rparr>, st\<lparr>ping_flag := -1\<rparr>)
           else Inr (th\<lparr>send_i := send_i th + 1\<rparr>, st))
        else Inr (th, st)))"

definition count_reply :: "timeval \<Rightarrow> ping_threads \<Rightarrow> ping \<Rightarrow> ping_threads \<times> ping" where
  "count_reply later th st =
     (let st = st\<lparr>recv_count := recv_count st + 1\<rparr> in
      if recv_count st \<ge> int PACKET_SEND_MAX_NUM then
        (th\<lparr>receiving := False\<rparr>, st\<lparr>alive_recv := False, end_time := later, time_interval := cal_time_offset (start_time st) later\<rparr>)
      else (th, st))"

definition ping_recv :: "int \<Rightarrow> u8 list \<Rightarrow> timeval \<Rightarrow> timeval \<Rightarrow> ping_threads \<Rightarrow> ping \<Rightarrow> (ping_threads \<times> ping) res" where
  "ping_recv sz buf now later th st =
     (if sz < 0 then Inr (th, st)
      else rbind (icmp_unpack buf sz now st) (\<lambda>(ret, st).
        if ret = -1 then
          (if recv_i th \<ge> 3 then Inr (count_reply later (th\<lparr>recv_i := recv_i th + 1\<rparr>) (st\<lparr>ping_flag := -1\<rparr>))
           else Inr (th\<lparr>recv_i := recv_i th + 1\<rparr>, st))
        else Inr (count_reply later th st)))"

definition ping_event :: "ping_event \<Rightarrow> ping_threads \<Rightarrow> ping \<Rightarrow> (ping_threads \<times> ping) res" where
  "ping_event e th st = (case e of
     Sigint now \<Rightarrow> Inr (th, icmp_sigint now st)
   | Sent now sz \<Rightarrow> if sending th \<and> alive_send st then ping_send now sz th st else Inr (th, st)
   | SelectFails \<Rightarrow> if receiving th \<and> alive_recv st then Inr (th\<lparr>receiving := False\<rparr>, st\<lparr>ping_flag := -1\<rparr>) else Inr (th, st)
   | SelectTimeout \<Rightarrow> if receiving th \<and> alive_recv st then Inr (th\<lparr>receiving := False\<rparr>, st\<lparr>ping_flag := -1\<rparr>) else Inr (th, st)
   | Packet sz buf now later \<Rightarrow> if receiving th \<and> alive_recv st then ping_recv sz buf now later th st else Inr (th, st))"

text \<open>Both threads until \<open>main\<close> has joined them; with events left out the threads are still waiting.\<close>

definition threads_ended :: "ping_threads \<Rightarrow> ping \<Rightarrow> bool" where
  "threads_ended th st \<longleftrightarrow> \<not> (sending th \<and> alive_send st) \<and> \<not> (receiving th \<and> alive_recv st)"

fun ping_run :: "ping_event list \<Rightarrow> ping_threads \<Rightarrow> ping \<Rightarrow> ping res" where
  "ping_run [] th st = (if threads_ended th st then Inr st else Inl NoFuel)"
| "ping_run (e # es) th st = (if threads_ended th st then Inr st else rbind (ping_event e th st) (\<lambda>(th, st). ping_run es th st))"

definition ping_stats_show :: "ping \<Rightarrow> ping res" where
  "ping_stats_show st =
     (let time = tv_sec (time_interval st) * 1000 + tv_usec (time_interval st) sdiv 1000 in
      if send_count st = 0 then Inl DivByZero
      else let tmp = ((send_count st - recv_count st) * 100) sdiv send_count st
        in Inr (st\<lparr>report := report st @ [(send_count st, recv_count st, tmp, time)], ping_flag := (if tmp = 0 then 0 else -1)\<rparr>))"

text \<open>What the calls before the threads answer: \<open>getprotobyname\<close>, \<open>socket\<close>, \<open>inet_addr\<close> and
  \<open>gethostbyname\<close>, the two \<open>pthread_create\<close>, \<open>getpid\<close>, the first reading of the clock.\<close>

record ping_env =
  proto_ok :: bool
  rawsock :: int
  is_address :: bool
  host_ok :: bool
  send_created :: bool
  recv_created :: bool
  getpid :: int
  first_time :: timeval

definition ping_test :: "ping_env \<Rightarrow> ping_event list \<Rightarrow> ping \<Rightarrow> (int \<times> ping) res" where
  "ping_test env evs st =
     (if \<not> proto_ok env then Inr (-1, st)
      else if rawsock env < 0 then Inr (-1, st)
      else let st = st\<lparr>pid := getpid env\<rparr> in
        if \<not> is_address env \<and> \<not> host_ok env then Inr (-1, st)
        else let st = st\<lparr>alive_recv := True, alive_send := True\<rparr> in
          if \<not> send_created env then Inr (-1, st)
          else if \<not> recv_created env then Inr (-1, st)
          else rbind (ping_run evs \<lparr>sending = True, send_i = 0, send_buf = replicate 128 0, receiving = True, recv_i = 0\<rparr>
              (st\<lparr>start_time := first_time env\<rparr>)) (\<lambda>st.
            rbind (ping_stats_show st) (\<lambda>st. Inr (ping_flag st, st))))"

text \<open>The static variables before the first call.\<close>

definition zero_time :: timeval where "zero_time = \<lparr>tv_sec = 0, tv_usec = 0\<rparr>"

definition ping_start :: ping where
  "ping_start = \<lparr>ping_packet = replicate PACKET_SEND_MAX_NUM \<lparr>begin_time = zero_time, end_time_of = zero_time, flag = 0, seq = 0\<rparr>,
     alive_recv = False, alive_send = False, send_count = 0, recv_count = 0, ping_flag = 0, pid = 0, start_time = zero_time,
     end_time = zero_time, time_interval = zero_time, replies = [], sent = [], report = []\<rparr>"

section \<open>The checksum\<close>

definition words16 :: "u8 list \<Rightarrow> int" where
  "words16 b = sum_words b 0"

lemma sum_words_acc: "sum_words b s = s + sum_words b 0"
proof (induction b arbitrary: s rule: induct_list012)
  case (3 lo hi w)
  show ?case using "3.IH"(1) [of "s + (uint lo + 256 * uint hi)"] "3.IH"(1) [of "uint lo + 256 * uint hi"] by simp
qed simp_all

lemma sum_words_Cons2: "sum_words (lo # hi # w) 0 = uint lo + 256 * uint hi + sum_words w 0"
  using sum_words_acc [of w "uint lo + 256 * uint hi"] by simp

lemma sum_words_append:
  "even (length a) \<Longrightarrow> sum_words (a @ b) 0 = sum_words a 0 + sum_words b 0"
  by (induction a rule: induct_list012) (simp_all add: sum_words_Cons2 del: sum_words.simps(1))

lemma sum_words_nonneg: "0 \<le> sum_words b 0"
  by (induction b rule: induct_list012) (simp_all add: sum_words_Cons2 del: sum_words.simps(1))

lemma sum_words_bound: "sum_words b 0 \<le> 65535 * (int (length b) div 2 + 1)"
proof (induction b rule: induct_list012)
  case (2 lo)
  have "uint lo < 256" using uint_bounded [of lo] by simp
  then show ?case by simp
next
  case (3 lo hi w)
  have "uint lo < 256" "uint hi < 256" using uint_bounded [of lo] uint_bounded [of hi] by simp_all
  then have "uint lo + 256 * uint hi \<le> 65535" by simp
  moreover have "(2 + int (length w)) div 2 = int (length w) div 2 + 1" by presburger
  ultimately show ?case using "3.IH"(1) by (simp add: sum_words_Cons2 del: sum_words.simps(1))
qed simp

text \<open>The end-around carry: what \<open>cal_chksum\<close> does to the sum before it complements it.\<close>

definition fold_sum :: "int \<Rightarrow> int" where
  "fold_sum n = (let s = drop_bit 16 n + (n AND 0xffff) in s + drop_bit 16 s)"

lemma fold_sum_div: "fold_sum n = (let s = n div 65536 + n mod 65536 in s + s div 65536)"
proof -
  have "n AND 0xffff = n mod 65536" for n :: int
    using take_bit_eq_mask [of 16 n] by (simp add: mask_eq_exp_minus_1 take_bit_eq_mod)
  then show ?thesis by (simp add: fold_sum_def drop_bit_eq_div Let_def)
qed

lemma fold_sum_mod:
  assumes "0 < n" "n < 2 ^ 31"
  shows "fold_sum n mod 65536 mod 65535 = n mod 65535 \<and> 0 < fold_sum n mod 65536"
proof -
  define q r where "q = n div 65536" and "r = n mod 65536"
  have n: "n = 65536 * q + r" by (simp add: q_def r_def)
  have r: "0 \<le> r" "r < 65536" by (simp_all add: r_def)
  have q: "0 \<le> q" using assms(1) by (simp add: q_def)
  have "n < 2147483648" using assms(2) by simp
  then have "q < 32768" using n r by linarith
  moreover have "0 < q + r" using n r q assms(1) by linarith
  ultimately have b: "q < 32768" "0 < q + r" .
  have f: "fold_sum n = q + r + (q + r) div 65536" by (simp add: fold_sum_div q_def r_def Let_def)
  have m: "n mod 65535 = (q + r) mod 65535"
  proof -
    have "n = 65535 * q + (q + r)" using n by simp
    then show ?thesis by (metis mod_mult_self4)
  qed
  show ?thesis
  proof (cases "q + r < 65536")
    case True
    then show ?thesis using f m b r q by simp
  next
    case False
    have "(q + r) div 65536 = 1" by (rule div_pos_geq [THEN trans]) (use False b r in auto)
    then have "fold_sum n = q + r - 65535 + 65536" using f by simp
    moreover have "(q + r - 65535) mod 65536 = q + r - 65535" by (rule mod_pos_pos_trivial) (use False b r in auto)
    ultimately have g: "fold_sum n mod 65536 = q + r - 65535" by (simp only: mod_add_self2)
    show ?thesis unfolding g m using False by (simp add: minus_mod_self2)
  qed
qed

lemma cal_chksum_fold:
  "len \<le> length b \<Longrightarrow> cal_chksum b len = Inr (word_of_int (NOT (fold_sum (sum_words (take len b) 0))))"
  by (simp add: cal_chksum_def fold_sum_def Let_def)

lemma uint_complement: "uint (word_of_int (NOT x) :: u16) = 65535 - x mod 65536"
proof -
  have "uint (word_of_int (NOT x) :: u16) = (- x - 1) mod 65536"
    unfolding not_eq_complement uint_word_of_int by simp
  also have "\<dots> = (65535 - x mod 65536) mod 65536"
  proof -
    have "- x - 1 = 65535 - x mod 65536 + 65536 * (- (x div 65536) - 1)"
      using mult_div_mod_eq [of 65536 x] by (simp add: algebra_simps)
    then show ?thesis by (simp only: mod_mult_self2)
  qed
  also have "\<dots> = 65535 - x mod 65536" by (rule mod_pos_pos_trivial) auto
  finally show ?thesis .
qed

lemma all_ones: "0 < (k :: int) \<Longrightarrow> k < 65536 \<Longrightarrow> k mod 65535 = 0 \<Longrightarrow> k = 65535"
  by (cases "k < 65535") auto

text \<open>A block whose complemented sum is added to it sums up to all ones.\<close>

lemma fold_sum_complement:
  assumes "0 < s" "s < 2 ^ 30"
  shows "fold_sum (s + uint (word_of_int (NOT (fold_sum s)) :: u16)) mod 65536 = 65535"
proof -
  let ?c = "uint (word_of_int (NOT (fold_sum s)) :: u16)"
  have c: "?c = 65535 - fold_sum s mod 65536" by (rule uint_complement)
  have f: "fold_sum s mod 65536 mod 65535 = s mod 65535" using fold_sum_mod assms by simp
  have "0 \<le> ?c" by (rule uint_ge_0)
  moreover have "?c < 65536" using c pos_mod_sign [of 65536 "fold_sum s"] by simp
  moreover have "s < 1073741824" using assms(2) by simp
  ultimately have "0 < s + ?c" "s + ?c < 2147483648" using assms(1) by linarith+
  then have g: "fold_sum (s + ?c) mod 65536 mod 65535 = (s + ?c) mod 65535" "0 < fold_sum (s + ?c) mod 65536"
    using fold_sum_mod by auto
  have "(s - fold_sum s mod 65536) mod 65535 = 0" 
    using f [symmetric, unfolded mod_eq_dvd_iff] by (rule dvd_imp_mod_0)
  moreover have "s + ?c = s - fold_sum s mod 65536 + 65535" using c by linarith
  ultimately have z: "fold_sum (s + ?c) mod 65536 mod 65535 = 0" using g(1) by (simp only: mod_add_self2)
  have l: "fold_sum (s + ?c) mod 65536 < 65536" by (rule pos_mod_bound) simp
  show ?thesis by (rule all_ones [OF g(2) l z])
qed

lemma uint_split16: "uint (ucast (v :: u16) :: u8) + 256 * uint (ucast (drop_bit 8 v) :: u8) = uint v"
proof -
  have "uint v < 65536" using uint_bounded [of v] by simp
  moreover have "uint (ucast v :: u8) = uint v mod 256" by (simp add: unsigned_ucast_eq take_bit_eq_mod)
  moreover have "uint (ucast (drop_bit 8 v) :: u8) = uint v div 256 mod 256"
  proof -
    show ?thesis by (simp add: unsigned_ucast_eq take_bit_eq_mod drop_bit_eq_div uint_div)
  qed
  moreover have "uint v div 256 mod 256 = uint v div 256"
    by (rule mod_pos_pos_trivial) (use calculation(1) in \<open>auto simp: pos_imp_zdiv_nonneg_iff\<close>)
  ultimately show ?thesis by (simp add: mult_div_mod_eq) 
qed

lemma chksum_of_stored:
  assumes n: "4 \<le> n" "n \<le> length b" "n \<le> 16000" and z: "b ! 2 = 0" "b ! 3 = 0"
    and pos: "0 < sum_words (take n b) 0" and c: "cal_chksum b n = Inr c"
  shows "cal_chksum (store16 2 c b) n = Inr 0"
proof -
  have "4 \<le> length b" using n by simp
  then obtain a0 a1 a2 a3 r where b: "b = a0 # a1 # a2 # a3 # r" by (auto simp: numeral_eq_Suc Suc_le_length_iff)
  obtain m where "n = 4 + m" using n(1) le_Suc_ex by blast
  then have m: "n = Suc (Suc (Suc (Suc m)))" by simp
  have bb: "b = a0 # a1 # 0 # 0 # r" using z b by simp
  let ?s = "sum_words (take n b) 0"
  have cc: "c = word_of_int (NOT (fold_sum ?s))" using c cal_chksum_fold [OF n(2)] by simp
  have "?s \<le> 65535 * (int n div 2 + 1)" using sum_words_bound [of "take n b"] n(2) by simp
  moreover have "int n div 2 \<le> 8000" using n(3) by simp
  ultimately have s: "?s < 2 ^ 30" by simp
  have "sum_words (take n (store16 2 c b)) 0 = ?s + uint c"
    unfolding bb m store16_def using uint_split16 [of c]
    by (simp add: numeral_3_eq_3 [symmetric] sum_words_Cons2 numeral_2_eq_2 del: sum_words.simps(1))
  then have "cal_chksum (store16 2 c b) n = Inr (word_of_int (NOT (fold_sum (?s + uint c))))"
    using cal_chksum_fold [of n "store16 2 c b"] n(2) by (simp add: store16_def)
  moreover have "uint (word_of_int (NOT (fold_sum (?s + uint c))) :: u16) = 0"
    using uint_complement fold_sum_complement [OF pos s] unfolding cc by simp
  then have "(word_of_int (NOT (fold_sum (?s + uint c))) :: u16) = 0" by (simp only: uint_0_iff)
  ultimately show ?thesis by simp
qed

section \<open>A packet and its echo\<close>

lemma length_store16 [simp]: "length (store16 k v b) = length b"
  by (simp add: store16_def)

lemma nth_store16: "Suc k < length b \<Longrightarrow> store16 k v b ! j = (if j = Suc k then ucast (drop_bit 8 v) else if j = k then ucast v else b ! j)"
  by (simp add: store16_def nth_list_update)

lemma bytes_of_word: "ucast (ucast (v :: u16) :: u8) OR push_bit 8 (ucast (ucast (drop_bit 8 v) :: u8)) = v"
  by (rule bit_word_eqI) (auto simp: bit_simps)

lemma load16_store16:
  "Suc k < length b \<Longrightarrow> load16 (store16 k v b) j = (if j = k then v else if j = Suc k \<or> Suc j = k then load16 (store16 k v b) j else load16 b j)"
  using bytes_of_word [of v] by (auto simp: load16_def nth_store16)

lemma fill_data_nth:
  "8 + i + n \<le> length b \<Longrightarrow> length (fill_data n i b) = length b
    \<and> (\<forall>j. fill_data n i b ! j = (if 8 + i \<le> j \<and> j < 8 + i + n then of_nat (j - 8) else b ! j))"
proof (induction n arbitrary: i b)
  case (Suc n)
  have "fill_data n (Suc i) (b[8 + i := of_nat i]) ! j = (if 8 + i \<le> j \<and> j < 8 + i + Suc n then of_nat (j - 8) else b ! j)" for j
    using Suc.IH [of "Suc i" "b[8 + i := of_nat i]"] Suc.prems by (auto simp: nth_list_update not_less_eq_eq)
  moreover have "length (fill_data n (Suc i) (b[8 + i := of_nat i])) = length b"
    using Suc.IH [of "Suc i" "b[8 + i := of_nat i]"] Suc.prems by simp
  ultimately show ?case by simp
qed auto

lemma load16_fill_data: "8 + n \<le> length b \<Longrightarrow> k \<le> 6 \<Longrightarrow> load16 (fill_data n 0 b) k = load16 b k"
  using fill_data_nth [of 0 n b] by (simp add: load16_def)

lemma sum_first: "take n b = x # w \<Longrightarrow> x \<noteq> 0 \<Longrightarrow> 0 < sum_words (take n b) 0"
proof -
  assume w: "take n b = x # w" "x \<noteq> 0"
  have "uint x \<noteq> 0" using w(2) by (simp only: uint_0_iff not_False_eq_True)
  then have "0 < uint x" using uint_ge_0 [of x] by linarith
  moreover have "uint x \<le> sum_words (x # w) 0"
    by (cases w) (use sum_words_nonneg in \<open>simp_all add: sum_words_Cons2 del: sum_words.simps(1)\<close>)
  ultimately show ?thesis using w(1) by simp
qed

lemma icmp_pack_result:
  assumes "8 \<le> n" "8 + n \<le> length b" "n \<le> 16000"
  shows "\<exists>p. icmp_pack b sq n id0 = Inr p \<and> length p = length b \<and> cal_chksum p n = Inr 0 \<and> p ! 0 = ICMP_ECHO \<and> p ! 1 = 0
    \<and> load16 p 4 = word_of_int (id0 AND 0xffff) \<and> load16 p 6 = word_of_int sq \<and> (\<forall>k<n. p ! (8 + k) = of_nat k)"
proof -
  let ?h = "store16 4 (word_of_int (id0 AND 0xffff)) (store16 6 (word_of_int sq) (store16 2 0 (b[0 := ICMP_ECHO, 1 := 0])))"
  let ?f = "fill_data n 0 ?h"
  have f: "length ?f = length b" "?f ! j = (if 8 \<le> j \<and> j < 8 + n then of_nat (j - 8) else ?h ! j)" for j
    using fill_data_nth [of 0 n ?h] assms by auto
  have "b \<noteq> []" using assms by auto
  then have z: "?f ! 0 = ICMP_ECHO" "?f ! 1 = 0" "?f ! 2 = 0" "?f ! 3 = 0" using f(2) assms by (simp_all add: nth_store16)
  have l: "load16 ?f 4 = word_of_int (id0 AND 0xffff)" "load16 ?f 6 = word_of_int sq"
    using assms by (simp_all add: load16_fill_data load16_store16)
  obtain x w where xw: "take n ?f = x # w" using assms f(1) by (cases "take n ?f") auto
  have "x = take n ?f ! 0" using xw by (simp only: nth_Cons_0)
  also have "\<dots> = ?f ! 0" by (rule nth_take) (use assms(1) in simp)
  finally have pos: "0 < sum_words (take n ?f) 0" using sum_first [OF xw] z(1) by simp
  have "n \<le> length ?f" using f(1) assms(2) by simp
  from cal_chksum_fold [OF this] obtain c where c: "cal_chksum ?f n = Inr c" by blast
  have "cal_chksum (store16 2 c ?f) n = Inr 0"
    by (rule chksum_of_stored [OF _ _ assms(3) z(3,4) pos c]) (use assms f(1) in auto)
  moreover have "icmp_pack b sq n id0 = Inr (store16 2 c ?f)" using assms c by (simp add: icmp_pack_def Let_def)
  ultimately show ?thesis
    using assms f(1) z l f(2) by (intro exI [of _ "store16 2 c ?f"]) (simp add: nth_store16 load16_store16)
qed

text \<open>C22: packing a packet of \<open>n\<close> bytes always works, and the checksum stored in it makes the checksum of the
  whole packet 0, which is what a receiver tests. The echo, the same packet with type 0 behind an IP header
  of any length, is accepted by \<open>icmp_unpack\<close>: the slot of its sequence number is marked as answered, and the
  line printed has its length, its sequence number, the time to live of the header and the round-trip time.\<close>

theorem ping_echo_roundtrip:
  assumes n: "8 \<le> n" "8 + n \<le> length b" "n \<le> 16000" and sq: "0 \<le> sq" "sq < 3"
    and hdr: "length hdr = unat (hdr ! 0 AND 0xf) * 4" "8 < length hdr" and st: "length (ping_packet st) = 3"
  shows "\<exists>p. icmp_pack b sq n (pid st) = Inr p \<and> cal_chksum p n = Inr 0
    \<and> icmp_unpack (hdr @ ICMP_ECHOREPLY # take (n - 1) (drop 1 p)) (int (length hdr + n)) now st =
        (let old = ping_packet st ! nat sq; off = cal_time_offset (begin_time old) now in
         Inr (0, st\<lparr>ping_packet := (ping_packet st)[nat sq := old\<lparr>flag := 0\<rparr>],
           replies := replies st @ [(int n, word_of_int sq, hdr ! 8, tv_sec off * 1000 + tv_usec off sdiv 1000)]\<rparr>))"
proof -
  obtain p where p: "icmp_pack b sq n (pid st) = Inr p" "length p = length b" "cal_chksum p n = Inr 0"
    "load16 p 4 = word_of_int (pid st AND 0xffff)" "load16 p 6 = word_of_int sq"
    using icmp_pack_result [OF n] by blast
  let ?buf = "hdr @ ICMP_ECHOREPLY # take (n - 1) (drop 1 p)" and ?hl = "length hdr"
  have nth: "?buf ! (?hl + k) = p ! k" if "1 \<le> k" "k < n" for k
    using that n p(2) by (cases k) (simp_all add: nth_append)
  have len: "length ?buf = ?hl + n" using n p(2) by simp
  have "load16 ?buf (?hl + 4) = load16 p 4" "load16 ?buf (?hl + 6) = load16 p 6"
    unfolding load16_def add_Suc_right [symmetric] using nth [of 4] nth [of "Suc 4"] nth [of 6] nth [of "Suc 6"] n(1) by (simp_all del: nth_append_length_plus)
  moreover have "uint (word_of_int (pid st AND 0xffff) :: u16) = pid st AND 0xffff"
    using take_bit_eq_mask [of 16 "pid st"] by (simp add: uint_word_of_int mask_eq_exp_minus_1 take_bit_eq_mod)
  moreover have "unat (word_of_int sq :: u16) = nat sq" using sq by (simp add: unat_eq_nat_uint uint_word_of_int)
  ultimately have h: "uint (load16 ?buf (?hl + 4)) = pid st AND 0xffff" "unat (load16 ?buf (?hl + 6)) = nat sq"
    "load16 ?buf (?hl + 6) = word_of_int sq" using p(4,5) by simp_all
  have z: "?buf ! 0 = hdr ! 0" "?buf ! 8 = hdr ! 8" "?buf ! ?hl = ICMP_ECHOREPLY" using hdr(2) by (auto simp: nth_append)
  have q: "nat sq \<noteq> 3" "\<not> 3 < nat sq" using sq by auto
  have "icmp_unpack ?buf (int (?hl + n)) now st =
        (let old = ping_packet st ! nat sq; off = cal_time_offset (begin_time old) now in
         Inr (0, st\<lparr>ping_packet := (ping_packet st)[nat sq := old\<lparr>flag := 0\<rparr>],
           replies := replies st @ [(int n, word_of_int sq, hdr ! 8, tv_sec off * 1000 + tv_usec off sdiv 1000)]\<rparr>))"
    unfolding icmp_unpack_def z(1) hdr(1) [symmetric] using hdr(2) n(1) sq st len h z(2,3) q by (simp add: Let_def)
  then show ?thesis using p(1,3) by blast
qed

lemma ping_echo_roundtrip_witness:
  "\<exists>p. icmp_pack (replicate 128 0) 1 64 0 = Inr p \<and> cal_chksum p 64 = Inr 0
    \<and> (\<exists>st. icmp_unpack ((0x45 # replicate 19 0) @ ICMP_ECHOREPLY # take 63 (drop 1 p)) 84 zero_time ping_start = Inr (0, st))"
proof -
  have "64 \<ge> (8 :: nat)" "length (0x45 # replicate 19 (0 :: u8)) = unat ((0x45 # replicate 19 (0 :: u8)) ! 0 AND 0xf) * 4"
    "length (ping_packet ping_start) = 3" by (simp_all add: ping_start_def)
  then show ?thesis
    using ping_echo_roundtrip [of 64 "replicate 128 0" 1 "0x45 # replicate 19 0" ping_start zero_time]
    by (auto simp: ping_start_def Let_def)
qed

section \<open>The outcome of the test\<close>

text \<open>What holds at the loop heads of the two threads.\<close>

definition ping_inv :: "ping_threads \<Rightarrow> ping \<Rightarrow> bool" where
  "ping_inv th st \<longleftrightarrow> length (ping_packet st) = 3 \<and> length (send_buf th) = 128
     \<and> 0 \<le> send_count st \<and> send_count st \<le> 3 \<and> (sending th \<and> alive_send st \<longrightarrow> send_count st < 3)
     \<and> 0 \<le> recv_count st \<and> recv_count st \<le> 3 \<and> (receiving th \<and> alive_recv st \<longrightarrow> recv_count st < 3)
     \<and> send_i th \<le> send_count st"

text \<open>\<open>recv\<close> fills a buffer of 512 bytes; the only sequence number that takes \<open>icmp_unpack\<close> out of the
  table is 3.\<close>

definition reply_seq :: "u8 list \<Rightarrow> nat" where
  "reply_seq buf = unat (load16 buf (unat (buf ! 0 AND 0xf) * 4 + 6))"

definition event_ok :: "ping_event \<Rightarrow> bool" where
  "event_ok e = (case e of Packet sz buf now later \<Rightarrow> length buf = 512 | _ \<Rightarrow> True)"

definition is_sigint :: "ping_event \<Rightarrow> bool" where
  "is_sigint e = (case e of Sigint now \<Rightarrow> True | _ \<Rightarrow> False)"

definition seq_three :: "ping_event \<Rightarrow> bool" where
  "seq_three e = (case e of Packet sz buf now later \<Rightarrow> reply_seq buf = 3 | _ \<Rightarrow> False)"

lemma header_length: "unat ((x :: u8) AND 0xf) * 4 \<le> 60"
proof -
  have "unat (x AND 0xf) \<le> unat (0xf :: u8)" by (rule word_le_nat_alt [THEN iffD1]) (rule word_and_le1)
  then show ?thesis by simp
qed

lemma icmp_unpack_cases:
  assumes "length buf = 512" "length (ping_packet st) = 3"
  shows "(icmp_unpack buf sz now st = Inl OutOfBounds \<and> reply_seq buf = 3) \<or> icmp_unpack buf sz now st = Inr (-1, st)
    \<or> (\<exists>pp rs. icmp_unpack buf sz now st = Inr (0, st\<lparr>ping_packet := pp, replies := rs\<rparr>) \<and> length pp = 3)"
  using assms header_length [of "buf ! 0"]
  by (auto simp: icmp_unpack_def Let_def reply_seq_def split: if_splits)

lemma icmp_pack_64: "length b = 128 \<Longrightarrow> \<exists>p. icmp_pack b k 64 id0 = Inr p \<and> length p = 128"
  using icmp_pack_result [of 64 b k id0] by auto

lemma count_reply_inv:
  assumes "ping_inv th st" "recv_count st < 3"
  shows "case count_reply later th st of (th', st') \<Rightarrow> ping_inv th' st'"
  using assms by (auto simp: ping_inv_def count_reply_def Let_def)

lemma ping_recv_step:
  assumes i: "ping_inv th st" "recv_count st < 3" and b: "length buf = 512"
  shows "(ping_recv sz buf now later th st = Inl OutOfBounds \<and> reply_seq buf = 3)
    \<or> (\<exists>th' st'. ping_recv sz buf now later th st = Inr (th', st') \<and> ping_inv th' st')"
proof -
  have l: "length (ping_packet st) = 3" using i by (simp add: ping_inv_def)
  have j: "ping_inv (th\<lparr>recv_i := k\<rparr>) (st\<lparr>ping_flag := f\<rparr>)" "ping_inv (th\<lparr>recv_i := k\<rparr>) st" for k f
    using i(1) by (simp_all add: ping_inv_def)
  have c: "\<exists>th' st'. count_reply later th1 st1 = (th', st') \<and> ping_inv th' st'" if "ping_inv th1 st1" "recv_count st1 < 3" for th1 st1
    using count_reply_inv [OF that, of later] by (auto split: prod.splits)
  from icmp_unpack_cases [OF b l, of sz now] show ?thesis
  proof (elim disjE exE conjE)
    assume "icmp_unpack buf sz now st = Inl OutOfBounds" "reply_seq buf = 3"
    then show ?thesis using i(1) by (auto simp: ping_recv_def)
  next
    assume "icmp_unpack buf sz now st = Inr (- 1, st)"
    then show ?thesis using i j c [OF j(1)] by (auto simp: ping_recv_def)
  next
    fix pp rs assume u: "icmp_unpack buf sz now st = Inr (0, st\<lparr>ping_packet := pp, replies := rs\<rparr>)" "length pp = 3"
    have "ping_inv th (st\<lparr>ping_packet := pp, replies := rs\<rparr>)" using i(1) u(2) by (simp add: ping_inv_def)
    then show ?thesis using u i c by (auto simp: ping_recv_def)
  qed
qed

lemma ping_send_step:
  assumes i: "ping_inv th st" "sending th" "alive_send st"
  shows "\<exists>th' st'. ping_send now sz th st = Inr (th', st') \<and> ping_inv th' st' \<and> (alive_send st' \<or> send_count st' = 3)
    \<and> (sending th' \<or> send_count st' = 3)"
proof -
  have k: "0 \<le> send_count st" "send_count st < 3" "length (ping_packet st) = 3" "length (send_buf th) = 128" "send_i th \<le> send_count st"
    using i by (simp_all add: ping_inv_def)
  obtain p where "icmp_pack (send_buf th) (send_count st) 64 (pid st) = Inr p" "length p = 128" using icmp_pack_64 [OF k(4)] by blast
  then show ?thesis using i k by (auto simp: ping_send_def ping_inv_def Let_def)
qed

definition all_sent :: "ping_threads \<Rightarrow> ping \<Rightarrow> bool" where
  "all_sent th st \<longleftrightarrow> (sending th \<and> alive_send st) \<or> send_count st = 3"

lemma ping_event_step:
  assumes "ping_inv th st" "event_ok e"
  shows "(ping_event e th st = Inl OutOfBounds \<and> seq_three e)
    \<or> (\<exists>th' st'. ping_event e th st = Inr (th', st') \<and> ping_inv th' st' \<and> (all_sent th st \<and> \<not> is_sigint e \<longrightarrow> all_sent th' st'))"
proof (cases e)
  case (Sent now sz)
  then show ?thesis using assms ping_send_step [of th st now sz] by (auto simp: ping_event_def all_sent_def)
next
  case (Packet sz buf now later)
  show ?thesis
  proof (cases "receiving th \<and> alive_recv st")
    case True
    then have "recv_count st < 3" "length buf = 512" using assms Packet by (auto simp: ping_inv_def event_ok_def)
    moreover have "all_sent th' st'" if "all_sent th st" "ping_recv sz buf now later th st = Inr (th', st')" for th' st'
      using that by (auto simp: ping_recv_def count_reply_def icmp_unpack_def all_sent_def Let_def split: if_splits)
    ultimately show ?thesis using ping_recv_step [OF assms(1), of buf sz now later] True Packet
      by (auto simp: ping_event_def seq_three_def)
  qed (use assms Packet in \<open>auto simp: ping_event_def\<close>)
qed (use assms in \<open>auto simp: ping_event_def ping_inv_def icmp_sigint_def is_sigint_def all_sent_def\<close>)

lemma ping_run_outcome:
  assumes "ping_inv th st" "\<forall>e\<in>set evs. event_ok e"
  shows "case ping_run evs th st of
      Inr st' \<Rightarrow> 0 \<le> send_count st' \<and> send_count st' \<le> 3 \<and> 0 \<le> recv_count st' \<and> recv_count st' \<le> 3
        \<and> (all_sent th st \<and> (\<forall>e\<in>set evs. \<not> is_sigint e) \<longrightarrow> send_count st' = 3)
    | Inl f \<Rightarrow> f = NoFuel \<or> (f = OutOfBounds \<and> (\<exists>e\<in>set evs. seq_three e))"
  using assms
proof (induction evs arbitrary: th st)
  case Nil
  then show ?case by (auto simp: threads_ended_def ping_inv_def all_sent_def)
next
  case (Cons e es)
  show ?case
  proof (cases "threads_ended th st")
    case True
    then show ?thesis using Cons.prems by (auto simp: threads_ended_def ping_inv_def all_sent_def)
  next
    case False
    from Cons.prems have "event_ok e" by simp
    from ping_event_step [OF Cons.prems(1) this] show ?thesis
    proof (elim disjE exE conjE)
      assume "ping_event e th st = Inl OutOfBounds" "seq_three e"
      then show ?thesis using False by simp
    next
      fix th' st' assume s: "ping_event e th st = Inr (th', st')" "ping_inv th' st'"
        "all_sent th st \<and> \<not> is_sigint e \<longrightarrow> all_sent th' st'"
      have "\<forall>e\<in>set es. event_ok e" using Cons.prems(2) by simp
      from Cons.IH [OF s(2) this] show ?thesis using False s(1,3) by (auto split: sum.splits)
    qed
  qed
qed

lemma no_loss: "0 < s \<Longrightarrow> s \<le> 3 \<Longrightarrow> 0 \<le> r \<Longrightarrow> r \<le> 3 \<Longrightarrow> ((s - r) * 100) sdiv s = 0 \<longleftrightarrow> r = (s :: int)"
proof -
  assume a: "0 < s" "s \<le> 3" "0 \<le> r" "r \<le> 3"
  then have "s \<in> {1, 2, 3}" "r \<in> {0, 1, 2, 3}" by auto
  then show ?thesis by (auto simp: signed_divide_int_def sgn_if)
qed

text \<open>A packet that is not an echo of ours, such as an echo request.\<close>

definition foreign_buf :: "u8 list" where
  "foreign_buf = 0x45 # replicate 19 0 @ 8 # replicate 491 0"

lemma foreign_unpack: "icmp_unpack foreign_buf 84 now st = Inr (-1, st)"
  by (simp add: icmp_unpack_def foreign_buf_def nth_append)

lemma send_event:
  assumes "ping_inv th st" "sending th" "alive_send st" "receiving th" "alive_recv st"
  shows "\<exists>th' st'. ping_run (Sent now 64 # es) th st = ping_run es th' st' \<and> ping_inv th' st' \<and> send_count st' = send_count st + 1
    \<and> (send_count st < 2 \<longrightarrow> sending th' \<and> alive_send st') \<and> receiving th' \<and> alive_recv st'
    \<and> recv_i th' = recv_i th \<and> recv_count st' = recv_count st \<and> replies st' = replies st"
proof -
  have k: "0 \<le> send_count st" "send_count st < 3" "length (ping_packet st) = 3" "length (send_buf th) = 128" "send_i th \<le> send_count st"
    using assms by (simp_all add: ping_inv_def)
  obtain p where "icmp_pack (send_buf th) (send_count st) 64 (pid st) = Inr p" "length p = 128" using icmp_pack_64 [OF k(4)] by blast
  then have "\<exists>th' st'. ping_event (Sent now 64) th st = Inr (th', st') \<and> ping_inv th' st' \<and> send_count st' = send_count st + 1
    \<and> (send_count st < 2 \<longrightarrow> sending th' \<and> alive_send st') \<and> receiving th' \<and> alive_recv st'
    \<and> recv_i th' = recv_i th \<and> recv_count st' = recv_count st \<and> replies st' = replies st"
    using assms k by (auto simp: ping_event_def ping_send_def ping_inv_def Let_def)
  moreover have "ping_run (Sent now 64 # es) th st = ping_run es th' st'" if "ping_event (Sent now 64) th st = Inr (th', st')" for th' st'
    using that assms(2,3) by (simp add: threads_ended_def)
  ultimately show ?thesis by metis
qed

lemma foreign_run:
  assumes "receiving th" "alive_recv st" "recv_i th = 0" "recv_count st = 0" "\<not> (sending th \<and> alive_send st)"
  shows "\<exists>st'. ping_run (replicate 6 (Packet 84 foreign_buf now later)) th st = Inr st' \<and> recv_count st' = 3 \<and> send_count st' = send_count st
    \<and> replies st' = replies st"
  using assms by (simp add: numeral_eq_Suc threads_ended_def ping_event_def ping_recv_def count_reply_def foreign_unpack Let_def)

text \<open>Three requests sent, then six packets of another program on the host: the test succeeds without one reply.\<close>

lemma foreign_test:
  assumes env: "proto_ok env" "0 \<le> rawsock env" "is_address env \<or> host_ok env" "send_created env" "recv_created env"
  shows "\<exists>st. ping_test env (replicate 3 (Sent zero_time 64) @ replicate 6 (Packet 84 foreign_buf zero_time zero_time)) ping_start = Inr (0, st)
          \<and> replies st = []"
proof -
  let ?th = "\<lparr>sending = True, send_i = 0, send_buf = replicate 128 0, receiving = True, recv_i = 0\<rparr>"
  let ?st = "ping_start\<lparr>pid := getpid env, alive_recv := True, alive_send := True, start_time := first_time env\<rparr>"
  let ?s = "Sent zero_time 64" and ?p = "replicate 6 (Packet 84 foreign_buf zero_time zero_time)"
  have "ping_inv ?th ?st" by (simp add: ping_inv_def ping_start_def)
  from send_event [OF this, of zero_time "[?s, ?s] @ ?p"]
  obtain th1 st1 where 1: "ping_run (?s # [?s, ?s] @ ?p) ?th ?st = ping_run ([?s, ?s] @ ?p) th1 st1" "ping_inv th1 st1" "send_count st1 = 1"
    "sending th1" "alive_send st1" "receiving th1" "alive_recv st1" "recv_i th1 = 0" "recv_count st1 = 0" "replies st1 = []"
    by (auto simp: ping_start_def)
  from send_event [OF 1(2), of zero_time "[?s] @ ?p"] 1
  obtain th2 st2 where 2: "ping_run (?s # [?s] @ ?p) th1 st1 = ping_run ([?s] @ ?p) th2 st2" "ping_inv th2 st2" "send_count st2 = 2"
    "sending th2" "alive_send st2" "receiving th2" "alive_recv st2" "recv_i th2 = 0" "recv_count st2 = 0" "replies st2 = []"
    by auto
  from send_event [OF 2(2), of zero_time ?p] 2
  obtain th3 st3 where 3: "ping_run (?s # ?p) th2 st2 = ping_run ?p th3 st3" "ping_inv th3 st3" "send_count st3 = 3"
    "receiving th3" "alive_recv st3" "recv_i th3 = 0" "recv_count st3 = 0" "replies st3 = []"
    by auto
  have "\<not> (sending th3 \<and> alive_send st3)" using 3(2,3) by (auto simp: ping_inv_def)
  from foreign_run [OF 3(4-7) this]
  obtain st4 where 4: "ping_run ?p th3 st3 = Inr st4" "recv_count st4 = 3" "send_count st4 = 3" "replies st4 = []"
    using 3(3,8) by metis
  have "replicate 3 ?s @ ?p = ?s # [?s, ?s] @ ?p" by (simp add: numeral_3_eq_3)
  then have "ping_run (replicate 3 ?s @ ?p) ?th ?st = Inr st4" using 1(1) 2(1) 3(1) 4(1) by simp
  then have "ping_test env (replicate 3 ?s @ ?p) ping_start = rbind (ping_stats_show st4) (\<lambda>st. Inr (ping_flag st, st))"
    using env by (auto simp: ping_test_def Let_def)
  then show ?thesis
    using 4(2-4) by (simp add: ping_stats_show_def Let_def)
qed

text \<open>The outcome of the test, for any answers of the network. When the threads end, at most three packets
  have been sent and at most three counted as received, all three have been sent unless \<open>SIGINT\<close> came, and
  the result is 0 exactly if as many were counted as sent; a \<open>SIGINT\<close> before the first packet divides by
  zero. The only access outside the table of packets is for an answer with sequence number 3, which passes the
  range test. But the count is not one of answers: after three foreign packets every further one is counted, so
  that six of them make the test succeed.\<close>

theorem ping_test_outcome:
  assumes env: "proto_ok env" "0 \<le> rawsock env" "is_address env \<or> host_ok env" "send_created env" "recv_created env"
  shows "(\<forall>evs. (\<forall>e\<in>set evs. event_ok e) \<longrightarrow>
      (case ping_test env evs ping_start of
         Inr (r, st) \<Rightarrow> 0 < send_count st \<and> send_count st \<le> 3 \<and> 0 \<le> recv_count st \<and> recv_count st \<le> 3
           \<and> r = (if recv_count st = send_count st then 0 else -1)
           \<and> ((\<forall>e\<in>set evs. \<not> is_sigint e) \<longrightarrow> send_count st = 3)
       | Inl f \<Rightarrow> f = NoFuel \<or> (f = OutOfBounds \<and> (\<exists>e\<in>set evs. seq_three e)) \<or> (f = DivByZero \<and> (\<exists>e\<in>set evs. is_sigint e))))
    \<and> (\<exists>st. ping_test env (replicate 3 (Sent zero_time 64) @ replicate 6 (Packet 84 foreign_buf zero_time zero_time)) ping_start = Inr (0, st)
          \<and> replies st = [])"
proof (intro conjI allI impI)
  fix evs assume evs: "\<forall>e\<in>set evs. event_ok e"
  let ?th = "\<lparr>sending = True, send_i = 0, send_buf = replicate 128 0, receiving = True, recv_i = 0\<rparr>"
  let ?st = "ping_start\<lparr>pid := getpid env, alive_recv := True, alive_send := True, start_time := first_time env\<rparr>"
  have "ping_inv ?th ?st" by (simp add: ping_inv_def ping_start_def)
  note run = ping_run_outcome [OF this evs]
  have a: "all_sent ?th ?st" by (simp add: all_sent_def)
  have t: "ping_test env evs ping_start = rbind (ping_run evs ?th ?st) (\<lambda>st. rbind (ping_stats_show st) (\<lambda>st. Inr (ping_flag st, st)))"
    using env by (auto simp: ping_test_def Let_def)
  show "case ping_test env evs ping_start of
         Inr (r, st) \<Rightarrow> 0 < send_count st \<and> send_count st \<le> 3 \<and> 0 \<le> recv_count st \<and> recv_count st \<le> 3
           \<and> r = (if recv_count st = send_count st then 0 else -1)
           \<and> ((\<forall>e\<in>set evs. \<not> is_sigint e) \<longrightarrow> send_count st = 3)
       | Inl f \<Rightarrow> f = NoFuel \<or> (f = OutOfBounds \<and> (\<exists>e\<in>set evs. seq_three e)) \<or> (f = DivByZero \<and> (\<exists>e\<in>set evs. is_sigint e))"
  proof (cases "ping_run evs ?th ?st")
    case (Inl f)
    then have "f = NoFuel \<or> (f = OutOfBounds \<and> (\<exists>e\<in>set evs. seq_three e))" using run by simp
    moreover have "ping_test env evs ping_start = Inl f" using t Inl by simp
    ultimately show ?thesis by (simp only: sum.case) blast
  next
    case (Inr st)
    then show ?thesis using run a t no_loss [of "send_count st" "recv_count st"]
      by (auto simp: ping_stats_show_def Let_def)
  qed
qed (rule foreign_test [OF env])

lemma ping_test_outcome_witness:
  "\<exists>st. ping_test \<lparr>proto_ok = True, rawsock = 3, is_address = False, host_ok = True, send_created = True, recv_created = True,
      getpid = 77, first_time = zero_time\<rparr> (replicate 3 (Sent zero_time 64) @ replicate 6 (Packet 84 foreign_buf zero_time zero_time)) ping_start
    = Inr (0, st)"
  using ping_test_outcome [of "\<lparr>proto_ok = True, rawsock = 3, is_address = False, host_ok = True, send_created = True, recv_created = True,
      getpid = 77, first_time = zero_time\<rparr>"] by auto

end
