(* ===== verification/CJson.thy ===== *)
theory CJson
  imports Decimal
begin

text \<open>
  The JSON library \<^verbatim>\<open>src/pipe_ser_clnt/cJSON.c\<close> as the pipe programs use it: parsing, printing into fresh
  blocks (the buffered printer is in \<open>CJsonBuffer\<close>), lookup and construction. A pointer into a text is the rest
  of the block it points into, terminator and whatever lies behind it included, so that reading past the
  block is a fault. An item is a tree: its \<open>child\<close> field holds the chain of its children in the order of
  their \<open>next\<close> pointers. The state counts the allocations that still succeed and keeps the error pointer.
  The arithmetic of \<open>double\<close> is a parameter, a record of the operations the code uses.
\<close>

section \<open>Items and state\<close>

record 'd dbl =
  of_i :: "int \<Rightarrow> 'd"
  d_add :: "'d \<Rightarrow> 'd \<Rightarrow> 'd"
  d_sub :: "'d \<Rightarrow> 'd \<Rightarrow> 'd"
  d_mul :: "'d \<Rightarrow> 'd \<Rightarrow> 'd"
  pow10 :: "'d \<Rightarrow> 'd"
  to_i :: "'d \<Rightarrow> int"
  d_eq :: "'d \<Rightarrow> 'd \<Rightarrow> bool"
  d_le :: "'d \<Rightarrow> 'd \<Rightarrow> bool"
  d_lt :: "'d \<Rightarrow> 'd \<Rightarrow> bool"
  fabs :: "'d \<Rightarrow> 'd"
  d_floor :: "'d \<Rightarrow> 'd"
  EPSILON :: 'd
  d1e60 :: 'd
  d1em6 :: 'd
  fmt_0f :: "'d \<Rightarrow> char list"
  fmt_e :: "'d \<Rightarrow> char list"
  fmt_f :: "'d \<Rightarrow> char list"

abbreviation (input) cJSON_False :: int where "cJSON_False \<equiv> 0"
abbreviation (input) cJSON_True :: int where "cJSON_True \<equiv> 1"
abbreviation (input) cJSON_NULL :: int where "cJSON_NULL \<equiv> 2"
abbreviation (input) cJSON_Number :: int where "cJSON_Number \<equiv> 3"
abbreviation (input) cJSON_String :: int where "cJSON_String \<equiv> 4"
abbreviation (input) cJSON_Array :: int where "cJSON_Array \<equiv> 5"
abbreviation (input) cJSON_Object :: int where "cJSON_Object \<equiv> 6"

datatype 'd cJSON = Item (itype: int) (valuestring: "char list option") (valueint: int) (valuedouble: 'd)
  (jstring: "char list option") (child: "'d cJSON list")

type_synonym ctext = "char list"

record jstate =
  ep :: "ctext option"
  mem :: nat

text \<open>A function that returns a pointer or 0.\<close>

type_synonym 'a jres = "('a option \<times> jstate) res"

definition jbind :: "'a jres \<Rightarrow> ('a \<Rightarrow> jstate \<Rightarrow> 'b jres) \<Rightarrow> 'b jres" where
  "jbind m f = rbind m (\<lambda>(x, s). case x of None \<Rightarrow> Inr (None, s) | Some y \<Rightarrow> f y s)"

definition jmalloc :: "jstate \<Rightarrow> (jstate \<Rightarrow> 'a jres) \<Rightarrow> 'a jres" where
  "jmalloc s f = (if mem s = 0 then Inr (None, s) else f (s\<lparr>mem := mem s - 1\<rparr>))"

definition cJSON_New_Item :: "'d dbl \<Rightarrow> jstate \<Rightarrow> ('d cJSON \<Rightarrow> jstate \<Rightarrow> 'a jres) \<Rightarrow> 'a jres" where
  "cJSON_New_Item D s f = jmalloc s (f (Item 0 None 0 (of_i D 0) None []))"

definition parse_fails :: "ctext \<Rightarrow> jstate \<Rightarrow> 'a jres" where
  "parse_fails v s = Inr (None, s\<lparr>ep := Some v\<rparr>)"

abbreviation code_of :: "char \<Rightarrow> nat" where "code_of c \<equiv> of_char c"

definition peek :: "ctext \<Rightarrow> char res" where
  "peek b = (case b of [] \<Rightarrow> Inl OutOfBounds | c # _ \<Rightarrow> Inr c)"

fun skip :: "ctext \<Rightarrow> ctext res" where
  "skip [] = Inl OutOfBounds"
| "skip (c # b) = (if c \<noteq> NUL \<and> code_of c \<le> 32 then skip b else Inr (c # b))"

text \<open>\<open>strncmp(b, lit, strlen(lit)) == 0\<close>.\<close>

fun starts_lit :: "char list \<Rightarrow> ctext \<Rightarrow> bool res" where
  "starts_lit [] b = Inr True"
| "starts_lit (c # cs) [] = Inl OutOfBounds"
| "starts_lit (c # cs) (x # b) = (if x = c then starts_lit cs b else Inr False)"

section \<open>Numbers\<close>

fun digit_run :: "('a \<Rightarrow> int \<Rightarrow> 'a) \<Rightarrow> 'a \<Rightarrow> ctext \<Rightarrow> ('a \<times> ctext) res" where
  "digit_run f x [] = Inl OutOfBounds"
| "digit_run f x (c # b) = (if is_digit c then digit_run f (f x (int (code_of c) - 48)) b else Inr (x, c # b))"

definition mul10_add :: "'d dbl \<Rightarrow> 'd \<Rightarrow> int \<Rightarrow> 'd" where
  "mul10_add D n d = d_add D (d_mul D n (of_i D 10)) (of_i D d)"

definition parse_number :: "'d dbl \<Rightarrow> 'd cJSON \<Rightarrow> ctext \<Rightarrow> ('d cJSON \<times> ctext) res" where
  "parse_number D item num =
     rbind (peek num) (\<lambda>c.
     let (sign, num) = (if c = CHR ''-'' then (of_i D (-1), tl num) else (of_i D 1, num)) in
     rbind (peek num) (\<lambda>c.
     let num = (if c = CHR ''0'' then tl num else num) in
     rbind (peek num) (\<lambda>c.
     rbind (if is_digit c \<and> c \<noteq> CHR ''0'' then digit_run (mul10_add D) (of_i D 0) num else Inr (of_i D 0, num)) (\<lambda>(n, num).
     rbind (peek num) (\<lambda>c.
     rbind (if c = CHR ''.'' then rbind (peek (tl num)) (\<lambda>c. Inr (is_digit c)) else Inr False) (\<lambda>frac.
     rbind (if frac then digit_run (\<lambda>(n, scale) d. (mul10_add D n d, d_sub D scale (of_i D 1))) (n, of_i D 0) (tl num)
            else Inr ((n, of_i D 0), num)) (\<lambda>((n, scale), num).
     rbind (peek num) (\<lambda>c.
     rbind (if c = CHR ''e'' \<or> c = CHR ''E'' then
              rbind (peek (tl num)) (\<lambda>c.
              let (sg, num) = (if c = CHR ''+'' then (1, tl (tl num)) else if c = CHR ''-'' then (-1, tl (tl num)) else (1, tl num)) in
              rbind (digit_run (\<lambda>k d. k * 10 + d) 0 num) (\<lambda>(k, num). Inr ((k, sg), num)))
            else Inr ((0, 1), num)) (\<lambda>((subscale, signsubscale), num).
     let n = d_mul D (d_mul D sign n) (pow10 D (d_add D scale (of_i D (subscale * signsubscale)))) in
     Inr (Item cJSON_Number (valuestring item) (to_i D n) n (jstring item) (child item), num))))))))))"

text \<open>A block of \<open>cap\<close> bytes gets the string \<open>t\<close>.\<close>

definition c_out :: "nat \<Rightarrow> char list \<Rightarrow> jstate \<Rightarrow> char list jres" where
  "c_out cap t s = (if length t < cap then Inr (Some t, s) else Inl OutOfBounds)"

definition print_number :: "'d dbl \<Rightarrow> 'd cJSON \<Rightarrow> jstate \<Rightarrow> char list jres" where
  "print_number D item s =
     (let d = valuedouble item in
      if d_eq D d (of_i D 0) then jmalloc s (c_out 2 ''0'')
      else if d_le D (fabs D (d_sub D (of_i D (valueint item)) d)) (EPSILON D)
          \<and> d_le D d (of_i D 2147483647) \<and> d_le D (of_i D (-2147483648)) d
        then jmalloc s (c_out 21 (decimal (valueint item)))
      else jmalloc s (c_out 64
        (if d_le D (fabs D (d_sub D (d_floor D d) d)) (EPSILON D) \<and> d_lt D (fabs D d) (d1e60 D) then fmt_0f D d
         else if d_lt D (fabs D d) (d1em6 D) \<or> d_lt D (of_i D 1000000000) (fabs D d) then fmt_e D d
         else fmt_f D d)))"

section \<open>Strings\<close>

definition hex_value :: "char \<Rightarrow> nat option" where
  "hex_value c = (let k = code_of c in
     if 48 \<le> k \<and> k \<le> 57 then Some (k - 48) else if 65 \<le> k \<and> k \<le> 70 then Some (10 + k - 65)
     else if 97 \<le> k \<and> k \<le> 102 then Some (10 + k - 97) else None)"

fun hex_run :: "nat \<Rightarrow> nat \<Rightarrow> ctext \<Rightarrow> nat res" where
  "hex_run 0 h b = Inr h"
| "hex_run (Suc n) h b = rbind (peek b) (\<lambda>c. case hex_value c of None \<Rightarrow> Inr 0 | Some d \<Rightarrow> hex_run n (16 * h + d) (tl b))"

definition parse_hex4 :: "ctext \<Rightarrow> nat res" where
  "parse_hex4 b = hex_run 4 0 b"

text \<open>The bytes of a code point, as the \<open>switch\<close> over \<open>len\<close> writes them.\<close>

definition utf8_bytes :: "nat \<Rightarrow> char list" where
  "utf8_bytes uc = (let low = (\<lambda>u. char_of (u mod 64 + 128)) in
     if uc < 128 then [char_of uc]
     else if uc < 2048 then [char_of (uc div 64 + 192), low uc]
     else if uc < 65536 then [char_of (uc div 4096 + 224), low (uc div 64), low uc]
     else [char_of (uc div 262144 + 240), low (uc div 4096), low (uc div 64), low uc])"

text \<open>The first pass of \<open>parse_string\<close>, which counts.\<close>

fun scan_string :: "ctext \<Rightarrow> nat \<Rightarrow> nat res" where
  "scan_string [] n = Inl OutOfBounds"
| "scan_string (c # b) n =
     (if c = CHR 0x22 \<or> c = NUL then Inr n
      else if c = CHR 0x5C then (case b of [] \<Rightarrow> Inl OutOfBounds | _ # b' \<Rightarrow> scan_string b' (Suc n))
      else scan_string b (Suc n))"

text \<open>\<open>\uXXXX\<close>, with \<open>b\<close> pointing to the \<open>u\<close>: the bytes to write and where \<open>ptr\<close> stands before its last
  step.\<close>

definition unescape_u :: "ctext \<Rightarrow> (char list \<times> ctext) res" where
  "unescape_u b =
     rbind (parse_hex4 (tl b)) (\<lambda>uc. let b = drop 4 b in
     if (0xDC00 \<le> uc \<and> uc \<le> 0xDFFF) \<or> uc = 0 then Inr ([], b)
     else if 0xD800 \<le> uc \<and> uc \<le> 0xDBFF then
       rbind (peek (drop 1 b)) (\<lambda>c1. if c1 \<noteq> CHR 0x5C then Inr ([], b)
       else rbind (peek (drop 2 b)) (\<lambda>c2. if c2 \<noteq> CHR ''u'' then Inr ([], b)
       else rbind (parse_hex4 (drop 3 b)) (\<lambda>uc2. let b = drop 6 b in
         if uc2 < 0xDC00 \<or> uc2 > 0xDFFF then Inr ([], b)
         else Inr (utf8_bytes (0x10000 + 1024 * (uc mod 1024) + uc2 mod 1024), b))))
     else Inr (utf8_bytes uc, b))"

definition unescape :: "ctext \<Rightarrow> (char list \<times> ctext) res" where
  "unescape b = rbind (peek b) (\<lambda>c.
     if c = CHR ''b'' then Inr ([CHR 0x08], b) else if c = CHR ''f'' then Inr ([CHR 0x0C], b)
     else if c = CHR ''n'' then Inr ([CHR 0x0A], b) else if c = CHR ''r'' then Inr ([CHR 0x0D], b)
     else if c = CHR ''t'' then Inr ([CHR 0x09], b) else if c = CHR ''u'' then unescape_u b
     else Inr ([c], b))"

lemma unescape_shrinks: "unescape b = Inr (w, b') \<Longrightarrow> length b' \<le> length b"
  by (auto simp: unescape_def unescape_u_def Let_def split: if_splits)

text \<open>The second pass: \<open>room\<close> bytes of the block are left, the terminator included.\<close>

function copy_string :: "ctext \<Rightarrow> nat \<Rightarrow> char list \<Rightarrow> (char list \<times> ctext) res" where
  "copy_string b room out =
     rbind (peek b) (\<lambda>c.
     if c = CHR 0x22 \<or> c = NUL then (if room = 0 then Inl OutOfBounds else Inr (out, b))
     else if c \<noteq> CHR 0x5C then (if room = 0 then Inl OutOfBounds else copy_string (tl b) (room - 1) (out @ [c]))
     else rbind (unescape (tl b)) (\<lambda>(w, b'). if room < length w then Inl OutOfBounds
       else if b' = [] then Inl OutOfBounds else copy_string (tl b') (room - length w) (out @ w)))"
  by pat_completeness auto
termination
  by (relation "measure (\<lambda>(b, _, _). length b)")
    (auto simp: peek_def split: list.splits dest!: unescape_shrinks)

declare copy_string.simps [simp del]

definition parse_string :: "'d cJSON \<Rightarrow> ctext \<Rightarrow> jstate \<Rightarrow> ('d cJSON \<times> ctext) jres" where
  "parse_string item str s =
     rbind (peek str) (\<lambda>c. if c \<noteq> CHR 0x22 then parse_fails str s
     else rbind (scan_string (tl str) 0) (\<lambda>len. jmalloc s (\<lambda>s.
       rbind (copy_string (tl str) (len + 1) []) (\<lambda>(out, b).
       rbind (peek b) (\<lambda>c. let b = (if c = CHR 0x22 then tl b else b) in
       Inr (Some (Item cJSON_String (Some out) (valueint item) (valuedouble item) (jstring item) (child item), b), s))))))"

definition needs_escape :: "char \<Rightarrow> bool" where
  "needs_escape c \<longleftrightarrow> (0 < code_of c \<and> code_of c < 32) \<or> c = CHR 0x22 \<or> c = CHR 0x5C"

definition short_escapes :: "(char \<times> char) list" where
  "short_escapes = [(CHR 0x5C, CHR 0x5C), (CHR 0x22, CHR 0x22), (CHR 0x08, CHR ''b''), (CHR 0x0C, CHR ''f''),
     (CHR 0x0A, CHR ''n''), (CHR 0x0D, CHR ''r''), (CHR 0x09, CHR ''t'')]"

definition hex_digit :: "nat \<Rightarrow> char" where
  "hex_digit n = (if n < 10 then char_of (48 + n) else char_of (87 + n))"

definition escape :: "char \<Rightarrow> char list" where
  "escape c = (if code_of c > 31 \<and> c \<noteq> CHR 0x22 \<and> c \<noteq> CHR 0x5C then [c]
     else CHR 0x5C # (case map_of short_escapes c of Some e \<Rightarrow> [e]
       | None \<Rightarrow> [CHR ''u'', hex_digit (code_of c div 4096), hex_digit (code_of c div 256 mod 16),
           hex_digit (code_of c div 16 mod 16), hex_digit (code_of c mod 16)]))"

definition escape_len :: "char \<Rightarrow> nat" where
  "escape_len c = (if c \<in> fst ` set short_escapes then 2 else if code_of c < 32 then 6 else 1)"

text \<open>A \<open>size_t\<close> or a pointer difference stored in an \<open>int\<close> keeps its low 32 bits, as a signed number.\<close>

definition int_of_size :: "nat \<Rightarrow> int" where
  "int_of_size n = (int n + 2147483648) mod 4294967296 - 2147483648"

abbreviation (input) INT_MAX :: int where "INT_MAX \<equiv> 2147483647"

text \<open>\<open>malloc(len)\<close> of an \<open>int\<close> for the string \<open>t\<close>: a negative one is converted to a size no block has.\<close>

definition alloc_text :: "int \<Rightarrow> char list \<Rightarrow> jstate \<Rightarrow> char list jres" where
  "alloc_text len t s = (if len < 0 then Inr (None, s) else jmalloc s (c_out (nat len) t))"

text \<open>Without an escape \<open>len\<close> is a pointer difference, with one it is counted up.\<close>

definition print_string_ptr :: "char list option \<Rightarrow> jstate \<Rightarrow> char list jres" where
  "print_string_ptr str s = (case str of None \<Rightarrow> Inl NullDeref
     | Some t \<Rightarrow>
       let flag = list_ex needs_escape t;
           len = (if flag then int (sum_list (map escape_len t)) else int_of_size (length t)) in
       if len + 3 > INT_MAX then Inl Overflow
       else alloc_text (len + 3) ([CHR 0x22] @ (if flag then concat (map escape t) else t) @ [CHR 0x22]) s)"

section \<open>Parsing\<close>

definition set_type :: "int \<Rightarrow> int \<Rightarrow> 'd cJSON \<Rightarrow> 'd cJSON" where
  "set_type ty vi i = Item ty (valuestring i) vi (valuedouble i) (jstring i) (child i)"

definition set_child :: "'d cJSON list \<Rightarrow> 'd cJSON \<Rightarrow> 'd cJSON" where
  "set_child ch i = Item (itype i) (valuestring i) (valueint i) (valuedouble i) (jstring i) ch"

definition name_of_value :: "'d cJSON \<Rightarrow> 'd cJSON" where
  "name_of_value i = Item (itype i) None (valueint i) (valuedouble i) (valuestring i) (child i)"

text \<open>The calls of \<open>parse_value\<close> inside the array and object parsers are the parameter \<open>pv\<close>; the knot is tied
  below, with fuel for the nesting. The loops have the length of the text as fuel: every turn consumes a comma.
  \<open>parse_elems\<close> is the loop of \<open>parse_array\<close> from the allocation of an element on, \<open>parse_members\<close> that of
  \<open>parse_object\<close>.\<close>

type_synonym 'd value_parser = "'d cJSON \<Rightarrow> ctext \<Rightarrow> jstate \<Rightarrow> ('d cJSON \<times> ctext) jres"

primrec parse_elems :: "'d dbl \<Rightarrow> 'd value_parser \<Rightarrow> nat \<Rightarrow> 'd cJSON \<Rightarrow> 'd cJSON list \<Rightarrow> ctext \<Rightarrow> jstate \<Rightarrow> ('d cJSON \<times> ctext) jres" where
  "parse_elems D pv 0 item acc v s = Inl NoFuel"
| "parse_elems D pv (Suc n) item acc v s =
     cJSON_New_Item D s (\<lambda>new s.
       rbind (skip v) (\<lambda>v. jbind (pv new v s) (\<lambda>(new, v) s.
       rbind (skip v) (\<lambda>v. rbind (peek v) (\<lambda>c.
       if c = CHR '','' then parse_elems D pv n item (acc @ [new]) (tl v) s
       else if c = CHR '']'' then Inr (Some (set_child (acc @ [new]) item, tl v), s)
       else parse_fails v s)))))"

definition parse_array :: "'d dbl \<Rightarrow> 'd value_parser \<Rightarrow> 'd value_parser" where
  "parse_array D pv item v s =
     rbind (peek v) (\<lambda>c. if c \<noteq> CHR ''['' then parse_fails v s
     else let item = set_type cJSON_Array (valueint item) item in
       rbind (skip (tl v)) (\<lambda>v. rbind (peek v) (\<lambda>c.
       if c = CHR '']'' then Inr (Some (item, tl v), s)
       else parse_elems D pv (length v) item [] v s)))"

primrec parse_members :: "'d dbl \<Rightarrow> 'd value_parser \<Rightarrow> nat \<Rightarrow> 'd cJSON \<Rightarrow> 'd cJSON list \<Rightarrow> ctext \<Rightarrow> jstate \<Rightarrow> ('d cJSON \<times> ctext) jres" where
  "parse_members D pv 0 item acc v s = Inl NoFuel"
| "parse_members D pv (Suc n) item acc v s =
     cJSON_New_Item D s (\<lambda>new s.
       rbind (skip v) (\<lambda>v. jbind (parse_string new v s) (\<lambda>(new, v) s.
       rbind (skip v) (\<lambda>v. let new = name_of_value new in
       rbind (peek v) (\<lambda>c. if c \<noteq> CHR '':'' then parse_fails v s
       else rbind (skip (tl v)) (\<lambda>v. jbind (pv new v s) (\<lambda>(new, v) s.
       rbind (skip v) (\<lambda>v. rbind (peek v) (\<lambda>c.
       if c = CHR '','' then parse_members D pv n item (acc @ [new]) (tl v) s
       else if c = CHR ''}'' then Inr (Some (set_child (acc @ [new]) item, tl v), s)
       else parse_fails v s)))))))))"

definition parse_object :: "'d dbl \<Rightarrow> 'd value_parser \<Rightarrow> 'd value_parser" where
  "parse_object D pv item v s =
     rbind (peek v) (\<lambda>c. if c \<noteq> CHR ''{'' then parse_fails v s
     else let item = set_type cJSON_Object (valueint item) item in
       rbind (skip (tl v)) (\<lambda>v. rbind (peek v) (\<lambda>c.
       if c = CHR ''}'' then Inr (Some (item, tl v), s)
       else parse_members D pv (length v) item [] v s)))"

primrec parse_value :: "'d dbl \<Rightarrow> nat \<Rightarrow> 'd value_parser" where
  "parse_value D 0 item v s = Inl NoFuel"
| "parse_value D (Suc k) item v s =
     rbind (starts_lit ''null'' v) (\<lambda>q. if q then Inr (Some (set_type cJSON_NULL (valueint item) item, drop 4 v), s)
     else rbind (starts_lit ''false'' v) (\<lambda>q. if q then Inr (Some (set_type cJSON_False (valueint item) item, drop 5 v), s)
     else rbind (starts_lit ''true'' v) (\<lambda>q. if q then Inr (Some (set_type cJSON_True 1 item, drop 4 v), s)
     else rbind (peek v) (\<lambda>c.
       if c = CHR 0x22 then parse_string item v s
       else if c = CHR ''-'' \<or> is_digit c then rbind (parse_number D item v) (\<lambda>r. Inr (Some r, s))
       else if c = CHR ''['' then parse_array D (parse_value D k) item v s
       else if c = CHR ''{'' then parse_object D (parse_value D k) item v s
       else parse_fails v s))))"

text \<open>\<open>cJSON_ParseWithOpts\<close>, with the end of the parsed text in the result; \<open>cJSON_Parse\<close> drops it.\<close>

definition cJSON_ParseWithOpts :: "'d dbl \<Rightarrow> nat \<Rightarrow> ctext \<Rightarrow> bool \<Rightarrow> jstate \<Rightarrow> ('d cJSON \<times> ctext) jres" where
  "cJSON_ParseWithOpts D k v require_null_terminated s =
     cJSON_New_Item D s (\<lambda>c s. let s = s\<lparr>ep := None\<rparr> in
       rbind (skip v) (\<lambda>v. jbind (parse_value D k c v s) (\<lambda>(c, end) s.
       if require_null_terminated then
         rbind (skip end) (\<lambda>end. rbind (peek end) (\<lambda>x. if x \<noteq> NUL then parse_fails end s else Inr (Some (c, end), s)))
       else Inr (Some (c, end), s))))"

definition cJSON_Parse :: "'d dbl \<Rightarrow> nat \<Rightarrow> ctext \<Rightarrow> jstate \<Rightarrow> 'd cJSON jres" where
  "cJSON_Parse D k v s = jbind (cJSON_ParseWithOpts D k v False s) (\<lambda>(c, _) s. Inr (Some c, s))"

section \<open>Printing\<close>

definition tabs :: "int \<Rightarrow> char list" where
  "tabs n = replicate (nat n) (CHR 0x09)"

fun compose_array :: "bool \<Rightarrow> char list list \<Rightarrow> char list" where
  "compose_array fmt [] = []"
| "compose_array fmt [e] = e"
| "compose_array fmt (e # es) = e @ [CHR '',''] @ (if fmt then [CHR '' ''] else []) @ compose_array fmt es"

fun compose_object :: "bool \<Rightarrow> int \<Rightarrow> (char list \<times> char list) list \<Rightarrow> char list" where
  "compose_object fmt depth [] = []"
| "compose_object fmt depth ((n, e) # es) =
     (if fmt then tabs depth else []) @ n @ [CHR '':''] @ (if fmt then [CHR 0x09] else []) @ e
     @ (if es \<noteq> [] then [CHR '',''] else []) @ (if fmt then [CHR 0x0A] else []) @ compose_object fmt depth es"

text \<open>The length of the block of an array or object is an \<open>int\<close> to which values of type \<open>size_t\<close> are added. \<open>print_each\<close> and \<open>print_members\<close> are the loops that collect the printed children; a child is given by its
  printer, which takes the depth, and in an object also by its name.\<close>

type_synonym printer = "int \<Rightarrow> jstate \<Rightarrow> char list jres"

primrec print_each :: "int \<Rightarrow> printer list \<Rightarrow> jstate \<Rightarrow> char list list jres" where
  "print_each depth [] s = Inr (Some [], s)"
| "print_each depth (p # ps) s = jbind (p depth s) (\<lambda>e s. jbind (print_each depth ps s) (\<lambda>es s. Inr (Some (e # es), s)))"

definition print_array :: "bool \<Rightarrow> int \<Rightarrow> printer list \<Rightarrow> jstate \<Rightarrow> char list jres" where
  "print_array fmt depth ps s =
     (if ps = [] then jmalloc s (c_out 3 ''[]'')
      else jmalloc s (\<lambda>s. jbind (print_each (depth + 1) ps s) (\<lambda>es s.
        alloc_text (int_of_size (5 + sum_list (map (\<lambda>e. length e + 2 + (if fmt then 1 else 0)) es)))
          ([CHR ''[''] @ compose_array fmt es @ [CHR '']'']) s)))"

primrec print_members :: "int \<Rightarrow> (char list option \<times> printer) list \<Rightarrow> jstate \<Rightarrow> (char list \<times> char list) list jres" where
  "print_members depth [] s = Inr (Some [], s)"
| "print_members depth (m # ms) s =
     rbind (print_string_ptr (fst m) s) (\<lambda>(n, s). rbind (snd m depth s) (\<lambda>(e, s).
     rbind (print_members depth ms s) (\<lambda>(es, s).
       Inr (case n of None \<Rightarrow> None | Some n \<Rightarrow> (case e of None \<Rightarrow> None | Some e \<Rightarrow>
         (case es of None \<Rightarrow> None | Some es \<Rightarrow> Some ((n, e) # es))), s))))"

definition print_object :: "bool \<Rightarrow> int \<Rightarrow> (char list option \<times> printer) list \<Rightarrow> jstate \<Rightarrow> char list jres" where
  "print_object fmt depth ms s =
     (if ms = [] then jmalloc s (c_out (if fmt then nat depth + 4 else 3)
        ([CHR ''{''] @ (if fmt then [CHR 0x0A] @ tabs (depth - 1) else []) @ [CHR ''}'']))
      else jmalloc s (\<lambda>s. jmalloc s (\<lambda>s. jbind (print_members (depth + 1) ms s) (\<lambda>es s.
        alloc_text (int_of_size (7 + (if fmt then nat (depth + 1) else 0)
            + sum_list (map (\<lambda>(n, e). length e + length n + 2 + (if fmt then 2 + nat (depth + 1) else 0)) es)))
          ([CHR ''{''] @ (if fmt then [CHR 0x0A] else []) @ compose_object fmt (depth + 1) es
            @ (if fmt then tabs depth else []) @ [CHR ''}'']) s))))"

primrec print_value :: "'d dbl \<Rightarrow> bool \<Rightarrow> 'd cJSON \<Rightarrow> printer" where
  "print_value D fmt (Item ty vs vi vd st ch) = (\<lambda>depth s.
     let t = ty mod 256 in
      if t = cJSON_NULL then jmalloc s (c_out 5 ''null'')
      else if t = cJSON_False then jmalloc s (c_out 6 ''false'')
      else if t = cJSON_True then jmalloc s (c_out 5 ''true'')
      else if t = cJSON_Number then print_number D (Item ty vs vi vd st ch) s
      else if t = cJSON_String then print_string_ptr vs s
      else if t = cJSON_Array then print_array fmt depth (map (print_value D fmt) ch) s
      else if t = cJSON_Object then print_object fmt depth (zip (map jstring ch) (map (print_value D fmt) ch)) s
      else Inr (None, s))"

definition cJSON_Print :: "'d dbl \<Rightarrow> 'd cJSON \<Rightarrow> jstate \<Rightarrow> char list jres" where
  "cJSON_Print D item s = print_value D True item 0 s"

definition cJSON_PrintUnformatted :: "'d dbl \<Rightarrow> 'd cJSON \<Rightarrow> jstate \<Rightarrow> char list jres" where
  "cJSON_PrintUnformatted D item s = print_value D False item 0 s"

section \<open>Lookup and construction\<close>

definition to_lower :: "char \<Rightarrow> char" where
  "to_lower c = (if 65 \<le> code_of c \<and> code_of c \<le> 90 then char_of (code_of c + 32) else c)"

text \<open>\<open>cJSON_strcasecmp(s1, s2) == 0\<close>.\<close>

definition strcasecmp_eq :: "char list option \<Rightarrow> char list \<Rightarrow> bool" where
  "strcasecmp_eq s1 s2 = (case s1 of None \<Rightarrow> False | Some t \<Rightarrow> map to_lower t = map to_lower s2)"

definition cJSON_GetArraySize :: "'d cJSON \<Rightarrow> nat" where
  "cJSON_GetArraySize a = length (child a)"

fun item_at :: "'d cJSON list \<Rightarrow> int \<Rightarrow> 'd cJSON option" where
  "item_at [] k = None"
| "item_at (c # cs) k = (if k > 0 then item_at cs (k - 1) else Some c)"

definition cJSON_GetArrayItem :: "'d cJSON \<Rightarrow> int \<Rightarrow> 'd cJSON option" where
  "cJSON_GetArrayItem a k = item_at (child a) k"

definition cJSON_GetObjectItem :: "'d cJSON \<Rightarrow> char list \<Rightarrow> 'd cJSON option" where
  "cJSON_GetObjectItem obj key = find (\<lambda>c. strcasecmp_eq (jstring c) key) (child obj)"

definition cJSON_strdup :: "char list \<Rightarrow> jstate \<Rightarrow> char list option \<times> jstate" where
  "cJSON_strdup t s = (if mem s = 0 then (None, s) else (Some t, s\<lparr>mem := mem s - 1\<rparr>))"

definition cJSON_CreateObject :: "'d dbl \<Rightarrow> jstate \<Rightarrow> 'd cJSON jres" where
  "cJSON_CreateObject D s = cJSON_New_Item D s (\<lambda>i s. Inr (Some (set_type cJSON_Object 0 i), s))"

definition cJSON_CreateNumber :: "'d dbl \<Rightarrow> 'd \<Rightarrow> jstate \<Rightarrow> 'd cJSON jres" where
  "cJSON_CreateNumber D num s = cJSON_New_Item D s (\<lambda>i s. Inr (Some (Item cJSON_Number None (to_i D num) num None []), s))"

definition cJSON_CreateString :: "'d dbl \<Rightarrow> char list \<Rightarrow> jstate \<Rightarrow> 'd cJSON jres" where
  "cJSON_CreateString D t s = cJSON_New_Item D s (\<lambda>i s. case cJSON_strdup t s of (v, s) \<Rightarrow>
     Inr (Some (Item cJSON_String v 0 (of_i D 0) None []), s))"

definition cJSON_AddItemToArray :: "'d cJSON \<Rightarrow> 'd cJSON option \<Rightarrow> 'd cJSON" where
  "cJSON_AddItemToArray a item = (case item of None \<Rightarrow> a | Some i \<Rightarrow> set_child (child a @ [i]) a)"

definition cJSON_AddItemToObject :: "'d cJSON \<Rightarrow> char list \<Rightarrow> 'd cJSON option \<Rightarrow> jstate \<Rightarrow> 'd cJSON \<times> jstate" where
  "cJSON_AddItemToObject obj key item s = (case item of None \<Rightarrow> (obj, s) | Some i \<Rightarrow>
     (case cJSON_strdup key s of (n, s) \<Rightarrow>
       (cJSON_AddItemToArray obj (Some (Item (itype i) (valuestring i) (valueint i) (valuedouble i) n (child i))), s)))"

end
