(* ===== verification/CJsonPrint.thy ===== *)
theory CJsonPrint
  imports CJson
begin

text \<open>
  What the JSON printer prints: \<open>render\<close> is the text of an item as a function of the tree alone, written with the escapes and
  separators of JSON and none of the printer's own functions, and \<open>print_value_text\<close> shows that the printer with its
  sized blocks gives that text when it is shorter than \<open>2 ^ 30\<close>, so that no length leaves the range of an \<open>int\<close>.
\<close>

section \<open>What is printed\<close>

definition number_text :: "'d dbl \<Rightarrow> int \<Rightarrow> 'd \<Rightarrow> char list" where
  "number_text D vi d =
     (if d_eq D d (of_i D 0) then ''0''
      else if d_le D (fabs D (d_sub D (of_i D vi) d)) (EPSILON D) \<and> d_le D d (of_i D 2147483647) \<and> d_le D (of_i D (-2147483648)) d
        then decimal vi
      else if d_le D (fabs D (d_sub D (d_floor D d) d)) (EPSILON D) \<and> d_lt D (fabs D d) (d1e60 D) then fmt_0f D d
      else if d_lt D (fabs D d) (d1em6 D) \<or> d_lt D (of_i D 1000000000) (fabs D d) then fmt_e D d
      else fmt_f D d)"

text \<open>A character inside a string: a quote and a backslash get a backslash, five control characters have letters, the others
  are written in hexadecimal.\<close>

definition json_char :: "char \<Rightarrow> char list" where
  "json_char c =
     (if c = CHR 0x22 \<or> c = CHR 0x5C then [CHR 0x5C, c]
      else if 32 \<le> code_of c then [c]
      else if c = CHR 0x08 then [CHR 0x5C, CHR ''b'']
      else if c = CHR 0x09 then [CHR 0x5C, CHR ''t'']
      else if c = CHR 0x0A then [CHR 0x5C, CHR ''n'']
      else if c = CHR 0x0C then [CHR 0x5C, CHR ''f'']
      else if c = CHR 0x0D then [CHR 0x5C, CHR ''r'']
      else CHR 0x5C # ''u00'' @ map (\<lambda>d. ''0123456789abcdef'' ! d) [code_of c div 16, code_of c mod 16])"

definition quoted :: "char list \<Rightarrow> char list" where
  "quoted t = CHR 0x22 # concat (map json_char t) @ [CHR 0x22]"

text \<open>Texts with a separator between them.\<close>

primrec separated :: "char list \<Rightarrow> char list list \<Rightarrow> char list" where
  "separated sep [] = []"
| "separated sep (e # es) = e @ concat (map (\<lambda>x. sep @ x) es)"

text \<open>The text of an item: the specification of the printer, without blocks and their sizes. In the formatted text the
  members of an object stand on lines of their own, indented by as many tabs as they are deep.\<close>

primrec render :: "'d dbl \<Rightarrow> bool \<Rightarrow> 'd cJSON \<Rightarrow> int \<Rightarrow> char list" where
  "render D fmt (Item ty vs vi vd st ch) = (\<lambda>depth.
     let t = ty mod 256; rs = map (\<lambda>r. r (depth + 1)) (map (render D fmt) ch);
         nl = (if fmt then [CHR 0x0A] else []);
         indent = (\<lambda>n. if fmt then replicate (nat n) (CHR 0x09) else []) in
     if t = cJSON_NULL then ''null''
     else if t = cJSON_False then ''false''
     else if t = cJSON_True then ''true''
     else if t = cJSON_Number then number_text D vi vd
     else if t = cJSON_String then quoted (the vs)
     else if t = cJSON_Array then ''['' @ separated (if fmt then '', '' else '','') rs @ '']''
     else if ch = [] then ''{'' @ nl @ indent (depth - 1) @ ''}''
     else ''{'' @ nl @ separated ('','' @ nl)
         (map (\<lambda>(c, r). indent (depth + 1) @ quoted (the (jstring c)) @ '':'' @ (if fmt then [CHR 0x09] else []) @ r) (zip ch rs))
       @ nl @ indent depth @ ''}'')"

text \<open>The same in the terms of the printer.\<close>

lemma json_char_escape: "json_char c = escape c"
proof (cases "32 \<le> code_of c")
  case True
  have q: "json_char (CHR 0x22) = escape (CHR 0x22)" "json_char (CHR 0x5C) = escape (CHR 0x5C)" by code_simp+
  show ?thesis
  proof (cases "c = CHR 0x22 \<or> c = CHR 0x5C")
    case False
    have "31 < code_of c" using True by simp
    then show ?thesis using True False by (simp only: json_char_def escape_def if_True if_False simp_thms de_Morgan_disj)
  qed (use q in blast)
next
  case False
  have "\<forall>n\<in>set [0..<32]. json_char (char_of (n :: nat)) = escape (char_of n)" by code_simp
  moreover have "code_of c \<in> set [0..<32]" using False by simp
  ultimately have "json_char (char_of (code_of c)) = escape (char_of (code_of c))" by blast
  then show ?thesis by simp
qed

lemma quoted_escape: "quoted t = CHR 0x22 # concat (map escape t) @ [CHR 0x22]"
proof -
  have "json_char = escape" using json_char_escape by (rule ext)
  then show ?thesis by (simp add: quoted_def)
qed

lemma separated_array: "compose_array fmt es = separated (if fmt then '', '' else '','') es"
proof (induction fmt es rule: compose_array.induct)
  case (3 fmt e e' es)
  then show ?case by (cases fmt) simp_all
qed simp_all

lemma separated_object:
  "es \<noteq> [] \<Longrightarrow> compose_object fmt depth es = separated ('','' @ (if fmt then [CHR 0x0A] else []))
     (map (\<lambda>(n, e). (if fmt then replicate (nat depth) (CHR 0x09) else []) @ n @ '':'' @ (if fmt then [CHR 0x09] else []) @ e) es)
     @ (if fmt then [CHR 0x0A] else [])"
proof (induction es)
  case (Cons ne es)
  obtain n e where ne: "ne = (n, e)" by (cases ne)
  show ?case
  proof (cases es)
    case (Cons x xs)
    then show ?thesis using Cons.IH by (simp add: ne tabs_def)
  qed (simp add: ne tabs_def)
qed simp

lemma render_item:
  "render D fmt (Item ty vs vi vd st ch) depth =
     (let t = ty mod 256; rs = map (\<lambda>c. render D fmt c (depth + 1)) ch in
     if t = cJSON_NULL then ''null''
     else if t = cJSON_False then ''false''
     else if t = cJSON_True then ''true''
     else if t = cJSON_Number then number_text D vi vd
     else if t = cJSON_String then quoted (the vs)
     else if t = cJSON_Array then (if ch = [] then ''[]'' else [CHR ''[''] @ compose_array fmt rs @ [CHR '']''])
     else if ch = [] then [CHR ''{''] @ (if fmt then [CHR 0x0A] @ tabs (depth - 1) else []) @ [CHR ''}'']
     else [CHR ''{''] @ (if fmt then [CHR 0x0A] else []) @ compose_object fmt (depth + 1) (zip (map (\<lambda>c. quoted (the (jstring c))) ch) rs)
       @ (if fmt then tabs depth else []) @ [CHR ''}''])"
proof -
  let ?rs = "map (\<lambda>c. render D fmt c (depth + 1)) ch"
  have ob: "compose_object fmt (depth + 1) (zip (map (\<lambda>c. quoted (the (jstring c))) ch) ?rs) = separated ('','' @ (if fmt then [CHR 0x0A] else []))
      (map (\<lambda>(c, r). (if fmt then replicate (nat (depth + 1)) (CHR 0x09) else []) @ quoted (the (jstring c)) @ '':''
        @ (if fmt then [CHR 0x09] else []) @ r) (zip ch ?rs)) @ (if fmt then [CHR 0x0A] else [])" if "ch \<noteq> []"
    using that by (subst separated_object) (simp_all add: zip_map1 zip_map2 zip_same_conv_map case_prod_beta o_def)
  show ?thesis
  proof (cases "ch = []")
    case True
    then show ?thesis by (simp add: Let_def tabs_def)
  next
    case False
    then show ?thesis
      by (simp only: render.simps Let_def list.map_comp o_def separated_array ob [OF False] tabs_def append.assoc
        append_Cons append_Nil if_False cong: if_cong)
  qed
qed

declare render.simps [simp del] render_item [simp]

text \<open>Items that can be printed: strings and names are there, integers are in range. \<open>number_formats\<close>: what
  \<open>sprintf\<close> makes of a \<open>double\<close> in the cases the code uses it for.\<close>

fun json_ok :: "'d cJSON \<Rightarrow> bool" where
  "json_ok (Item ty vs vi vd st ch) \<longleftrightarrow>
     ty mod 256 \<le> 6 \<and> (ty mod 256 = cJSON_String \<longrightarrow> vs \<noteq> None) \<and> -2147483648 \<le> vi \<and> vi \<le> 2147483647
     \<and> (ty mod 256 = cJSON_Object \<longrightarrow> (\<forall>c\<in>set ch. jstring c \<noteq> None)) \<and> (\<forall>c\<in>set ch. json_ok c)
     \<and> (\<forall>t\<in>set_option vs \<union> set_option st. NUL \<notin> set t)"

definition number_formats :: "'d dbl \<Rightarrow> bool" where
  "number_formats D \<longleftrightarrow> (\<forall>d. (d_lt D (fabs D d) (d1e60 D) \<longrightarrow> length (fmt_0f D d) < 64) \<and> length (fmt_e D d) < 64
     \<and> (\<not> d_lt D (of_i D 1000000000) (fabs D d) \<longrightarrow> length (fmt_f D d) < 64))"

text \<open>The outcome of a printing function that needs \<open>c\<close> allocations: the text, or 0 when they are not there.\<close>

definition gives_text :: "jstate \<Rightarrow> 'a jres \<Rightarrow> 'a \<Rightarrow> nat \<Rightarrow> bool" where
  "gives_text s m t c \<longleftrightarrow> m = Inr (if c \<le> mem s then (Some t, s\<lparr>mem := mem s - c\<rparr>) else (None, s\<lparr>mem := 0\<rparr>))"

lemma gives_c_out: "length t < cap \<Longrightarrow> gives_text s (c_out cap t s) t 0"
  by (simp add: gives_text_def c_out_def)

lemma gives_out: "length t < cap \<Longrightarrow> gives_text s (jmalloc s (c_out cap t)) t (Suc 0)"
  by (simp add: gives_text_def jmalloc_def c_out_def)

lemma gives_malloc: "(\<And>s. gives_text s (f s) t c) \<Longrightarrow> gives_text s (jmalloc s f) t (Suc c)"
  by (auto simp: gives_text_def jmalloc_def)

lemma gives_return: "gives_text s (Inr (Some t, s)) t 0"
  by (simp add: gives_text_def)

lemma gives_text_bind: "gives_text s m t c \<Longrightarrow> (\<And>s. gives_text s (f t s) u d) \<Longrightarrow> gives_text s (jbind m f) u (c + d)"
  by (auto simp: gives_text_def jbind_def)

text \<open>The allocations a print needs.\<close>

primrec print_allocs :: "'d cJSON \<Rightarrow> nat" where
  "print_allocs (Item ty vs vi vd st ch) =
     (let cs = map print_allocs ch in
      if ch = [] \<or> ty mod 256 < cJSON_Array then 1
      else if ty mod 256 = cJSON_Array then 2 + sum_list cs else 3 + sum_list (map Suc cs))"

lemma length_decimal: "-2147483648 \<le> i \<Longrightarrow> i \<le> 2147483647 \<Longrightarrow> length (decimal i) < 21"
proof -
  assume "-2147483648 \<le> i" "i \<le> 2147483647"
  then have "nat (- i) < 10 ^ 10" "nat i < 10 ^ 10" by simp_all
  then have "length (digits_of (nat (- i))) \<le> 10" "length (digits_of (nat i)) \<le> 10" by (auto intro: length_digits_of)
  then show ?thesis by (simp add: decimal_def)
qed

lemma print_number_text:
  assumes "number_formats D" "-2147483648 \<le> vi" "vi \<le> 2147483647"
  shows "gives_text s (print_number D (Item ty vs vi vd st ch) s) (number_text D vi vd) 1"
  unfolding print_number_def number_text_def Let_def cJSON.sel
  using assms length_decimal [OF assms(2,3)] unfolding number_formats_def
  by (auto intro!: gives_out)

lemma code_of_0: "code_of c = (0 :: nat) \<longleftrightarrow> c = NUL"
  using of_char_eq_iff [of c NUL, where ?'a = nat] by simp

lemma escape_plain: "\<not> needs_escape c \<Longrightarrow> c \<noteq> NUL \<Longrightarrow> escape c = [c]"
  using code_of_0 [of c] by (auto simp: escape_def needs_escape_def)

lemma escape_length: "length (escape c) \<le> escape_len c"
  by (auto simp: escape_def escape_len_def short_escapes_def)

lemma escape_len_exact: "c \<noteq> NUL \<Longrightarrow> escape_len c = length (escape c)"
  using code_of_0 [of c] by (auto simp: escape_def escape_len_def short_escapes_def)

lemma int_of_size_small: "n < 2 ^ 31 \<Longrightarrow> int_of_size n = int n"
  by (simp add: int_of_size_def)

lemma gives_alloc: "length t < n \<Longrightarrow> n < 2 ^ 31 \<Longrightarrow> gives_text s (alloc_text (int_of_size n) t s) t (Suc 0)"
  using gives_out [of t n s] by (simp add: alloc_text_def int_of_size_small)

lemma string_sizes:
  assumes "NUL \<notin> set t"
  shows "sum_list (map escape_len t) + 2 = length (quoted t)" "\<not> list_ex needs_escape t \<Longrightarrow> concat (map escape t) = t"
    "\<not> list_ex needs_escape t \<Longrightarrow> length t + 2 = length (quoted t)"
proof -
  show "sum_list (map escape_len t) + 2 = length (quoted t)"
    using assms by (induction t) (auto simp: quoted_escape escape_len_exact)
  show c: "concat (map escape t) = t" if "\<not> list_ex needs_escape t"
    using assms that by (induction t) (auto simp: escape_plain)
  show "length t + 2 = length (quoted t)" if "\<not> list_ex needs_escape t" using c [OF that] by (simp add: quoted_escape)
qed

lemma print_string_text:
  assumes "NUL \<notin> set t" "length (quoted t) + 64 \<le> 2 ^ 30"
  shows "gives_text s (print_string_ptr (Some t) s) (quoted t) 1"
proof -
  let ?flag = "list_ex needs_escape t"
  define len where "len = (if ?flag then int (sum_list (map escape_len t)) else int_of_size (length t))"
  have e: "len + 3 = int (length (quoted t)) + 1"
    using string_sizes(1) [OF assms(1)] string_sizes(3) [OF assms(1)] assms(2) int_of_size_small [of "length t"] by (auto simp: len_def)
  have q: "[CHR 0x22] @ (if ?flag then concat (map escape t) else t) @ [CHR 0x22] = quoted t"
    using string_sizes(2) [OF assms(1)] by (simp add: quoted_escape)
  have "print_string_ptr (Some t) s = (if len + 3 > INT_MAX then Inl Overflow else alloc_text (len + 3) (quoted t) s)"
    unfolding print_string_ptr_def option.case Let_def q len_def ..
  also have "\<dots> = jmalloc s (c_out (Suc (length (quoted t))) (quoted t))"
    unfolding e alloc_text_def using assms(2) by (simp add: nat_add_distrib)
  finally have "print_string_ptr (Some t) s = jmalloc s (c_out (Suc (length (quoted t))) (quoted t))" .
  then show ?thesis using gives_out [of "quoted t" "Suc (length (quoted t))" s] by simp
qed

lemma print_each_text:
  assumes "\<And>c s. c \<in> set ch \<Longrightarrow> gives_text s (f c depth s) (r c) (n c)"
  shows "gives_text s (print_each depth (map f ch) s) (map r ch) (sum_list (map n ch))"
  using assms
proof (induction ch arbitrary: s)
  case (Cons c ch)
  have "gives_text s (print_each depth (map f ch) s) (map r ch) (sum_list (map n ch))" for s using Cons by simp
  then have "gives_text s (jbind (print_each depth (map f ch) s) (\<lambda>es s. Inr (Some (r c # es), s))) (r c # map r ch) (sum_list (map n ch) + 0)" for s
    by (rule gives_text_bind) (rule gives_return)
  then show ?case unfolding print_each.simps list.map sum_list.Cons by (intro gives_text_bind [OF Cons.prems [of c]]) simp_all
qed (simp add: gives_return)

lemma length_compose_array:
  "sum_list (map (\<lambda>e. length e + 2 + (if fmt then 1 else 0)) es) \<le> 2 * length (compose_array fmt es) + 3"
  "length (compose_array fmt es) \<le> sum_list (map (\<lambda>e. length e + 2 + (if fmt then 1 else 0)) es)"
  by (induction fmt es rule: compose_array.induct) auto

lemma length_compose_object:
  "sum_list (map (\<lambda>(n, e). length e + length n + 2 + (if fmt then 2 + nat depth else 0)) es) \<le> length (compose_object fmt depth es) + 1"
  "length (compose_object fmt depth es) \<le> sum_list (map (\<lambda>(n, e). length e + length n + 2 + (if fmt then 2 + nat depth else 0)) es)"
  by (induction fmt depth es rule: compose_object.induct) (auto simp: tabs_def)

lemma element_length: "e \<in> set es \<Longrightarrow> length e \<le> length (compose_array fmt es)"
  by (induction fmt es rule: compose_array.induct) auto

lemma member_length: "(n, e) \<in> set es \<Longrightarrow> length n + length e \<le> length (compose_object fmt depth es)"
  by (induction fmt depth es rule: compose_object.induct) auto

lemma print_members_text:
  assumes "\<And>c s. c \<in> set ch \<Longrightarrow> gives_text s (f c depth s) (r c) (n c)"
    and "\<And>c. c \<in> set ch \<Longrightarrow> jstring c \<noteq> None \<and> NUL \<notin> set (the (jstring c)) \<and> length (quoted (the (jstring c))) + 64 \<le> 2 ^ 30"
  shows "gives_text s (print_members depth (zip (map jstring ch) (map f ch)) s) (map (\<lambda>c. (quoted (the (jstring c)), r c)) ch)
    (sum_list (map (\<lambda>c. Suc (n c)) ch))"
  using assms
proof (induction ch arbitrary: s)
  case (Cons c ch)
  obtain w where w: "jstring c = Some w" "NUL \<notin> set w" "length (quoted w) + 64 \<le> 2 ^ 30" using Cons.prems(2) [of c] by auto
  have "gives_text s (print_members depth (zip (map jstring ch) (map f ch)) s) (map (\<lambda>c. (quoted (the (jstring c)), r c)) ch)
    (sum_list (map (\<lambda>c. Suc (n c)) ch))" for s using Cons by simp
  then show ?case using print_string_text [OF w(2,3)] Cons.prems(1) [of c] w(1) unfolding gives_text_def by auto
qed (simp add: gives_return)

lemma gives_array:
  assumes "length (compose_array fmt es) + 64 \<le> 2 ^ 30"
  shows "gives_text s (alloc_text (int_of_size (5 + sum_list (map (\<lambda>e. length e + 2 + (if fmt then 1 else 0)) es)))
      ([CHR ''[''] @ compose_array fmt es @ [CHR '']'']) s) (CHR ''['' # compose_array fmt es @ [CHR '']'']) (Suc 0)"
proof -
  let ?w = "CHR ''['' # compose_array fmt es @ [CHR '']'']" and ?n = "sum_list (map (\<lambda>e. length e + 2 + (if fmt then 1 else 0)) es)"
  have "length ?w < 5 + ?n" "5 + ?n < 2 ^ 31"
    using assms length_compose_array [where fmt = fmt and es = es] by auto
  from gives_alloc [OF this] show ?thesis by simp
qed

lemma gives_object:
  assumes d: "0 \<le> depth" and len: "length (CHR ''{'' # (if fmt then [CHR 0x0A] else []) @ compose_object fmt (depth + 1) es
      @ (if fmt then tabs depth else []) @ [CHR ''}'']) + 64 \<le> 2 ^ 30"
  shows "gives_text s (alloc_text (int_of_size (7 + (if fmt then nat (depth + 1) else 0)
        + sum_list (map (\<lambda>(n, e). length e + length n + 2 + (if fmt then 2 + nat (depth + 1) else 0)) es)))
      ([CHR ''{''] @ (if fmt then [CHR 0x0A] else []) @ compose_object fmt (depth + 1) es @ (if fmt then tabs depth else []) @ [CHR ''}'']) s)
    (CHR ''{'' # (if fmt then [CHR 0x0A] else []) @ compose_object fmt (depth + 1) es @ (if fmt then tabs depth else []) @ [CHR ''}'']) (Suc 0)"
proof -
  let ?w = "CHR ''{'' # (if fmt then [CHR 0x0A] else []) @ compose_object fmt (depth + 1) es @ (if fmt then tabs depth else []) @ [CHR ''}'']"
  let ?f = "if fmt then nat (depth + 1) else 0"
  let ?n = "sum_list (map (\<lambda>(n, e). length e + length n + 2 + (if fmt then 2 + nat (depth + 1) else 0)) es)"
  have pow: "(2 :: nat) ^ 30 = 1073741824" "(2 :: nat) ^ 31 = 2147483648" by simp_all
  have "length ?w + 1 = 3 + ?f + length (compose_object fmt (depth + 1) es) + (if fmt then 0 else 0)"
    using d by (simp add: tabs_def nat_add_distrib)
  then have "length ?w < 7 + ?f + ?n" "7 + ?f + ?n < 2 ^ 31"
    using len length_compose_object [where fmt = fmt and depth = "depth + 1" and es = es] d unfolding pow
    by (cases fmt; simp add: tabs_def nat_add_distrib)+
  from gives_alloc [OF this] show ?thesis by simp
qed

lemma print_array_text:
  assumes "\<And>c s. c \<in> set ch \<Longrightarrow> gives_text s (f c (depth + 1) s) (r c) (n c)" and ne: "ch \<noteq> []"
    and len: "length (compose_array fmt (map r ch)) + 64 \<le> 2 ^ 30"
  shows "gives_text s (print_array fmt depth (map f ch) s) (CHR ''['' # compose_array fmt (map r ch) @ [CHR '']''])
    (Suc (sum_list (map n ch) + Suc 0))"
proof -
  have each: "gives_text s (print_each (depth + 1) (map f ch) s) (map r ch) (sum_list (map n ch))" for s
    by (rule print_each_text) (rule assms(1))
  note last = gives_array [OF len]
  have "gives_text s (jmalloc s (\<lambda>s. jbind (print_each (depth + 1) (map f ch) s) (\<lambda>es s.
        alloc_text (int_of_size (5 + sum_list (map (\<lambda>e. length e + 2 + (if fmt then 1 else 0)) es)))
          ([CHR ''[''] @ compose_array fmt es @ [CHR '']'']) s))) (CHR ''['' # compose_array fmt (map r ch) @ [CHR '']''])
    (Suc (sum_list (map n ch) + Suc 0))"
    by (intro gives_malloc gives_text_bind [OF each]) (rule last)
  then show ?thesis unfolding print_array_def using ne by simp
qed

lemma print_object_text:
  assumes "\<And>c s. c \<in> set ch \<Longrightarrow> gives_text s (f c (depth + 1) s) (r c) (n c)"
    and "\<And>c. c \<in> set ch \<Longrightarrow> jstring c \<noteq> None \<and> NUL \<notin> set (the (jstring c))" and ne: "ch \<noteq> []" and d: "0 \<le> depth"
    and len: "length (CHR ''{'' # (if fmt then [CHR 0x0A] else []) @ compose_object fmt (depth + 1) (map (\<lambda>c. (quoted (the (jstring c)), r c)) ch)
       @ (if fmt then tabs depth else []) @ [CHR ''}'']) + 64 \<le> 2 ^ 30"
  shows "gives_text s (print_object fmt depth (zip (map jstring ch) (map f ch)) s)
     (CHR ''{'' # (if fmt then [CHR 0x0A] else []) @ compose_object fmt (depth + 1) (map (\<lambda>c. (quoted (the (jstring c)), r c)) ch)
       @ (if fmt then tabs depth else []) @ [CHR ''}'']) (Suc (Suc (sum_list (map (\<lambda>c. Suc (n c)) ch) + Suc 0)))"
proof -
  let ?es = "map (\<lambda>c. (quoted (the (jstring c)), r c)) ch"
  have nm: "length (quoted (the (jstring c))) + 64 \<le> 2 ^ 30" if "c \<in> set ch" for c
    using member_length [of "quoted (the (jstring c))" "r c" ?es fmt "depth + 1"] that len by auto
  have mem: "gives_text s (print_members (depth + 1) (zip (map jstring ch) (map f ch)) s) ?es (sum_list (map (\<lambda>c. Suc (n c)) ch))" for s
    by (rule print_members_text) (use assms(1,2) nm in auto)
  have ne': "zip (map jstring ch) (map f ch) \<noteq> []" using ne by (cases ch) auto
  note last = gives_object [OF d len]
  show ?thesis unfolding print_object_def if_not_P [OF ne']
    by (intro gives_malloc gives_text_bind [OF mem]) (rule last)
qed

lemma print_value_text:
  assumes D: "number_formats D"
  shows "json_ok t \<Longrightarrow> 0 \<le> depth \<Longrightarrow> length (render D fmt t depth) + 64 \<le> 2 ^ 30 \<Longrightarrow> gives_text s (print_value D fmt t depth s) (render D fmt t depth) (print_allocs t)"
proof (induction t arbitrary: depth s)
  case (Item ty vs vi vd st ch)
  have c: "gives_text s (print_value D fmt c (depth + 1) s) (render D fmt c (depth + 1)) (print_allocs c)" if "c \<in> set ch" "length (render D fmt c (depth + 1)) + 64 \<le> 2 ^ 30" for c s
    using Item.IH [OF that(1), of "depth + 1" s] Item.prems that by (simp del: render_item)
  have vi: "-2147483648 \<le> vi" "vi \<le> 2147483647" and ty: "ty mod 256 \<le> 6" "0 \<le> ty mod 256" using Item.prems by auto
  consider "ty mod 256 = cJSON_NULL" | "ty mod 256 = cJSON_False" | "ty mod 256 = cJSON_True" | "ty mod 256 = cJSON_Number"
    | "ty mod 256 = cJSON_String" | "ty mod 256 = cJSON_Array" | "ty mod 256 = cJSON_Object"
    using ty by fastforce
  then show ?case
  proof cases
    case 4
    then show ?thesis using print_number_text [OF D vi] by simp
  next
    case 5
    then obtain w where "vs = Some w" "NUL \<notin> set w" "length (quoted w) + 64 \<le> 2 ^ 30" using Item.prems(1,3) by (cases vs) auto
    then show ?thesis using 5 print_string_text by simp
  next
    case 6
    show ?thesis
    proof (cases "ch = []")
      case False
      let ?a = "compose_array fmt (map (\<lambda>c. render D fmt c (depth + 1)) ch)"
      have len: "length ?a + 64 \<le> 2 ^ 30" using Item.prems(3) 6 False by simp
      have "length (render D fmt c (depth + 1)) + 64 \<le> 2 ^ 30" if "c \<in> set ch" for c
        using element_length [of "render D fmt c (depth + 1)" "map (\<lambda>c. render D fmt c (depth + 1)) ch" fmt] that len by simp
      then show ?thesis using 6 False print_array_text [where f = "print_value D fmt" and r = "\<lambda>c. render D fmt c (depth + 1)" and n = print_allocs, OF c False len]
        by (simp add: o_def)
    qed (use 6 in \<open>simp add: print_array_def gives_out\<close>)
  next
    case 7
    have nm: "jstring c \<noteq> None \<and> NUL \<notin> set (the (jstring c))" if "c \<in> set ch" for c
      using Item.prems(1) 7 that by (cases c) fastforce
    show ?thesis
    proof (cases "ch = []")
      case False
      let ?es = "map (\<lambda>c. (quoted (the (jstring c)), render D fmt c (depth + 1))) ch"
      have z: "zip (map (\<lambda>c. quoted (the (jstring c))) ch) (map (\<lambda>c. render D fmt c (depth + 1)) ch)
          = map (\<lambda>c. (quoted (the (jstring c)), render D fmt c (depth + 1))) ch"
        by (simp add: zip_map_map zip_same_conv_map)
      have len: "length (CHR ''{'' # (if fmt then [CHR 0x0A] else []) @ compose_object fmt (depth + 1) ?es
         @ (if fmt then tabs depth else []) @ [CHR ''}'']) + 64 \<le> 2 ^ 30" using Item.prems(3) 7 False by (simp add: z)
      have "length (render D fmt c (depth + 1)) + 64 \<le> 2 ^ 30" if "c \<in> set ch" for c
        using member_length [of "quoted (the (jstring c))" "render D fmt c (depth + 1)" ?es fmt "depth + 1"] that len by auto
      note ob = print_object_text [where f = "print_value D fmt" and r = "\<lambda>c. render D fmt c (depth + 1)" and n = print_allocs, OF c [OF _ this] nm False Item.prems(2) len]
      show ?thesis using 7 False ob
        by (simp add: o_def numeral_3_eq_3 z del: if_split)
    qed (use 7 in \<open>simp add: print_object_def gives_out tabs_def\<close>)
  qed (simp_all add: gives_out)
qed

end
