(* ===== verification/CJsonParse.thy ===== *)
theory CJsonParse
  imports CJsonPrint
begin

text \<open>
  What the JSON parser makes of a printed text: the lemmas \<open>parse_number_text\<close>, \<open>parse_string_text\<close>,
  \<open>reads_array\<close> and \<open>reads_object\<close> invert the printer piece by piece, \<open>reads_render\<close> puts them together, and the
  properties of the library follow.
\<close>

section \<open>What parsing a printed text gives back\<close>

text \<open>What the code relies on of \<open>double\<close>: integers up to \<open>2 ^ 53\<close> are exact (a zero may have a sign when a factor
  is negative).\<close>

definition exact_range :: "int \<Rightarrow> bool" where
  "exact_range a \<longleftrightarrow> - (2 ^ 53) \<le> a \<and> a \<le> 2 ^ 53"

definition exact_ints :: "'d dbl \<Rightarrow> bool" where
  "exact_ints D \<longleftrightarrow>
     (\<forall>a b. exact_range a \<longrightarrow> exact_range b \<longrightarrow>
        (exact_range (a + b) \<longrightarrow> d_add D (of_i D a) (of_i D b) = of_i D (a + b))
      \<and> (exact_range (a * b) \<longrightarrow> (0 \<le> a \<and> 0 \<le> b) \<or> (a \<noteq> 0 \<and> b \<noteq> 0) \<longrightarrow> d_mul D (of_i D a) (of_i D b) = of_i D (a * b))
      \<and> d_eq D (of_i D a) (of_i D b) = (a = b) \<and> d_le D (of_i D a) (of_i D b) = (a \<le> b))
     \<and> (\<forall>a. exact_range a \<longrightarrow> d_le D (fabs D (d_sub D (of_i D a) (of_i D a))) (EPSILON D))
     \<and> (\<forall>a. - 2147483648 \<le> a \<longrightarrow> a \<le> 2147483647 \<longrightarrow> to_i D (of_i D a) = a)
     \<and> pow10 D (of_i D 0) = of_i D 1"

definition end_char :: "char \<Rightarrow> bool" where
  "end_char x \<longleftrightarrow> \<not> is_digit x \<and> x \<noteq> CHR ''.'' \<and> x \<noteq> CHR ''e'' \<and> x \<noteq> CHR ''E''"

definition ends :: "ctext \<Rightarrow> bool" where
  "ends b = (case b of [] \<Rightarrow> False | x # _ \<Rightarrow> end_char x)"

definition starts :: "ctext \<Rightarrow> bool" where
  "starts b = (case b of [] \<Rightarrow> False | x # _ \<Rightarrow> code_of x > 32 \<and> x \<noteq> CHR '']'')"

definition blanks :: "char list \<Rightarrow> bool" where
  "blanks b \<longleftrightarrow> (\<forall>x\<in>set b. x \<noteq> NUL \<and> code_of x \<le> 32)"

lemma skip_blanks: "blanks sp \<Longrightarrow> code_of x > 32 \<Longrightarrow> skip (sp @ x # b) = Inr (x # b)"
  by (induction sp) (auto simp: blanks_def)

lemma skip_starts: "blanks sp \<Longrightarrow> starts t \<Longrightarrow> skip (sp @ t @ b) = Inr (t @ b)"
  by (cases t) (auto simp: starts_def skip_blanks)

lemma low_end_char: "code_of x \<le> 32 \<Longrightarrow> end_char x"
  unfolding end_char_def is_digit_def by (intro conjI notI) simp_all

lemma ends_blanks: "blanks sp \<Longrightarrow> end_char x \<Longrightarrow> ends (sp @ x # b)"
  by (cases sp) (simp_all add: ends_def blanks_def low_end_char)

lemma blanks_simps [simp]: "blanks []" "blanks (x # b) \<longleftrightarrow> x \<noteq> NUL \<and> code_of x \<le> 32 \<and> blanks b" "blanks (a @ b) \<longleftrightarrow> blanks a \<and> blanks b"
  by (auto simp: blanks_def)

lemma blanks_tabs [simp]: "blanks (tabs n)"
  by (auto simp: blanks_def tabs_def)

subsection \<open>Numbers\<close>

lemma digit_run_append:
  "\<forall>c\<in>set xs. is_digit c \<Longrightarrow> digit_run f x (xs @ b) = digit_run f (foldl (\<lambda>x c. f x (int (code_of c) - 48)) x xs) b"
  by (induction xs arbitrary: x) auto

lemma digit_run_end: "ends b \<Longrightarrow> digit_run f x b = Inr (x, b)"
  by (cases b) (auto simp: ends_def end_char_def)

lemma foldl_digits:
  assumes D: "exact_ints D"
  shows "int n \<le> 2 ^ 53 \<Longrightarrow> foldl (\<lambda>x c. mul10_add D x (int (code_of c) - 48)) (of_i D 0) (digits_of n) = of_i D (int n)"
proof (induction n rule: digits_of.induct)
  case (1 n)
  have d: "int (code_of (char_of (48 + n mod 10) :: char)) - 48 = int (n mod 10)"
    using digit_char [of "n mod 10"] by simp
  have e: "int (n div 10) * 10 + int (n mod 10) = int n" by presburger
  have q: "int (n div 10) \<le> 2 ^ 53" "int (n div 10) * 10 \<le> 2 ^ 53" "int (n mod 10) \<le> 2 ^ 53" using e 1(2) by linarith+
  have "mul10_add D (of_i D (int (n div 10))) (int (n mod 10)) = of_i D (int n)"
    using D q e 1(2) unfolding exact_ints_def mul10_add_def exact_range_def by simp
  moreover have "of_i D (int (n div 10)) = of_i D 0" if "n < 10" using that by simp
  ultimately show ?case using 1(1) q(1) d by (subst digits_of.simps) (cases "n < 10", auto)
qed

lemma digits_of_head: "0 < n \<Longrightarrow> \<exists>c ds. digits_of n = c # ds \<and> is_digit c \<and> c \<noteq> CHR ''0''"
proof (induction n rule: digits_of.induct)
  case (1 n)
  show ?case
  proof (cases "n < 10")
    case True
    have "code_of (char_of (48 + n) :: char) = 48 + n" using True by simp
    then have "(char_of (48 + n) :: char) \<noteq> CHR ''0''" using 1(2) by (intro notI) simp
    then show ?thesis using True digit_char [of n] by (subst digits_of.simps) simp
  next
    case False
    then have "0 < n div 10" by (simp add: div_greater_zero_iff)
    then obtain c ds where "digits_of (n div 10) = c # ds" "is_digit c" "c \<noteq> CHR ''0''" using 1(1) [OF False] by blast
    then show ?thesis using False by (subst digits_of.simps) simp
  qed
qed

lemma sign_not_digit: "\<not> is_digit CHR ''-''"
  by (simp add: is_digit_def)

lemma zero_digit: "is_digit CHR ''0''"
  by (simp add: is_digit_def)

lemma decimal_0: "decimal 0 = ''0''"
  by code_simp

lemma parse_number_text:
  assumes D: "exact_ints D" and i: "-2147483648 \<le> i" "i \<le> 2147483647" and b: "ends b"
  shows "parse_number D it (decimal i @ b) = Inr (Item cJSON_Number (valuestring it) i (of_i D i) (jstring it) (child it), b)"
proof -
  obtain x b' where x: "b = x # b'" "\<not> is_digit x" "x \<noteq> CHR ''.''" "x \<noteq> CHR ''e''" "x \<noteq> CHR ''E''" "x \<noteq> CHR ''0''"
    using b zero_digit by (cases b) (auto simp: ends_def end_char_def)
  have r0: "d_add D (of_i D 0) (of_i D (0 * 1)) = of_i D 0" and p0: "pow10 D (of_i D 0) = of_i D 1"
    and toi: "to_i D (of_i D i) = i"
    using D i unfolding exact_ints_def exact_range_def by simp_all
  have m: "d_mul D (d_mul D (of_i D sg) (of_i D n)) (of_i D 1) = of_i D (sg * n)"
    if "sg = 1 \<and> 0 \<le> n \<or> sg = -1 \<and> 0 < n" "n \<le> 2147483648" for sg n
    using D that unfolding exact_ints_def exact_range_def by auto
  show ?thesis
  proof (cases "i = 0")
    case True
    then show ?thesis using x r0 p0 toi m [of 1 0]
      by (simp add: decimal_0 parse_number_def peek_def Let_def zero_digit)
  next
    case False
    define n where "n = nat \<bar>i\<bar>"
    have n: "0 < n" "int n = \<bar>i\<bar>" using False by (auto simp: n_def)
    obtain c ds where c: "digits_of n = c # ds" "is_digit c" "c \<noteq> CHR ''0''" using digits_of_head [OF n(1)] by blast
    have c': "c \<noteq> CHR ''-''" using c(2) sign_not_digit by auto
    have fold: "foldl (\<lambda>x c. mul10_add D x (int (code_of c) - 48)) (of_i D 0) (digits_of n) = of_i D (int n)"
      by (rule foldl_digits [OF D]) (use n i in simp)
    have run: "digit_run (mul10_add D) (of_i D 0) (c # ds @ b) = Inr (of_i D (int n), b)"
      using digit_run_append [of "digits_of n" "mul10_add D" "of_i D 0" b] fold digit_run_end [OF b] digits_of_digit [of _ n] c(1) by simp
    have dec: "decimal i = (if i < 0 then [CHR ''-''] else []) @ c # ds"
      using c(1) n by (auto simp: decimal_def n_def)
    have mi: "d_mul D (d_mul D (of_i D (if i < 0 then -1 else 1)) (of_i D (int n))) (of_i D 1) = of_i D i"
      using m [of "if i < 0 then -1 else 1" "int n"] n i by auto
    show ?thesis
    proof (cases "i < 0")
      case True
      then show ?thesis using dec c c' run x r0 p0 toi mi by (simp add: parse_number_def peek_def Let_def)
    next
      case False
      then show ?thesis using dec c c' run x r0 p0 toi mi by (simp add: parse_number_def peek_def Let_def)
    qed
  qed
qed

subsection \<open>Strings\<close>

lemma hex_digit_value: "d < 16 \<Longrightarrow> hex_value (hex_digit d) = Some d"
  by (auto simp: hex_value_def hex_digit_def Let_def)

lemma parse_hex4_digits:
  "a < 16 \<Longrightarrow> b < 16 \<Longrightarrow> c < 16 \<Longrightarrow> d < 16 \<Longrightarrow>
   parse_hex4 (hex_digit a # hex_digit b # hex_digit c # hex_digit d # r) = Inr (16 * (16 * (16 * a + b) + c) + d)"
  by (simp add: parse_hex4_def numeral_eq_Suc hex_digit_value peek_def) 

lemma not_short: "map_of short_escapes c = None \<Longrightarrow> c \<noteq> CHR 0x22 \<and> c \<noteq> CHR 0x5C"
  by (auto simp: short_escapes_def)

lemma escape_cases:
  assumes "c \<noteq> NUL"
  obtains "escape c = [c]" "c \<noteq> CHR 0x22" "c \<noteq> CHR 0x5C"
  | e where "(c, e) \<in> set short_escapes" "escape c = [CHR 0x5C, e]"
  | "escape c = [CHR 0x5C, CHR ''u'', hex_digit 0, hex_digit 0, hex_digit (code_of c div 16), hex_digit (code_of c mod 16)]"
    "0 < code_of c" "code_of c < 32"
proof -
  consider "code_of c > 31 \<and> c \<noteq> CHR 0x22 \<and> c \<noteq> CHR 0x5C" | e where "map_of short_escapes c = Some e"
    | "code_of c < 32" "map_of short_escapes c = None"
    using not_short by (cases "map_of short_escapes c") fastforce+
  then show ?thesis
  proof cases
    case 1
    then show ?thesis using that(1) by (simp add: escape_def)
  next
    case (2 e)
    then have m: "(c, e) \<in> set short_escapes" by (rule map_of_SomeD)
    then have "\<not> (code_of c > 31 \<and> c \<noteq> CHR 0x22 \<and> c \<noteq> CHR 0x5C)" by (auto simp: short_escapes_def)
    then show ?thesis using that(2) [OF m] 2 by (simp add: escape_def)
  next
    case 3
    have "0 < code_of c" using code_of_0 [of c] assms by simp
    then show ?thesis using that(3) 3 by (simp add: escape_def)
  qed
qed

lemma copy_escape:
  assumes "c \<noteq> NUL"
  shows "copy_string (escape c @ b) (Suc room) out = copy_string b room (out @ [c])"
  using assms
proof (cases rule: escape_cases)
  case 1
  then show ?thesis using assms by (subst copy_string.simps) (simp add: peek_def)
next
  case (2 e)
  then show ?thesis by (subst copy_string.simps) (auto simp: peek_def short_escapes_def unescape_def)
next
  case 3
  have h: "parse_hex4 (hex_digit 0 # hex_digit 0 # hex_digit (code_of c div 16) # hex_digit (code_of c mod 16) # b) = Inr (code_of c)"
    using 3 by (subst parse_hex4_digits) auto
  have u: "utf8_bytes (code_of c) = [c]" using 3 by (simp add: utf8_bytes_def)
  show ?thesis using 3 by (subst copy_string.simps) (simp add: peek_def unescape_def unescape_u_def h u Let_def)
qed

lemma copy_prefix: "NUL \<notin> set w \<Longrightarrow> copy_string (concat (map escape w) @ b) (length w + room) out = copy_string b room (out @ w)"
  by (induction w arbitrary: out) (auto simp: copy_escape)

lemma copy_text: "NUL \<notin> set w \<Longrightarrow> length w < room \<Longrightarrow>
    copy_string (concat (map escape w) @ CHR 0x22 # b) room out = Inr (out @ w, CHR 0x22 # b)"
  using copy_prefix [of w "CHR 0x22 # b" "room - length w" out] copy_string.simps [of "CHR 0x22 # b"] by (simp add: peek_def)

lemma hex_digit_plain: "d < 16 \<Longrightarrow> hex_digit d \<noteq> CHR 0x22 \<and> hex_digit d \<noteq> NUL \<and> hex_digit d \<noteq> CHR 0x5C"
proof -
  have "hex_value CHR 0x22 = None" "hex_value NUL = None" "hex_value CHR 0x5C = None" by code_simp+
  then show "d < 16 \<Longrightarrow> ?thesis" using hex_digit_value [of d] by (intro conjI notI) simp_all
qed

lemma scan_escape:
  assumes "c \<noteq> NUL"
  shows "\<exists>k. scan_string (escape c @ b) n = scan_string b (Suc (n + k))"
  using assms
proof (cases rule: escape_cases)
  case 1
  then show ?thesis using assms by (intro exI [of _ 0]) simp
next
  case (2 e)
  then show ?thesis by (intro exI [of _ 0]) simp
next
  case 3
  have "scan_string (escape c @ b) n = scan_string b (Suc (n + Suc (Suc (Suc (Suc 0)))))"
    using 3 hex_digit_plain [of 0] hex_digit_plain [of "code_of c div 16"] hex_digit_plain [of "code_of c mod 16"]
    by (simp add: less_mult_imp_div_less)
  then show ?thesis ..
qed

lemma scan_prefix: "NUL \<notin> set w \<Longrightarrow> \<exists>m\<ge>n + length w. scan_string (concat (map escape w) @ b) n = scan_string b m"
proof (induction w arbitrary: n)
  case (Cons c w)
  obtain k where k: "scan_string (escape c @ concat (map escape w) @ b) n = scan_string (concat (map escape w) @ b) (Suc (n + k))"
    using scan_escape [of c] Cons.prems by auto
  obtain m where "Suc (n + k) + length w \<le> m" "scan_string (concat (map escape w) @ b) (Suc (n + k)) = scan_string b m"
    using Cons.IH [of "Suc (n + k)"] Cons.prems by auto
  then show ?case using k by (intro exI [of _ m]) simp
qed auto

lemma parse_string_text:
  assumes w: "NUL \<notin> set w" and s: "0 < mem s"
  shows "parse_string it (quoted w @ b) s =
     Inr (Some (Item cJSON_String (Some w) (valueint it) (valuedouble it) (jstring it) (child it), b), s\<lparr>mem := mem s - 1\<rparr>)"
proof -
  obtain m where m: "scan_string (concat (map escape w) @ CHR 0x22 # b) 0 = Inr m" "length w \<le> m"
    using scan_prefix [OF w, of 0 "CHR 0x22 # b"] by auto
  have "copy_string (concat (map escape w) @ CHR 0x22 # b) (Suc m) [] = Inr (w, CHR 0x22 # b)"
    using copy_text [OF w, of "Suc m" b "[]"] m(2) by simp
  then show ?thesis using m(1) s by (simp add: parse_string_def quoted_escape peek_def jmalloc_def Let_def)
qed

lemma escape_NUL:
  assumes "c \<noteq> NUL"
  shows "NUL \<notin> set (escape c)"
  using assms
proof (cases rule: escape_cases)
  case 1
  then show ?thesis using assms by simp
next
  case (2 e)
  then show ?thesis by (auto simp: short_escapes_def)
next
  case 3
  then show ?thesis using hex_digit_plain [of 0] hex_digit_plain [of "code_of c div 16"] hex_digit_plain [of "code_of c mod 16"]
    by (auto simp: less_mult_imp_div_less)
qed

lemma quoted_NUL:
  assumes "NUL \<notin> set w"
  shows "NUL \<notin> set (quoted w)"
proof -
  have "NUL \<notin> set (escape c)" if "c \<in> set w" for c using that assms by (intro escape_NUL) auto
  then show ?thesis unfolding quoted_escape by simp
qed

subsection \<open>Arrays and objects\<close>

text \<open>Trees as the parser builds them: only the fields of the value are set.\<close>

fun parsed :: "'d dbl \<Rightarrow> 'd cJSON \<Rightarrow> bool" where
  "parsed D (Item ty vs vi vd st ch) \<longleftrightarrow>
     (if ty = cJSON_String then vs \<noteq> None \<and> NUL \<notin> set (the vs) else vs = None)
     \<and> (if ty = cJSON_Number then -2147483648 \<le> vi \<and> vi \<le> 2147483647 else vi = (if ty = cJSON_True then 1 else 0))
     \<and> vd = of_i D (if ty = cJSON_Number then vi else 0)
     \<and> 0 \<le> ty \<and> ty \<le> 6 \<and> (ty < cJSON_Array \<longrightarrow> ch = [])
     \<and> (\<forall>c\<in>set ch. parsed D c \<and> (if ty = cJSON_Object then jstring c \<noteq> None \<and> NUL \<notin> set (the (jstring c)) else jstring c = None))"

text \<open>The allocations of a parse below the item itself, and the nesting that bounds the recursion.\<close>

primrec allocs :: "'d cJSON \<Rightarrow> nat" where
  "allocs (Item ty vs vi vd st ch) =
     (if ty = cJSON_String then 1 else 0) + sum_list (map (\<lambda>a. a + (if ty = cJSON_Object then 2 else 1)) (map allocs ch))"

primrec nesting :: "'d cJSON \<Rightarrow> nat" where
  "nesting (Item ty vs vi vd st ch) = Suc (foldr max (map nesting ch) 0)"

lemma nesting_child: "c \<in> set ch \<Longrightarrow> nesting c \<le> foldr max (map nesting ch) 0"
  by (induction ch) auto

text \<open>What a value parser has to do for the texts \<open>r c\<close> of some items.\<close>

definition reads :: "'d dbl \<Rightarrow> 'd value_parser \<Rightarrow> ('d cJSON \<Rightarrow> char list) \<Rightarrow> 'd cJSON \<Rightarrow> bool" where
  "reads D pv r c \<longleftrightarrow> starts (r c) \<and> (\<forall>ty b s. ends b \<longrightarrow> allocs c \<le> mem s \<longrightarrow>
     pv (Item ty None 0 (of_i D 0) (jstring c) []) (r c @ b) s = Inr (Some (c, b), s\<lparr>mem := mem s - allocs c\<rparr>))"

lemma reads_starts: "reads D pv r c \<Longrightarrow> starts (r c)"
  by (simp add: reads_def)

lemma reads_value:
  "reads D pv r c \<Longrightarrow> ends b \<Longrightarrow> allocs c \<le> mem s \<Longrightarrow>
   pv (Item ty None 0 (of_i D 0) (jstring c) []) (r c @ b) s = Inr (Some (c, b), s\<lparr>mem := mem s - allocs c\<rparr>)"
  by (simp add: reads_def)

lemma jbind_Inr [simp]: "jbind (Inr (Some x, s)) f = f x s"
  by (simp add: jbind_def)

lemma peek_Cons [simp]: "peek (x # b) = Inr x"
  by (simp add: peek_def)

lemma end_punctuation [simp]: "end_char CHR '',''" "end_char CHR '']''" "end_char CHR ''}''" "end_char NUL" "end_char (CHR 0x0A)"
  by code_simp+

lemma parse_elems_text:
  assumes "\<And>c. c \<in> set ch \<Longrightarrow> reads D pv r c \<and> jstring c = None" "ch \<noteq> []" "length ch \<le> n" "blanks sp"
    "sum_list (map (\<lambda>c. allocs c + 1) ch) \<le> mem s"
  shows "parse_elems D pv n it acc (sp @ compose_array fmt (map r ch) @ CHR '']'' # b) s =
    Inr (Some (set_child (acc @ ch) it, b), s\<lparr>mem := mem s - sum_list (map (\<lambda>c. allocs c + 1) ch)\<rparr>)"
  using assms
proof (induction ch arbitrary: n acc sp s)
  case (Cons c ch)
  obtain m where n: "n = Suc m" using Cons.prems(3) by (cases n) auto
  have c: "reads D pv r c" "jstring c = None" using Cons.prems(1) [of c] by auto
  have s: "mem s \<noteq> 0" "allocs c \<le> mem s - 1" using Cons.prems(5) by auto
  have v: "pv (Item 0 None 0 (of_i D 0) None []) (r c @ x) (s\<lparr>mem := mem s - 1\<rparr>)
      = Inr (Some (c, x), s\<lparr>mem := mem s - 1 - allocs c\<rparr>)" if "ends x" for x
    using reads_value [OF c(1) that, of "s\<lparr>mem := mem s - 1\<rparr>" 0] s c(2) by simp
  note sk = skip_starts [OF Cons.prems(4) reads_starts [OF c(1)]]
  show ?case
  proof (cases ch)
    case Nil
    have "ends (CHR '']'' # b)" by (simp add: ends_def)
    from v [OF this] show ?thesis
      using sk Nil n s by (simp add: cJSON_New_Item_def jmalloc_def skip_blanks [of "[]", simplified])
  next
    case (Cons c' ch')
    let ?sp = "if fmt then [CHR '' ''] else []"
    let ?x = "CHR '','' # ?sp @ compose_array fmt (map r ch) @ CHR '']'' # b"
    have e: "ends ?x" by (simp add: ends_def)
    have ih: "parse_elems D pv m it (acc @ [c]) (?sp @ compose_array fmt (map r ch) @ CHR '']'' # b) (s\<lparr>mem := mem s - 1 - allocs c\<rparr>) =
      Inr (Some (set_child ((acc @ [c]) @ ch) it, b), s\<lparr>mem := mem s - 1 - allocs c - sum_list (map (\<lambda>c. allocs c + 1) ch)\<rparr>)"
      by (subst Cons.IH) (use Cons.prems n Cons in auto)
    have t: "compose_array fmt (map r (c # ch)) @ CHR '']'' # b = r c @ ?x" using Cons by simp
    show ?thesis unfolding t n using sk s ih v [OF e]
      by (simp add: cJSON_New_Item_def jmalloc_def skip_blanks [of "[]", simplified])
  qed
qed simp

lemma quoted_starts: "starts (quoted w)"
  by (simp add: quoted_escape starts_def)

lemma blanks_if [simp]: "blanks (if fmt then [CHR '' ''] else [])" "blanks (if fmt then [CHR 0x0A] else [])"
    "blanks (if fmt then [CHR 0x09] else [])" "blanks (if fmt then tabs d else [])"
  by (simp_all add: blanks_def tabs_def)

lemma blanks_punctuation:
  "blanks sp \<Longrightarrow> skip (sp @ CHR '','' # b) = Inr (CHR '','' # b)"
  "blanks sp \<Longrightarrow> skip (sp @ CHR ''}'' # b) = Inr (CHR ''}'' # b)"
  "skip (CHR '','' # b) = Inr (CHR '','' # b)" "skip (CHR '':'' # b) = Inr (CHR '':'' # b)"
  by (simp_all add: skip_blanks)

lemma parse_members_text:
  assumes "\<And>c. c \<in> set ch \<Longrightarrow> reads D pv r c \<and> jstring c \<noteq> None \<and> NUL \<notin> set (the (jstring c))" "ch \<noteq> []" "length ch \<le> n"
    "blanks sp" "blanks sq" "sum_list (map (\<lambda>c. allocs c + 2) ch) \<le> mem s"
  shows "parse_members D pv n it acc (sp @ compose_object fmt d (map (\<lambda>c. (quoted (the (jstring c)), r c)) ch) @ sq @ CHR ''}'' # b) s =
    Inr (Some (set_child (acc @ ch) it, b), s\<lparr>mem := mem s - sum_list (map (\<lambda>c. allocs c + 2) ch)\<rparr>)"
  using assms
proof (induction ch arbitrary: n acc sp s)
  case (Cons c ch)
  let ?es = "map (\<lambda>c. (quoted (the (jstring c)), r c))"
  obtain m where n: "n = Suc m" using Cons.prems(3) by (cases n) auto
  obtain w where c: "reads D pv r c" "jstring c = Some w" "NUL \<notin> set w" using Cons.prems(1) [of c] by auto
  have s: "1 < mem s" "allocs c \<le> mem s - 2" using Cons.prems(6) by auto
  let ?s2 = "s\<lparr>mem := mem s - 2\<rparr>" and ?sp1 = "sp @ (if fmt then tabs d else [])"
  let ?ht = "if fmt then [CHR 0x09] else []" and ?nl = "if fmt then [CHR 0x0A] else []"
  define s3 where "s3 = s\<lparr>mem := mem s - 2 - allocs c\<rparr>"
  have name: "parse_string (Item 0 None 0 (of_i D 0) None []) (quoted w @ x) (s\<lparr>mem := mem s - 1\<rparr>)
      = Inr (Some (Item cJSON_String (Some w) 0 (of_i D 0) None [], x), ?s2)" for x
    using parse_string_text [OF c(3), of "s\<lparr>mem := mem s - 1\<rparr>" "Item 0 None 0 (of_i D 0) None []" x] s by (simp add: numeral_2_eq_2)
  have v: "pv (Item cJSON_String None 0 (of_i D 0) (Some w) []) (r c @ x) ?s2
      = Inr (Some (c, x), s3)" if "ends x" for x
    using reads_value [OF c(1) that, of ?s2 cJSON_String] s c(2) by (simp add: s3_def)
  have sk1: "skip (?sp1 @ quoted w @ x) = Inr (quoted w @ x)" for x
    using skip_starts [of ?sp1 "quoted w" x] Cons.prems(4) quoted_starts by simp
  have sk2: "skip (?ht @ r c @ x) = Inr (r c @ x)" for x
    using skip_starts [of ?ht "r c" x] reads_starts [OF c(1)] by simp
  have one: "parse_members D pv (Suc m) it acc (?sp1 @ quoted w @ CHR '':'' # ?ht @ r c @ x) s =
      rbind (skip x) (\<lambda>v. rbind (peek v) (\<lambda>y.
       if y = CHR '','' then parse_members D pv m it (acc @ [c]) (tl v) s3
       else if y = CHR ''}'' then Inr (Some (set_child (acc @ [c]) it, tl v), s3)
       else parse_fails v s3))" if "ends x" for x
    using s v [OF that] sk1 name sk2
    by (simp add: cJSON_New_Item_def jmalloc_def blanks_punctuation name_of_value_def Let_def)
  show ?case
  proof (cases ch)
    case Nil
    have e: "ends ((?nl @ sq) @ CHR ''}'' # b)" by (rule ends_blanks) (use Cons.prems(5) in simp_all)
    have "skip ((?nl @ sq) @ CHR ''}'' # b) = Inr (CHR ''}'' # b)" by (rule blanks_punctuation) (use Cons.prems(5) in simp)
    then show ?thesis using one [OF e] Nil n c(2) by (simp add: s3_def diff_diff_eq)
  next
    case (Cons c' ch')
    let ?x = "CHR '','' # ?nl @ compose_object fmt d (?es ch) @ sq @ CHR ''}'' # b"
    have e: "ends ?x" by (simp add: ends_def)
    have ih: "parse_members D pv m it (acc @ [c]) (?nl @ compose_object fmt d (?es ch) @ sq @ CHR ''}'' # b) s3 =
      Inr (Some (set_child ((acc @ [c]) @ ch) it, b), s3\<lparr>mem := mem s3 - sum_list (map (\<lambda>c. allocs c + 2) ch)\<rparr>)"
      by (subst Cons.IH) (use Cons.prems n Cons in \<open>auto simp: s3_def\<close>)
    have t: "sp @ compose_object fmt d (?es (c # ch)) @ sq @ CHR ''}'' # b = ?sp1 @ quoted w @ CHR '':'' # ?ht @ r c @ ?x"
      using Cons c(2) by (simp add: s3_def)
    have "skip ?x = Inr ?x" by (rule blanks_punctuation)
    then show ?thesis unfolding t n using one [OF e] ih by (simp add: s3_def diff_diff_eq add.commute)
  qed
qed simp

lemma number_text_int:
  assumes "exact_ints D" "-2147483648 \<le> i" "i \<le> 2147483647"
  shows "number_text D i (of_i D i) = decimal i"
  using assms decimal_0 unfolding number_text_def exact_ints_def exact_range_def by auto

lemma decimal_head: "\<exists>x b. decimal i = x # b \<and> (x = CHR ''-'' \<or> is_digit x)"
  using digits_of_nonempty digits_of_digit by (cases "decimal i") (use decimal_chars [of _ i] decimal_pos [of i] in auto)

lemma digit_other:
  "is_digit x \<Longrightarrow> x \<noteq> CHR ''n'' \<and> x \<noteq> CHR ''f'' \<and> x \<noteq> CHR ''t'' \<and> x \<noteq> CHR 0x22 \<and> x \<noteq> CHR '']'' \<and> 32 < code_of x"
  by (auto simp: is_digit_def)

lemma brackets_not_digit: "\<not> is_digit CHR ''[''" "\<not> is_digit CHR ''{''"
  by code_simp+

lemma length_starts: "\<forall>c\<in>set ch. starts (r c) \<Longrightarrow> length ch \<le> length (compose_array fmt (map r ch))"
proof (induction ch)
  case (Cons c ch)
  then have "0 < length (r c)" by (cases "r c") (auto simp: starts_def)
  then show ?case using Cons by (cases ch) (auto simp: Suc_le_eq)
qed simp

lemma length_members: "length ch \<le> length (compose_object fmt d (map (\<lambda>c. (f c, r c)) ch))"
  by (induction ch) auto

lemma reads_array:
  assumes "\<And>c. c \<in> set ch \<Longrightarrow> reads D pv r c \<and> jstring c = None" "sum_list (map (\<lambda>c. allocs c + 1) ch) \<le> mem s" "ch \<noteq> []"
  shows "parse_array D pv it (CHR ''['' # compose_array fmt (map r ch) @ CHR '']'' # b) s =
    Inr (Some (set_child ch (set_type cJSON_Array (valueint it) it), b), s\<lparr>mem := mem s - sum_list (map (\<lambda>c. allocs c + 1) ch)\<rparr>)"
proof -
  let ?t = "compose_array fmt (map r ch)"
  obtain c ch' where ch: "ch = c # ch'" using assms(3) by (cases ch) auto
  have st: "\<forall>c\<in>set ch. starts (r c)" using assms(1) by (auto intro: reads_starts)
  obtain x y where r: "r c = x # y" "32 < code_of x" "x \<noteq> CHR '']''"
    using st ch by (cases "r c") (auto simp: starts_def)
  obtain z where t: "?t = x # z" using ch r(1) by (cases ch') auto
  have "skip (?t @ CHR '']'' # b) = Inr (?t @ CHR '']'' # b)" using t r(2) by simp
  moreover have "length ch \<le> length (?t @ CHR '']'' # b)" using length_starts [OF st, of fmt] by simp
  from parse_elems_text [OF assms(1) assms(3) this _ assms(2), of "[]"]
  have "parse_elems D pv (length (?t @ CHR '']'' # b)) it' [] (?t @ CHR '']'' # b) s =
    Inr (Some (set_child ch it', b), s\<lparr>mem := mem s - sum_list (map (\<lambda>c. allocs c + 1) ch)\<rparr>)" for it' by simp
  ultimately show ?thesis using r(3) t by (simp add: parse_array_def)
qed

lemma skip_skipped: "skip v = Inr v' \<Longrightarrow> skip v' = Inr v'"
  by (induction v rule: skip.induct) (auto split: if_splits)

lemma parse_members_skipped: "skip v = Inr v' \<Longrightarrow> parse_members D pv n it acc v' s = parse_members D pv n it acc v s"
  using skip_skipped [of v v'] by (cases n) (simp_all add: cJSON_New_Item_def jmalloc_def)

lemma reads_object:
  assumes "\<And>c. c \<in> set ch \<Longrightarrow> reads D pv r c \<and> jstring c \<noteq> None \<and> NUL \<notin> set (the (jstring c))"
    "sum_list (map (\<lambda>c. allocs c + 2) ch) \<le> mem s" "ch \<noteq> []" "blanks sp" "blanks sq"
  shows "parse_object D pv it (CHR ''{'' # sp @ compose_object fmt d (map (\<lambda>c. (quoted (the (jstring c)), r c)) ch) @ sq @ CHR ''}'' # b) s =
    Inr (Some (set_child ch (set_type cJSON_Object (valueint it) it), b), s\<lparr>mem := mem s - sum_list (map (\<lambda>c. allocs c + 2) ch)\<rparr>)"
proof -
  let ?es = "map (\<lambda>c. (quoted (the (jstring c)), r c))" and ?tb = "if fmt then tabs d else []"
  let ?r = "sq @ CHR ''}'' # b"
  obtain c ch' where ch: "ch = c # ch'" using assms(3) by (cases ch) auto
  define z where "z = concat (map escape (the (jstring c))) @ [CHR 0x22, CHR '':''] @ (if fmt then [CHR 0x09] else []) @ r c
    @ (if ?es ch' \<noteq> [] then [CHR '',''] else []) @ (if fmt then [CHR 0x0A] else []) @ compose_object fmt d (?es ch') @ ?r"
  have z: "compose_object fmt d (?es ch) @ ?r = ?tb @ CHR 0x22 # z" by (simp add: ch z_def quoted_escape)
  have sk: "skip (sp @ compose_object fmt d (?es ch) @ ?r) = Inr (CHR 0x22 # z)"
    unfolding z using skip_blanks [of "sp @ ?tb" "CHR 0x22" z] assms(4) by simp
  have "length ch \<le> length (CHR 0x22 # z)"
    using length_members [of ch' fmt d "\<lambda>c. quoted (the (jstring c))" r] by (simp add: ch z_def)
  note parse_members_text [OF assms(1) assms(3) this assms(4,5,2), where fmt = fmt and d = d and b = b and acc = "[]",
    folded parse_members_skipped [OF sk]]
  then show ?thesis using sk by (simp add: parse_object_def)
qed

lemma reads_render:
  assumes D: "exact_ints D"
  shows "parsed D t \<Longrightarrow> nesting t \<le> k \<Longrightarrow> reads D (parse_value D k) (\<lambda>t. render D fmt t depth) t"
proof (induction t arbitrary: k depth)
  case (Item ty vs vi vd st ch)
  obtain m where k: "k = Suc m" "foldr max (map nesting ch) 0 \<le> m" using Item.prems(2) by (cases k) auto
  have c: "reads D (parse_value D m) (\<lambda>t. render D fmt t (depth + 1)) c" if "c \<in> set ch" for c
    by (rule Item.IH [OF that]) (use Item.prems(1) that k(2) nesting_child [OF that] in auto)
  consider "ty = cJSON_False" | "ty = cJSON_True" | "ty = cJSON_NULL" | "ty = cJSON_Number" | "ty = cJSON_String" | "ty = cJSON_Array" | "ty = cJSON_Object"
    using Item.prems(1) by fastforce
  then show ?case
  proof cases
    case 4
    have i: "-2147483648 \<le> vi" "vi \<le> 2147483647" "vd = of_i D vi" "vs = None" "ch = []" using Item.prems(1) 4 by auto
    obtain x z where x: "decimal vi = x # z" "x = CHR ''-'' \<or> is_digit x" using decimal_head [of vi] by blast
    have o: "x \<noteq> CHR ''n''" "x \<noteq> CHR ''f''" "x \<noteq> CHR ''t''" "x \<noteq> CHR 0x22" "x \<noteq> CHR '']''" "32 < code_of x"
      using x(2) digit_other [of x] by auto
    have "parse_number D (Item ty0 None 0 (of_i D 0) st []) (x # z @ b) = Inr (Item cJSON_Number None vi (of_i D vi) st [], b)" if "ends b" for ty0 b
      using parse_number_text [OF D i(1,2) that, of "Item ty0 None 0 (of_i D 0) st []"] x(1) by simp
    then show ?thesis unfolding reads_def using 4 i x o number_text_int [OF D i(1,2)] by (simp add: starts_def k(1))
  next
    case 5
    obtain w where w: "vs = Some w" "NUL \<notin> set w" "vi = 0" "vd = of_i D 0" "ch = []" using Item.prems(1) 5 by auto
    have "parse_value D k it (CHR 0x22 # z) s = parse_string it (CHR 0x22 # z) s" for it z s
      by (simp add: k(1))
    then show ?thesis unfolding reads_def
      using 5 w quoted_starts [of w] by (simp add: quoted_escape Suc_le_eq parse_string_text [OF w(2), unfolded quoted_escape, simplified])
  next
    case 6
    have f: "vi = 0" "vd = of_i D 0" "vs = None" using Item.prems(1) 6 by auto
    have pa: "parse_value D k it (CHR ''['' # z) s = parse_array D (parse_value D m) it (CHR ''['' # z) s" for it z s
      by (simp add: k(1) brackets_not_digit)
    show ?thesis
    proof (cases "ch = []")
      case True
      then show ?thesis using 6 f pa by (simp add: reads_def starts_def parse_array_def set_type_def)
    next
      case False
      have "reads D (parse_value D m) (\<lambda>t. render D fmt t (depth + 1)) c \<and> jstring c = None" if "c \<in> set ch" for c
        using c [OF that] Item.prems(1) 6 that by auto
      note ra = reads_array [OF this _ False]
      then show ?thesis using 6 f False
        by (simp add: reads_def starts_def pa set_type_def set_child_def o_def)
    qed
  next
    case 7
    have f: "vi = 0" "vd = of_i D 0" "vs = None" using Item.prems(1) 7 by auto
    have po: "parse_value D k it (CHR ''{'' # z) s = parse_object D (parse_value D m) it (CHR ''{'' # z) s" for it z s
      by (simp add: k(1) brackets_not_digit)
    show ?thesis
    proof (cases "ch = []")
      case True
      have "skip (CHR 0x0A # tabs (depth - 1) @ CHR ''}'' # b) = Inr (CHR ''}'' # b)" for b
        using skip_blanks [of "CHR 0x0A # tabs (depth - 1)" "CHR ''}''" b] by simp
      then show ?thesis using True 7 f po by (simp add: reads_def starts_def parse_object_def set_type_def)
    next
      case False
      have "reads D (parse_value D m) (\<lambda>t. render D fmt t (depth + 1)) c \<and> jstring c \<noteq> None \<and> NUL \<notin> set (the (jstring c))"
        if "c \<in> set ch" for c using c [OF that] Item.prems(1) 7 that by auto
      note ro = reads_object [OF this _ False blanks_if(2) blanks_if(4), where d = "depth + 1"]
      have z: "zip (map (\<lambda>c. quoted (the (jstring c))) ch) (map (\<lambda>c. render D fmt c (depth + 1)) ch)
          = map (\<lambda>c. (quoted (the (jstring c)), render D fmt c (depth + 1))) ch"
        by (simp add: zip_map_map zip_same_conv_map)
      show ?thesis using 7 f False ro
        by (simp add: reads_def starts_def po set_type_def set_child_def o_def z del: if_split)
    qed
  qed (use Item.prems(1) in \<open>simp_all add: reads_def starts_def k(1) set_type_def\<close>)
qed

subsection \<open>The properties of the printer and the parser\<close>

definition named :: "'d cJSON \<Rightarrow> char list option \<Rightarrow> 'd cJSON" where
  "named i n = Item (itype i) (valuestring i) (valueint i) (valuedouble i) n (child i)"

definition int_dbl :: "int dbl" where
  "int_dbl = \<lparr>of_i = (\<lambda>i. i), d_add = (\<lambda>a b. a + b), d_sub = (\<lambda>a b. a - b), d_mul = (\<lambda>a b. a * b), pow10 = (\<lambda>i. 10 ^ nat i),
     to_i = (\<lambda>i. i), d_eq = (\<lambda>a b. a = b), d_le = (\<lambda>a b. a \<le> b), d_lt = (\<lambda>a b. a < b), fabs = (\<lambda>i. \<bar>i\<bar>), d_floor = (\<lambda>i. i),
     EPSILON = 0, d1e60 = 10 ^ 60, d1em6 = 0, fmt_0f = (\<lambda>i. ''large''), fmt_e = (\<lambda>i. ''e''), fmt_f = (\<lambda>i. ''f'')\<rparr>"

lemma int_dbl_exact: "exact_ints int_dbl"
  by (simp add: exact_ints_def int_dbl_def)

lemma int_dbl_formats: "number_formats int_dbl"
  by (simp add: number_formats_def int_dbl_def)

text \<open>\<open>{"a\"b": [-12, true, "x\n"], "e": {}}\<close>.\<close>

definition sample_json :: "int cJSON" where
  "sample_json = Item cJSON_Object None 0 0 None
     [Item cJSON_Array None 0 0 (Some [CHR ''a'', CHR 0x22, CHR ''b''])
        [Item cJSON_Number None (-12) (-12) None [], Item cJSON_True None 1 0 None [], Item cJSON_String (Some [CHR ''x'', CHR 0x0A]) 0 0 None []],
      Item cJSON_Object None 0 0 (Some ''e'') []]"

text \<open>C14: an item that is in range and whose text is shorter than \<open>2 ^ 30\<close> by 64, so that no length leaves the range of an
  \<open>int\<close>, is printed as the specified text; a block is never overrun, whatever the depth,
  the names and the strings, and printing fails exactly when fewer allocations are possible than the item needs.\<close>

theorem cjson_print_fits:
  assumes "number_formats D" "json_ok t" "length (render D fmt t 0) + 64 \<le> 2 ^ 30"
  shows "print_value D fmt t 0 s = Inr (if print_allocs t \<le> mem s
    then (Some (render D fmt t 0), s\<lparr>mem := mem s - print_allocs t\<rparr>) else (None, s\<lparr>mem := 0\<rparr>))"
  using print_value_text [OF assms(1,2) _ assms(3), of s] unfolding gives_text_def by simp

theorem cjson_print_fits_witness:
  "json_ok sample_json \<and> print_value int_dbl True sample_json 0 \<lparr>ep = None, mem = 20\<rparr>
    = Inr (Some (render int_dbl True sample_json 0), \<lparr>ep = None, mem = 20 - print_allocs sample_json\<rparr>)"
proof -
  have ok: "json_ok sample_json" "print_allocs sample_json \<le> 20" "length (render int_dbl True sample_json 0) + 64 \<le> 200" by code_simp+
  have len: "length (render int_dbl True sample_json 0) + 64 \<le> 2 ^ 30" using ok(3) by (rule order_trans) simp
  show ?thesis using ok(1,2) cjson_print_fits [OF int_dbl_formats ok(1) len, of "\<lparr>ep = None, mem = 20\<rparr>"] by simp
qed

lemma parsed_json_ok: "parsed D t \<Longrightarrow> \<forall>n. jstring t = Some n \<longrightarrow> NUL \<notin> set n \<Longrightarrow> json_ok t"
proof (induction t)
  case (Item ty vs vi vd st ch)
  have m: "ty mod 256 = ty" using Item.prems(1) by simp
  have "json_ok c" if "c \<in> set ch" for c
    by (rule Item.IH [OF that]) (use Item.prems(1) that in \<open>auto split: if_splits\<close>)
  moreover have "jstring c \<noteq> None" if "ty = cJSON_Object" "c \<in> set ch" for c using Item.prems(1) that by auto
  moreover have "-2147483648 \<le> vi \<and> vi \<le> 2147483647" using Item.prems(1) by (auto split: if_splits)
  moreover have "NUL \<notin> set w" if "vs = Some w" for w using Item.prems(1) that by (auto split: if_splits)
  ultimately show ?case using Item.prems m by (auto split: if_splits)
qed

lemma reads_parse:
  assumes "reads D (parse_value D k) (\<lambda>t. x) t" "jstring t = None" "allocs t < mem s"
  shows "cJSON_Parse D k (x @ NUL # junk) s = Inr (Some t, s\<lparr>mem := mem s - Suc (allocs t), ep := None\<rparr>)"
proof -
  have sk: "skip (x @ NUL # junk) = Inr (x @ NUL # junk)"
    using skip_starts [of "[]" x] reads_starts [OF assms(1)] by simp
  have "ends (NUL # junk)" by (simp add: ends_def)
  from reads_value [OF assms(1) this, of "s\<lparr>mem := mem s - 1, ep := None\<rparr>" 0]
  have "parse_value D k (Item 0 None 0 (of_i D 0) None []) (x @ NUL # junk) (s\<lparr>mem := mem s - 1, ep := None\<rparr>)
      = Inr (Some (t, NUL # junk), s\<lparr>mem := mem s - Suc (allocs t), ep := None\<rparr>)" using assms(2,3) by simp
  then show ?thesis using sk assms(3)
    by (simp add: cJSON_Parse_def cJSON_ParseWithOpts_def cJSON_New_Item_def jmalloc_def Let_def)
qed

text \<open>C2: what the printer makes of a tree as the parser makes them of texts with no other numbers than integers of the range of
  \<open>int\<close>, formatted or not, parses back to the same tree, whatever lies
  behind the text, when the text is not longer than in the property above, the memory for its items and strings is there and the
  recursion may go as deep as the tree. Of other numbers this is not claimed: they are printed with six decimal places, so
  that 0.1234567 does not come back.\<close>

theorem cjson_roundtrip:
  assumes "exact_ints D" "number_formats D" "parsed D t" "jstring t = None"
    and "print_value D fmt t 0 s = Inr (Some out, s1)" "nesting t \<le> k" "allocs t < mem s2"
    and "length (render D fmt t 0) + 64 \<le> 2 ^ 30"
  shows "cJSON_Parse D k (out @ NUL # junk) s2 = Inr (Some t, s2\<lparr>mem := mem s2 - Suc (allocs t), ep := None\<rparr>)"
proof -
  have ok: "json_ok t" using parsed_json_ok [OF assms(3)] assms(4) by simp
  have "out = render D fmt t 0"
    using print_value_text [OF assms(2) ok _ assms(8), of s] assms(5) unfolding gives_text_def by (simp split: if_splits)
  then have "reads D (parse_value D k) (\<lambda>t'. out) t"
    using reads_render [OF assms(1,3,6), of fmt 0] unfolding reads_def by simp
  then show ?thesis by (rule reads_parse) fact+
qed

theorem cjson_roundtrip_witness:
  "\<exists>out s1. print_value int_dbl True sample_json 0 \<lparr>ep = None, mem = 20\<rparr> = Inr (Some out, s1)
    \<and> cJSON_Parse int_dbl 3 (out @ NUL # ''}}'') \<lparr>ep = None, mem = 12\<rparr> = Inr (Some sample_json, \<lparr>ep = None, mem = 12 - Suc (allocs sample_json)\<rparr>)"
proof -
  let ?s = "\<lparr>ep = None, mem = 20\<rparr>" and ?s2 = "\<lparr>ep = None, mem = 12\<rparr>"
  have ok: "parsed int_dbl sample_json" "jstring sample_json = None" "nesting sample_json \<le> 3"
    "allocs sample_json < mem ?s2" "length (render int_dbl True sample_json 0) + 64 \<le> 200" by code_simp+
  have len: "length (render int_dbl True sample_json 0) + 64 \<le> 2 ^ 30" using ok(5) by (rule order_trans) simp
  have "case print_value int_dbl True sample_json 0 ?s of Inr (Some _, _) \<Rightarrow> True | _ \<Rightarrow> False" by code_simp
  then obtain out s1 where p: "print_value int_dbl True sample_json 0 ?s = Inr (Some out, s1)" by (auto split: sum.splits option.splits)
  show ?thesis
    using p cjson_roundtrip [OF int_dbl_exact int_dbl_formats ok(1,2) p ok(3,4) len, of "''}}''"] by simp
qed

text \<open>A text that ends inside an escape sequence is read past its end: a string cut off behind a backslash by the
  counting pass, which steps over the terminator, and one whose \<open>\u\<close> has no four digits by the copying pass.\<close>

theorem cjson_parse_overrun:
  fixes D :: "'d dbl"
  assumes "NUL \<notin> set w" "2 \<le> mem s"
  shows "cJSON_Parse D (Suc k) (CHR 0x22 # concat (map escape w) @ [CHR 0x5C, NUL]) s = Inl OutOfBounds
    \<and> cJSON_Parse D (Suc k) (CHR 0x22 # concat (map escape w) @ [CHR 0x5C, CHR ''u'', CHR 0x22, NUL]) s = Inl OutOfBounds"
proof -
  have step: "cJSON_Parse D (Suc k) (CHR 0x22 # x) s = Inl OutOfBounds"
    if "\<And>(it :: 'd cJSON) s. mem s \<noteq> 0 \<Longrightarrow> parse_string it (CHR 0x22 # x) s = Inl OutOfBounds" for x
    using assms(2) that by (simp add: cJSON_Parse_def cJSON_ParseWithOpts_def cJSON_New_Item_def jmalloc_def jbind_def)
  let ?x = "[CHR 0x5C, NUL]" and ?y = "[CHR 0x5C, CHR ''u'', CHR 0x22, NUL]"
  have "scan_string (concat (map escape w) @ ?x) 0 = Inl OutOfBounds" using scan_prefix [OF assms(1), of 0 ?x] by auto
  moreover obtain m where m: "scan_string (concat (map escape w) @ ?y) 0 = Inr m" "length w \<le> m"
    using scan_prefix [OF assms(1), of 0 ?y] by auto
  have "parse_hex4 [CHR 0x22, NUL] = Inr 0" by code_simp
  then have "copy_string ?y room out = Inl OutOfBounds" for room out
    by (subst copy_string.simps) (simp add: peek_def unescape_def unescape_u_def Let_def)
  then have "copy_string (concat (map escape w) @ ?y) (Suc m) [] = Inl OutOfBounds"
    using copy_prefix [OF assms(1), of ?y "Suc m - length w" "[]"] m(2) by simp
  ultimately show ?thesis using m(1) by (intro conjI step) (simp_all add: parse_string_def jmalloc_def)
qed

theorem cjson_parse_overrun_witness:
  "cJSON_Parse int_dbl 1 [CHR 0x22, CHR ''a'', CHR 0x5C, NUL] \<lparr>ep = None, mem = 2\<rparr> = Inl OutOfBounds"
proof -
  have "concat (map escape ''a'') = ''a''" by code_simp
  then show ?thesis using cjson_parse_overrun [of "''a''" "\<lparr>ep = None, mem = 2\<rparr>" int_dbl 0] by simp
qed

text \<open>A string item made when its copy could not be allocated has no string, and printing it follows the null
  pointer: the printer measures the string before it asks whether there is one.\<close>

theorem cjson_print_missing_string:
  "jbind (cJSON_CreateString D w s) (\<lambda>i s. print_value D fmt i depth s) =
    (if mem s = 0 then Inr (None, s) else if mem s = 1 then Inl NullDeref
     else print_string_ptr (Some w) (s\<lparr>mem := mem s - 2\<rparr>))"
  by (auto simp: cJSON_CreateString_def cJSON_New_Item_def jmalloc_def cJSON_strdup_def print_string_ptr_def jbind_def numeral_2_eq_2)

lemma find_snoc: "find P (xs @ [x]) = (case find P xs of Some y \<Rightarrow> Some y | None \<Rightarrow> if P x then Some x else None)"
  by (induction xs) auto

lemma item_at_append: "item_at (cs @ [c]) (int (length cs)) = Some c"
  by (induction cs) auto

text \<open>An item added to an object is its last element and is found under every name that agrees with its key up
  to case, unless an earlier item has such a name; with no memory for the copy of the key it is added without a
  name and is not found.\<close>

theorem cjson_add_get:
  "\<exists>n. n = named i (if mem s = 0 then None else Some key)
    \<and> fst (cJSON_AddItemToObject obj key (Some i) s) = set_child (child obj @ [n]) obj
    \<and> cJSON_GetArraySize (fst (cJSON_AddItemToObject obj key (Some i) s)) = Suc (cJSON_GetArraySize obj)
    \<and> cJSON_GetArrayItem (fst (cJSON_AddItemToObject obj key (Some i) s)) (int (cJSON_GetArraySize obj)) = Some n
    \<and> cJSON_GetObjectItem (fst (cJSON_AddItemToObject obj key (Some i) s)) k =
        (case cJSON_GetObjectItem obj k of Some c \<Rightarrow> Some c
         | None \<Rightarrow> if 0 < mem s \<and> map to_lower key = map to_lower k then Some n else None)"
  by (auto simp: cJSON_AddItemToObject_def cJSON_AddItemToArray_def cJSON_strdup_def named_def set_child_def cJSON_GetArraySize_def
      cJSON_GetArrayItem_def cJSON_GetObjectItem_def item_at_append strcasecmp_eq_def find_snoc split: option.split)

end
