(* ===== verification/Pipe.thy ===== *)
theory Pipe
  imports CJsonParse
begin

text \<open>
  The programs of \<^verbatim>\<open>src/pipe_ser_clnt\<close> that talk JSON over two named pipes: \<^verbatim>\<open>gree_fifo_client.c\<close>, which turns
  voice commands into the infrared code of an air conditioner, \<^verbatim>\<open>pipe_clnt.c\<close>, its predecessor, and
  \<^verbatim>\<open>pipe_ser1.c\<close>, which sends a query. A turn of a client's loop gets what \<open>read\<close> returned (\<open>None\<close> for an
  error; of the bytes at most 64 go into the buffer) and whether the reply pipe can be opened and written. The messages to the user and the blocks written
  to the pipe are recorded. Creating and opening the pipes is not modelled.
\<close>

section \<open>What the clients share\<close>

abbreviation (input) BUFFER_SIZE :: nat where "BUFFER_SIZE \<equiv> 20"
abbreviation (input) JSON_BUF :: nat where "JSON_BUF \<equiv> 64"

datatype event = Out "char list" | Err "char list" | Sent "char list"

definition padded :: "nat \<Rightarrow> char list \<Rightarrow> ctext" where
  "padded n t = t @ replicate (n - length t) NUL"

text \<open>\<open>root = cJSON_Parse(...)\<close>, then the copy of the string under \<open>t\<close> over \<open>cntl_word\<close> and the number under \<open>p\<close>.\<close>

definition read_message :: "'d dbl \<Rightarrow> nat \<Rightarrow> ctext \<Rightarrow> char list \<Rightarrow> jstate \<Rightarrow> (char list \<times> int \<times> jstate) res" where
  "read_message D k buf cw s = rbind (cJSON_Parse D k buf s) (\<lambda>(root, s).
     case root of None \<Rightarrow> Inl NullDeref | Some root \<Rightarrow>
     (case cJSON_GetObjectItem root ''t'' of None \<Rightarrow> Inl NullDeref | Some t \<Rightarrow>
     (case valuestring t of None \<Rightarrow> Inl NullDeref | Some v \<Rightarrow>
       if length cw \<le> length v then Inl OutOfBounds
       else (case cJSON_GetObjectItem root ''p'' of None \<Rightarrow> Inl NullDeref
         | Some p \<Rightarrow> Inr (v @ NUL # drop (Suc (length v)) cw, valueint p, s)))))"

text \<open>The search for the word; \<open>n\<close> is \<open>CNTL_WORD_NUMS\<close>, \<open>b\<close> the string in \<open>buffer\<close>. \<open>None\<close>: not found.\<close>

function find_word :: "nat \<Rightarrow> char list option list \<Rightarrow> char list \<Rightarrow> nat \<Rightarrow> nat option res" where
  "find_word n ws b i =
     (if i < n then
        if length ws \<le> i then Inl OutOfBounds
        else (case ws ! i of None \<Rightarrow> Inl NullDeref
          | Some w \<Rightarrow> if b = w then Inr (Some i) else if i \<noteq> n - 1 then find_word n ws b (Suc i) else Inr None)
      else Inr (Some 0))"
  by pat_completeness auto
termination by (relation "measure (\<lambda>(n, ws, b, i). n - i)") auto

declare find_word.simps [simp del]

definition add_to :: "'d cJSON option \<Rightarrow> char list \<Rightarrow> 'd cJSON option \<Rightarrow> jstate \<Rightarrow> ('d cJSON option \<times> jstate) res" where
  "add_to root key item s = (case root of
       None \<Rightarrow> (case item of None \<Rightarrow> Inr (None, s) | Some _ \<Rightarrow> Inl NullDeref)
     | Some r \<Rightarrow> (case cJSON_AddItemToObject r key item s of (r, s) \<Rightarrow> Inr (Some r, s)))"

text \<open>The body of \<open>client_send_ok\<close>: \<open>lit\<close> is the memory from the word on, \<open>n\<close> the number under \<open>s\<close>.\<close>

definition send_reply :: "'d dbl \<Rightarrow> ctext \<Rightarrow> int \<Rightarrow> bool \<Rightarrow> bool \<Rightarrow> jstate \<Rightarrow> (int \<times> event list \<times> jstate) res" where
  "send_reply D lit n opened written s =
     (if length lit < BUFFER_SIZE then Inl OutOfBounds
      else rbind (get_str (take BUFFER_SIZE lit)) (\<lambda>w.
        rbind (cJSON_CreateObject D s) (\<lambda>(root, s).
        rbind (cJSON_CreateString D w s) (\<lambda>(i, s).
        rbind (add_to root ''t'' i s) (\<lambda>(root, s).
        rbind (cJSON_CreateNumber D (of_i D n) s) (\<lambda>(i, s).
        rbind (add_to root ''s'' i s) (\<lambda>(root, s).
        rbind (case root of None \<Rightarrow> Inr (None, s) | Some r \<Rightarrow> cJSON_PrintUnformatted D r s) (\<lambda>(t, s).
        case t of None \<Rightarrow> Inl NullDeref
        | Some t \<Rightarrow>
          if JSON_BUF \<le> length t then Inl OutOfBounds
          else if \<not> opened then Inr (-1, [Err (''Client fifo failure'' @ [CHR 0x0A])], s)
          else if \<not> written then Inr (-2, [Err (''Write error on client pipe'' @ [CHR 0x0A])], s)
          else Inr (0, [Sent (padded JSON_BUF t)], s)))))))))"

record client =
  cntl_word :: "char list"
  js :: jstate
  log :: "event list"

text \<open>A turn of the loop: \<open>handle\<close> is the call of \<open>ctl_word_handle\<close> with the word and the number.\<close>

definition client_turn ::
  "'d dbl \<Rightarrow> nat \<Rightarrow> (char list \<Rightarrow> int \<Rightarrow> 'a client_scheme \<Rightarrow> 'a client_scheme res) \<Rightarrow> char list option \<Rightarrow> 'a client_scheme \<Rightarrow> ('a client_scheme \<times> bool) res" where
  "client_turn D k handle input st = (case input of
       None \<Rightarrow> Inr (st\<lparr>log := log st @ [Err (''Read error on server pipe'' @ [CHR 0x0A])]\<rparr>, False)
     | Some [] \<Rightarrow> Inr (st, True)
     | Some bytes \<Rightarrow>
         let jsonBuffer = padded JSON_BUF (take JSON_BUF bytes) in
         rbind (read_message D k jsonBuffer (cntl_word st) (js st)) (\<lambda>(cw, p, s).
         rbind (get_str jsonBuffer) (\<lambda>t.
         rbind (handle cw p (st\<lparr>cntl_word := cw, js := s, log := log st @ [Out (''[server] jsonBUffer: '' @ t @ [CHR 0x0A])]\<rparr>)) (\<lambda>st.
         Inr (st, True)))))"

definition not_found :: "char list \<Rightarrow> event" where
  "not_found b = Out (''cannot found control word <'' @ b @ ''>'' @ [CHR 0x0A, CHR '' ''])"

definition found :: event where
  "found = Out (''found it!'' @ [CHR 0x0A])"

definition word_status :: "char list \<Rightarrow> int \<Rightarrow> event" where
  "word_status w n = Out (w @ '': '' @ decimal n @ [CHR 0x0A])"

section \<open>The air conditioner\<close>

definition gree_words :: "char list list" where
  "gree_words = [''pow'', ''mode'', ''windsped'', ''temp'', ''left_right'', ''up_down'', ''sleep'']"

definition gree_ctrl_word :: "char list option list" where
  "gree_ctrl_word = map Some gree_words @ replicate 4 None"

text \<open>The low four bits of a sum of the bytes of \<open>redF0\<close>, the check digits of its two halves.\<close>

definition check_digit :: "nat list \<Rightarrow> u8 list \<Rightarrow> u8" where
  "check_digit is r = (sum_list (map (\<lambda>i. r ! i) is) + 0x08) AND 0x0f"

definition put_check :: "u8 list \<Rightarrow> u8 list" where
  "put_check r = r[16 := check_digit [0, 2, 4, 6, 8, 10, 12, 14] r]"

definition put_check2 :: "u8 list \<Rightarrow> u8 list" where
  "put_check2 r = r[33 := check_digit [17, 19, 21, 23, 25, 27, 29, 31] r]"

text \<open>The \<open>switch\<close> over the index of the word.\<close>

definition red_command :: "nat \<Rightarrow> u8 \<Rightarrow> u8 list \<Rightarrow> u8 list" where
  "red_command handleIndex status redF0 =
     (if handleIndex = 0 then put_check (redF0[0 := push_bit 3 status])
      else if handleIndex = 1 then put_check (redF0[0 := (redF0 ! 0 AND 0x08) OR (status AND 0x07)])
      else if handleIndex = 2 then
        let wind = redF0 ! 31 AND 0x07;
            redF0 = (if wind < 4 \<and> status = 1 then redF0[1 := redF0 ! 1 + 1, 31 := redF0 ! 31 + 1]
              else if wind \<ge> 4 \<and> wind < 8 \<and> status = 1 then redF0[31 := redF0 ! 31 + 1]
              else if wind \<le> 4 \<and> status = 0 then redF0[1 := redF0 ! 1 - 1, 31 := redF0 ! 31 - 1]
              else if wind > 4 \<and> wind < 8 \<and> status = 1 then redF0[31 := redF0 ! 31 - 1]
              else redF0)
        in put_check2 (put_check redF0)
      else if handleIndex = 3 then
        put_check (if status = 1 then redF0[2 := redF0 ! 2 + 1] else if status = 0 then redF0[2 := redF0 ! 2 - 1] else redF0)
      else if handleIndex = 4 then redF0[9 := status AND 0x01]
      else if handleIndex = 5 then put_check (redF0[10 := status AND 0x01])
      else if handleIndex = 6 then redF0[1 := push_bit 3 (status AND 0x01) OR (redF0 ! 1 AND 0x07)]
      else redF0)"

record gree = client +
  redF0 :: "u8 list"

text \<open>\<open>ctl_word_handle\<close> of \<^verbatim>\<open>gree_fifo_client.c\<close>; \<open>rodata i\<close> is the memory behind the \<open>i\<close>th word.\<close>

definition gree_handle :: "'d dbl \<Rightarrow> (nat \<Rightarrow> ctext) \<Rightarrow> bool \<Rightarrow> bool \<Rightarrow> char list \<Rightarrow> int \<Rightarrow> gree \<Rightarrow> gree res" where
  "gree_handle D rodata opened written cw p st =
     rbind (get_str cw) (\<lambda>b. rbind (find_word 7 gree_ctrl_word b 0) (\<lambda>h.
     case h of None \<Rightarrow> Inr (st\<lparr>log := log st @ [not_found b]\<rparr>)
     | Some handleIndex \<Rightarrow>
         let status = word_of_int p :: u8; w = gree_words ! handleIndex in
         rbind (send_reply D (w @ NUL # rodata handleIndex) (uint status) opened written (js st)) (\<lambda>(_, es, s).
         Inr (st\<lparr>redF0 := red_command handleIndex status (redF0 st), js := s, log := log st @ [found, word_status w (uint status)] @ es\<rparr>))))"

definition gree_turn :: "'d dbl \<Rightarrow> nat \<Rightarrow> (nat \<Rightarrow> ctext) \<Rightarrow> char list option \<times> bool \<times> bool \<Rightarrow> gree \<Rightarrow> (gree \<times> bool) res" where
  "gree_turn D k rodata ev st = (case ev of (input, opened, written) \<Rightarrow>
     client_turn D k (gree_handle D rodata opened written) input st)"

primrec gree_loop :: "'d dbl \<Rightarrow> nat \<Rightarrow> (nat \<Rightarrow> ctext) \<Rightarrow> (char list option \<times> bool \<times> bool) list \<Rightarrow> gree \<Rightarrow> (gree \<times> bool) res" where
  "gree_loop D k rodata [] st = Inr (st, True)"
| "gree_loop D k rodata (ev # evs) st =
     rbind (gree_turn D k rodata ev st) (\<lambda>(st, go). if go then gree_loop D k rodata evs st else Inr (st, False))"

section \<open>The first client\<close>

definition clnt_words :: "char list list" where
  "clnt_words = [''pow'', ''auto'', ''cold_mode'', ''hot_mode'', ''lesswet_mode'', ''air_supy'', ''windsped'', ''temp'',
     ''left_right'', ''up_down'', ''sleep'']"

definition clnt_handle :: "'d dbl \<Rightarrow> (nat \<Rightarrow> ctext) \<Rightarrow> bool \<Rightarrow> bool \<Rightarrow> char list \<Rightarrow> int \<Rightarrow> client \<Rightarrow> client res" where
  "clnt_handle D rodata opened written cw status st =
     rbind (get_str cw) (\<lambda>b. rbind (find_word 12 (map Some clnt_words) b 0) (\<lambda>h.
     case h of None \<Rightarrow> Inr (st\<lparr>log := log st @ [not_found b]\<rparr>)
     | Some handleIndex \<Rightarrow>
         let w = clnt_words ! handleIndex in
         rbind (send_reply D (w @ NUL # rodata handleIndex) 1 opened written (js st)) (\<lambda>(_, es, s).
         Inr (st\<lparr>js := s, log := log st @ [found, word_status w status] @ es\<rparr>))))"

definition clnt_turn :: "'d dbl \<Rightarrow> nat \<Rightarrow> (nat \<Rightarrow> ctext) \<Rightarrow> char list option \<times> bool \<times> bool \<Rightarrow> client \<Rightarrow> (client \<times> bool) res" where
  "clnt_turn D k rodata ev st = (case ev of (input, opened, written) \<Rightarrow>
     client_turn D k (clnt_handle D rodata opened written) input st)"

section \<open>The sender of queries\<close>

text \<open>The spoken commands, in the encoding of the source file (UTF-8); the rest of the 64 entries is 0.\<close>

definition online_bytes :: "nat list list" where
  "online_bytes =
    [[230, 137, 147, 229, 188, 128, 231, 169, 186, 232, 176, 131],
     [229, 133, 179, 233, 151, 173, 231, 169, 186, 232, 176, 131],
     [232, 176, 131, 233, 171, 152, 230, 184, 169, 229, 186, 166],
     [232, 176, 131, 228, 189, 142, 230, 184, 169, 229, 186, 166],
     [232, 176, 131, 233, 171, 152, 233, 163, 142, 233, 128, 159],
     [233, 153, 141, 228, 189, 142, 233, 163, 142, 233, 128, 159],
     [228, 184, 138, 228, 184, 139, 230, 137, 171, 233, 163, 142],
     [229, 133, 179, 233, 151, 173, 228, 184, 138, 228, 184, 139, 230, 137, 171, 233, 163, 142],
     [229, 183, 166, 229, 143, 179, 230, 137, 171, 233, 163, 142],
     [229, 133, 179, 233, 151, 173, 229, 183, 166, 229, 143, 179, 230, 137, 171, 233, 163, 142],
     [230, 137, 147, 229, 188, 128, 231, 157, 161, 231, 156, 160],
     [229, 133, 179, 233, 151, 173, 231, 157, 161, 231, 156, 160],
     [230, 159, 165, 228, 184, 128, 228, 184, 139, 232, 191, 145, 228, 184, 164, 230, 151, 165, 231, 154, 132, 231, 148, 181, 233, 135, 143],
     [230, 159, 165, 228, 184, 128, 228, 184, 139, 230, 156, 172, 230, 156, 136, 231, 154, 132, 231, 148, 181, 233, 135, 143],
     [230, 159, 165, 228, 184, 128, 228, 184, 139, 232, 191, 145, 228, 184, 164, 228, 184, 170, 229, 176, 143, 230, 151, 182, 231, 154, 132, 231, 148, 181, 233, 135, 143],
     [230, 142, 168, 232, 141, 144, 228, 184, 128, 230, 172, 190, 231, 169, 186, 232, 176, 131],
     [230, 137, 147, 229, 188, 128, 231, 129, 175, 229, 133, 137],
     [229, 133, 179, 233, 151, 173, 231, 129, 175, 229, 133, 137],
     [229, 133, 179, 233, 151, 173, 229, 129, 165, 229, 186, 183],
     [230, 137, 147, 229, 188, 128, 229, 129, 165, 229, 186, 183],
     [230, 137, 147, 229, 188, 128, 230, 141, 162, 230, 176, 148],
     [229, 133, 179, 233, 151, 173, 230, 141, 162, 230, 176, 148],
     [230, 137, 147, 229, 188, 128, 232, 138, 130, 232, 131, 189],
     [229, 133, 179, 233, 151, 173, 232, 138, 130, 232, 131, 189],
     [230, 137, 147, 229, 188, 128, 229, 185, 178, 231, 135, 165],
     [229, 133, 179, 233, 151, 173, 229, 185, 178, 231, 135, 165],
     [229, 136, 135, 230, 141, 162, 229, 136, 176, 232, 135, 170, 229, 138, 168, 230, 168, 161, 229, 188, 143],
     [229, 136, 135, 230, 141, 162, 229, 136, 176, 229, 136, 182, 229, 134, 183],
     [229, 136, 135, 230, 141, 162, 229, 136, 176, 233, 153, 164, 230, 185, 191],
     [229, 136, 135, 230, 141, 162, 229, 136, 176, 229, 136, 182, 231, 131, 173],
     [229, 136, 135, 230, 141, 162, 229, 136, 176, 233, 128, 129, 233, 163, 142],
     [231, 169, 186, 232, 176, 131, 229, 136, 135, 230, 141, 162, 229, 136, 176, 232, 135, 170, 229, 138, 168, 233, 163, 142, 233, 128, 159],
     [231, 169, 186, 232, 176, 131, 229, 136, 135, 230, 141, 162, 229, 136, 176, 228, 189, 142, 233, 163, 142, 233, 128, 159],
     [231, 169, 186, 232, 176, 131, 229, 136, 135, 230, 141, 162, 229, 136, 176, 228, 184, 173, 228, 189, 142, 233, 163, 142, 233, 128, 159],
     [231, 169, 186, 232, 176, 131, 229, 136, 135, 230, 141, 162, 229, 136, 176, 228, 184, 173, 233, 163, 142, 233, 128, 159],
     [231, 169, 186, 232, 176, 131, 229, 136, 135, 230, 141, 162, 229, 136, 176, 228, 184, 173, 233, 171, 152, 233, 163, 142, 233, 128, 159],
     [231, 169, 186, 232, 176, 131, 229, 136, 135, 230, 141, 162, 229, 136, 176, 233, 171, 152, 233, 163, 142, 233, 128, 159],
     [231, 169, 186, 232, 176, 131, 229, 136, 135, 230, 141, 162, 229, 136, 176, 233, 157, 153, 233, 159, 179],
     [230, 184, 169, 229, 186, 166, 232, 174, 190, 228, 184, 186, 49, 54, 229, 186, 166]]"

definition online_words :: "char list list" where
  "online_words = map (map char_of) online_bytes"

text \<open>\<open>main\<close> of \<^verbatim>\<open>pipe_ser1.c\<close> up to the write of the query, with the number \<open>atoi(argv[1])\<close>.\<close>

definition send_query :: "'d dbl \<Rightarrow> int \<Rightarrow> jstate \<Rightarrow> (ctext \<times> jstate) res" where
  "send_query D i s =
     rbind (cJSON_CreateObject D s) (\<lambda>(root, s).
     if i < 0 \<or> 64 \<le> i then Inl OutOfBounds
     else rbind (if i < 39 then cJSON_CreateString D (online_words ! nat i) s
                 else if mem s = 0 then Inr (None, s) else Inl NullDeref) (\<lambda>(item, s).
     rbind (add_to root ''query'' item s) (\<lambda>(root, s).
     rbind (case root of None \<Rightarrow> Inr (None, s) | Some r \<Rightarrow> cJSON_PrintUnformatted D r s) (\<lambda>(t, s).
     case t of None \<Rightarrow> Inl NullDeref
     | Some t \<Rightarrow> if 1024 \<le> length t then Inl OutOfBounds else Inr (padded 1024 t, s)))))"

text \<open>The whole of \<open>main\<close>: the argument, if there is one, whether the pipes can be opened and the query written, and
  what \<open>read\<close> returns for the answer. The result is the exit status.\<close>

definition query_main :: "'d dbl \<Rightarrow> int option \<Rightarrow> bool \<Rightarrow> bool \<Rightarrow> bool \<Rightarrow> char list option \<Rightarrow> jstate \<Rightarrow> (int \<times> event list) res" where
  "query_main D arg srv_open written clnt_open answer s = (case arg of
       None \<Rightarrow> Inr (1, [Err (''Please input one params'' @ [CHR 0x0A])])
     | Some i \<Rightarrow>
       if \<not> srv_open then Inr (1, [Err (''Server fifo failure'' @ [CHR 0x0A])])
       else rbind (send_query D i s) (\<lambda>(block, s).
         if \<not> written then Inr (1, [Err (''Write error on server pipe'' @ [CHR 0x0A])])
         else if \<not> clnt_open then Inr (255, [Sent block, Err (''Client fifo failure'' @ [CHR 0x0A])])
         else (case answer of None \<Rightarrow> Inr (1, [Sent block, Err (''Read error on client pipe'' @ [CHR 0x0A])])
           | Some [] \<Rightarrow> Inr (0, [Sent block])
           | Some bytes \<Rightarrow> rbind (get_str (padded 1024 (take 1024 bytes))) (\<lambda>t. Inr (0, [Sent block, Out (''[client] jsonBuf: '' @ t @ [CHR 0x0A])])))))"

section \<open>The check digits\<close>

definition sums_ok :: "u8 list \<Rightarrow> bool" where
  "sums_ok r \<longleftrightarrow> length r = 34 \<and> r ! 16 = check_digit [0, 2, 4, 6, 8, 10, 12, 14] r
     \<and> r ! 33 = check_digit [17, 19, 21, 23, 25, 27, 29, 31] r"

lemma check_digit_update: "i \<notin> set is \<Longrightarrow> check_digit is (r[i := v]) = check_digit is r"
proof -
  assume "i \<notin> set is"
  then have "map (\<lambda>j. r[i := v] ! j) is = map (\<lambda>j. r ! j) is" by (intro map_cong refl nth_list_update_neq) auto
  then show ?thesis unfolding check_digit_def by (simp only:)
qed

lemma length_put [simp]: "length (put_check r) = length r" "length (put_check2 r) = length r"
  by (simp_all add: put_check_def put_check2_def)

lemma put_check_sums:
  "length r = 34 \<Longrightarrow> r ! 33 = check_digit [17, 19, 21, 23, 25, 27, 29, 31] r \<Longrightarrow> sums_ok (put_check r)"
  by (simp add: sums_ok_def put_check_def check_digit_update)

lemma put_checks_sums: "length r = 34 \<Longrightarrow> sums_ok (put_check2 (put_check r))"
  by (simp add: sums_ok_def put_check_def put_check2_def check_digit_update)

lemma put_checks_same: "sums_ok r \<Longrightarrow> put_check2 (put_check r) = r"
  unfolding sums_ok_def put_check_def put_check2_def by (metis list_update_id)

lemma red_command_sums:
  assumes "sums_ok r"
  shows "sums_ok (red_command h status r)"
proof -
  have r: "length r = 34" "r ! 33 = check_digit [17, 19, 21, 23, 25, 27, 29, 31] r" "r ! 16 = check_digit [0, 2, 4, 6, 8, 10, 12, 14] r"
    using assms by (simp_all add: sums_ok_def)
  consider "h = 2" | "h = 0 \<or> h = 1 \<or> h = 3 \<or> h = 5" | "h = 4 \<or> h = 6" | "6 < h" by linarith
  then show ?thesis
  proof cases
    case 1
    then show ?thesis using r by (simp add: red_command_def Let_def put_checks_sums)
  next
    case 2
    then show ?thesis using r by (elim disjE) (simp_all add: red_command_def put_check_sums check_digit_update)
  next
    case 3
    then show ?thesis using r by (elim disjE) (simp_all add: red_command_def sums_ok_def check_digit_update)
  qed (use assms in \<open>simp add: red_command_def\<close>)
qed

lemma find_word_bound: "find_word n ws b i = Inr (Some h) \<Longrightarrow> i < n \<Longrightarrow> h < n"
  by (induction n ws b i rule: find_word.induct) (subst (asm) (2) find_word.simps, auto split: if_splits option.splits)

lemma gree_handle_red:
  "gree_handle D rodata opened written cw p st = Inr st' \<Longrightarrow>
   redF0 st' = redF0 st \<or> (\<exists>h. redF0 st' = red_command h (word_of_int p) (redF0 st))"
  unfolding gree_handle_def Let_def by (auto split: option.splits) blast

lemma gree_turn_sums: "gree_turn D k rodata ev st = Inr (st', go) \<Longrightarrow> sums_ok (redF0 st) \<Longrightarrow> sums_ok (redF0 st')"
  unfolding gree_turn_def client_turn_def Let_def
  by (auto split: prod.splits option.splits list.splits dest!: gree_handle_red simp: red_command_sums)

text \<open>The check digits of the infrared code: whatever messages arrive and however the pipes fail, a client that
  keeps running keeps the length of the code and both of its check digits correct.\<close>

theorem gree_check_digits:
  "gree_loop D k rodata evs st = Inr (st', go) \<Longrightarrow> sums_ok (redF0 st) \<Longrightarrow> sums_ok (redF0 st')"
  by (induction evs arbitrary: st) (auto split: if_splits dest: gree_turn_sums)

definition red_start :: gree where
  "red_start = \<lparr>cntl_word = replicate 20 NUL, js = \<lparr>ep = None, mem = 30\<rparr>, log = [], redF0 = put_check2 (put_check (replicate 34 0))\<rparr>"

theorem gree_check_digits_witness:
  "\<exists>st. gree_loop int_dbl 2 (\<lambda>_. replicate 20 NUL)
      [(Some (CHR ''{'' # [CHR 0x22, CHR ''t'', CHR 0x22] @ '':'' @ [CHR 0x22] @ ''temp'' @ [CHR 0x22] @ '','' @ [CHR 0x22] @ ''p'' @ [CHR 0x22] @ '':1}''), True, True), (None, True, True)]
      red_start = Inr (st, False) \<and> sums_ok (redF0 st) \<and> redF0 st ! 2 = 1"
proof -
  let ?evs = "[(Some (CHR ''{'' # [CHR 0x22, CHR ''t'', CHR 0x22] @ '':'' @ [CHR 0x22] @ ''temp'' @ [CHR 0x22] @ '','' @ [CHR 0x22] @ ''p'' @ [CHR 0x22] @ '':1}''), True, True), (None, True, True)]"
  let ?r = "gree_loop int_dbl 2 (\<lambda>_. replicate 20 NUL) ?evs red_start"
  have "case ?r of Inr (st, go) \<Rightarrow> \<not> go \<and> redF0 st ! 2 = 1 | Inl _ \<Rightarrow> False" by code_simp
  then obtain st where r: "?r = Inr (st, False)" "redF0 st ! 2 = 1" by (auto split: sum.splits)
  have "sums_ok (redF0 red_start)" unfolding red_start_def gree.simps by (rule put_checks_sums) simp
  then show ?thesis using gree_check_digits [OF r(1)] r by blast
qed

text \<open>The fan. A press of \<open>windsped\<close> with status 1 counts the speed up, from 7 on into the next bit; with status 0 it
  counts it down only up to speed 4: from 5 on no message lowers the speed, the branch for it asks for status 1
  and is never taken.\<close>

theorem gree_fan_speed:
  assumes "sums_ok r"
  shows "red_command 2 1 r ! 31 = r ! 31 + 1
    \<and> (r ! 31 AND 7 \<le> 4 \<longrightarrow> red_command 2 0 r ! 31 = r ! 31 - 1 \<and> red_command 2 0 r ! 1 = r ! 1 - 1)
    \<and> (4 < r ! 31 AND 7 \<longrightarrow> (\<forall>status. status \<noteq> 1 \<longrightarrow> red_command 2 status r = r))"
proof -
  have len: "length r = 34" using assms by (simp add: sums_ok_def)
  have keep: "put_check2 (put_check q) ! 31 = q ! 31" "put_check2 (put_check q) ! Suc 0 = q ! Suc 0" for q
    by (simp_all add: put_check_def put_check2_def)
  have w: "r ! 31 AND 7 \<le> 7" by (rule word_and_le1)
  then have w8: "r ! 31 AND 7 < 8" by (rule le_less_trans) simp
  have up: "red_command 2 1 r ! 31 = r ! 31 + 1"
    using w8 len by (auto simp: red_command_def Let_def keep not_less)
  have down: "red_command 2 0 r ! 31 = r ! 31 - 1 \<and> red_command 2 0 r ! 1 = r ! 1 - 1" if "r ! 31 AND 7 \<le> 4"
    using that len by (simp add: red_command_def Let_def keep)
  have "red_command 2 status r = r" if "4 < r ! 31 AND 7" "status \<noteq> 1" for status
  proof -
    have "\<not> r ! 31 AND 7 \<le> 4" using that(1) by (simp only: not_le)
    then show ?thesis using that assms by (simp add: red_command_def Let_def put_checks_same)
  qed
  then show ?thesis using up down by blast
qed

theorem gree_fan_speed_witness:
  "sums_ok (put_check2 (put_check ((replicate 34 0)[31 := 5])))
    \<and> red_command 2 0 (put_check2 (put_check ((replicate 34 0)[31 := 5]))) = put_check2 (put_check ((replicate 34 0)[31 := 5]))"
proof -
  have a: "sums_ok (put_check2 (put_check ((replicate 34 0)[31 := 5])))" by (rule put_checks_sums) simp
  have "put_check2 (put_check ((replicate 34 0)[31 := 5])) ! 31 AND 7 = (5 :: u8)" by code_simp
  then show ?thesis using a gree_fan_speed [OF a] by simp
qed

section \<open>Messages between the programs\<close>

lemma takeWhile_NUL: "NUL \<notin> set t \<Longrightarrow> takeWhile (\<lambda>c. c \<noteq> NUL) (t @ NUL # b) = t"
  by (induction t) auto

lemma padded_str: "NUL \<notin> set t \<Longrightarrow> length t < n \<Longrightarrow> get_str (padded n t) = Inr t"
  by (cases "n - length t") (simp_all add: get_str_def cstr_def padded_def takeWhile_NUL)

text \<open>The command message, and the reply \<open>{"t": w, "s": n}\<close> to it.\<close>

definition message :: "'d dbl \<Rightarrow> char list \<Rightarrow> char list \<Rightarrow> int \<Rightarrow> 'd cJSON" where
  "message D w key n = Item cJSON_Object None 0 (of_i D 0) None
     [Item cJSON_String (Some w) 0 (of_i D 0) (Some ''t'') [], Item cJSON_Number None n (of_i D n) (Some key) []]"

definition reply_text :: "char list \<Rightarrow> char list \<Rightarrow> int \<Rightarrow> char list" where
  "reply_text w key n = CHR ''{'' # quoted ''t'' @ CHR '':'' # quoted w @ CHR '','' # quoted key @ CHR '':'' # decimal n @ ''}''"

lemma message_render:
  "exact_ints D \<Longrightarrow> -2147483648 \<le> n \<Longrightarrow> n \<le> 2147483647 \<Longrightarrow> render D False (message D w key n) 0 = reply_text w key n"
  by (simp add: message_def reply_text_def number_text_int)

lemma message_parsed:
  "NUL \<notin> set w \<Longrightarrow> NUL \<notin> set key \<Longrightarrow> -2147483648 \<le> n \<Longrightarrow> n \<le> 2147483647 \<Longrightarrow> parsed D (message D w key n)"
  by (simp add: message_def)

lemma message_sizes: "allocs (message D w key n) = 5" "nesting (message D w key n) = 2" "print_allocs (message D w key n) = 7"
    "jstring (message D w key n) = None"
  by (simp_all add: message_def)

lemma find_p: "cJSON_GetObjectItem (message D w ''p'' n) ''p'' = Some (Item cJSON_Number None n (of_i D n) (Some ''p'') [])"
    "cJSON_GetObjectItem (message D w ''p'' n) ''t'' = Some (Item cJSON_String (Some w) 0 (of_i D 0) (Some ''t'') [])"
  by (simp_all add: message_def cJSON_GetObjectItem_def strcasecmp_eq_def to_lower_def)

lemma read_message_text:
  assumes D: "exact_ints D" and w: "NUL \<notin> set w" "length w < length cw" and n: "-2147483648 \<le> n" "n \<le> 2147483647"
    and k: "2 \<le> k" and m: "6 \<le> mem s" and len: "length (render D fmt (message D w ''p'' n) 0) < N"
  shows "read_message D k (padded N (render D fmt (message D w ''p'' n) 0)) cw s
     = Inr (w @ NUL # drop (Suc (length w)) cw, n, s\<lparr>mem := mem s - 6, ep := None\<rparr>)"
proof -
  let ?x = "render D fmt (message D w ''p'' n) 0"
  have p: "padded N ?x = ?x @ NUL # replicate (N - length ?x - 1) NUL"
    using len by (cases "N - length ?x") (auto simp: padded_def)
  have "reads D (parse_value D k) (\<lambda>t. render D fmt t 0) (message D w ''p'' n)"
    by (rule reads_render [OF D]) (use w n k in \<open>simp_all add: message_parsed message_sizes\<close>)
  then have "reads D (parse_value D k) (\<lambda>_. ?x) (message D w ''p'' n)" by (simp add: reads_def)
  from reads_parse [OF this _ _, of s] have "cJSON_Parse D k (padded N ?x) s = Inr (Some (message D w ''p'' n), s\<lparr>mem := mem s - 6, ep := None\<rparr>)"
    unfolding p using m by (simp add: message_sizes)
  then show ?thesis using w(2) by (simp add: read_message_def find_p not_le)
qed

lemma send_reply_text:
  assumes D: "exact_ints D" "number_formats D" and w: "NUL \<notin> set w" "length w < 20" "length (quoted w) < 30"
    and n: "0 \<le> n" "n \<le> 255" and m: "13 \<le> mem s" and lit: "20 \<le> length (w @ NUL # r)"
  shows "send_reply D (w @ NUL # r) n opened written s =
    Inr (if \<not> opened then (-1, [Err (''Client fifo failure'' @ [CHR 0x0A])], s\<lparr>mem := mem s - 13\<rparr>)
      else if \<not> written then (-2, [Err (''Write error on client pipe'' @ [CHR 0x0A])], s\<lparr>mem := mem s - 13\<rparr>)
      else (0, [Sent (padded 64 (reply_text w ''s'' n))], s\<lparr>mem := mem s - 13\<rparr>))"
proof -
  have take: "take 20 (w @ NUL # r) = w @ NUL # take (19 - length w) r"
    using w(2) by (simp add: take_Cons')
  have c: "get_str (take 20 (w @ NUL # r)) = Inr w" unfolding take using w(1) by (simp add: get_str_def cstr_def takeWhile_NUL)
  have i: "to_i D (of_i D n) = n" using D(1) n unfolding exact_ints_def by simp
  have "length (decimal n) < 21" using n by (intro length_decimal) simp_all
  moreover have "length (quoted ''t'') = 3" "length (quoted ''s'') = 3" by code_simp+
  ultimately have short: "length (reply_text w ''s'' n) < 64" using w(3) by (simp add: reply_text_def)
  have ok: "json_ok (message D w ''s'' n)" using w n by (simp add: message_def)
  have pr: "cJSON_PrintUnformatted D (message D w ''s'' n) s' = Inr (Some (reply_text w ''s'' n), s'\<lparr>mem := mem s' - 7\<rparr>)" if "7 \<le> mem s'" for s'
    using print_value_text [OF D(2) ok, where depth = 0 and fmt = False and s = s'] that n short message_render [OF D(1), of n w "''s''"]
    unfolding gives_text_def cJSON_PrintUnformatted_def by (simp add: message_sizes)
  have "cJSON_PrintUnformatted D (message D w ''s'' n) (s\<lparr>mem := mem s - Suc (Suc (Suc (Suc (Suc (Suc 0)))))\<rparr>)
      = Inr (Some (reply_text w ''s'' n), s\<lparr>mem := mem s - 13\<rparr>)"
    using pr [of "s\<lparr>mem := mem s - 6\<rparr>"] m by (simp add: numeral_eq_Suc)
  then show ?thesis
    using lit m short c i
    by (simp add: send_reply_def cJSON_CreateObject_def cJSON_CreateString_def cJSON_CreateNumber_def cJSON_New_Item_def jmalloc_def
        cJSON_strdup_def add_to_def cJSON_AddItemToObject_def cJSON_AddItemToArray_def set_type_def set_child_def message_def)
qed

lemma clnt_length: "length clnt_words = 11"
  by (simp add: clnt_words_def)

lemma reply_text_NUL: "NUL \<notin> set w \<Longrightarrow> NUL \<notin> set key \<Longrightarrow> NUL \<notin> set (reply_text w key n)"
  using quoted_NUL [of "''t''"] quoted_NUL [of w] quoted_NUL [of key] decimal_NUL [of n] by (simp add: reply_text_def)

lemma word_facts:
  "\<forall>w\<in>set gree_words \<union> set clnt_words. NUL \<notin> set w \<and> length w < 20 \<and> length (quoted w) < 30"
  by code_simp

lemma find_gree: "h < 7 \<Longrightarrow> find_word 7 gree_ctrl_word (gree_words ! h) 0 = Inr (Some h)"
proof -
  have "\<forall>h\<in>set [0..<7]. find_word 7 gree_ctrl_word (gree_words ! h) 0 = Inr (Some h)" by code_simp
  then show "h < 7 \<Longrightarrow> ?thesis" by simp
qed

lemma find_clnt: "h < 11 \<Longrightarrow> find_word 12 (map Some clnt_words) (clnt_words ! h) 0 = Inr (Some h)"
proof -
  have "\<forall>h\<in>set [0..<11]. find_word 12 (map Some clnt_words) (clnt_words ! h) 0 = Inr (Some h)" by code_simp
  then show "h < 11 \<Longrightarrow> ?thesis" by simp
qed

lemma find_none:
  "b \<notin> set (drop i l) \<Longrightarrow> i < n \<Longrightarrow> n \<le> length l \<Longrightarrow> find_word n (map Some l @ r) b i = Inr None"
proof (induction "n - i" arbitrary: i)
  case (Suc m)
  then have d: "drop i l = l ! i # drop (Suc i) l" by (simp add: Cons_nth_drop_Suc)
  have ni: "(map Some l @ r) ! i = Some (l ! i)" "i < length (map Some l @ r)" using Suc.prems by (simp_all add: nth_append)
  show ?case
  proof (cases "i = n - 1")
    case True
    then show ?thesis using Suc.prems ni d by (subst find_word.simps) auto
  next
    case False
    have "find_word n (map Some l @ r) b (Suc i) = Inr None" by (rule Suc.hyps) (use Suc False d in auto)
    then show ?thesis using Suc.prems ni d False by (subst find_word.simps) auto
  qed
qed simp

lemma find_overrun:
  "b \<notin> set (drop i l) \<Longrightarrow> i \<le> length l \<Longrightarrow> length l < n \<Longrightarrow> find_word n (map Some l) b i = Inl OutOfBounds"
proof (induction "length l - i" arbitrary: i)
  case 0
  then show ?case by (subst find_word.simps) simp
next
  case (Suc m)
  then have d: "drop i l = l ! i # drop (Suc i) l" by (simp add: Cons_nth_drop_Suc)
  have "find_word n (map Some l) b (Suc i) = Inl OutOfBounds" by (rule Suc.hyps) (use Suc d in auto)
  then show ?case using Suc d by (subst find_word.simps) auto
qed

lemma gree_unknown: "w \<notin> set gree_words \<Longrightarrow> find_word 7 gree_ctrl_word w 0 = Inr None"
  unfolding gree_ctrl_word_def by (rule find_none) (simp_all add: gree_words_def)

lemma clnt_unknown: "w \<notin> set clnt_words \<Longrightarrow> find_word 12 (map Some clnt_words) w 0 = Inl OutOfBounds"
  by (rule find_overrun) (simp_all add: clnt_words_def)

text \<open>What a client's turn does with a command text, up to the call of \<open>ctl_word_handle\<close>.\<close>

lemma client_turn_text:
  assumes D: "exact_ints D" and k: "2 \<le> k" and st: "length (cntl_word st) = 20" "6 \<le> mem (js st)"
    and w: "NUL \<notin> set w" "length w < 20" and n: "-2147483648 \<le> n" "n \<le> 2147483647" and len: "length (reply_text w ''p'' n) < 64"
  shows "client_turn D k handle (Some (reply_text w ''p'' n)) st =
    rbind (handle (w @ NUL # drop (Suc (length w)) (cntl_word st)) n
      (st\<lparr>cntl_word := w @ NUL # drop (Suc (length w)) (cntl_word st), js := (js st)\<lparr>mem := mem (js st) - 6, ep := None\<rparr>,
         log := log st @ [Out (''[server] jsonBUffer: '' @ reply_text w ''p'' n @ [CHR 0x0A])]\<rparr>)) (\<lambda>st. Inr (st, True))"
proof -
  have r: "read_message D k (padded 64 (reply_text w ''p'' n)) (cntl_word st) (js st)
     = Inr (w @ NUL # drop (Suc (length w)) (cntl_word st), n, (js st)\<lparr>mem := mem (js st) - 6, ep := None\<rparr>)"
    using read_message_text [OF D w(1) _ n k st(2), where fmt = False and N = 64 and cw = "cntl_word st"] w(2) st(1) len
    by (simp add: message_render [OF D n])
  have c: "get_str (padded 64 (reply_text w ''p'' n)) = Inr (reply_text w ''p'' n)"
    by (rule padded_str) (use len w in \<open>simp_all add: reply_text_NUL\<close>)
  obtain x where "reply_text w ''p'' n = CHR ''{'' # x" by (simp add: reply_text_def)
  moreover have "take 64 (reply_text w ''p'' n) = reply_text w ''p'' n" using len by simp
  ultimately show ?thesis using r c by (simp add: client_turn_def Let_def)
qed

definition reply_event :: "bool \<Rightarrow> bool \<Rightarrow> char list \<Rightarrow> int \<Rightarrow> event" where
  "reply_event opened written w n = (if \<not> opened then Err (''Client fifo failure'' @ [CHR 0x0A])
     else if \<not> written then Err (''Write error on client pipe'' @ [CHR 0x0A]) else Sent (padded 64 (reply_text w ''s'' n)))"

definition word_index :: "char list list \<Rightarrow> char list \<Rightarrow> nat option" where
  "word_index ws w = (if w \<in> set ws then Some (length (takeWhile (\<lambda>v. v \<noteq> w) ws)) else None)"

lemma word_index_Some: "word_index ws w = Some h \<Longrightarrow> h < length ws \<and> ws ! h = w"
proof -
  assume "word_index ws w = Some h"
  then have h: "w \<in> set ws" "h = length (takeWhile (\<lambda>v. v \<noteq> w) ws)" by (auto simp: word_index_def split: if_splits)
  then have "h < length ws" by (induction ws arbitrary: h) auto
  then show ?thesis using h(2) nth_length_takeWhile [of "\<lambda>v. v \<noteq> w" ws] by simp
qed

lemma word_index_None: "word_index ws w = None \<longleftrightarrow> w \<notin> set ws"
  by (simp add: word_index_def)

lemma buffer_str: "NUL \<notin> set w \<Longrightarrow> get_str (w @ NUL # b) = Inr w"
  by (simp add: get_str_def cstr_def takeWhile_NUL)

lemma send_reply_event:
  assumes D: "exact_ints D" "number_formats D" and w: "w \<in> set gree_words \<union> set clnt_words"
    and n: "0 \<le> n" "n \<le> 255" and m: "13 \<le> mem s" and lit: "20 \<le> length (w @ NUL # r)"
  shows "\<exists>c. send_reply D (w @ NUL # r) n opened written s = Inr (c, [reply_event opened written w n], s\<lparr>mem := mem s - 13\<rparr>)"
proof -
  have "NUL \<notin> set w" "length w < 20" "length (quoted w) < 30" using w word_facts by auto
  from send_reply_text [OF D this n m lit] show ?thesis by (simp add: reply_event_def)
qed

lemma uint_status: "uint (word_of_int p :: u8) = p mod 256"
  by (simp add: uint_word_of_int)

section \<open>The commands as arithmetic\<close>

text \<open>The infrared code after a command, over the numbers its bytes stand for: two check digits, the low four bits of a sum of
  bytes and 8, and the change each word makes.\<close>

definition code_check :: "nat \<Rightarrow> nat list \<Rightarrow> nat list \<Rightarrow> nat list" where
  "code_check j is c = c[j := (sum_list (map (\<lambda>i. c ! i) is) + 8) mod 16]"

definition first_check :: "nat list \<Rightarrow> nat list" where
  "first_check = code_check 16 [0, 2, 4, 6, 8, 10, 12, 14]"

definition second_check :: "nat list \<Rightarrow> nat list" where
  "second_check = code_check 33 [17, 19, 21, 23, 25, 27, 29, 31]"

definition up1 :: "nat \<Rightarrow> nat list \<Rightarrow> nat list" where
  "up1 j c = c[j := (c ! j + 1) mod 256]"

definition down1 :: "nat \<Rightarrow> nat list \<Rightarrow> nat list" where
  "down1 j c = c[j := (c ! j + 255) mod 256]"

definition code_after :: "char list \<Rightarrow> nat \<Rightarrow> nat list \<Rightarrow> nat list" where
  "code_after w n c =
     (if w = ''pow'' then first_check (c[0 := 8 * n mod 256])
      else if w = ''mode'' then first_check (c[0 := c ! 0 div 8 mod 2 * 8 + n mod 8])
      else if w = ''windsped'' then
        let speed = c ! 31 mod 8 in
        second_check (first_check
          (if n = 1 then up1 31 (if speed < 4 then up1 1 c else c)
           else if n = 0 \<and> speed \<le> 4 then down1 31 (down1 1 c) else c))
      else if w = ''temp'' then first_check (if n = 1 then up1 2 c else if n = 0 then down1 2 c else c)
      else if w = ''left_right'' then c[9 := n mod 2]
      else if w = ''up_down'' then first_check (c[10 := n mod 2])
      else if w = ''sleep'' then c[1 := 8 * (n mod 2) + c ! 1 mod 8]
      else c)"

abbreviation (input) as_bytes :: "nat list \<Rightarrow> u8 list" where
  "as_bytes c \<equiv> map word_of_nat c"

lemma byte_and:
  "a < 256 \<Longrightarrow> (word_of_nat a AND 8 :: u8) = word_of_nat (a div 8 mod 2 * 8)"
  "a < 256 \<Longrightarrow> (word_of_nat a AND 7 :: u8) = word_of_nat (a mod 8)"
  "a < 256 \<Longrightarrow> (word_of_nat a AND 1 :: u8) = word_of_nat (a mod 2)"
  "(word_of_nat k AND 15 :: u8) = word_of_nat (k mod 16)"
proof -
  have "\<forall>a\<in>set [0..<256]. (word_of_nat a AND 8 :: u8) = word_of_nat (a div 8 mod 2 * 8)" by code_simp
  then show "a < 256 \<Longrightarrow> (word_of_nat a AND 8 :: u8) = word_of_nat (a div 8 mod 2 * 8)" by simp
  have m: "(word_of_nat k AND mask i :: u8) = word_of_nat (k mod 2 ^ i)" for k i
    unfolding take_bit_eq_mask [symmetric] take_bit_of_nat by (simp add: take_bit_nat_def)
  have e: "mask 3 = (7 :: u8)" "mask (Suc 0) = (1 :: u8)" "mask 4 = (15 :: u8)" by code_simp+
  show "(word_of_nat a AND 7 :: u8) = word_of_nat (a mod 8)" using m [of a 3] by (simp add: e)
  show "(word_of_nat a AND 1 :: u8) = word_of_nat (a mod 2)" using m [of a "Suc 0"] by (simp add: e)
  show "(word_of_nat k AND 15 :: u8) = word_of_nat (k mod 16)" using m [of k 4] by (simp add: e)
qed

lemma byte_or: "a < 2 \<Longrightarrow> b < 8 \<Longrightarrow> (word_of_nat (8 * a) OR word_of_nat b :: u8) = word_of_nat (8 * a + b)"
proof -
  have "\<forall>a\<in>set [0..<2]. \<forall>b\<in>set [0..<8]. (word_of_nat (8 * a) OR word_of_nat b :: u8) = word_of_nat (8 * a + b)" by code_simp
  then show "a < 2 \<Longrightarrow> b < 8 \<Longrightarrow> ?thesis" by simp
qed

lemma byte_mod: "word_of_nat (k mod 256) = (word_of_nat k :: u8)"
  by (simp add: word_of_nat_eq_iff take_bit_eq_mod)

lemma byte_unat: "k < 256 \<Longrightarrow> unat (word_of_nat k :: u8) = k"
  by (simp add: unat_of_nat)

lemma unat_u8: "unat (x :: u8) < 256"
  using unsigned_less [of x] by simp

lemma check_bytes:
  assumes "length c = 34"
  shows "put_check (as_bytes c) = as_bytes (first_check c)" "put_check2 (as_bytes c) = as_bytes (second_check c)"
proof -
  have "check_digit is (as_bytes c) = word_of_nat ((sum_list (map (\<lambda>i. c ! i) is) + 8) mod 16)" if "\<forall>i\<in>set is. i < 34" for "is"
  proof -
    have "sum_list (map (\<lambda>i. as_bytes c ! i) is) = word_of_nat (sum_list (map (\<lambda>i. c ! i) is))"
      using that by (induction "is") (simp_all add: assms)
    then show ?thesis unfolding check_digit_def byte_and(4) [symmetric] by simp
  qed
  note d = this [of "[0, 2, 4, 6, 8, 10, 12, 14]"] this [of "[17, 19, 21, 23, 25, 27, 29, 31]"]
  show "put_check (as_bytes c) = as_bytes (first_check c)" "put_check2 (as_bytes c) = as_bytes (second_check c)"
    using d by (simp_all add: put_check_def put_check2_def first_check_def second_check_def code_check_def map_update)
qed

lemma length_code [simp]: "length (first_check c) = length c" "length (up1 j c) = length c" "length (down1 j c) = length c"
  by (simp_all add: first_check_def code_check_def up1_def down1_def)

lemma step_bytes:
  "j < length c \<Longrightarrow> as_bytes (up1 j c) = (as_bytes c)[j := as_bytes c ! j + 1]"
  "j < length c \<Longrightarrow> as_bytes (down1 j c) = (as_bytes c)[j := as_bytes c ! j - 1]"
proof -
  have "(255 :: u8) = - 1" by simp
  then have m: "x + 255 = x - 1" for x :: u8 by (simp only: diff_conv_add_uminus)
  show "j < length c \<Longrightarrow> as_bytes (up1 j c) = (as_bytes c)[j := as_bytes c ! j + 1]"
    "j < length c \<Longrightarrow> as_bytes (down1 j c) = (as_bytes c)[j := as_bytes c ! j - 1]"
    by (simp_all add: up1_def down1_def map_update byte_mod m add.commute)
qed

lemma red_command_code:
  assumes l: "length c = 34" and c: "\<forall>b\<in>set c. b < 256" and n: "n < 256" and h: "h < 7"
  shows "red_command h (word_of_nat n) (as_bytes c) = as_bytes (code_after (gree_words ! h) n c)"
proof -
  have b: "c ! i < 256" if "i < 34" for i using c l that by simp
  have u: "unat (word_of_nat n :: u8) = n" using n by (rule byte_unat)
  have n1: "(word_of_nat n = (1 :: u8)) = (n = 1)" "(word_of_nat n = (0 :: u8)) = (n = 0)"
    using u by auto
  consider "h = 0" | "h = 1" | "h = 2" | "h = 3" | "h = 4" | "h = 5" | "h = 6" using h by linarith
  then show ?thesis
  proof cases
    case 1
    have "push_bit 3 (word_of_nat n) = (word_of_nat (8 * n mod 256) :: u8)" by (simp add: byte_mod push_bit_eq_mult)
    then show ?thesis using 1 l by (simp add: red_command_def code_after_def gree_words_def check_bytes [symmetric] map_update)
  next
    case 2
    have "(as_bytes c ! 0 AND 8) OR (word_of_nat n AND 7) = word_of_nat (c ! 0 div 8 mod 2 * 8 + n mod 8)"
      using byte_or [of "c ! 0 div 8 mod 2" "n mod 8"] l n b [of 0] by (simp add: byte_and mult.commute)
    then show ?thesis using 2 l by (simp add: red_command_def code_after_def gree_words_def check_bytes [symmetric] map_update)
  next
    case 3
    have w: "word_of_nat (c ! 31) AND 7 = (word_of_nat (c ! 31 mod 8) :: u8)" using b [of 31] by (simp add: byte_and)
    have v: "unat (word_of_nat (c ! 31 mod 8) :: u8) = c ! 31 mod 8" by (rule byte_unat) (simp add: less_trans [OF mod_less_divisor])
    have "(word_of_nat (c ! 31 mod 8) < (4 :: u8)) = (c ! 31 mod 8 < 4)" "(word_of_nat (c ! 31 mod 8) \<le> (4 :: u8)) = (c ! 31 mod 8 \<le> 4)"
      "((4 :: u8) \<le> word_of_nat (c ! 31 mod 8)) = (4 \<le> c ! 31 mod 8)" "word_of_nat (c ! 31 mod 8) < (8 :: u8)"
      using v by (simp_all add: word_less_nat_alt word_le_nat_alt)
    note cmp = this
    have other: "up1 (Suc 0) c ! 31 = c ! 31" "down1 (Suc 0) c ! 31 = c ! 31" by (simp_all add: up1_def down1_def)
    show ?thesis using 3 l
      by (simp add: red_command_def code_after_def gree_words_def check_bytes [symmetric] Let_def w cmp n1 step_bytes other)
  next
    case 4
    then show ?thesis using l n1 by (simp add: red_command_def code_after_def gree_words_def check_bytes [symmetric] step_bytes)
  next
    case 5
    then show ?thesis using n by (simp add: red_command_def code_after_def gree_words_def byte_and map_update)
  next
    case 6
    then show ?thesis using l n by (simp add: red_command_def code_after_def gree_words_def byte_and check_bytes [symmetric] map_update)
  next
    case 7
    have "push_bit 3 (word_of_nat n AND 1) = (word_of_nat (8 * (n mod 2)) :: u8)" using n by (simp add: byte_and push_bit_eq_mult)
    then have "push_bit 3 (word_of_nat n AND 1) OR (as_bytes c ! 1 AND 7) = word_of_nat (8 * (n mod 2) + c ! 1 mod 8)"
      using byte_or [of "n mod 2" "c ! 1 mod 8"] l b [of 1] by (simp add: byte_and)
    then show ?thesis using 7 by (simp add: red_command_def code_after_def gree_words_def map_update)
  qed
qed

section \<open>The answers\<close>

text \<open>C9: the infrared client and a command \<open>{"t": w, "p": n}\<close>: a known word changes the code as \<open>code_after\<close>
  says for the low byte of the number, which for the fan can be not at all, and is answered with that byte; an unknown one
  changes nothing but the word buffer and is not answered; a reply pipe that cannot be opened or written costs the answer
  only. But the answer is made from 20 bytes beginning at the word's literal, which has 4 to 11: with less than 20 readable bytes
  there, the client reads out of bounds.\<close>

theorem gree_answers:
  assumes "exact_ints D" "number_formats D" "2 \<le> k" "length (cntl_word st) = 20" "19 \<le> mem (js st)"
    and "NUL \<notin> set w" "length w < 20" "-2147483648 \<le> n" "n \<le> 2147483647" "length (reply_text w ''p'' n) < 64"
    and "length (redF0 st) = 34"
  shows "gree_turn D k rodata (Some (reply_text w ''p'' n), opened, written) st =
    (let st1 = st\<lparr>cntl_word := w @ NUL # drop (Suc (length w)) (cntl_word st), js := (js st)\<lparr>mem := mem (js st) - 6, ep := None\<rparr>,
                log := log st @ [Out (''[server] jsonBUffer: '' @ reply_text w ''p'' n @ [CHR 0x0A])]\<rparr> in
     case word_index gree_words w of
       None \<Rightarrow> Inr (st1\<lparr>log := log st1 @ [not_found w]\<rparr>, True)
     | Some h \<Rightarrow> if length (w @ NUL # rodata h) < 20 then Inl OutOfBounds
       else Inr (st1\<lparr>redF0 := map word_of_nat (code_after w (nat (n mod 256)) (map unat (redF0 st))), js := (js st)\<lparr>mem := mem (js st) - 19, ep := None\<rparr>,
         log := log st1 @ [found, word_status w (n mod 256), reply_event opened written w (n mod 256)]\<rparr>, True))"
proof -
  let ?st1 = "st\<lparr>cntl_word := w @ NUL # drop (Suc (length w)) (cntl_word st), js := (js st)\<lparr>mem := mem (js st) - 6, ep := None\<rparr>,
                log := log st @ [Out (''[server] jsonBUffer: '' @ reply_text w ''p'' n @ [CHR 0x0A])]\<rparr>"
  have turn: "gree_turn D k rodata (Some (reply_text w ''p'' n), opened, written) st =
      rbind (gree_handle D rodata opened written (w @ NUL # drop (Suc (length w)) (cntl_word st)) n ?st1) (\<lambda>st. Inr (st, True))"
    unfolding gree_turn_def prod.case by (rule client_turn_text) (use assms in auto)
  show ?thesis
  proof (cases "word_index gree_words w")
    case None
    then have "w \<notin> set gree_words" by (simp add: word_index_None)
    then show ?thesis unfolding turn
      using None assms(6) gree_unknown [of w] by (simp add: gree_handle_def buffer_str Let_def)
  next
    case (Some h)
    then have h: "h < 7" "gree_words ! h = w" using word_index_Some [OF Some] by (auto simp: gree_words_def)
    have w: "w \<in> set gree_words \<union> set clnt_words" using Some by (auto simp: word_index_def split: if_splits)
    have n: "0 \<le> n mod 256" "n mod 256 \<le> 255" by (simp, presburger)
    have "word_of_int n = (word_of_nat (nat (n mod 256)) :: u8)"
      using n(1) by (simp add: word_of_int_eq_iff take_bit_eq_mod)
    moreover have "red_command h (word_of_nat (nat (n mod 256))) (map word_of_nat (map unat (redF0 st)))
        = map word_of_nat (code_after (gree_words ! h) (nat (n mod 256)) (map unat (redF0 st)))"
      by (rule red_command_code) (use assms(11) n h unat_u8 in auto)
    moreover have "map word_of_nat (map unat (redF0 st)) = redF0 st" by (simp add: o_def)
    ultimately have red: "red_command h (word_of_int n) (redF0 st)
        = map word_of_nat (code_after w (nat (n mod 256)) (map unat (redF0 st)))" using h(2) by simp
    show ?thesis
    proof (cases "length (w @ NUL # rodata h) < 20")
      case True
      then show ?thesis unfolding turn
        using assms(6) h Some find_gree [OF h(1)] by (simp add: gree_handle_def buffer_str Let_def send_reply_def)
    next
      case False
      then have "20 \<le> length (w @ NUL # rodata h)" "13 \<le> mem (js ?st1)" using assms(5) by simp_all
      then obtain c where "send_reply D (w @ NUL # rodata h) (n mod 256) opened written (js ?st1)
          = Inr (c, [reply_event opened written w (n mod 256)], (js ?st1)\<lparr>mem := mem (js ?st1) - 13\<rparr>)"
        using send_reply_event [OF assms(1,2) w n, of "js ?st1" "rodata h" opened written] by blast
      then show ?thesis unfolding turn
        using assms(6) h Some find_gree [OF h(1)] False by (simp add: gree_handle_def buffer_str uint_status red Let_def)
    qed
  qed
qed

theorem gree_answers_witness:
  "\<exists>st. gree_turn int_dbl 2 (\<lambda>_. replicate 20 NUL) (Some (reply_text ''temp'' ''p'' 1), True, True)
      \<lparr>cntl_word = replicate 20 NUL, js = \<lparr>ep = None, mem = 19\<rparr>, log = [], redF0 = replicate 34 0\<rparr> = Inr (st, True)
    \<and> redF0 st = (replicate 34 0)[2 := 1, 16 := 9] \<and> last (log st) = Sent (padded 64 (reply_text ''temp'' ''s'' 1))"
proof -
  let ?st = "\<lparr>cntl_word = replicate 20 NUL, js = \<lparr>ep = None, mem = 19\<rparr>, log = [], redF0 = replicate 34 (0 :: u8)\<rparr>"
  have f: "length (reply_text ''temp'' ''p'' 1) < 64" "word_index gree_words ''temp'' = Some 3" by code_simp+
  have c: "map word_of_nat (code_after ''temp'' 1 (map unat (replicate 34 (0 :: u8)))) = (replicate 34 0)[2 := 1, 16 := (9 :: u8)]"
    by code_simp
  show ?thesis
    using gree_answers [OF int_dbl_exact int_dbl_formats, of 2 ?st "''temp''" 1 "\<lambda>_. replicate 20 NUL" True True] f c
    by (simp add: reply_event_def)
qed

text \<open>The first client answers a known command with status 1 and leaves its loop in good order; for a word that is
  not one of its eleven the search reads past the array, its bound is 12.\<close>

theorem clnt_answers:
  assumes "exact_ints D" "number_formats D" "2 \<le> k" "length (cntl_word st) = 20" "19 \<le> mem (js st)"
    and "NUL \<notin> set w" "length w < 20" "-2147483648 \<le> n" "n \<le> 2147483647" "length (reply_text w ''p'' n) < 64"
    and "\<forall>h<11. 20 \<le> length (clnt_words ! h @ NUL # rodata h)"
  shows "clnt_turn D k rodata (Some (reply_text w ''p'' n), opened, written) st =
    (if w \<in> set clnt_words then
       Inr (st\<lparr>cntl_word := w @ NUL # drop (Suc (length w)) (cntl_word st), js := (js st)\<lparr>mem := mem (js st) - 19, ep := None\<rparr>,
         log := log st @ [Out (''[server] jsonBUffer: '' @ reply_text w ''p'' n @ [CHR 0x0A]), found, word_status w n,
           reply_event opened written w 1]\<rparr>, True)
     else Inl OutOfBounds)"
proof -
  let ?st1 = "st\<lparr>cntl_word := w @ NUL # drop (Suc (length w)) (cntl_word st), js := (js st)\<lparr>mem := mem (js st) - 6, ep := None\<rparr>,
                log := log st @ [Out (''[server] jsonBUffer: '' @ reply_text w ''p'' n @ [CHR 0x0A])]\<rparr>"
  have turn: "clnt_turn D k rodata (Some (reply_text w ''p'' n), opened, written) st =
      rbind (clnt_handle D rodata opened written (w @ NUL # drop (Suc (length w)) (cntl_word st)) n ?st1) (\<lambda>st. Inr (st, True))"
    unfolding clnt_turn_def prod.case by (rule client_turn_text) (use assms in auto)
  show ?thesis
  proof (cases "w \<in> set clnt_words")
    case False
    then show ?thesis unfolding turn
      using assms(6) clnt_unknown [of w] by (simp add: clnt_handle_def buffer_str)
  next
    case True
    then obtain h where h: "h < 11" "clnt_words ! h = w" by (auto simp: in_set_conv_nth clnt_length)
    have "w \<in> set gree_words \<union> set clnt_words" using True by simp
    moreover have "20 \<le> length (w @ NUL # rodata h)" using assms(11) h by auto
    moreover have "13 \<le> mem (js ?st1)" using assms(5) by simp
    ultimately obtain c where "send_reply D (w @ NUL # rodata h) 1 opened written (js ?st1)
        = Inr (c, [reply_event opened written w 1], (js ?st1)\<lparr>mem := mem (js ?st1) - 13\<rparr>)"
      using send_reply_event [OF assms(1,2), of w 1 "js ?st1" "rodata h" opened written] by auto
    then show ?thesis unfolding turn
      using assms(6) h True find_clnt [OF h(1)] by (simp add: clnt_handle_def buffer_str Let_def)
  qed
qed

theorem clnt_answers_witness:
  "clnt_turn int_dbl 2 (\<lambda>_. replicate 20 NUL) (Some (reply_text ''mode'' ''p'' 1), True, True)
      \<lparr>cntl_word = replicate 20 NUL, js = \<lparr>ep = None, mem = 19\<rparr>, log = []\<rparr> = Inl OutOfBounds"
proof -
  let ?st = "\<lparr>cntl_word = replicate 20 NUL, js = \<lparr>ep = None, mem = 19\<rparr>, log = []\<rparr>"
  have f: "length (reply_text ''mode'' ''p'' 1) < 64" "\<forall>h<11. 20 \<le> length (clnt_words ! h @ NUL # replicate 20 NUL)"
    "''mode'' \<notin> set clnt_words" by (code_simp, simp, code_simp)
  show ?thesis
    using clnt_answers [OF int_dbl_exact int_dbl_formats, of 2 ?st "''mode''" 1 "\<lambda>_. replicate 20 NUL" True True] f by simp
qed

section \<open>The query\<close>

definition query :: "'d dbl \<Rightarrow> char list \<Rightarrow> 'd cJSON" where
  "query D q = Item cJSON_Object None 0 (of_i D 0) None [Item cJSON_String (Some q) 0 (of_i D 0) (Some ''query'') []]"

definition query_text :: "char list \<Rightarrow> char list" where
  "query_text q = CHR ''{'' # quoted ''query'' @ CHR '':'' # quoted q @ ''}''"

lemma query_render: "render D False (query D q) 0 = query_text q"
  by (simp add: query_def query_text_def)

lemma online_bytes_plain: "length online_bytes = 39"
    "\<forall>bs\<in>set online_bytes. length bs < 40 \<and> (\<forall>b\<in>set bs. 48 \<le> b \<and> b < 256 \<and> b \<noteq> 92)"
  by (simp_all add: online_bytes_def)

lemma escape_char_of: "48 \<le> (b :: nat) \<Longrightarrow> b < 256 \<Longrightarrow> b \<noteq> 92 \<Longrightarrow> escape (char_of b) = [char_of b] \<and> NUL \<noteq> char_of b"
proof -
  assume b: "48 \<le> b" "b < 256" "b \<noteq> 92"
  then have c: "code_of (char_of b :: char) = b" by simp
  then have "(char_of b :: char) \<noteq> CHR 0x22" "(char_of b :: char) \<noteq> CHR 0x5C"
    using b by (intro notI; simp)+
  moreover have "NUL \<noteq> (char_of b :: char)" using code_of_0 [of "char_of b"] c b(1) by auto
  ultimately show ?thesis using b(1) c by (simp add: escape_def)
qed

lemma online_facts: "length online_words = 39" "q \<in> set online_words \<Longrightarrow> NUL \<notin> set q \<and> length (query_text q) < 64"
proof -
  show "length online_words = 39" by (simp add: online_words_def online_bytes_plain)
  assume "q \<in> set online_words"
  then obtain bs :: "nat list" where bs: "q = map char_of bs" "length bs < 40" "\<forall>b\<in>set bs. 48 \<le> b \<and> b < 256 \<and> b \<noteq> 92"
    using online_bytes_plain(2) by (auto simp: online_words_def)
  from bs(3) have e: "concat (map escape (map char_of bs)) = map char_of bs \<and> NUL \<notin> set (map char_of bs :: char list)"
    by (induction bs) (auto simp: escape_char_of)
  moreover have "length (quoted ''query'') = 7" by code_simp
  ultimately show "NUL \<notin> set q \<and> length (query_text q) < 64"
    using bs(1,2) by (simp add: query_text_def quoted_escape)
qed

lemma query_find: "cJSON_GetObjectItem (query D q) ''t'' = None"
  by (simp add: query_def cJSON_GetObjectItem_def strcasecmp_eq_def)

lemma query_read:
  assumes "exact_ints D" "2 \<le> k" "NUL \<notin> set q" "length (query_text q) < N" "4 \<le> mem s"
  shows "read_message D k (padded N (query_text q)) cw s = Inl NullDeref"
proof -
  have p: "padded N (query_text q) = query_text q @ NUL # replicate (N - length (query_text q) - 1) NUL"
    using assms(4) by (cases "N - length (query_text q)") (auto simp: padded_def)
  have "reads D (parse_value D k) (\<lambda>t. render D False t 0) (query D q)"
    by (rule reads_render [OF assms(1)]) (use assms(2,3) in \<open>simp_all add: query_def\<close>)
  then have r: "reads D (parse_value D k) (\<lambda>_. query_text q) (query D q)" by (simp add: reads_def query_render)
  have j: "jstring (query D q) = None" "allocs (query D q) < mem s" using assms(5) by (simp_all add: query_def)
  from reads_parse [OF r j] show ?thesis unfolding p by (simp add: read_message_def query_find)
qed

lemma query_turn:
  assumes "exact_ints D" "2 \<le> k" "NUL \<notin> set q" "length (query_text q) < 64" "4 \<le> mem (js st)"
  shows "client_turn D k handle (Some (padded 64 (query_text q))) st = Inl NullDeref"
proof -
  obtain b where "padded 64 (query_text q) = CHR ''{'' # b" "padded 64 (padded 64 (query_text q)) = padded 64 (query_text q)"
    "take 64 (padded 64 (query_text q)) = padded 64 (query_text q)"
    using assms(4) by (simp add: padded_def query_text_def)
  then show ?thesis using query_read [OF assms, of "cntl_word st"] by (simp add: client_turn_def Let_def)
qed

lemma send_query_text:
  assumes D: "number_formats D" and i: "0 \<le> i" "i < 39" and m: "9 \<le> mem s"
  shows "send_query D i s = Inr (padded 1024 (query_text (online_words ! nat i)), s\<lparr>mem := mem s - 9\<rparr>)"
proof -
  let ?q = "online_words ! nat i"
  have "?q \<in> set online_words" using i online_facts(1) by simp
  then have q: "NUL \<notin> set ?q" "length (query_text ?q) < 64" using online_facts(2) by blast+
  have ok: "json_ok (query D ?q)" using q(1) by (simp add: query_def)
  have l: "length (render D False (query D ?q) 0) + 64 \<le> 2 ^ 30" unfolding query_render using q(2) by simp
  have "cJSON_PrintUnformatted D (query D ?q) (s\<lparr>mem := mem s - Suc (Suc (Suc (Suc 0)))\<rparr>)
      = Inr (Some (query_text ?q), s\<lparr>mem := mem s - 9\<rparr>)"
    using print_value_text [OF D ok _ l, of "s\<lparr>mem := mem s - 4\<rparr>"] m query_render [of D ?q]
    unfolding gives_text_def cJSON_PrintUnformatted_def by (simp add: query_def numeral_eq_Suc)
  then show ?thesis
    using m q(2) i by (simp add: send_query_def cJSON_CreateObject_def cJSON_CreateString_def cJSON_New_Item_def jmalloc_def
        cJSON_strdup_def add_to_def cJSON_AddItemToObject_def cJSON_AddItemToArray_def set_type_def set_child_def query_def)
qed

text \<open>The sender of queries and the clients do not fit: whatever command is asked for, what it writes makes both
  clients follow a null pointer, because the message has no \<open>t\<close>; and an argument past the last command makes the
  sender itself do so.\<close>

theorem query_breaks_clients:
  assumes "exact_ints D" "number_formats D" "2 \<le> k" "9 \<le> mem s" "4 \<le> mem (js g)" "4 \<le> mem (js c)" "0 \<le> i" "i < 64"
  shows "if i < 39 then
      (\<exists>block s'. send_query D i s = Inr (block, s') \<and> length block = 1024
        \<and> gree_turn D k rodata (Some (take 64 block), opened, written) g = Inl NullDeref
        \<and> clnt_turn D k rodata (Some (take 64 block), opened, written) c = Inl NullDeref)
    else send_query D i s = Inl NullDeref"
proof (cases "i < 39")
  case True
  let ?q = "online_words ! nat i"
  have "?q \<in> set online_words" using True assms(7) online_facts(1) by simp
  then have q: "NUL \<notin> set ?q" "length (query_text ?q) < 64" using online_facts(2) by blast+
  have t: "take 64 (padded 1024 (query_text ?q)) = padded 64 (query_text ?q)" using q(2) by (simp add: padded_def)
  have "length (padded 1024 (query_text ?q)) = 1024" using q(2) by (simp add: padded_def)
  then show ?thesis using True assms(5,6) send_query_text [OF assms(2,7) True assms(4)]
    by (simp add: gree_turn_def clnt_turn_def t query_turn [OF assms(1,3) q])
next
  case False
  then show ?thesis using assms(4,8)
    by (simp add: send_query_def cJSON_CreateObject_def cJSON_New_Item_def jmalloc_def)
qed

theorem query_breaks_clients_witness:
  "\<exists>block s'. send_query int_dbl 3 \<lparr>ep = None, mem = 9\<rparr> = Inr (block, s')
    \<and> gree_turn int_dbl 2 (\<lambda>_. []) (Some (take 64 block), True, True)
        \<lparr>cntl_word = replicate 20 NUL, js = \<lparr>ep = None, mem = 4\<rparr>, log = [], redF0 = replicate 34 0\<rparr> = Inl NullDeref"
  using query_breaks_clients [OF int_dbl_exact int_dbl_formats, of 2 "\<lparr>ep = None, mem = 9\<rparr>"
      "\<lparr>cntl_word = replicate 20 NUL, js = \<lparr>ep = None, mem = 4\<rparr>, log = [], redF0 = replicate 34 0\<rparr>"
      "\<lparr>cntl_word = replicate 20 NUL, js = \<lparr>ep = None, mem = 4\<rparr>, log = []\<rparr>" 3 "\<lambda>_. []" True True]
  by auto

end
