(* ===== verification/Http.thy ===== *)
theory Http
  imports Decimal
begin

text \<open>
  The HTTP client \<^verbatim>\<open>src/http-client/http-client.c\<close>, which downloads a file: URL parsing, the response
  header, read byte by byte, and the download loop. The connection is the list of the bytes the server sends
  before it closes; \<open>None\<close> in it is a \<open>read\<close> that fails. How many bytes a \<open>read\<close> of the download loop returns
  is an input. Strings are lists without a terminator, blocks end at the bytes they hold. The file is opened without being
  cut: what an older one of the same name holds behind the saved bytes stays. The progress bar is
  not modelled, and writes to the file succeed.
\<close>

section \<open>The C library\<close>

fun strstr :: "char list \<Rightarrow> char list \<Rightarrow> char list option" where
  "strstr [] p = (if p = [] then Some [] else None)"
| "strstr (c # s) p = (if take (length p) (c # s) = p then Some (c # s) else strstr s p)"

text \<open>The conversions \<open>%*s\<close>, \<open>%s\<close> and \<open>%d\<close> of \<open>sscanf\<close>; \<open>None\<close> when nothing is assigned.\<close>

definition after_word :: "char list \<Rightarrow> char list" where
  "after_word s = dropWhile (\<lambda>c. \<not> is_space c) (dropWhile is_space s)"

definition scan_s :: "char list \<Rightarrow> char list option" where
  "scan_s s = (let w = takeWhile (\<lambda>c. \<not> is_space c) (dropWhile is_space s) in if w = [] then None else Some w)"

definition scan_d :: "char list \<Rightarrow> int option" where
  "scan_d s =
     (let s = dropWhile is_space s;
          signed = s \<noteq> [] \<and> (hd s = CHR ''-'' \<or> hd s = CHR ''+'');
          t = (if signed then tl s else s)
      in if t = [] \<or> \<not> is_digit (hd t) then None
         else Some (if signed \<and> hd s = CHR ''-'' then - digits_value t else digits_value t))"

section \<open>The URL\<close>

definition url_start :: "char list \<Rightarrow> nat" where
  "url_start url = fold (\<lambda>p start. if take (length p) url = p then length p else start) [''http://'', ''https://''] 0"

definition parse_url :: "char list \<Rightarrow> (char list \<times> int) res" where
  "parse_url url =
     (let domain = takeWhile (\<lambda>c. c \<noteq> CHR ''/'') (drop (url_start url) url) in
      if 64 \<le> length domain then Inl OutOfBounds
      else let port = (case strstr domain '':'' of None \<Rightarrow> 80
             | Some pos \<Rightarrow> (case scan_d (tl pos) of None \<Rightarrow> 80 | Some n \<Rightarrow> n))
           in Inr (takeWhile (\<lambda>c. c \<noteq> CHR '':'') domain, port))"

section \<open>The response header\<close>

record resp_header =
  status_code :: int
  content_type :: "char list"
  content_length :: int
  file_name :: "char list"

definition scan_into :: "char list \<Rightarrow> char list \<Rightarrow> char list res" where
  "scan_into s b = (case scan_s s of None \<Rightarrow> Inr b | Some w \<Rightarrow> strcpy_block w b)"

text \<open>\<open>g\<close> is the uninitialised structure. The result is what \<open>printf\<close> shows of \<open>file_name\<close>, too.\<close>

definition get_resp_header :: "resp_header \<Rightarrow> char list \<Rightarrow> (resp_header \<times> char list) res" where
  "get_resp_header g response =
     (let r = (case strstr response ''HTTP/'' of None \<Rightarrow> g
        | Some pos \<Rightarrow> (case scan_d (after_word pos) of None \<Rightarrow> g | Some n \<Rightarrow> g\<lparr>status_code := n\<rparr>)) in
      rbind (case strstr response ''Content-Type:'' of None \<Rightarrow> Inr r
        | Some pos \<Rightarrow> rbind (scan_into (after_word pos) (content_type r)) (\<lambda>b. Inr (r\<lparr>content_type := b\<rparr>))) (\<lambda>r.
      let r = (case strstr response ''Content-Length:'' of None \<Rightarrow> r
        | Some pos \<Rightarrow> (case scan_d (after_word pos) of None \<Rightarrow> r | Some n \<Rightarrow> r\<lparr>content_length := n\<rparr>)) in
      rbind (case strstr response ''filename='' of None \<Rightarrow> Inr r
        | Some pos \<Rightarrow>
            let t = dropWhile (\<lambda>c. c = CHR ''='') (drop 9 pos) in
            if t = [] then Inl NullDeref
            else rbind (scan_into (takeWhile (\<lambda>c. c \<noteq> CHR ''='') t) (file_name r)) (\<lambda>b. Inr (r\<lparr>file_name := b\<rparr>))) (\<lambda>r.
      rbind (get_str (file_name r)) (\<lambda>t. Inr (r, t)))))"

text \<open>\<open>strcat(response, buf)\<close> of one character, and the count of line-end characters at the end of the text.\<close>

definition strcat_char :: "char \<Rightarrow> char list \<Rightarrow> char list res" where
  "strcat_char c b =
     (if NUL \<notin> set b then Inl OutOfBounds
      else let k = length (cstr b) in
        if c = NUL then Inr b
        else if length b \<le> Suc k then Inl OutOfBounds
        else Inr (b[k := c, Suc k := NUL]))"

definition newline :: "char \<Rightarrow> bool" where
  "newline c \<longleftrightarrow> c = CHR 0x0A \<or> c = CHR 0x0D"

definition trail :: "char list \<Rightarrow> nat" where
  "trail s = length (takeWhile newline (rev s))"

definition count_flag :: "char list \<Rightarrow> nat res" where
  "count_flag b = (if NUL \<notin> set b then Inl OutOfBounds
     else if trail (cstr b) = length (cstr b) then Inl OutOfBounds else Inr (trail (cstr b)))"

text \<open>The loop over the header. \<open>grow n\<close> are the \<open>n\<close> bytes that \<open>realloc\<close> adds to a block of \<open>n\<close>; the result is
  \<open>None\<close> when it fails and the process exits, otherwise the block and what is left to read.\<close>

fun read_header :: "(nat \<Rightarrow> char list option) \<Rightarrow> char option list \<Rightarrow> char list \<Rightarrow> nat \<Rightarrow> (char list \<times> char option list) option res" where
  "read_header grow [] response len = Inr (Some (response, []))"
| "read_header grow (None # s) response len = Inl OutOfBounds"
| "read_header grow (Some c # s) response len =
     (case (if length response < len + 1 then map_option (\<lambda>e. response @ e) (grow (length response)) else Some response) of
        None \<Rightarrow> Inr None
      | Some response \<Rightarrow>
          rbind (strcat_char c response) (\<lambda>response. rbind (count_flag response) (\<lambda>flag.
          if flag = 4 then Inr (Some (response, s)) else read_header grow s response (len + 1))))"

section \<open>The download\<close>

text \<open>A \<open>read\<close> of at most 4096 bytes that gets \<open>sz\<close>, or fewer when they are not there; at least one.\<close>

definition next_read :: "nat \<Rightarrow> char option list \<Rightarrow> char list option \<times> char option list" where
  "next_read sz s = (case s of [] \<Rightarrow> (Some [], []) | None # r \<Rightarrow> (None, r)
     | Some c # r \<Rightarrow> let b = takeWhile (\<lambda>x. x \<noteq> None) (take (max 1 (min sz 4096)) s) in (Some (map the b), drop (length b) s))"

lemma next_read_shorter: "s \<noteq> [] \<Longrightarrow> next_read sz s = (b, r) \<Longrightarrow> length r < length s"
  by (auto simp: next_read_def Let_def take_Cons' split: list.splits option.splits)

text \<open>\<open>length += len\<close> on an \<open>int\<close>.\<close>

definition add_int :: "int \<Rightarrow> int \<Rightarrow> int res" where
  "add_int n d = (if - (2 ^ 31) \<le> n + d \<and> n + d < 2 ^ 31 then Inr (n + d) else Inl Overflow)"

text \<open>The bytes written to the file, and \<open>length\<close>. \<open>i\<close> counts the reads.\<close>

function download_loop :: "int \<Rightarrow> (nat \<Rightarrow> nat) \<Rightarrow> nat \<Rightarrow> char option list \<Rightarrow> char list \<Rightarrow> int \<Rightarrow> (char list \<times> int) res" where
  "download_loop clen sz i s file n =
     (if s = [] then Inr (file, n)
      else case next_read (sz i) s of (b, s') \<Rightarrow>
        if \<not> n < clen then Inr (file, n)
        else (case b of None \<Rightarrow> rbind (add_int n (-1)) (\<lambda>n. download_loop clen sz (Suc i) s' file n)
          | Some b \<Rightarrow> rbind (add_int n (int (length b))) (\<lambda>n. download_loop clen sz (Suc i) s' (file @ b) n)))"
  by pat_completeness auto
termination
  by (relation "measure (\<lambda>(clen, sz, i, s, file, n). length s)") (simp_all, (metis next_read_shorter)+)

declare download_loop.simps [simp del]

section \<open>The program\<close>

definition request :: "char list \<Rightarrow> char list \<Rightarrow> char list" where
  "request url domain = (let crlf = [CHR 0x0D, CHR 0x0A] in
     ''GET '' @ url @ '' HTTP/1.1'' @ crlf
     @ ''Accept:text/html,application/xhtml+xml,application/xml;q=0.9,image/webp,*/*;q=0.8'' @ crlf
     @ ''User-Agent:Mozilla/5.0 (X11; Linux x86_64) AppleWebKit/537(KHTML, like Gecko) Chrome/47.0.2526Safari/537.36'' @ crlf
     @ ''Host:'' @ domain @ crlf @ ''Connection:close'' @ crlf @ crlf)"

text \<open>The world: name resolution, the two calls that connect, the server's bytes, the uninitialised memory
  (\<open>malloc_bytes\<close> of \<open>response\<close>, \<open>stack_bytes\<close> of the structure), \<open>realloc\<close>, whether the file can be
  opened, and what a file of a name held before (nothing, when there is none).\<close>

record http_world =
  resolve :: "char list \<Rightarrow> char list option"
  socket_ok :: bool
  connect_ok :: bool
  server :: "char option list"
  malloc_bytes :: "char list"
  stack_bytes :: resp_header
  realloc_bytes :: "nat \<Rightarrow> char list option"
  create_ok :: bool
  old_file :: "char list \<Rightarrow> char list"
  read_sizes :: "nat \<Rightarrow> nat"

datatype http_end = Exit int | Downloaded (sent: "char list") (saved_as: "char list") (saved: "char list") (successful: bool)

definition http_main :: "http_world \<Rightarrow> char list list \<Rightarrow> http_end res" where
  "http_main w args = (case args of [] \<Rightarrow> Inr (Exit 0)
     | url # rest \<Rightarrow>
       if 2048 \<le> length url then Inl OutOfBounds
       else rbind (parse_url url) (\<lambda>(domain, port).
         if length rest = 1 \<and> 256 \<le> length (hd rest) then Inl OutOfBounds
         else (case resolve w domain of None \<Rightarrow> Inr (Exit 0)
         | Some ip \<Rightarrow>
           if 16 \<le> length ip then Inl OutOfBounds else if ip = [] then Inr (Exit 0)
           else if 2048 \<le> length (request url domain) then Inl OutOfBounds
           else if \<not> socket_ok w \<or> \<not> connect_ok w then Inr (Exit 255)
           else rbind (read_header (realloc_bytes w) (server w) (malloc_bytes w) 0) (\<lambda>h.
             case h of None \<Rightarrow> Inr (Exit 255)
             | Some (response, s) \<Rightarrow>
               rbind (get_str response) (\<lambda>t. rbind (get_resp_header (stack_bytes w) t) (\<lambda>(resp, name).
               if \<not> create_ok w then Inr (Exit 0)
               else rbind (download_loop (content_length resp) (read_sizes w) 0 s [] 0) (\<lambda>(file, n).
                 Inr (Downloaded (request url domain) name (file @ drop (length file) (old_file w name)) (n = content_length resp)))))))))"

section \<open>URLs\<close>

lemma dropWhile_digits: "dropWhile is_space (digits_of n) = digits_of n"
proof (cases "digits_of n")
  case (Cons c ds)
  then have "is_digit c" using digits_of_digit [of c n] by simp
  then have "\<not> is_space c" by (auto simp: is_digit_def is_space_def)
  then show ?thesis using Cons by simp
qed simp

lemma scan_d_digits: "scan_d (digits_of n) = Some (int n)"
proof -
  obtain c ds where c: "digits_of n = c # ds" "is_digit c" using digits_of_nonempty [of n] digits_of_digit [of _ n] by (cases "digits_of n") auto
  have "c \<noteq> CHR ''-''" "c \<noteq> CHR ''+''" using c(2) by (auto simp: is_digit_def)
  moreover have "digits_value (digits_of n) = int n" using digits_value_append [of "[]" n] by simp
  ultimately show ?thesis using c dropWhile_digits [of n] by (simp add: scan_d_def)
qed

lemma strstr_char: "CHR '':'' \<notin> set h \<Longrightarrow> strstr (h @ CHR '':'' # t) '':'' = Some (CHR '':'' # t)"
  by (induction h) auto

lemma strstr_none: "CHR '':'' \<notin> set h \<Longrightarrow> strstr h '':'' = None"
  by (induction h) auto

lemma takeWhile_upto: "x \<notin> set d \<Longrightarrow> r = [] \<or> hd r = x \<Longrightarrow> takeWhile (\<lambda>c. c \<noteq> x) (d @ r) = d"
  by (induction d) (cases r, auto)

definition port_text :: "nat option \<Rightarrow> char list" where
  "port_text p = (case p of None \<Rightarrow> [] | Some n \<Rightarrow> CHR '':'' # digits_of n)"

lemma digits_not_slash: "CHR ''/'' \<notin> set (digits_of n)"
  using digits_of_digit [of "CHR ''/''" n] by (auto simp: is_digit_def)

lemma url_start_plain:
  assumes h: "CHR ''/'' \<notin> set h" "CHR '':'' \<notin> set h" and rest: "rest = [] \<or> hd rest = CHR ''/''"
  shows "url_start (h @ port_text p @ rest) = 0"
proof -
  let ?d = "h @ port_text p"
  have d: "CHR ''/'' \<notin> set ?d" using h digits_not_slash by (auto simp: port_text_def split: option.splits)
  have no: "take (length q) (?d @ rest) \<noteq> q" if q: "q = s @ ''://''" "CHR ''/'' \<notin> set s" for q s
  proof
    assume t: "take (length q) (?d @ rest) = q"
    then have e: "?d @ rest = q @ drop (length q) (?d @ rest)" by (metis append_take_drop_id)
    have "takeWhile (\<lambda>c. c \<noteq> CHR ''/'') (?d @ rest) = ?d"
      using takeWhile_upto [OF d rest] .
    moreover have "takeWhile (\<lambda>c. c \<noteq> CHR ''/'') (q @ drop (length q) (?d @ rest)) = s @ '':''"
      using takeWhile_upto [of "CHR ''/''" "s @ '':''" "''//'' @ drop (length q) (?d @ rest)"] q by simp
    ultimately have k: "h @ port_text p = s @ '':''" using e by metis
    then have l: "last ?d = CHR '':''" "?d \<noteq> []" by simp_all
    show False
    proof (cases p)
      case None
      then have "CHR '':'' \<in> set h" using l by (metis append_Nil2 last_in_set option.simps(4) port_text_def)
      then show False using h by simp
    next
      case (Some n)
      then have "last ?d = last (digits_of n)" using digits_of_nonempty by (simp add: port_text_def)
      then have "is_digit (CHR '':'')" using l(1) digits_of_nonempty digits_of_digit by (metis last_in_set)
      then show False by (simp add: is_digit_def)
    qed
  qed
  show ?thesis using no [of "''http://''" "''http''"] no [of "''https://''" "''https''"] by (simp add: url_start_def)
qed

lemma url_start_scheme: "url_start (''http://'' @ u) = 7" "url_start (''https://'' @ u) = 8"
  by (simp_all add: url_start_def)

text \<open>A URL is taken apart into host and port: behind an optional scheme the host reaches to the colon of a port
  or the slash of a rest, the port is 80 when none is given, and a host and port of 64 characters or more overflow
  the domain buffer.\<close>

theorem parse_url_parts:
  assumes scheme: "scheme \<in> {[], ''http://'', ''https://''}"
    and h: "CHR ''/'' \<notin> set h" "CHR '':'' \<notin> set h" and rest: "rest = [] \<or> hd rest = CHR ''/''"
  shows "parse_url (scheme @ h @ port_text p @ rest) =
    (if 64 \<le> length h + length (port_text p) then Inl OutOfBounds
     else Inr (h, case p of None \<Rightarrow> 80 | Some n \<Rightarrow> int n))"
proof -
  have "drop (url_start (scheme @ h @ port_text p @ rest)) (scheme @ h @ port_text p @ rest) = h @ port_text p @ rest"
    using scheme url_start_plain [OF h rest, of p] url_start_scheme by auto
  moreover have "CHR ''/'' \<notin> set (h @ port_text p)" using h digits_not_slash by (auto simp: port_text_def split: option.splits)
  then have "takeWhile (\<lambda>c. c \<noteq> CHR ''/'') ((h @ port_text p) @ rest) = h @ port_text p"
    using rest by (rule takeWhile_upto)
  moreover have "takeWhile (\<lambda>c. c \<noteq> CHR '':'') (h @ port_text p) = h"
    using takeWhile_upto [OF h(2), of "port_text p"] by (cases p) (simp_all add: port_text_def)
  ultimately show ?thesis
    by (cases p) (simp_all add: parse_url_def Let_def port_text_def strstr_none [OF h(2)] strstr_char [OF h(2)] scan_d_digits)
qed

theorem parse_url_parts_witness:
  "parse_url (''https://'' @ ''example.org'' @ port_text (Some 8080) @ ''/a/b'') = Inr (''example.org'', 8080)"
proof -
  have "length (port_text (Some 8080)) = 5" by (simp add: port_text_def digits_of.simps)
  then show ?thesis using parse_url_parts [of "''https://''" "''example.org''" "''/a/b''" "Some 8080"] by simp
qed

section \<open>The header and the download\<close>

text \<open>A block that holds the string \<open>p\<close>.\<close>

definition holds :: "char list \<Rightarrow> char list \<Rightarrow> bool" where
  "holds b p \<longleftrightarrow> NUL \<in> set b \<and> cstr b = p"

lemma holds_split: "holds b p \<Longrightarrow> \<exists>t. b = p @ NUL # t \<and> NUL \<notin> set p"
proof -
  assume h: "holds b p"
  then obtain ys zs where "b = ys @ NUL # zs" "NUL \<notin> set ys" using split_list_first [of NUL b] by (auto simp: holds_def)
  then show ?thesis using h by (auto simp: holds_def)
qed

lemma holds_app: "NUL \<notin> set p \<Longrightarrow> holds (p @ NUL # t) p"
  by (simp add: holds_def)

lemma strcat_holds:
  assumes "holds b p" "c \<noteq> NUL"
  shows "strcat_char c b = (if length b \<le> Suc (length p) then Inl OutOfBounds else strcat_char c b)"
    and "Suc (length p) < length b \<Longrightarrow> \<exists>b'. strcat_char c b = Inr b' \<and> holds b' (p @ [c]) \<and> length b' = length b"
proof -
  obtain t where t: "b = p @ NUL # t" "NUL \<notin> set p" using holds_split [OF assms(1)] by blast
  show "strcat_char c b = (if length b \<le> Suc (length p) then Inl OutOfBounds else strcat_char c b)"
    using assms by (simp add: strcat_char_def holds_def)
  assume l: "Suc (length p) < length b"
  then obtain x u where u: "t = x # u" using t by (cases t) auto
  have "b[length p := c, Suc (length p) := NUL] = (p @ [c]) @ NUL # u" by (simp add: t u list_update_append)
  moreover have "holds ((p @ [c]) @ NUL # u) (p @ [c])" by (rule holds_app) (use t assms in auto)
  ultimately show "\<exists>b'. strcat_char c b = Inr b' \<and> holds b' (p @ [c]) \<and> length b' = length b"
    using assms l by (simp add: strcat_char_def holds_def t u)
qed

lemma count_holds: "holds b p \<Longrightarrow> trail p < length p \<Longrightarrow> count_flag b = Inr (trail p)"
  by (simp add: count_flag_def holds_def)

lemma count_all: "holds b p \<Longrightarrow> trail p = length p \<Longrightarrow> count_flag b = Inl OutOfBounds"
  by (simp add: count_flag_def holds_def)

lemma trail_less: "p \<noteq> [] \<Longrightarrow> \<not> newline (hd p) \<Longrightarrow> trail p < length p"
proof -
  assume p: "p \<noteq> []" "\<not> newline (hd p)"
  have "takeWhile newline (rev p) \<noteq> rev p"
  proof
    assume "takeWhile newline (rev p) = rev p"
    then have "\<forall>c\<in>set (rev p). newline c" by (metis set_takeWhileD)
    then show False using p by simp
  qed
  then show ?thesis unfolding trail_def using length_takeWhile_le [of newline "rev p"]
    by (metis le_neq_implies_less length_rev takeWhile_eq_take take_all_iff nle_le)
qed

text \<open>The header ends with the first four line-end characters in a row.\<close>

definition header_text :: "char list \<Rightarrow> bool" where
  "header_text h \<longleftrightarrow> NUL \<notin> set h \<and> h \<noteq> [] \<and> \<not> newline (hd h) \<and> trail h = 4
     \<and> list_all (\<lambda>i. trail (take i h) \<noteq> 4) [0..<length h]"

lemma trail_garbage: "p \<noteq> [] \<Longrightarrow> \<not> newline (hd p) \<Longrightarrow> trail (g @ p) = trail p"
  by (auto simp: trail_def takeWhile_append1 [of "hd p"])

text \<open>\<open>g\<close> is the text the block began with, before the header was read into it.\<close>

lemma read_header_step:
  assumes "holds b (g @ p)" "c \<noteq> NUL" "n < length b" "Suc (length (g @ p)) < length b" "\<not> newline (hd (p @ [c]))"
  shows "\<exists>b'. holds b' (g @ p @ [c]) \<and> length b' = length b \<and>
    read_header grow (Some c # s) b n = (if trail (p @ [c]) = 4 then Inr (Some (b', s)) else read_header grow s b' (n + 1))"
proof -
  obtain b' where b': "strcat_char c b = Inr b'" "holds b' ((g @ p) @ [c])" "length b' = length b"
    using strcat_holds(2) [OF assms(1,2,4)] by blast
  have t: "trail ((g @ p) @ [c]) = trail (p @ [c])" using trail_garbage [of "p @ [c]" g] assms(5) by simp
  have "trail (p @ [c]) < length (p @ [c])" by (rule trail_less) (use assms(5) in auto)
  then have "trail ((g @ p) @ [c]) < length ((g @ p) @ [c])" unfolding t by simp
  from count_holds [OF b'(2) this] show ?thesis using b' t assms(3) by (intro exI [of _ b']) simp
qed

lemma read_header_text:
  assumes "header_text (p @ q)" "q \<noteq> []" "holds b (g @ p)" "length (g @ p @ q) < length b"
  shows "\<exists>b'. holds b' (g @ p @ q) \<and> read_header grow (map Some q @ s) b (length p) = Inr (Some (b', s))"
  using assms
proof (induction q arbitrary: p b)
  case (Cons c q)
  have c: "c \<noteq> NUL" "\<not> newline (hd (p @ [c]))" using Cons.prems(1) by (auto simp: header_text_def hd_append split: if_splits)
  have t: "trail (take i (p @ c # q)) \<noteq> 4" if "i < length (p @ c # q)" for i
  proof -
    have "i \<in> set [0..<length (p @ c # q)]" using that by (simp only: set_upt atLeastLessThan_iff le0 simp_thms)
    then show ?thesis using Cons.prems(1) unfolding header_text_def list_all_iff by blast
  qed
  have l: "length p < length b" "Suc (length (g @ p)) < length b" using Cons.prems(4) by auto
  from read_header_step [OF Cons.prems(3) c(1) l c(2), of grow "map Some q @ s"]
  obtain b' where b': "holds b' (g @ p @ [c])" "length b' = length b"
    "read_header grow (Some c # map Some q @ s) b (length p)
      = (if trail (p @ [c]) = 4 then Inr (Some (b', map Some q @ s)) else read_header grow (map Some q @ s) b' (length p + 1))" by blast
  show ?case
  proof (cases "q = []")
    case True
    then show ?thesis using b' Cons.prems(1) by (intro exI [of _ b']) (simp add: header_text_def)
  next
    case False
    have "trail (p @ [c]) \<noteq> 4" using t [of "Suc (length p)"] False by simp
    moreover have "\<exists>b''. holds b'' (g @ (p @ [c]) @ q) \<and> read_header grow (map Some q @ s) b' (length (p @ [c])) = Inr (Some (b'', s))"
      by (rule Cons.IH) (use Cons.prems b' False in auto)
    ultimately show ?thesis using b'(3) by simp
  qed
qed simp

text \<open>A header that does not end within the block overflows it, at the latest by the terminator.\<close>

lemma read_header_long:
  assumes "NUL \<notin> set (p @ q)" "\<not> newline (hd (p @ q))" "holds b (g @ p)" "length b \<le> length (g @ p @ q)"
    "\<forall>i<length (p @ q). trail (take i (p @ q)) \<noteq> 4"
  shows "read_header grow (map Some q @ s) b (length p) = Inl OutOfBounds"
  using assms
proof (induction q arbitrary: p b)
  case Nil
  then show ?case using holds_split [OF Nil(3)] by auto
next
  case (Cons c q)
  have c: "c \<noteq> NUL" "\<not> newline (hd (p @ [c]))" using Cons.prems(1,2) by (auto simp: hd_append split: if_splits)
  have n: "length p < length b" using holds_split [OF Cons.prems(3)] by auto
  show ?case
  proof (cases "length b \<le> Suc (length (g @ p))")
    case True
    then have "strcat_char c b = Inl OutOfBounds" using strcat_holds(1) [OF Cons.prems(3) c(1)] by simp
    then show ?thesis using n by simp
  next
    case False
    then have l: "Suc (length (g @ p)) < length b" and q: "q \<noteq> []" using Cons.prems(4) by (cases q; simp)+
    from read_header_step [OF Cons.prems(3) c(1) n l c(2), of grow "map Some q @ s"]
    obtain b' where b': "holds b' (g @ p @ [c])" "length b' = length b"
      "read_header grow (Some c # map Some q @ s) b (length p)
        = (if trail (p @ [c]) = 4 then Inr (Some (b', map Some q @ s)) else read_header grow (map Some q @ s) b' (length p + 1))" by blast
    have "trail (p @ [c]) \<noteq> 4" using Cons.prems(5) [rule_format, of "Suc (length p)"] q by simp
    moreover have "read_header grow (map Some q @ s) b' (length (p @ [c])) = Inl OutOfBounds"
      by (rule Cons.IH) (use Cons.prems b' in auto)
    ultimately show ?thesis using b'(3) by simp
  qed
qed

text \<open>The header loop as a whole, on a block of any content.\<close>

lemma read_header_result:
  assumes "header_text h" "length b = 4096"
  shows "if 4096 \<le> length (cstr b) + length h then read_header grow (map Some h @ s) b 0 = Inl OutOfBounds
    else \<exists>b'. holds b' (cstr b @ h) \<and> read_header grow (map Some h @ s) b 0 = Inr (Some (b', s))"
proof (cases "NUL \<in> set b")
  case True
  then have b: "holds b (cstr b @ [])" by (simp add: holds_def)
  have h: "h \<noteq> []" "NUL \<notin> set h" "\<not> newline (hd h)" "\<forall>i<length h. trail (take i h) \<noteq> 4"
    using assms(1) by (auto simp: header_text_def list_all_iff)
  show ?thesis
    using read_header_text [of "[]" h b "cstr b" grow s] read_header_long [of "[]" h b "cstr b" grow s] assms b h by simp
next
  case False
  then have "\<forall>c\<in>set b. c \<noteq> NUL" by auto
  then have "cstr b = b" unfolding cstr_def by (simp only: takeWhile_eq_all_conv)
  then have "length (cstr b) = 4096" using assms(2) by simp
  moreover obtain c h' where "h = c # h'" using assms(1) by (cases h) (auto simp: header_text_def)
  ultimately show ?thesis using False assms(2) by (simp add: strcat_char_def)
qed

lemma next_read_some:
  "bs \<noteq> [] \<Longrightarrow> \<exists>k. 0 < k \<and> k \<le> length bs \<and> next_read sz (map Some bs) = (Some (take k bs), map Some (drop k bs))"
proof -
  assume bs: "bs \<noteq> []"
  let ?m = "max 1 (min sz 4096)"
  have t: "takeWhile (\<lambda>x. x \<noteq> None) (take ?m (map Some bs)) = map Some (take ?m bs)"
    by (simp add: take_map takeWhile_map o_def)
  have "next_read sz (map Some bs) = (Some (map the (map Some (take ?m bs))), drop (length (map Some (take ?m bs))) (map Some bs))"
    using bs t by (cases bs) (simp_all add: next_read_def Let_def)
  also have "\<dots> = (Some (take (min (length bs) ?m) bs), map Some (drop (min (length bs) ?m) bs))"
    by (simp add: drop_map o_def min_def)
  finally show ?thesis using bs by (intro exI [of _ "min (length bs) ?m"]) (cases bs, auto)
qed

lemma download_all:
  "n + int (length bs) \<le> clen \<Longrightarrow> - (2 ^ 31) \<le> n \<Longrightarrow> n < 2 ^ 31 \<Longrightarrow> download_loop clen sz i (map Some bs) out n
    = (if n + int (length bs) < 2 ^ 31 then Inr (out @ bs, n + int (length bs)) else Inl Overflow)"
proof (induction "length bs" arbitrary: bs i out n rule: less_induct)
  case less
  show ?case
  proof (cases "bs = []")
    case False
    from next_read_some [OF this, of "sz i"]
    obtain k where k: "0 < k" "k \<le> length bs" "next_read (sz i) (map Some bs) = (Some (take k bs), map Some (drop k bs))" by blast
    have n: "n < clen" using less.prems(1) False by (cases bs) auto
    have step: "download_loop clen sz i (map Some bs) out n
        = rbind (add_int n (int k)) (\<lambda>n. download_loop clen sz (Suc i) (map Some (drop k bs)) (out @ take k bs) n)"
      using k n False by (subst download_loop.simps) (simp add: min_def)
    show ?thesis
    proof (cases "n + int k < 2 ^ 31")
      case True
      have "download_loop clen sz (Suc i) (map Some (drop k bs)) (out @ take k bs) (n + int k)
        = (if n + int k + int (length (drop k bs)) < 2 ^ 31
           then Inr ((out @ take k bs) @ drop k bs, n + int k + int (length (drop k bs))) else Inl Overflow)"
        by (rule less.hyps) (use k less.prems True in auto)
      then show ?thesis using k less.prems(2) True unfolding step by (simp add: add_int_def of_nat_diff)
    next
      case b: False
      then show ?thesis using k unfolding step by (simp add: add_int_def)
    qed
  qed (use less.prems in \<open>subst download_loop.simps, simp\<close>)
qed

lemma connected:
  assumes "length url < 2048" "parse_url url = Inr (d, port)" "resolve w d = Some ip" "ip \<noteq> []" "length ip < 16"
    "length (request url d) < 2048" "socket_ok w" "connect_ok w"
  shows "http_main w [url] = rbind (read_header (realloc_bytes w) (server w) (malloc_bytes w) 0) (\<lambda>h.
             case h of None \<Rightarrow> Inr (Exit 255)
             | Some (response, s) \<Rightarrow>
               rbind (get_str response) (\<lambda>t. rbind (get_resp_header (stack_bytes w) t) (\<lambda>(resp, name).
               if \<not> create_ok w then Inr (Exit 0)
               else rbind (download_loop (content_length resp) (read_sizes w) 0 s [] 0) (\<lambda>(out, n).
                 Inr (Downloaded (request url d) name (out @ drop (length out) (old_file w name)) (n = content_length resp))))))"
  using assms by (simp add: http_main_def)

text \<open>C33: what the client saves, for a server that sends a header that ends in its first four line-end
  characters and then as many bytes as the header announces. The header is appended to whatever the block of 4096
  bytes from \<open>malloc\<close> holds: when the text it begins with and the header do not fit the block, the client writes over its
  end. When they do, the header is read behind that text. The bytes of the body are saved, however the reads
  cut them, with what an older file of the same name holds behind them; but a body of \<open>2 ^ 31\<close> bytes or more overflows the
  counter.\<close>

theorem http_download:
  assumes url: "length url < 2048" "parse_url url = Inr (d, port)" "resolve w d = Some ip" "ip \<noteq> []" "length ip < 16"
      "length (request url d) < 2048" "socket_ok w" "connect_ok w" "create_ok w"
    and block: "length (malloc_bytes w) = 4096"
    and server: "server w = map Some h @ map Some body" "header_text h"
    and header: "get_resp_header (stack_bytes w) (cstr (malloc_bytes w) @ h) = Inr (r, name)" "content_length r = int (length body)"
  shows "http_main w [url] =
    (if 4096 \<le> length (cstr (malloc_bytes w)) + length h then Inl OutOfBounds
     else if 2 ^ 31 \<le> length body then Inl Overflow
     else Inr (Downloaded (request url d) name (body @ drop (length body) (old_file w name)) True))"
proof (cases "4096 \<le> length (cstr (malloc_bytes w)) + length h")
  case True
  then show ?thesis
    using read_header_result [OF server(2) block, of "realloc_bytes w" "map Some body"] server(1) unfolding connected [OF url(1-8)] by simp
next
  case False
  then obtain b where b: "holds b (cstr (malloc_bytes w) @ h)"
    "read_header (realloc_bytes w) (server w) (malloc_bytes w) 0 = Inr (Some (b, map Some body))"
    using read_header_result [OF server(2) block, of "realloc_bytes w" "map Some body"] server(1) by auto
  have g: "get_str b = Inr (cstr (malloc_bytes w) @ h)" using b(1) by (simp add: holds_def)
  have "download_loop (int (length body)) (read_sizes w) 0 (map Some body) [] 0
      = (if 2 ^ 31 \<le> length body then Inl Overflow else Inr (body, int (length body)))"
    using download_all [of 0 body "int (length body)" "read_sizes w" 0 "[]"] by (auto simp: not_less [symmetric])
  then show ?thesis using b(2) g header url(9) False unfolding connected [OF url(1-8)] by simp
qed

definition sample_header :: "char list" where
  "sample_header = (let crlf = [CHR 0x0D, CHR 0x0A] in
     ''HTTP/1.1 200 OK'' @ crlf @ ''Content-Type: text/plain'' @ crlf @ ''Content-Length: 2'' @ crlf @ ''filename=a'' @ crlf @ crlf)"

definition sample_world :: "char list \<Rightarrow> http_world" where
  "sample_world bytes = \<lparr>resolve = (\<lambda>_. Some ''10.0.0.1''), socket_ok = True, connect_ok = True, server = map Some bytes,
     malloc_bytes = ''old'' @ replicate 4093 NUL,
     stack_bytes = \<lparr>status_code = 0, content_type = replicate 128 NUL, content_length = 0, file_name = replicate 256 NUL\<rparr>,
     realloc_bytes = (\<lambda>_. None), create_ok = True, old_file = (\<lambda>_. ''older''), read_sizes = (\<lambda>_. 1)\<rparr>"

theorem http_download_witness:
  "http_main (sample_world (sample_header @ ''hi'')) [''http://a/b''] = Inr (Downloaded (request ''http://a/b'' ''a'') ''a'' ''hider'' True)"
proof -
  let ?w = "sample_world (sample_header @ ''hi'')"
  have u: "parse_url ''http://a/b'' = Inr (''a'', 80)" by code_simp
  have rq: "length (request ''http://a/b'' ''a'') < 2048" by code_simp
  have h: "header_text sample_header" "length sample_header < 4000" by code_simp+
  have "case get_resp_header (stack_bytes (sample_world [])) (''old'' @ sample_header) of Inr (r, n) \<Rightarrow> content_length r = 2 \<and> n = ''a'' | Inl _ \<Rightarrow> False" by code_simp
  then obtain r where r: "get_resp_header (stack_bytes ?w) (''old'' @ sample_header) = Inr (r, ''a'')" "content_length r = 2"
    by (auto simp: sample_world_def split: sum.splits)
  have g: "cstr (malloc_bytes ?w) = ''old''"
    using cstr_append [of "''old''" "replicate 4092 NUL"] by (simp add: sample_world_def numeral_eq_Suc)
  show ?thesis
    using http_download [of "''http://a/b''" "''a''" 80 ?w "''10.0.0.1''" sample_header "''hi''" r "''a''"] u rq h r unfolding g
    by (simp add: sample_world_def)
qed

text \<open>The header loop and the edges of its block: a header of 4096 bytes or more is written over the end of the
  block by its terminator, before the loop asks for a larger one, and a response that begins with a line end makes
  the search for the end of the header run off the front of the block.\<close>

theorem http_header_overrun:
  assumes url: "length url < 2048" "parse_url url = Inr (d, port)" "resolve w d = Some ip" "ip \<noteq> []" "length ip < 16"
      "length (request url d) < 2048" "socket_ok w" "connect_ok w"
    and block: "length (malloc_bytes w) = 4096" "hd (malloc_bytes w) = NUL"
    and server: "server w = map Some q @ s" "NUL \<notin> set q"
    and bad: "(length q = 4096 \<and> \<not> newline (hd q) \<and> (\<forall>i\<le>4096. trail (take i q) \<noteq> 4)) \<or> (q \<noteq> [] \<and> newline (hd q))"
  shows "http_main w [url] = Inl OutOfBounds"
proof -
  obtain t where m: "malloc_bytes w = [] @ NUL # t" using block by (cases "malloc_bytes w") auto
  then have e: "holds (malloc_bytes w) []" using holds_app [of "[]" t] by simp
  from bad have "read_header (realloc_bytes w) (map Some q @ s) (malloc_bytes w) 0 = Inl OutOfBounds"
  proof
    assume a: "length q = 4096 \<and> \<not> newline (hd q) \<and> (\<forall>i\<le>4096. trail (take i q) \<noteq> 4)"
    then have "q \<noteq> []" by auto
    then show ?thesis using a read_header_long [of "[]" q "malloc_bytes w" "[]" "realloc_bytes w" s] e server(2) block(1) by auto
  next
    assume a: "q \<noteq> [] \<and> newline (hd q)"
    then obtain c q' where q: "q = c # q'" "newline c" "c \<noteq> NUL" using server(2) by (cases q) auto
    obtain b where b: "strcat_char c (malloc_bytes w) = Inr b" "holds b [c]"
      using strcat_holds(2) [OF e q(3)] block(1) by auto
    have "count_flag b = Inl OutOfBounds" by (rule count_all [OF b(2)]) (simp add: trail_def q(2))
    then show ?thesis using b(1) block(1) q(1) by simp
  qed
  then show ?thesis unfolding connected [OF url] using server(1) by simp
qed

theorem http_header_overrun_witness:
  "http_main (sample_world [CHR 0x0A, CHR ''x''] \<lparr>malloc_bytes := replicate 4096 NUL\<rparr>) [''http://a/b''] = Inl OutOfBounds"
proof -
  have u: "parse_url ''http://a/b'' = Inr (''a'', 80)" by code_simp
  have rq: "length (request ''http://a/b'' ''a'') < 2048" by code_simp
  show ?thesis
    using http_header_overrun [of "''http://a/b''" "''a''" 80 "sample_world [CHR 0x0A, CHR ''x''] \<lparr>malloc_bytes := replicate 4096 NUL\<rparr>" "''10.0.0.1''" "[CHR 0x0A, CHR ''x'']" "[]"] u rq
    by (simp add: sample_world_def newline_def)
qed

end
