(* ===== verification/AesFips.thy ===== *)
theory AesFips
  imports Prelude
begin

text \<open>
  The reference the AES code is measured against: FIPS 197 (the standard \<open>src/aes_test/library/aes.c\<close>
  says it complies with), written over bytes, byte lists and the field GF(2^8) it defines.
\<close>

section \<open>The field GF(2^8)\<close>

definition xtime :: "u8 \<Rightarrow> u8" where
  "xtime b = push_bit 1 b XOR (if bit b 7 then 0x1B else 0)"

definition gf_mult :: "u8 \<Rightarrow> u8 \<Rightarrow> u8" where
  "gf_mult a b = fold (\<lambda>i acc. if bit a i then acc XOR (xtime ^^ i) b else acc) [0..<8] 0"

definition bytes :: "u8 list" where
  "bytes = map of_nat [0..<256]"

definition gf_inv :: "u8 \<Rightarrow> u8" where
  "gf_inv a = (case find (\<lambda>b. gf_mult a b = 1) bytes of Some b \<Rightarrow> b | None \<Rightarrow> 0)"

definition affine :: "u8 \<Rightarrow> u8" where
  "affine b = horner_sum of_bool 2 (map (\<lambda>i. (bit b i \<noteq> (bit b ((i + 4) mod 8) \<noteq> (bit b ((i + 5) mod 8) \<noteq>
      (bit b ((i + 6) mod 8) \<noteq> bit b ((i + 7) mod 8))))) \<noteq> bit (0x63 :: u8) i) [0..<8])"

definition sbox :: "u8 \<Rightarrow> u8" where
  "sbox b = affine (gf_inv b)"

lemma xtime_xor: "xtime (a XOR b) = xtime a XOR xtime b"
  by (auto simp: xtime_def bit_simps push_bit_xor ac_simps)

lemma xtime_0 [simp]: "xtime 0 = 0"
  by (simp add: xtime_def)

lemma xtime_pow_xor: "(xtime ^^ n) (a XOR b) = (xtime ^^ n) a XOR (xtime ^^ n) b"
  by (induction n) (simp_all add: xtime_xor)

lemma xor_self_left [simp]: "(a :: 'a :: len word) XOR (a XOR b) = b"
  by (simp flip: xor.assoc)

definition gf_step :: "u8 \<Rightarrow> u8 \<Rightarrow> nat \<Rightarrow> u8 \<Rightarrow> u8" where
  "gf_step a b i acc = (if bit a i then acc XOR (xtime ^^ i) b else acc)"

lemma gf_mult_steps: "gf_mult a b = fold (gf_step a b) [0..<8] 0"
  by (simp add: gf_mult_def gf_step_def [abs_def])

lemma gf_step_xor: "gf_step a (b XOR c) i (d XOR e) = gf_step a b i d XOR gf_step a c i e"
  by (simp add: gf_step_def xtime_pow_xor ac_simps)

lemma gf_fold_xor: "fold (gf_step a (b XOR c)) ns (d XOR e) = fold (gf_step a b) ns d XOR fold (gf_step a c) ns e"
  by (induction ns arbitrary: d e) (simp_all add: gf_step_xor)

lemma gf_mult_xor: "gf_mult a (b XOR c) = gf_mult a b XOR gf_mult a c"
  unfolding gf_mult_steps using gf_fold_xor [of a b c "[0..<8]" 0 0] by simp

lemma gf_step_xtime: "gf_step a (xtime b) i (xtime d) = xtime (gf_step a b i d)"
  by (simp add: gf_step_def xtime_xor funpow_swap1)

lemma gf_fold_xtime: "fold (gf_step a (xtime b)) ns (xtime d) = xtime (fold (gf_step a b) ns d)"
  by (induction ns arbitrary: d) (simp_all add: gf_step_xtime)

lemma gf_mult_xtime: "gf_mult a (xtime b) = xtime (gf_mult a b)"
  unfolding gf_mult_steps using gf_fold_xtime [of a b "[0..<8]" 0] by simp

text \<open>The powers of the generator 3.\<close>

definition gen3 :: "u8 \<Rightarrow> u8" where
  "gen3 b = b XOR xtime b"

definition pow3 :: "nat \<Rightarrow> u8" where
  "pow3 k = (gen3 ^^ k) 1"

lemma gf_mult_gen3: "gf_mult a (gen3 b) = gen3 (gf_mult a b)"
  by (simp add: gen3_def gf_mult_xor gf_mult_xtime)

lemma pow3_0 [simp]: "pow3 0 = 1" and pow3_Suc: "pow3 (Suc k) = gen3 (pow3 k)"
  by (simp_all add: pow3_def)

lemma gf_mult_1 [simp]: "gf_mult a 1 = a"
proof -
  have x: "(xtime ^^ i) 1 = push_bit i 1" if "i < 8" for i
  proof -
    from that have "i \<in> {0,1,2,3,4,5,6,7}" by auto
    then show ?thesis by (auto simp: xtime_def numeral_eq_Suc bit_simps)
  qed
  have g: "k \<le> 8 \<Longrightarrow> fold (gf_step a 1) [0..<k] 0 = take_bit k a" for k
    by (induction k) (auto simp: gf_step_def x take_bit_Suc_from_most bit_simps intro!: bit_word_eqI simp: less_Suc_eq)
  show ?thesis unfolding gf_mult_steps g [of 8, OF order_refl] by (simp add: take_bit_word_eq_self)
qed

lemma gf_mult_pow3: "gf_mult a (pow3 k) = (gen3 ^^ k) a"
  by (induction k) (simp_all add: pow3_Suc gf_mult_gen3)

primrec chain3 :: "nat \<Rightarrow> u8 \<Rightarrow> u8 list" where
  "chain3 0 b = []"
| "chain3 (Suc n) b = b # chain3 n (gen3 b)"

lemma chain3_numeral: "chain3 (numeral n) b = b # chain3 (pred_numeral n) (gen3 b)"
  by (simp add: numeral_eq_Suc)

lemma chain3_eq: "chain3 n (pow3 k) = map pow3 [k..<k + n]"
  by (induction n arbitrary: k) (simp_all add: pow3_Suc [symmetric] upt_rec)

definition powers :: "u8 list" where
  "powers = [0x01, 0x03, 0x05, 0x0F, 0x11, 0x33, 0x55, 0xFF, 0x1A, 0x2E, 0x72, 0x96, 0xA1, 0xF8, 0x13, 0x35,
    0x5F, 0xE1, 0x38, 0x48, 0xD8, 0x73, 0x95, 0xA4, 0xF7, 0x02, 0x06, 0x0A, 0x1E, 0x22, 0x66, 0xAA,
    0xE5, 0x34, 0x5C, 0xE4, 0x37, 0x59, 0xEB, 0x26, 0x6A, 0xBE, 0xD9, 0x70, 0x90, 0xAB, 0xE6, 0x31,
    0x53, 0xF5, 0x04, 0x0C, 0x14, 0x3C, 0x44, 0xCC, 0x4F, 0xD1, 0x68, 0xB8, 0xD3, 0x6E, 0xB2, 0xCD,
    0x4C, 0xD4, 0x67, 0xA9, 0xE0, 0x3B, 0x4D, 0xD7, 0x62, 0xA6, 0xF1, 0x08, 0x18, 0x28, 0x78, 0x88,
    0x83, 0x9E, 0xB9, 0xD0, 0x6B, 0xBD, 0xDC, 0x7F, 0x81, 0x98, 0xB3, 0xCE, 0x49, 0xDB, 0x76, 0x9A,
    0xB5, 0xC4, 0x57, 0xF9, 0x10, 0x30, 0x50, 0xF0, 0x0B, 0x1D, 0x27, 0x69, 0xBB, 0xD6, 0x61, 0xA3,
    0xFE, 0x19, 0x2B, 0x7D, 0x87, 0x92, 0xAD, 0xEC, 0x2F, 0x71, 0x93, 0xAE, 0xE9, 0x20, 0x60, 0xA0,
    0xFB, 0x16, 0x3A, 0x4E, 0xD2, 0x6D, 0xB7, 0xC2, 0x5D, 0xE7, 0x32, 0x56, 0xFA, 0x15, 0x3F, 0x41,
    0xC3, 0x5E, 0xE2, 0x3D, 0x47, 0xC9, 0x40, 0xC0, 0x5B, 0xED, 0x2C, 0x74, 0x9C, 0xBF, 0xDA, 0x75,
    0x9F, 0xBA, 0xD5, 0x64, 0xAC, 0xEF, 0x2A, 0x7E, 0x82, 0x9D, 0xBC, 0xDF, 0x7A, 0x8E, 0x89, 0x80,
    0x9B, 0xB6, 0xC1, 0x58, 0xE8, 0x23, 0x65, 0xAF, 0xEA, 0x25, 0x6F, 0xB1, 0xC8, 0x43, 0xC5, 0x54,
    0xFC, 0x1F, 0x21, 0x63, 0xA5, 0xF4, 0x07, 0x09, 0x1B, 0x2D, 0x77, 0x99, 0xB0, 0xCB, 0x46, 0xCA,
    0x45, 0xCF, 0x4A, 0xDE, 0x79, 0x8B, 0x86, 0x91, 0xA8, 0xE3, 0x3E, 0x42, 0xC6, 0x51, 0xF3, 0x0E,
    0x12, 0x36, 0x5A, 0xEE, 0x29, 0x7B, 0x8D, 0x8C, 0x8F, 0x8A, 0x85, 0x94, 0xA7, 0xF2, 0x0D, 0x17,
    0x39, 0x4B, 0xDD, 0x7C, 0x84, 0x97, 0xA2, 0xFD, 0x1C, 0x24, 0x6C, 0xB4, 0xC7, 0x52, 0xF6, 0x01]"

lemma powers_eq: "map pow3 [0..<256] = powers"
proof -
  have "chain3 256 1 = powers"
    unfolding powers_def by (simp add: chain3_numeral gen3_def xtime_def)
  then show ?thesis
    using chain3_eq [of 256 0] by simp
qed


lemma upt_256: "[0..<256] = [0, 1, 2, 3, 4, 5, 6, 7, 8, 9, 10, 11, 12, 13, 14, 15, 16, 17, 18, 19,
    20, 21, 22, 23, 24, 25, 26, 27, 28, 29, 30, 31, 32, 33, 34, 35, 36, 37, 38, 39,
    40, 41, 42, 43, 44, 45, 46, 47, 48, 49, 50, 51, 52, 53, 54, 55, 56, 57, 58, 59,
    60, 61, 62, 63, 64, 65, 66, 67, 68, 69, 70, 71, 72, 73, 74, 75, 76, 77, 78, 79,
    80, 81, 82, 83, 84, 85, 86, 87, 88, 89, 90, 91, 92, 93, 94, 95, 96, 97, 98, 99,
    100, 101, 102, 103, 104, 105, 106, 107, 108, 109, 110, 111, 112, 113, 114, 115, 116, 117, 118, 119,
    120, 121, 122, 123, 124, 125, 126, 127, 128, 129, 130, 131, 132, 133, 134, 135, 136, 137, 138, 139,
    140, 141, 142, 143, 144, 145, 146, 147, 148, 149, 150, 151, 152, 153, 154, 155, 156, 157, 158, 159,
    160, 161, 162, 163, 164, 165, 166, 167, 168, 169, 170, 171, 172, 173, 174, 175, 176, 177, 178, 179,
    180, 181, 182, 183, 184, 185, 186, 187, 188, 189, 190, 191, 192, 193, 194, 195, 196, 197, 198, 199,
    200, 201, 202, 203, 204, 205, 206, 207, 208, 209, 210, 211, 212, 213, 214, 215, 216, 217, 218, 219,
    220, 221, 222, 223, 224, 225, 226, 227, 228, 229, 230, 231, 232, 233, 234, 235, 236, 237, 238, 239,
    240, 241, 242, 243, 244, 245, 246, 247, 248, 249, 250, 251, 252, 253, 254, 255]"
  by (simp add: upt_rec [of 0] upt_rec [of "Suc 0"] flip: numeral_2_eq_2)

lemma length_powers: "length powers = 256"
  by (simp add: powers_def)

lemma powers_map: "map ((!) powers) [0..<256] = powers"
  using map_nth [of powers] by (simp add: length_powers)

lemmas powers_nth = powers_map [THEN trans, OF powers_def, unfolded upt_256 list.map list.inject simp_thms]

definition logs :: "nat list" where
  "logs = [0, 25, 1, 50, 2, 26, 198, 75, 199, 27, 104, 51, 238, 223, 3, 100, 4, 224, 14, 52,
    141, 129, 239, 76, 113, 8, 200, 248, 105, 28, 193, 125, 194, 29, 181, 249, 185, 39, 106, 77,
    228, 166, 114, 154, 201, 9, 120, 101, 47, 138, 5, 33, 15, 225, 36, 18, 240, 130, 69, 53,
    147, 218, 142, 150, 143, 219, 189, 54, 208, 206, 148, 19, 92, 210, 241, 64, 70, 131, 56, 102,
    221, 253, 48, 191, 6, 139, 98, 179, 37, 226, 152, 34, 136, 145, 16, 126, 110, 72, 195, 163,
    182, 30, 66, 58, 107, 40, 84, 250, 133, 61, 186, 43, 121, 10, 21, 155, 159, 94, 202, 78,
    212, 172, 229, 243, 115, 167, 87, 175, 88, 168, 80, 244, 234, 214, 116, 79, 174, 233, 213, 231,
    230, 173, 232, 44, 215, 117, 122, 235, 22, 11, 245, 89, 203, 95, 176, 156, 169, 81, 160, 127,
    12, 246, 111, 23, 196, 73, 236, 216, 67, 31, 45, 164, 118, 123, 183, 204, 187, 62, 90, 251,
    96, 177, 134, 59, 82, 161, 108, 170, 85, 41, 157, 151, 178, 135, 144, 97, 190, 220, 252, 188,
    149, 207, 205, 55, 63, 91, 209, 83, 57, 132, 60, 65, 162, 109, 71, 20, 42, 158, 93, 86,
    242, 211, 171, 68, 17, 146, 217, 35, 32, 46, 137, 180, 124, 184, 38, 119, 153, 227, 165, 103,
    74, 237, 222, 197, 49, 254, 24, 13, 99, 140, 128, 192, 247, 112, 7]"

lemma pow3_logs: "map ((!) powers) logs = map of_nat [1..<256]"
  by (simp add: powers_nth powers_nth [unfolded One_nat_def] logs_def upt_rec [of "Suc 0"] flip: numeral_2_eq_2)

lemma pow3_nth: "k < 256 \<Longrightarrow> powers ! k = pow3 k"
  by (simp flip: powers_eq)

lemma logs_range: "set logs \<subseteq> {..<255}"
  by (simp add: logs_def)

lemma pow3_surj:
  assumes "b \<noteq> 0" obtains k where "k < 255" and "b = pow3 k"
proof -
  have "unat b \<in> set [1..<256]"
    using assms unat_u8_le [of b] by (simp add: Suc_le_eq unat_gt_0)
  then have "b \<in> set (map of_nat [1..<256])"
    by (auto intro!: image_eqI [of _ _ "unat b"])
  then obtain k where "k \<in> set logs" "b = powers ! k"
    unfolding pow3_logs [symmetric] by auto
  then show thesis
    using that [of k] logs_range pow3_nth [of k] by auto
qed

lemma pow3_255: "pow3 255 = 1"
  using powers_nth pow3_nth [of 255] by simp

lemma pow3_mod: "pow3 (k mod 255) = pow3 k"
proof -
  have "pow3 (j + 255 * n) = pow3 j" for j n
  proof (induction n)
    case (Suc n)
    have "pow3 (j + 255 * Suc n) = (gen3 ^^ (j + 255 * n)) ((gen3 ^^ 255) 1)"
      unfolding pow3_def by (simp only: funpow_add [THEN fun_cong, unfolded o_apply, symmetric]) (simp add: ac_simps)
    then show ?case
      using Suc pow3_255 by (simp add: pow3_def)
  qed simp
  from this [of "k mod 255" "k div 255"] show ?thesis by simp
qed

lemma pow3_nonzero: "pow3 k \<noteq> 0"
proof -
  have "0 \<notin> set powers"
    by (simp add: powers_def)
  then show ?thesis
    using nth_mem [of "k mod 255" powers] pow3_nth [of "k mod 255"]
      less_trans [OF mod_less_divisor [of 255 k], of 256]
    by (auto simp: length_powers pow3_mod)
qed

lemma pow3_inj: "inj_on pow3 {..<255}"
proof (rule eq_card_imp_inj_on)
  have "pow3 ` {..<255} = UNIV - {0}"
    using pow3_surj pow3_nonzero by (fastforce simp: image_iff)
  then show "card (pow3 ` {..<255}) = card {..<255::nat}"
    by (simp add: card_Diff_subset card_word)
qed simp

lemma pow3_eq_iff: "pow3 j = pow3 k \<longleftrightarrow> j mod 255 = k mod 255"
  using inj_onD [OF pow3_inj, of "j mod 255" "k mod 255"] pow3_mod by (metis lessThan_iff mod_less_divisor zero_less_numeral)

lemma gf_mult_powers: "gf_mult (pow3 j) (pow3 k) = pow3 (k + j)"
  unfolding gf_mult_pow3 by (simp add: pow3_def funpow_add)

lemma gf_mult_0 [simp]: "gf_mult a 0 = 0"
  using gf_mult_xor [of a 0 0] by simp

lemma gf_mult_0_left [simp]: "gf_mult 0 b = 0"
proof -
  have "fold (gf_step 0 b) ns d = d" for ns d
    by (induction ns arbitrary: d) (simp_all add: gf_step_def)
  then show ?thesis by (simp add: gf_mult_steps)
qed

lemma gf_inv_unique:
  assumes "gf_mult (pow3 k) b = 1" and "k < 255" shows "b = pow3 (255 - k)"
proof -
  have "b \<noteq> 0" using assms by auto
  then obtain j where j: "j < 255" "b = pow3 j" by (rule pow3_surj)
  then have "pow3 (j + k) = pow3 0" using assms by (simp add: gf_mult_powers)
  then have "255 dvd j + k" unfolding pow3_eq_iff by (simp add: mod_eq_0_iff_dvd)
  then obtain m where m: "j + k = 255 * m" by (rule dvdE)
  then have "m = 0 \<or> m = 1" using j assms by auto
  then have "j = (255 - k) mod 255" using m j assms by auto
  then show ?thesis using j by (simp add: pow3_mod)
qed

lemma set_bytes: "b \<in> set bytes"
  using unat_u8_le [of b] unfolding bytes_def by (auto intro!: image_eqI [of _ _ "unat b"])

lemma gf_inv_pow3:
  assumes "k < 255" shows "gf_inv (pow3 k) = pow3 (255 - k)"
proof -
  have i: "gf_mult (pow3 k) (pow3 (255 - k)) = 1"
    using assms by (simp add: gf_mult_powers pow3_255)
  then have "find (\<lambda>b. gf_mult (pow3 k) b = 1) bytes \<noteq> None"
    using set_bytes by (auto simp: find_None_iff)
  then obtain b where f: "find (\<lambda>b. gf_mult (pow3 k) b = 1) bytes = Some b" by blast
  then have "gf_mult (pow3 k) b = 1"
    by (auto simp: find_Some_iff)
  then show ?thesis
    using gf_inv_unique assms f by (simp add: gf_inv_def)
qed

lemma gf_inv_0: "gf_inv 0 = 0"
  by (simp add: gf_inv_def find_None_iff [THEN iffD2])

section \<open>The cipher\<close>

text \<open>
  A state is the list of its 16 bytes: row \<open>r\<close> of column \<open>c\<close> is byte \<open>r + 4 * c\<close> (section 3.4 of the
  standard). A word of the key schedule is the list of its four bytes.
\<close>

definition cell :: "u8 list \<Rightarrow> nat \<Rightarrow> nat \<Rightarrow> u8" where
  "cell s r c = s ! (r + 4 * c)"

definition state_of :: "(nat \<Rightarrow> nat \<Rightarrow> u8) \<Rightarrow> u8 list" where
  "state_of f = concat (map (\<lambda>c. map (\<lambda>r. f r c) [0..<4]) [0..<4])"

definition sub_bytes :: "u8 list \<Rightarrow> u8 list" where
  "sub_bytes s = map sbox s"

definition shift_rows :: "u8 list \<Rightarrow> u8 list" where
  "shift_rows s = state_of (\<lambda>r c. cell s r ((c + r) mod 4))"

definition mix_columns :: "u8 list \<Rightarrow> u8 list" where
  "mix_columns s = state_of (\<lambda>r c. gf_mult 2 (cell s r c) XOR gf_mult 3 (cell s ((r + 1) mod 4) c) XOR
     cell s ((r + 2) mod 4) c XOR cell s ((r + 3) mod 4) c)"

definition add_round_key :: "u8 list list \<Rightarrow> u8 list \<Rightarrow> u8 list" where
  "add_round_key w s = state_of (\<lambda>r c. cell s r c XOR w ! c ! r)"

definition round_key :: "u8 list list \<Rightarrow> nat \<Rightarrow> u8 list list" where
  "round_key w n = take 4 (drop (4 * n) w)"

definition cipher_round :: "u8 list list \<Rightarrow> nat \<Rightarrow> u8 list \<Rightarrow> u8 list" where
  "cipher_round w n s = add_round_key (round_key w n) (mix_columns (shift_rows (sub_bytes s)))"

definition cipher :: "nat \<Rightarrow> u8 list list \<Rightarrow> u8 list \<Rightarrow> u8 list" where
  "cipher nr w input = add_round_key (round_key w nr) (shift_rows (sub_bytes
     (fold (cipher_round w) [1..<nr] (add_round_key (round_key w 0) input))))"

section \<open>The key expansion\<close>

definition xor_word :: "u8 list \<Rightarrow> u8 list \<Rightarrow> u8 list" where
  "xor_word a b = map2 (XOR) a b"

definition rot_word :: "u8 list \<Rightarrow> u8 list" where
  "rot_word a = tl a @ [hd a]"

definition sub_word :: "u8 list \<Rightarrow> u8 list" where
  "sub_word a = map sbox a"

definition rcon :: "nat \<Rightarrow> u8 list" where
  "rcon j = [(xtime ^^ (j - 1)) 1, 0, 0, 0]"

definition next_word :: "nat \<Rightarrow> u8 list list \<Rightarrow> u8 list" where
  "next_word nk w = (let i = length w; t = last w in
     xor_word (w ! (i - nk))
       (if i mod nk = 0 then xor_word (sub_word (rot_word t)) (rcon (i div nk))
        else if nk > 6 \<and> i mod nk = 4 then sub_word t else t))"

definition key_words :: "nat \<Rightarrow> u8 list \<Rightarrow> u8 list list" where
  "key_words nk key = map (\<lambda>i. take 4 (drop (4 * i) key)) [0..<nk]"

fun expand :: "nat \<Rightarrow> nat \<Rightarrow> u8 list list \<Rightarrow> u8 list list" where
  "expand nk 0 w = w"
| "expand nk (Suc m) w = expand nk m (w @ [next_word nk w])"

definition key_expansion :: "nat \<Rightarrow> nat \<Rightarrow> u8 list \<Rightarrow> u8 list list" where
  "key_expansion nk nr key = expand nk (4 * (nr + 1) - nk) (key_words nk key)"

text \<open>The cipher with a key of \<open>bits\<close> bits (table 4 of the standard: \<open>Nk\<close> words, \<open>Nk + 6\<close> rounds).\<close>

definition fips197 :: "nat \<Rightarrow> u8 list \<Rightarrow> u8 list \<Rightarrow> u8 list" where
  "fips197 bits key input = cipher (bits div 32 + 6) (key_expansion (bits div 32) (bits div 32 + 6) key) input"

end
