(* ===== verification/AesTables.thy ===== *)
theory AesTables
  imports AesFips
begin

text \<open>
  The lookup tables of the AES code (\<open>src/aes_test/library/aes.c\<close>): the ones the file holds for a
  build with \<open>MBEDTLS_AES_ROM_TABLES\<close>, and \<open>aes_gen_tables\<close>, which computes them at run time in the
  build of this repository. The two agree, and their entries are those of the standard: the S-box,
  its inverse, and the columns of MixColumns and InvMixColumns.

  The \<open>int\<close> variables of the C code hold values below 512 and are kept as 32-bit words. The arrays
  \<open>pow\<close> and \<open>log\<close> have no initial value in C; every entry that is read has been written, and the model
  starts them with zeros.
\<close>

section \<open>Words of four bytes\<close>

text \<open>\<open>GET_UINT32_LE\<close> on four bytes, the bytes of a word, and the token pasting \<open>V\<close> of the tables.\<close>

definition le32 :: "u8 \<Rightarrow> u8 \<Rightarrow> u8 \<Rightarrow> u8 \<Rightarrow> u32" where
  "le32 b0 b1 b2 b3 = ucast b0 OR push_bit 8 (ucast b1) OR push_bit 16 (ucast b2) OR push_bit 24 (ucast b3)"

definition byte :: "nat \<Rightarrow> u32 \<Rightarrow> u8" where
  "byte i w = ucast (drop_bit (8 * i) w AND 0xFF)"

definition V :: "u8 \<times> u8 \<times> u8 \<times> u8 \<Rightarrow> u32" where
  "V = (\<lambda>(a, b, c, d). push_bit 24 (ucast a) OR push_bit 16 (ucast b) OR push_bit 8 (ucast c) OR ucast d)"

section \<open>The tables in the file\<close>

definition rom_FSb :: "u8 list" where
  "rom_FSb = [0x63, 0x7C, 0x77, 0x7B, 0xF2, 0x6B, 0x6F, 0xC5, 0x30, 0x01, 0x67, 0x2B, 0xFE, 0xD7, 0xAB, 0x76,
    0xCA, 0x82, 0xC9, 0x7D, 0xFA, 0x59, 0x47, 0xF0, 0xAD, 0xD4, 0xA2, 0xAF, 0x9C, 0xA4, 0x72, 0xC0,
    0xB7, 0xFD, 0x93, 0x26, 0x36, 0x3F, 0xF7, 0xCC, 0x34, 0xA5, 0xE5, 0xF1, 0x71, 0xD8, 0x31, 0x15,
    0x04, 0xC7, 0x23, 0xC3, 0x18, 0x96, 0x05, 0x9A, 0x07, 0x12, 0x80, 0xE2, 0xEB, 0x27, 0xB2, 0x75,
    0x09, 0x83, 0x2C, 0x1A, 0x1B, 0x6E, 0x5A, 0xA0, 0x52, 0x3B, 0xD6, 0xB3, 0x29, 0xE3, 0x2F, 0x84,
    0x53, 0xD1, 0x00, 0xED, 0x20, 0xFC, 0xB1, 0x5B, 0x6A, 0xCB, 0xBE, 0x39, 0x4A, 0x4C, 0x58, 0xCF,
    0xD0, 0xEF, 0xAA, 0xFB, 0x43, 0x4D, 0x33, 0x85, 0x45, 0xF9, 0x02, 0x7F, 0x50, 0x3C, 0x9F, 0xA8,
    0x51, 0xA3, 0x40, 0x8F, 0x92, 0x9D, 0x38, 0xF5, 0xBC, 0xB6, 0xDA, 0x21, 0x10, 0xFF, 0xF3, 0xD2,
    0xCD, 0x0C, 0x13, 0xEC, 0x5F, 0x97, 0x44, 0x17, 0xC4, 0xA7, 0x7E, 0x3D, 0x64, 0x5D, 0x19, 0x73,
    0x60, 0x81, 0x4F, 0xDC, 0x22, 0x2A, 0x90, 0x88, 0x46, 0xEE, 0xB8, 0x14, 0xDE, 0x5E, 0x0B, 0xDB,
    0xE0, 0x32, 0x3A, 0x0A, 0x49, 0x06, 0x24, 0x5C, 0xC2, 0xD3, 0xAC, 0x62, 0x91, 0x95, 0xE4, 0x79,
    0xE7, 0xC8, 0x37, 0x6D, 0x8D, 0xD5, 0x4E, 0xA9, 0x6C, 0x56, 0xF4, 0xEA, 0x65, 0x7A, 0xAE, 0x08,
    0xBA, 0x78, 0x25, 0x2E, 0x1C, 0xA6, 0xB4, 0xC6, 0xE8, 0xDD, 0x74, 0x1F, 0x4B, 0xBD, 0x8B, 0x8A,
    0x70, 0x3E, 0xB5, 0x66, 0x48, 0x03, 0xF6, 0x0E, 0x61, 0x35, 0x57, 0xB9, 0x86, 0xC1, 0x1D, 0x9E,
    0xE1, 0xF8, 0x98, 0x11, 0x69, 0xD9, 0x8E, 0x94, 0x9B, 0x1E, 0x87, 0xE9, 0xCE, 0x55, 0x28, 0xDF,
    0x8C, 0xA1, 0x89, 0x0D, 0xBF, 0xE6, 0x42, 0x68, 0x41, 0x99, 0x2D, 0x0F, 0xB0, 0x54, 0xBB, 0x16]"

definition rom_FT :: "(u8 \<times> u8 \<times> u8 \<times> u8) list" where
  "rom_FT = [(0xA5, 0x63, 0x63, 0xC6), (0x84, 0x7C, 0x7C, 0xF8), (0x99, 0x77, 0x77, 0xEE), (0x8D, 0x7B, 0x7B, 0xF6),
    (0x0D, 0xF2, 0xF2, 0xFF), (0xBD, 0x6B, 0x6B, 0xD6), (0xB1, 0x6F, 0x6F, 0xDE), (0x54, 0xC5, 0xC5, 0x91),
    (0x50, 0x30, 0x30, 0x60), (0x03, 0x01, 0x01, 0x02), (0xA9, 0x67, 0x67, 0xCE), (0x7D, 0x2B, 0x2B, 0x56),
    (0x19, 0xFE, 0xFE, 0xE7), (0x62, 0xD7, 0xD7, 0xB5), (0xE6, 0xAB, 0xAB, 0x4D), (0x9A, 0x76, 0x76, 0xEC),
    (0x45, 0xCA, 0xCA, 0x8F), (0x9D, 0x82, 0x82, 0x1F), (0x40, 0xC9, 0xC9, 0x89), (0x87, 0x7D, 0x7D, 0xFA),
    (0x15, 0xFA, 0xFA, 0xEF), (0xEB, 0x59, 0x59, 0xB2), (0xC9, 0x47, 0x47, 0x8E), (0x0B, 0xF0, 0xF0, 0xFB),
    (0xEC, 0xAD, 0xAD, 0x41), (0x67, 0xD4, 0xD4, 0xB3), (0xFD, 0xA2, 0xA2, 0x5F), (0xEA, 0xAF, 0xAF, 0x45),
    (0xBF, 0x9C, 0x9C, 0x23), (0xF7, 0xA4, 0xA4, 0x53), (0x96, 0x72, 0x72, 0xE4), (0x5B, 0xC0, 0xC0, 0x9B),
    (0xC2, 0xB7, 0xB7, 0x75), (0x1C, 0xFD, 0xFD, 0xE1), (0xAE, 0x93, 0x93, 0x3D), (0x6A, 0x26, 0x26, 0x4C),
    (0x5A, 0x36, 0x36, 0x6C), (0x41, 0x3F, 0x3F, 0x7E), (0x02, 0xF7, 0xF7, 0xF5), (0x4F, 0xCC, 0xCC, 0x83),
    (0x5C, 0x34, 0x34, 0x68), (0xF4, 0xA5, 0xA5, 0x51), (0x34, 0xE5, 0xE5, 0xD1), (0x08, 0xF1, 0xF1, 0xF9),
    (0x93, 0x71, 0x71, 0xE2), (0x73, 0xD8, 0xD8, 0xAB), (0x53, 0x31, 0x31, 0x62), (0x3F, 0x15, 0x15, 0x2A),
    (0x0C, 0x04, 0x04, 0x08), (0x52, 0xC7, 0xC7, 0x95), (0x65, 0x23, 0x23, 0x46), (0x5E, 0xC3, 0xC3, 0x9D),
    (0x28, 0x18, 0x18, 0x30), (0xA1, 0x96, 0x96, 0x37), (0x0F, 0x05, 0x05, 0x0A), (0xB5, 0x9A, 0x9A, 0x2F),
    (0x09, 0x07, 0x07, 0x0E), (0x36, 0x12, 0x12, 0x24), (0x9B, 0x80, 0x80, 0x1B), (0x3D, 0xE2, 0xE2, 0xDF),
    (0x26, 0xEB, 0xEB, 0xCD), (0x69, 0x27, 0x27, 0x4E), (0xCD, 0xB2, 0xB2, 0x7F), (0x9F, 0x75, 0x75, 0xEA),
    (0x1B, 0x09, 0x09, 0x12), (0x9E, 0x83, 0x83, 0x1D), (0x74, 0x2C, 0x2C, 0x58), (0x2E, 0x1A, 0x1A, 0x34),
    (0x2D, 0x1B, 0x1B, 0x36), (0xB2, 0x6E, 0x6E, 0xDC), (0xEE, 0x5A, 0x5A, 0xB4), (0xFB, 0xA0, 0xA0, 0x5B),
    (0xF6, 0x52, 0x52, 0xA4), (0x4D, 0x3B, 0x3B, 0x76), (0x61, 0xD6, 0xD6, 0xB7), (0xCE, 0xB3, 0xB3, 0x7D),
    (0x7B, 0x29, 0x29, 0x52), (0x3E, 0xE3, 0xE3, 0xDD), (0x71, 0x2F, 0x2F, 0x5E), (0x97, 0x84, 0x84, 0x13),
    (0xF5, 0x53, 0x53, 0xA6), (0x68, 0xD1, 0xD1, 0xB9), (0x00, 0x00, 0x00, 0x00), (0x2C, 0xED, 0xED, 0xC1),
    (0x60, 0x20, 0x20, 0x40), (0x1F, 0xFC, 0xFC, 0xE3), (0xC8, 0xB1, 0xB1, 0x79), (0xED, 0x5B, 0x5B, 0xB6),
    (0xBE, 0x6A, 0x6A, 0xD4), (0x46, 0xCB, 0xCB, 0x8D), (0xD9, 0xBE, 0xBE, 0x67), (0x4B, 0x39, 0x39, 0x72),
    (0xDE, 0x4A, 0x4A, 0x94), (0xD4, 0x4C, 0x4C, 0x98), (0xE8, 0x58, 0x58, 0xB0), (0x4A, 0xCF, 0xCF, 0x85),
    (0x6B, 0xD0, 0xD0, 0xBB), (0x2A, 0xEF, 0xEF, 0xC5), (0xE5, 0xAA, 0xAA, 0x4F), (0x16, 0xFB, 0xFB, 0xED),
    (0xC5, 0x43, 0x43, 0x86), (0xD7, 0x4D, 0x4D, 0x9A), (0x55, 0x33, 0x33, 0x66), (0x94, 0x85, 0x85, 0x11),
    (0xCF, 0x45, 0x45, 0x8A), (0x10, 0xF9, 0xF9, 0xE9), (0x06, 0x02, 0x02, 0x04), (0x81, 0x7F, 0x7F, 0xFE),
    (0xF0, 0x50, 0x50, 0xA0), (0x44, 0x3C, 0x3C, 0x78), (0xBA, 0x9F, 0x9F, 0x25), (0xE3, 0xA8, 0xA8, 0x4B),
    (0xF3, 0x51, 0x51, 0xA2), (0xFE, 0xA3, 0xA3, 0x5D), (0xC0, 0x40, 0x40, 0x80), (0x8A, 0x8F, 0x8F, 0x05),
    (0xAD, 0x92, 0x92, 0x3F), (0xBC, 0x9D, 0x9D, 0x21), (0x48, 0x38, 0x38, 0x70), (0x04, 0xF5, 0xF5, 0xF1),
    (0xDF, 0xBC, 0xBC, 0x63), (0xC1, 0xB6, 0xB6, 0x77), (0x75, 0xDA, 0xDA, 0xAF), (0x63, 0x21, 0x21, 0x42),
    (0x30, 0x10, 0x10, 0x20), (0x1A, 0xFF, 0xFF, 0xE5), (0x0E, 0xF3, 0xF3, 0xFD), (0x6D, 0xD2, 0xD2, 0xBF),
    (0x4C, 0xCD, 0xCD, 0x81), (0x14, 0x0C, 0x0C, 0x18), (0x35, 0x13, 0x13, 0x26), (0x2F, 0xEC, 0xEC, 0xC3),
    (0xE1, 0x5F, 0x5F, 0xBE), (0xA2, 0x97, 0x97, 0x35), (0xCC, 0x44, 0x44, 0x88), (0x39, 0x17, 0x17, 0x2E),
    (0x57, 0xC4, 0xC4, 0x93), (0xF2, 0xA7, 0xA7, 0x55), (0x82, 0x7E, 0x7E, 0xFC), (0x47, 0x3D, 0x3D, 0x7A),
    (0xAC, 0x64, 0x64, 0xC8), (0xE7, 0x5D, 0x5D, 0xBA), (0x2B, 0x19, 0x19, 0x32), (0x95, 0x73, 0x73, 0xE6),
    (0xA0, 0x60, 0x60, 0xC0), (0x98, 0x81, 0x81, 0x19), (0xD1, 0x4F, 0x4F, 0x9E), (0x7F, 0xDC, 0xDC, 0xA3),
    (0x66, 0x22, 0x22, 0x44), (0x7E, 0x2A, 0x2A, 0x54), (0xAB, 0x90, 0x90, 0x3B), (0x83, 0x88, 0x88, 0x0B),
    (0xCA, 0x46, 0x46, 0x8C), (0x29, 0xEE, 0xEE, 0xC7), (0xD3, 0xB8, 0xB8, 0x6B), (0x3C, 0x14, 0x14, 0x28),
    (0x79, 0xDE, 0xDE, 0xA7), (0xE2, 0x5E, 0x5E, 0xBC), (0x1D, 0x0B, 0x0B, 0x16), (0x76, 0xDB, 0xDB, 0xAD),
    (0x3B, 0xE0, 0xE0, 0xDB), (0x56, 0x32, 0x32, 0x64), (0x4E, 0x3A, 0x3A, 0x74), (0x1E, 0x0A, 0x0A, 0x14),
    (0xDB, 0x49, 0x49, 0x92), (0x0A, 0x06, 0x06, 0x0C), (0x6C, 0x24, 0x24, 0x48), (0xE4, 0x5C, 0x5C, 0xB8),
    (0x5D, 0xC2, 0xC2, 0x9F), (0x6E, 0xD3, 0xD3, 0xBD), (0xEF, 0xAC, 0xAC, 0x43), (0xA6, 0x62, 0x62, 0xC4),
    (0xA8, 0x91, 0x91, 0x39), (0xA4, 0x95, 0x95, 0x31), (0x37, 0xE4, 0xE4, 0xD3), (0x8B, 0x79, 0x79, 0xF2),
    (0x32, 0xE7, 0xE7, 0xD5), (0x43, 0xC8, 0xC8, 0x8B), (0x59, 0x37, 0x37, 0x6E), (0xB7, 0x6D, 0x6D, 0xDA),
    (0x8C, 0x8D, 0x8D, 0x01), (0x64, 0xD5, 0xD5, 0xB1), (0xD2, 0x4E, 0x4E, 0x9C), (0xE0, 0xA9, 0xA9, 0x49),
    (0xB4, 0x6C, 0x6C, 0xD8), (0xFA, 0x56, 0x56, 0xAC), (0x07, 0xF4, 0xF4, 0xF3), (0x25, 0xEA, 0xEA, 0xCF),
    (0xAF, 0x65, 0x65, 0xCA), (0x8E, 0x7A, 0x7A, 0xF4), (0xE9, 0xAE, 0xAE, 0x47), (0x18, 0x08, 0x08, 0x10),
    (0xD5, 0xBA, 0xBA, 0x6F), (0x88, 0x78, 0x78, 0xF0), (0x6F, 0x25, 0x25, 0x4A), (0x72, 0x2E, 0x2E, 0x5C),
    (0x24, 0x1C, 0x1C, 0x38), (0xF1, 0xA6, 0xA6, 0x57), (0xC7, 0xB4, 0xB4, 0x73), (0x51, 0xC6, 0xC6, 0x97),
    (0x23, 0xE8, 0xE8, 0xCB), (0x7C, 0xDD, 0xDD, 0xA1), (0x9C, 0x74, 0x74, 0xE8), (0x21, 0x1F, 0x1F, 0x3E),
    (0xDD, 0x4B, 0x4B, 0x96), (0xDC, 0xBD, 0xBD, 0x61), (0x86, 0x8B, 0x8B, 0x0D), (0x85, 0x8A, 0x8A, 0x0F),
    (0x90, 0x70, 0x70, 0xE0), (0x42, 0x3E, 0x3E, 0x7C), (0xC4, 0xB5, 0xB5, 0x71), (0xAA, 0x66, 0x66, 0xCC),
    (0xD8, 0x48, 0x48, 0x90), (0x05, 0x03, 0x03, 0x06), (0x01, 0xF6, 0xF6, 0xF7), (0x12, 0x0E, 0x0E, 0x1C),
    (0xA3, 0x61, 0x61, 0xC2), (0x5F, 0x35, 0x35, 0x6A), (0xF9, 0x57, 0x57, 0xAE), (0xD0, 0xB9, 0xB9, 0x69),
    (0x91, 0x86, 0x86, 0x17), (0x58, 0xC1, 0xC1, 0x99), (0x27, 0x1D, 0x1D, 0x3A), (0xB9, 0x9E, 0x9E, 0x27),
    (0x38, 0xE1, 0xE1, 0xD9), (0x13, 0xF8, 0xF8, 0xEB), (0xB3, 0x98, 0x98, 0x2B), (0x33, 0x11, 0x11, 0x22),
    (0xBB, 0x69, 0x69, 0xD2), (0x70, 0xD9, 0xD9, 0xA9), (0x89, 0x8E, 0x8E, 0x07), (0xA7, 0x94, 0x94, 0x33),
    (0xB6, 0x9B, 0x9B, 0x2D), (0x22, 0x1E, 0x1E, 0x3C), (0x92, 0x87, 0x87, 0x15), (0x20, 0xE9, 0xE9, 0xC9),
    (0x49, 0xCE, 0xCE, 0x87), (0xFF, 0x55, 0x55, 0xAA), (0x78, 0x28, 0x28, 0x50), (0x7A, 0xDF, 0xDF, 0xA5),
    (0x8F, 0x8C, 0x8C, 0x03), (0xF8, 0xA1, 0xA1, 0x59), (0x80, 0x89, 0x89, 0x09), (0x17, 0x0D, 0x0D, 0x1A),
    (0xDA, 0xBF, 0xBF, 0x65), (0x31, 0xE6, 0xE6, 0xD7), (0xC6, 0x42, 0x42, 0x84), (0xB8, 0x68, 0x68, 0xD0),
    (0xC3, 0x41, 0x41, 0x82), (0xB0, 0x99, 0x99, 0x29), (0x77, 0x2D, 0x2D, 0x5A), (0x11, 0x0F, 0x0F, 0x1E),
    (0xCB, 0xB0, 0xB0, 0x7B), (0xFC, 0x54, 0x54, 0xA8), (0xD6, 0xBB, 0xBB, 0x6D), (0x3A, 0x16, 0x16, 0x2C)]"

definition rom_RSb :: "u8 list" where
  "rom_RSb = [0x52, 0x09, 0x6A, 0xD5, 0x30, 0x36, 0xA5, 0x38, 0xBF, 0x40, 0xA3, 0x9E, 0x81, 0xF3, 0xD7, 0xFB,
    0x7C, 0xE3, 0x39, 0x82, 0x9B, 0x2F, 0xFF, 0x87, 0x34, 0x8E, 0x43, 0x44, 0xC4, 0xDE, 0xE9, 0xCB,
    0x54, 0x7B, 0x94, 0x32, 0xA6, 0xC2, 0x23, 0x3D, 0xEE, 0x4C, 0x95, 0x0B, 0x42, 0xFA, 0xC3, 0x4E,
    0x08, 0x2E, 0xA1, 0x66, 0x28, 0xD9, 0x24, 0xB2, 0x76, 0x5B, 0xA2, 0x49, 0x6D, 0x8B, 0xD1, 0x25,
    0x72, 0xF8, 0xF6, 0x64, 0x86, 0x68, 0x98, 0x16, 0xD4, 0xA4, 0x5C, 0xCC, 0x5D, 0x65, 0xB6, 0x92,
    0x6C, 0x70, 0x48, 0x50, 0xFD, 0xED, 0xB9, 0xDA, 0x5E, 0x15, 0x46, 0x57, 0xA7, 0x8D, 0x9D, 0x84,
    0x90, 0xD8, 0xAB, 0x00, 0x8C, 0xBC, 0xD3, 0x0A, 0xF7, 0xE4, 0x58, 0x05, 0xB8, 0xB3, 0x45, 0x06,
    0xD0, 0x2C, 0x1E, 0x8F, 0xCA, 0x3F, 0x0F, 0x02, 0xC1, 0xAF, 0xBD, 0x03, 0x01, 0x13, 0x8A, 0x6B,
    0x3A, 0x91, 0x11, 0x41, 0x4F, 0x67, 0xDC, 0xEA, 0x97, 0xF2, 0xCF, 0xCE, 0xF0, 0xB4, 0xE6, 0x73,
    0x96, 0xAC, 0x74, 0x22, 0xE7, 0xAD, 0x35, 0x85, 0xE2, 0xF9, 0x37, 0xE8, 0x1C, 0x75, 0xDF, 0x6E,
    0x47, 0xF1, 0x1A, 0x71, 0x1D, 0x29, 0xC5, 0x89, 0x6F, 0xB7, 0x62, 0x0E, 0xAA, 0x18, 0xBE, 0x1B,
    0xFC, 0x56, 0x3E, 0x4B, 0xC6, 0xD2, 0x79, 0x20, 0x9A, 0xDB, 0xC0, 0xFE, 0x78, 0xCD, 0x5A, 0xF4,
    0x1F, 0xDD, 0xA8, 0x33, 0x88, 0x07, 0xC7, 0x31, 0xB1, 0x12, 0x10, 0x59, 0x27, 0x80, 0xEC, 0x5F,
    0x60, 0x51, 0x7F, 0xA9, 0x19, 0xB5, 0x4A, 0x0D, 0x2D, 0xE5, 0x7A, 0x9F, 0x93, 0xC9, 0x9C, 0xEF,
    0xA0, 0xE0, 0x3B, 0x4D, 0xAE, 0x2A, 0xF5, 0xB0, 0xC8, 0xEB, 0xBB, 0x3C, 0x83, 0x53, 0x99, 0x61,
    0x17, 0x2B, 0x04, 0x7E, 0xBA, 0x77, 0xD6, 0x26, 0xE1, 0x69, 0x14, 0x63, 0x55, 0x21, 0x0C, 0x7D]"

definition rom_RT :: "(u8 \<times> u8 \<times> u8 \<times> u8) list" where
  "rom_RT = [(0x50, 0xA7, 0xF4, 0x51), (0x53, 0x65, 0x41, 0x7E), (0xC3, 0xA4, 0x17, 0x1A), (0x96, 0x5E, 0x27, 0x3A),
    (0xCB, 0x6B, 0xAB, 0x3B), (0xF1, 0x45, 0x9D, 0x1F), (0xAB, 0x58, 0xFA, 0xAC), (0x93, 0x03, 0xE3, 0x4B),
    (0x55, 0xFA, 0x30, 0x20), (0xF6, 0x6D, 0x76, 0xAD), (0x91, 0x76, 0xCC, 0x88), (0x25, 0x4C, 0x02, 0xF5),
    (0xFC, 0xD7, 0xE5, 0x4F), (0xD7, 0xCB, 0x2A, 0xC5), (0x80, 0x44, 0x35, 0x26), (0x8F, 0xA3, 0x62, 0xB5),
    (0x49, 0x5A, 0xB1, 0xDE), (0x67, 0x1B, 0xBA, 0x25), (0x98, 0x0E, 0xEA, 0x45), (0xE1, 0xC0, 0xFE, 0x5D),
    (0x02, 0x75, 0x2F, 0xC3), (0x12, 0xF0, 0x4C, 0x81), (0xA3, 0x97, 0x46, 0x8D), (0xC6, 0xF9, 0xD3, 0x6B),
    (0xE7, 0x5F, 0x8F, 0x03), (0x95, 0x9C, 0x92, 0x15), (0xEB, 0x7A, 0x6D, 0xBF), (0xDA, 0x59, 0x52, 0x95),
    (0x2D, 0x83, 0xBE, 0xD4), (0xD3, 0x21, 0x74, 0x58), (0x29, 0x69, 0xE0, 0x49), (0x44, 0xC8, 0xC9, 0x8E),
    (0x6A, 0x89, 0xC2, 0x75), (0x78, 0x79, 0x8E, 0xF4), (0x6B, 0x3E, 0x58, 0x99), (0xDD, 0x71, 0xB9, 0x27),
    (0xB6, 0x4F, 0xE1, 0xBE), (0x17, 0xAD, 0x88, 0xF0), (0x66, 0xAC, 0x20, 0xC9), (0xB4, 0x3A, 0xCE, 0x7D),
    (0x18, 0x4A, 0xDF, 0x63), (0x82, 0x31, 0x1A, 0xE5), (0x60, 0x33, 0x51, 0x97), (0x45, 0x7F, 0x53, 0x62),
    (0xE0, 0x77, 0x64, 0xB1), (0x84, 0xAE, 0x6B, 0xBB), (0x1C, 0xA0, 0x81, 0xFE), (0x94, 0x2B, 0x08, 0xF9),
    (0x58, 0x68, 0x48, 0x70), (0x19, 0xFD, 0x45, 0x8F), (0x87, 0x6C, 0xDE, 0x94), (0xB7, 0xF8, 0x7B, 0x52),
    (0x23, 0xD3, 0x73, 0xAB), (0xE2, 0x02, 0x4B, 0x72), (0x57, 0x8F, 0x1F, 0xE3), (0x2A, 0xAB, 0x55, 0x66),
    (0x07, 0x28, 0xEB, 0xB2), (0x03, 0xC2, 0xB5, 0x2F), (0x9A, 0x7B, 0xC5, 0x86), (0xA5, 0x08, 0x37, 0xD3),
    (0xF2, 0x87, 0x28, 0x30), (0xB2, 0xA5, 0xBF, 0x23), (0xBA, 0x6A, 0x03, 0x02), (0x5C, 0x82, 0x16, 0xED),
    (0x2B, 0x1C, 0xCF, 0x8A), (0x92, 0xB4, 0x79, 0xA7), (0xF0, 0xF2, 0x07, 0xF3), (0xA1, 0xE2, 0x69, 0x4E),
    (0xCD, 0xF4, 0xDA, 0x65), (0xD5, 0xBE, 0x05, 0x06), (0x1F, 0x62, 0x34, 0xD1), (0x8A, 0xFE, 0xA6, 0xC4),
    (0x9D, 0x53, 0x2E, 0x34), (0xA0, 0x55, 0xF3, 0xA2), (0x32, 0xE1, 0x8A, 0x05), (0x75, 0xEB, 0xF6, 0xA4),
    (0x39, 0xEC, 0x83, 0x0B), (0xAA, 0xEF, 0x60, 0x40), (0x06, 0x9F, 0x71, 0x5E), (0x51, 0x10, 0x6E, 0xBD),
    (0xF9, 0x8A, 0x21, 0x3E), (0x3D, 0x06, 0xDD, 0x96), (0xAE, 0x05, 0x3E, 0xDD), (0x46, 0xBD, 0xE6, 0x4D),
    (0xB5, 0x8D, 0x54, 0x91), (0x05, 0x5D, 0xC4, 0x71), (0x6F, 0xD4, 0x06, 0x04), (0xFF, 0x15, 0x50, 0x60),
    (0x24, 0xFB, 0x98, 0x19), (0x97, 0xE9, 0xBD, 0xD6), (0xCC, 0x43, 0x40, 0x89), (0x77, 0x9E, 0xD9, 0x67),
    (0xBD, 0x42, 0xE8, 0xB0), (0x88, 0x8B, 0x89, 0x07), (0x38, 0x5B, 0x19, 0xE7), (0xDB, 0xEE, 0xC8, 0x79),
    (0x47, 0x0A, 0x7C, 0xA1), (0xE9, 0x0F, 0x42, 0x7C), (0xC9, 0x1E, 0x84, 0xF8), (0x00, 0x00, 0x00, 0x00),
    (0x83, 0x86, 0x80, 0x09), (0x48, 0xED, 0x2B, 0x32), (0xAC, 0x70, 0x11, 0x1E), (0x4E, 0x72, 0x5A, 0x6C),
    (0xFB, 0xFF, 0x0E, 0xFD), (0x56, 0x38, 0x85, 0x0F), (0x1E, 0xD5, 0xAE, 0x3D), (0x27, 0x39, 0x2D, 0x36),
    (0x64, 0xD9, 0x0F, 0x0A), (0x21, 0xA6, 0x5C, 0x68), (0xD1, 0x54, 0x5B, 0x9B), (0x3A, 0x2E, 0x36, 0x24),
    (0xB1, 0x67, 0x0A, 0x0C), (0x0F, 0xE7, 0x57, 0x93), (0xD2, 0x96, 0xEE, 0xB4), (0x9E, 0x91, 0x9B, 0x1B),
    (0x4F, 0xC5, 0xC0, 0x80), (0xA2, 0x20, 0xDC, 0x61), (0x69, 0x4B, 0x77, 0x5A), (0x16, 0x1A, 0x12, 0x1C),
    (0x0A, 0xBA, 0x93, 0xE2), (0xE5, 0x2A, 0xA0, 0xC0), (0x43, 0xE0, 0x22, 0x3C), (0x1D, 0x17, 0x1B, 0x12),
    (0x0B, 0x0D, 0x09, 0x0E), (0xAD, 0xC7, 0x8B, 0xF2), (0xB9, 0xA8, 0xB6, 0x2D), (0xC8, 0xA9, 0x1E, 0x14),
    (0x85, 0x19, 0xF1, 0x57), (0x4C, 0x07, 0x75, 0xAF), (0xBB, 0xDD, 0x99, 0xEE), (0xFD, 0x60, 0x7F, 0xA3),
    (0x9F, 0x26, 0x01, 0xF7), (0xBC, 0xF5, 0x72, 0x5C), (0xC5, 0x3B, 0x66, 0x44), (0x34, 0x7E, 0xFB, 0x5B),
    (0x76, 0x29, 0x43, 0x8B), (0xDC, 0xC6, 0x23, 0xCB), (0x68, 0xFC, 0xED, 0xB6), (0x63, 0xF1, 0xE4, 0xB8),
    (0xCA, 0xDC, 0x31, 0xD7), (0x10, 0x85, 0x63, 0x42), (0x40, 0x22, 0x97, 0x13), (0x20, 0x11, 0xC6, 0x84),
    (0x7D, 0x24, 0x4A, 0x85), (0xF8, 0x3D, 0xBB, 0xD2), (0x11, 0x32, 0xF9, 0xAE), (0x6D, 0xA1, 0x29, 0xC7),
    (0x4B, 0x2F, 0x9E, 0x1D), (0xF3, 0x30, 0xB2, 0xDC), (0xEC, 0x52, 0x86, 0x0D), (0xD0, 0xE3, 0xC1, 0x77),
    (0x6C, 0x16, 0xB3, 0x2B), (0x99, 0xB9, 0x70, 0xA9), (0xFA, 0x48, 0x94, 0x11), (0x22, 0x64, 0xE9, 0x47),
    (0xC4, 0x8C, 0xFC, 0xA8), (0x1A, 0x3F, 0xF0, 0xA0), (0xD8, 0x2C, 0x7D, 0x56), (0xEF, 0x90, 0x33, 0x22),
    (0xC7, 0x4E, 0x49, 0x87), (0xC1, 0xD1, 0x38, 0xD9), (0xFE, 0xA2, 0xCA, 0x8C), (0x36, 0x0B, 0xD4, 0x98),
    (0xCF, 0x81, 0xF5, 0xA6), (0x28, 0xDE, 0x7A, 0xA5), (0x26, 0x8E, 0xB7, 0xDA), (0xA4, 0xBF, 0xAD, 0x3F),
    (0xE4, 0x9D, 0x3A, 0x2C), (0x0D, 0x92, 0x78, 0x50), (0x9B, 0xCC, 0x5F, 0x6A), (0x62, 0x46, 0x7E, 0x54),
    (0xC2, 0x13, 0x8D, 0xF6), (0xE8, 0xB8, 0xD8, 0x90), (0x5E, 0xF7, 0x39, 0x2E), (0xF5, 0xAF, 0xC3, 0x82),
    (0xBE, 0x80, 0x5D, 0x9F), (0x7C, 0x93, 0xD0, 0x69), (0xA9, 0x2D, 0xD5, 0x6F), (0xB3, 0x12, 0x25, 0xCF),
    (0x3B, 0x99, 0xAC, 0xC8), (0xA7, 0x7D, 0x18, 0x10), (0x6E, 0x63, 0x9C, 0xE8), (0x7B, 0xBB, 0x3B, 0xDB),
    (0x09, 0x78, 0x26, 0xCD), (0xF4, 0x18, 0x59, 0x6E), (0x01, 0xB7, 0x9A, 0xEC), (0xA8, 0x9A, 0x4F, 0x83),
    (0x65, 0x6E, 0x95, 0xE6), (0x7E, 0xE6, 0xFF, 0xAA), (0x08, 0xCF, 0xBC, 0x21), (0xE6, 0xE8, 0x15, 0xEF),
    (0xD9, 0x9B, 0xE7, 0xBA), (0xCE, 0x36, 0x6F, 0x4A), (0xD4, 0x09, 0x9F, 0xEA), (0xD6, 0x7C, 0xB0, 0x29),
    (0xAF, 0xB2, 0xA4, 0x31), (0x31, 0x23, 0x3F, 0x2A), (0x30, 0x94, 0xA5, 0xC6), (0xC0, 0x66, 0xA2, 0x35),
    (0x37, 0xBC, 0x4E, 0x74), (0xA6, 0xCA, 0x82, 0xFC), (0xB0, 0xD0, 0x90, 0xE0), (0x15, 0xD8, 0xA7, 0x33),
    (0x4A, 0x98, 0x04, 0xF1), (0xF7, 0xDA, 0xEC, 0x41), (0x0E, 0x50, 0xCD, 0x7F), (0x2F, 0xF6, 0x91, 0x17),
    (0x8D, 0xD6, 0x4D, 0x76), (0x4D, 0xB0, 0xEF, 0x43), (0x54, 0x4D, 0xAA, 0xCC), (0xDF, 0x04, 0x96, 0xE4),
    (0xE3, 0xB5, 0xD1, 0x9E), (0x1B, 0x88, 0x6A, 0x4C), (0xB8, 0x1F, 0x2C, 0xC1), (0x7F, 0x51, 0x65, 0x46),
    (0x04, 0xEA, 0x5E, 0x9D), (0x5D, 0x35, 0x8C, 0x01), (0x73, 0x74, 0x87, 0xFA), (0x2E, 0x41, 0x0B, 0xFB),
    (0x5A, 0x1D, 0x67, 0xB3), (0x52, 0xD2, 0xDB, 0x92), (0x33, 0x56, 0x10, 0xE9), (0x13, 0x47, 0xD6, 0x6D),
    (0x8C, 0x61, 0xD7, 0x9A), (0x7A, 0x0C, 0xA1, 0x37), (0x8E, 0x14, 0xF8, 0x59), (0x89, 0x3C, 0x13, 0xEB),
    (0xEE, 0x27, 0xA9, 0xCE), (0x35, 0xC9, 0x61, 0xB7), (0xED, 0xE5, 0x1C, 0xE1), (0x3C, 0xB1, 0x47, 0x7A),
    (0x59, 0xDF, 0xD2, 0x9C), (0x3F, 0x73, 0xF2, 0x55), (0x79, 0xCE, 0x14, 0x18), (0xBF, 0x37, 0xC7, 0x73),
    (0xEA, 0xCD, 0xF7, 0x53), (0x5B, 0xAA, 0xFD, 0x5F), (0x14, 0x6F, 0x3D, 0xDF), (0x86, 0xDB, 0x44, 0x78),
    (0x81, 0xF3, 0xAF, 0xCA), (0x3E, 0xC4, 0x68, 0xB9), (0x2C, 0x34, 0x24, 0x38), (0x5F, 0x40, 0xA3, 0xC2),
    (0x72, 0xC3, 0x1D, 0x16), (0x0C, 0x25, 0xE2, 0xBC), (0x8B, 0x49, 0x3C, 0x28), (0x41, 0x95, 0x0D, 0xFF),
    (0x71, 0x01, 0xA8, 0x39), (0xDE, 0xB3, 0x0C, 0x08), (0x9C, 0xE4, 0xB4, 0xD8), (0x90, 0xC1, 0x56, 0x64),
    (0x61, 0x84, 0xCB, 0x7B), (0x70, 0xB6, 0x32, 0xD5), (0x74, 0x5C, 0x6C, 0x48), (0x42, 0x57, 0xB8, 0xD0)]"

definition rom_RCON :: "u32 list" where
  "rom_RCON = [0x01, 0x02, 0x04, 0x08, 0x10, 0x20, 0x40, 0x80, 0x1B, 0x36]"

record aes_tables =
  FSb :: "u8 list"
  FT0 :: "u32 list"
  FT1 :: "u32 list"
  FT2 :: "u32 list"
  FT3 :: "u32 list"
  RSb :: "u8 list"
  RT0 :: "u32 list"
  RT1 :: "u32 list"
  RT2 :: "u32 list"
  RT3 :: "u32 list"
  RCON :: "u32 list"

definition rom_tables :: aes_tables where
  "rom_tables = \<lparr>FSb = rom_FSb,
     FT0 = map (\<lambda>(a, b, c, d). V (a, b, c, d)) rom_FT,
     FT1 = map (\<lambda>(a, b, c, d). V (b, c, d, a)) rom_FT,
     FT2 = map (\<lambda>(a, b, c, d). V (c, d, a, b)) rom_FT,
     FT3 = map (\<lambda>(a, b, c, d). V (d, a, b, c)) rom_FT,
     RSb = rom_RSb,
     RT0 = map (\<lambda>(a, b, c, d). V (a, b, c, d)) rom_RT,
     RT1 = map (\<lambda>(a, b, c, d). V (b, c, d, a)) rom_RT,
     RT2 = map (\<lambda>(a, b, c, d). V (c, d, a, b)) rom_RT,
     RT3 = map (\<lambda>(a, b, c, d). V (d, a, b, c)) rom_RT,
     RCON = rom_RCON\<rparr>"

section \<open>The tables made at run time\<close>

definition ROTL8 :: "u32 \<Rightarrow> u32" where
  "ROTL8 x = (push_bit 8 x AND 0xFFFFFFFF) OR drop_bit 24 x"

definition XTIME :: "u32 \<Rightarrow> u32" where
  "XTIME x = push_bit 1 x XOR (if x AND 0x80 \<noteq> 0 then 0x1B else 0)"

definition MUL :: "u32 list \<times> u32 list \<Rightarrow> u32 \<Rightarrow> u32 \<Rightarrow> u32" where
  "MUL = (\<lambda>(pow, log) x y. if x \<noteq> 0 \<and> y \<noteq> 0 then pow ! unat ((log ! unat x + log ! unat y) mod 255) else 0)"

definition pow_log_step :: "nat \<Rightarrow> u32 \<times> u32 list \<times> u32 list \<Rightarrow> u32 \<times> u32 list \<times> u32 list" where
  "pow_log_step i = (\<lambda>(x, pow, log). ((x XOR XTIME x) AND 0xFF, pow[i := x], log[unat x := of_nat i]))"

definition gen_pow_log :: "u32 list \<times> u32 list" where
  "gen_pow_log = snd (fold pow_log_step [0..<256] (1, replicate 256 0, replicate 256 0))"

definition rcon_step :: "nat \<Rightarrow> u32 \<times> u32 list \<Rightarrow> u32 \<times> u32 list" where
  "rcon_step i = (\<lambda>(x, rc). (XTIME x AND 0xFF, rc[i := x]))"

definition rot1 :: "u32 \<Rightarrow> u32" where
  "rot1 y = (push_bit 1 y OR drop_bit 7 y) AND 0xFF"

definition sbox_step :: "u32 list \<times> u32 list \<Rightarrow> nat \<Rightarrow> u8 list \<times> u8 list \<Rightarrow> u8 list \<times> u8 list" where
  "sbox_step = (\<lambda>(pow, log) i (fsb, rsb).
     let x = pow ! unat (255 - log ! i);
         y = rot1 x; x = x XOR y;
         y = rot1 y; x = x XOR y;
         y = rot1 y; x = x XOR y;
         y = rot1 y; x = x XOR (y XOR 0x63)
     in (fsb[i := ucast x], rsb[unat x := of_nat i]))"

definition table_step :: "u32 list \<times> u32 list \<Rightarrow> nat \<Rightarrow> aes_tables \<Rightarrow> aes_tables" where
  "table_step pl i t =
     (let x = ucast (FSb t ! i); y = XTIME x AND 0xFF; z = (y XOR x) AND 0xFF;
          f0 = y XOR push_bit 8 x XOR push_bit 16 x XOR push_bit 24 z;
          f1 = ROTL8 f0; f2 = ROTL8 f1; f3 = ROTL8 f2;
          x = ucast (RSb t ! i);
          r0 = MUL pl 0x0E x XOR push_bit 8 (MUL pl 0x09 x) XOR push_bit 16 (MUL pl 0x0D x) XOR
               push_bit 24 (MUL pl 0x0B x);
          r1 = ROTL8 r0; r2 = ROTL8 r1; r3 = ROTL8 r2
      in t\<lparr>FT0 := (FT0 t)[i := f0], FT1 := (FT1 t)[i := f1], FT2 := (FT2 t)[i := f2], FT3 := (FT3 t)[i := f3],
           RT0 := (RT0 t)[i := r0], RT1 := (RT1 t)[i := r1], RT2 := (RT2 t)[i := r2], RT3 := (RT3 t)[i := r3]\<rparr>)"

definition aes_gen_tables :: "aes_tables \<Rightarrow> aes_tables" where
  "aes_gen_tables t =
     (let pl = gen_pow_log;
          rc = snd (fold rcon_step [0..<10] (1, RCON t));
          (fsb, rsb) = fold (sbox_step pl) [1..<256] ((FSb t)[0 := 0x63], (RSb t)[0x63 := 0])
      in fold (table_step pl) [0..<256] (t\<lparr>RCON := rc, FSb := fsb, RSb := rsb\<rparr>))"

text \<open>The \<open>static\<close> tables before the first call: zeros.\<close>

definition static_tables :: aes_tables where
  "static_tables = \<lparr>FSb = replicate 256 0, FT0 = replicate 256 0, FT1 = replicate 256 0, FT2 = replicate 256 0,
     FT3 = replicate 256 0, RSb = replicate 256 0, RT0 = replicate 256 0, RT1 = replicate 256 0,
     RT2 = replicate 256 0, RT3 = replicate 256 0, RCON = replicate 10 0\<rparr>"

definition table_sizes :: "aes_tables \<Rightarrow> bool" where
  "table_sizes t \<longleftrightarrow> length (FSb t) = 256 \<and> length (FT0 t) = 256 \<and> length (FT1 t) = 256 \<and> length (FT2 t) = 256 \<and>
     length (FT3 t) = 256 \<and> length (RSb t) = 256 \<and> length (RT0 t) = 256 \<and> length (RT1 t) = 256 \<and>
     length (RT2 t) = 256 \<and> length (RT3 t) = 256 \<and> length (RCON t) = 10"

section \<open>Algebra of words of four bytes\<close>

lemma bit_u8_ge [simp]: "8 \<le> n \<Longrightarrow> \<not> bit (b :: u8) n"
  using bit_u8_lt [of b n] by auto

lemma mask_255: "(0xFF :: u32) = mask 8" and mask_32: "(0xFFFFFFFF :: u32) = mask 32"
  by (simp_all add: mask_numeral)

lemma less_8_cases: "(n :: nat) < 8 \<longleftrightarrow> n = 0 \<or> n = 1 \<or> n = 2 \<or> n = 3 \<or> n = 4 \<or> n = 5 \<or> n = 6 \<or> n = 7"
  by auto

lemma bit_byte: "bit (byte i w) n \<longleftrightarrow> n < 8 \<and> bit w (8 * i + n)"
  by (auto simp: byte_def bit_simps mask_255)

lemma bit_le32: "bit (le32 a b c d) n \<longleftrightarrow>
   (if n < 8 then bit a n else if n < 16 then bit b (n - 8) else if n < 24 then bit c (n - 16) else bit d (n - 24))"
  by (auto simp: le32_def bit_simps dest: bit_u8_lt)

lemma byte_le32 [simp]:
  "byte 0 (le32 a b c d) = a" "byte (Suc 0) (le32 a b c d) = b"
  "byte 2 (le32 a b c d) = c" "byte 3 (le32 a b c d) = d"
  by (auto intro!: bit_word_eqI simp: bit_byte bit_le32)

lemma le32_bytes [simp]: "le32 (byte 0 w) (byte (Suc 0) w) (byte 2 w) (byte 3 w) = w"
  by (rule bit_word_eqI) (auto simp: bit_le32 bit_byte)

lemma le32_xor: "le32 a b c d XOR le32 a' b' c' d' = le32 (a XOR a') (b XOR b') (c XOR c') (d XOR d')"
  by (rule bit_word_eqI) (auto simp: bit_le32 bit_simps)

lemma byte_xor: "byte i (v XOR w) = byte i v XOR byte i w"
  by (rule bit_word_eqI) (auto simp: bit_byte bit_simps)

lemma le32_eq_xor: "ucast a XOR push_bit 8 (ucast b) XOR push_bit 16 (ucast c) XOR push_bit 24 (ucast d) = le32 a b c d"
  by (rule bit_word_eqI) (auto simp: bit_le32 bit_simps)

lemma V_eq: "V (a, b, c, d) = le32 d c b a"
  by (simp add: V_def le32_def ac_simps)

lemma ROTL8_le32: "ROTL8 (le32 a b c d) = le32 d a b c"
  by (rule bit_word_eqI) (auto simp: ROTL8_def bit_le32 bit_simps mask_32)

section \<open>The arithmetic of the generator is that of the field\<close>

lemma XTIME_u8: "XTIME (ucast b) AND 0xFF = ucast (xtime b)"
proof -
  have 1: "(ucast b :: u32) AND 0x80 \<noteq> 0 \<longleftrightarrow> bit b 7"
    using and_exp_eq_0_iff_not_bit [of "ucast b :: u32" 7] by (simp add: bit_simps)
  have 2: "(0x1B :: u32) = ucast (0x1B :: u8)" by simp
  show ?thesis
    unfolding XTIME_def 1 unfolding 2
    by (rule bit_word_eqI) (auto simp: xtime_def bit_simps mask_255 simp del: push_bit_Suc dest: bit_u8_lt)
qed

lemma ucast_xor: "(ucast a :: u32) XOR ucast (b :: u8) = ucast (a XOR b)"
  by (rule bit_word_eqI) (auto simp: bit_simps)

lemma ucast_and_255: "(ucast (b :: u8) :: u32) AND 0xFF = ucast b"
  by (rule bit_word_eqI) (auto simp: bit_simps mask_255 dest: bit_u8_lt)

lemma gen3_u8: "(ucast b XOR XTIME (ucast b)) AND 0xFF = ucast (gen3 b)"
  by (simp add: gen3_def and.commute [of _ "0xFF"] bit.conj_xor_distrib flip: ucast_xor)
     (simp add: and.commute [of "0xFF"] XTIME_u8 ucast_and_255)

lemma rot1_u8: "rot1 (ucast b) = ucast (word_rotl 1 (b :: u8))"
  by (rule bit_word_eqI) (auto simp: rot1_def bit_simps mask_255 less_8_cases simp del: push_bit_Suc)

lemma affine_rotl:
  "affine b = b XOR word_rotl 1 b XOR word_rotl 2 b XOR word_rotl 3 b XOR word_rotl 4 b XOR 0x63"
proof (rule bit_word_eqI)
  fix n assume "n < LENGTH(8)"
  then have n: "n < 8" by simp
  have "bit (affine b) n \<longleftrightarrow> ((bit b n \<noteq> (bit b ((n + 4) mod 8) \<noteq> (bit b ((n + 5) mod 8) \<noteq>
      (bit b ((n + 6) mod 8) \<noteq> bit b ((n + 7) mod 8))))) \<noteq> bit (0x63 :: u8) n)"
    using n by (simp add: affine_def bit_horner_sum_bit_word_iff)
  also have "\<dots> \<longleftrightarrow> bit (b XOR word_rotl 1 b XOR word_rotl 2 b XOR word_rotl 3 b XOR word_rotl 4 b XOR 0x63) n"
    using n by (simp add: bit_xor_iff bit_word_rotl_iff) (auto simp: less_8_cases)
  finally show "bit (affine b) n \<longleftrightarrow> bit (b XOR word_rotl 1 b XOR word_rotl 2 b XOR word_rotl 3 b XOR word_rotl 4 b XOR 0x63) n" .
qed

section \<open>The S-box in the file\<close>

lemma length_rom [simp]: "length rom_FSb = 256" "length rom_RSb = 256" "length rom_FT = 256" "length rom_RT = 256"
    "length rom_RCON = 10"
  by (simp_all add: rom_FSb_def rom_RSb_def rom_FT_def rom_RT_def rom_RCON_def)

lemma rom_FSb_map: "map ((!) rom_FSb) [0..<256] = rom_FSb" and rom_RSb_map: "map ((!) rom_RSb) [0..<256] = rom_RSb"
  using map_nth [of rom_FSb] map_nth [of rom_RSb] by simp_all

lemmas rom_FSb_nth = rom_FSb_map [THEN trans, OF rom_FSb_def, unfolded upt_256 list.map list.inject simp_thms]
lemmas rom_RSb_nth = rom_RSb_map [THEN trans, OF rom_RSb_def, unfolded upt_256 list.map list.inject simp_thms]

lemma rotl_shifts:
  "word_rotl 1 b = push_bit 1 b OR drop_bit 7 (b :: u8)" "word_rotl 2 b = push_bit 2 b OR drop_bit 6 (b :: u8)"
  "word_rotl 3 b = push_bit 3 b OR drop_bit 5 (b :: u8)" "word_rotl 4 b = push_bit 4 b OR drop_bit 4 (b :: u8)"
  by (rule bit_word_eqI, auto simp: bit_simps less_8_cases simp del: push_bit_Suc push_bit_numeral)+

lemma rom_FSb_powers: "map (\<lambda>b. rom_FSb ! unat b) powers = map affine (rev powers)"
  unfolding affine_rotl rotl_shifts powers_def
  by (simp add: rom_FSb_nth rom_FSb_nth [unfolded One_nat_def])

lemma rom_RSb_inverse: "map (\<lambda>b. rom_RSb ! unat b) rom_FSb = bytes"
  unfolding bytes_def upt_256 unfolding rom_FSb_def
  by (simp add: rom_RSb_nth rom_RSb_nth [unfolded One_nat_def])

lemma rom_FSb_sbox: "rom_FSb ! unat b = sbox b"
proof (cases "b = 0")
  case True
  have "affine 0 = 0x63" unfolding affine_rotl rotl_shifts by simp
  then show ?thesis
    using True rom_FSb_nth by (simp add: sbox_def gf_inv_0)
next
  case False
  then obtain k where k: "k < 255" "b = pow3 k" by (rule pow3_surj)
  have "map (\<lambda>b. rom_FSb ! unat b) powers ! k = map affine (rev powers) ! k"
    by (simp only: rom_FSb_powers)
  then show ?thesis
    using k by (simp add: sbox_def gf_inv_pow3 length_powers rev_nth pow3_nth)
qed

lemma rom_RSb_sbox: "rom_RSb ! unat (sbox b) = b"
proof -
  have "map (\<lambda>b. rom_RSb ! unat b) rom_FSb ! unat b = bytes ! unat b"
    by (simp only: rom_RSb_inverse)
  then show ?thesis
    using unat_u8_le [of b] by (simp add: rom_FSb_sbox bytes_def)
qed

lemma sbox_inj: "inj sbox"
  by (rule injI) (metis rom_RSb_sbox)

lemma sbox_surj: obtains b where "c = sbox b"
  using finite_UNIV_inj_surj [OF _ sbox_inj] by (metis finite surj_def)

lemma sbox_inverse: "sbox (rom_RSb ! unat c) = c"
  by (rule sbox_surj [of c]) (simp add: rom_RSb_sbox)

section \<open>The powers and logarithms of the generator\<close>

definition pow_log_ok :: "u32 list \<times> u32 list \<Rightarrow> bool" where
  "pow_log_ok = (\<lambda>(P, L). (\<forall>k<256. P ! k = ucast (pow3 k)) \<and>
     (\<forall>b. b \<noteq> 0 \<longrightarrow> (\<exists>k<256. L ! unat b = of_nat k \<and> pow3 k = b)))"

lemma unat_ucast_u8 [simp]: "unat (ucast (b :: u8) :: u32) = unat b"
  using unat_u8_le [of b] by (simp add: unsigned_ucast_eq take_bit_nat_eq_self)

lemma ucast_u8_eq_0 [simp]: "(ucast (b :: u8) :: u32) = 0 \<longleftrightarrow> b = 0"
  by (simp add: word_unat_eq_iff)

lemma ucast_ucast_u8 [simp]: "(ucast (ucast (b :: u8) :: u32) :: u8) = b"
  by (rule bit_word_eqI) (auto simp: bit_simps)

lemma pow_log_fold:
  "n \<le> 256 \<Longrightarrow> \<exists>P L. fold pow_log_step [0..<n] (1, replicate 256 0, replicate 256 0) = (ucast (pow3 n), P, L) \<and>
     length P = 256 \<and> length L = 256 \<and> (\<forall>i<n. P ! i = ucast (pow3 i)) \<and>
     (\<forall>i<n. \<exists>k<n. L ! unat (pow3 i) = of_nat k \<and> pow3 k = pow3 i)"
proof (induction n)
  case (Suc n)
  then obtain P L where f: "fold pow_log_step [0..<n] (1, replicate 256 0, replicate 256 0) = (ucast (pow3 n), P, L)"
      "length P = 256" "length L = 256" "\<forall>i<n. P ! i = ucast (pow3 i)"
      "\<forall>i<n. \<exists>k<n. L ! unat (pow3 i) = of_nat k \<and> pow3 k = pow3 i"
    by auto
  let ?P = "P[n := ucast (pow3 n)]" and ?L = "L[unat (pow3 n) := of_nat n]"
  have "fold pow_log_step [0..<Suc n] (1, replicate 256 0, replicate 256 0) = (ucast (pow3 (Suc n)), ?P, ?L)"
    by (simp add: f pow_log_step_def gen3_u8 pow3_Suc)
  moreover have "\<forall>i<Suc n. ?P ! i = ucast (pow3 i)"
    using f Suc.prems by (auto simp: nth_list_update less_Suc_eq)
  moreover have "\<exists>k<Suc n. ?L ! unat (pow3 i) = of_nat k \<and> pow3 k = pow3 i" if "i < Suc n" for i
  proof (cases "pow3 i = pow3 n")
    case True
    then show ?thesis
      using f(3) unat_u8_le [of "pow3 n"] by (intro exI [of _ n]) simp
  next
    case False
    then have "unat (pow3 n) \<noteq> unat (pow3 i)" by (simp add: word_unat_eq_iff)
    then show ?thesis
      using f(5) that False by (auto simp: less_Suc_eq)
  qed
  ultimately show ?case using f by auto
qed simp

lemma gen_pow_log_ok: "pow_log_ok gen_pow_log"
proof -
  obtain P L where f: "fold pow_log_step [0..<256] (1, replicate 256 0, replicate 256 0) = (ucast (pow3 256), P, L)"
      "\<forall>i<256. P ! i = ucast (pow3 i)"
      "\<forall>i<256. \<exists>k<256. L ! unat (pow3 i) = of_nat k \<and> pow3 k = pow3 i"
    using pow_log_fold [of 256] by auto
  have "\<exists>k<256. L ! unat b = of_nat k \<and> pow3 k = b" if "b \<noteq> 0" for b
    using f(3) that by (elim pow3_surj) auto
  then show ?thesis
    using f by (simp add: gen_pow_log_def pow_log_ok_def)
qed

lemma unat_of_nat_u32: "n < 1024 \<Longrightarrow> unat (of_nat n :: u32) = n"
  by (simp add: unsigned_of_nat take_bit_nat_eq_self)

lemma log_entry:
  assumes "pow_log_ok (P, L)" and "b \<noteq> 0"
  obtains k where "k < 256" "L ! unat b = of_nat k" "pow3 k = b"
  using assms unfolding pow_log_ok_def by auto

lemma MUL_gf_mult:
  assumes "pow_log_ok pl" shows "MUL pl (ucast a) (ucast b) = ucast (gf_mult a b)"
proof (cases "a = 0 \<or> b = 0")
  case True
  then show ?thesis by (auto simp: MUL_def split: prod.split)
next
  case False
  obtain P L where pl: "pl = (P, L)" by (cases pl)
  have ok: "pow_log_ok (P, L)" and nz: "a \<noteq> 0" "b \<noteq> 0" using assms False by (simp_all add: pl)
  obtain j where j: "j < 256" "L ! unat a = of_nat j" "pow3 j = a" by (rule log_entry [OF ok nz(1)])
  obtain k where k: "k < 256" "L ! unat b = of_nat k" "pow3 k = b" by (rule log_entry [OF ok nz(2)])
  note jk = j k
  have "unat ((of_nat j + of_nat k :: u32) mod 255) = (j + k) mod 255"
    using unat_of_nat_u32 [of "j + k"] jk(1,4) by (simp only: unat_mod flip: of_nat_add) simp
  moreover have "(j + k) mod 255 < 256"
    by (rule less_trans [OF mod_less_divisor]) simp_all
  ultimately have "MUL pl (ucast a) (ucast b) = ucast (pow3 (j + k))"
    using assms False jk by (auto simp: MUL_def pl pow_log_ok_def pow3_mod)
  then show ?thesis
    using jk gf_mult_powers [of j k] by (simp add: add.commute)
qed

lemma sbox_entry:
  assumes "pow_log_ok (P, L)" and "b \<noteq> 0"
  shows "P ! unat (255 - L ! unat b) = ucast (gf_inv b)"
proof -
  obtain k where k: "k < 256" "L ! unat b = of_nat k" "pow3 k = b" by (rule log_entry [OF assms])
  have "unat (255 - of_nat k :: u32) = 255 - k"
    using k by (simp add: unat_sub unat_of_nat_u32 word_le_nat_alt)
  moreover have "gf_inv b = pow3 (255 - k)"
    using k gf_inv_pow3 [of k] gf_inv_pow3 [of 0] pow3_255 by (cases "k = 255") auto
  ultimately show ?thesis
    using assms k by (simp add: pow_log_ok_def)
qed

lemma rotl_rotl:
  "word_rotl 1 (word_rotl 1 b) = word_rotl 2 (b :: u8)" "word_rotl 1 (word_rotl 2 b) = word_rotl 3 (b :: u8)"
  "word_rotl 1 (word_rotl 3 b) = word_rotl 4 (b :: u8)"
  by (rule bit_word_eqI, auto simp: bit_simps less_8_cases)+

lemma ucast_xor_63: "(ucast (a :: u8) :: u32) XOR 0x63 = ucast (a XOR 0x63)"
  using ucast_xor [of a "0x63"] by simp

lemma sbox_step_eq:
  assumes "pow_log_ok pl" and "0 < i" and "i < 256"
  shows "sbox_step pl i (f, r) = (f[i := sbox (of_nat i)], r[unat (sbox (of_nat i)) := of_nat i])"
proof -
  obtain P L where pl: "pl = (P, L)" by (cases pl)
  have u: "unat (of_nat i :: u8) = i" using assms by (simp add: unsigned_of_nat take_bit_nat_eq_self)
  have "(of_nat i :: u8) \<noteq> 0" using u assms by auto
  then have "P ! unat (255 - L ! i) = ucast (gf_inv (of_nat i))"
    using sbox_entry [of P L "of_nat i"] assms u by (simp add: pl)
  then show ?thesis
    by (simp add: sbox_step_def pl Let_def rot1_u8 sbox_def affine_rotl rotl_rotl ucast_xor ucast_xor_63 xor.assoc del: One_nat_def)
qed

section \<open>The tables made at run time are the ones in the file\<close>

lemma of_nat_u8_inj: "i < 256 \<Longrightarrow> j < 256 \<Longrightarrow> (of_nat i :: u8) = of_nat j \<longleftrightarrow> i = j"
  by (auto simp: word_unat_eq_iff unsigned_of_nat take_bit_nat_eq_self)

lemma unat_of_nat_u8: "i < 256 \<Longrightarrow> unat (of_nat i :: u8) = i"
  by (simp add: unsigned_of_nat take_bit_nat_eq_self)

lemma rom_FSb_nth_sbox: "i < 256 \<Longrightarrow> rom_FSb ! i = sbox (of_nat i)"
  using rom_FSb_sbox [of "of_nat i"] by (simp add: unat_of_nat_u8)

lemma sbox_0: "sbox 0 = 0x63"
  using rom_FSb_sbox [of 0] rom_FSb_nth by simp

lemma sbox_fold:
  assumes "pow_log_ok pl" and "length f = 256" and "length r = 256" and "n \<le> 256" and "1 \<le> n"
  shows "\<exists>f' r'. fold (sbox_step pl) [1..<n] (f[0 := 0x63], r[0x63 := 0]) = (f', r') \<and> length f' = 256 \<and> length r' = 256 \<and>
     (\<forall>j<n. f' ! j = sbox (of_nat j) \<and> r' ! unat (sbox (of_nat j)) = of_nat j)"
  using assms(5,4)
proof (induction n rule: dec_induct)
  case base
  then show ?case using assms by (simp add: sbox_0)
next
  case (step n)
  then obtain f' r' where fr: "fold (sbox_step pl) [1..<n] (f[0 := 0x63], r[0x63 := 0]) = (f', r')" "length f' = 256"
      "length r' = 256" "\<forall>j<n. f' ! j = sbox (of_nat j) \<and> r' ! unat (sbox (of_nat j)) = of_nat j"
    by auto
  have s: "sbox_step pl n (f', r') = (f'[n := sbox (of_nat n)], r'[unat (sbox (of_nat n)) := of_nat n])"
    using step by (intro sbox_step_eq assms) auto
  have d: "unat (sbox (of_nat n)) \<noteq> unat (sbox (of_nat j))" if "j < n" for j
    using that step of_nat_u8_inj [of j n] by (auto simp: inj_eq [OF sbox_inj] simp flip: word_unat_eq_iff)
  have l: "unat (sbox x) < 256" for x
    using unat_u8_le [of "sbox x"] by simp
  show ?case
    using fr d l step by (auto simp: s less_Suc_eq nth_list_update)
qed

lemma gen_sboxes:
  assumes "pow_log_ok pl" and "length f = 256" and "length r = 256"
  shows "fold (sbox_step pl) [1..<256] (f[0 := 0x63], r[0x63 := 0]) = (rom_FSb, rom_RSb)"
proof -
  obtain f' r' where fr: "fold (sbox_step pl) [1..<256] (f[0 := 0x63], r[0x63 := 0]) = (f', r')" "length f' = 256"
      "length r' = 256" "\<And>j. j < 256 \<Longrightarrow> f' ! j = sbox (of_nat j)"
      "\<And>j. j < 256 \<Longrightarrow> r' ! unat (sbox (of_nat j)) = of_nat j"
    using sbox_fold [OF assms, of 256] by auto
  have "f' = rom_FSb"
    using fr by (intro nth_equalityI) (auto simp: rom_FSb_nth_sbox)
  moreover have "r' ! i = rom_RSb ! i" if "i < 256" for i
  proof -
    obtain b where b: "of_nat i = sbox b" by (rule sbox_surj)
    have "unat (sbox b) = i" using that by (simp flip: b add: unat_of_nat_u8)
    then show ?thesis
      using fr(5) [of "unat b"] unat_u8_le [of b] rom_RSb_sbox [of b] by simp
  qed
  then have "r' = rom_RSb"
    using fr by (intro nth_equalityI) auto
  ultimately show ?thesis using fr by simp
qed

lemma gen_rcon:
  assumes "length rc = 10" shows "snd (fold rcon_step [0..<10] (1, rc)) = rom_RCON"
proof -
  obtain a b c d e f g h i j where "rc = [a, b, c, d, e, f, g, h, i, j]"
    using assms by (auto simp: length_Suc_conv numeral_eq_Suc)
  moreover have "[0..<10] = [0, 1, 2, 3, 4, 5, 6, 7, 8, 9]" by (simp add: upt_rec)
  ultimately show ?thesis
    by (simp add: rcon_step_def XTIME_def rom_RCON_def)
qed

lemma gf_mult_consts:
  "gf_mult 2 b = xtime b" "gf_mult 3 b = xtime b XOR b" "gf_mult 9 b = xtime (xtime (xtime b)) XOR b"
  "gf_mult 0x0B b = xtime (xtime (xtime b)) XOR xtime b XOR b"
  "gf_mult 0x0D b = xtime (xtime (xtime b)) XOR xtime (xtime b) XOR b"
  "gf_mult 0x0E b = xtime (xtime (xtime b)) XOR xtime (xtime b) XOR xtime b"
proof -
  have u: "[0..<8] = [0, 1, 2, 3, 4, 5, 6, 7]" by (simp add: upt_rec)
  have 2: "(xtime ^^ 2) b = xtime (xtime b)" "(xtime ^^ 3) b = xtime (xtime (xtime b))"
    by (simp_all add: numeral_eq_Suc)
  show "gf_mult 2 b = xtime b" "gf_mult 3 b = xtime b XOR b" "gf_mult 9 b = xtime (xtime (xtime b)) XOR b"
    "gf_mult 0x0B b = xtime (xtime (xtime b)) XOR xtime b XOR b"
    "gf_mult 0x0D b = xtime (xtime (xtime b)) XOR xtime (xtime b) XOR b"
    "gf_mult 0x0E b = xtime (xtime (xtime b)) XOR xtime (xtime b) XOR xtime b"
    by (simp_all add: gf_mult_def u 2 ac_simps)
qed

text \<open>The entries of the tables are the columns of MixColumns and InvMixColumns.\<close>

lemma rom_FT_entries: "rom_FT = map (\<lambda>b. (gf_mult 3 b, b, b, gf_mult 2 b)) rom_FSb"
  unfolding gf_mult_consts rom_FT_def rom_FSb_def by (simp add: xtime_def)

lemma rom_RT_entries:
  "rom_RT = map (\<lambda>b. (gf_mult 0x0B b, gf_mult 0x0D b, gf_mult 9 b, gf_mult 0x0E b)) rom_RSb"
  unfolding gf_mult_consts rom_RT_def rom_RSb_def by (simp add: xtime_def)

definition ft_word :: "u8 \<Rightarrow> u32" where
  "ft_word b = le32 (gf_mult 2 b) b b (gf_mult 3 b)"

definition rt_word :: "u8 \<Rightarrow> u32" where
  "rt_word b = le32 (gf_mult 0x0E b) (gf_mult 9 b) (gf_mult 0x0D b) (gf_mult 0x0B b)"

lemma rom_FT0: "FT0 rom_tables = map ft_word rom_FSb" "FT1 rom_tables = map (ROTL8 \<circ> ft_word) rom_FSb"
  "FT2 rom_tables = map (ROTL8 \<circ> ROTL8 \<circ> ft_word) rom_FSb"
  "FT3 rom_tables = map (ROTL8 \<circ> ROTL8 \<circ> ROTL8 \<circ> ft_word) rom_FSb"
  by (simp_all add: rom_tables_def rom_FT_entries V_eq ft_word_def ROTL8_le32)

lemma rom_RT0: "RT0 rom_tables = map rt_word rom_RSb" "RT1 rom_tables = map (ROTL8 \<circ> rt_word) rom_RSb"
  "RT2 rom_tables = map (ROTL8 \<circ> ROTL8 \<circ> rt_word) rom_RSb"
  "RT3 rom_tables = map (ROTL8 \<circ> ROTL8 \<circ> ROTL8 \<circ> rt_word) rom_RSb"
  by (simp_all add: rom_tables_def rom_RT_entries V_eq rt_word_def ROTL8_le32)

lemma table_step_eq:
  assumes "pow_log_ok pl"
  shows "table_step pl i t =
    (let f = ft_word (FSb t ! i); r = rt_word (RSb t ! i)
     in t\<lparr>FT0 := (FT0 t)[i := f], FT1 := (FT1 t)[i := ROTL8 f], FT2 := (FT2 t)[i := ROTL8 (ROTL8 f)],
          FT3 := (FT3 t)[i := ROTL8 (ROTL8 (ROTL8 f))],
          RT0 := (RT0 t)[i := r], RT1 := (RT1 t)[i := ROTL8 r], RT2 := (RT2 t)[i := ROTL8 (ROTL8 r)],
          RT3 := (RT3 t)[i := ROTL8 (ROTL8 (ROTL8 r))]\<rparr>)"
proof -
  have f: "ucast (xtime b) XOR push_bit 8 (ucast b) XOR push_bit 16 (ucast b) XOR
      push_bit 24 ((ucast (xtime b) XOR ucast b) AND 0xFF) = ft_word b" for b :: u8
    by (simp add: ucast_xor ucast_and_255 le32_eq_xor ft_word_def gf_mult_consts)
  have m: "MUL pl 0x0E (ucast b) = ucast (gf_mult 0x0E b)" "MUL pl 0x09 (ucast b) = ucast (gf_mult 9 b)"
      "MUL pl 0x0D (ucast b) = ucast (gf_mult 0x0D b)" "MUL pl 0x0B (ucast b) = ucast (gf_mult 0x0B b)" for b
    using MUL_gf_mult [OF assms, of "0x0E" b] MUL_gf_mult [OF assms, of 9 b]
      MUL_gf_mult [OF assms, of "0x0D" b] MUL_gf_mult [OF assms, of "0x0B" b] by simp_all
  show ?thesis
    unfolding table_step_def Let_def XTIME_u8 f m le32_eq_xor rt_word_def ..
qed

lemma fill_step:
  "n < length xs \<Longrightarrow> (map g [0..<n] @ drop n xs)[n := g n] = map g [0..<Suc n] @ drop (Suc n) xs"
  by (simp add: list_update_append Cons_nth_drop_Suc [symmetric])

definition fill :: "(nat \<Rightarrow> 'a) \<Rightarrow> nat \<Rightarrow> 'a list \<Rightarrow> 'a list" where
  "fill g n xs = map g [0..<n] @ drop n xs"

lemma fill_0 [simp]: "fill g 0 xs = xs" and fill_Suc: "n < length xs \<Longrightarrow> (fill g n xs)[n := g n] = fill g (Suc n) xs"
  using fill_step [of n xs g] by (simp_all add: fill_def)

lemma fill_all: "length xs = 256 \<Longrightarrow> length ys = 256 \<Longrightarrow> fill (\<lambda>i. f (ys ! i)) 256 xs = map f ys"
  by (auto simp: fill_def intro: nth_equalityI)

lemmas rot_fills = fill_all [of _ _ ft_word] fill_all [of _ _ rt_word]
  fill_all [of _ _ "\<lambda>b. ROTL8 (ft_word b)"] fill_all [of _ _ "\<lambda>b. ROTL8 (ROTL8 (ft_word b))"]
  fill_all [of _ _ "\<lambda>b. ROTL8 (ROTL8 (ROTL8 (ft_word b)))"] fill_all [of _ _ "\<lambda>b. ROTL8 (rt_word b)"]
  fill_all [of _ _ "\<lambda>b. ROTL8 (ROTL8 (rt_word b))"] fill_all [of _ _ "\<lambda>b. ROTL8 (ROTL8 (ROTL8 (rt_word b)))"]

definition fill_tables :: "nat \<Rightarrow> aes_tables \<Rightarrow> aes_tables" where
  "fill_tables n t =
    (let f = \<lambda>i. ft_word (FSb t ! i); r = \<lambda>i. rt_word (RSb t ! i)
     in t\<lparr>FT0 := fill f n (FT0 t), FT1 := fill (ROTL8 \<circ> f) n (FT1 t), FT2 := fill (ROTL8 \<circ> ROTL8 \<circ> f) n (FT2 t),
          FT3 := fill (ROTL8 \<circ> ROTL8 \<circ> ROTL8 \<circ> f) n (FT3 t),
          RT0 := fill r n (RT0 t), RT1 := fill (ROTL8 \<circ> r) n (RT1 t), RT2 := fill (ROTL8 \<circ> ROTL8 \<circ> r) n (RT2 t),
          RT3 := fill (ROTL8 \<circ> ROTL8 \<circ> ROTL8 \<circ> r) n (RT3 t)\<rparr>)"

lemma fill_SucD: "n < length xs \<Longrightarrow> g n = y \<Longrightarrow> (fill g n xs)[n := y] = fill g (Suc n) xs"
  using fill_Suc by metis

lemma fill_tables_fold:
  assumes "pow_log_ok pl" and "table_sizes t"
  shows "n \<le> 256 \<Longrightarrow> fold (table_step pl) [0..<n] t = fill_tables n t"
proof (induction n)
  case (Suc n)
  then show ?case
    using assms by (simp add: fill_tables_def table_step_eq Let_def table_sizes_def fill_SucD)
qed (simp add: fill_tables_def)

lemma gen_tables_rom:
  assumes "table_sizes t" shows "aes_gen_tables t = rom_tables"
proof -
  let ?t = "t\<lparr>RCON := rom_RCON, FSb := rom_FSb, RSb := rom_RSb\<rparr>"
  have "aes_gen_tables t = fold (table_step gen_pow_log) [0..<256] ?t"
    using assms gen_sboxes [OF gen_pow_log_ok, of "FSb t" "RSb t"] gen_rcon [of "RCON t"]
    by (simp add: aes_gen_tables_def table_sizes_def)
  also have "\<dots> = fill_tables 256 ?t"
    using assms by (intro fill_tables_fold gen_pow_log_ok) (simp_all add: table_sizes_def)
  also have "\<dots> = rom_tables"
    using assms rom_FT0 rom_RT0
    by (cases t) (simp add: fill_tables_def table_sizes_def Let_def comp_def rot_fills rom_tables_def)
  finally show ?thesis .
qed

end
