(* ===== verification/Aes.thy ===== *)
theory Aes
  imports AesTables
begin

text \<open>
  The AES block cipher of \<open>src/aes_test/library/aes.c\<close>: contexts, the two key schedules, and
  encryption and decryption of a block.

  The model is the portable code: the branches for AES-NI and VIA Padlock hand the same work to
  the processor. A context's \<open>rk\<close> points into its own \<open>buf\<close>: NULL is \<open>None\<close>, an offset otherwise. A
  read beyond the bytes a caller passes is a fault.
\<close>

section \<open>State\<close>

record aes_globals =
  tbl :: aes_tables
  aes_init_done :: bool

record mbedtls_aes_context =
  nr :: nat
  rk :: "nat option"
  buf :: "u32 list"

definition MBEDTLS_AES_ENCRYPT :: int where "MBEDTLS_AES_ENCRYPT = 1"
definition MBEDTLS_AES_DECRYPT :: int where "MBEDTLS_AES_DECRYPT = 0"
definition MBEDTLS_ERR_AES_INVALID_KEY_LENGTH :: int where "MBEDTLS_ERR_AES_INVALID_KEY_LENGTH = - 0x20"

definition GET_UINT32_LE :: "u8 list \<Rightarrow> nat \<Rightarrow> u32 res" where
  "GET_UINT32_LE b i = (if i + 3 < length b then Inr (le32 (b ! i) (b ! (i + 1)) (b ! (i + 2)) (b ! (i + 3)))
     else Inl OutOfBounds)"

definition PUT_UINT32_LE :: "u32 \<Rightarrow> u8 list" where
  "PUT_UINT32_LE n = [ucast (n AND 0xFF), ucast (drop_bit 8 n AND 0xFF), ucast (drop_bit 16 n AND 0xFF),
     ucast (drop_bit 24 n AND 0xFF)]"

text \<open>The index \<open>(w >> k) & 0xFF\<close> of a table look-up.\<close>

definition idx :: "u32 \<Rightarrow> nat \<Rightarrow> nat" where
  "idx w k = unat (drop_bit k w AND 0xFF)"

definition mbedtls_aes_init :: mbedtls_aes_context where
  "mbedtls_aes_init = \<lparr>nr = 0, rk = None, buf = replicate 68 0\<rparr>"

text \<open>\<open>mbedtls_platform_zeroize\<close> writes zeros over the bytes of the context, the pointer included.\<close>

definition mbedtls_aes_free :: "mbedtls_aes_context option \<Rightarrow> mbedtls_aes_context option" where
  "mbedtls_aes_free ctx = map_option (\<lambda>c. c\<lparr>nr := 0, rk := None, buf := map (\<lambda>_. 0) (buf c)\<rparr>) ctx"

section \<open>The key schedule of encryption\<close>

definition init_tables :: "aes_globals \<Rightarrow> aes_globals" where
  "init_tables g = (if aes_init_done g then g else \<lparr>tbl = aes_gen_tables (tbl g), aes_init_done = True\<rparr>)"

fun load_key :: "u8 list \<Rightarrow> nat list \<Rightarrow> u32 list \<Rightarrow> u32 list res" where
  "load_key key [] RK = Inr RK"
| "load_key key (i # is) RK = rbind (GET_UINT32_LE key (4 * i)) (\<lambda>w. load_key key is (RK[i := w]))"

definition sb32 :: "u8 list \<Rightarrow> u32 \<Rightarrow> nat \<Rightarrow> u32" where
  "sb32 S w k = ucast (S ! idx w k)"

definition rot_sub :: "aes_tables \<Rightarrow> u32 \<Rightarrow> u32" where
  "rot_sub t w = sb32 (FSb t) w 8 XOR push_bit 8 (sb32 (FSb t) w 16) XOR push_bit 16 (sb32 (FSb t) w 24) XOR
     push_bit 24 (sb32 (FSb t) w 0)"

definition sub32 :: "aes_tables \<Rightarrow> u32 \<Rightarrow> u32" where
  "sub32 t w = sb32 (FSb t) w 0 XOR push_bit 8 (sb32 (FSb t) w 8) XOR push_bit 16 (sb32 (FSb t) w 16) XOR
     push_bit 24 (sb32 (FSb t) w 24)"

text \<open>One turn of the loop for a key of 128, 192 and 256 bits; \<open>RK\<close> has advanced by 4, 6 and 8 words a turn.\<close>

definition expand128 :: "aes_tables \<Rightarrow> nat \<Rightarrow> u32 list \<Rightarrow> u32 list" where
  "expand128 t i RK =
     (let p = 4 * i;
          RK = RK[p + 4 := RK ! p XOR RCON t ! i XOR rot_sub t (RK ! (p + 3))];
          RK = RK[p + 5 := RK ! (p + 1) XOR RK ! (p + 4)];
          RK = RK[p + 6 := RK ! (p + 2) XOR RK ! (p + 5)]
      in RK[p + 7 := RK ! (p + 3) XOR RK ! (p + 6)])"

definition expand192 :: "aes_tables \<Rightarrow> nat \<Rightarrow> u32 list \<Rightarrow> u32 list" where
  "expand192 t i RK =
     (let p = 6 * i;
          RK = RK[p + 6 := RK ! p XOR RCON t ! i XOR rot_sub t (RK ! (p + 5))];
          RK = RK[p + 7 := RK ! (p + 1) XOR RK ! (p + 6)];
          RK = RK[p + 8 := RK ! (p + 2) XOR RK ! (p + 7)];
          RK = RK[p + 9 := RK ! (p + 3) XOR RK ! (p + 8)];
          RK = RK[p + 10 := RK ! (p + 4) XOR RK ! (p + 9)]
      in RK[p + 11 := RK ! (p + 5) XOR RK ! (p + 10)])"

definition expand256 :: "aes_tables \<Rightarrow> nat \<Rightarrow> u32 list \<Rightarrow> u32 list" where
  "expand256 t i RK =
     (let p = 8 * i;
          RK = RK[p + 8 := RK ! p XOR RCON t ! i XOR rot_sub t (RK ! (p + 7))];
          RK = RK[p + 9 := RK ! (p + 1) XOR RK ! (p + 8)];
          RK = RK[p + 10 := RK ! (p + 2) XOR RK ! (p + 9)];
          RK = RK[p + 11 := RK ! (p + 3) XOR RK ! (p + 10)];
          RK = RK[p + 12 := RK ! (p + 4) XOR sub32 t (RK ! (p + 11))];
          RK = RK[p + 13 := RK ! (p + 5) XOR RK ! (p + 12)];
          RK = RK[p + 14 := RK ! (p + 6) XOR RK ! (p + 13)]
      in RK[p + 15 := RK ! (p + 7) XOR RK ! (p + 14)])"

definition rounds :: "nat \<Rightarrow> nat option" where
  "rounds keybits = (if keybits = 128 then Some 10 else if keybits = 192 then Some 12
     else if keybits = 256 then Some 14 else None)"

definition mbedtls_aes_setkey_enc ::
    "aes_globals \<Rightarrow> mbedtls_aes_context \<Rightarrow> u8 list \<Rightarrow> nat \<Rightarrow> (int \<times> aes_globals \<times> mbedtls_aes_context) res" where
  "mbedtls_aes_setkey_enc g ctx key keybits =
     (case rounds keybits of
        None \<Rightarrow> Inr (MBEDTLS_ERR_AES_INVALID_KEY_LENGTH, g, ctx)
      | Some r \<Rightarrow>
          (let g = init_tables g; t = tbl g; ctx = ctx\<lparr>nr := r, rk := Some 0\<rparr>
           in rbind (load_key key [0..<keybits div 32] (buf ctx)) (\<lambda>RK.
             Inr (0, g, ctx\<lparr>buf :=
               if r = 10 then fold (expand128 t) [0..<10] RK
               else if r = 12 then fold (expand192 t) [0..<8] RK
               else fold (expand256 t) [0..<7] RK\<rparr>))))"

section \<open>The key schedule of decryption\<close>

text \<open>The pointers \<open>RK\<close> and \<open>SK\<close> as indexes \<open>p\<close> and \<open>s\<close>.\<close>

definition copy_word :: "u32 list \<Rightarrow> nat \<times> nat \<times> u32 list \<Rightarrow> nat \<times> nat \<times> u32 list" where
  "copy_word SK = (\<lambda>(p, s, RK). (p + 1, s + 1, RK[p := SK ! s]))"

definition inv_mix :: "aes_tables \<Rightarrow> u32 \<Rightarrow> u32" where
  "inv_mix t w = RT0 t ! unat (FSb t ! idx w 0) XOR RT1 t ! unat (FSb t ! idx w 8) XOR
     RT2 t ! unat (FSb t ! idx w 16) XOR RT3 t ! unat (FSb t ! idx w 24)"

definition inv_word :: "aes_tables \<Rightarrow> u32 list \<Rightarrow> nat \<times> nat \<times> u32 list \<Rightarrow> nat \<times> nat \<times> u32 list" where
  "inv_word t SK = (\<lambda>(p, s, RK). (p + 1, s + 1, RK[p := inv_mix t (SK ! s)]))"

definition back8 :: "nat \<times> nat \<times> u32 list \<Rightarrow> nat \<times> nat \<times> u32 list" where
  "back8 = (\<lambda>(p, s, RK). (p, s - 8, RK))"

definition inverse_schedule :: "aes_tables \<Rightarrow> nat \<Rightarrow> u32 list \<Rightarrow> u32 list \<Rightarrow> u32 list" where
  "inverse_schedule t r SK RK =
     (let st = (copy_word SK ^^ 4) (0, r * 4, RK);
          st = ((\<lambda>st. back8 ((inv_word t SK ^^ 4) st)) ^^ (r - 1)) (back8 st);
          (p, s, RK) = (copy_word SK ^^ 4) st
      in RK)"

definition mbedtls_aes_setkey_dec ::
    "aes_globals \<Rightarrow> mbedtls_aes_context \<Rightarrow> u8 list \<Rightarrow> nat \<Rightarrow> (int \<times> aes_globals \<times> mbedtls_aes_context) res" where
  "mbedtls_aes_setkey_dec g ctx key keybits =
     (let ctx = ctx\<lparr>rk := Some 0\<rparr>
      in rbind (mbedtls_aes_setkey_enc g mbedtls_aes_init key keybits) (\<lambda>(ret, g, cty).
        if ret \<noteq> 0 then Inr (ret, g, ctx)
        else Inr (ret, g, ctx\<lparr>nr := nr cty, buf := inverse_schedule (tbl g) (nr cty) (buf cty) (buf ctx)\<rparr>)))"

section \<open>One block\<close>

type_synonym cols = "u32 \<times> u32 \<times> u32 \<times> u32"

text \<open>\<open>RK\<close> has advanced to index \<open>p\<close>.\<close>

definition AES_FROUND :: "aes_tables \<Rightarrow> u32 list \<Rightarrow> nat \<times> cols \<Rightarrow> nat \<times> cols" where
  "AES_FROUND t RK = (\<lambda>(p, y0, y1, y2, y3). (p + 4,
     RK ! p XOR FT0 t ! idx y0 0 XOR FT1 t ! idx y1 8 XOR FT2 t ! idx y2 16 XOR FT3 t ! idx y3 24,
     RK ! (p + 1) XOR FT0 t ! idx y1 0 XOR FT1 t ! idx y2 8 XOR FT2 t ! idx y3 16 XOR FT3 t ! idx y0 24,
     RK ! (p + 2) XOR FT0 t ! idx y2 0 XOR FT1 t ! idx y3 8 XOR FT2 t ! idx y0 16 XOR FT3 t ! idx y1 24,
     RK ! (p + 3) XOR FT0 t ! idx y3 0 XOR FT1 t ! idx y0 8 XOR FT2 t ! idx y1 16 XOR FT3 t ! idx y2 24))"

definition AES_RROUND :: "aes_tables \<Rightarrow> u32 list \<Rightarrow> nat \<times> cols \<Rightarrow> nat \<times> cols" where
  "AES_RROUND t RK = (\<lambda>(p, y0, y1, y2, y3). (p + 4,
     RK ! p XOR RT0 t ! idx y0 0 XOR RT1 t ! idx y3 8 XOR RT2 t ! idx y2 16 XOR RT3 t ! idx y1 24,
     RK ! (p + 1) XOR RT0 t ! idx y1 0 XOR RT1 t ! idx y0 8 XOR RT2 t ! idx y3 16 XOR RT3 t ! idx y2 24,
     RK ! (p + 2) XOR RT0 t ! idx y2 0 XOR RT1 t ! idx y1 8 XOR RT2 t ! idx y0 16 XOR RT3 t ! idx y3 24,
     RK ! (p + 3) XOR RT0 t ! idx y3 0 XOR RT1 t ! idx y2 8 XOR RT2 t ! idx y1 16 XOR RT3 t ! idx y0 24))"

definition last_fround :: "aes_tables \<Rightarrow> u32 list \<Rightarrow> nat \<times> cols \<Rightarrow> cols" where
  "last_fround t RK = (\<lambda>(p, y0, y1, y2, y3). let S = FSb t in
     (RK ! p XOR sb32 S y0 0 XOR push_bit 8 (sb32 S y1 8) XOR push_bit 16 (sb32 S y2 16) XOR push_bit 24 (sb32 S y3 24),
      RK ! (p + 1) XOR sb32 S y1 0 XOR push_bit 8 (sb32 S y2 8) XOR push_bit 16 (sb32 S y3 16) XOR push_bit 24 (sb32 S y0 24),
      RK ! (p + 2) XOR sb32 S y2 0 XOR push_bit 8 (sb32 S y3 8) XOR push_bit 16 (sb32 S y0 16) XOR push_bit 24 (sb32 S y1 24),
      RK ! (p + 3) XOR sb32 S y3 0 XOR push_bit 8 (sb32 S y0 8) XOR push_bit 16 (sb32 S y1 16) XOR push_bit 24 (sb32 S y2 24)))"

definition last_rround :: "aes_tables \<Rightarrow> u32 list \<Rightarrow> nat \<times> cols \<Rightarrow> cols" where
  "last_rround t RK = (\<lambda>(p, y0, y1, y2, y3). let S = RSb t in
     (RK ! p XOR sb32 S y0 0 XOR push_bit 8 (sb32 S y3 8) XOR push_bit 16 (sb32 S y2 16) XOR push_bit 24 (sb32 S y1 24),
      RK ! (p + 1) XOR sb32 S y1 0 XOR push_bit 8 (sb32 S y0 8) XOR push_bit 16 (sb32 S y3 16) XOR push_bit 24 (sb32 S y2 24),
      RK ! (p + 2) XOR sb32 S y2 0 XOR push_bit 8 (sb32 S y1 8) XOR push_bit 16 (sb32 S y0 16) XOR push_bit 24 (sb32 S y3 24),
      RK ! (p + 3) XOR sb32 S y3 0 XOR push_bit 8 (sb32 S y2 8) XOR push_bit 16 (sb32 S y1 16) XOR push_bit 24 (sb32 S y0 24)))"

definition round_keys :: "mbedtls_aes_context \<Rightarrow> u32 list res" where
  "round_keys ctx = (case rk ctx of None \<Rightarrow> Inl NullDeref | Some off \<Rightarrow> Inr (drop off (buf ctx)))"

definition load_block :: "u8 list \<Rightarrow> u32 list \<Rightarrow> cols res" where
  "load_block input RK =
     rbind (GET_UINT32_LE input 0) (\<lambda>x0. rbind (GET_UINT32_LE input 4) (\<lambda>x1.
     rbind (GET_UINT32_LE input 8) (\<lambda>x2. rbind (GET_UINT32_LE input 12) (\<lambda>x3.
       Inr (x0 XOR RK ! 0, x1 XOR RK ! 1, x2 XOR RK ! 2, x3 XOR RK ! 3)))))"

definition put_block :: "cols \<Rightarrow> u8 list" where
  "put_block = (\<lambda>(x0, x1, x2, x3). PUT_UINT32_LE x0 @ PUT_UINT32_LE x1 @ PUT_UINT32_LE x2 @ PUT_UINT32_LE x3)"

definition mbedtls_internal_aes_encrypt :: "aes_tables \<Rightarrow> mbedtls_aes_context \<Rightarrow> u8 list \<Rightarrow> (int \<times> u8 list) res" where
  "mbedtls_internal_aes_encrypt t ctx input =
     rbind (round_keys ctx) (\<lambda>RK. rbind (load_block input RK) (\<lambda>x.
       let st = ((\<lambda>st. AES_FROUND t RK (AES_FROUND t RK st)) ^^ (nr ctx div 2 - 1)) (4, x)
       in Inr (0, put_block (last_fround t RK (AES_FROUND t RK st)))))"

definition mbedtls_internal_aes_decrypt :: "aes_tables \<Rightarrow> mbedtls_aes_context \<Rightarrow> u8 list \<Rightarrow> (int \<times> u8 list) res" where
  "mbedtls_internal_aes_decrypt t ctx input =
     rbind (round_keys ctx) (\<lambda>RK. rbind (load_block input RK) (\<lambda>x.
       let st = ((\<lambda>st. AES_RROUND t RK (AES_RROUND t RK st)) ^^ (nr ctx div 2 - 1)) (4, x)
       in Inr (0, put_block (last_rround t RK (AES_RROUND t RK st)))))"

definition mbedtls_aes_crypt_ecb :: "aes_tables \<Rightarrow> mbedtls_aes_context \<Rightarrow> int \<Rightarrow> u8 list \<Rightarrow> (int \<times> u8 list) res" where
  "mbedtls_aes_crypt_ecb t ctx mode input =
     (if mode = MBEDTLS_AES_ENCRYPT then mbedtls_internal_aes_encrypt t ctx input
      else mbedtls_internal_aes_decrypt t ctx input)"

definition mbedtls_aes_encrypt :: "aes_tables \<Rightarrow> mbedtls_aes_context \<Rightarrow> u8 list \<Rightarrow> u8 list res" where
  "mbedtls_aes_encrypt t ctx input = rbind (mbedtls_internal_aes_encrypt t ctx input) (\<lambda>(ret, out). Inr out)"

definition mbedtls_aes_decrypt :: "aes_tables \<Rightarrow> mbedtls_aes_context \<Rightarrow> u8 list \<Rightarrow> u8 list res" where
  "mbedtls_aes_decrypt t ctx input = rbind (mbedtls_internal_aes_decrypt t ctx input) (\<lambda>(ret, out). Inr out)"

text \<open>A context that has been freed holds no key and cannot be used.\<close>

lemma aes_free_unusable:
  assumes "mbedtls_aes_free (Some c) = Some c'"
  shows "set (buf c') \<subseteq> {0} \<and> mbedtls_aes_crypt_ecb t c' mode input = Inl NullDeref"
  using assms by (auto simp: mbedtls_aes_free_def mbedtls_aes_crypt_ecb_def mbedtls_internal_aes_encrypt_def
      mbedtls_internal_aes_decrypt_def round_keys_def)

end
