(* ===== verification/AesCipher.thy ===== *)
theory AesCipher
  imports Aes
begin

text \<open>
  The AES cipher of \<open>Aes\<close> against the standard: the four columns as words, a round of look-ups as a
  round of FIPS 197, the key schedule as its key expansion, and decryption as the inverse.
\<close>


section \<open>Table look-ups\<close>

lemma idx_byte: "idx w 0 = unat (byte 0 w)" "idx w 8 = unat (byte (Suc 0) w)" "idx w 16 = unat (byte 2 w)"
    "idx w 24 = unat (byte 3 w)"
proof -
  have "unat (w AND 0xFF) = unat (ucast (w AND 0xFF) :: u8)" for w :: u32
    by (simp add: mask_255 unsigned_ucast_eq unsigned_take_bit_eq flip: take_bit_eq_mask)
  then show "idx w 0 = unat (byte 0 w)" "idx w 8 = unat (byte (Suc 0) w)" "idx w 16 = unat (byte 2 w)"
    "idx w 24 = unat (byte 3 w)"
    by (simp_all add: idx_def byte_def)
qed

lemma PUT_bytes: "PUT_UINT32_LE w = [byte 0 w, byte (Suc 0) w, byte 2 w, byte 3 w]"
  by (simp add: PUT_UINT32_LE_def byte_def)

definition isbox :: "u8 \<Rightarrow> u8" where
  "isbox b = rom_RSb ! unat b"

lemma isbox_sbox [simp]: "isbox (sbox b) = b" and sbox_isbox [simp]: "sbox (isbox b) = b"
  by (simp_all add: isbox_def rom_RSb_sbox sbox_inverse)

lemma nth_map_u8: "length xs = 256 \<Longrightarrow> map f xs ! unat (b :: u8) = f (xs ! unat b)"
  using unat_u8_le [of b] by simp

lemma lookups:
  "FSb rom_tables ! unat b = sbox b" "RSb rom_tables ! unat b = isbox b"
  "FT0 rom_tables ! unat b = le32 (gf_mult 2 (sbox b)) (sbox b) (sbox b) (gf_mult 3 (sbox b))"
  "FT1 rom_tables ! unat b = le32 (gf_mult 3 (sbox b)) (gf_mult 2 (sbox b)) (sbox b) (sbox b)"
  "FT2 rom_tables ! unat b = le32 (sbox b) (gf_mult 3 (sbox b)) (gf_mult 2 (sbox b)) (sbox b)"
  "FT3 rom_tables ! unat b = le32 (sbox b) (sbox b) (gf_mult 3 (sbox b)) (gf_mult 2 (sbox b))"
  "RT0 rom_tables ! unat b = le32 (gf_mult 0x0E (isbox b)) (gf_mult 9 (isbox b)) (gf_mult 0x0D (isbox b)) (gf_mult 0x0B (isbox b))"
  "RT1 rom_tables ! unat b = le32 (gf_mult 0x0B (isbox b)) (gf_mult 0x0E (isbox b)) (gf_mult 9 (isbox b)) (gf_mult 0x0D (isbox b))"
  "RT2 rom_tables ! unat b = le32 (gf_mult 0x0D (isbox b)) (gf_mult 0x0B (isbox b)) (gf_mult 0x0E (isbox b)) (gf_mult 9 (isbox b))"
  "RT3 rom_tables ! unat b = le32 (gf_mult 9 (isbox b)) (gf_mult 0x0D (isbox b)) (gf_mult 0x0B (isbox b)) (gf_mult 0x0E (isbox b))"
  unfolding rom_FT0 rom_RT0
  by (simp_all add: nth_map_u8 rom_FSb_sbox ft_word_def rt_word_def ROTL8_le32 flip: isbox_def)
     (simp_all add: rom_tables_def rom_FSb_sbox isbox_def)

lemma sb32_lookups:
  "sb32 S w 0 = ucast (S ! unat (byte 0 w))" "sb32 S w 8 = ucast (S ! unat (byte (Suc 0) w))"
  "sb32 S w 16 = ucast (S ! unat (byte 2 w))" "sb32 S w 24 = ucast (S ! unat (byte 3 w))"
  by (simp_all add: sb32_def idx_byte)

section \<open>A round is the round of the standard\<close>

lemma state_of_16: "state_of f = [f 0 0, f 1 0, f 2 0, f 3 0, f 0 1, f 1 1, f 2 1, f 3 1,
    f 0 2, f 1 2, f 2 2, f 3 2, f 0 3, f 1 3, f 2 3, f 3 3]"
proof -
  have "[0..<4] = [0, 1, 2, 3]" by (simp add: upt_rec)
  then show ?thesis by (simp add: state_of_def)
qed

definition sub_cols :: "(u8 \<Rightarrow> u8) \<Rightarrow> cols \<Rightarrow> cols" where
  "sub_cols f = (\<lambda>(x0, x1, x2, x3).
     (let g = \<lambda>w. le32 (f (byte 0 w)) (f (byte (Suc 0) w)) (f (byte 2 w)) (f (byte 3 w)) in (g x0, g x1, g x2, g x3)))"

definition shift_cols :: "cols \<Rightarrow> cols" where
  "shift_cols = (\<lambda>(x0, x1, x2, x3).
     (le32 (byte 0 x0) (byte (Suc 0) x1) (byte 2 x2) (byte 3 x3), le32 (byte 0 x1) (byte (Suc 0) x2) (byte 2 x3) (byte 3 x0),
      le32 (byte 0 x2) (byte (Suc 0) x3) (byte 2 x0) (byte 3 x1), le32 (byte 0 x3) (byte (Suc 0) x0) (byte 2 x1) (byte 3 x2)))"

definition unshift_cols :: "cols \<Rightarrow> cols" where
  "unshift_cols = (\<lambda>(x0, x1, x2, x3).
     (le32 (byte 0 x0) (byte (Suc 0) x3) (byte 2 x2) (byte 3 x1), le32 (byte 0 x1) (byte (Suc 0) x0) (byte 2 x3) (byte 3 x2),
      le32 (byte 0 x2) (byte (Suc 0) x1) (byte 2 x0) (byte 3 x3), le32 (byte 0 x3) (byte (Suc 0) x2) (byte 2 x1) (byte 3 x0)))"

definition mix_word :: "u32 \<Rightarrow> u32" where
  "mix_word w = (let a = byte 0 w; b = byte (Suc 0) w; c = byte 2 w; d = byte 3 w in
     le32 (gf_mult 2 a XOR gf_mult 3 b XOR c XOR d) (a XOR gf_mult 2 b XOR gf_mult 3 c XOR d)
          (a XOR b XOR gf_mult 2 c XOR gf_mult 3 d) (gf_mult 3 a XOR b XOR c XOR gf_mult 2 d))"

definition unmix_word :: "u32 \<Rightarrow> u32" where
  "unmix_word w = (let a = byte 0 w; b = byte (Suc 0) w; c = byte 2 w; d = byte 3 w in
     le32 (gf_mult 0x0E a XOR gf_mult 0x0B b XOR gf_mult 0x0D c XOR gf_mult 9 d)
          (gf_mult 9 a XOR gf_mult 0x0E b XOR gf_mult 0x0B c XOR gf_mult 0x0D d)
          (gf_mult 0x0D a XOR gf_mult 9 b XOR gf_mult 0x0E c XOR gf_mult 0x0B d)
          (gf_mult 0x0B a XOR gf_mult 0x0D b XOR gf_mult 9 c XOR gf_mult 0x0E d))"

definition map_cols :: "(u32 \<Rightarrow> u32) \<Rightarrow> cols \<Rightarrow> cols" where
  "map_cols f = (\<lambda>(x0, x1, x2, x3). (f x0, f x1, f x2, f x3))"

definition xor_cols :: "cols \<Rightarrow> cols \<Rightarrow> cols" where
  "xor_cols = (\<lambda>(x0, x1, x2, x3) (y0, y1, y2, y3). (x0 XOR y0, x1 XOR y1, x2 XOR y2, x3 XOR y3))"

definition key_cols :: "u32 list \<Rightarrow> nat \<Rightarrow> cols" where
  "key_cols RK p = (RK ! p, RK ! (p + 1), RK ! (p + 2), RK ! (p + 3))"

lemmas cols_defs = sub_cols_def shift_cols_def unshift_cols_def mix_word_def unmix_word_def map_cols_def
  xor_cols_def key_cols_def

lemma fround_cols: "AES_FROUND rom_tables RK (p, x) =
   (p + 4, xor_cols (key_cols RK p) (map_cols mix_word (shift_cols (sub_cols sbox x))))"
  by (cases x) (simp add: AES_FROUND_def idx_byte lookups cols_defs Let_def le32_xor xor.assoc)

lemma rround_cols: "AES_RROUND rom_tables RK (p, x) =
   (p + 4, xor_cols (key_cols RK p) (map_cols unmix_word (sub_cols isbox (unshift_cols x))))"
  by (cases x) (simp add: AES_RROUND_def idx_byte lookups cols_defs Let_def le32_xor xor.assoc)

lemma last_fround_cols: "last_fround rom_tables RK (p, x) = xor_cols (key_cols RK p) (shift_cols (sub_cols sbox x))"
  by (cases x) (simp add: last_fround_def sb32_lookups lookups cols_defs Let_def le32_eq_xor xor.assoc)

lemma last_rround_cols: "last_rround rom_tables RK (p, x) = xor_cols (key_cols RK p) (sub_cols isbox (unshift_cols x))"
  by (cases x) (simp add: last_rround_def sb32_lookups lookups cols_defs Let_def le32_eq_xor xor.assoc)

lemma unshift_shift [simp]: "unshift_cols (shift_cols x) = x"
  by (cases x) (simp add: cols_defs)

lemma isub_sub [simp]: "sub_cols isbox (sub_cols sbox x) = x"
  by (cases x) (simp add: cols_defs Let_def)

lemma xor_cols_self [simp]: "xor_cols k (xor_cols k x) = x"
  by (cases x; cases k) (simp add: cols_defs)

lemma unmix_mix [simp]: "unmix_word (mix_word w) = w"
  by (simp add: mix_word_def unmix_word_def Let_def gf_mult_consts xtime_xor ac_simps)

lemma unmix_xor: "unmix_word (v XOR w) = unmix_word v XOR unmix_word w"
  by (simp add: unmix_word_def Let_def byte_xor gf_mult_xor le32_xor ac_simps)


lemma put_block_bytes: "put_block (x0, x1, x2, x3) =
   [byte 0 x0, byte (Suc 0) x0, byte 2 x0, byte 3 x0, byte 0 x1, byte (Suc 0) x1, byte 2 x1, byte 3 x1,
    byte 0 x2, byte (Suc 0) x2, byte 2 x2, byte 3 x2, byte 0 x3, byte (Suc 0) x3, byte 2 x3, byte 3 x3]"
  by (simp add: put_block_def PUT_bytes)

lemma length_put_block [simp]: "length (put_block x) = 16"
  by (cases x) (simp add: put_block_bytes)

lemma sub_bytes_cols: "sub_bytes (put_block x) = put_block (sub_cols sbox x)"
  by (cases x) (simp add: sub_bytes_def put_block_bytes cols_defs Let_def)

lemma shift_rows_cols: "shift_rows (put_block x) = put_block (shift_cols x)"
  by (cases x) (simp add: shift_rows_def state_of_16 cell_def put_block_bytes cols_defs)

lemma mix_columns_cols: "mix_columns (put_block x) = put_block (map_cols mix_word x)"
  by (cases x) (simp add: mix_columns_def state_of_16 cell_def put_block_bytes cols_defs Let_def ac_simps)

definition cols_words :: "cols \<Rightarrow> u8 list list" where
  "cols_words = (\<lambda>(k0, k1, k2, k3). [PUT_UINT32_LE k0, PUT_UINT32_LE k1, PUT_UINT32_LE k2, PUT_UINT32_LE k3])"

lemma add_round_key_cols: "add_round_key (cols_words k) (put_block x) = put_block (xor_cols k x)"
  by (cases x; cases k)
     (simp add: add_round_key_def cols_words_def state_of_16 cell_def put_block_bytes PUT_bytes cols_defs byte_xor xor.commute)

definition enc_round :: "u32 list \<Rightarrow> nat \<Rightarrow> cols \<Rightarrow> cols" where
  "enc_round RK n x = xor_cols (key_cols RK (4 * n)) (map_cols mix_word (shift_cols (sub_cols sbox x)))"

lemma fround_iter: "(AES_FROUND rom_tables RK ^^ m) (4 * n, x) = (4 * (n + m), fold (enc_round RK) [n..<n + m] x)"
  by (induction m) (simp_all add: fround_cols enc_round_def)

lemma twice_iter: "((\<lambda>s. f (f s)) ^^ m) x = (f ^^ (2 * m)) x"
  by (induction m) simp_all

lemma frounds:
  assumes "even r" and "2 \<le> r"
  shows "AES_FROUND rom_tables RK (((\<lambda>s. AES_FROUND rom_tables RK (AES_FROUND rom_tables RK s)) ^^ (r div 2 - 1)) (4, x))
    = (4 * r, fold (enc_round RK) [1..<r] x)"
proof -
  have "Suc (2 * (r div 2 - 1)) = r - 1" using assms by (auto elim!: evenE)
  then show ?thesis
    using fround_iter [of "r - 1" RK 1 x] assms by (simp add: twice_iter flip: funpow.simps(2) [THEN fun_cong, unfolded o_apply])
qed

lemma length_16: "length xs = 16 \<longleftrightarrow> (\<exists>a b c d e f g h i j k l m n p q. xs = [a, b, c, d, e, f, g, h, i, j, k, l, m, n, p, q])"
  by (auto simp: length_Suc_conv numeral_eq_Suc)

definition get_block :: "u8 list \<Rightarrow> cols" where
  "get_block b = (le32 (b ! 0) (b ! 1) (b ! 2) (b ! 3), le32 (b ! 4) (b ! 5) (b ! 6) (b ! 7),
     le32 (b ! 8) (b ! 9) (b ! 10) (b ! 11), le32 (b ! 12) (b ! 13) (b ! 14) (b ! 15))"

lemma put_get_block: "length b = 16 \<Longrightarrow> put_block (get_block b) = b"
  by (auto simp: length_16 get_block_def put_block_bytes)

lemma get_put_block: "get_block (put_block x) = x"
  by (cases x) (simp add: get_block_def put_block_bytes)

lemma load_block_16: "length input = 16 \<Longrightarrow> load_block input RK = Inr (xor_cols (key_cols RK 0) (get_block input))"
  by (auto simp: load_block_def GET_UINT32_LE_def get_block_def key_cols_def xor_cols_def xor.commute numeral_eq_Suc)

lemma load_block_short: "length input < 16 \<Longrightarrow> load_block input RK = Inl OutOfBounds"
  by (simp add: load_block_def GET_UINT32_LE_def)

definition encrypt_cols :: "nat \<Rightarrow> u32 list \<Rightarrow> cols \<Rightarrow> cols" where
  "encrypt_cols r RK x = xor_cols (key_cols RK (4 * r)) (shift_cols (sub_cols sbox
     (fold (enc_round RK) [1..<r] (xor_cols (key_cols RK 0) x))))"

lemma internal_encrypt:
  assumes "rk ctx = Some 0" and "even (nr ctx)" and "2 \<le> nr ctx" and "length input = 16"
  shows "mbedtls_internal_aes_encrypt rom_tables ctx input =
    Inr (0, put_block (encrypt_cols (nr ctx) (buf ctx) (get_block input)))"
  using assms
  by (simp add: mbedtls_internal_aes_encrypt_def round_keys_def load_block_16 Let_def frounds last_fround_cols encrypt_cols_def del: One_nat_def)

section \<open>The encryption is the cipher of the standard\<close>

definition schedule_of :: "u32 list \<Rightarrow> u8 list list \<Rightarrow> bool" where
  "schedule_of RK w \<longleftrightarrow> w = map PUT_UINT32_LE (take (length w) RK) \<and> length w \<le> length RK"

lemma schedule_round_key:
  assumes "schedule_of RK w" and "4 * n + 4 \<le> length w"
  shows "round_key w n = cols_words (key_cols RK (4 * n))"
proof -
  have w: "w ! i = PUT_UINT32_LE (RK ! i)" if "i < length w" for i
    using assms(1) that unfolding schedule_of_def by (metis length_map nth_map nth_take)
  have "round_key w n = [w ! (4 * n), w ! (4 * n + 1), w ! (4 * n + 2), w ! (4 * n + 3)]"
    using assms by (intro nth_equalityI) (auto simp: round_key_def less_Suc_eq numeral_eq_Suc)
  then show ?thesis
    using assms by (simp add: w cols_words_def key_cols_def)
qed

lemma encrypt_cols_cipher:
  assumes "schedule_of RK w" and "length w = 4 * (r + 1)" and "0 < r"
  shows "put_block (encrypt_cols r RK x) = cipher r w (put_block x)"
proof -
  have k: "round_key w n = cols_words (key_cols RK (4 * n))" if "n \<le> r" for n
    using assms that by (intro schedule_round_key) auto
  have r: "put_block (enc_round RK n y) = cipher_round w n (put_block y)" if "n \<le> r" for n y
    using that by (simp add: cipher_round_def enc_round_def k sub_bytes_cols shift_rows_cols mix_columns_cols add_round_key_cols)
  have "put_block (fold (enc_round RK) [1..<n] y) = fold (cipher_round w) [1..<n] (put_block y)" if "1 \<le> n" "n \<le> r" for n y
    using that
  proof (induction n rule: dec_induct)
    case (step n)
    then show ?case by (simp add: r)
  qed simp
  then have f: "fold (cipher_round w) [1..<r] (put_block y) = put_block (fold (enc_round RK) [1..<r] y)" for y
    using assms by simp
  show ?thesis
    using assms k [of 0] by (simp add: f [unfolded One_nat_def] cipher_def encrypt_cols_def k sub_bytes_cols shift_rows_cols add_round_key_cols)
qed


section \<open>The key schedule of encryption is the key expansion of the standard\<close>

definition key_step :: "nat \<Rightarrow> nat \<Rightarrow> u32 list \<Rightarrow> u32 list" where
  "key_step nk n RK = RK[n := RK ! (n - nk) XOR
     (if n mod nk = 0 then rom_RCON ! (n div nk - 1) XOR rot_sub rom_tables (RK ! (n - 1))
      else if nk > 6 \<and> n mod nk = 4 then sub32 rom_tables (RK ! (n - 1)) else RK ! (n - 1))]"

definition words :: "nat \<Rightarrow> u32 list \<Rightarrow> u8 list list" where
  "words n RK = map PUT_UINT32_LE (take n RK)"

lemma PUT_xor: "PUT_UINT32_LE (v XOR w) = xor_word (PUT_UINT32_LE v) (PUT_UINT32_LE w)"
  by (simp add: PUT_bytes xor_word_def byte_xor)

lemma rot_sub_word: "PUT_UINT32_LE (rot_sub rom_tables w) = sub_word (rot_word (PUT_UINT32_LE w))"
  by (simp add: rot_sub_def sb32_lookups lookups le32_eq_xor PUT_bytes sub_word_def rot_word_def)

lemma sub32_word: "PUT_UINT32_LE (sub32 rom_tables w) = sub_word (PUT_UINT32_LE w)"
  by (simp add: sub32_def sb32_lookups lookups le32_eq_xor PUT_bytes sub_word_def)

lemma xtime_pow_numeral: "(xtime ^^ numeral n) b = xtime ((xtime ^^ pred_numeral n) b)"
  by (simp add: numeral_eq_Suc)

lemma rcon_word: "0 < j \<Longrightarrow> j \<le> 10 \<Longrightarrow> PUT_UINT32_LE (rom_RCON ! (j - 1)) = rcon j"
proof -
  assume "0 < j" "j \<le> 10"
  then have "j \<in> set [1..<11]" by auto
  then have "j \<in> {1, 2, 3, 4, 5, 6, 7, 8, 9, 10}"
    by (simp add: upt_rec numeral_eq_Suc del: set_upt)
  then show ?thesis
    by (auto simp: rcon_def rom_RCON_def PUT_UINT32_LE_def xtime_pow_numeral) (simp_all add: xtime_def)
qed

lemma key_step_words:
  assumes "nk \<le> n" and "0 < nk" and "n < length RK" and "n div nk \<le> 10"
  shows "words (Suc n) (key_step nk n RK) = words n RK @ [next_word nk (words n RK)]"
proof -
  have w: "words n RK ! (n - nk) = PUT_UINT32_LE (RK ! (n - nk))" "last (words n RK) = PUT_UINT32_LE (RK ! (n - 1))"
      "length (words n RK) = n"
    using assms by (auto simp: words_def) (cases n; simp add: take_Suc_conv_app_nth)
  have d: "0 < n div nk" using assms by (simp add: div_greater_zero_iff)
  have c: "xor_word a b = xor_word b a" for a b
    by (induction a b rule: list_induct2') (simp_all add: xor_word_def xor.commute)
  have "next_word nk (words n RK) = PUT_UINT32_LE (key_step nk n RK ! n)"
    using assms d rcon_word [of "n div nk"]
    by (simp add: next_word_def w Let_def key_step_def PUT_xor rot_sub_word sub32_word c)
  moreover have "words (Suc n) (key_step nk n RK) = words n RK @ [PUT_UINT32_LE (key_step nk n RK ! n)]"
    using assms by (simp add: words_def key_step_def take_Suc_conv_app_nth)
  ultimately show ?thesis by simp
qed

lemma expand_Suc: "expand nk (Suc m) w = expand nk m w @ [next_word nk (expand nk m w)]"
proof (induction m arbitrary: w)
  case (Suc m)
  show ?case
    using Suc [of "w @ [next_word nk w]"] by (simp only: expand.simps(2) [of nk "Suc m" w] expand.simps(2) [of nk m w])
qed simp

lemma key_step_length [simp]: "length (key_step nk n RK) = length RK"
  by (simp add: key_step_def)

lemma key_steps_length [simp]: "length (fold (key_step nk) ns RK) = length RK"
  by (induction ns arbitrary: RK) simp_all

lemma key_steps_words:
  assumes "0 < nk" and "nk + m \<le> length RK" and "nk + m \<le> 11 * nk"
  shows "words (nk + m) (fold (key_step nk) [nk..<nk + m] RK) = expand nk m (words nk RK)"
  using assms
proof (induction m)
  case (Suc m)
  let ?RK = "fold (key_step nk) [nk..<nk + m] RK"
  have "(nk + m) div nk \<le> 10"
    using Suc.prems by (simp add: less_mult_imp_div_less [of _ 11, simplified] flip: less_Suc_eq_le)
  then have "words (Suc (nk + m)) (key_step nk (nk + m) ?RK) = words (nk + m) ?RK @ [next_word nk (words (nk + m) ?RK)]"
    using Suc.prems by (intro key_step_words) auto
  then show ?case
    using Suc by (simp add: expand_Suc del: expand.simps(2))
qed simp

text \<open>Words past the ones the standard asks for do not disturb them.\<close>

lemma words_later: "\<forall>n\<in>set ns. m \<le> n \<Longrightarrow> words m (fold (key_step nk) ns RK) = words m RK"
  by (induction ns arbitrary: RK) (simp_all add: words_def key_step_def)


lemma rom_RCON_sel: "RCON rom_tables = rom_RCON"
  by (simp add: rom_tables_def)

lemma mod_off: "j < k \<Longrightarrow> (k * i + j) mod k = j" "j < k \<Longrightarrow> (k * i + j) div k = i" for k :: nat
  by simp_all

lemma expand128_steps: "expand128 rom_tables i RK = fold (key_step 4) [4 + 4 * i..<4 + 4 * Suc i] RK"
proof -
  have u: "[4 + 4 * i..<4 + 4 * Suc i] = [4 * i + 4, 4 * i + 5, 4 * i + 6, 4 * i + 7]"
    by (simp add: upt_rec)
  have m: "(4 * i + 4) mod 4 = 0" "(4 * i + 4) div 4 = Suc i" "(4 * i + 5) mod 4 = 1" "(4 * i + 6) mod 4 = 2"
      "(4 * i + 7) mod 4 = 3"
    by presburger+
  show ?thesis
    unfolding u by (simp add: expand128_def key_step_def m Let_def ac_simps rom_RCON_sel)
qed

lemma expand192_steps: "expand192 rom_tables i RK = fold (key_step 6) [6 + 6 * i..<6 + 6 * Suc i] RK"
proof -
  have u: "[6 + 6 * i..<6 + 6 * Suc i] = [6 * i + 6, 6 * i + 7, 6 * i + 8, 6 * i + 9, 6 * i + 10, 6 * i + 11]"
    by (simp add: upt_rec)
  have m: "(6 * i + 6) mod 6 = 0" "(6 * i + 6) div 6 = Suc i" "(6 * i + 7) mod 6 = 1" "(6 * i + 8) mod 6 = 2"
      "(6 * i + 9) mod 6 = 3" "(6 * i + 10) mod 6 = 4" "(6 * i + 11) mod 6 = 5"
    by presburger+
  show ?thesis
    unfolding u by (simp add: expand192_def key_step_def m Let_def ac_simps rom_RCON_sel)
qed

lemma expand256_steps: "expand256 rom_tables i RK = fold (key_step 8) [8 + 8 * i..<8 + 8 * Suc i] RK"
proof -
  have u: "[8 + 8 * i..<8 + 8 * Suc i] = [8 * i + 8, 8 * i + 9, 8 * i + 10, 8 * i + 11,
      8 * i + 12, 8 * i + 13, 8 * i + 14, 8 * i + 15]"
    by (simp add: upt_rec)
  have m: "(8 * i + 8) mod 8 = 0" "(8 * i + 8) div 8 = Suc i" "(8 * i + 9) mod 8 = 1" "(8 * i + 10) mod 8 = 2"
      "(8 * i + 11) mod 8 = 3" "(8 * i + 12) mod 8 = 4" "(8 * i + 13) mod 8 = 5" "(8 * i + 14) mod 8 = 6"
      "(8 * i + 15) mod 8 = 7"
    by presburger+
  show ?thesis
    unfolding u by (simp add: expand256_def key_step_def m Let_def ac_simps rom_RCON_sel)
qed

lemma fold_blocks:
  assumes "\<And>i xs. f i xs = fold g [k + k * i..<k + k * Suc i] xs"
  shows "fold f [0..<n] xs = fold g [k..<k + k * n] (xs :: 'a list)"
proof (induction n)
  case (Suc n)
  have "[k..<k + k * Suc n] = [k..<k + k * n] @ [k + k * n..<k + k * Suc n]"
    using upt_add_eq_append [of k "k + k * n" k] by (simp add: ac_simps)
  then show ?case using Suc assms by simp
qed simp

lemma load_key_ok:
  "\<forall>i\<in>set ns. 4 * i + 3 < length key \<Longrightarrow> load_key key ns RK =
    Inr (fold (\<lambda>i RK. RK[i := le32 (key ! (4 * i)) (key ! (4 * i + 1)) (key ! (4 * i + 2)) (key ! (4 * i + 3))]) ns RK)"
  by (induction ns arbitrary: RK) (simp_all add: GET_UINT32_LE_def)

lemma fold_update: "n \<le> length xs \<Longrightarrow> fold (\<lambda>i xs. xs[i := g i]) [0..<n] xs = map g [0..<n] @ drop n xs"
proof (induction n)
  case (Suc n)
  then show ?case using fill_step [of n xs g] by simp
qed simp

lemma load_key_words:
  assumes "4 * n \<le> length key" and "n \<le> length RK"
  shows "\<exists>RK'. load_key key [0..<n] RK = Inr RK' \<and> length RK' = length RK \<and> words n RK' = key_words n key"
proof -
  let ?g = "\<lambda>i. le32 (key ! (4 * i)) (key ! (4 * i + 1)) (key ! (4 * i + 2)) (key ! (4 * i + 3))"
  have t: "take 4 (drop (4 * i) key) = [key ! (4 * i), key ! (4 * i + 1), key ! (4 * i + 2), key ! (4 * i + 3)]" if "i < n" for i
    using that assms by (intro nth_equalityI) (auto simp: less_Suc_eq numeral_eq_Suc)
  have "load_key key [0..<n] RK = Inr (map ?g [0..<n] @ drop n RK)"
    using load_key_ok [of "[0..<n]" key RK] assms fold_update [of n RK ?g] by simp
  moreover have "words n (map ?g [0..<n] @ drop n RK) = key_words n key"
    by (simp add: words_def key_words_def t PUT_bytes)
  ultimately show ?thesis using assms by auto
qed

lemma load_key_short:
  "length key < 4 * (i + 1) \<Longrightarrow> i \<in> set ns \<Longrightarrow> load_key key ns RK = Inl OutOfBounds"
proof (induction ns arbitrary: RK)
  case (Cons n ns)
  then show ?case by (cases "4 * n + 3 < length key") (auto simp: GET_UINT32_LE_def)
qed simp


lemma key_schedule_words:
  assumes "0 < nk" and "nk + m \<le> N" and "nk + m \<le> length RK" and "nk + m \<le> 11 * nk"
  shows "words (nk + m) (fold (key_step nk) [nk..<N] RK) = expand nk m (words nk RK)"
proof -
  have "[nk..<N] = [nk..<nk + m] @ [nk + m..<N]"
    using assms upt_add_eq_append [of nk "nk + m" "N - (nk + m)"] by simp
  then show ?thesis
    using assms by (simp add: words_later key_steps_words)
qed

lemma length_expand: "length (expand nk m w) = length w + m"
  by (induction m arbitrary: w) simp_all

definition aes_ready :: "aes_globals \<Rightarrow> bool" where
  "aes_ready g \<longleftrightarrow> table_sizes (tbl g) \<and> (aes_init_done g \<longrightarrow> tbl g = rom_tables)"

definition rom_globals :: aes_globals where
  "rom_globals = \<lparr>tbl = rom_tables, aes_init_done = True\<rparr>"

lemma init_ready: "aes_ready g \<Longrightarrow> init_tables g = rom_globals"
  by (cases g) (auto simp: init_tables_def aes_ready_def rom_globals_def gen_tables_rom)

definition enc_key :: "nat \<Rightarrow> u8 list \<Rightarrow> mbedtls_aes_context \<Rightarrow> bool" where
  "enc_key bits key ctx \<longleftrightarrow> nr ctx = bits div 32 + 6 \<and> rk ctx = Some 0 \<and> length (buf ctx) = 68 \<and>
     schedule_of (buf ctx) (key_expansion (bits div 32) (bits div 32 + 6) key)"

lemma rounds_cases:
  assumes "rounds bits = Some r"
  obtains "bits = 128" "r = 10" | "bits = 192" "r = 12" | "bits = 256" "r = 14"
  using assms by (auto simp: rounds_def split: if_splits)

lemma schedule_ofI:
  assumes "words (nk + m) RK = expand nk m (key_words nk key)" and "nk + m \<le> length RK" and "m = 4 * (r + 1) - nk"
  shows "schedule_of RK (key_expansion nk r key)"
proof -
  have l: "length (key_expansion nk r key) = nk + m"
    using assms by (simp add: key_expansion_def length_expand key_words_def)
  show ?thesis
    using assms unfolding schedule_of_def l by (simp add: key_expansion_def words_def)
qed

lemma setkey_enc_ok:
  assumes "aes_ready g" and r: "rounds bits = Some r" and "bits \<le> 8 * length key" and "length (buf ctx) = 68"
  obtains ctx' where "mbedtls_aes_setkey_enc g ctx key bits = Inr (0, rom_globals, ctx')" and "enc_key bits key ctx'"
proof -
  let ?nk = "bits div 32"
  obtain RK where l: "load_key key [0..<?nk] (buf ctx) = Inr RK" "length RK = 68" "words ?nk RK = key_words ?nk key"
    using load_key_words [of ?nk key "buf ctx"] assms by (rule_tac rounds_cases [OF r]) auto
  from r show thesis
  proof (cases rule: rounds_cases)
    case 1
    have "fold (expand128 rom_tables) [0..<10] RK = fold (key_step 4) [4..<44] RK"
      using fold_blocks [OF expand128_steps, of 10] by simp
    then have "schedule_of (fold (expand128 rom_tables) [0..<10] RK) (key_expansion 4 10 key)"
      using key_schedule_words [of 4 40 44 RK] l 1 by (intro schedule_ofI [of 4 40]) simp_all
    then show thesis
      using that [of "ctx\<lparr>nr := 10, rk := Some 0, buf := fold (expand128 rom_tables) [0..<10] RK\<rparr>"] assms l 1
        fold_blocks [OF expand128_steps, of 10 RK]
      by (simp add: mbedtls_aes_setkey_enc_def init_ready Let_def enc_key_def rom_globals_def)
  next
    case 2
    have "fold (expand192 rom_tables) [0..<8] RK = fold (key_step 6) [6..<54] RK"
      using fold_blocks [OF expand192_steps, of 8] by simp
    then have "schedule_of (fold (expand192 rom_tables) [0..<8] RK) (key_expansion 6 12 key)"
      using key_schedule_words [of 6 46 54 RK] l 2 by (intro schedule_ofI [of 6 46]) simp_all
    then show thesis
      using that [of "ctx\<lparr>nr := 12, rk := Some 0, buf := fold (expand192 rom_tables) [0..<8] RK\<rparr>"] assms l 2
        fold_blocks [OF expand192_steps, of 8 RK]
      by (simp add: mbedtls_aes_setkey_enc_def init_ready Let_def enc_key_def rom_globals_def)
  next
    case 3
    have "fold (expand256 rom_tables) [0..<7] RK = fold (key_step 8) [8..<64] RK"
      using fold_blocks [OF expand256_steps, of 7] by simp
    then have "schedule_of (fold (expand256 rom_tables) [0..<7] RK) (key_expansion 8 14 key)"
      using key_schedule_words [of 8 52 64 RK] l 3 by (intro schedule_ofI [of 8 52]) simp_all
    then show thesis
      using that [of "ctx\<lparr>nr := 14, rk := Some 0, buf := fold (expand256 rom_tables) [0..<7] RK\<rparr>"] assms l 3
        fold_blocks [OF expand256_steps, of 7 RK]
      by (simp add: mbedtls_aes_setkey_enc_def init_ready Let_def enc_key_def rom_globals_def)
  qed
qed

lemma setkey_enc_short:
  assumes "rounds bits = Some r" and "8 * length key < bits"
  shows "mbedtls_aes_setkey_enc g ctx key bits = Inl OutOfBounds"
proof -
  have "\<exists>i. i < bits div 32 \<and> length key < 4 * (i + 1)"
    using assms by (intro exI [of _ "bits div 32 - 1"]) (auto elim!: rounds_cases)
  then obtain i where "i \<in> set [0..<bits div 32]" "length key < 4 * (i + 1)" by auto
  then show ?thesis
    using assms load_key_short [of key i] by (simp add: mbedtls_aes_setkey_enc_def Let_def)
qed

lemma ecb_encrypt:
  assumes "enc_key bits key ctx" and "rounds bits = Some r" and "length input = 16"
  shows "mbedtls_aes_crypt_ecb rom_tables ctx MBEDTLS_AES_ENCRYPT input = Inr (0, fips197 bits key input)"
proof -
  have r: "even r" "2 \<le> r" "r = bits div 32 + 6" "bits div 32 \<le> 4 * r" "nr ctx = r"
    using assms by (auto elim!: rounds_cases simp: enc_key_def)
  have l: "length (key_expansion (bits div 32) r key) = 4 * (r + 1)"
    using r by (simp add: key_expansion_def length_expand key_words_def)
  have "put_block (encrypt_cols r (buf ctx) (get_block input)) = fips197 bits key input"
    using encrypt_cols_cipher [OF _ l, of "buf ctx" "get_block input"] r assms
    by (simp add: enc_key_def fips197_def put_get_block)
  then show ?thesis
    using assms r internal_encrypt [of ctx input] by (simp add: mbedtls_aes_crypt_ecb_def enc_key_def)
qed


section \<open>The key schedule of decryption\<close>

lemma inv_mix_unmix: "inv_mix rom_tables w = unmix_word w"
  by (simp add: inv_mix_def idx_byte lookups unmix_word_def Let_def le32_xor ac_simps)

definition put4 :: "nat \<Rightarrow> cols \<Rightarrow> u32 list \<Rightarrow> u32 list" where
  "put4 p = (\<lambda>(k0, k1, k2, k3) RK. RK[p := k0, p + 1 := k1, p + 2 := k2, p + 3 := k3])"

lemma copy_block: "(copy_word SK ^^ 4) (p, s, RK) = (p + 4, s + 4, put4 p (key_cols SK s) RK)"
  by (simp add: numeral_eq_Suc copy_word_def put4_def key_cols_def)

lemma inv_block: "(inv_word rom_tables SK ^^ 4) (p, s, RK) = (p + 4, s + 4, put4 p (map_cols unmix_word (key_cols SK s)) RK)"
  by (simp add: numeral_eq_Suc inv_word_def inv_mix_unmix put4_def key_cols_def map_cols_def)

lemma length_put4 [simp]: "length (put4 p k RK) = length RK"
  by (cases k) (simp add: put4_def)

lemma key_cols_put4: "p + 4 \<le> length RK \<Longrightarrow> key_cols (put4 p k RK) p = k"
  by (cases k) (simp add: put4_def key_cols_def)

lemma key_cols_put4_other: "q + 4 \<le> p \<Longrightarrow> key_cols (put4 p k RK) q = key_cols RK q"
  by (cases k) (simp add: put4_def key_cols_def)

lemma inverse_loop:
  assumes "4 * r + 4 \<le> length RK" and "m \<le> r - 1"
  shows "\<exists>RK'. ((\<lambda>st. back8 ((inv_word rom_tables SK ^^ 4) st)) ^^ m) (back8 (4, 4 * r + 4, RK)) =
      (4 * (m + 1), 4 * (r - 1 - m), RK') \<and> length RK' = length RK \<and> key_cols RK' 0 = key_cols RK 0 \<and>
      (\<forall>n. 0 < n \<and> n \<le> m \<longrightarrow> key_cols RK' (4 * n) = map_cols unmix_word (key_cols SK (4 * (r - n))))"
  using assms(2)
proof (induction m)
  case 0
  then show ?case using assms by (simp add: back8_def)
next
  case (Suc m)
  then obtain RK' where i: "((\<lambda>st. back8 ((inv_word rom_tables SK ^^ 4) st)) ^^ m) (back8 (4, 4 * r + 4, RK)) =
      (4 * (m + 1), 4 * (r - 1 - m), RK')" "length RK' = length RK" "key_cols RK' 0 = key_cols RK 0"
      "\<forall>n. 0 < n \<and> n \<le> m \<longrightarrow> key_cols RK' (4 * n) = map_cols unmix_word (key_cols SK (4 * (r - n)))"
    by auto
  let ?k = "map_cols unmix_word (key_cols SK (4 * (r - 1 - m)))"
  have e: "4 * (r - 1 - m) + 4 - 8 = 4 * (r - 1 - Suc m)" using Suc.prems by simp
  let ?RK = "put4 (4 * (m + 1)) ?k RK'"
  have f: "((\<lambda>st. back8 ((inv_word rom_tables SK ^^ 4) st)) ^^ Suc m) (back8 (4, 4 * r + 4, RK)) =
      (4 * (Suc m + 1), 4 * (r - 1 - Suc m), ?RK)"
    using e by (simp add: i inv_block) (simp add: back8_def)
  have k: "key_cols ?RK (4 * (m + 1)) = ?k"
    using i(2) assms(1) Suc.prems by (intro key_cols_put4) simp
  have o: "key_cols ?RK (4 * n) = key_cols RK' (4 * n)" if "n \<le> m" for n
    using that by (intro key_cols_put4_other) simp
  have "key_cols ?RK (4 * n) = map_cols unmix_word (key_cols SK (4 * (r - n)))" if "0 < n" "n \<le> Suc m" for n
  proof (cases "n = Suc m")
    case True
    then show ?thesis using k by (simp add: add.commute)
  next
    case False
    then show ?thesis using that o i(4) by simp
  qed
  then show ?case
    using f o [of 0] i(2,3) by (intro exI [of _ ?RK]) (simp only: length_put4 mult_0_right le0 simp_thms HOL.all_simps, simp)
qed

lemma inverse_schedule_keys:
  assumes "4 * r + 4 \<le> length RK" and "2 \<le> r" and D: "D = inverse_schedule rom_tables r SK RK"
  shows "length D = length RK" and "key_cols D 0 = key_cols SK (4 * r)" and "key_cols D (4 * r) = key_cols SK 0"
    and "0 < n \<Longrightarrow> n < r \<Longrightarrow> key_cols D (4 * n) = map_cols unmix_word (key_cols SK (4 * (r - n)))"
proof -
  obtain RK' where i: "((\<lambda>st. back8 ((inv_word rom_tables SK ^^ 4) st)) ^^ (r - 1))
        (back8 (4, 4 * r + 4, put4 0 (key_cols SK (4 * r)) RK)) = (4 * r, 0, RK')" "length RK' = length RK"
      "key_cols RK' 0 = key_cols (put4 0 (key_cols SK (4 * r)) RK) 0"
      "\<forall>n. 0 < n \<and> n \<le> r - 1 \<longrightarrow> key_cols RK' (4 * n) = map_cols unmix_word (key_cols SK (4 * (r - n)))"
    using inverse_loop [of r "put4 0 (key_cols SK (4 * r)) RK" "r - 1" SK] assms by auto
  have D': "D = put4 (4 * r) (key_cols SK 0) RK'"
    using i(1) by (simp add: D inverse_schedule_def copy_block ac_simps)
  show "length D = length RK" "key_cols D 0 = key_cols SK (4 * r)" "key_cols D (4 * r) = key_cols SK 0"
    using i(2,3) assms(1,2) by (simp_all add: D' key_cols_put4 key_cols_put4_other)
  show "key_cols D (4 * n) = map_cols unmix_word (key_cols SK (4 * (r - n)))" if "0 < n" "n < r"
    using i(4) that by (simp add: D' key_cols_put4_other)
qed

section \<open>Decryption undoes encryption\<close>

definition inv_keys :: "nat \<Rightarrow> u32 list \<Rightarrow> u32 list \<Rightarrow> bool" where
  "inv_keys r E D \<longleftrightarrow> key_cols D 0 = key_cols E (4 * r) \<and> key_cols D (4 * r) = key_cols E 0 \<and>
     (\<forall>n. 0 < n \<and> n < r \<longrightarrow> key_cols D (4 * n) = map_cols unmix_word (key_cols E (4 * (r - n))))"

definition dec_round :: "u32 list \<Rightarrow> nat \<Rightarrow> cols \<Rightarrow> cols" where
  "dec_round RK n x = xor_cols (key_cols RK (4 * n)) (map_cols unmix_word (sub_cols isbox (unshift_cols x)))"

lemma rround_iter: "(AES_RROUND rom_tables RK ^^ m) (4 * n, x) = (4 * (n + m), fold (dec_round RK) [n..<n + m] x)"
  by (induction m) (simp_all add: rround_cols dec_round_def)

lemma rrounds:
  assumes "even r" and "2 \<le> r"
  shows "AES_RROUND rom_tables RK (((\<lambda>s. AES_RROUND rom_tables RK (AES_RROUND rom_tables RK s)) ^^ (r div 2 - 1)) (4, x))
    = (4 * r, fold (dec_round RK) [1..<r] x)"
proof -
  have "Suc (2 * (r div 2 - 1)) = r - 1" using assms by (auto elim!: evenE)
  then show ?thesis
    using rround_iter [of "r - 1" RK 1 x] assms by (simp add: twice_iter flip: funpow.simps(2) [THEN fun_cong, unfolded o_apply])
qed

definition decrypt_cols :: "nat \<Rightarrow> u32 list \<Rightarrow> cols \<Rightarrow> cols" where
  "decrypt_cols r RK x = xor_cols (key_cols RK (4 * r)) (sub_cols isbox (unshift_cols
     (fold (dec_round RK) [1..<r] (xor_cols (key_cols RK 0) x))))"

lemma internal_decrypt:
  assumes "rk ctx = Some 0" and "even (nr ctx)" and "2 \<le> nr ctx" and "length input = 16"
  shows "mbedtls_internal_aes_decrypt rom_tables ctx input =
    Inr (0, put_block (decrypt_cols (nr ctx) (buf ctx) (get_block input)))"
  using assms
  by (simp add: mbedtls_internal_aes_decrypt_def round_keys_def load_block_16 Let_def rrounds last_rround_cols decrypt_cols_def
        del: One_nat_def)

lemma map_unmix_xor: "map_cols unmix_word (xor_cols k x) = xor_cols (map_cols unmix_word k) (map_cols unmix_word x)"
  by (cases k; cases x) (simp add: map_cols_def xor_cols_def unmix_xor)

lemma map_unmix_mix [simp]: "map_cols unmix_word (map_cols mix_word x) = x"
  by (cases x) (simp add: map_cols_def)

lemma dec_enc_round:
  "key_cols D (4 * m) = map_cols unmix_word (key_cols E (4 * n)) \<Longrightarrow>
    dec_round D m (shift_cols (sub_cols sbox (enc_round E n y))) = shift_cols (sub_cols sbox y)"
  by (simp add: dec_round_def enc_round_def map_unmix_xor)

lemma decrypt_encrypt_cols:
  assumes "inv_keys r E D" and "2 \<le> r"
  shows "decrypt_cols r D (encrypt_cols r E x) = x"
proof -
  let ?s = "\<lambda>n. fold (enc_round E) [1..<n] (xor_cols (key_cols E 0) x)"
  let ?t = "\<lambda>n. fold (dec_round D) [1..<n] (xor_cols (key_cols D 0) (encrypt_cols r E x))"
  have "?t m = shift_cols (sub_cols sbox (?s (r + 1 - m)))" if "1 \<le> m" "m \<le> r" for m
    using that
  proof (induction m rule: dec_induct)
    case base
    then show ?case using assms by (simp add: encrypt_cols_def inv_keys_def)
  next
    case (step m)
    have p: "1 \<le> r - m" and d: "r + 1 - m = Suc (r - m)" using step by simp_all
    have s: "?s (r + 1 - m) = enc_round E (r - m) (?s (r - m))"
      unfolding d upt_Suc_append [OF p] by simp
    have "key_cols D (4 * m) = map_cols unmix_word (key_cols E (4 * (r - m)))"
      using assms step by (simp add: inv_keys_def)
    moreover have "?t m = shift_cols (sub_cols sbox (?s (r + 1 - m)))" and "r + 1 - Suc m = r - m"
      using step by simp_all
    moreover have "?t (Suc m) = dec_round D m (?t m)"
      using step by simp
    ultimately show ?case
      unfolding s by (simp add: dec_enc_round del: upt_Suc)
  qed
  from this [of r] show ?thesis
    using assms by (simp add: decrypt_cols_def inv_keys_def)
qed


definition dec_key :: "nat \<Rightarrow> u8 list \<Rightarrow> mbedtls_aes_context \<Rightarrow> bool" where
  "dec_key bits key ctx \<longleftrightarrow> nr ctx = bits div 32 + 6 \<and> rk ctx = Some 0 \<and> length (buf ctx) = 68 \<and>
     (\<exists>e. enc_key bits key e \<and> inv_keys (nr ctx) (buf e) (buf ctx))"

lemma setkey_dec_ok:
  assumes "aes_ready g" and r: "rounds bits = Some r" and "bits \<le> 8 * length key" and "length (buf ctx) = 68"
  obtains ctx' where "mbedtls_aes_setkey_dec g ctx key bits = Inr (0, rom_globals, ctx')" and "dec_key bits key ctx'"
proof -
  have i: "length (buf mbedtls_aes_init) = 68" by (simp add: mbedtls_aes_init_def)
  obtain e where e: "mbedtls_aes_setkey_enc g mbedtls_aes_init key bits = Inr (0, rom_globals, e)" "enc_key bits key e"
    by (rule setkey_enc_ok [OF assms(1,2,3) i])
  have n: "nr e = r" "4 * r + 4 \<le> 68" "2 \<le> r" "r = bits div 32 + 6"
    using e r by (auto elim!: rounds_cases simp: enc_key_def)
  let ?D = "inverse_schedule rom_tables r (buf e) (buf ctx)"
  have "inv_keys r (buf e) ?D" and "length ?D = 68"
    using inverse_schedule_keys [of r "buf ctx" ?D "buf e"] n assms(4) by (auto simp: inv_keys_def)
  then have "dec_key bits key (ctx\<lparr>rk := Some 0, nr := r, buf := ?D\<rparr>)"
    using e n by (auto simp: dec_key_def)
  then show thesis
    using that e n by (simp add: mbedtls_aes_setkey_dec_def Let_def rom_globals_def)
qed

lemma enc_key_schedule:
  assumes "enc_key bits key e" and "enc_key bits key e'" and "rounds bits = Some r" and "n \<le> r"
  shows "key_cols (buf e) (4 * n) = key_cols (buf e') (4 * n)"
proof -
  have r: "r = bits div 32 + 6" "bits div 32 \<le> 4 * r" using assms by (auto elim!: rounds_cases)
  have l: "length (key_expansion (bits div 32) r key) = 4 * (r + 1)"
    using r by (simp add: key_expansion_def length_expand key_words_def)
  have "cols_words (key_cols (buf e) (4 * n)) = cols_words (key_cols (buf e') (4 * n))"
    using assms r l schedule_round_key [of "buf e" "key_expansion (bits div 32) r key" n]
      schedule_round_key [of "buf e'" "key_expansion (bits div 32) r key" n] by (simp add: enc_key_def)
  then show ?thesis
    by (cases "key_cols (buf e) (4 * n)"; cases "key_cols (buf e') (4 * n)") (simp add: cols_words_def PUT_bytes; metis le32_bytes)
qed

lemma ecb_decrypt:
  assumes "enc_key bits key e" and "dec_key bits key d" and r: "rounds bits = Some r" and "length block = 16"
  shows "mbedtls_aes_crypt_ecb rom_tables d MBEDTLS_AES_DECRYPT (fips197 bits key block) = Inr (0, block)"
proof -
  have n: "even r" "2 \<le> r" "nr e = r" "nr d = r" "rk d = Some 0" "rk e = Some 0"
    using assms by (auto elim!: rounds_cases simp: enc_key_def dec_key_def)
  obtain e' where e': "enc_key bits key e'" "inv_keys r (buf e') (buf d)"
    using assms n by (auto simp: dec_key_def)
  then have "inv_keys r (buf e) (buf d)"
    using enc_key_schedule [OF e'(1) assms(1) r] by (simp add: inv_keys_def) (metis le0 mult_0_right order_refl diff_le_self)
  moreover have "fips197 bits key block = put_block (encrypt_cols r (buf e) (get_block block))"
    using ecb_encrypt [OF assms(1,3,4)] internal_encrypt [of e block] n assms(4) by (simp add: mbedtls_aes_crypt_ecb_def)
  ultimately show ?thesis
    using n assms(4) internal_decrypt [of d "fips197 bits key block"]
    by (simp add: mbedtls_aes_crypt_ecb_def MBEDTLS_AES_DECRYPT_def MBEDTLS_AES_ENCRYPT_def get_put_block
          decrypt_encrypt_cols put_get_block)
qed

end
