(* ===== verification/AesMain.thy ===== *)
theory AesMain
  imports AesCipher
begin

text \<open>
  What the AES code promises its callers (tables, encryption, decryption, refused key lengths), and
  \<open>my_test\<close>, the program of this repository that calls it.
\<close>


section \<open>The program\<close>

text \<open>
  \<open>my_test\<close>: the key is the string literal \<open>"12345678"\<close> (nine bytes with its terminator), passed where
  sixteen are read; \<open>past\<close> are the bytes of the memory after the literal that may be read. The buffer
  is encrypted and decrypted in place; the result is the pair of strings it prints.
\<close>

definition test_key :: "u8 list" where
  "test_key = [0x31, 0x32, 0x33, 0x34, 0x35, 0x36, 0x37, 0x38, 0]"

definition test_buf :: "u8 list" where
  "test_buf = [0x68, 0x65, 0x6C, 0x6C, 0x6F] @ replicate 59 0"

definition c_string :: "u8 list \<Rightarrow> u8 list" where
  "c_string b = takeWhile (\<lambda>c. c \<noteq> 0) b"

definition print_s :: "u8 list \<Rightarrow> u8 list res" where
  "print_s b = (if 0 \<in> set b then Inr (c_string b) else Inl OutOfBounds)"

definition my_test :: "aes_globals \<Rightarrow> mbedtls_aes_context \<Rightarrow> u8 list \<Rightarrow> (u8 list \<times> u8 list) res" where
  "my_test g ctx past =
     (let key = test_key @ past; buf = test_buf
      in rbind (mbedtls_aes_setkey_enc g ctx key 128) (\<lambda>(ret, g, ctx).
         rbind (mbedtls_aes_crypt_ecb (tbl g) ctx 1 (take 16 buf)) (\<lambda>(ret, out).
           let buf = out @ drop 16 buf
           in rbind (print_s buf) (\<lambda>s1.
         rbind (mbedtls_aes_setkey_dec g ctx key 128) (\<lambda>(ret, g, ctx).
         rbind (mbedtls_aes_crypt_ecb (tbl g) ctx 0 (take 16 buf)) (\<lambda>(ret, out).
           let buf = out @ drop 16 buf
           in rbind (print_s buf) (\<lambda>s2. Inr (s1, s2))))))))"

lemma crypt_ecb_modes: "mbedtls_aes_crypt_ecb t ctx 1 = mbedtls_aes_crypt_ecb t ctx MBEDTLS_AES_ENCRYPT"
    "mbedtls_aes_crypt_ecb t ctx 0 = mbedtls_aes_crypt_ecb t ctx MBEDTLS_AES_DECRYPT"
  by (simp_all add: MBEDTLS_AES_ENCRYPT_def MBEDTLS_AES_DECRYPT_def)

lemma rom_ready: "aes_ready rom_globals"
  by (simp add: aes_ready_def rom_globals_def table_sizes_def rom_tables_def)

lemma static_ready: "aes_ready \<lparr>tbl = static_tables, aes_init_done = False\<rparr>"
  by (simp add: aes_ready_def static_tables_def table_sizes_def)

lemma length_fips197: "length (fips197 bits key input) = 16"
  by (simp add: fips197_def cipher_def add_round_key_def state_of_16)

text \<open>C21: in a build without the tables in the file, \<open>aes_gen_tables\<close> computes exactly the tables the file
  holds for the other build. Their S-box is the one of FIPS 197 (the affine transform of the inverse in
  GF(2^8)), the reverse S-box its inverse, and the inverse is a true inverse in the field.\<close>

theorem aes_tables_standard:
  assumes "table_sizes t"
  shows "aes_gen_tables t = rom_tables \<and> FSb (aes_gen_tables t) ! unat b = sbox b \<and>
    RSb (aes_gen_tables t) ! unat (sbox b) = b \<and> (b \<noteq> 0 \<longrightarrow> gf_mult b (gf_inv b) = 1)"
  using assms
  by (simp_all add: gen_tables_rom lookups)
     (auto elim!: pow3_surj simp: gf_inv_pow3 gf_mult_powers pow3_255)

lemma static_sizes: "table_sizes static_tables"
  by (simp add: table_sizes_def static_tables_def)

theorem aes_tables_standard_witness:
  "aes_gen_tables static_tables = rom_tables \<and> gf_mult 0x53 (gf_inv 0x53) = 1"
  using aes_tables_standard [OF static_sizes, of "0x53"] by simp

text \<open>C3: encrypting a block with a key that \<open>mbedtls_aes_setkey_enc\<close> has expanded gives the cipher of
  FIPS 197 on that key and block: the look-ups in the combined tables and the unrolled key schedule
  compute SubBytes, ShiftRows, MixColumns, AddRoundKey and KeyExpansion.\<close>

theorem aes_encrypt_is_fips197:
  assumes "aes_ready g" and "bits = 128 \<or> bits = 192 \<or> bits = 256" and "bits \<le> 8 * length key"
    and "length (buf ctx) = 68" and "length block = 16"
  shows "\<exists>ctx'. mbedtls_aes_setkey_enc g ctx key bits = Inr (0, rom_globals, ctx') \<and>
    mbedtls_aes_crypt_ecb rom_tables ctx' MBEDTLS_AES_ENCRYPT block = Inr (0, fips197 bits key block)"
proof -
  obtain r where r: "rounds bits = Some r" using assms(2) by (auto simp: rounds_def)
  obtain ctx' where "mbedtls_aes_setkey_enc g ctx key bits = Inr (0, rom_globals, ctx')" "enc_key bits key ctx'"
    by (rule setkey_enc_ok [OF assms(1) r assms(3,4)])
  then show ?thesis using ecb_encrypt [OF _ r assms(5)] by blast
qed

lemma sbox_lookup: "sbox (numeral n) = rom_FSb ! unat (numeral n :: u8)" "sbox 0 = rom_FSb ! 0" "sbox 1 = rom_FSb ! 1"
  using rom_FSb_sbox [of 0] rom_FSb_sbox [of 1] rom_FSb_sbox [of "numeral n"] by simp_all

lemma u4: "[0..<4] = [0, 1, 2, 3]" by (simp add: upt_rec)

lemma expand_numeral: "expand nk (numeral m) w = expand nk (pred_numeral m) (w @ [next_word nk w])"
  by (simp add: numeral_eq_Suc)

lemma cipher_rounds_10: "[1..<10] = [1, 2, 3, 4, 5, 6, 7, 8, 9]"
  by (simp add: upt_rec)

lemmas fips_eval = fips197_def cipher_def key_expansion_def key_words_def u4 expand_numeral next_word_def Let_def
  xor_word_def sub_word_def rot_word_def rcon_def rom_FSb_nth rom_FSb_nth [unfolded One_nat_def] sbox_lookup
  cipher_round_def add_round_key_def mix_columns_def shift_rows_def sub_bytes_def state_of_16 cell_def round_key_def
  gf_mult_consts

text \<open>The example vector of appendix C.1 of the standard.\<close>

lemma fips197_vector:
  "fips197 128 [0, 1, 2, 3, 4, 5, 6, 7, 8, 9, 10, 11, 12, 13, 14, 15]
     [0x00, 0x11, 0x22, 0x33, 0x44, 0x55, 0x66, 0x77, 0x88, 0x99, 0xAA, 0xBB, 0xCC, 0xDD, 0xEE, 0xFF]
   = [0x69, 0xC4, 0xE0, 0xD8, 0x6A, 0x7B, 0x04, 0x30, 0xD8, 0xCD, 0xB7, 0x80, 0x70, 0xB4, 0xC5, 0x5A]"
  by (simp add: fips_eval xtime_pow_numeral xtime_def cipher_rounds_10 [unfolded One_nat_def])


definition static_globals :: aes_globals where
  "static_globals = \<lparr>tbl = static_tables, aes_init_done = False\<rparr>"

lemma static_globals_ready: "aes_ready static_globals"
  using static_ready by (simp add: static_globals_def)

lemma init_length: "length (buf mbedtls_aes_init) = 68"
  by (simp add: mbedtls_aes_init_def)

theorem aes_encrypt_is_fips197_witness:
  "\<exists>ctx'. mbedtls_aes_setkey_enc static_globals mbedtls_aes_init
       [0, 1, 2, 3, 4, 5, 6, 7, 8, 9, 10, 11, 12, 13, 14, 15] 128 = Inr (0, rom_globals, ctx') \<and>
     mbedtls_aes_crypt_ecb rom_tables ctx' MBEDTLS_AES_ENCRYPT
       [0x00, 0x11, 0x22, 0x33, 0x44, 0x55, 0x66, 0x77, 0x88, 0x99, 0xAA, 0xBB, 0xCC, 0xDD, 0xEE, 0xFF] =
     Inr (0, [0x69, 0xC4, 0xE0, 0xD8, 0x6A, 0x7B, 0x04, 0x30, 0xD8, 0xCD, 0xB7, 0x80, 0x70, 0xB4, 0xC5, 0x5A])"
  using aes_encrypt_is_fips197 [OF static_globals_ready _ _ init_length, of 128
      "[0, 1, 2, 3, 4, 5, 6, 7, 8, 9, 10, 11, 12, 13, 14, 15]"
      "[0x00, 0x11, 0x22, 0x33, 0x44, 0x55, 0x66, 0x77, 0x88, 0x99, 0xAA, 0xBB, 0xCC, 0xDD, 0xEE, 0xFF]"]
  by (simp add: fips197_vector)

text \<open>C12: for each key length, the context \<open>mbedtls_aes_setkey_dec\<close> makes from a key decrypts what the context
  \<open>mbedtls_aes_setkey_enc\<close> makes from the same key has encrypted.\<close>

theorem aes_decrypt_encrypt:
  assumes "aes_ready g" and "bits = 128 \<or> bits = 192 \<or> bits = 256" and "bits \<le> 8 * length key"
    and "length (buf ectx) = 68" and "length (buf dctx) = 68" and "length block = 16"
  shows "\<exists>e d c. mbedtls_aes_setkey_enc g ectx key bits = Inr (0, rom_globals, e) \<and>
    mbedtls_aes_setkey_dec g dctx key bits = Inr (0, rom_globals, d) \<and>
    mbedtls_aes_crypt_ecb rom_tables e MBEDTLS_AES_ENCRYPT block = Inr (0, c) \<and> length c = 16 \<and>
    mbedtls_aes_crypt_ecb rom_tables d MBEDTLS_AES_DECRYPT c = Inr (0, block)"
proof -
  obtain r where r: "rounds bits = Some r" using assms(2) by (auto simp: rounds_def)
  obtain e where e: "mbedtls_aes_setkey_enc g ectx key bits = Inr (0, rom_globals, e)" "enc_key bits key e"
    by (rule setkey_enc_ok [OF assms(1) r assms(3,4)])
  obtain d where d: "mbedtls_aes_setkey_dec g dctx key bits = Inr (0, rom_globals, d)" "dec_key bits key d"
    by (rule setkey_dec_ok [OF assms(1) r assms(3,5)])
  show ?thesis
    using e d ecb_encrypt [OF e(2) r assms(6)] ecb_decrypt [OF e(2) d(2) r assms(6)] length_fips197 by blast
qed

theorem aes_decrypt_encrypt_witness:
  "\<exists>e d c. mbedtls_aes_setkey_enc static_globals mbedtls_aes_init (replicate 32 7) 256 = Inr (0, rom_globals, e) \<and>
    mbedtls_aes_setkey_dec static_globals mbedtls_aes_init (replicate 32 7) 256 = Inr (0, rom_globals, d) \<and>
    mbedtls_aes_crypt_ecb rom_tables e MBEDTLS_AES_ENCRYPT (replicate 16 5) = Inr (0, c) \<and> length c = 16 \<and>
    mbedtls_aes_crypt_ecb rom_tables d MBEDTLS_AES_DECRYPT c = Inr (0, replicate 16 5)"
  using aes_decrypt_encrypt [OF static_globals_ready _ _ init_length init_length, of 256 "replicate 32 7" "replicate 16 5"]
  by simp

text \<open>C20: \<open>my_test\<close> reads the 9-byte key literal as a 16-byte key, so it leaves the object unless seven
  more bytes follow that may be read. Where they do, it prints the block encrypted under whatever key they make,
  cut at its first zero byte, and then \<open>hello\<close>: the decryption in place gives the buffer back.\<close>

theorem my_test_output:
  assumes "aes_ready g" and "length (buf ctx) = 68"
  shows "my_test g ctx past =
    (if length past < 7 then Inl OutOfBounds
     else Inr (c_string (fips197 128 (test_key @ past) (take 16 test_buf) @ replicate 48 0),
               [0x68, 0x65, 0x6C, 0x6C, 0x6F]))"
proof (cases "length past < 7")
  case True
  then show ?thesis
    using setkey_enc_short [of 128 10 "test_key @ past" g ctx]
    by (simp add: my_test_def Let_def rounds_def test_key_def)
next
  case False
  have r: "rounds 128 = Some 10" by (simp add: rounds_def)
  have k: "128 \<le> 8 * length (test_key @ past)" using False by (simp add: test_key_def)
  have b: "length (take 16 test_buf) = 16" "take 16 test_buf @ drop 16 test_buf = test_buf"
    by (simp add: test_buf_def) (rule append_take_drop_id)
  have p: "print_s (take 16 test_buf @ drop 16 test_buf) = Inr [0x68, 0x65, 0x6C, 0x6C, 0x6F]"
    unfolding b(2) by (simp add: print_s_def test_buf_def c_string_def)
  have z: "drop 16 test_buf = replicate 48 0" by (simp add: test_buf_def)
  obtain e where e: "mbedtls_aes_setkey_enc g ctx (test_key @ past) 128 = Inr (0, rom_globals, e)"
      "enc_key 128 (test_key @ past) e"
    by (rule setkey_enc_ok [OF assms(1) r k assms(2)])
  have "length (buf e) = 68" using e by (simp add: enc_key_def)
  then obtain d where d: "mbedtls_aes_setkey_dec rom_globals e (test_key @ past) 128 = Inr (0, rom_globals, d)"
      "dec_key 128 (test_key @ past) d"
    by (rule setkey_dec_ok [OF rom_ready r k])
  let ?c = "fips197 128 (test_key @ past) (take 16 test_buf)"
  have "tbl rom_globals = rom_tables" by (simp add: rom_globals_def)
  moreover have "take 16 (?c @ replicate 48 0) = ?c" "drop 16 (?c @ replicate 48 0) = replicate 48 0"
    by (simp_all add: length_fips197)
  moreover have "print_s (?c @ replicate 48 0) = Inr (c_string (?c @ replicate 48 0))"
    by (simp add: print_s_def)
  ultimately show ?thesis
    using False e(1) d(1) ecb_encrypt [OF e(2) r b(1)] ecb_decrypt [OF e(2) d(2) r b(1)] p
    by (simp add: my_test_def Let_def crypt_ecb_modes z del: take_append drop_append)
qed

theorem my_test_output_witness:
  "my_test static_globals mbedtls_aes_init [] = Inl OutOfBounds \<and>
   (\<exists>s. my_test static_globals mbedtls_aes_init (replicate 7 0) = Inr (s, [0x68, 0x65, 0x6C, 0x6C, 0x6F]))"
  using my_test_output [OF static_globals_ready init_length, of "[]"]
    my_test_output [OF static_globals_ready init_length, of "replicate 7 0"] by simp

text \<open>A key length other than 128, 192 and 256 is refused with nothing changed for encryption; for
  decryption the error is returned too, but the context's key pointer is already set: its schedule is not.\<close>

theorem aes_setkey_refuses:
  assumes "bits \<noteq> 128" and "bits \<noteq> 192" and "bits \<noteq> 256"
  shows "mbedtls_aes_setkey_enc g ctx key bits = Inr (MBEDTLS_ERR_AES_INVALID_KEY_LENGTH, g, ctx) \<and>
    mbedtls_aes_setkey_dec g ctx key bits = Inr (MBEDTLS_ERR_AES_INVALID_KEY_LENGTH, g, ctx\<lparr>rk := Some 0\<rparr>) \<and>
    (rk ctx = None \<longrightarrow> mbedtls_aes_crypt_ecb (tbl g) ctx mode block = Inl NullDeref)"
  using assms
  by (simp add: mbedtls_aes_setkey_enc_def mbedtls_aes_setkey_dec_def rounds_def MBEDTLS_ERR_AES_INVALID_KEY_LENGTH_def
      mbedtls_aes_crypt_ecb_def mbedtls_internal_aes_encrypt_def mbedtls_internal_aes_decrypt_def round_keys_def)

end
