(* ===== verification/Cbc.thy ===== *)
theory Cbc
  imports Prelude
begin

text \<open>
  Cipher block chaining, as the CBC functions of \<^verbatim>\<open>src/aes_test/library/aes.c\<close> and \<^verbatim>\<open>xtea.c\<close> do it: the loops of
  the two are the same code over blocks of 16 and of 8 bytes. \<open>block_pair\<close> is what a round trip needs of the cipher.
\<close>

type_synonym ecb = "u8 list \<Rightarrow> (int \<times> u8 list) res"

definition xor_bytes :: "u8 list \<Rightarrow> u8 list \<Rightarrow> u8 list" where
  "xor_bytes a b = map2 (XOR) a b"

text \<open>Blocks of \<open>sz\<close> bytes, of which \<open>n\<close> are left; the result is the initialisation vector for the next call and the
  output.\<close>

fun cbc_decrypt :: "nat \<Rightarrow> ecb \<Rightarrow> nat \<Rightarrow> u8 list \<Rightarrow> u8 list \<Rightarrow> (u8 list \<times> u8 list) res" where
  "cbc_decrypt sz ecb 0 iv input = Inr (iv, [])"
| "cbc_decrypt sz ecb (Suc n) iv input =
     (let temp = take sz input
      in rbind (ecb (take sz input)) (\<lambda>(ret, out).
         rbind (cbc_decrypt sz ecb n temp (drop sz input)) (\<lambda>(iv', rest). Inr (iv', xor_bytes out iv @ rest))))"

fun cbc_encrypt :: "nat \<Rightarrow> ecb \<Rightarrow> nat \<Rightarrow> u8 list \<Rightarrow> u8 list \<Rightarrow> (u8 list \<times> u8 list) res" where
  "cbc_encrypt sz ecb 0 iv input = Inr (iv, [])"
| "cbc_encrypt sz ecb (Suc n) iv input =
     rbind (ecb (xor_bytes (take sz input) iv)) (\<lambda>(ret, out).
       rbind (cbc_encrypt sz ecb n out (drop sz input)) (\<lambda>(iv', rest). Inr (iv', out @ rest)))"

lemma length_xor_bytes [simp]: "length (xor_bytes a b) = min (length a) (length b)"
  by (simp add: xor_bytes_def)

lemma xor_bytes_self: "length a = length b \<Longrightarrow> xor_bytes (xor_bytes a b) b = a"
  by (induction a b rule: list_induct2) (simp_all add: xor_bytes_def xor.assoc)

lemma nth_xor_bytes: "i < length a \<Longrightarrow> i < length b \<Longrightarrow> xor_bytes a b ! i = a ! i XOR b ! i"
  by (simp add: xor_bytes_def)

text \<open>Two block functions, the second of which undoes the first.\<close>

locale block_pair =
  fixes sz :: nat and enc :: ecb and dec :: ecb
  assumes undo: "length b = sz \<Longrightarrow> \<exists>c. enc b = Inr (0, c) \<and> length c = sz \<and> dec c = Inr (0, b)"
begin

lemma cbc_round_trip:
  "length iv = sz \<Longrightarrow> length input = sz * n \<Longrightarrow>
   \<exists>iv' out. cbc_encrypt sz enc n iv input = Inr (iv', out) \<and> length out = sz * n \<and> length iv' = sz \<and>
     cbc_decrypt sz dec n iv out = Inr (iv', input)"
proof (induction n arbitrary: iv input)
  case (Suc n)
  let ?p = "take sz input"
  have l: "length ?p = sz" using Suc.prems by simp
  obtain c where c: "enc (xor_bytes ?p iv) = Inr (0, c)" "length c = sz" "dec c = Inr (0, xor_bytes ?p iv)"
    using undo [of "xor_bytes ?p iv"] Suc.prems l by auto
  obtain iv' out where i: "cbc_encrypt sz enc n c (drop sz input) = Inr (iv', out)" "length out = sz * n" "length iv' = sz"
      "cbc_decrypt sz dec n c out = Inr (iv', drop sz input)"
    using Suc.IH [of c "drop sz input"] c(2) Suc.prems by auto
  have "xor_bytes (xor_bytes ?p iv) iv = ?p" using l Suc.prems(1) by (simp add: xor_bytes_self)
  then show ?case using c i by (simp add: Let_def)
qed simp

end

end
