(* ===== verification/AesModes.thy ===== *)
theory AesModes
  imports AesMain Cbc
begin

text \<open>
  The modes of operation of \<open>src/aes_test/library/aes.c\<close>: CBC, CFB128, CFB8, OFB, CTR and XTS.

  A call's \<open>input\<close> and \<open>length\<close> are one list here; the output is a list of the same length. The loops
  take the block function as an argument and the C functions apply them to \<open>mbedtls_aes_crypt_ecb\<close>.
  A mode that works in place (\<open>output == input\<close>) reads each byte before it writes it, so the lists
  model that use too. The initialisation vectors, counters and data units are lists of 16 bytes.
\<close>

definition MBEDTLS_ERR_AES_INVALID_INPUT_LENGTH :: int where "MBEDTLS_ERR_AES_INVALID_INPUT_LENGTH = - 0x22"
definition MBEDTLS_ERR_AES_BAD_INPUT_DATA :: int where "MBEDTLS_ERR_AES_BAD_INPUT_DATA = - 0x21"

section \<open>CBC\<close>

definition mbedtls_aes_crypt_cbc ::
    "aes_tables \<Rightarrow> mbedtls_aes_context \<Rightarrow> int \<Rightarrow> u8 list \<Rightarrow> u8 list \<Rightarrow> (int \<times> u8 list \<times> u8 list) res" where
  "mbedtls_aes_crypt_cbc t ctx mode iv input =
     (if length input mod 16 \<noteq> 0 then Inr (MBEDTLS_ERR_AES_INVALID_INPUT_LENGTH, iv, [])
      else let ecb = mbedtls_aes_crypt_ecb t ctx mode; n = length input div 16
        in rbind (if mode = MBEDTLS_AES_DECRYPT then cbc_decrypt 16 ecb n iv input else cbc_encrypt 16 ecb n iv input)
             (\<lambda>(iv, out). Inr (0, iv, out)))"

section \<open>CFB\<close>

text \<open>One turn of the loop on \<open>(n, iv)\<close> gives the output byte and the next state; \<open>bytewise\<close> is the loop.\<close>

fun bytewise :: "('s \<Rightarrow> u8 \<Rightarrow> ('s \<times> u8) res) \<Rightarrow> 's \<Rightarrow> u8 list \<Rightarrow> ('s \<times> u8 list) res" where
  "bytewise f s [] = Inr (s, [])"
| "bytewise f s (c # cs) = rbind (f s c) (\<lambda>(s, o1). rbind (bytewise f s cs) (\<lambda>(s, os). Inr (s, o1 # os)))"

definition next_block :: "ecb \<Rightarrow> nat \<times> u8 list \<Rightarrow> u8 list res" where
  "next_block ecb = (\<lambda>(n, iv). if n = 0 then rbind (ecb iv) (\<lambda>(ret, iv). Inr iv) else Inr iv)"

definition cfb128_decrypt :: "ecb \<Rightarrow> nat \<times> u8 list \<Rightarrow> u8 \<Rightarrow> ((nat \<times> u8 list) \<times> u8) res" where
  "cfb128_decrypt ecb = (\<lambda>(n, iv) c. rbind (next_block ecb (n, iv)) (\<lambda>iv.
     Inr (((n + 1) AND 0x0F, iv[n := c]), c XOR iv ! n)))"

definition cfb128_encrypt :: "ecb \<Rightarrow> nat \<times> u8 list \<Rightarrow> u8 \<Rightarrow> ((nat \<times> u8 list) \<times> u8) res" where
  "cfb128_encrypt ecb = (\<lambda>(n, iv) p. rbind (next_block ecb (n, iv)) (\<lambda>iv.
     let c = iv ! n XOR p in Inr (((n + 1) AND 0x0F, iv[n := c]), c)))"

definition mbedtls_aes_crypt_cfb128 ::
    "aes_tables \<Rightarrow> mbedtls_aes_context \<Rightarrow> int \<Rightarrow> nat \<Rightarrow> u8 list \<Rightarrow> u8 list \<Rightarrow> (int \<times> nat \<times> u8 list \<times> u8 list) res" where
  "mbedtls_aes_crypt_cfb128 t ctx mode iv_off iv input =
     (if iv_off > 15 then Inr (MBEDTLS_ERR_AES_BAD_INPUT_DATA, iv_off, iv, [])
      else let ecb = mbedtls_aes_crypt_ecb t ctx MBEDTLS_AES_ENCRYPT
        in rbind (bytewise (if mode = MBEDTLS_AES_DECRYPT then cfb128_decrypt ecb else cfb128_encrypt ecb) (iv_off, iv) input)
             (\<lambda>((n, iv), out). Inr (0, n, iv, out)))"

definition cfb8_step :: "ecb \<Rightarrow> int \<Rightarrow> u8 list \<Rightarrow> u8 \<Rightarrow> (u8 list \<times> u8) res" where
  "cfb8_step ecb mode iv c =
     (let ov = iv
      in rbind (ecb iv) (\<lambda>(ret, iv).
         let o1 = iv ! 0 XOR c;
             ov16 = (if mode = MBEDTLS_AES_DECRYPT then c else o1)
         in Inr (drop 1 ov @ [ov16], o1)))"

definition mbedtls_aes_crypt_cfb8 ::
    "aes_tables \<Rightarrow> mbedtls_aes_context \<Rightarrow> int \<Rightarrow> u8 list \<Rightarrow> u8 list \<Rightarrow> (int \<times> u8 list \<times> u8 list) res" where
  "mbedtls_aes_crypt_cfb8 t ctx mode iv input =
     rbind (bytewise (cfb8_step (mbedtls_aes_crypt_ecb t ctx MBEDTLS_AES_ENCRYPT) mode) iv input)
       (\<lambda>(iv, out). Inr (0, iv, out))"

section \<open>OFB and CTR\<close>

text \<open>The loop of OFB, which stops when the block function returns an error.\<close>

fun ofb_loop :: "ecb \<Rightarrow> nat \<Rightarrow> u8 list \<Rightarrow> u8 list \<Rightarrow> (int \<times> nat \<times> u8 list \<times> u8 list) res" where
  "ofb_loop ecb n iv [] = Inr (0, n, iv, [])"
| "ofb_loop ecb n iv (c # cs) =
     rbind (if n = 0 then ecb iv else Inr (0, iv)) (\<lambda>(ret, iv).
       if ret \<noteq> 0 then Inr (ret, n, iv, [])
       else rbind (ofb_loop ecb ((n + 1) AND 0x0F) iv cs) (\<lambda>(ret, n', iv', os). Inr (ret, n', iv', (c XOR iv ! n) # os)))"

definition mbedtls_aes_crypt_ofb ::
    "aes_tables \<Rightarrow> mbedtls_aes_context \<Rightarrow> nat \<Rightarrow> u8 list \<Rightarrow> u8 list \<Rightarrow> (int \<times> nat \<times> u8 list \<times> u8 list) res" where
  "mbedtls_aes_crypt_ofb t ctx iv_off iv input =
     (if iv_off > 15 then Inr (MBEDTLS_ERR_AES_BAD_INPUT_DATA, iv_off, iv, [])
      else rbind (ofb_loop (mbedtls_aes_crypt_ecb t ctx MBEDTLS_AES_ENCRYPT) iv_off iv input)
        (\<lambda>(ret, n, iv, out). Inr (ret, if ret = 0 then n else iv_off, iv, out)))"

text \<open>\<open>for (i = 16; i > 0; i--) if (++nonce_counter[i - 1] != 0) break;\<close>\<close>

fun ctr_inc :: "nat \<Rightarrow> u8 list \<Rightarrow> u8 list" where
  "ctr_inc 0 nc = nc"
| "ctr_inc (Suc i) nc = (let v = nc ! i + 1; nc = nc[i := v] in if v \<noteq> 0 then nc else ctr_inc i nc)"

definition ctr_step :: "ecb \<Rightarrow> nat \<times> u8 list \<times> u8 list \<Rightarrow> u8 \<Rightarrow> ((nat \<times> u8 list \<times> u8 list) \<times> u8) res" where
  "ctr_step ecb = (\<lambda>(n, nc, sb) c.
     rbind (if n = 0 then rbind (ecb nc) (\<lambda>(ret, sb). Inr (ctr_inc 16 nc, sb)) else Inr (nc, sb)) (\<lambda>(nc, sb).
       Inr (((n + 1) AND 0x0F, nc, sb), c XOR sb ! n)))"

definition mbedtls_aes_crypt_ctr ::
    "aes_tables \<Rightarrow> mbedtls_aes_context \<Rightarrow> nat \<Rightarrow> u8 list \<Rightarrow> u8 list \<Rightarrow> u8 list \<Rightarrow>
     (int \<times> nat \<times> u8 list \<times> u8 list \<times> u8 list) res" where
  "mbedtls_aes_crypt_ctr t ctx nc_off nc sb input =
     (if nc_off > 0x0F then Inr (MBEDTLS_ERR_AES_BAD_INPUT_DATA, nc_off, nc, sb, [])
      else rbind (bytewise (ctr_step (mbedtls_aes_crypt_ecb t ctx MBEDTLS_AES_ENCRYPT)) (nc_off, nc, sb) input)
        (\<lambda>((n, nc, sb), out). Inr (0, n, nc, sb, out)))"

section \<open>XTS\<close>

record mbedtls_aes_xts_context =
  crypt :: mbedtls_aes_context
  tweak :: mbedtls_aes_context

definition mbedtls_aes_xts_init :: mbedtls_aes_xts_context where
  "mbedtls_aes_xts_init = \<lparr>crypt = mbedtls_aes_init, tweak = mbedtls_aes_init\<rparr>"

definition mbedtls_aes_xts_free :: "mbedtls_aes_xts_context option \<Rightarrow> mbedtls_aes_xts_context option" where
  "mbedtls_aes_xts_free ctx = map_option (\<lambda>c. \<lparr>crypt = the (mbedtls_aes_free (Some (crypt c))),
     tweak = the (mbedtls_aes_free (Some (tweak c)))\<rparr>) ctx"

definition GET_UINT64_LE :: "u8 list \<Rightarrow> nat \<Rightarrow> u64" where
  "GET_UINT64_LE b i = push_bit 56 (ucast (b ! (i + 7))) OR push_bit 48 (ucast (b ! (i + 6))) OR
     push_bit 40 (ucast (b ! (i + 5))) OR push_bit 32 (ucast (b ! (i + 4))) OR push_bit 24 (ucast (b ! (i + 3))) OR
     push_bit 16 (ucast (b ! (i + 2))) OR push_bit 8 (ucast (b ! (i + 1))) OR ucast (b ! i)"

definition PUT_UINT64_LE :: "u64 \<Rightarrow> u8 list" where
  "PUT_UINT64_LE n = [ucast n, ucast (drop_bit 8 n), ucast (drop_bit 16 n), ucast (drop_bit 24 n), ucast (drop_bit 32 n),
     ucast (drop_bit 40 n), ucast (drop_bit 48 n), ucast (drop_bit 56 n)]"

definition mbedtls_gf128mul_x_ble :: "u8 list \<Rightarrow> u8 list" where
  "mbedtls_gf128mul_x_ble x =
     (let a = GET_UINT64_LE x 0; b = GET_UINT64_LE x 8;
          ra = push_bit 1 a XOR drop_bit (unat (8 - push_bit 3 (drop_bit 63 b))) 0x0087;
          rb = drop_bit 63 a OR push_bit 1 b
      in PUT_UINT64_LE ra @ PUT_UINT64_LE rb)"

text \<open>The loop over the \<open>n\<close> full blocks that are left. The result holds \<open>prev_tweak\<close>, \<open>tweak\<close>, the rest of the
  input and the blocks written.\<close>

fun xts_loop :: "ecb \<Rightarrow> int \<Rightarrow> nat \<Rightarrow> nat \<Rightarrow> u8 list \<Rightarrow> u8 list \<Rightarrow> u8 list \<Rightarrow>
    (int \<times> u8 list \<times> u8 list \<times> u8 list \<times> u8 list list) res" where
  "xts_loop ecb mode leftover 0 prev tw input = Inr (0, prev, tw, input, [])"
| "xts_loop ecb mode leftover (Suc n) prev tw input =
     (let (prev, tw) = (if leftover \<noteq> 0 \<and> mode = MBEDTLS_AES_DECRYPT \<and> n = 0 then (tw, mbedtls_gf128mul_x_ble tw) else (prev, tw))
      in rbind (ecb (xor_bytes (take 16 input) tw)) (\<lambda>(ret, tmp).
        if ret \<noteq> 0 then Inr (ret, prev, tw, input, [])
        else rbind (xts_loop ecb mode leftover n prev (mbedtls_gf128mul_x_ble tw) (drop 16 input)) (\<lambda>(ret, prev, tw', rest, blocks).
          Inr (ret, prev, tw', rest, xor_bytes tmp tw # blocks))))"

text \<open>The blocks and the bytes left over, after the tweak has been computed.\<close>

definition xts_data :: "ecb \<Rightarrow> int \<Rightarrow> u8 list \<Rightarrow> u8 list \<Rightarrow> (int \<times> u8 list) res" where
  "xts_data ecb mode tw input =
     (let blocks = length input div 16; leftover = length input mod 16
      in rbind (xts_loop ecb mode leftover blocks (replicate 16 0) tw input) (\<lambda>(ret, prev, tw, rest, out).
           if ret \<noteq> 0 \<or> leftover = 0 then Inr (ret, concat out)
           else let tk = (if mode = MBEDTLS_AES_DECRYPT then prev else tw);
                    prev_output = last out;
                    stolen = take leftover prev_output;
                    tmp = xor_bytes (take leftover rest @ drop leftover prev_output) tk
                in rbind (ecb tmp) (\<lambda>(ret, tmp).
                     if ret \<noteq> 0 then Inr (ret, concat out @ stolen)
                     else Inr (0, concat (butlast out) @ xor_bytes tmp tk @ stolen))))"

definition mbedtls_aes_crypt_xts ::
    "aes_tables \<Rightarrow> mbedtls_aes_xts_context \<Rightarrow> int \<Rightarrow> u8 list \<Rightarrow> u8 list \<Rightarrow> (int \<times> u8 list) res" where
  "mbedtls_aes_crypt_xts t ctx mode data_unit input =
     (if length input < 16 then Inr (MBEDTLS_ERR_AES_INVALID_INPUT_LENGTH, [])
      else if length input > 2 ^ 20 * 16 then Inr (MBEDTLS_ERR_AES_INVALID_INPUT_LENGTH, [])
      else rbind (mbedtls_aes_crypt_ecb t (tweak ctx) MBEDTLS_AES_ENCRYPT data_unit) (\<lambda>(ret, tw).
        if ret \<noteq> 0 then Inr (ret, [])
        else xts_data (mbedtls_aes_crypt_ecb t (crypt ctx) mode) mode tw input))"

definition mbedtls_aes_xts_decode_keys :: "u8 list \<Rightarrow> nat \<Rightarrow> (int \<times> u8 list \<times> nat \<times> u8 list \<times> nat)" where
  "mbedtls_aes_xts_decode_keys key keybits =
     (let half_keybits = keybits div 2; half_keybytes = half_keybits div 8
      in if keybits = 256 \<or> keybits = 512 then (0, key, half_keybits, drop half_keybytes key, half_keybits)
         else (MBEDTLS_ERR_AES_INVALID_KEY_LENGTH, [], 0, [], 0))"

definition mbedtls_aes_xts_setkey_enc ::
    "aes_globals \<Rightarrow> mbedtls_aes_xts_context \<Rightarrow> u8 list \<Rightarrow> nat \<Rightarrow> (int \<times> aes_globals \<times> mbedtls_aes_xts_context) res" where
  "mbedtls_aes_xts_setkey_enc g ctx key keybits =
     (let (ret, key1, key1bits, key2, key2bits) = mbedtls_aes_xts_decode_keys key keybits
      in if ret \<noteq> 0 then Inr (ret, g, ctx)
         else rbind (mbedtls_aes_setkey_enc g (tweak ctx) key2 key2bits) (\<lambda>(ret, g, c).
           let ctx = ctx\<lparr>tweak := c\<rparr>
           in if ret \<noteq> 0 then Inr (ret, g, ctx)
              else rbind (mbedtls_aes_setkey_enc g (crypt ctx) key1 key1bits) (\<lambda>(ret, g, c). Inr (ret, g, ctx\<lparr>crypt := c\<rparr>))))"

definition mbedtls_aes_xts_setkey_dec ::
    "aes_globals \<Rightarrow> mbedtls_aes_xts_context \<Rightarrow> u8 list \<Rightarrow> nat \<Rightarrow> (int \<times> aes_globals \<times> mbedtls_aes_xts_context) res" where
  "mbedtls_aes_xts_setkey_dec g ctx key keybits =
     (let (ret, key1, key1bits, key2, key2bits) = mbedtls_aes_xts_decode_keys key keybits
      in if ret \<noteq> 0 then Inr (ret, g, ctx)
         else rbind (mbedtls_aes_setkey_enc g (tweak ctx) key2 key2bits) (\<lambda>(ret, g, c).
           let ctx = ctx\<lparr>tweak := c\<rparr>
           in if ret \<noteq> 0 then Inr (ret, g, ctx)
              else rbind (mbedtls_aes_setkey_dec g (crypt ctx) key1 key1bits) (\<lambda>(ret, g, c). Inr (ret, g, ctx\<lparr>crypt := c\<rparr>))))"


section \<open>Lists of bytes\<close>

lemma and_15: "(n :: nat) AND 0x0F = n mod 16"
  using take_bit_eq_mask [of 4 n] by (simp add: mask_numeral take_bit_eq_mod)

abbreviation gf_x :: "u8 list \<Rightarrow> u8 list" where
  "gf_x \<equiv> mbedtls_gf128mul_x_ble"

lemma length_gf_x [simp]: "length (gf_x x) = 16"
  by (simp add: mbedtls_gf128mul_x_ble_def PUT_UINT64_LE_def Let_def)

lemma length_gf_x_pow: "length tw = 16 \<Longrightarrow> length ((gf_x ^^ n) tw) = 16"
  by (induction n) simp_all

text \<open>A block of XTS, and the blocks of a list.\<close>

definition xts_block :: "(u8 list \<Rightarrow> u8 list) \<Rightarrow> u8 list \<Rightarrow> u8 list \<Rightarrow> u8 list" where
  "xts_block f tw b = xor_bytes (f (xor_bytes b tw)) tw"

fun xts_blocks :: "(u8 list \<Rightarrow> u8 list) \<Rightarrow> nat \<Rightarrow> u8 list \<Rightarrow> u8 list \<Rightarrow> u8 list list" where
  "xts_blocks f 0 tw input = []"
| "xts_blocks f (Suc n) tw input = xts_block f tw (take 16 input) # xts_blocks f n (gf_x tw) (drop 16 input)"

lemma xts_blocks_snoc:
  "xts_blocks f (Suc n) tw input = xts_blocks f n tw input @ [xts_block f ((gf_x ^^ n) tw) (take 16 (drop (16 * n) input))]"
proof (induction n arbitrary: tw input)
  case (Suc n)
  have "16 + 16 * n = 16 * Suc n" by simp
  then show ?case
    using Suc [of "gf_x tw" "drop 16 input"]
    by (simp only: xts_blocks.simps(2) [of f "Suc n"] xts_blocks.simps(2) [of f n tw input] append_Cons drop_drop
        funpow_Suc_right o_apply ac_simps)
qed simp

lemma length_xts_blocks: "(\<And>b. length (f b) = 16) \<Longrightarrow> length tw = 16 \<Longrightarrow> length (concat (xts_blocks f n tw input)) = 16 * n"
  by (induction n arbitrary: tw input) (simp_all add: xts_block_def)

lemma xts_blocks_take: "m = 16 * n \<Longrightarrow> xts_blocks f n tw (take m input) = xts_blocks f n tw input"
  by (induction n arbitrary: m tw input) (simp_all add: min_def drop_take)

section \<open>What a mode needs of the block cipher\<close>

text \<open>
  A block cipher under a key: \<open>enc k c\<close> says that the context \<open>c\<close> encrypts under the key \<open>k\<close>, \<open>dec k c\<close> that
  it decrypts, and \<open>cipher k\<close> is the function on blocks.
\<close>

locale block_cipher =
  fixes ecb :: "'c \<Rightarrow> int \<Rightarrow> ecb" and enc :: "'k \<Rightarrow> 'c \<Rightarrow> bool" and dec :: "'k \<Rightarrow> 'c \<Rightarrow> bool"
    and cipher :: "'k \<Rightarrow> u8 list \<Rightarrow> u8 list"
  assumes encrypts: "enc k c \<Longrightarrow> length b = 16 \<Longrightarrow> ecb c MBEDTLS_AES_ENCRYPT b = Inr (0, cipher k b)"
    and decrypts: "dec k d \<Longrightarrow> length b = 16 \<Longrightarrow> ecb d MBEDTLS_AES_DECRYPT (cipher k b) = Inr (0, b)"
    and cipher_length: "length (cipher k b) = 16"
begin

lemma inverse: "enc k c \<Longrightarrow> dec k d \<Longrightarrow> block_pair 16 (ecb c MBEDTLS_AES_ENCRYPT) (ecb d MBEDTLS_AES_DECRYPT)"
  by unfold_locales (auto simp: encrypts decrypts cipher_length)

lemmas cbc_round_trip = block_pair.cbc_round_trip [OF inverse]

lemma next_block_ok:
  "enc k c \<Longrightarrow> length iv = 16 \<Longrightarrow>
    next_block (ecb c MBEDTLS_AES_ENCRYPT) (n, iv) = Inr (if n = 0 then cipher k iv else iv)"
  by (simp add: next_block_def encrypts)

lemma cfb128_step_ok:
  assumes "enc k c" and "length iv = 16"
    and "w = (if n = 0 then cipher k iv else iv)"
  shows "cfb128_encrypt (ecb c MBEDTLS_AES_ENCRYPT) (n, iv) p = Inr (((n + 1) mod 16, w[n := w ! n XOR p]), w ! n XOR p)"
    and "cfb128_decrypt (ecb c MBEDTLS_AES_ENCRYPT) (n, iv) p = Inr (((n + 1) mod 16, w[n := p]), w ! n XOR p)"
  using assms by (simp_all add: cfb128_encrypt_def cfb128_decrypt_def next_block_ok and_15 Let_def xor.commute)

lemma cfb8_step_ok:
  assumes "enc k c" and "length iv = 16"
  shows "cfb8_step (ecb c MBEDTLS_AES_ENCRYPT) MBEDTLS_AES_ENCRYPT iv p =
      Inr (drop 1 iv @ [cipher k iv ! 0 XOR p], cipher k iv ! 0 XOR p)"
    and "cfb8_step (ecb c MBEDTLS_AES_ENCRYPT) MBEDTLS_AES_DECRYPT iv p = Inr (drop 1 iv @ [p], cipher k iv ! 0 XOR p)"
  using assms encrypts [OF assms(1)]
  by (simp_all add: cfb8_step_def Let_def MBEDTLS_AES_ENCRYPT_def MBEDTLS_AES_DECRYPT_def)

lemma ctr_step_ok:
  assumes "enc k c" and "length nc = 16"
  shows "ctr_step (ecb c MBEDTLS_AES_ENCRYPT) (n, nc, sb) p =
    Inr (((n + 1) mod 16, if n = 0 then ctr_inc 16 nc else nc, if n = 0 then cipher k nc else sb),
      p XOR (if n = 0 then cipher k nc else sb) ! n)"
  using assms encrypts [OF assms(1)] by (simp add: ctr_step_def and_15)

lemma cfb128_round_trip:
  assumes "enc k c" and "length iv = 16" and "n < 16"
  shows "\<exists>n' iv' out. bytewise (cfb128_encrypt (ecb c MBEDTLS_AES_ENCRYPT)) (n, iv) input = Inr ((n', iv'), out) \<and>
    length out = length input \<and> n' < 16 \<and> length iv' = 16 \<and>
    bytewise (cfb128_decrypt (ecb c MBEDTLS_AES_ENCRYPT)) (n, iv) out = Inr ((n', iv'), input)"
  using assms(2,3)
proof (induction input arbitrary: n iv)
  case (Cons p ps)
  let ?iv = "if n = 0 then cipher k iv else iv"
  let ?o = "?iv ! n XOR p"
  have "length (?iv[n := ?o]) = 16" "(n + 1) mod 16 < 16" using Cons.prems by (simp_all add: cipher_length)
  then obtain n' iv' out where "bytewise (cfb128_encrypt (ecb c MBEDTLS_AES_ENCRYPT)) ((n + 1) mod 16, ?iv[n := ?o]) ps = Inr ((n', iv'), out)"
      "length out = length ps" "n' < 16" "length iv' = 16"
      "bytewise (cfb128_decrypt (ecb c MBEDTLS_AES_ENCRYPT)) ((n + 1) mod 16, ?iv[n := ?o]) out = Inr ((n', iv'), ps)"
    using Cons.IH by blast
  then show ?case
    using Cons.prems by (simp add: cfb128_step_ok [OF assms(1)])
qed simp

lemma cfb8_round_trip:
  assumes "enc k c" and "length iv = 16"
  shows "\<exists>iv' out. bytewise (cfb8_step (ecb c MBEDTLS_AES_ENCRYPT) MBEDTLS_AES_ENCRYPT) iv input = Inr (iv', out) \<and>
    length out = length input \<and> length iv' = 16 \<and>
    bytewise (cfb8_step (ecb c MBEDTLS_AES_ENCRYPT) MBEDTLS_AES_DECRYPT) iv out = Inr (iv', input)"
  using assms(2)
proof (induction input arbitrary: iv)
  case (Cons p ps)
  let ?o = "cipher k iv ! 0 XOR p"
  obtain iv' out where "bytewise (cfb8_step (ecb c MBEDTLS_AES_ENCRYPT) MBEDTLS_AES_ENCRYPT) (drop 1 iv @ [?o]) ps = Inr (iv', out)"
      "length out = length ps" "length iv' = 16"
      "bytewise (cfb8_step (ecb c MBEDTLS_AES_ENCRYPT) MBEDTLS_AES_DECRYPT) (drop 1 iv @ [?o]) out = Inr (iv', ps)"
    using Cons.IH [of "drop 1 iv @ [?o]"] Cons.prems by auto
  then show ?case
    using Cons.prems by (simp add: cfb8_step_ok [OF assms(1)])
qed simp

lemma ofb_twice:
  assumes "enc k c" and "length iv = 16" and "n < 16"
  shows "\<exists>n' iv' out. ofb_loop (ecb c MBEDTLS_AES_ENCRYPT) n iv input = Inr (0, n', iv', out) \<and>
    length out = length input \<and> n' < 16 \<and> length iv' = 16 \<and>
    ofb_loop (ecb c MBEDTLS_AES_ENCRYPT) n iv out = Inr (0, n', iv', input)"
  using assms(2,3)
proof (induction input arbitrary: n iv)
  case (Cons p ps)
  let ?iv = "if n = 0 then cipher k iv else iv"
  have "length ?iv = 16" "(n + 1) mod 16 < 16" using Cons.prems by (simp_all add: cipher_length)
  then obtain n' iv' out where "ofb_loop (ecb c MBEDTLS_AES_ENCRYPT) ((n + 1) mod 16) ?iv ps = Inr (0, n', iv', out)"
      "length out = length ps" "n' < 16" "length iv' = 16"
      "ofb_loop (ecb c MBEDTLS_AES_ENCRYPT) ((n + 1) mod 16) ?iv out = Inr (0, n', iv', ps)"
    using Cons.IH by blast
  then show ?case
    using Cons.prems encrypts [OF assms(1), of iv] by (cases "n = 0") (simp_all add: and_15 xor.assoc)
qed simp

lemma ctr_twice:
  assumes "enc k c" and "length nc = 16" and "length sb = 16" and "n < 16"
  shows "\<exists>s out. bytewise (ctr_step (ecb c MBEDTLS_AES_ENCRYPT)) (n, nc, sb) input = Inr (s, out) \<and>
    length out = length input \<and> bytewise (ctr_step (ecb c MBEDTLS_AES_ENCRYPT)) (n, nc, sb) out = Inr (s, input)"
  using assms(2-4)
proof (induction input arbitrary: n nc sb)
  case (Cons p ps)
  have ci: "length (ctr_inc i xs) = length xs" for i xs
    by (induction i xs rule: ctr_inc.induct) (simp_all add: Let_def)
  let ?nc = "if n = 0 then ctr_inc 16 nc else nc" and ?sb = "if n = 0 then cipher k nc else sb"
  have "length ?nc = 16" "length ?sb = 16" "(n + 1) mod 16 < 16" using Cons.prems by (simp_all add: cipher_length ci)
  then obtain s out where "bytewise (ctr_step (ecb c MBEDTLS_AES_ENCRYPT)) ((n + 1) mod 16, ?nc, ?sb) ps = Inr (s, out)"
      "length out = length ps" "bytewise (ctr_step (ecb c MBEDTLS_AES_ENCRYPT)) ((n + 1) mod 16, ?nc, ?sb) out = Inr (s, ps)"
    using Cons.IH by blast
  then show ?case
    using Cons.prems by (cases s) (simp add: ctr_step_ok [OF assms(1)] xor.assoc)
qed simp

lemma xts_encrypt_loop:
  assumes "enc k c" and "length tw = 16" and "16 * n \<le> length input"
  shows "xts_loop (ecb c MBEDTLS_AES_ENCRYPT) MBEDTLS_AES_ENCRYPT lo n prev tw input =
    Inr (0, prev, (gf_x ^^ n) tw, drop (16 * n) input, xts_blocks (cipher k) n tw input)"
  using assms(2,3)
proof (induction n arbitrary: tw input)
  case (Suc n)
  have m: "MBEDTLS_AES_ENCRYPT \<noteq> MBEDTLS_AES_DECRYPT" by (simp add: MBEDTLS_AES_ENCRYPT_def MBEDTLS_AES_DECRYPT_def)
  have "ecb c MBEDTLS_AES_ENCRYPT (xor_bytes (take 16 input) tw) = Inr (0, cipher k (xor_bytes (take 16 input) tw))"
    using Suc.prems by (intro encrypts [OF assms(1)]) simp
  then show ?case
    using Suc m by (simp add: xts_block_def funpow_swap1 ac_simps)
qed simp

lemma xts_decrypt_block:
  assumes "dec k d" and "length tw = 16" and "length b = 16"
  shows "ecb d MBEDTLS_AES_DECRYPT (xor_bytes (xts_block (cipher k) tw b) tw) = Inr (0, xor_bytes b tw)"
    and "xor_bytes (xor_bytes b tw) tw = b" and "length (xts_block (cipher k) tw b) = 16"
  using assms by (simp_all add: xts_block_def xor_bytes_self cipher_length decrypts)

lemma xts_decrypt_loop:
  assumes "dec k d" and "length tw = 16" and "length input = 16 * n"
  shows "\<exists>out. xts_loop (ecb d MBEDTLS_AES_DECRYPT) MBEDTLS_AES_DECRYPT 0 n prev tw (concat (xts_blocks (cipher k) n tw input)) =
    Inr (0, prev, (gf_x ^^ n) tw, [], out) \<and> concat out = input"
  using assms(2,3)
proof (induction n arbitrary: tw input)
  case (Suc n)
  obtain out where "xts_loop (ecb d MBEDTLS_AES_DECRYPT) MBEDTLS_AES_DECRYPT 0 n prev (gf_x tw)
      (concat (xts_blocks (cipher k) n (gf_x tw) (drop 16 input))) = Inr (0, prev, (gf_x ^^ n) (gf_x tw), [], out)"
      "concat out = drop 16 input"
    using Suc.IH [of "gf_x tw" "drop 16 input"] Suc.prems by auto
  then show ?case
    using Suc.prems xts_decrypt_block [OF assms(1) Suc.prems(1), of "take 16 input"] by (simp add: funpow_swap1)
qed simp

lemma xts_decrypt_last:
  assumes "dec k d" and "length tw = 16" and "length input = 16 * n" and "length x = 16" and "lo \<noteq> 0"
  shows "\<exists>out. xts_loop (ecb d MBEDTLS_AES_DECRYPT) MBEDTLS_AES_DECRYPT lo (Suc n) prev tw
      (concat (xts_blocks (cipher k) n tw input) @ xts_block (cipher k) ((gf_x ^^ Suc n) tw) x @ rest) =
    Inr (0, (gf_x ^^ n) tw, (gf_x ^^ (n + 2)) tw, rest, out @ [x]) \<and> concat out = input"
  using assms(2,3)
proof (induction n arbitrary: tw input prev)
  case 0
  then show ?case
    using xts_decrypt_block [OF assms(1), of "gf_x tw" x] assms by simp
next
  case (Suc n)
  obtain out where "xts_loop (ecb d MBEDTLS_AES_DECRYPT) MBEDTLS_AES_DECRYPT lo (Suc n) prev (gf_x tw)
      (concat (xts_blocks (cipher k) n (gf_x tw) (drop 16 input)) @ xts_block (cipher k) ((gf_x ^^ Suc n) (gf_x tw)) x @ rest) =
      Inr (0, (gf_x ^^ n) (gf_x tw), (gf_x ^^ (n + 2)) (gf_x tw), rest, out @ [x])" "concat out = drop 16 input"
    using Suc.IH [of "gf_x tw" "drop 16 input"] Suc.prems by auto
  then show ?case
    using Suc.prems xts_decrypt_block [OF assms(1) Suc.prems(1), of "take 16 input"]
    by (intro exI [of _ "take 16 input # out"])
       (simp add: funpow_swap1 xts_loop.simps(2) [of _ _ _ "Suc n"] del: xts_loop.simps(2))
qed

lemma xts_whole_blocks:
  assumes "enc k c" and "dec k d" and "length tw = 16" and "length input = 16 * n"
  shows "\<exists>out. xts_data (ecb c MBEDTLS_AES_ENCRYPT) MBEDTLS_AES_ENCRYPT tw input = Inr (0, out) \<and> length out = length input \<and>
    xts_data (ecb d MBEDTLS_AES_DECRYPT) MBEDTLS_AES_DECRYPT tw out = Inr (0, input)"
proof -
  let ?out = "concat (xts_blocks (cipher k) n tw input)"
  have l: "length ?out = 16 * n"
    by (rule length_xts_blocks [OF cipher_length assms(3)])
  obtain bs where d: "xts_loop (ecb d MBEDTLS_AES_DECRYPT) MBEDTLS_AES_DECRYPT 0 n (replicate 16 0) tw ?out =
      Inr (0, replicate 16 0, (gf_x ^^ n) tw, [], bs)" "concat bs = input"
    using xts_decrypt_loop [OF assms(2-4), of "replicate 16 0"] by blast
  show ?thesis
    using xts_encrypt_loop [OF assms(1,3), of n input 0 "replicate 16 0"] assms(4) l d
    by (intro exI [of _ ?out]) (simp add: xts_data_def)
qed

lemma xts_stealing:
  assumes "enc k c" and "dec k d" and "length tw = 16" and "length input = 16 * (n + 1) + lo" and "0 < lo" and "lo < 16"
  shows "\<exists>out. xts_data (ecb c MBEDTLS_AES_ENCRYPT) MBEDTLS_AES_ENCRYPT tw input = Inr (0, out) \<and> length out = length input \<and>
    xts_data (ecb d MBEDTLS_AES_DECRYPT) MBEDTLS_AES_DECRYPT tw out = Inr (0, input)"
proof -
  let ?P = "take (16 * n) input" and ?p = "take 16 (drop (16 * n) input)" and ?m = "drop (16 * (n + 1)) input"
  let ?t = "\<lambda>i. (gf_x ^^ i) tw"
  let ?cc = "xts_block (cipher k) (?t n) ?p"
  let ?x = "?m @ drop lo ?cc"
  let ?bs = "xts_blocks (cipher k) n tw ?P"
  let ?out = "concat ?bs @ xts_block (cipher k) (?t (n + 1)) ?x @ take lo ?cc"
  have "length input = lo + 16 * Suc n" using assms(4) by simp
  then have dm: "length input div 16 = Suc n" "length input mod 16 = lo"
    using assms(6) by (simp_all only: div_mult_self2 mod_mult_self2) simp_all
  have l: "length ?P = 16 * n" "length ?p = 16" "length ?m = lo" "length (?t i) = 16" "length ?cc = 16" "length ?x = 16"
      "length (concat ?bs) = 16 * n" "length (xts_block (cipher k) (?t (n + 1)) ?x) = 16" for i
    using assms length_gf_x_pow [OF assms(3)] length_xts_blocks [OF cipher_length assms(3)]
    by (simp_all add: xts_block_def cipher_length del: funpow.simps)
  have lout: "length ?out = length input" using l assms by simp
  have split: "?P @ ?p @ ?m = input"
    by (simp add: add.commute flip: drop_drop)
  have "xts_loop (ecb c MBEDTLS_AES_ENCRYPT) MBEDTLS_AES_ENCRYPT lo (Suc n) (replicate 16 0) tw input =
      Inr (0, replicate 16 0, ?t (Suc n), ?m, ?bs @ [?cc])"
    using xts_encrypt_loop [OF assms(1,3), of "Suc n" input] assms(4)
    by (simp add: xts_blocks_snoc xts_blocks_take del: xts_blocks.simps(2) funpow.simps)
  moreover have "ecb c MBEDTLS_AES_ENCRYPT (xor_bytes ?x (?t (Suc n))) = Inr (0, cipher k (xor_bytes ?x (?t (Suc n))))"
    using l by (intro encrypts [OF assms(1)]) (simp del: funpow.simps)
  ultimately have e: "xts_data (ecb c MBEDTLS_AES_ENCRYPT) MBEDTLS_AES_ENCRYPT tw input = Inr (0, ?out)"
    using dm l assms(5)
    by (simp add: xts_data_def Let_def xts_block_def MBEDTLS_AES_ENCRYPT_def MBEDTLS_AES_DECRYPT_def del: funpow.simps)
  obtain out where d: "xts_loop (ecb d MBEDTLS_AES_DECRYPT) MBEDTLS_AES_DECRYPT lo (Suc n) (replicate 16 0) tw ?out =
      Inr (0, ?t n, ?t (n + 2), take lo ?cc, out @ [?x])" "concat out = ?P"
    using xts_decrypt_last [OF assms(2,3) l(1) l(6), of lo "replicate 16 0" "take lo ?cc"] assms(5) by (auto simp del: funpow.simps)
  have c: "take lo (take lo ?cc) @ drop lo ?x = ?cc" "take lo ?x = ?m"
    using l by simp_all
  have "xts_data (ecb d MBEDTLS_AES_DECRYPT) MBEDTLS_AES_DECRYPT tw ?out = Inr (0, ?P @ ?p @ ?m)"
    using d dm l lout assms(5) xts_decrypt_block [OF assms(2) l(4) l(2), of n] c
    by (simp add: xts_data_def Let_def del: funpow.simps)
  then show ?thesis using e lout split by metis
qed

lemma xts_round_trip:
  assumes "enc k c" and "dec k d" and "length tw = 16" and "16 \<le> length input"
  shows "\<exists>out. xts_data (ecb c MBEDTLS_AES_ENCRYPT) MBEDTLS_AES_ENCRYPT tw input = Inr (0, out) \<and> length out = length input \<and>
    xts_data (ecb d MBEDTLS_AES_DECRYPT) MBEDTLS_AES_DECRYPT tw out = Inr (0, input)"
proof (cases "length input mod 16 = 0")
  case True
  then have "length input = 16 * (length input div 16)"
    using div_mult_mod_eq [of "length input" 16] by simp
  then show ?thesis by (rule xts_whole_blocks [OF assms(1-3)])
next
  case False
  have "length input div 16 \<noteq> 0" using assms(4) by simp
  then have "length input = 16 * (length input div 16 - 1 + 1) + length input mod 16" by simp
  then show ?thesis using False by (intro xts_stealing [OF assms(1-3)]) auto
qed

end


section \<open>AES is such a cipher\<close>

lemma dec_key_enc: "dec_key bits key d \<Longrightarrow> \<exists>e. enc_key bits key e"
  by (auto simp: dec_key_def)

interpretation aes: block_cipher "mbedtls_aes_crypt_ecb rom_tables"
  "\<lambda>k c. rounds (fst k) \<noteq> None \<and> enc_key (fst k) (snd k) c"
  "\<lambda>k d. rounds (fst k) \<noteq> None \<and> dec_key (fst k) (snd k) d"
  "\<lambda>k. fips197 (fst k) (snd k)"
  by unfold_locales (auto simp: ecb_encrypt length_fips197 dest: dec_key_enc intro: ecb_decrypt)

lemma setkey_enc_success:
  assumes "aes_ready g" and "length (buf ctx) = 68" and "mbedtls_aes_setkey_enc g ctx key bits = Inr (0, g', e)"
  shows "g' = rom_globals" and "rounds bits \<noteq> None" and "enc_key bits key e"
proof -
  show r: "rounds bits \<noteq> None"
    using assms(3) by (cases "rounds bits") (simp_all add: mbedtls_aes_setkey_enc_def MBEDTLS_ERR_AES_INVALID_KEY_LENGTH_def)
  then obtain r where "rounds bits = Some r" by blast
  moreover from this have "bits \<le> 8 * length key"
    using setkey_enc_short [of bits r key g ctx] assms(3) by (cases "8 * length key < bits") auto
  ultimately obtain c where "mbedtls_aes_setkey_enc g ctx key bits = Inr (0, rom_globals, c)" "enc_key bits key c"
    using setkey_enc_ok [OF assms(1) _ _ assms(2)] by blast
  then show "g' = rom_globals" and "enc_key bits key e" using assms(3) by simp_all
qed

lemma setkey_dec_success:
  assumes "aes_ready g" and "length (buf ctx) = 68" and "mbedtls_aes_setkey_dec g ctx key bits = Inr (0, g', d)"
  shows "g' = rom_globals" and "rounds bits \<noteq> None" and "dec_key bits key d"
proof -
  obtain c where c: "mbedtls_aes_setkey_enc g mbedtls_aes_init key bits = Inr (0, g', c)"
    using assms(3) by (auto simp: mbedtls_aes_setkey_dec_def Let_def split: if_splits)
  note e = setkey_enc_success [OF assms(1) init_length c]
  show "rounds bits \<noteq> None" by (rule e(2))
  then obtain r where r: "rounds bits = Some r" by blast
  then have "bits \<le> 8 * length key"
    using setkey_enc_short [of bits r key g mbedtls_aes_init] c by (cases "8 * length key < bits") auto
  then obtain d' where "mbedtls_aes_setkey_dec g ctx key bits = Inr (0, rom_globals, d')" "dec_key bits key d'"
    using setkey_dec_ok [OF assms(1) r _ assms(2)] by blast
  then show "g' = rom_globals" and "dec_key bits key d" using assms(3) by simp_all
qed

lemma rom_globals_tbl [simp]: "tbl rom_globals = rom_tables"
  by (simp add: rom_globals_def)

text \<open>Contexts made from one key, one for each direction.\<close>

definition key_pair :: "aes_globals \<Rightarrow> u8 list \<Rightarrow> nat \<Rightarrow> mbedtls_aes_context \<Rightarrow> mbedtls_aes_context \<Rightarrow> bool" where
  "key_pair g key bits e d \<longleftrightarrow> (\<exists>g' ectx dctx. length (buf ectx) = 68 \<and> length (buf dctx) = 68 \<and>
     mbedtls_aes_setkey_enc g ectx key bits = Inr (0, g', e) \<and> mbedtls_aes_setkey_dec g dctx key bits = Inr (0, g', d))"

lemma key_pairD:
  assumes "aes_ready g" and "key_pair g key bits e d"
  shows "rounds bits \<noteq> None" and "enc_key bits key e" and "dec_key bits key d"
  using assms setkey_enc_success(2,3) setkey_dec_success(3) unfolding key_pair_def by blast+

lemma key_pair_ex:
  assumes "aes_ready g" and "rounds bits \<noteq> None" and "bits \<le> 8 * length key"
  shows "\<exists>e d. key_pair g key bits e d"
proof -
  obtain r where r: "rounds bits = Some r" using assms(2) by blast
  obtain e where e: "mbedtls_aes_setkey_enc g mbedtls_aes_init key bits = Inr (0, rom_globals, e)"
    by (rule setkey_enc_ok [OF assms(1) r assms(3) init_length])
  obtain d where d: "mbedtls_aes_setkey_dec g mbedtls_aes_init key bits = Inr (0, rom_globals, d)"
    by (rule setkey_dec_ok [OF assms(1) r assms(3) init_length])
  show ?thesis using e d init_length unfolding key_pair_def by blast
qed

text \<open>CBC decryption with the same initialisation vector undoes CBC encryption of a whole number of
  blocks, and both leave the same vector for the next call; other lengths are refused with nothing written.\<close>

theorem aes_cbc_round_trip:
  assumes "aes_ready g" and "key_pair g key bits e d" and "length iv = 16"
  shows "if length input mod 16 = 0
    then \<exists>iv' out. mbedtls_aes_crypt_cbc rom_tables e MBEDTLS_AES_ENCRYPT iv input = Inr (0, iv', out) \<and>
      length out = length input \<and> mbedtls_aes_crypt_cbc rom_tables d MBEDTLS_AES_DECRYPT iv out = Inr (0, iv', input)
    else mbedtls_aes_crypt_cbc rom_tables e mode iv input = Inr (MBEDTLS_ERR_AES_INVALID_INPUT_LENGTH, iv, [])"
proof (cases "length input mod 16 = 0")
  case True
  note k = key_pairD [OF assms(1,2)]
  have "length input = 16 * (length input div 16)"
    using True div_mult_mod_eq [of "length input" 16] by simp
  then obtain iv' out where "cbc_encrypt 16 (mbedtls_aes_crypt_ecb rom_tables e MBEDTLS_AES_ENCRYPT) (length input div 16) iv input = Inr (iv', out)"
      "length out = 16 * (length input div 16)"
      "cbc_decrypt 16 (mbedtls_aes_crypt_ecb rom_tables d MBEDTLS_AES_DECRYPT) (length input div 16) iv out = Inr (iv', input)"
    using aes.cbc_round_trip [of "(bits, key)" e d iv input "length input div 16"] k assms(3) by auto
  then show ?thesis
    using True by (auto simp: mbedtls_aes_crypt_cbc_def MBEDTLS_AES_ENCRYPT_def MBEDTLS_AES_DECRYPT_def Let_def)
qed (simp add: mbedtls_aes_crypt_cbc_def)

lemma witness_pair: "\<exists>e d. key_pair static_globals (replicate 16 1) 128 e d"
  by (rule key_pair_ex [OF static_globals_ready]) (simp_all add: rounds_def)

theorem aes_cbc_round_trip_witness:
  "\<exists>e d iv' out. key_pair static_globals (replicate 16 1) 128 e d \<and>
    mbedtls_aes_crypt_cbc rom_tables e MBEDTLS_AES_ENCRYPT (replicate 16 9) (replicate 32 4) = Inr (0, iv', out) \<and>
    mbedtls_aes_crypt_cbc rom_tables d MBEDTLS_AES_DECRYPT (replicate 16 9) out = Inr (0, iv', replicate 32 4)"
proof -
  obtain e d where k: "key_pair static_globals (replicate 16 1) 128 e d" using witness_pair by blast
  show ?thesis
    using k aes_cbc_round_trip [OF static_globals_ready k, of "replicate 16 9" "replicate 32 4"] by simp blast
qed

text \<open>The feedback modes CFB128 and CFB8 encrypt bytes of any number, and decryption from the same state,
  with the block cipher in its encryption direction, gives them back and ends in the same state.\<close>

theorem aes_cfb_round_trip:
  assumes "aes_ready g" and "key_pair g key bits e d" and "length iv = 16" and "n < 16"
  shows "(\<exists>n' iv' out. mbedtls_aes_crypt_cfb128 rom_tables e MBEDTLS_AES_ENCRYPT n iv input = Inr (0, n', iv', out) \<and>
      length out = length input \<and> n' < 16 \<and> length iv' = 16 \<and>
      mbedtls_aes_crypt_cfb128 rom_tables e MBEDTLS_AES_DECRYPT n iv out = Inr (0, n', iv', input)) \<and>
    (\<exists>iv' out. mbedtls_aes_crypt_cfb8 rom_tables e MBEDTLS_AES_ENCRYPT iv input = Inr (0, iv', out) \<and>
      length out = length input \<and> length iv' = 16 \<and>
      mbedtls_aes_crypt_cfb8 rom_tables e MBEDTLS_AES_DECRYPT iv out = Inr (0, iv', input))"
proof -
  have m: "MBEDTLS_AES_ENCRYPT \<noteq> MBEDTLS_AES_DECRYPT" by (simp add: MBEDTLS_AES_ENCRYPT_def MBEDTLS_AES_DECRYPT_def)
  have k: "rounds (fst (bits, key)) \<noteq> None \<and> enc_key (fst (bits, key)) (snd (bits, key)) e"
    using key_pairD [OF assms(1,2)] by simp
  show ?thesis
    using aes.cfb128_round_trip [OF k assms(3,4), of input] aes.cfb8_round_trip [OF k assms(3), of input] m assms(4)
    by (auto simp: mbedtls_aes_crypt_cfb128_def mbedtls_aes_crypt_cfb8_def Let_def)
qed

theorem aes_cfb_round_trip_witness:
  "\<exists>e d n' iv' out. key_pair static_globals (replicate 16 1) 128 e d \<and>
    mbedtls_aes_crypt_cfb128 rom_tables e MBEDTLS_AES_ENCRYPT 3 (replicate 16 9) [1, 2, 3, 4, 5] = Inr (0, n', iv', out) \<and>
    mbedtls_aes_crypt_cfb128 rom_tables e MBEDTLS_AES_DECRYPT 3 (replicate 16 9) out = Inr (0, n', iv', [1, 2, 3, 4, 5])"
proof -
  obtain e d where k: "key_pair static_globals (replicate 16 1) 128 e d" using witness_pair by blast
  show ?thesis
    using k aes_cfb_round_trip [OF static_globals_ready k, of "replicate 16 9" 3 "[1, 2, 3, 4, 5]"] by simp blast
qed


text \<open>A call in two pieces is the call on the whole.\<close>

lemma bytewise_append:
  "bytewise f s (a @ b) = rbind (bytewise f s a) (\<lambda>(s, o1). rbind (bytewise f s b) (\<lambda>(s, o2). Inr (s, o1 @ o2)))"
proof (induction a arbitrary: s)
  case Nil
  then show ?case by (cases "bytewise f s b") auto
next
  case (Cons c cs)
  then show ?case
    by (cases "f s c") (auto simp: rbind_def split: sum.splits prod.splits)
qed

text \<open>The number a counter block stands for.\<close>

definition be_value :: "u8 list \<Rightarrow> nat" where
  "be_value b = foldl (\<lambda>v x. v * 256 + unat x) 0 b"

lemma be_value_Nil [simp]: "be_value [] = 0" and be_value_snoc [simp]: "be_value (b @ [x]) = be_value b * 256 + unat x"
  by (simp_all add: be_value_def)

lemma be_value_less: "be_value b < 256 ^ length b"
proof (induction b rule: rev_induct)
  case (snoc x b)
  then have "be_value b + 1 \<le> 256 ^ length b" by simp
  then have "(be_value b + 1) * 256 \<le> 256 ^ length b * 256" by (rule mult_le_mono1)
  then show ?case using unat_u8_le [of x] by simp
qed simp

lemma unat_plus_one:
  shows "unat ((x :: u8) + 1) = (if x + 1 = 0 then 0 else unat x + 1)" and "(x :: u8) + 1 = 0 \<Longrightarrow> unat x = 255"
proof -
  have m: "unat (x + 1) = (unat x + 1) mod 256" by (simp add: unat_word_ariths)
  have z: "x + 1 = 0 \<longleftrightarrow> unat x = 255"
    using m unat_u8_le [of x] by (cases "unat x = 255") (auto simp: word_unat_eq_iff)
  show "unat (x + 1) = (if x + 1 = 0 then 0 else unat x + 1)"
    using m z unat_u8_le [of x] by (cases "unat x = 255") auto
  show "x + 1 = 0 \<Longrightarrow> unat x = 255" using z by simp
qed

lemma ctr_inc_value:
  "i \<le> length nc \<Longrightarrow> \<exists>p. ctr_inc i nc = p @ drop i nc \<and> length p = i \<and> be_value p = (be_value (take i nc) + 1) mod 256 ^ i"
proof (induction i arbitrary: nc)
  case (Suc i)
  let ?v = "nc ! i + 1" and ?nc = "nc[i := nc ! i + 1]"
  have t: "take (Suc i) nc = take i nc @ [nc ! i]" "drop i ?nc = ?v # drop (Suc i) nc" "take i ?nc = take i nc"
    using Suc.prems by (simp_all add: take_Suc_conv_app_nth Cons_nth_drop_Suc [symmetric])
  show ?case
  proof (cases "?v = 0")
    case False
    have "be_value (take i nc) * 256 + unat ?v < 256 ^ Suc i"
      using be_value_less [of "take i nc @ [?v]"] Suc.prems by simp
    then show ?thesis
      using False Suc.prems t
      by (intro exI [of _ "take i nc @ [?v]"]) (simp add: Let_def unat_plus_one take_Suc_conv_app_nth upd_conv_take_nth_drop)
  next
    case True
    obtain p where "ctr_inc i ?nc = p @ drop i ?nc" "length p = i" "be_value p = (be_value (take i nc) + 1) mod 256 ^ i"
      using Suc.IH [of ?nc] Suc.prems t by auto
    moreover have "(be_value (take i nc) * 256 + unat (nc ! i) + 1) mod 256 ^ Suc i = (be_value (take i nc) + 1) mod 256 ^ i * 256"
      using unat_plus_one(2) [OF True] mod_mult_mult2 [of "be_value (take i nc) + 1" 256 "256 ^ i"]
      by (simp add: ac_simps)
    ultimately show ?thesis
      using True Suc.prems t
      by (intro exI [of _ "p @ [0]"]) (simp add: Let_def)
  qed
qed simp


text \<open>OFB and CTR are XOR with a key stream: a second call from the same starting state on the output gives
  the input back. An offset into the block above 15 is refused with nothing written.\<close>

theorem aes_stream_involution:
  assumes "aes_ready g" and "key_pair g key bits e d" and "length iv = 16" and "length sb = 16"
  shows "if n < 16
    then (\<exists>n' iv' out. mbedtls_aes_crypt_ofb rom_tables e n iv input = Inr (0, n', iv', out) \<and> length out = length input \<and>
        mbedtls_aes_crypt_ofb rom_tables e n iv out = Inr (0, n', iv', input)) \<and>
      (\<exists>n' nc' sb' out. mbedtls_aes_crypt_ctr rom_tables e n iv sb input = Inr (0, n', nc', sb', out) \<and>
        length out = length input \<and> mbedtls_aes_crypt_ctr rom_tables e n iv sb out = Inr (0, n', nc', sb', input))
    else mbedtls_aes_crypt_ofb rom_tables e n iv input = Inr (MBEDTLS_ERR_AES_BAD_INPUT_DATA, n, iv, []) \<and>
      mbedtls_aes_crypt_ctr rom_tables e n iv sb input = Inr (MBEDTLS_ERR_AES_BAD_INPUT_DATA, n, iv, sb, [])"
proof (cases "n < 16")
  case True
  have k: "rounds (fst (bits, key)) \<noteq> None \<and> enc_key (fst (bits, key)) (snd (bits, key)) e"
    using key_pairD [OF assms(1,2)] by simp
  obtain n' iv' out where o: "ofb_loop (mbedtls_aes_crypt_ecb rom_tables e MBEDTLS_AES_ENCRYPT) n iv input = Inr (0, n', iv', out)"
      "length out = length input" "ofb_loop (mbedtls_aes_crypt_ecb rom_tables e MBEDTLS_AES_ENCRYPT) n iv out = Inr (0, n', iv', input)"
    using aes.ofb_twice [OF k assms(3) True] by blast
  obtain s out' where c: "bytewise (ctr_step (mbedtls_aes_crypt_ecb rom_tables e MBEDTLS_AES_ENCRYPT)) (n, iv, sb) input = Inr (s, out')"
      "length out' = length input"
      "bytewise (ctr_step (mbedtls_aes_crypt_ecb rom_tables e MBEDTLS_AES_ENCRYPT)) (n, iv, sb) out' = Inr (s, input)"
    using aes.ctr_twice [OF k assms(3,4) True] by blast
  show ?thesis
    using True o c by (cases s) (simp add: mbedtls_aes_crypt_ofb_def mbedtls_aes_crypt_ctr_def)
qed (simp add: mbedtls_aes_crypt_ofb_def mbedtls_aes_crypt_ctr_def)

theorem aes_stream_involution_witness:
  "\<exists>e d n' nc' sb' out. key_pair static_globals (replicate 16 1) 128 e d \<and>
    mbedtls_aes_crypt_ctr rom_tables e 0 (replicate 16 9) (replicate 16 0) [1, 2, 3] = Inr (0, n', nc', sb', out) \<and>
    mbedtls_aes_crypt_ctr rom_tables e 0 (replicate 16 9) (replicate 16 0) out = Inr (0, n', nc', sb', [1, 2, 3])"
proof -
  obtain e d where k: "key_pair static_globals (replicate 16 1) 128 e d" using witness_pair by blast
  show ?thesis
    using k aes_stream_involution [OF static_globals_ready k, of "replicate 16 9" "replicate 16 0" 0 "[1, 2, 3]"] by simp blast
qed

lemma ctr_state:
  assumes "bytewise (ctr_step ecb) (n, nc, sb) a = Inr ((n', nc', sb'), out)" and "n < 16"
  shows "n' < 16"
  using assms
proof (induction a arbitrary: n nc sb out)
  case (Cons p ps)
  then obtain nc1 sb1 o1 out1 where "ctr_step ecb (n, nc, sb) p = Inr (((n + 1) mod 16, nc1, sb1), o1)"
      "bytewise (ctr_step ecb) ((n + 1) mod 16, nc1, sb1) ps = Inr ((n', nc', sb'), out1)"
    by (auto simp: ctr_step_def and_15 rbind_eq_Inr split: prod.splits)
  then show ?case using Cons.IH by simp
qed simp

text \<open>CTR counts its blocks with the 16 bytes of the counter as one big-endian number modulo 2^128, carries
  through all of them, and works the same however the data is cut into calls that hand the state on.\<close>

theorem aes_ctr_counter:
  assumes "length nc = 16"
  shows "length (ctr_inc 16 nc) = 16 \<and> be_value (ctr_inc 16 nc) = (be_value nc + 1) mod 2 ^ 128 \<and>
    (mbedtls_aes_crypt_ctr t ctx n nc sb a = Inr (0, n1, nc1, sb1, out1) \<longrightarrow>
     mbedtls_aes_crypt_ctr t ctx n1 nc1 sb1 b = Inr (0, n2, nc2, sb2, out2) \<longrightarrow>
     mbedtls_aes_crypt_ctr t ctx n nc sb (a @ b) = Inr (0, n2, nc2, sb2, out1 @ out2))"
proof -
  have p: "(256 :: nat) ^ 16 = 2 ^ 128" by simp
  have "length (ctr_inc 16 nc) = 16" "be_value (ctr_inc 16 nc) = (be_value nc + 1) mod 2 ^ 128"
    using ctr_inc_value [of 16 nc] assms unfolding p by auto
  then show ?thesis
    by (auto simp: mbedtls_aes_crypt_ctr_def bytewise_append MBEDTLS_ERR_AES_BAD_INPUT_DATA_def split: if_splits)
qed

theorem aes_ctr_counter_witness:
  "be_value (ctr_inc 16 [0, 0, 0, 0, 0, 0, 0, 0, 0, 0, 0, 0, 0, 0, 1, 0xFF]) = 512"
  using aes_ctr_counter [of "[0, 0, 0, 0, 0, 0, 0, 0, 0, 0, 0, 0, 0, 0, 1, 0xFF]"] by (simp add: be_value_def)

text \<open>The two keys of XTS.\<close>

lemma xts_decode_ok:
  assumes "mbedtls_aes_xts_decode_keys key bits = (ret, k1, b1, k2, b2)" and "ret = 0"
  shows "k1 = key" and "b1 = bits div 2" and "b2 = bits div 2" and "k2 = drop (bits div 2 div 8) key"
  using assms by (auto simp: mbedtls_aes_xts_decode_keys_def MBEDTLS_ERR_AES_INVALID_KEY_LENGTH_def Let_def split: if_splits)

lemma xts_setkey_enc_success:
  assumes "aes_ready g" and "length (buf (crypt ctx)) = 68" and "length (buf (tweak ctx)) = 68"
    and "mbedtls_aes_xts_setkey_enc g ctx key bits = Inr (0, g', e)"
  shows "rounds (bits div 2) \<noteq> None" and "enc_key (bits div 2) key (crypt e)"
    and "enc_key (bits div 2) (drop (bits div 2 div 8) key) (tweak e)"
proof -
  obtain ret k1 b1 k2 b2 where d: "mbedtls_aes_xts_decode_keys key bits = (ret, k1, b1, k2, b2)"
    by (cases "mbedtls_aes_xts_decode_keys key bits") auto
  have "ret = 0" using assms(4) d by (auto simp: mbedtls_aes_xts_setkey_enc_def split: if_splits)
  note k = xts_decode_ok [OF d this]
  obtain g1 c1 g2 c2 where s: "mbedtls_aes_setkey_enc g (tweak ctx) k2 b2 = Inr (0, g1, c1)"
      "mbedtls_aes_setkey_enc g1 (crypt ctx) k1 b1 = Inr (0, g2, c2)" "e = ctx\<lparr>tweak := c1, crypt := c2\<rparr>"
    using assms(4) d \<open>ret = 0\<close> by (auto simp: mbedtls_aes_xts_setkey_enc_def Let_def split: if_splits)
  note t = setkey_enc_success [OF assms(1,3) s(1)]
  have g1: "aes_ready g1" using t(1) rom_ready by simp
  note c = setkey_enc_success [OF g1 assms(2) s(2)]
  show "rounds (bits div 2) \<noteq> None" "enc_key (bits div 2) key (crypt e)"
    "enc_key (bits div 2) (drop (bits div 2 div 8) key) (tweak e)"
    using t c s(3) k by simp_all
qed

lemma xts_setkey_dec_success:
  assumes "aes_ready g" and "length (buf (crypt ctx)) = 68" and "length (buf (tweak ctx)) = 68"
    and "mbedtls_aes_xts_setkey_dec g ctx key bits = Inr (0, g', d)"
  shows "dec_key (bits div 2) key (crypt d)" and "enc_key (bits div 2) (drop (bits div 2 div 8) key) (tweak d)"
proof -
  obtain ret k1 b1 k2 b2 where d: "mbedtls_aes_xts_decode_keys key bits = (ret, k1, b1, k2, b2)"
    by (cases "mbedtls_aes_xts_decode_keys key bits") auto
  have "ret = 0" using assms(4) d by (auto simp: mbedtls_aes_xts_setkey_dec_def split: if_splits)
  note k = xts_decode_ok [OF d this]
  obtain g1 c1 g2 c2 where s: "mbedtls_aes_setkey_enc g (tweak ctx) k2 b2 = Inr (0, g1, c1)"
      "mbedtls_aes_setkey_dec g1 (crypt ctx) k1 b1 = Inr (0, g2, c2)" "d = ctx\<lparr>tweak := c1, crypt := c2\<rparr>"
    using assms(4) d \<open>ret = 0\<close> by (auto simp: mbedtls_aes_xts_setkey_dec_def Let_def split: if_splits)
  note t = setkey_enc_success [OF assms(1,3) s(1)]
  have g1: "aes_ready g1" using t(1) rom_ready by simp
  note c = setkey_dec_success [OF g1 assms(2) s(2)]
  show "dec_key (bits div 2) key (crypt d)" "enc_key (bits div 2) (drop (bits div 2 div 8) key) (tweak d)"
    using t c s(3) k by simp_all
qed

definition xts_pair :: "aes_globals \<Rightarrow> u8 list \<Rightarrow> nat \<Rightarrow> mbedtls_aes_xts_context \<Rightarrow> mbedtls_aes_xts_context \<Rightarrow> bool" where
  "xts_pair g key bits e d \<longleftrightarrow> (\<exists>g' ectx dctx. length (buf (crypt ectx)) = 68 \<and> length (buf (tweak ectx)) = 68 \<and>
     length (buf (crypt dctx)) = 68 \<and> length (buf (tweak dctx)) = 68 \<and>
     mbedtls_aes_xts_setkey_enc g ectx key bits = Inr (0, g', e) \<and>
     mbedtls_aes_xts_setkey_dec g dctx key bits = Inr (0, g', d))"

lemma xts_pairD:
  assumes "aes_ready g" and "xts_pair g key bits e d"
  shows "rounds (bits div 2) \<noteq> None" and "enc_key (bits div 2) key (crypt e)" and "dec_key (bits div 2) key (crypt d)"
    and "enc_key (bits div 2) (drop (bits div 2 div 8) key) (tweak e)"
    and "enc_key (bits div 2) (drop (bits div 2 div 8) key) (tweak d)"
proof -
  obtain g' ectx dctx where p: "length (buf (crypt ectx)) = 68" "length (buf (tweak ectx)) = 68"
      "length (buf (crypt dctx)) = 68" "length (buf (tweak dctx)) = 68"
      "mbedtls_aes_xts_setkey_enc g ectx key bits = Inr (0, g', e)" "mbedtls_aes_xts_setkey_dec g dctx key bits = Inr (0, g', d)"
    using assms(2) unfolding xts_pair_def by blast
  show "rounds (bits div 2) \<noteq> None" "enc_key (bits div 2) key (crypt e)" "dec_key (bits div 2) key (crypt d)"
    "enc_key (bits div 2) (drop (bits div 2 div 8) key) (tweak e)"
    "enc_key (bits div 2) (drop (bits div 2 div 8) key) (tweak d)"
    using xts_setkey_enc_success [OF assms(1) p(1,2,5)] xts_setkey_dec_success [OF assms(1) p(3,4,6)] by simp_all
qed

text \<open>C6: XTS decryption of a data unit undoes its encryption for every length from one block to 2^20 blocks, the
  last bytes stolen from the block before them included; other lengths are refused with nothing written.\<close>

theorem aes_xts_round_trip:
  assumes "aes_ready g" and "xts_pair g key bits e d" and "length data_unit = 16"
  shows "if 16 \<le> length input \<and> length input \<le> 2 ^ 20 * 16
    then \<exists>out. mbedtls_aes_crypt_xts rom_tables e MBEDTLS_AES_ENCRYPT data_unit input = Inr (0, out) \<and>
      length out = length input \<and> mbedtls_aes_crypt_xts rom_tables d MBEDTLS_AES_DECRYPT data_unit out = Inr (0, input)
    else mbedtls_aes_crypt_xts rom_tables e mode data_unit input = Inr (MBEDTLS_ERR_AES_INVALID_INPUT_LENGTH, [])"
proof (cases "16 \<le> length input \<and> length input \<le> 2 ^ 20 * 16")
  case True
  let ?k1 = "(bits div 2, key)" and ?k2 = "(bits div 2, drop (bits div 2 div 8) key)"
  have k: "rounds (bits div 2) \<noteq> None" "enc_key (bits div 2) key (crypt e)" "dec_key (bits div 2) key (crypt d)"
      "enc_key (bits div 2) (snd ?k2) (tweak e)" "enc_key (bits div 2) (snd ?k2) (tweak d)"
    using xts_pairD [OF assms(1,2)] by simp_all
  let ?tw = "fips197 (bits div 2) (snd ?k2) data_unit"
  have tw: "mbedtls_aes_crypt_ecb rom_tables (tweak e) MBEDTLS_AES_ENCRYPT data_unit = Inr (0, ?tw)"
      "mbedtls_aes_crypt_ecb rom_tables (tweak d) MBEDTLS_AES_ENCRYPT data_unit = Inr (0, ?tw)"
    using aes.encrypts [of ?k2 "tweak e" data_unit] aes.encrypts [of ?k2 "tweak d" data_unit] k assms(3) by simp_all
  obtain out where o: "xts_data (mbedtls_aes_crypt_ecb rom_tables (crypt e) MBEDTLS_AES_ENCRYPT) MBEDTLS_AES_ENCRYPT ?tw input = Inr (0, out)"
      "length out = length input"
      "xts_data (mbedtls_aes_crypt_ecb rom_tables (crypt d) MBEDTLS_AES_DECRYPT) MBEDTLS_AES_DECRYPT ?tw out = Inr (0, input)"
    using aes.xts_round_trip [of ?k1 "crypt e" "crypt d" ?tw input] k True length_fips197 by auto
  show ?thesis
    using True tw o by (intro if_P [THEN iffD2] exI [of _ out]) (simp_all add: mbedtls_aes_crypt_xts_def)
qed (auto simp: mbedtls_aes_crypt_xts_def)

lemma xts_pair_ex:
  assumes "aes_ready g" and "bits = 256 \<or> bits = 512" and "bits \<le> 8 * length key"
  shows "\<exists>e d. xts_pair g key bits e d"
proof -
  let ?h = "bits div 2" and ?k2 = "drop (bits div 2 div 8) key"
  let ?ctx = "\<lparr>crypt = mbedtls_aes_init, tweak = mbedtls_aes_init\<rparr>"
  have h: "?h \<le> 8 * length key" "?h \<le> 8 * length ?k2" using assms(2,3) by auto
  have dk: "mbedtls_aes_xts_decode_keys key bits = (0, key, ?h, ?k2, ?h)"
    using assms(2) by (auto simp: mbedtls_aes_xts_decode_keys_def Let_def)
  obtain r where r: "rounds ?h = Some r" using assms(2) by (auto simp: rounds_def)
  obtain t where t: "mbedtls_aes_setkey_enc g mbedtls_aes_init ?k2 ?h = Inr (0, rom_globals, t)"
    by (rule setkey_enc_ok [OF assms(1) r h(2) init_length])
  obtain c where c: "mbedtls_aes_setkey_enc rom_globals mbedtls_aes_init key ?h = Inr (0, rom_globals, c)"
    by (rule setkey_enc_ok [OF rom_ready r h(1) init_length])
  obtain d where d: "mbedtls_aes_setkey_dec rom_globals mbedtls_aes_init key ?h = Inr (0, rom_globals, d)"
    by (rule setkey_dec_ok [OF rom_ready r h(1) init_length])
  have "mbedtls_aes_xts_setkey_enc g ?ctx key bits = Inr (0, rom_globals, \<lparr>crypt = c, tweak = t\<rparr>)"
      "mbedtls_aes_xts_setkey_dec g ?ctx key bits = Inr (0, rom_globals, \<lparr>crypt = d, tweak = t\<rparr>)"
    using t c d by (simp_all add: mbedtls_aes_xts_setkey_enc_def mbedtls_aes_xts_setkey_dec_def dk Let_def)
  then show ?thesis
    using init_length unfolding xts_pair_def by (metis mbedtls_aes_xts_context.select_convs)
qed

theorem aes_xts_round_trip_witness:
  "\<exists>e d out. xts_pair static_globals (replicate 32 6) 256 e d \<and>
    mbedtls_aes_crypt_xts rom_tables e MBEDTLS_AES_ENCRYPT (replicate 16 3) (replicate 21 8) = Inr (0, out) \<and>
    length out = 21 \<and> mbedtls_aes_crypt_xts rom_tables d MBEDTLS_AES_DECRYPT (replicate 16 3) out = Inr (0, replicate 21 8)"
proof -
  obtain e d where k: "xts_pair static_globals (replicate 32 6) 256 e d"
    using xts_pair_ex [OF static_globals_ready, of 256 "replicate 32 6"] by auto
  show ?thesis
    using k aes_xts_round_trip [OF static_globals_ready k, of "replicate 16 3" "replicate 21 8"] by auto
qed

end
