(* ===== verification/CJsonType.thy ===== *)
theory CJsonType
  imports CJsonParse "HOL-Library.Sublist"
begin

text \<open>
  What the JSON parser does with an arbitrary text: it comes to an end, and what it builds is well typed. The
  contract between the parsers of arrays and objects and the value parser they call is the locale
  \<open>value_parser\<close>; \<open>parse_value\<close> meets it at every nesting.
\<close>

section \<open>Results that are not a lack of fuel\<close>

definition ends_run :: "'a res \<Rightarrow> bool" where
  "ends_run m \<longleftrightarrow> m \<noteq> Inl NoFuel"

lemma ends_run_simps [simp]: "ends_run (Inr x)" "ends_run (Inl OutOfBounds)"
  by (simp_all add: ends_run_def)

lemma ends_run_rbind: "ends_run m \<Longrightarrow> (\<And>x. m = Inr x \<Longrightarrow> ends_run (f x)) \<Longrightarrow> ends_run (rbind m f)"
  unfolding ends_run_def by (cases m) auto

lemma ends_run_jbind: "ends_run m \<Longrightarrow> (\<And>x s. m = Inr (Some x, s) \<Longrightarrow> ends_run (f x s)) \<Longrightarrow> ends_run (jbind m f)"
  unfolding jbind_def by (rule ends_run_rbind) (auto split: option.split)

lemma ends_run_jmalloc: "(\<And>s. ends_run (f s)) \<Longrightarrow> ends_run (jmalloc s f)"
  by (simp add: jmalloc_def)

lemma ends_run_New_Item: "(\<And>i s. ends_run (f i s)) \<Longrightarrow> ends_run (cJSON_New_Item D s f)"
  by (simp add: cJSON_New_Item_def ends_run_jmalloc)

lemma ends_run_fails [simp]: "ends_run (parse_fails v s)"
  by (simp add: parse_fails_def)

lemma ends_run_if: "(b \<Longrightarrow> ends_run x) \<Longrightarrow> (\<not> b \<Longrightarrow> ends_run y) \<Longrightarrow> ends_run (if b then x else y)"
  by simp

lemma ends_run_peek [simp]: "ends_run (peek b)"
  by (simp add: peek_def split: list.split)

lemma ends_run_skip [simp]: "ends_run (skip b)"
  by (induction b) auto

lemma ends_run_starts_lit [simp]: "ends_run (starts_lit l b)"
  by (induction l b rule: starts_lit.induct) auto

lemma ends_run_digit_run [simp]: "ends_run (digit_run f x b)"
  by (induction b arbitrary: x) auto

lemma ends_run_hex_run [simp]: "ends_run (hex_run n h b)"
  by (induction n arbitrary: h b) (auto intro!: ends_run_rbind split: option.split)

lemma ends_run_scan [simp]: "ends_run (scan_string b n)"
  by (induction b n rule: scan_string.induct) (auto split: list.split)

lemma ends_run_pair:
  "(\<And>a b. p = (a, b) \<Longrightarrow> ends_run (f a b)) \<Longrightarrow> ends_run (case p of (a, b) \<Rightarrow> f a b)"
  "(\<And>a b. p = (a, b) \<Longrightarrow> ends_run (g a b x)) \<Longrightarrow> ends_run ((case p of (a, b) \<Rightarrow> g a b) x)"
  by (simp_all split: prod.split)

lemmas ends_run_intros = ends_run_rbind ends_run_jbind ends_run_jmalloc ends_run_New_Item ends_run_if ends_run_pair

lemma ends_run_number [simp]: "ends_run (parse_number D it b)"
  unfolding parse_number_def Let_def by (intro ends_run_intros) simp_all

lemma ends_run_unescape [simp]: "ends_run (unescape b)"
  unfolding unescape_def unescape_u_def parse_hex4_def Let_def by (intro ends_run_intros) simp_all

lemma ends_run_copy [simp]: "ends_run (copy_string b room out)"
proof (induction b room out rule: copy_string.induct)
  case (1 b room out)
  show ?case by (subst copy_string.simps, intro ends_run_intros) (auto intro: 1 1 [simplified])
qed

lemma ends_run_string [simp]: "ends_run (parse_string it b s)"
  unfolding parse_string_def Let_def by (intro ends_run_intros) simp_all

section \<open>How far the parts of the parser read\<close>

text \<open>A text pointer moves on in its text: what is left is a suffix, shorter when \<open>moved\<close>.\<close>

definition moved :: "ctext \<Rightarrow> ctext \<Rightarrow> bool" where
  "moved v' v \<longleftrightarrow> suffix v' v \<and> length v' < length v"

lemma suffix_tl: "suffix v' v \<Longrightarrow> suffix (tl v') v"
  by (metis suffix_order.trans suffix_tl)

lemma moved_tl: "v' = c # b \<Longrightarrow> suffix v' v \<Longrightarrow> moved b v"
  using suffix_length_le [of v' v] by (auto simp: moved_def dest: suffix_ConsD)

lemma moved_trans: "suffix v'' v' \<Longrightarrow> moved v' v \<Longrightarrow> moved v'' v"
  using suffix_length_le [of v'' v'] by (auto simp: moved_def intro: suffix_order.trans)

lemma moved_suffix: "moved v' v \<Longrightarrow> suffix v' v"
  by (simp add: moved_def)

lemma peek_InrE [elim!]:
  assumes "peek b = Inr c" obtains b' where "b = c # b'"
  using assms by (auto simp: peek_def split: list.splits)

lemma skip_suffix: "skip v = Inr v' \<Longrightarrow> suffix v' v"
  by (induction v) (auto split: if_splits intro: suffix_ConsI)

lemma digit_run_suffix: "digit_run f x b = Inr (y, b') \<Longrightarrow> suffix b' b"
  by (induction b arbitrary: x) (auto split: if_splits intro: suffix_ConsI)

lemma starts_lit_drop: "starts_lit l b = Inr True \<Longrightarrow> l \<noteq> [] \<Longrightarrow> moved (drop (length l) b) b"
proof (induction l b rule: starts_lit.induct)
  case (3 c cs x b)
  then have "starts_lit cs b = Inr True" by (auto split: if_splits)
  have "suffix (drop (length cs) b) (x # b)" by (metis suffix_ConsI suffix_drop)
  then show ?case by (simp add: moved_def)
qed auto

text \<open>The text a parsing step leaves, when it gives a result.\<close>

definition leaves :: "(ctext \<Rightarrow> bool) \<Rightarrow> ('a \<times> ctext) res \<Rightarrow> bool" where
  "leaves P m \<longleftrightarrow> (\<forall>y w. m = Inr (y, w) \<longrightarrow> P w)"

lemma leaves_Inr [simp]: "leaves P (Inr (y, w)) = P w"
  by (simp add: leaves_def)

lemma leaves_run: "(\<And>w'. suffix w' w \<Longrightarrow> (\<forall>c b. w = c # b \<longrightarrow> is_digit c \<longrightarrow> suffix w' b) \<Longrightarrow> P w') \<Longrightarrow> leaves P (digit_run f x w)"
  using digit_run_suffix [of f _ w] digit_run_suffix [of f _ "tl w"] unfolding leaves_def by (cases w) auto

lemma leaves_then: "leaves Q m \<Longrightarrow> (\<And>y w. Q w \<Longrightarrow> leaves P (f (y, w))) \<Longrightarrow> leaves P (rbind m f)"
  unfolding leaves_def by (cases m) auto

lemma leaves_peek: "(\<And>x b. w = x # b \<Longrightarrow> leaves P (f x)) \<Longrightarrow> leaves P (rbind (peek w) f)"
  unfolding leaves_def by (auto simp: peek_def split: list.splits)

lemma leaves_any: "(\<And>x. leaves P (f x)) \<Longrightarrow> leaves P (rbind (m :: bool res) f)"
  unfolding leaves_def by (cases m) auto

lemma leaves_if: "(b \<Longrightarrow> leaves P x) \<Longrightarrow> (\<not> b \<Longrightarrow> leaves P y) \<Longrightarrow> leaves P (if b then x else y)"
  by simp

lemma leaves_pair:
  "(\<And>a b. p = (a, b) \<Longrightarrow> leaves P (f a b)) \<Longrightarrow> leaves P (case p of (a, b) \<Rightarrow> f a b)"
  "(\<And>a b. p = (a, b) \<Longrightarrow> leaves P (g a b x)) \<Longrightarrow> leaves P ((case p of (a, b) \<Rightarrow> g a b) x)"
  by (simp_all split: prod.split)

lemma moved_Cons [simp]: "suffix w b \<Longrightarrow> moved w (x # b)"
  using suffix_length_le [of w b] by (auto simp: moved_def intro: suffix_ConsI)

lemma moved_step:
  "moved (c # w) v \<Longrightarrow> suffix w' w \<Longrightarrow> moved w' v"
  "moved (c # d # w) v \<Longrightarrow> suffix w' w \<Longrightarrow> moved w' v"
  by (metis moved_trans suffix_ConsI)+

lemma parse_number_moved:
  assumes v: "x = CHR ''-'' \<or> is_digit x"
  shows "leaves (\<lambda>w. moved w (x # b)) (parse_number D it (x # b))"
  unfolding parse_number_def Let_def
  by (intro leaves_peek leaves_then [where Q = "\<lambda>w. moved w (x # b)"] leaves_any leaves_if leaves_pair leaves_run)
    (use v in \<open>auto simp del: digit_run.simps moved_Cons split: if_splits intro: moved_Cons suffix_ConsI moved_step moved_trans\<close>)

lemma suffix_drop_Cons [simp]: "suffix (drop n b) (c # b)"
  by (rule suffix_ConsI) (rule suffix_drop)

lemma unescape_suffix: "unescape b = Inr (w, b') \<Longrightarrow> suffix b' b"
  by (auto simp: unescape_def unescape_u_def Let_def split: if_splits)

section \<open>What the parser builds\<close>

text \<open>A text pointer into a C string: behind its terminator there is nothing.\<close>

definition c_text :: "ctext \<Rightarrow> bool" where
  "c_text v \<longleftrightarrow> NUL \<notin> set (butlast v)"

lemma c_text_suffix: "c_text v \<Longrightarrow> suffix v' v \<Longrightarrow> c_text v'"
  unfolding c_text_def suffix_def by (auto simp: butlast_append split: if_splits)

lemma c_text_NUL: "c_text (NUL # b) \<longleftrightarrow> b = []"
  by (simp add: c_text_def)

lemma c_text_tl: "c_text (c # b) \<Longrightarrow> c_text b"
  by (auto simp: c_text_def split: if_splits)

lemma char_of_NUL: "NUL = char_of (n :: nat) \<longleftrightarrow> n mod 256 = 0"
  using code_of_0 [of "char_of n"] by auto

lemma utf8_no_NUL: "0 < uc \<Longrightarrow> uc < 1114112 \<Longrightarrow> NUL \<notin> set (utf8_bytes uc)"
  unfolding utf8_bytes_def Let_def by (auto simp: char_of_NUL)

lemma hex_run_bound: "hex_run n h b = Inr r \<Longrightarrow> r < (h + 1) * 16 ^ n"
proof (induction n arbitrary: h b)
  case (Suc n)
  from Suc.prems obtain c where c: "b = c # tl b" and r: "(case hex_value c of None \<Rightarrow> Inr 0 | Some d \<Rightarrow> hex_run n (16 * h + d) (tl b)) = Inr r"
    by (auto simp: peek_def split: list.splits)
  show ?case
  proof (cases "hex_value c")
    case (Some d)
    have d: "d < 16" using Some by (auto simp: hex_value_def Let_def split: if_splits)
    have "r < (16 * h + d + 1) * 16 ^ n" using Suc.IH [of "16 * h + d" "tl b"] r Some by simp
    also have "\<dots> \<le> (16 * (h + 1)) * 16 ^ n" using d by (intro mult_right_mono) auto
    finally show ?thesis by (simp add: algebra_simps)
  qed (use r in simp)
qed auto

lemma parse_hex4_bound: "parse_hex4 b = Inr r \<Longrightarrow> r < 65536"
  using hex_run_bound [of 4 0 b r] by (simp add: parse_hex4_def)

lemma unescape_u_no_NUL:
  assumes "unescape_u b = Inr (w, b')"
  shows "NUL \<notin> set w"
proof -
  have "1024 * (a mod 1024) + c mod 1024 < (1048576 :: nat)" for a c
    using mod_less_divisor [of 1024 a] mod_less_divisor [of 1024 c] by linarith
  then have pair: "NUL \<notin> set (utf8_bytes (65536 + 1024 * (a mod 1024) + c mod 1024))" for a c
    by (intro utf8_no_NUL) (simp_all add: add.assoc)
  have "NUL \<notin> set (utf8_bytes uc)" if "parse_hex4 v = Inr uc" "uc \<noteq> 0" for v uc
    by (rule utf8_no_NUL) (use parse_hex4_bound [OF that(1)] that(2) in simp_all)
  then show ?thesis using assms pair by (auto simp: unescape_u_def Let_def split: if_splits)
qed

lemma unescape_no_NUL: "unescape b = Inr (w, b') \<Longrightarrow> NUL \<notin> set w \<or> (b' = b \<and> (\<exists>x. b = NUL # x))"
  by (auto simp: unescape_def split: if_splits dest: unescape_u_no_NUL)

lemma copy_string_result:
  "copy_string b room out = Inr (w, b') \<Longrightarrow> suffix b' b \<and> (c_text b \<longrightarrow> NUL \<notin> set out \<longrightarrow> NUL \<notin> set w)"
proof (induction b room out rule: copy_string.induct)
  case (1 b room out)
  from 1(3) obtain c b1 where b: "b = c # b1" by (subst (asm) copy_string.simps) auto
  consider (stop) "c = CHR 0x22 \<or> c = NUL" | (plain) "c \<noteq> CHR 0x22" "c \<noteq> NUL" "c \<noteq> CHR 0x5C" | (esc) "c = CHR 0x5C" by blast
  then show ?case
  proof cases
    case stop
    then show ?thesis using 1(3) b by (subst (asm) copy_string.simps) (auto split: if_splits)
  next
    case plain
    then have "0 < room" and r: "copy_string b1 (room - 1) (out @ [c]) = Inr (w, b')"
      using 1(3) b by (subst (asm) copy_string.simps, auto split: if_splits)+
    then have "suffix b' b1 \<and> (c_text b1 \<longrightarrow> NUL \<notin> set (out @ [c]) \<longrightarrow> NUL \<notin> set w)"
      using 1(1) [of c] plain b by auto
    then show ?thesis using plain b c_text_tl [of c b1] by (auto intro: suffix_ConsI)
  next
    case esc
    then obtain u b2 where u: "unescape b1 = Inr (u, b2)" "\<not> room < length u" "b2 \<noteq> []"
      and r: "copy_string (tl b2) (room - length u) (out @ u) = Inr (w, b')"
      using 1(3) b by (subst (asm) copy_string.simps) (auto split: if_splits)
    have h: "suffix b' (tl b2) \<and> (c_text (tl b2) \<longrightarrow> NUL \<notin> set (out @ u) \<longrightarrow> NUL \<notin> set w)"
      using 1(2) [of c "(u, b2)" u b2] u r esc b by auto
    have t: "suffix (tl b2) b1" using suffix_tl unescape_suffix [OF u(1)] by blast
    moreover have "NUL \<notin> set u" if "c_text b"
    proof
      assume "NUL \<in> set u"
      then obtain x where "b2 = b1" "b1 = NUL # x" using unescape_no_NUL [OF u(1)] by blast
      moreover from this have "x = []" using that b c_text_tl c_text_NUL by metis
      ultimately show False using r by (simp add: copy_string.simps peek_def)
    qed
    moreover have "c_text (tl b2)" if "c_text b" using that b c_text_tl t c_text_suffix by metis
    ultimately show ?thesis using h b by (auto intro: suffix_ConsI suffix_order.trans)
  qed
qed

text \<open>What a tree from the parser looks like: a type of the header, a string in the string items only, the number in
  both representations, children in arrays and objects only, names in objects only, and no string with the
  terminator in it.\<close>

definition c_name :: "char list option \<Rightarrow> bool" where
  "c_name n \<longleftrightarrow> (\<exists>w. n = Some w \<and> NUL \<notin> set w)"

fun typed :: "'d dbl \<Rightarrow> 'd cJSON \<Rightarrow> bool" where
  "typed D (Item ty vs vi vd st ch) \<longleftrightarrow>
     0 \<le> ty \<and> ty \<le> 6 \<and> (if ty = cJSON_String then c_name vs else vs = None)
     \<and> (if ty = cJSON_Number then vi = to_i D vd else vd = of_i D 0 \<and> vi = (if ty = cJSON_True then 1 else 0))
     \<and> (ty < cJSON_Array \<longrightarrow> ch = [])
     \<and> (\<forall>c\<in>set ch. typed D c \<and> (if ty = cJSON_Object then c_name (jstring c) else jstring c = None))"

definition new_item :: "'d dbl \<Rightarrow> 'd cJSON \<Rightarrow> bool" where
  "new_item D it \<longleftrightarrow> valuestring it = None \<and> valueint it = 0 \<and> valuedouble it = of_i D 0 \<and> child it = []"

lemma parse_string_result:
  assumes "parse_string it v s = Inr (Some (c, v'), s')"
  shows "moved v' v" and "c_text v \<Longrightarrow> c_name (valuestring c)"
    and "c = Item cJSON_String (valuestring c) (valueint it) (valuedouble it) (jstring it) (child it)" and "mem s = mem s' + 1"
proof -
  obtain b where v: "v = CHR 0x22 # b" using assms by (auto simp: parse_string_def parse_fails_def split: if_splits)
  obtain n out b1 x where r: "copy_string b n [] = Inr (out, b1)" "v' = (if x = CHR 0x22 then tl b1 else b1)"
    and c: "c = Item cJSON_String (Some out) (valueint it) (valuedouble it) (jstring it) (child it)" and m: "mem s = mem s' + 1"
    using assms v by (auto simp: parse_string_def jmalloc_def Let_def split: if_splits)
  note cp = copy_string_result [OF r(1)]
  have "suffix v' b" using r(2) cp suffix_tl by auto
  then show "moved v' v" using v by simp
  show "c_name (valuestring c)" if "c_text v" using cp c_text_tl v that c by (auto simp: c_name_def)
  show "c = Item cJSON_String (valuestring c) (valueint it) (valuedouble it) (jstring it) (child it)" using c by simp
  show "mem s = mem s' + 1" by (rule m)
qed

lemma parse_number_result: "parse_number D it v = Inr (c, v') \<Longrightarrow>
  \<exists>n. c = Item cJSON_Number (valuestring it) (to_i D n) n (jstring it) (child it)"
  unfolding parse_number_def Let_def by (auto split: prod.splits)

section \<open>The contract of a value parser\<close>

locale value_parser =
  fixes D :: "'d dbl" and pv :: "'d value_parser" and depth :: nat
  assumes moves: "pv it v s = Inr (Some (c, v'), s') \<Longrightarrow> moved v' v"
    and builds: "pv it v s = Inr (Some (c, v'), s') \<Longrightarrow> c_text v \<Longrightarrow> new_item D it \<Longrightarrow>
      typed D c \<and> jstring c = jstring it \<and> mem s = mem s' + allocs c"
    and returns: "length v < depth \<Longrightarrow> ends_run (pv it v s)"
begin

lemma elems_run: "length v \<le> n \<Longrightarrow> 0 < n \<Longrightarrow> length v < depth \<Longrightarrow> ends_run (parse_elems D pv n it acc v s)"
proof (induction n arbitrary: acc v s)
  case (Suc n)
  have more: "ends_run (parse_elems D pv n it (acc @ [c]) (tl w) s2)"
    if "skip v = Inr v1" "pv i v1 s1 = Inr (Some (c, v2), s2)" "skip v2 = Inr w" "peek w = Inr x" for i v1 s1 c v2 w x s2
  proof -
    have "suffix v1 v" "moved v2 v1" "suffix w v2" using that skip_suffix moves by blast+
    then have "length w < length v" using suffix_length_le [of v1 v] suffix_length_le [of w v2] by (auto simp: moved_def)
    then show ?thesis using that(4) Suc.prems by (intro Suc.IH) (auto simp: neq_Nil_conv)
  qed
  have first: "ends_run (pv i w s1)" if "skip v = Inr w" for i w s1
    by (rule returns) (use suffix_length_le [OF skip_suffix [OF that]] Suc.prems in simp)
  show ?case unfolding parse_elems.simps by (intro ends_run_intros) (use more first in auto)
qed simp

lemma members_run: "length v \<le> n \<Longrightarrow> 0 < n \<Longrightarrow> length v < depth \<Longrightarrow> ends_run (parse_members D pv n it acc v s)"
proof (induction n arbitrary: acc v s)
  case (Suc n)
  have shrink: "length v3 < length v"
    if "skip v = Inr v1" "parse_string i v1 s1 = Inr (Some (c, v2), s2)" "skip v2 = Inr (x # w)" "skip w = Inr v3" for i v1 s1 c v2 w x v3 s2
  proof -
    have "suffix v1 v" "moved v2 v1" "suffix (x # w) v2" "suffix v3 w" using that skip_suffix parse_string_result(1) by blast+
    then show ?thesis
      using suffix_length_le [of v1 v] suffix_length_le [of "x # w" v2] suffix_length_le [of v3 w] by (auto simp: moved_def)
  qed
  have more: "ends_run (parse_members D pv n it (acc @ [c']) w' s4)"
    if "skip v = Inr v1" "parse_string i v1 s1 = Inr (Some (c, v2), s2)" "skip v2 = Inr (x # w)" "skip w = Inr v3"
      "pv i' v3 s3 = Inr (Some (c', v4), s4)" "skip v4 = Inr (y # w')" for i v1 s1 c v2 x w v3 s2 i' s3 c' v4 w' y s4
  proof -
    have "length (y # w') < length v"
      using shrink [OF that(1-4)] moves [OF that(5)] suffix_length_le [OF skip_suffix [OF that(6)]] by (simp add: moved_def)
    then show ?thesis using Suc.prems by (intro Suc.IH) auto
  qed
  have second: "ends_run (pv i' v3 s3)"
    if "skip v = Inr v1" "parse_string i v1 s1 = Inr (Some (c, v2), s2)" "skip v2 = Inr (x # w)" "skip w = Inr v3" for i v1 s1 c v2 w x v3 s2 i' s3
    by (rule returns) (use shrink [OF that] Suc.prems in simp)
  show ?case unfolding parse_members.simps Let_def by (intro ends_run_intros) (auto intro: more second)
qed simp

text \<open>What the loops build: the elements so far, then those they add.\<close>

lemma one_more:
  assumes "\<exists>ch. c = set_child ((acc @ [a]) @ ch) it \<and> (\<forall>x\<in>set ch. P x) \<and> m2 = (m' :: nat) + sum_list (map f ch)" "P a" "m = m2 + f a"
  shows "\<exists>ch. c = set_child (acc @ ch) it \<and> (\<forall>x\<in>set ch. P x) \<and> m = m' + sum_list (map f ch)"
proof -
  obtain ch where "c = set_child ((acc @ [a]) @ ch) it" "\<forall>x\<in>set ch. P x" "m2 = m' + sum_list (map f ch)" using assms(1) by blast
  then show ?thesis using assms(2,3) by (intro exI [of _ "a # ch"]) simp
qed

lemma elems_result:
  assumes "parse_elems D pv n it acc v s = Inr (Some (c, v'), s')"
  shows "moved v' v \<and> (c_text v \<longrightarrow> (\<exists>ch. c = set_child (acc @ ch) it \<and> (\<forall>a\<in>set ch. typed D a \<and> jstring a = None)
    \<and> mem s = mem s' + sum_list (map (\<lambda>a. allocs a + 1) ch)))"
  using assms
proof (induction n arbitrary: acc v s)
  case (Suc n)
  obtain v1 a v2 s2 w x where m: "mem s \<noteq> 0"
    and v1: "skip v = Inr v1" and a: "pv (Item 0 None 0 (of_i D 0) None []) v1 (s\<lparr>mem := mem s - 1\<rparr>) = Inr (Some (a, v2), s2)"
    and w: "skip v2 = Inr w" "peek w = Inr x"
    and r: "(if x = CHR '','' then parse_elems D pv n it (acc @ [a]) (tl w) s2
       else if x = CHR '']'' then Inr (Some (set_child (acc @ [a]) it, tl w), s2) else parse_fails w s2) = Inr (Some (c, v'), s')"
    using Suc.prems by (auto simp: cJSON_New_Item_def jmalloc_def jbind_def split: if_splits option.splits)
  have sfx: "moved (tl w) v"
  proof -
    have "suffix w v" using skip_suffix [OF v1] moves [OF a] skip_suffix [OF w(1)] by (auto simp: moved_def intro: suffix_order.trans)
    then show ?thesis using w(2) moved_tl by auto
  qed
  have b: "typed D a \<and> jstring a = None \<and> mem s = mem s2 + (allocs a + 1)" if "c_text v"
  proof -
    have "c_text v1" using that skip_suffix [OF v1] c_text_suffix by blast
    then show ?thesis using builds [OF a] m by (auto simp: new_item_def)
  qed
  have "parse_elems D pv n it (acc @ [a]) (tl w) s2 = Inr (Some (c, v'), s') \<or> (c = set_child (acc @ [a]) it \<and> v' = tl w \<and> s' = s2)"
    using r by (simp add: parse_fails_def split: if_split_asm)
  then consider (comma) "parse_elems D pv n it (acc @ [a]) (tl w) s2 = Inr (Some (c, v'), s')"
    | (stop) "c = set_child (acc @ [a]) it" "v' = tl w" "s' = s2"
    by blast
  then show ?case
  proof cases
    case comma
    note IH = Suc.IH [OF this]
    have "moved v' v" by (rule moved_trans [OF moved_suffix [OF conjunct1 [OF IH]] sfx])
    moreover have ct: "c_text (tl w)" if "c_text v" using that sfx moved_suffix c_text_suffix by blast
    ultimately show ?thesis
      by (intro conjI impI one_more [OF mp [OF conjunct2 [OF IH] ct]]) (simp_all add: b)
  next
    case stop
    then show ?thesis using sfx b by (auto intro: exI [of _ "[a]"])
  qed
qed simp

lemma members_result:
  assumes "parse_members D pv n it acc v s = Inr (Some (c, v'), s')"
  shows "moved v' v \<and> (c_text v \<longrightarrow> (\<exists>ch. c = set_child (acc @ ch) it \<and> (\<forall>a\<in>set ch. typed D a \<and> c_name (jstring a))
    \<and> mem s = mem s' + sum_list (map (\<lambda>a. allocs a + 2) ch)))"
  using assms
proof (induction n arbitrary: acc v s)
  case (Suc n)
  obtain v1 k v2 s1 u v3 a v4 s2 w x where m: "mem s \<noteq> 0"
    and v1: "skip v = Inr v1" and k: "parse_string (Item 0 None 0 (of_i D 0) None []) v1 (s\<lparr>mem := mem s - 1\<rparr>) = Inr (Some (k, v2), s1)"
    and u: "skip v2 = Inr u" "skip (tl u) = Inr v3" and a: "pv (name_of_value k) v3 s1 = Inr (Some (a, v4), s2)"
    and w: "skip v4 = Inr w" "peek w = Inr x"
    and r: "(if x = CHR '','' then parse_members D pv n it (acc @ [a]) (tl w) s2
       else if x = CHR ''}'' then Inr (Some (set_child (acc @ [a]) it, tl w), s2) else parse_fails w s2) = Inr (Some (c, v'), s')"
    using Suc.prems
    by (auto simp: cJSON_New_Item_def jmalloc_def jbind_def parse_fails_def Let_def split: if_splits option.splits)
  note str = parse_string_result [OF k]
  have "suffix u v" using skip_suffix [OF v1] str(1) skip_suffix [OF u(1)] by (auto simp: moved_def intro: suffix_order.trans)
  then have v3: "suffix v3 v" using suffix_tl skip_suffix [OF u(2)] suffix_order.trans by blast
  have sfx: "moved (tl w) v"
  proof -
    have "suffix w v" using v3 moves [OF a] skip_suffix [OF w(1)] by (auto simp: moved_def intro: suffix_order.trans)
    then show ?thesis using w(2) moved_tl by auto
  qed
  have b: "typed D a \<and> c_name (jstring a) \<and> mem s = mem s2 + (allocs a + 2)" if t: "c_text v"
  proof -
    have "c_text v1" "c_text v3" using t skip_suffix [OF v1] v3 c_text_suffix by blast+
    moreover have "k = Item cJSON_String (valuestring k) 0 (of_i D 0) None []" using str(3) by simp
    then have "new_item D (name_of_value k)" "jstring (name_of_value k) = valuestring k"
      by (metis cJSON.sel new_item_def name_of_value_def)+
    ultimately show ?thesis using builds [OF a] str(2,4) m by auto
  qed
  have "parse_members D pv n it (acc @ [a]) (tl w) s2 = Inr (Some (c, v'), s') \<or> (c = set_child (acc @ [a]) it \<and> v' = tl w \<and> s' = s2)"
    using r by (simp add: parse_fails_def split: if_split_asm)
  then consider (comma) "parse_members D pv n it (acc @ [a]) (tl w) s2 = Inr (Some (c, v'), s')"
    | (stop) "c = set_child (acc @ [a]) it" "v' = tl w" "s' = s2"
    by blast
  then show ?case
  proof cases
    case comma
    note IH = Suc.IH [OF this]
    have "moved v' v" by (rule moved_trans [OF moved_suffix [OF conjunct1 [OF IH]] sfx])
    moreover have ct: "c_text (tl w)" if "c_text v" using that sfx moved_suffix c_text_suffix by blast
    ultimately show ?thesis
      by (intro conjI impI one_more [OF mp [OF conjunct2 [OF IH] ct]]) (simp_all add: b)
  next
    case stop
    then show ?thesis using sfx b by (auto intro: exI [of _ "[a]"])
  qed
qed simp

lemma array_result:
  assumes r: "parse_array D pv it v s = Inr (Some (c, v'), s')"
  shows "moved v' v" and "c_text v \<Longrightarrow> new_item D it \<Longrightarrow> typed D c \<and> jstring c = jstring it \<and> mem s = mem s' + allocs c"
proof -
  let ?it = "set_type cJSON_Array (valueint it) it"
  obtain b w x where v: "v = CHR ''['' # b" and w: "skip b = Inr w" "peek w = Inr x"
    and r': "(if x = CHR '']'' then Inr (Some (?it, tl w), s) else parse_elems D pv (length w) ?it [] w s) = Inr (Some (c, v'), s')"
    using r by (auto simp: parse_array_def parse_fails_def Let_def split: if_split_asm)
  have sfx: "suffix w v" "suffix (tl w) b" using skip_suffix [OF w(1)] suffix_tl v by (auto intro: suffix_ConsI)
  have "moved v' v \<and> (c_text v \<longrightarrow> (\<exists>ch. c = set_child ch ?it \<and> (\<forall>a\<in>set ch. typed D a \<and> jstring a = None)
    \<and> mem s = mem s' + sum_list (map (\<lambda>a. allocs a + 1) ch)) \<or> c = ?it \<and> s = s')"
  proof (cases "x = CHR '']''")
    case False
    note el = elems_result [of "length w" ?it "[]" w s c v' s']
    have e: "parse_elems D pv (length w) ?it [] w s = Inr (Some (c, v'), s')" using r' False by simp
    have "moved v' v" using el [OF e] skip_suffix [OF w(1)] v by (auto simp: moved_def intro: suffix_order.trans suffix_ConsI dest: suffix_length_le)
    moreover have "c_text w" if "c_text v" using that sfx(1) c_text_suffix by blast
    ultimately show ?thesis using el [OF e] by auto
  qed (use r' sfx v in auto)
  then show "moved v' v" and "c_text v \<Longrightarrow> new_item D it \<Longrightarrow> typed D c \<and> jstring c = jstring it \<and> mem s = mem s' + allocs c"
    by (auto simp: set_child_def set_type_def new_item_def o_def)
qed

lemma object_result:
  assumes r: "parse_object D pv it v s = Inr (Some (c, v'), s')"
  shows "moved v' v" and "c_text v \<Longrightarrow> new_item D it \<Longrightarrow> typed D c \<and> jstring c = jstring it \<and> mem s = mem s' + allocs c"
proof -
  let ?it = "set_type cJSON_Object (valueint it) it"
  obtain b w x where v: "v = CHR ''{'' # b" and w: "skip b = Inr w" "peek w = Inr x"
    and r': "(if x = CHR ''}'' then Inr (Some (?it, tl w), s) else parse_members D pv (length w) ?it [] w s) = Inr (Some (c, v'), s')"
    using r by (auto simp: parse_object_def parse_fails_def Let_def split: if_split_asm)
  have sfx: "suffix w v" "suffix (tl w) b" using skip_suffix [OF w(1)] suffix_tl v by (auto intro: suffix_ConsI)
  have "moved v' v \<and> (c_text v \<longrightarrow> (\<exists>ch. c = set_child ch ?it \<and> (\<forall>a\<in>set ch. typed D a \<and> c_name (jstring a))
    \<and> mem s = mem s' + sum_list (map (\<lambda>a. allocs a + 2) ch)) \<or> c = ?it \<and> s = s')"
  proof (cases "x = CHR ''}''")
    case False
    note el = members_result [of "length w" ?it "[]" w s c v' s']
    have e: "parse_members D pv (length w) ?it [] w s = Inr (Some (c, v'), s')" using r' False by simp
    have "moved v' v" using el [OF e] skip_suffix [OF w(1)] v by (auto simp: moved_def intro: suffix_order.trans suffix_ConsI dest: suffix_length_le)
    moreover have "c_text w" if "c_text v" using that sfx(1) c_text_suffix by blast
    ultimately show ?thesis using el [OF e] by auto
  qed (use r' sfx v in auto)
  then show "moved v' v" and "c_text v \<Longrightarrow> new_item D it \<Longrightarrow> typed D c \<and> jstring c = jstring it \<and> mem s = mem s' + allocs c"
    by (auto simp: set_child_def set_type_def new_item_def o_def)
qed

lemma array_run: "length v \<le> depth \<Longrightarrow> ends_run (parse_array D pv it v s)"
  unfolding parse_array_def Let_def
  by (intro ends_run_intros elems_run) (auto dest!: skip_suffix dest: suffix_length_le)

lemma object_run: "length v \<le> depth \<Longrightarrow> ends_run (parse_object D pv it v s)"
  unfolding parse_object_def Let_def
  by (intro ends_run_intros members_run) (auto dest!: skip_suffix dest: suffix_length_le)

end

section \<open>The parser meets the contract\<close>

lemma starts_lit_moved: "starts_lit (c # l) v = Inr True \<Longrightarrow> moved (drop (Suc (length l)) v) v"
  using starts_lit_drop [of "c # l" v] by simp

lemma parse_value_cases:
  assumes "parse_value D (Suc k) it v s = Inr (Some (c, v'), s')"
  obtains (lit) ty vi where "moved v' v" "c = set_type ty vi it" "s' = s" "(ty = cJSON_True \<and> vi = 1) \<or> (ty \<in> {cJSON_NULL, cJSON_False} \<and> vi = valueint it)"
  | (str) "parse_string it v s = Inr (Some (c, v'), s')"
  | (num) "parse_number D it v = Inr (c, v')" "s' = s" "moved v' v"
  | (arr) "parse_array D (parse_value D k) it v s = Inr (Some (c, v'), s')"
  | (obj) "parse_object D (parse_value D k) it v s = Inr (Some (c, v'), s')"
proof -
  obtain n f t where lits: "starts_lit ''null'' v = Inr n" "n \<or> starts_lit ''false'' v = Inr f" "n \<or> f \<or> starts_lit ''true'' v = Inr t"
    using assms by (auto split: if_split_asm)
  show thesis
  proof (cases "n \<or> f \<or> t")
    case True
    then consider "n" | "\<not> n" "f" | "\<not> n" "\<not> f" "t" by blast
    then show thesis
    proof cases
      case 1
      then show thesis using assms lits starts_lit_moved [of "CHR ''n''" "''ull''" v] by (intro lit [of cJSON_NULL "valueint it"]) (auto simp: eval_nat_numeral)
    next
      case 2
      then show thesis using assms lits starts_lit_moved [of "CHR ''f''" "''alse''" v] by (intro lit [of cJSON_False "valueint it"]) (auto simp: eval_nat_numeral)
    next
      case 3
      then show thesis using assms lits starts_lit_moved [of "CHR ''t''" "''rue''" v] by (intro lit [of cJSON_True 1]) (auto simp: eval_nat_numeral)
    qed
  next
    case False
    then obtain x b where "v = x # b" using assms lits by auto
    then show thesis using False assms lits str num arr obj parse_number_moved [of x b D it]
      by (auto simp: parse_fails_def leaves_def split: if_split_asm)
  qed
qed

lemma parse_value_contract: "value_parser D (parse_value D k) k"
proof (induction k)
  case 0
  then show ?case by unfold_locales simp_all
next
  case (Suc k)
  note ar = value_parser.array_result [OF Suc] and ob = value_parser.object_result [OF Suc]
  show ?case
  proof
    fix it v s c v' s' assume r: "parse_value D (Suc k) it v s = Inr (Some (c, v'), s')"
    show "moved v' v"
      by (rule parse_value_cases [OF r]) (use ar(1) ob(1) parse_string_result(1) in blast)+
    assume t: "c_text v" "new_item D it"
    from r show "typed D c \<and> jstring c = jstring it \<and> mem s = mem s' + allocs c"
    proof (cases rule: parse_value_cases)
      case str
      note res = parse_string_result [OF str]
      show ?thesis using res(2) [OF t(1)] res(4) t(2) by (subst res(3), subst (2) res(3), subst (3) res(3)) (simp add: new_item_def)
    next
      case num
      then show ?thesis using parse_number_result [OF num(1)] t(2) by (auto simp: new_item_def)
    next
      case (lit ty vi)
      then show ?thesis using t(2) by (auto simp: set_type_def new_item_def)
    next
      case arr
      then show ?thesis using t by (rule ar(2))
    next
      case obj
      then show ?thesis using t by (rule ob(2))
    qed
  next
    fix it s and v :: ctext assume "length v < Suc k"
    then have "length v \<le> k" by simp
    then show "ends_run (parse_value D (Suc k) it v s)"
      using value_parser.array_run [OF Suc] value_parser.object_run [OF Suc]
      unfolding parse_value.simps by (intro ends_run_intros) simp_all
  qed
qed

interpretation pv: value_parser D "parse_value D k" k for D k
  by (rule parse_value_contract)

text \<open>C25: whatever text is parsed and whatever memory there is, the parser comes to an end: the nesting of calls and the
  turns of the loops are bounded by the length of the text.\<close>

theorem cjson_parse_terminates:
  assumes "length v < k"
  shows "cJSON_ParseWithOpts D k v required s \<noteq> Inl NoFuel"
proof -
  have "ends_run (parse_value D k i w s')" if "skip v = Inr w" for i w s'
    by (rule pv.returns) (use assms suffix_length_le [OF skip_suffix [OF that]] in simp)
  then have "ends_run (cJSON_ParseWithOpts D k v required s)"
    unfolding cJSON_ParseWithOpts_def Let_def by (intro ends_run_intros) auto
  then show ?thesis by (simp add: ends_run_def)
qed

theorem cjson_parse_terminates_witness:
  "cJSON_ParseWithOpts int_dbl 4 ''[[['' True \<lparr>ep = None, mem = 3\<rparr> \<noteq> Inl NoFuel"
  by (rule cjson_parse_terminates) simp

lemma typed_json_ok:
  assumes "\<forall>d. -2147483648 \<le> to_i D d \<and> to_i D d \<le> 2147483647"
  shows "typed D c \<Longrightarrow> jstring c = None \<or> c_name (jstring c) \<Longrightarrow> json_ok c"
proof (induction c)
  case (Item ty vs vi vd st ch)
  have m: "ty mod 256 = ty" using Item.prems(1) by simp
  have "json_ok c" if "c \<in> set ch" for c
    by (rule Item.IH [OF that]) (use Item.prems(1) that in \<open>auto split: if_splits\<close>)
  moreover have "jstring c \<noteq> None" if "ty = cJSON_Object" "c \<in> set ch" for c using Item.prems(1) that by (auto simp: c_name_def)
  moreover have "-2147483648 \<le> vi \<and> vi \<le> 2147483647" using Item.prems(1) assms by (auto split: if_splits)
  ultimately show ?case using Item.prems m by (auto simp: c_name_def split: if_splits)
qed

lemma Parse_typed:
  assumes "cJSON_Parse D k (t @ [NUL]) s = Inr (Some c, s')" "NUL \<notin> set t"
  shows "typed D c \<and> jstring c = None \<and> mem s = mem s' + Suc (allocs c)"
proof -
  let ?i = "Item 0 None 0 (of_i D 0) None []"
  obtain w v' where w: "skip (t @ [NUL]) = Inr w" and m: "mem s \<noteq> 0"
    and p: "parse_value D k ?i w (s\<lparr>mem := mem s - 1, ep := None\<rparr>) = Inr (Some (c, v'), s')"
    using assms(1) by (auto simp: cJSON_Parse_def cJSON_ParseWithOpts_def cJSON_New_Item_def jmalloc_def jbind_def Let_def split: if_splits option.splits)
  have "c_text w" using c_text_suffix [OF _ skip_suffix [OF w]] assms(2) by (simp add: c_text_def)
  then have "typed D c \<and> jstring c = None \<and> mem s - 1 = mem s' + allocs c" using pv.builds [OF p] by (simp add: new_item_def)
  then show ?thesis using m by auto
qed

end
