(* ===== verification/CJsonBuffer.thy ===== *)
theory CJsonBuffer
  imports CJsonType
begin

text \<open>
  The printer of \<^verbatim>\<open>cJSON.c\<close> that writes into one growing buffer (\<open>cJSON_PrintBuffered\<close>: the branches with a
  \<open>printbuffer\<close>). The bytes of the buffer are explicit, since \<open>update\<close> finds the end of what a call has written by
  reading on to a terminator; what a fresh block contains is the parameter \<open>M\<close>. A pointer into the buffer is an
  index. Every write is checked against the size of the block.
\<close>

section \<open>The buffer\<close>

record printbuffer =
  buffer :: "char list option"
  buf_length :: nat
  offset :: nat

text \<open>A result with a pointer that may be 0, the buffer and the state.\<close>

type_synonym 'a bres = "('a option \<times> printbuffer \<times> jstate) res"

definition pbind :: "'a bres \<Rightarrow> ('a \<Rightarrow> printbuffer \<Rightarrow> jstate \<Rightarrow> 'b bres) \<Rightarrow> 'b bres" where
  "pbind m f = rbind m (\<lambda>(x, p, s). case x of None \<Rightarrow> Inr (None, p, s) | Some y \<Rightarrow> f y p s)"

definition pow2gt :: "int \<Rightarrow> int" where
  "pow2gt x = (let x = x - 1; x = x OR drop_bit 1 x; x = x OR drop_bit 2 x; x = x OR drop_bit 4 x;
     x = x OR drop_bit 8 x; x = x OR drop_bit 16 x in x + 1)"

definition ensure :: "(nat \<Rightarrow> char list) \<Rightarrow> nat \<Rightarrow> printbuffer \<Rightarrow> jstate \<Rightarrow> nat bres" where
  "ensure M needed p s = (case buffer p of None \<Rightarrow> Inr (None, p, s)
     | Some b \<Rightarrow> let needed = needed + offset p in
         if needed \<le> buf_length p then Inr (Some (offset p), p, s)
         else let newsize = pow2gt (int needed) in
           if newsize > 2147483647 then Inl Overflow
           else if mem s = 0 then Inr (None, p\<lparr>buf_length := 0, buffer := None\<rparr>, s)
           else if buf_length p > length b \<or> buf_length p > nat newsize then Inl OutOfBounds
           else Inr (Some (offset p), p\<lparr>buffer := Some (take (buf_length p) b @ drop (buf_length p) (M (nat newsize))),
                    buf_length := nat newsize\<rparr>, s\<lparr>mem := mem s - 1\<rparr>))"

definition update :: "printbuffer \<Rightarrow> nat res" where
  "update p = (case buffer p of None \<Rightarrow> Inr 0
     | Some b \<Rightarrow> rbind (get_str (drop (offset p) b)) (\<lambda>str. Inr (offset p + length str)))"

text \<open>The bytes \<open>w\<close> written at the index \<open>i\<close>, and \<open>ensure\<close> with the writes that follow it.\<close>

definition put_at :: "nat \<Rightarrow> char list \<Rightarrow> printbuffer \<Rightarrow> printbuffer res" where
  "put_at i w p = (case buffer p of None \<Rightarrow> Inl NullDeref
     | Some b \<Rightarrow> if i + length w \<le> length b then Inr (p\<lparr>buffer := Some (take i b @ w @ drop (i + length w) b)\<rparr>) else Inl OutOfBounds)"

definition emit :: "(nat \<Rightarrow> char list) \<Rightarrow> nat \<Rightarrow> char list \<Rightarrow> printbuffer \<Rightarrow> jstate \<Rightarrow> nat bres" where
  "emit M needed w p s = pbind (ensure M needed p s) (\<lambda>i p s. rbind (put_at i w p) (\<lambda>p. Inr (Some i, p, s)))"

text \<open>\<open>p->offset += n\<close>, and a call whose result is dropped, followed by \<open>p->offset = update(p)\<close>.\<close>

definition move_offset :: "nat \<Rightarrow> printbuffer \<Rightarrow> printbuffer" where
  "move_offset n p = p\<lparr>offset := offset p + n\<rparr>"

definition then_update :: "nat bres \<Rightarrow> (printbuffer \<Rightarrow> jstate \<Rightarrow> 'a bres) \<Rightarrow> 'a bres" where
  "then_update m f = rbind m (\<lambda>(_, p, s). rbind (update p) (\<lambda>n. f (p\<lparr>offset := n\<rparr>) s))"

section \<open>Printing into the buffer\<close>

definition b_number :: "'d dbl \<Rightarrow> (nat \<Rightarrow> char list) \<Rightarrow> 'd cJSON \<Rightarrow> printbuffer \<Rightarrow> jstate \<Rightarrow> nat bres" where
  "b_number D M item p s =
     (let d = valuedouble item in
      if d_eq D d (of_i D 0) then emit M 2 (''0'' @ [NUL]) p s
      else if d_le D (fabs D (d_sub D (of_i D (valueint item)) d)) (EPSILON D)
          \<and> d_le D d (of_i D 2147483647) \<and> d_le D (of_i D (-2147483648)) d
        then emit M 21 (decimal (valueint item) @ [NUL]) p s
      else emit M 64
        ((if d_le D (fabs D (d_sub D (d_floor D d) d)) (EPSILON D) \<and> d_lt D (fabs D d) (d1e60 D) then fmt_0f D d
          else if d_lt D (fabs D d) (d1em6 D) \<or> d_lt D (of_i D 1000000000) (fabs D d) then fmt_e D d
          else fmt_f D d) @ [NUL]) p s)"

definition b_string :: "(nat \<Rightarrow> char list) \<Rightarrow> char list option \<Rightarrow> printbuffer \<Rightarrow> jstate \<Rightarrow> nat bres" where
  "b_string M str p s = (case str of None \<Rightarrow> Inl NullDeref
     | Some t \<Rightarrow>
       let flag = list_ex needs_escape t;
           len = (if flag then int (sum_list (map escape_len t)) else int_of_size (length t)) in
       if len + 3 > INT_MAX then Inl Overflow
       else emit M (nat (len + 3)) ([CHR 0x22] @ (if flag then concat (map escape t) else t) @ [CHR 0x22] @ [NUL]) p s)"

text \<open>A child is given by its printer, which takes the depth, in an object also by its name. \<open>b_elems\<close> and
  \<open>b_members\<close> are the loops over the children.\<close>

type_synonym bprinter = "int \<Rightarrow> printbuffer \<Rightarrow> jstate \<Rightarrow> nat bres"

primrec b_elems :: "(nat \<Rightarrow> char list) \<Rightarrow> bool \<Rightarrow> int \<Rightarrow> bprinter list \<Rightarrow> printbuffer \<Rightarrow> jstate \<Rightarrow> unit bres" where
  "b_elems M fmt depth [] p s = Inr (Some (), p, s)"
| "b_elems M fmt depth (q # qs) p s = then_update (q depth p s) (\<lambda>p s.
     if qs \<noteq> [] then
       let len = (if fmt then 2 else 1) in
       pbind (emit M (len + 1) ([CHR '',''] @ (if fmt then [CHR '' ''] else []) @ [NUL]) p s)
         (\<lambda>_ p s. b_elems M fmt depth qs (move_offset len p) s)
     else Inr (Some (), p, s))"

definition b_array :: "(nat \<Rightarrow> char list) \<Rightarrow> bool \<Rightarrow> int \<Rightarrow> bprinter list \<Rightarrow> printbuffer \<Rightarrow> jstate \<Rightarrow> nat bres" where
  "b_array M fmt depth qs p s =
     (if qs = [] then emit M 3 (''[]'' @ [NUL]) p s
      else let i = offset p in
        pbind (emit M 1 ''['' p s) (\<lambda>_ p s. pbind (b_elems M fmt (depth + 1) qs (move_offset 1 p) s) (\<lambda>_ p s.
        pbind (emit M 2 ('']'' @ [NUL]) p s) (\<lambda>_ p s. Inr (Some i, p, s)))))"

primrec b_members :: "(nat \<Rightarrow> char list) \<Rightarrow> bool \<Rightarrow> int \<Rightarrow> (char list option \<times> bprinter) list \<Rightarrow> printbuffer \<Rightarrow> jstate \<Rightarrow> unit bres" where
  "b_members M fmt depth [] p s = Inr (Some (), p, s)"
| "b_members M fmt depth (m # ms) p s =
     pbind (if fmt then pbind (emit M (nat depth) (tabs depth) p s) (\<lambda>_ p s. Inr (Some (), move_offset (nat depth) p, s))
            else Inr (Some (), p, s)) (\<lambda>_ p s.
     then_update (b_string M (fst m) p s) (\<lambda>p s.
     let len = (if fmt then 2 else 1) in
     pbind (emit M len ([CHR '':''] @ (if fmt then [CHR 0x09] else [])) p s) (\<lambda>_ p s.
     then_update (snd m depth (move_offset len p) s) (\<lambda>p s.
     let len = (if fmt then 1 else 0) + (if ms \<noteq> [] then 1 else 0) in
     pbind (emit M (len + 1) ((if ms \<noteq> [] then [CHR '',''] else []) @ (if fmt then [CHR 0x0A] else []) @ [NUL]) p s)
       (\<lambda>_ p s. b_members M fmt depth ms (move_offset len p) s)))))"

definition b_object :: "(nat \<Rightarrow> char list) \<Rightarrow> bool \<Rightarrow> int \<Rightarrow> (char list option \<times> bprinter) list \<Rightarrow> printbuffer \<Rightarrow> jstate \<Rightarrow> nat bres" where
  "b_object M fmt depth ms p s =
     (if ms = [] then emit M (if fmt then nat (depth + 4) else 3)
        ([CHR ''{''] @ (if fmt then [CHR 0x0A] @ tabs (depth - 1) else []) @ [CHR ''}'', NUL]) p s
      else let i = offset p; len = (if fmt then 2 else 1) in
        pbind (emit M (len + 1) ([CHR ''{''] @ (if fmt then [CHR 0x0A] else []) @ [NUL]) p s) (\<lambda>_ p s.
        pbind (b_members M fmt (depth + 1) ms (move_offset len p) s) (\<lambda>_ p s.
        pbind (emit M (if fmt then nat (depth + 2) else 2) ((if fmt then tabs depth else []) @ [CHR ''}'', NUL]) p s)
          (\<lambda>_ p s. Inr (Some i, p, s)))))"

primrec b_value :: "'d dbl \<Rightarrow> (nat \<Rightarrow> char list) \<Rightarrow> bool \<Rightarrow> 'd cJSON \<Rightarrow> bprinter" where
  "b_value D M fmt (Item ty vs vi vd st ch) = (\<lambda>depth p s.
     let t = ty mod 256 in
      if t = cJSON_NULL then emit M 5 (''null'' @ [NUL]) p s
      else if t = cJSON_False then emit M 6 (''false'' @ [NUL]) p s
      else if t = cJSON_True then emit M 5 (''true'' @ [NUL]) p s
      else if t = cJSON_Number then b_number D M (Item ty vs vi vd st ch) p s
      else if t = cJSON_String then b_string M vs p s
      else if t = cJSON_Array then b_array M fmt depth (map (b_value D M fmt) ch) p s
      else if t = cJSON_Object then b_object M fmt depth (zip (map jstring ch) (map (b_value D M fmt) ch)) p s
      else Inr (None, p, s))"

text \<open>A negative size is no size \<open>malloc\<close> can meet. The result is the string the returned pointer stands for.\<close>

definition cJSON_PrintBuffered :: "'d dbl \<Rightarrow> (nat \<Rightarrow> char list) \<Rightarrow> 'd cJSON \<Rightarrow> int \<Rightarrow> bool \<Rightarrow> jstate \<Rightarrow> char list jres" where
  "cJSON_PrintBuffered D M item prebuffer fmt s =
     (let (b, s) = (if prebuffer < 0 \<or> mem s = 0 then (None, s) else (Some (M (nat prebuffer)), s\<lparr>mem := mem s - 1\<rparr>)) in
      rbind (b_value D M fmt item 0 \<lparr>buffer = b, buf_length = nat prebuffer, offset = 0\<rparr> s) (\<lambda>(out, p, s).
      case out of None \<Rightarrow> Inr (None, s)
      | Some i \<Rightarrow> (case buffer p of None \<Rightarrow> Inl BadPointer | Some b \<Rightarrow> rbind (get_str (drop i b)) (\<lambda>t. Inr (Some t, s)))))"

section \<open>What a step leaves in the buffer\<close>

lemma or_shifted:
  assumes "0 \<le> a" "a < 2 ^ n"
  shows "0 \<le> a OR drop_bit k a \<and> a \<le> a OR drop_bit k a \<and> a OR drop_bit k a < (2 :: int) ^ n"
proof -
  have "drop_bit k a \<le> a" using zdiv_mono2 [of a 1 "2 ^ k"] assms(1) by (simp add: drop_bit_int_def)
  then show ?thesis using assms OR_upper [of a n "drop_bit k a"] or_greater_eq [of "drop_bit k a" a] by simp
qed

lemma pow2gt_between:
  assumes "0 < x" "x \<le> 2 ^ n"
  shows "x \<le> pow2gt x \<and> pow2gt x \<le> 2 ^ n"
proof -
  let ?y = "\<lambda>k a :: int. a OR drop_bit k a"
  note s1 = or_shifted [of "x - 1" n 1]
  note s2 = or_shifted [of "?y 1 (x - 1)" n 2]
  note s3 = or_shifted [of "?y 2 (?y 1 (x - 1))" n 4]
  note s4 = or_shifted [of "?y 4 (?y 2 (?y 1 (x - 1)))" n 8]
  note s5 = or_shifted [of "?y 8 (?y 4 (?y 2 (?y 1 (x - 1))))" n 16]
  show ?thesis unfolding pow2gt_def Let_def using s1 s2 s3 s4 s5 assms by linarith
qed

text \<open>The first \<open>length w\<close> bytes are \<open>w\<close>, and the offset is \<open>off\<close>.\<close>

definition has_text :: "printbuffer \<Rightarrow> nat \<Rightarrow> char list \<Rightarrow> bool" where
  "has_text p off w \<longleftrightarrow> (\<exists>r. buffer p = Some (w @ r) \<and> buf_length p = length w + length r) \<and> offset p = off"

text \<open>A step that succeeds with \<open>Q\<close> when a number of allocations that is its own succeeds, and otherwise loses the
  buffer; when \<open>strict\<close>, it then returns 0.\<close>

definition runs :: "bool \<Rightarrow> (jstate \<Rightarrow> 'a bres) \<Rightarrow> ('a \<Rightarrow> printbuffer \<Rightarrow> bool) \<Rightarrow> bool" where
  "runs strict f Q \<longleftrightarrow> (\<exists>n x p. Q x p \<and> (\<forall>s. if n \<le> mem s then f s = Inr (Some x, p, s\<lparr>mem := mem s - n\<rparr>)
     else (\<exists>y q. f s = Inr (y, q, s\<lparr>mem := 0\<rparr>) \<and> buffer q = None \<and> (strict \<longrightarrow> y = None))))"

definition blocks_ok :: "(nat \<Rightarrow> char list) \<Rightarrow> bool" where
  "blocks_ok M \<longleftrightarrow> (\<forall>n. length (M n) = n)"

lemma has_text_dead [simp]: "buffer p = None \<Longrightarrow> \<not> has_text p off w"
  by (simp add: has_text_def)

lemma has_text_prefix: "has_text p off (w @ u) \<Longrightarrow> has_text p off w"
  by (auto simp: has_text_def)

lemma has_text_move_offset: "has_text p off w \<Longrightarrow> has_text (move_offset n p) (off + n) w"
  by (auto simp: has_text_def move_offset_def)

lemma has_text_written: "has_text p (length u) (u @ w @ x) \<Longrightarrow> n = length w \<Longrightarrow> has_text (move_offset n p) (length (u @ w)) (u @ w)"
  using has_text_move_offset [of p "length u" "u @ w" n] has_text_prefix [of p "length u" "u @ w" x] by simp

lemma runs_0: "(\<And>s. f s = Inr (Some x, p, s)) \<Longrightarrow> Q x p \<Longrightarrow> runs b f Q"
  unfolding runs_def by (intro exI [of _ "0 :: nat"] exI [of _ x] exI [of _ p]) simp

lemma runs_1:
  assumes "\<And>s. f s = (if mem s = 0 then Inr (None, q, s) else Inr (Some x, p, s\<lparr>mem := mem s - 1\<rparr>))" "buffer q = None" "Q x p"
  shows "runs b f Q"
  unfolding runs_def using assms by (intro exI [of _ "1 :: nat"] exI [of _ x] exI [of _ p]) auto

lemma runs_mono: "runs b f Q \<Longrightarrow> (\<And>x p. Q x p \<Longrightarrow> R x p) \<Longrightarrow> runs b f R"
  unfolding runs_def by blast

lemma runs_comp:
  assumes m: "runs c m Q" and f: "\<And>x p. Q x p \<Longrightarrow> runs b (f x p) R"
    and live: "\<And>x p s. Q x p \<Longrightarrow> g (Inr (Some x, p, s)) = f x p s"
    and dead: "\<And>y q s. buffer q = None \<Longrightarrow> (c \<Longrightarrow> y = None) \<Longrightarrow> \<exists>z r. g (Inr (y, q, s)) = Inr (z, r, s) \<and> buffer r = None \<and> (b \<longrightarrow> z = None)"
  shows "runs b (\<lambda>s. g (m s)) R"
proof -
  obtain n x p where Q: "Q x p" and ms: "\<forall>s. if n \<le> mem s then m s = Inr (Some x, p, s\<lparr>mem := mem s - n\<rparr>)
     else (\<exists>y q. m s = Inr (y, q, s\<lparr>mem := 0\<rparr>) \<and> buffer q = None \<and> (c \<longrightarrow> y = None))" using m unfolding runs_def by blast
  obtain k y q where R: "R y q" and fs: "\<forall>s. if k \<le> mem s then f x p s = Inr (Some y, q, s\<lparr>mem := mem s - k\<rparr>)
     else (\<exists>z r. f x p s = Inr (z, r, s\<lparr>mem := 0\<rparr>) \<and> buffer r = None \<and> (b \<longrightarrow> z = None))" using f [OF Q] unfolding runs_def by blast
  have "if n + k \<le> mem s then g (m s) = Inr (Some y, q, s\<lparr>mem := mem s - (n + k)\<rparr>)
     else (\<exists>z r. g (m s) = Inr (z, r, s\<lparr>mem := 0\<rparr>) \<and> buffer r = None \<and> (b \<longrightarrow> z = None))" for s
  proof (cases "n \<le> mem s")
    case True
    then have "g (m s) = f x p (s\<lparr>mem := mem s - n\<rparr>)" using ms live [OF Q] by simp
    then show ?thesis using fs [THEN spec, of "s\<lparr>mem := mem s - n\<rparr>"] True by (auto split: if_splits)
  next
    case False
    then obtain y' q' where "m s = Inr (y', q', s\<lparr>mem := 0\<rparr>)" "buffer q' = None" "c \<longrightarrow> y' = None" using ms by meson
    then show ?thesis using dead [of q' y' "s\<lparr>mem := 0\<rparr>"] False by auto
  qed
  then show ?thesis using R unfolding runs_def by blast
qed

lemma runs_bind:
  assumes "runs True m Q" "\<And>x p. Q x p \<Longrightarrow> runs b (f x p) R"
  shows "runs b (\<lambda>s. pbind (m s) f) R"
  by (rule runs_comp [OF assms]) (simp_all add: pbind_def)

text \<open>A continuation that ends in a write fails when the buffer is gone.\<close>

definition dies :: "bool \<Rightarrow> (printbuffer \<Rightarrow> jstate \<Rightarrow> 'a bres) \<Rightarrow> bool" where
  "dies b f \<longleftrightarrow> (\<forall>p s. buffer p = None \<longrightarrow> (\<exists>z r. f p s = Inr (z, r, s) \<and> buffer r = None \<and> (b \<longrightarrow> z = None)))"

lemma dies_emit: "dies b (\<lambda>p s. pbind (emit M n w p s) f)"
  by (simp add: dies_def emit_def ensure_def pbind_def)

lemma dies_return: "dies False (\<lambda>p s. Inr (x, p, s))"
  by (simp add: dies_def)

lemma runs_bind_loose:
  assumes "runs False m Q" "\<And>x p. Q x p \<Longrightarrow> runs b (f x p) R" "\<And>x. dies b (f x)"
  shows "runs b (\<lambda>s. pbind (m s) f) R"
  by (rule runs_comp [OF assms(1,2)]) (use assms(3) in \<open>auto simp: pbind_def dies_def split: option.split\<close>)

lemma update_has_text:
  assumes "has_text p (length u + k) (u @ w @ [NUL])" "k \<le> length w" "NUL \<notin> set w"
  shows "update p = Inr (length u + length w)"
proof -
  have "NUL \<notin> set (drop k w)" using assms(3) by (auto dest: in_set_dropD)
  then show ?thesis using assms by (auto simp: has_text_def update_def)
qed

text \<open>A printer that appends \<open>w\<close> and leaves the offset somewhere inside it, and the call of one in a loop.\<close>

definition prints :: "(printbuffer \<Rightarrow> jstate \<Rightarrow> nat bres) \<Rightarrow> char list \<Rightarrow> bool" where
  "prints f w \<longleftrightarrow> NUL \<notin> set w \<and> (\<forall>p u. has_text p (length u) u \<longrightarrow> length u + length w + 64 \<le> 2 ^ 30 \<longrightarrow>
     runs True (f p) (\<lambda>i q. i = length u \<and> (\<exists>k\<le>length w. has_text q (length u + k) (u @ w @ [NUL]))))"

lemma runs_then_update:
  assumes "prints f w" "has_text p (length u) u" "length u + length w + 64 \<le> 2 ^ 30"
    and "\<And>q. has_text q (length (u @ w)) (u @ w) \<Longrightarrow> runs b (g q) R" and "dies b g"
  shows "runs b (\<lambda>s. then_update (f p s) g) R"
proof (rule runs_comp [where g = "\<lambda>r. then_update r g" and m = "f p"])
  show "runs True (f p) (\<lambda>i q. i = length u \<and> (\<exists>k\<le>length w. has_text q (length u + k) (u @ w @ [NUL])))"
    using assms(1-3) unfolding prints_def by blast
  have w: "NUL \<notin> set w" using assms(1) by (simp add: prints_def)
  fix x q assume q: "x = length u \<and> (\<exists>k\<le>length w. has_text q (length u + k) (u @ w @ [NUL]))"
  then have "has_text (q\<lparr>offset := length u + length w\<rparr>) (length (u @ w)) (u @ w)" by (auto simp: has_text_def)
  then show "runs b (g (q\<lparr>offset := length u + length w\<rparr>)) R" by (rule assms(4))
  fix s
  show "then_update (Inr (Some x, q, s)) g = g (q\<lparr>offset := length u + length w\<rparr>) s"
    using q update_has_text [of q u _ w] w by (auto simp: then_update_def)
next
  fix y :: "nat option" and q :: printbuffer and s :: jstate assume "buffer q = None"
  then show "\<exists>z r. then_update (Inr (y, q, s)) g = Inr (z, r, s) \<and> buffer r = None \<and> (b \<longrightarrow> z = None)"
    using assms(5) by (simp add: then_update_def update_def dies_def)
qed

lemma runs_emit:
  assumes M: "blocks_ok M" and p: "has_text p (length u) u" and w: "length w \<le> n" "0 < n" "length u + n \<le> 2 ^ 30"
  shows "runs True (emit M n w p) (\<lambda>i q. i = length u \<and> has_text q (length u) (u @ w))"
proof -
  obtain r where r: "buffer p = Some (u @ r)" "buf_length p = length u + length r" and off: "offset p = length u"
    using p by (auto simp: has_text_def)
  let ?new = "pow2gt (int (length u + n))"
  have new: "int (length u + n) \<le> ?new" "?new \<le> 2 ^ 30"
    using pow2gt_between [of "int (length u + n)" 30] w by simp_all
  show ?thesis
  proof (cases "length u + n \<le> buf_length p")
    case True
    then have "emit M n w p s = Inr (Some (length u), p\<lparr>buffer := Some (u @ w @ drop (length w) r)\<rparr>, s)" for s
      using r off w by (simp add: emit_def ensure_def pbind_def put_at_def add.commute)
    moreover have "has_text (p\<lparr>buffer := Some (u @ w @ drop (length w) r)\<rparr>) (length u) (u @ w)"
      using True r off w by (auto simp: has_text_def)
    ultimately show ?thesis by (intro runs_0 [where x = "length u"]) simp_all
  next
    case False
    let ?b = "r @ drop (buf_length p) (M (nat ?new))"
    let ?q = "p\<lparr>buffer := Some (u @ w @ drop (length w) ?b), buf_length := nat ?new\<rparr>"
    have len: "length (M (nat ?new)) = nat ?new" using M by (simp add: blocks_ok_def)
    have fits: "buf_length p \<le> nat ?new" "length u + length w \<le> nat ?new" "\<not> ?new > 2147483647" using False new w by auto
    have "emit M n w p s = (if mem s = 0 then Inr (None, p\<lparr>buf_length := 0, buffer := None\<rparr>, s)
        else Inr (Some (length u), ?q, s\<lparr>mem := mem s - 1\<rparr>))" for s
      using r off False fits len by (simp add: Let_def emit_def ensure_def pbind_def put_at_def add.commute)
    then show ?thesis
    proof (rule runs_1)
      show "length u = length u \<and> has_text ?q (length u) (u @ w)" using r off fits len by (auto simp: has_text_def)
    qed simp
  qed
qed

lemma prints_emit:
  assumes "blocks_ok M" "NUL \<notin> set w" "length w < n" "n \<le> length w + 64"
  shows "prints (emit M n (w @ [NUL])) w"
  unfolding prints_def
proof (intro conjI allI impI)
  fix p u assume p: "has_text p (length u) u" "length u + length w + 64 \<le> 2 ^ 30"
  have "runs True (emit M n (w @ [NUL]) p) (\<lambda>i q. i = length u \<and> has_text q (length u) (u @ w @ [NUL]))"
    by (rule runs_emit [OF assms(1) p(1)]) (use assms p(2) in auto)
  then show "runs True (emit M n (w @ [NUL]) p) (\<lambda>i q. i = length u \<and> (\<exists>k\<le>length w. has_text q (length u + k) (u @ w @ [NUL])))"
    by (rule runs_mono) (auto intro!: exI [of _ "0 :: nat"])
qed (rule assms(2))

section \<open>The printers\<close>

definition formats_NUL :: "'d dbl \<Rightarrow> bool" where
  "formats_NUL D \<longleftrightarrow> (\<forall>d. NUL \<notin> set (fmt_0f D d) \<and> NUL \<notin> set (fmt_e D d) \<and> NUL \<notin> set (fmt_f D d))"

lemma prints_number:
  assumes "blocks_ok M" "number_formats D" "formats_NUL D" "-2147483648 \<le> vi" "vi \<le> 2147483647"
  shows "prints (b_number D M (Item ty vs vi vd st ch)) (number_text D vi vd)"
proof -
  let ?w = "number_text D vi vd"
  have "\<exists>n. b_number D M (Item ty vs vi vd st ch) = emit M n (?w @ [NUL]) \<and> length ?w < n \<and> n \<le> length ?w + 64 \<and> NUL \<notin> set ?w"
    unfolding b_number_def number_text_def Let_def cJSON.sel fun_eq_iff
    using assms length_decimal [OF assms(4,5)] decimal_NUL unfolding number_formats_def formats_NUL_def
    by (auto split del: if_split split: if_split)
  then show ?thesis using prints_emit [OF assms(1)] by auto
qed

lemma b_string_emit:
  assumes "NUL \<notin> set t" "length (quoted t) + 64 \<le> 2 ^ 30"
  shows "b_string M (Some t) p s = emit M (length (quoted t) + 1) (quoted t @ [NUL]) p s"
proof -
  let ?flag = "list_ex needs_escape t"
  define len where "len = (if ?flag then int (sum_list (map escape_len t)) else int_of_size (length t))"
  have e: "len + 3 = int (length (quoted t) + 1)"
    using string_sizes(1) [OF assms(1)] string_sizes(3) [OF assms(1)] assms(2) int_of_size_small [of "length t"] by (auto simp: len_def)
  have q: "[CHR 0x22] @ (if ?flag then concat (map escape t) else t) @ [CHR 0x22] @ [NUL] = quoted t @ [NUL]"
    using string_sizes(2) [OF assms(1)] by (simp add: quoted_escape)
  have "b_string M (Some t) p s = (if len + 3 > INT_MAX then Inl Overflow else emit M (nat (len + 3)) (quoted t @ [NUL]) p s)"
    unfolding b_string_def option.case Let_def q len_def ..
  moreover have "\<not> len + 3 > INT_MAX" "nat (len + 3) = length (quoted t) + 1" unfolding e using assms(2) by (simp_all only: nat_int) simp
  ultimately show ?thesis by simp
qed

lemma prints_string:
  assumes "blocks_ok M" "NUL \<notin> set t"
  shows "prints (b_string M (Some t)) (quoted t)"
proof -
  have e: "prints (emit M (length (quoted t) + 1) (quoted t @ [NUL])) (quoted t)"
    using prints_emit [OF assms(1) quoted_NUL [OF assms(2)], of "length (quoted t) + 1"] by simp
  show ?thesis unfolding prints_def
  proof (intro conjI allI impI)
    fix p u assume p: "has_text p (length u) u" and l: "length u + length (quoted t) + 64 \<le> 2 ^ 30"
    have "b_string M (Some t) p = emit M (length (quoted t) + 1) (quoted t @ [NUL]) p"
      using b_string_emit [OF assms(2), of M p] l by (simp add: fun_eq_iff)
    then show "runs True (b_string M (Some t) p) (\<lambda>i q. i = length u \<and> (\<exists>k\<le>length (quoted t). has_text q (length u + k) (u @ quoted t @ [NUL])))"
      using e p l unfolding prints_def by simp
  qed (rule quoted_NUL [OF assms(2)])
qed

lemma b_elems_runs:
  assumes M: "blocks_ok M" and ch: "ch \<noteq> []" "\<And>c. c \<in> set ch \<Longrightarrow> prints (f c depth) (r c)"
    and p: "has_text p (length u) u" and len: "length u + length (compose_array fmt (map r ch)) + 64 \<le> 2 ^ 30"
  shows "runs False (b_elems M fmt depth (map f ch) p)
    (\<lambda>_ q. has_text q (length (u @ compose_array fmt (map r ch))) (u @ compose_array fmt (map r ch)))"
  using ch p len
proof (induction ch arbitrary: p u)
  case (Cons c ch)
  have c: "prints (f c depth) (r c)" using Cons.prems(2) by simp
  show ?case
  proof (cases "ch = []")
    case True
    have "runs False (\<lambda>s. then_update (f c depth p s) (\<lambda>p s. Inr (Some (), p, s))) (\<lambda>_ q. has_text q (length (u @ r c)) (u @ r c))"
      by (rule runs_then_update [OF c Cons.prems(3)]) (use Cons.prems(4) True in \<open>auto intro: runs_0 simp: dies_def\<close>)
    then show ?thesis using True by simp
  next
    case False
    let ?sep = "[CHR '',''] @ (if fmt then [CHR '' ''] else [])" and ?n = "if fmt then 2 else 1 :: nat"
    let ?rest = "compose_array fmt (map r ch)"
    have w: "compose_array fmt (map r (c # ch)) = r c @ ?sep @ ?rest" using False by (cases ch) auto
    have n: "length ?sep = ?n" by simp
    have "runs False (\<lambda>s. pbind (emit M (?n + 1) (?sep @ [NUL]) q s) (\<lambda>_ p s. b_elems M fmt depth (map f ch) (move_offset ?n p) s))
        (\<lambda>_ q. has_text q (length (u @ r c @ ?sep @ ?rest)) (u @ r c @ ?sep @ ?rest))"
      if q: "has_text q (length (u @ r c)) (u @ r c)" for q
    proof (rule runs_bind [OF runs_emit [OF M q]])
      fix i :: nat and p' assume "i = length (u @ r c) \<and> has_text p' (length (u @ r c)) ((u @ r c) @ ?sep @ [NUL])"
      then have "has_text (move_offset ?n p') (length (u @ r c @ ?sep)) (u @ r c @ ?sep)"
        using has_text_written [of p' "u @ r c" ?sep "[NUL]" ?n] n by (cases fmt) simp_all
      from Cons.IH [OF False _ this] show "runs False (\<lambda>s. b_elems M fmt depth (map f ch) (move_offset ?n p') s)
        (\<lambda>_ q. has_text q (length (u @ r c @ ?sep @ ?rest)) (u @ r c @ ?sep @ ?rest))"
        using Cons.prems(2,4) w by (simp only: append_assoc) simp
    qed (use Cons.prems(4) w in auto)
    then have "runs False (\<lambda>s. then_update (f c depth p s) (\<lambda>p s. pbind (emit M (?n + 1) (?sep @ [NUL]) p s)
        (\<lambda>_ p s. b_elems M fmt depth (map f ch) (move_offset ?n p) s)))
        (\<lambda>_ q. has_text q (length (u @ r c @ ?sep @ ?rest)) (u @ r c @ ?sep @ ?rest))"
      by (intro runs_then_update [OF c Cons.prems(3)] dies_emit) (use Cons.prems(4) w in auto)
    then show ?thesis unfolding w using False by (simp add: Let_def)
  qed
qed simp

lemma b_array_prints:
  assumes M: "blocks_ok M" and ch: "ch \<noteq> []" "\<And>c. c \<in> set ch \<Longrightarrow> prints (f c (depth + 1)) (r c)"
    and N: "NUL \<notin> set (compose_array fmt (map r ch))"
  shows "prints (b_array M fmt depth (map f ch)) (''['' @ compose_array fmt (map r ch) @ '']'')"
  unfolding prints_def
proof (intro conjI allI impI)
  fix p u assume p: "has_text p (length u) u" and len: "length u + length (''['' @ compose_array fmt (map r ch) @ '']'') + 64 \<le> 2 ^ 30"
  let ?w = "compose_array fmt (map r ch)"
  let ?R = "\<lambda>i q. i = length u \<and> (\<exists>k\<le>length (''['' @ ?w @ '']''). has_text q (length u + k) (u @ (''['' @ ?w @ '']'') @ [NUL]))"
  have last: "runs True (\<lambda>s. pbind (emit M 2 ('']'' @ [NUL]) q s) (\<lambda>_ p s. Inr (Some (length u), p, s))) ?R"
    if q: "has_text q (length (u @ ''['' @ ?w)) (u @ ''['' @ ?w)" for q
  proof (rule runs_bind [OF runs_emit [OF M q]])
    fix i :: nat and q' assume "i = length (u @ ''['' @ ?w) \<and> has_text q' (length (u @ ''['' @ ?w)) ((u @ ''['' @ ?w) @ '']'' @ [NUL])"
    then show "runs True (\<lambda>s. Inr (Some (length u), q', s)) ?R" by (intro runs_0) (auto intro!: exI [of _ "Suc (length ?w)"])
  qed (use len in auto)
  have mid: "runs True (\<lambda>s. pbind (b_elems M fmt (depth + 1) (map f ch) q s) (\<lambda>_ p s.
      pbind (emit M 2 ('']'' @ [NUL]) p s) (\<lambda>_ p s. Inr (Some (length u), p, s)))) ?R"
    if q: "has_text q (length (u @ ''['')) (u @ ''['')" for q
    by (rule runs_bind_loose [OF b_elems_runs [where f = f and depth = "depth + 1" and r = r and u = "u @ ''[''", OF M ch(1)]])
      (use ch(2) q len last dies_emit in auto)
  have "runs True (\<lambda>s. pbind (emit M 1 ''['' p s) (\<lambda>_ p s. pbind (b_elems M fmt (depth + 1) (map f ch) (move_offset 1 p) s) (\<lambda>_ p s.
      pbind (emit M 2 ('']'' @ [NUL]) p s) (\<lambda>_ p s. Inr (Some (length u), p, s))))) ?R"
    by (rule runs_bind [OF runs_emit [OF M p]], use len in simp, simp, use len in simp, rule mid)
      (use has_text_written [of _ u "''[''" "[]" 1] in simp)
  moreover have "offset p = length u" using p by (simp add: has_text_def)
  ultimately show "runs True (b_array M fmt depth (map f ch) p) ?R" using ch(1) by (simp add: b_array_def [abs_def] Let_def)
qed (use N in auto)

text \<open>A write that is followed by a move of the offset behind it.\<close>

lemma runs_write:
  assumes "blocks_ok M" "has_text p (length u) u" "length w + length x \<le> n" "0 < n" "length u + n \<le> 2 ^ 30" "k = length w"
    and "\<And>q. has_text q (length (u @ w)) (u @ w) \<Longrightarrow> runs b (f q) R"
  shows "runs b (\<lambda>s. pbind (emit M n (w @ x) p s) (\<lambda>_ p s. f (move_offset k p) s)) R"
proof (rule runs_bind [OF runs_emit [OF assms(1,2)]])
  fix i :: nat and q assume "i = length u \<and> has_text q (length u) (u @ w @ x)"
  then show "runs b (\<lambda>s. f (move_offset k q) s) R" using assms(6,7) has_text_written [of q u w x k] by simp
qed (use assms in auto)

lemma b_members_runs:
  assumes M: "blocks_ok M" and d: "0 < depth"
    and ch: "\<And>c. c \<in> set ch \<Longrightarrow> prints (f c depth) (r c) \<and> (\<exists>w. jstring c = Some w \<and> NUL \<notin> set w)"
    and p: "has_text p (length u) u"
    and len: "length u + length (compose_object fmt depth (map (\<lambda>c. (quoted (the (jstring c)), r c)) ch)) + 64 \<le> 2 ^ 30"
  shows "runs False (b_members M fmt depth (zip (map jstring ch) (map f ch)) p)
    (\<lambda>_ q. has_text q (length (u @ compose_object fmt depth (map (\<lambda>c. (quoted (the (jstring c)), r c)) ch)))
       (u @ compose_object fmt depth (map (\<lambda>c. (quoted (the (jstring c)), r c)) ch)))"
  using ch p len
proof (induction ch arbitrary: p u)
  case (Cons c ch)
  obtain nm where nm: "jstring c = Some nm" "NUL \<notin> set nm" using Cons.prems(1) [of c] by auto
  have c: "prints (f c depth) (r c)" using Cons.prems(1) by simp
  let ?ms = "zip (map jstring ch) (map f ch)" and ?rest = "compose_object fmt depth (map (\<lambda>c. (quoted (the (jstring c)), r c)) ch)"
  define T C S where "T = (if fmt then tabs depth else [])" and "C = [CHR '':''] @ (if fmt then [CHR 0x09] else [])"
    and "S = (if ?ms \<noteq> [] then [CHR '',''] else []) @ (if fmt then [CHR 0x0A] else [])"
  define k l where "k = (if fmt then 1 else 0) + (if ?ms \<noteq> [] then 1 else 0 :: nat)" and "l = (if fmt then 2 else 1 :: nat)"
  have sizes: "k = length S" "l = length C" "0 < length C" by (auto simp: k_def l_def S_def C_def)
  have W: "compose_object fmt depth (map (\<lambda>c. (quoted (the (jstring c)), r c)) (c # ch)) = T @ quoted nm @ C @ r c @ S @ ?rest"
    using nm(1) by (simp add: T_def C_def S_def)
  let ?all = "u @ T @ quoted nm @ C @ r c @ S @ ?rest"
  let ?R = "\<lambda>_ q. has_text q (length ?all) ?all"
  have len: "length ?all + 64 \<le> 2 ^ 30" using Cons.prems(3) unfolding W by simp
  let ?f3 = "\<lambda>p s. pbind (emit M (k + 1) (S @ [NUL]) p s) (\<lambda>_ p s. b_members M fmt depth ?ms (move_offset k p) s)"
  let ?f2 = "\<lambda>p s. pbind (emit M l C p s) (\<lambda>_ p s. then_update (f c depth (move_offset l p) s) ?f3)"
  let ?f1 = "\<lambda>p s. then_update (b_string M (Some nm) p s) ?f2"
  have f3: "runs False (?f3 q) ?R" if q: "has_text q (length (u @ T @ quoted nm @ C @ r c)) (u @ T @ quoted nm @ C @ r c)" for q
  proof (rule runs_write [OF M q])
    fix q' assume "has_text q' (length ((u @ T @ quoted nm @ C @ r c) @ S)) ((u @ T @ quoted nm @ C @ r c) @ S)"
    then show "runs False (b_members M fmt depth ?ms q') ?R"
      using Cons.IH [of q' "u @ T @ quoted nm @ C @ r c @ S"] Cons.prems(1) len by simp
  qed (use len sizes in simp_all)
  have f2: "runs False (?f2 q) ?R" if q: "has_text q (length (u @ T @ quoted nm)) (u @ T @ quoted nm)" for q
  proof -
    have "runs False (\<lambda>s. pbind (emit M l (C @ []) q s) (\<lambda>_ p s. then_update (f c depth (move_offset l p) s) ?f3)) ?R"
    proof (rule runs_write [OF M q])
      fix q' assume "has_text q' (length ((u @ T @ quoted nm) @ C)) ((u @ T @ quoted nm) @ C)"
      then show "runs False (\<lambda>s. then_update (f c depth q' s) ?f3) ?R"
        by (rule runs_then_update [OF c]) (use len f3 dies_emit in simp_all)
    qed (use len sizes in simp_all)
    then show ?thesis by simp
  qed
  have f1: "runs False (?f1 q) ?R" if q: "has_text q (length (u @ T)) (u @ T)" for q
    by (rule runs_then_update [OF prints_string [OF M nm(2)] q]) (use len f2 dies_emit in simp_all)
  have "runs False (\<lambda>s. pbind (if fmt then pbind (emit M (nat depth) (tabs depth) p s) (\<lambda>_ p s. Inr (Some (), move_offset (nat depth) p, s))
            else Inr (Some (), p, s)) (\<lambda>_ p s. ?f1 p s)) ?R"
  proof (rule runs_bind [of _ "\<lambda>_ q. has_text q (length (u @ T)) (u @ T)"])
    have "runs True (\<lambda>s. pbind (emit M (nat depth) (tabs depth @ []) p s) (\<lambda>_ p s. Inr (Some (), move_offset (nat depth) p, s)))
        (\<lambda>_ q. has_text q (length (u @ tabs depth)) (u @ tabs depth))" if fmt
      by (rule runs_write [OF M Cons.prems(2)]) (use len d that in \<open>auto simp: T_def tabs_def intro: runs_0\<close>)
    then show "runs True (\<lambda>s. if fmt then pbind (emit M (nat depth) (tabs depth) p s) (\<lambda>_ p s. Inr (Some (), move_offset (nat depth) p, s))
            else Inr (Some (), p, s)) (\<lambda>_ q. has_text q (length (u @ T)) (u @ T))"
      using Cons.prems(2) by (cases fmt) (simp_all add: T_def runs_0)
  qed (rule f1)
  moreover have "b_members M fmt depth (zip (map jstring (c # ch)) (map f (c # ch))) p = (\<lambda>s. pbind (if fmt then pbind
      (emit M (nat depth) (tabs depth) p s) (\<lambda>_ p s. Inr (Some (), move_offset (nat depth) p, s)) else Inr (Some (), p, s)) (\<lambda>_ p s. ?f1 p s))"
    by (simp add: nm(1) Let_def fun_eq_iff C_def S_def k_def l_def)
  ultimately show ?case unfolding W by simp
qed (simp add: runs_0)

lemma compose_object_NUL:
  "\<forall>(n, e)\<in>set es. NUL \<notin> set n \<and> NUL \<notin> set e \<Longrightarrow> NUL \<notin> set (compose_object fmt depth es)"
  by (induction fmt depth es rule: compose_object.induct) (auto simp: tabs_def)

lemma compose_array_NUL: "\<forall>e\<in>set es. NUL \<notin> set e \<Longrightarrow> NUL \<notin> set (compose_array fmt es)"
  by (induction fmt es rule: compose_array.induct) auto

lemma b_object_prints:
  assumes M: "blocks_ok M" and d: "0 \<le> depth" and ne: "ch \<noteq> []"
    and ch: "\<And>c. c \<in> set ch \<Longrightarrow> prints (f c (depth + 1)) (r c) \<and> (\<exists>w. jstring c = Some w \<and> NUL \<notin> set w)"
  shows "prints (b_object M fmt depth (zip (map jstring ch) (map f ch)))
    (CHR ''{'' # (if fmt then [CHR 0x0A] else []) @ compose_object fmt (depth + 1) (map (\<lambda>c. (quoted (the (jstring c)), r c)) ch)
       @ (if fmt then tabs depth else []) @ [CHR ''}''])"
  unfolding prints_def
proof (intro conjI allI impI)
  let ?W = "compose_object fmt (depth + 1) (map (\<lambda>c. (quoted (the (jstring c)), r c)) ch)" and ?ms = "zip (map jstring ch) (map f ch)"
  define A T k where "A = CHR ''{'' # (if fmt then [CHR 0x0A] else [])" and "T = (if fmt then tabs depth else [])"
    and "k = (if fmt then 2 else 1 :: nat)"
  have sizes: "k = length A" "length T + 2 \<le> (if fmt then nat (depth + 2) else 2)" using d by (auto simp: k_def A_def T_def tabs_def)
  have w: "CHR ''{'' # (if fmt then [CHR 0x0A] else []) @ ?W @ (if fmt then tabs depth else []) @ [CHR ''}''] = A @ ?W @ T @ ''}''"
    by (simp add: A_def T_def)
  have "\<forall>(n, e)\<in>set (map (\<lambda>c. (quoted (the (jstring c)), r c)) ch). NUL \<notin> set n \<and> NUL \<notin> set e"
    using ch quoted_NUL by (fastforce simp: prints_def)
  then show "NUL \<notin> set (CHR ''{'' # (if fmt then [CHR 0x0A] else []) @ ?W @ (if fmt then tabs depth else []) @ [CHR ''}''])"
    using compose_object_NUL by (auto simp: tabs_def)
  fix p u assume p: "has_text p (length u) u"
    and "length u + length (CHR ''{'' # (if fmt then [CHR 0x0A] else []) @ ?W @ (if fmt then tabs depth else []) @ [CHR ''}'']) + 64 \<le> 2 ^ 30"
  then have len: "length u + length (A @ ?W @ T @ ''}'') + 64 \<le> 2 ^ 30" unfolding w by simp
  let ?R = "\<lambda>i q. i = length u \<and> (\<exists>k\<le>length (A @ ?W @ T @ ''}''). has_text q (length u + k) (u @ (A @ ?W @ T @ ''}'') @ [NUL]))"
  let ?n = "if fmt then nat (depth + 2) else 2"
  have last: "runs True (\<lambda>s. pbind (emit M ?n (T @ ''}'' @ [NUL]) q s) (\<lambda>_ p s. Inr (Some (length u), p, s))) ?R"
    if q: "has_text q (length (u @ A @ ?W)) (u @ A @ ?W)" for q
  proof (rule runs_bind [OF runs_emit [OF M q]])
    fix i :: nat and q' assume "i = length (u @ A @ ?W) \<and> has_text q' (length (u @ A @ ?W)) ((u @ A @ ?W) @ T @ ''}'' @ [NUL])"
    then show "runs True (\<lambda>s. Inr (Some (length u), q', s)) ?R" by (intro runs_0) (auto intro!: exI [of _ "length A + length ?W"])
  qed (use len sizes d in \<open>auto simp: T_def tabs_def\<close>)
  have mid: "runs True (\<lambda>s. pbind (b_members M fmt (depth + 1) ?ms q s) (\<lambda>_ p s.
      pbind (emit M ?n (T @ ''}'' @ [NUL]) p s) (\<lambda>_ p s. Inr (Some (length u), p, s)))) ?R"
    if q: "has_text q (length (u @ A)) (u @ A)" for q
    by (rule runs_bind_loose [OF b_members_runs [where f = f and depth = "depth + 1" and r = r and u = "u @ A", OF M]])
      (use ch d q len last dies_emit in auto)
  have "runs True (\<lambda>s. pbind (emit M (k + 1) (A @ [NUL]) p s) (\<lambda>_ p s. pbind (b_members M fmt (depth + 1) ?ms (move_offset k p) s) (\<lambda>_ p s.
      pbind (emit M ?n (T @ ''}'' @ [NUL]) p s) (\<lambda>_ p s. Inr (Some (length u), p, s))))) ?R"
    by (rule runs_write [OF M p]) (use len sizes mid in simp_all)
  moreover have "offset p = length u" using p by (simp add: has_text_def)
  moreover have "?ms \<noteq> []" using ne by (cases ch) auto
  ultimately show "runs True (b_object M fmt depth ?ms p) (\<lambda>i q. i = length u \<and> (\<exists>k\<le>length (CHR ''{'' # (if fmt then [CHR 0x0A] else [])
      @ ?W @ (if fmt then tabs depth else []) @ [CHR ''}'']). has_text q (length u + k) (u @ (CHR ''{'' # (if fmt then [CHR 0x0A] else [])
      @ ?W @ (if fmt then tabs depth else []) @ [CHR ''}'']) @ [NUL])))"
    unfolding w by (simp add: b_object_def [abs_def] Let_def A_def T_def k_def)
qed

lemma b_value_prints:
  assumes D: "number_formats D" "formats_NUL D" and M: "blocks_ok M"
  shows "json_ok t \<Longrightarrow> 0 \<le> depth \<Longrightarrow> prints (b_value D M fmt t depth) (render D fmt t depth)"
proof (induction t arbitrary: depth)
  case (Item ty vs vi vd st ch)
  have c: "prints (b_value D M fmt c (depth + 1)) (render D fmt c (depth + 1))" if "c \<in> set ch" for c
    using Item.IH [OF that] Item.prems that by simp
  have lit: "prints (emit M (Suc (length w)) (w @ [NUL])) w" if "NUL \<notin> set w" for w using prints_emit [OF M that] by simp
  have vi: "-2147483648 \<le> vi" "vi \<le> 2147483647" and ty: "ty mod 256 \<le> 6" "0 \<le> ty mod 256" using Item.prems by auto
  consider "ty mod 256 = cJSON_NULL" | "ty mod 256 = cJSON_False" | "ty mod 256 = cJSON_True" | "ty mod 256 = cJSON_Number"
    | "ty mod 256 = cJSON_String" | "ty mod 256 = cJSON_Array" | "ty mod 256 = cJSON_Object"
    using ty by fastforce
  then show ?case
  proof cases
    case 4
    then show ?thesis using prints_number [OF M D vi] by simp
  next
    case 5
    then obtain w where "vs = Some w" "NUL \<notin> set w" using Item.prems(1) by (cases vs) auto
    then show ?thesis using 5 prints_string [OF M] by simp
  next
    case 6
    show ?thesis
    proof (cases "ch = []")
      case True
      then show ?thesis using 6 lit [of "''[]''"] by (simp add: b_array_def [abs_def] numeral_3_eq_3)
    next
      case False
      have "NUL \<notin> set (compose_array fmt (map (\<lambda>c. render D fmt c (depth + 1)) ch))"
        using c by (intro compose_array_NUL) (auto simp: prints_def)
      then show ?thesis using 6 False b_array_prints [where f = "b_value D M fmt" and r = "\<lambda>c. render D fmt c (depth + 1)", OF M False c]
        by (simp add: o_def)
    qed
  next
    case 7
    have nm: "\<exists>w. jstring c = Some w \<and> NUL \<notin> set w" if "c \<in> set ch" for c
      using Item.prems(1) 7 that by (cases c) fastforce
    show ?thesis
    proof (cases "ch = []")
      case True
      let ?w = "[CHR ''{''] @ (if fmt then [CHR 0x0A] @ tabs (depth - 1) else []) @ ''}''"
      have "prints (emit M (if fmt then nat (depth + 4) else 3) (?w @ [NUL])) ?w"
        by (rule prints_emit [OF M]) (use Item.prems(2) in \<open>auto simp: tabs_def\<close>)
      then show ?thesis using 7 True by (simp add: b_object_def [abs_def])
    next
      case False
      have "zip (map (\<lambda>c. quoted (the (jstring c))) ch) (map (\<lambda>c. render D fmt c (depth + 1)) ch)
          = map (\<lambda>c. (quoted (the (jstring c)), render D fmt c (depth + 1))) ch"
        by (simp add: zip_map_map zip_same_conv_map)
      then show ?thesis
        using 7 False b_object_prints [where f = "b_value D M fmt" and r = "\<lambda>c. render D fmt c (depth + 1)", OF M Item.prems(2) False conjI [OF c nm]]
        by (simp add: o_def)
    qed
  qed (use lit [of "''null''"] lit [of "''false''"] lit [of "''true''"] in \<open>simp_all add: eval_nat_numeral\<close>)
qed

lemma emit_dead: "buffer p = None \<Longrightarrow> emit M n w p s = Inr (None, p, s)"
  by (simp add: emit_def ensure_def pbind_def)

lemma b_value_dead: "json_ok t \<Longrightarrow> length (render D fmt t depth) + 64 \<le> 2 ^ 30 \<Longrightarrow> buffer p = None \<Longrightarrow> b_value D M fmt t depth p s = Inr (None, p, s)"
  by (cases t) (auto simp: Let_def b_number_def b_string_emit b_array_def b_object_def emit_dead pbind_def split: option.splits)

text \<open>C23: printing through the growing buffer gives the text that printing into exactly sized blocks gives, whatever
  the size the buffer starts with and whatever fresh blocks hold, as long as the text stays below 2 to the 30: no
  write leaves the block, and the only failure is a lack of memory, which costs the text and no block.\<close>

theorem cjson_print_buffered:
  assumes "number_formats D" "formats_NUL D" "blocks_ok M" "json_ok t" "0 \<le> prebuffer"
    and "length (render D fmt t 0) + 64 \<le> 2 ^ 30"
  shows "\<exists>n. (\<forall>s. cJSON_PrintBuffered D M t prebuffer fmt s =
        Inr (if n \<le> mem s then (Some (render D fmt t 0), s\<lparr>mem := mem s - n\<rparr>) else (None, s\<lparr>mem := 0\<rparr>)))
    \<and> (\<forall>s. (if fmt then cJSON_Print D t s else cJSON_PrintUnformatted D t s) =
        Inr (if print_allocs t \<le> mem s then (Some (render D fmt t 0), s\<lparr>mem := mem s - print_allocs t\<rparr>) else (None, s\<lparr>mem := 0\<rparr>)))"
proof -
  let ?p = "\<lparr>buffer = Some (M (nat prebuffer)), buf_length = nat prebuffer, offset = 0\<rparr>" and ?w = "render D fmt t 0"
  note pr = b_value_prints [OF assms(1-4), of 0 fmt]
  have "has_text ?p (length ([] :: char list)) []" using assms(3) by (simp add: has_text_def blocks_ok_def)
  moreover have "length ([] :: char list) + length ?w + 64 \<le> 2 ^ 30" using assms(6) by simp
  ultimately have "runs True (b_value D M fmt t 0 ?p) (\<lambda>i q. i = length ([] :: char list) \<and> (\<exists>k\<le>length ?w. has_text q (length ([] :: char list) + k) ([] @ ?w @ [NUL])))"
    using pr unfolding prints_def by blast
  then have "runs True (b_value D M fmt t 0 ?p) (\<lambda>i q. i = 0 \<and> (\<exists>k. has_text q k (?w @ [NUL])))"
    by (rule runs_mono) auto
  then obtain n q k where q: "has_text q k (?w @ [NUL])" and r: "\<forall>s. if n \<le> mem s
      then b_value D M fmt t 0 ?p s = Inr (Some 0, q, s\<lparr>mem := mem s - n\<rparr>)
      else (\<exists>y r. b_value D M fmt t 0 ?p s = Inr (y, r, s\<lparr>mem := 0\<rparr>) \<and> buffer r = None \<and> (True \<longrightarrow> y = None))"
    unfolding runs_def by blast
  have NUL: "NUL \<notin> set ?w" using pr by (simp add: prints_def)
  have "cJSON_PrintBuffered D M t prebuffer fmt s =
      Inr (if Suc n \<le> mem s then (Some ?w, s\<lparr>mem := mem s - Suc n\<rparr>) else (None, s\<lparr>mem := 0\<rparr>))" for s
  proof (cases "Suc n \<le> mem s")
    case True
    then have "n \<le> mem s - 1" by simp
    then have "b_value D M fmt t 0 ?p (s\<lparr>mem := mem s - 1\<rparr>) = Inr (Some 0, q, s\<lparr>mem := mem s - Suc n\<rparr>)"
      using r [THEN spec, of "s\<lparr>mem := mem s - 1\<rparr>"] by simp
    then show ?thesis using True q NUL assms(5) by (auto simp: cJSON_PrintBuffered_def has_text_def)
  next
    case False
    show ?thesis
    proof (cases "mem s = 0")
      case True
      let ?d = "\<lparr>buffer = None, buf_length = nat prebuffer, offset = 0\<rparr>"
      have "b_value D M fmt t 0 ?d s = Inr (None, ?d, s)" by (rule b_value_dead [OF assms(4,6)]) simp
      then show ?thesis using True by (simp add: cJSON_PrintBuffered_def)
    next
      case m: False
      then have "\<not> n \<le> mem s - 1" using False by simp
      then obtain r' where "b_value D M fmt t 0 ?p (s\<lparr>mem := mem s - 1\<rparr>) = Inr (None, r', s\<lparr>mem := 0\<rparr>)"
        using r [THEN spec, of "s\<lparr>mem := mem s - 1\<rparr>"] by auto
      then show ?thesis using m False assms(5) by (simp add: cJSON_PrintBuffered_def)
    qed
  qed
  then show ?thesis using print_value_text [OF assms(1,4) _ assms(6)]
    unfolding gives_text_def by (auto simp: cJSON_Print_def cJSON_PrintUnformatted_def)
qed

definition some_blocks :: "nat \<Rightarrow> char list" where
  "some_blocks n = replicate n CHR ''#''"

theorem cjson_print_buffered_witness:
  "\<exists>n. cJSON_PrintBuffered int_dbl some_blocks sample_json 3 True \<lparr>ep = None, mem = n\<rparr>
     = Inr (Some (render int_dbl True sample_json 0), \<lparr>ep = None, mem = 0\<rparr>)"
proof -
  have ok: "json_ok sample_json" "length (render int_dbl True sample_json 0) + 64 \<le> 200" by code_simp+
  have len: "length (render int_dbl True sample_json 0) + 64 \<le> 2 ^ 30" using ok(2) by (rule order_trans) simp
  have D: "formats_NUL int_dbl" "blocks_ok some_blocks" by (simp_all add: formats_NUL_def int_dbl_def blocks_ok_def some_blocks_def)
  obtain n where "\<forall>s. cJSON_PrintBuffered int_dbl some_blocks sample_json 3 True s =
      Inr (if n \<le> mem s then (Some (render int_dbl True sample_json 0), s\<lparr>mem := mem s - n\<rparr>) else (None, s\<lparr>mem := 0\<rparr>))"
    using cjson_print_buffered [OF int_dbl_formats D ok(1) _ len, of 3] by auto
  from this [THEN spec, of "\<lparr>ep = None, mem = n\<rparr>"] show ?thesis by auto
qed

end
