(* ===== verification/CJsonMinify.thy ===== *)
theory CJsonMinify
  imports CJsonType
begin

text \<open>
  \<^verbatim>\<open>cJSON_Minify\<close>, which drops blanks and comments from a text in place. The read pointer is never behind the write
  pointer, so what is read is the text as it was; \<open>minify\<close> gives the bytes that are written, and the text is the
  rest of the block the read pointer stands in.
\<close>

section \<open>The function\<close>

text \<open>The loops over a line comment and over a block comment (with the \<open>json += 2\<close> behind it), both from the slash on, and
  the loop over a string literal from the byte behind its quote on: the bytes to write and the text that is left.\<close>

fun skip_line :: "ctext \<Rightarrow> ctext res" where
  "skip_line [] = Inl OutOfBounds"
| "skip_line (c # b) = (if c \<noteq> NUL \<and> c \<noteq> CHR 0x0A then skip_line b else Inr (c # b))"

fun skip_comment :: "ctext \<Rightarrow> ctext res" where
  "skip_comment [] = Inl OutOfBounds"
| "skip_comment (c # b) =
     (if c = NUL then Inr (drop 1 b)
      else if c = CHR ''*'' then rbind (peek b) (\<lambda>d. if d = CHR ''/'' then Inr (drop 1 b) else skip_comment b)
      else skip_comment b)"

fun copy_literal :: "ctext \<Rightarrow> (char list \<times> ctext) res" where
  "copy_literal [] = Inl OutOfBounds"
| "copy_literal (c # b) =
     (if c = NUL \<or> c = CHR 0x22 then Inr ([c], b)
      else if c = CHR 0x5C then (case b of [] \<Rightarrow> Inl OutOfBounds
        | d # b' \<Rightarrow> rbind (copy_literal b') (\<lambda>(w, r). Inr (c # d # w, r)))
      else rbind (copy_literal b) (\<lambda>(w, r). Inr (c # w, r)))"

definition is_blank :: "char \<Rightarrow> bool" where
  "is_blank c \<longleftrightarrow> c = CHR '' '' \<or> c = CHR 0x09 \<or> c = CHR 0x0D \<or> c = CHR 0x0A"

lemma skip_line_length: "skip_line b = Inr r \<Longrightarrow> length r \<le> length b"
  by (induction b) (auto split: if_splits)

lemma skip_comment_length: "skip_comment b = Inr r \<Longrightarrow> length r \<le> length b"
  by (induction b) (auto split: if_splits)

lemma copy_literal_length: "copy_literal b = Inr (w, r) \<Longrightarrow> length w + length r = length b"
  by (induction b arbitrary: w r rule: copy_literal.induct) (auto split: if_splits list.splits)

lemma slash_comment: "skip_comment (CHR ''/'' # b) = skip_comment b" "skip_line (CHR ''/'' # b) = skip_line b"
  by simp_all

function minify :: "ctext \<Rightarrow> char list res" where
  "minify [] = Inl OutOfBounds"
| "minify (c # b) =
     (if c = NUL then Inr []
      else if is_blank c then minify b
      else if c = CHR ''/'' then rbind (peek b) (\<lambda>d.
        if d = CHR ''/'' then rbind (skip_line (c # b)) minify
        else if d = CHR ''*'' then rbind (skip_comment (c # b)) minify
        else rbind (minify b) (\<lambda>w. Inr (c # w)))
      else if c = CHR 0x22 then rbind (copy_literal b) (\<lambda>(w, r). rbind (minify r) (\<lambda>v. Inr (c # w @ v)))
      else rbind (minify b) (\<lambda>w. Inr (c # w)))"
  by pat_completeness auto
termination
  by (relation "measure length")
    (auto simp del: skip_line.simps skip_comment.simps simp: slash_comment
      dest: skip_line_length skip_comment_length copy_literal_length)

declare minify.simps [simp del]

definition cJSON_Minify :: "ctext \<Rightarrow> ctext res" where
  "cJSON_Minify json = rbind (minify json) (\<lambda>w.
     if length w < length json then Inr (w @ NUL # drop (Suc (length w)) json) else Inl OutOfBounds)"

section \<open>What it keeps\<close>

lemma minify_step:
  assumes "minify (c # b) = Inr w"
  obtains "w = []" | r where "minify r = Inr w" "length r \<le> length b"
  | u r v where "minify r = Inr v" "w = c # u @ v" "length u + length r = length b"
proof -
  consider "c = NUL" | "c \<noteq> NUL" "is_blank c" | "c = CHR ''/''" | "c = CHR 0x22"
    | "c \<noteq> NUL" "\<not> is_blank c" "c \<noteq> CHR ''/''" "c \<noteq> CHR 0x22" by blast
  then show thesis
  proof cases
    case 1
    then show thesis using assms that(1) by (simp add: minify.simps)
  next
    case 2
    then show thesis using assms that(2) [of b] by (auto simp: minify.simps is_blank_def)
  next
    case 3
    obtain d where d: "peek b = Inr d" using assms 3 by (auto simp: minify.simps is_blank_def)
    consider "d = CHR ''/''" | "d = CHR ''*''" | "d \<noteq> CHR ''/''" "d \<noteq> CHR ''*''" by blast
    then show thesis
    proof cases
      case 1
      then obtain r where "skip_line b = Inr r" "minify r = Inr w" using assms 3 d by (auto simp: minify.simps is_blank_def)
      then show thesis using that(2) skip_line_length by blast
    next
      case 2
      then obtain r where "skip_comment b = Inr r" "minify r = Inr w" using assms 3 d by (auto simp: minify.simps is_blank_def)
      then show thesis using that(2) skip_comment_length by blast
    next
      case c: 3
      then show thesis using assms 3 d that(3) [of b _ "[]"] by (auto simp: minify.simps is_blank_def)
    qed
  next
    case 4
    then obtain u r v where "copy_literal b = Inr (u, r)" "minify r = Inr v" "w = c # u @ v"
      using assms by (auto simp: minify.simps is_blank_def)
    then show thesis using that(3) copy_literal_length by blast
  next
    case 5
    then show thesis using assms that(3) [of b _ "[]"] by (auto simp: minify.simps)
  qed
qed

lemma minify_shorter: "minify b = Inr w \<Longrightarrow> length w < length b"
proof (induction b arbitrary: w rule: length_induct)
  case (1 b)
  then obtain c b1 where b: "b = c # b1" by (cases b) (auto simp: minify.simps)
  have IH: "length v < length r" if "minify r = Inr v" "length r \<le> length b1" for r v using 1 that b by simp
  show ?case by (rule minify_step [OF 1(2) [unfolded b]]) (use IH b in fastforce)+
qed

text \<open>The bytes \<open>x\<close> become \<open>y\<close>, whatever follows.\<close>

definition minifies :: "char list \<Rightarrow> char list \<Rightarrow> bool" where
  "minifies x y \<longleftrightarrow> (\<forall>b. minify (x @ b) = rbind (minify b) (\<lambda>w. Inr (y @ w)))"

definition kept :: "char \<Rightarrow> bool" where
  "kept c \<longleftrightarrow> c \<noteq> NUL \<and> \<not> is_blank c \<and> c \<noteq> CHR ''/'' \<and> c \<noteq> CHR 0x22"

lemma minifies_Nil [simp]: "minifies [] []"
  by (simp add: minifies_def rbind_def split: sum.split)

lemma minifies_append: "minifies x y \<Longrightarrow> minifies x' y' \<Longrightarrow> minifies (x @ x') (y @ y')"
  by (simp add: minifies_def rbind_assoc)

lemma minifies_Cons: "kept c \<Longrightarrow> minifies x y \<Longrightarrow> minifies (c # x) (c # y)"
  by (simp add: minifies_def kept_def minify.simps rbind_assoc)

lemma minifies_blank: "is_blank c \<Longrightarrow> minifies x y \<Longrightarrow> minifies (c # x) y"
  by (auto simp: minifies_def is_blank_def minify.simps)

lemma minifies_kept: "\<forall>c\<in>set x. kept c \<Longrightarrow> minifies x x"
  by (induction x) (auto intro: minifies_Cons)

lemma minifies_tabs: "minifies (tabs n) []"
proof -
  have "minifies (replicate k (CHR 0x09)) []" for k by (induction k) (auto simp: is_blank_def intro: minifies_blank)
  then show ?thesis by (simp add: tabs_def)
qed

lemma copy_escaped:
  assumes "c \<noteq> NUL"
  shows "copy_literal (escape c @ b) = rbind (copy_literal b) (\<lambda>(w, r). Inr (escape c @ w, r))"
  using assms
proof (cases rule: escape_cases)
  case 1
  then show ?thesis using assms by simp
next
  case (2 e)
  then show ?thesis by simp
next
  case 3
  then show ?thesis
    using hex_digit_plain [of 0] hex_digit_plain [of "code_of c div 16"] hex_digit_plain [of "code_of c mod 16"]
    by (simp add: less_mult_imp_div_less rbind_assoc case_prod_unfold)
qed

lemma copy_quoted: "NUL \<notin> set w \<Longrightarrow> copy_literal (concat (map escape w) @ CHR 0x22 # b) = Inr (concat (map escape w) @ [CHR 0x22], b)"
  by (induction w) (auto simp: copy_escaped)

lemma minifies_quoted: "NUL \<notin> set w \<Longrightarrow> minifies (quoted w) (quoted w)"
  by (simp add: minifies_def quoted_escape minify.simps copy_quoted is_blank_def)

section \<open>Printed texts\<close>

lemma minifies_array: "list_all2 minifies es fs \<Longrightarrow> minifies (compose_array fmt es) (compose_array False fs)"
proof (induction es fs rule: list_all2_induct)
  case (Cons e es f fs)
  have sep: "minifies ([CHR '',''] @ (if fmt then [CHR '' ''] else [])) [CHR '','']"
    by (simp add: kept_def is_blank_def minifies_Cons minifies_blank)
  show ?case
  proof (cases es)
    case Nil
    then show ?thesis using Cons by simp
  next
    case (Cons e' es')
    then obtain f' fs' where "fs = f' # fs'" using \<open>list_all2 minifies es fs\<close> by (auto simp: list_all2_Cons1)
    then show ?thesis
      using Cons minifies_append [OF \<open>minifies e f\<close> minifies_append [OF sep Cons.IH]] by simp
  qed
qed simp

lemma minifies_object:
  "list_all2 (\<lambda>(n, e) (m, f). minifies n m \<and> minifies e f) es fs \<Longrightarrow> minifies (compose_object fmt d es) (compose_object False d' fs)"
proof (induction es fs rule: list_all2_induct)
  case (Cons x es y fs)
  obtain n e m f where x: "x = (n, e)" "y = (m, f)" by (cases x; cases y)
  then have ne: "minifies n m" "minifies e f" using Cons.hyps(1) by simp_all
  have tb: "minifies (if fmt then tabs d else []) []" by (simp add: minifies_tabs)
  have colon: "minifies ([CHR '':''] @ (if fmt then [CHR 0x09] else [])) [CHR '':'']"
    by (simp add: kept_def is_blank_def minifies_Cons minifies_blank)
  have sep: "minifies ((if es \<noteq> [] then [CHR '',''] else []) @ (if fmt then [CHR 0x0A] else [])) (if fs \<noteq> [] then [CHR '',''] else [])"
    using list_all2_lengthD [OF Cons.hyps(2)] by (auto simp: kept_def is_blank_def minifies_Cons minifies_blank)
  show ?case unfolding x
    using minifies_append [OF tb minifies_append [OF ne(1) minifies_append [OF colon minifies_append [OF ne(2) minifies_append [OF sep Cons.IH]]]]]
    by simp
qed simp

text \<open>What \<open>sprintf\<close> makes of a \<open>double\<close> has no blank, quote or slash.\<close>

definition formats_kept :: "'d dbl \<Rightarrow> bool" where
  "formats_kept D \<longleftrightarrow> (\<forall>d. \<forall>c\<in>set (fmt_0f D d) \<union> set (fmt_e D d) \<union> set (fmt_f D d). kept c)"

lemma digit_kept: "is_digit c \<Longrightarrow> kept c"
  unfolding kept_def is_blank_def is_digit_def by (intro conjI notI; (elim disjE)?) simp_all

lemma number_kept: "formats_kept D \<Longrightarrow> c \<in> set (number_text D vi d) \<Longrightarrow> kept c"
proof -
  have "kept c" if "c \<in> set (decimal vi)" for c
    using decimal_chars [OF that] digit_kept by (auto simp: kept_def is_blank_def)
  moreover have "kept (CHR ''0'')" by (simp add: kept_def is_blank_def)
  ultimately show "formats_kept D \<Longrightarrow> c \<in> set (number_text D vi d) \<Longrightarrow> kept c"
    unfolding number_text_def formats_kept_def by (auto split: if_splits)
qed

lemma minifies_render:
  assumes D: "formats_kept D"
  shows "json_ok t \<Longrightarrow> minifies (render D fmt t d) (render D False t d')"
proof (induction t arbitrary: d d')
  case (Item ty vs vi vd st ch)
  have c: "minifies (render D fmt c d) (render D False c d')" if "c \<in> set ch" for c d d'
    using Item.IH [OF that] Item.prems that by simp
  have brackets: "minifies ''['' ''[''" "minifies '']'' '']''" "minifies ''}'' ''}''"
    by (simp_all add: kept_def is_blank_def minifies_kept)
  have ty: "ty mod 256 \<le> 6" "0 \<le> ty mod 256" using Item.prems by auto
  consider "ty mod 256 = cJSON_NULL" | "ty mod 256 = cJSON_False" | "ty mod 256 = cJSON_True" | "ty mod 256 = cJSON_Number"
    | "ty mod 256 = cJSON_String" | "ty mod 256 = cJSON_Array" | "ty mod 256 = cJSON_Object"
    using ty by fastforce
  then show ?case
  proof cases
    case 4
    then show ?thesis using number_kept [OF D] by (auto intro: minifies_kept)
  next
    case 5
    then obtain w where "vs = Some w" "NUL \<notin> set w" using Item.prems(1) by (cases vs) auto
    then show ?thesis using 5 minifies_quoted by simp
  next
    case 6
    have "list_all2 minifies (map (\<lambda>c. render D fmt c (d + 1)) ch) (map (\<lambda>c. render D False c (d' + 1)) ch)"
      using c by (simp add: list_all2_conv_all_nth)
    from minifies_append [OF brackets(1) minifies_append [OF minifies_array [OF this, of fmt] brackets(2)]]
    show ?thesis using 6 by (auto simp: o_def kept_def is_blank_def intro: minifies_kept)
  next
    case 7
    have nm: "\<exists>w. jstring c = Some w \<and> NUL \<notin> set w" if "c \<in> set ch" for c
      using Item.prems(1) 7 that by (cases c) fastforce
    have brace: "minifies ([CHR ''{''] @ (if fmt then [CHR 0x0A] else [])) ''{''"
      by (simp add: kept_def is_blank_def minifies_Cons minifies_blank)
    have tb: "minifies (if fmt then tabs k else []) []" for k by (simp add: minifies_tabs)
    let ?es = "\<lambda>fmt d. zip (map (\<lambda>c. quoted (the (jstring c))) ch) (map (\<lambda>c. render D fmt c (d + 1)) ch)"
    have q: "minifies (quoted (the (jstring c))) (quoted (the (jstring c)))" if "c \<in> set ch" for c using nm [OF that] minifies_quoted by auto
    have "list_all2 (\<lambda>(n, e) (m, f). minifies n m \<and> minifies e f) (?es fmt d) (?es False d')"
      using c q by (simp add: list_all2_conv_all_nth)
    from minifies_append [OF brace minifies_append [OF minifies_object [OF this, of fmt "d + 1" "d' + 1"] minifies_append [OF tb [of d] brackets(3)]]]
    have "ch \<noteq> [] \<Longrightarrow> ?thesis" using 7 by (simp add: o_def)
    moreover have "ch = [] \<Longrightarrow> ?thesis"
      using 7 minifies_append [OF brace minifies_append [OF tb [of "d - 1"] brackets(3)]] by (cases fmt) simp_all
    ultimately show ?thesis by blast
  qed (simp_all add: kept_def is_blank_def minifies_kept)
qed

text \<open>Minifying a printed text, formatted or not, gives in place the text of the unformatted printer, and leaves
  that one as it is; the bytes behind the new terminator stay.\<close>

theorem cjson_minify:
  assumes "formats_kept D" "json_ok t"
  shows "cJSON_Minify (render D fmt t d @ NUL # junk) = Inr (render D False t 0
    @ NUL # drop (Suc (length (render D False t 0))) (render D fmt t d @ NUL # junk))"
proof -
  have m: "minify (render D fmt t d @ NUL # junk) = Inr (render D False t 0)"
    using minifies_render [OF assms, of fmt d 0] by (simp add: minifies_def minify.simps)
  then show ?thesis using minify_shorter [OF m] by (simp add: cJSON_Minify_def)
qed

theorem cjson_minify_witness:
  "cJSON_Minify (render int_dbl True sample_json 0 @ [NUL]) = Inr (render int_dbl False sample_json 0
    @ NUL # drop (Suc (length (render int_dbl False sample_json 0))) (render int_dbl True sample_json 0 @ [NUL]))
   \<and> length (render int_dbl False sample_json 0) < length (render int_dbl True sample_json 0)"
proof -
  have "formats_kept int_dbl" by (simp add: formats_kept_def int_dbl_def kept_def is_blank_def)
  moreover have "json_ok sample_json" "length (render int_dbl False sample_json 0) < length (render int_dbl True sample_json 0)" by code_simp+
  ultimately show ?thesis using cjson_minify [of int_dbl sample_json True 0 "[]"] by simp
qed

text \<open>An open string literal and an open comment are read past the end of the text.\<close>

lemma copy_open_literal: "\<forall>c\<in>set w. c \<noteq> NUL \<and> c \<noteq> CHR 0x22 \<and> c \<noteq> CHR 0x5C \<Longrightarrow> copy_literal (w @ [NUL]) = Inr (w @ [NUL], [])"
  by (induction w) simp_all

lemma skip_open_comment: "\<forall>c\<in>set w. c \<noteq> NUL \<and> c \<noteq> CHR ''*'' \<Longrightarrow> skip_comment (w @ [NUL]) = Inr []"
  by (induction w) simp_all

theorem minify_overrun:
  "\<forall>c\<in>set w. c \<noteq> NUL \<and> c \<noteq> CHR 0x22 \<and> c \<noteq> CHR 0x5C \<Longrightarrow> cJSON_Minify (CHR 0x22 # w @ [NUL]) = Inl OutOfBounds"
  "\<forall>c\<in>set w. c \<noteq> NUL \<and> c \<noteq> CHR ''*'' \<and> c \<noteq> CHR ''/'' \<Longrightarrow> cJSON_Minify (''/*'' @ w @ [NUL]) = Inl OutOfBounds"
proof -
  show "cJSON_Minify (CHR 0x22 # w @ [NUL]) = Inl OutOfBounds" if "\<forall>c\<in>set w. c \<noteq> NUL \<and> c \<noteq> CHR 0x22 \<and> c \<noteq> CHR 0x5C"
    using copy_open_literal [OF that] by (simp add: cJSON_Minify_def minify.simps is_blank_def)
  assume "\<forall>c\<in>set w. c \<noteq> NUL \<and> c \<noteq> CHR ''*'' \<and> c \<noteq> CHR ''/''"
  then have "skip_comment (''/*'' @ w @ [NUL]) = Inr []" using skip_open_comment [of w] by (cases w) auto
  then show "cJSON_Minify (''/*'' @ w @ [NUL]) = Inl OutOfBounds" by (simp add: cJSON_Minify_def minify.simps is_blank_def)
qed

end
