(* ===== verification/CJsonEdit.thy ===== *)
theory CJsonEdit
  imports CJsonType
begin

text \<open>
  The rest of \<^verbatim>\<open>cJSON.c\<close>: the constructors, references, deletion, and the operations that detach, insert, replace
  and duplicate items. Arrays and objects are trees here as everywhere in the model, so an operation returns the
  changed tree: the items that go into one are not used in another (a reference shares its children with the item
  it was made of; changes through one of them are not followed into the other). Deletion gives the number of
  blocks it frees. A pointer argument that may be 0 is an \<open>option\<close>.
\<close>

section \<open>Hooks, the error pointer and the constructors\<close>

record 'f cJSON_Hooks =
  malloc_fn :: "'f option"
  free_fn :: "'f option"

text \<open>The functions that are called from then on, given the standard \<open>malloc\<close> and \<open>free\<close>.\<close>

definition cJSON_InitHooks :: "'f \<Rightarrow> 'f \<Rightarrow> 'f cJSON_Hooks option \<Rightarrow> 'f \<times> 'f" where
  "cJSON_InitHooks std_malloc std_free hooks = (case hooks of None \<Rightarrow> (std_malloc, std_free)
     | Some h \<Rightarrow> (case malloc_fn h of Some f \<Rightarrow> f | None \<Rightarrow> std_malloc, case free_fn h of Some f \<Rightarrow> f | None \<Rightarrow> std_free))"

definition cJSON_GetErrorPtr :: "jstate \<Rightarrow> ctext option" where
  "cJSON_GetErrorPtr s = ep s"

definition create_type :: "'d dbl \<Rightarrow> int \<Rightarrow> jstate \<Rightarrow> 'd cJSON jres" where
  "create_type D ty s = cJSON_New_Item D s (\<lambda>i s. Inr (Some (set_type ty 0 i), s))"

definition cJSON_CreateNull :: "'d dbl \<Rightarrow> jstate \<Rightarrow> 'd cJSON jres" where
  "cJSON_CreateNull D s = create_type D cJSON_NULL s"

definition cJSON_CreateTrue :: "'d dbl \<Rightarrow> jstate \<Rightarrow> 'd cJSON jres" where
  "cJSON_CreateTrue D s = create_type D cJSON_True s"

definition cJSON_CreateFalse :: "'d dbl \<Rightarrow> jstate \<Rightarrow> 'd cJSON jres" where
  "cJSON_CreateFalse D s = create_type D cJSON_False s"

definition cJSON_CreateBool :: "'d dbl \<Rightarrow> int \<Rightarrow> jstate \<Rightarrow> 'd cJSON jres" where
  "cJSON_CreateBool D b s = create_type D (if b \<noteq> 0 then cJSON_True else cJSON_False) s"

definition cJSON_CreateArray :: "'d dbl \<Rightarrow> jstate \<Rightarrow> 'd cJSON jres" where
  "cJSON_CreateArray D s = create_type D cJSON_Array s"

text \<open>The array constructors: \<open>mk\<close> makes an item of an entry; \<open>make_items\<close> is the loop from the second entry on,
  where a missing item is dereferenced by \<open>suffix_object\<close>.\<close>

primrec make_items :: "('x \<Rightarrow> jstate \<Rightarrow> 'd cJSON jres) \<Rightarrow> nat \<Rightarrow> 'x list \<Rightarrow> jstate \<Rightarrow> ('d cJSON list \<times> jstate) res" where
  "make_items mk 0 xs s = Inr ([], s)"
| "make_items mk (Suc n) xs s = (case xs of [] \<Rightarrow> Inl OutOfBounds | x # xs \<Rightarrow>
     rbind (mk x s) (\<lambda>(i, s). case i of None \<Rightarrow> Inl NullDeref
     | Some i \<Rightarrow> rbind (make_items mk n xs s) (\<lambda>(is, s). Inr (i # is, s))))"

definition create_array_of :: "'d dbl \<Rightarrow> ('x \<Rightarrow> jstate \<Rightarrow> 'd cJSON jres) \<Rightarrow> 'x list \<Rightarrow> int \<Rightarrow> jstate \<Rightarrow> 'd cJSON jres" where
  "create_array_of D mk xs count s = jbind (cJSON_CreateArray D s) (\<lambda>a s.
     if count \<le> 0 then Inr (Some a, s)
     else (case xs of [] \<Rightarrow> Inl OutOfBounds | x # xs \<Rightarrow> rbind (mk x s) (\<lambda>(i, s). case i of
         None \<Rightarrow> if count = 1 then Inr (Some a, s) else if xs = [] then Inl OutOfBounds else Inl NullDeref
       | Some i \<Rightarrow> rbind (make_items mk (nat count - 1) xs s) (\<lambda>(is, s). Inr (Some (set_child (i # is) a), s)))))"

definition cJSON_CreateIntArray :: "'d dbl \<Rightarrow> int list \<Rightarrow> int \<Rightarrow> jstate \<Rightarrow> 'd cJSON jres" where
  "cJSON_CreateIntArray D numbers count s = create_array_of D (\<lambda>k. cJSON_CreateNumber D (of_i D k)) numbers count s"

text \<open>\<open>float\<close> numbers are given by the \<open>double\<close> they convert to.\<close>

definition cJSON_CreateFloatArray :: "'d dbl \<Rightarrow> 'd list \<Rightarrow> int \<Rightarrow> jstate \<Rightarrow> 'd cJSON jres" where
  "cJSON_CreateFloatArray D numbers count s = create_array_of D (cJSON_CreateNumber D) numbers count s"

definition cJSON_CreateDoubleArray :: "'d dbl \<Rightarrow> 'd list \<Rightarrow> int \<Rightarrow> jstate \<Rightarrow> 'd cJSON jres" where
  "cJSON_CreateDoubleArray D numbers count s = create_array_of D (cJSON_CreateNumber D) numbers count s"

definition cJSON_CreateStringArray :: "'d dbl \<Rightarrow> char list list \<Rightarrow> int \<Rightarrow> jstate \<Rightarrow> 'd cJSON jres" where
  "cJSON_CreateStringArray D strings count s = create_array_of D (cJSON_CreateString D) strings count s"

section \<open>References and deletion\<close>

abbreviation (input) cJSON_IsReference :: int where "cJSON_IsReference \<equiv> 256"
abbreviation (input) cJSON_StringIsConst :: int where "cJSON_StringIsConst \<equiv> 512"

primrec cJSON_Delete :: "'d cJSON \<Rightarrow> nat" where
  "cJSON_Delete (Item ty vs vi vd st ch) =
     (if ty AND cJSON_IsReference = 0 then sum_list (map cJSON_Delete ch) + (if vs \<noteq> None then 1 else 0) else 0)
     + (if ty AND cJSON_StringIsConst = 0 \<and> st \<noteq> None then 1 else 0) + 1"

definition create_reference :: "'d dbl \<Rightarrow> 'd cJSON option \<Rightarrow> jstate \<Rightarrow> 'd cJSON jres" where
  "create_reference D item s = cJSON_New_Item D s (\<lambda>_ s. case item of None \<Rightarrow> Inl NullDeref
     | Some i \<Rightarrow> Inr (Some (Item (itype i OR cJSON_IsReference) (valuestring i) (valueint i) (valuedouble i) None (child i)), s))"

definition cJSON_AddItemToObjectCS :: "'d cJSON \<Rightarrow> char list \<Rightarrow> 'd cJSON option \<Rightarrow> 'd cJSON" where
  "cJSON_AddItemToObjectCS obj key item = (case item of None \<Rightarrow> obj | Some i \<Rightarrow> cJSON_AddItemToArray obj
     (Some (Item (itype i OR cJSON_StringIsConst) (valuestring i) (valueint i) (valuedouble i) (Some key) (child i))))"

definition cJSON_AddItemReferenceToArray :: "'d dbl \<Rightarrow> 'd cJSON \<Rightarrow> 'd cJSON option \<Rightarrow> jstate \<Rightarrow> ('d cJSON \<times> jstate) res" where
  "cJSON_AddItemReferenceToArray D a item s =
     rbind (create_reference D item s) (\<lambda>(r, s). Inr (cJSON_AddItemToArray a r, s))"

definition cJSON_AddItemReferenceToObject :: "'d dbl \<Rightarrow> 'd cJSON \<Rightarrow> char list \<Rightarrow> 'd cJSON option \<Rightarrow> jstate \<Rightarrow> ('d cJSON \<times> jstate) res" where
  "cJSON_AddItemReferenceToObject D obj key item s =
     rbind (create_reference D item s) (\<lambda>(r, s). Inr (cJSON_AddItemToObject obj key r s))"

section \<open>Detaching, inserting and replacing\<close>

text \<open>The walks along the chain, with what is done to the links at its end.\<close>

fun detach_at :: "'d cJSON list \<Rightarrow> int \<Rightarrow> ('d cJSON \<times> 'd cJSON list) option" where
  "detach_at [] which = None"
| "detach_at (c # cs) which = (if which > 0 then map_option (\<lambda>(x, cs'). (x, c # cs')) (detach_at cs (which - 1)) else Some (c, cs))"

fun insert_at :: "'d cJSON list \<Rightarrow> int \<Rightarrow> 'd cJSON \<Rightarrow> 'd cJSON list option" where
  "insert_at [] which new = None"
| "insert_at (c # cs) which new = (if which > 0 then map_option (\<lambda>cs'. c # cs') (insert_at cs (which - 1) new) else Some (new # c # cs))"

fun replace_at :: "'d cJSON list \<Rightarrow> int \<Rightarrow> 'd cJSON \<Rightarrow> ('d cJSON \<times> 'd cJSON list) option" where
  "replace_at [] which new = None"
| "replace_at (c # cs) which new = (if which > 0 then map_option (\<lambda>(x, cs'). (x, c # cs')) (replace_at cs (which - 1) new) else Some (c, new # cs))"

fun key_index :: "'d cJSON list \<Rightarrow> char list \<Rightarrow> int option" where
  "key_index [] key = None"
| "key_index (c # cs) key = (if strcasecmp_eq (jstring c) key then Some 0 else map_option (\<lambda>i. i + 1) (key_index cs key))"

definition cJSON_DetachItemFromArray :: "'d cJSON \<Rightarrow> int \<Rightarrow> 'd cJSON option \<times> 'd cJSON" where
  "cJSON_DetachItemFromArray a which = (case detach_at (child a) which of None \<Rightarrow> (None, a) | Some (c, cs) \<Rightarrow> (Some c, set_child cs a))"

definition cJSON_DetachItemFromObject :: "'d cJSON \<Rightarrow> char list \<Rightarrow> 'd cJSON option \<times> 'd cJSON" where
  "cJSON_DetachItemFromObject obj key = (case key_index (child obj) key of None \<Rightarrow> (None, obj) | Some i \<Rightarrow> cJSON_DetachItemFromArray obj i)"

text \<open>The blocks freed, and the array or object that is left.\<close>

definition delete_detached :: "'d cJSON option \<times> 'd cJSON \<Rightarrow> nat \<times> 'd cJSON" where
  "delete_detached r = ((case fst r of None \<Rightarrow> 0 | Some c \<Rightarrow> cJSON_Delete c), snd r)"

definition cJSON_DeleteItemFromArray :: "'d cJSON \<Rightarrow> int \<Rightarrow> nat \<times> 'd cJSON" where
  "cJSON_DeleteItemFromArray a which = delete_detached (cJSON_DetachItemFromArray a which)"

definition cJSON_DeleteItemFromObject :: "'d cJSON \<Rightarrow> char list \<Rightarrow> nat \<times> 'd cJSON" where
  "cJSON_DeleteItemFromObject obj key = delete_detached (cJSON_DetachItemFromObject obj key)"

definition cJSON_InsertItemInArray :: "'d cJSON \<Rightarrow> int \<Rightarrow> 'd cJSON option \<Rightarrow> 'd cJSON res" where
  "cJSON_InsertItemInArray a which new =
     (if item_at (child a) which = None then Inr (cJSON_AddItemToArray a new)
      else (case new of None \<Rightarrow> Inl NullDeref
        | Some n \<Rightarrow> Inr (case insert_at (child a) which n of None \<Rightarrow> a | Some cs \<Rightarrow> set_child cs a)))"

definition cJSON_ReplaceItemInArray :: "'d cJSON \<Rightarrow> int \<Rightarrow> 'd cJSON option \<Rightarrow> (nat \<times> 'd cJSON) res" where
  "cJSON_ReplaceItemInArray a which new =
     (if item_at (child a) which = None then Inr (0, a)
      else (case new of None \<Rightarrow> Inl NullDeref
        | Some n \<Rightarrow> Inr (case replace_at (child a) which n of None \<Rightarrow> (0, a) | Some (c, cs) \<Rightarrow> (cJSON_Delete c, set_child cs a))))"

definition set_name :: "char list option \<Rightarrow> 'd cJSON \<Rightarrow> 'd cJSON" where
  "set_name n i = Item (itype i) (valuestring i) (valueint i) (valuedouble i) n (child i)"

definition cJSON_ReplaceItemInObject :: "'d cJSON \<Rightarrow> char list \<Rightarrow> 'd cJSON option \<Rightarrow> jstate \<Rightarrow> ((nat \<times> 'd cJSON) \<times> jstate) res" where
  "cJSON_ReplaceItemInObject obj key new s = (case key_index (child obj) key of None \<Rightarrow> Inr ((0, obj), s)
     | Some i \<Rightarrow> (case new of None \<Rightarrow> Inl NullDeref | Some n \<Rightarrow> (case cJSON_strdup key s of (w, s) \<Rightarrow>
         rbind (cJSON_ReplaceItemInArray obj i (Some (set_name w n))) (\<lambda>r. Inr (r, s)))))"

section \<open>Duplication\<close>

definition dup_string :: "char list option \<Rightarrow> jstate \<Rightarrow> (char list option \<Rightarrow> jstate \<Rightarrow> 'a jres) \<Rightarrow> 'a jres" where
  "dup_string t s f = (case t of None \<Rightarrow> f None s
     | Some t \<Rightarrow> (case cJSON_strdup t s of (None, s) \<Rightarrow> Inr (None, s) | (Some t, s) \<Rightarrow> f (Some t) s))"

primrec dup_children :: "(bool \<Rightarrow> jstate \<Rightarrow> 'd cJSON jres) list \<Rightarrow> jstate \<Rightarrow> 'd cJSON list jres" where
  "dup_children [] s = Inr (Some [], s)"
| "dup_children (d # ds) s = jbind (d True s) (\<lambda>c s. jbind (dup_children ds s) (\<lambda>cs s. Inr (Some (c # cs), s)))"

primrec cJSON_Duplicate :: "'d dbl \<Rightarrow> 'd cJSON \<Rightarrow> bool \<Rightarrow> jstate \<Rightarrow> 'd cJSON jres" where
  "cJSON_Duplicate D (Item ty vs vi vd st ch) = (\<lambda>recurse s.
     cJSON_New_Item D s (\<lambda>_ s. dup_string vs s (\<lambda>vs s. dup_string st s (\<lambda>st s.
       let new = Item (ty AND NOT cJSON_IsReference) vs vi vd st [] in
       if \<not> recurse then Inr (Some new, s)
       else jbind (dup_children (map (cJSON_Duplicate D) ch) s) (\<lambda>cs s. Inr (Some (set_child cs new), s))))))"

section \<open>Lists of children\<close>

lemma set_child_simps [simp]: "child (set_child ch a) = ch" "set_child cs (set_child ch a) = set_child cs a" "set_child (child a) a = a"
  by (simp_all add: set_child_def)

lemma item_at_nth: "k < length cs \<Longrightarrow> item_at cs (int k) = Some (cs ! k)"
  by (induction cs arbitrary: k) (auto simp: nth_Cons split: nat.split)

lemma item_at_end: "length cs \<le> k \<Longrightarrow> item_at cs (int k) = None"
proof (induction cs arbitrary: k)
  case (Cons c cs)
  then show ?case by (cases k) auto
qed simp

lemma detach_at_nth: "k < length cs \<Longrightarrow> detach_at cs (int k) = Some (cs ! k, take k cs @ drop (Suc k) cs)"
  by (induction cs arbitrary: k) (auto simp: nth_Cons split: nat.split)

lemma insert_at_nth: "k < length cs \<Longrightarrow> insert_at cs (int k) n = Some (take k cs @ n # drop k cs)"
  by (induction cs arbitrary: k) (auto simp: take_Cons drop_Cons split: nat.split)

lemma replace_at_nth: "k < length cs \<Longrightarrow> replace_at cs (int k) n = Some (cs ! k, cs[k := n])"
  by (induction cs arbitrary: k) (auto simp: nth_Cons split: nat.split)

lemma InsertItemInArray_at:
  "k \<le> length (child a) \<Longrightarrow> cJSON_InsertItemInArray a (int k) (Some n) = Inr (set_child (take k (child a) @ n # drop k (child a)) a)"
  by (cases "k = length (child a)")
    (simp_all add: cJSON_InsertItemInArray_def item_at_end item_at_nth insert_at_nth cJSON_AddItemToArray_def)

lemma DetachItemFromArray_at:
  "k < length (child a) \<Longrightarrow> cJSON_DetachItemFromArray a (int k) = (Some (child a ! k), set_child (take k (child a) @ drop (Suc k) (child a)) a)"
  by (simp add: cJSON_DetachItemFromArray_def detach_at_nth)

lemma key_index_find:
  "(case key_index cs key of None \<Rightarrow> find (\<lambda>c. strcasecmp_eq (jstring c) key) cs = None
    | Some i \<Rightarrow> \<exists>k < length cs. i = int k \<and> find (\<lambda>c. strcasecmp_eq (jstring c) key) cs = Some (cs ! k)
        \<and> (\<forall>j<k. \<not> strcasecmp_eq (jstring (cs ! j)) key))"
proof (induction cs)
  case (Cons c cs)
  show ?case
  proof (cases "key_index cs key")
    case (Some i)
    then obtain k where "k < length cs" "i = int k" "find (\<lambda>c. strcasecmp_eq (jstring c) key) cs = Some (cs ! k)"
      "\<forall>j<k. \<not> strcasecmp_eq (jstring (cs ! j)) key" using Cons by auto
    then show ?thesis using Some by (auto intro!: exI [of _ "Suc k"] simp: nth_Cons split: nat.split)
  qed (use Cons in auto)
qed simp

section \<open>What the operations do\<close>

text \<open>An item inserted at a place of an array stands there, the items behind it move on, and detaching it
  restores the array; replacing an item puts the new one in its place and frees what deleting the old one frees.\<close>

theorem cjson_array_edits:
  assumes "k \<le> length (child a)"
  shows "\<exists>b. cJSON_InsertItemInArray a (int k) (Some n) = Inr b
      \<and> cJSON_GetArraySize b = Suc (cJSON_GetArraySize a)
      \<and> (\<forall>i. cJSON_GetArrayItem b (int i) = (if i < k then cJSON_GetArrayItem a (int i) else if i = k then Some n else cJSON_GetArrayItem a (int (i - 1))))
      \<and> cJSON_DetachItemFromArray b (int k) = (Some n, a)
      \<and> cJSON_ReplaceItemInArray b (int k) (Some m) = Inr (cJSON_Delete n, set_child ((child b)[k := m]) b)
      \<and> cJSON_DeleteItemFromArray b (int k) = (cJSON_Delete n, a)"
proof -
  let ?ch = "take k (child a) @ n # drop k (child a)"
  have item: "item_at cs (int i) = (if i < length cs then Some (cs ! i) else None)" for cs :: "'a cJSON list" and i
    by (simp add: item_at_nth item_at_end)
  have k: "k < length ?ch" "?ch ! k = n" using assms by (simp_all add: nth_append)
  have det: "cJSON_DetachItemFromArray (set_child ?ch a) (int k) = (Some n, a)"
    using DetachItemFromArray_at [of k "set_child ?ch a"] k assms by simp
  have "item_at ?ch (int i) = (if i < k then item_at (child a) (int i) else if i = k then Some n else item_at (child a) (int (i - 1)))" for i
  proof -
    consider "i < k" | "i = k" | j where "i = Suc (k + j)" using less_imp_Suc_add by (cases i k rule: linorder_cases) auto
    then show ?thesis unfolding item by cases (use assms in \<open>auto simp: nth_append min_def\<close>)
  qed
  moreover have "replace_at ?ch (int k) m = Some (n, ?ch[k := m])" using replace_at_nth [OF k(1)] k(2) by simp
  moreover have "item_at ?ch (int k) = Some n" using item_at_nth [OF k(1)] k(2) by simp
  ultimately show ?thesis using InsertItemInArray_at [OF assms] det assms
    by (simp add: cJSON_GetArraySize_def cJSON_GetArrayItem_def cJSON_ReplaceItemInArray_def cJSON_DeleteItemFromArray_def delete_detached_def)
qed

theorem cjson_array_edits_witness:
  "\<exists>b. cJSON_InsertItemInArray (child sample_json ! 0) 1 (Some sample_json) = Inr b \<and> cJSON_GetArraySize b = 4
    \<and> cJSON_DetachItemFromArray b 1 = (Some sample_json, child sample_json ! 0)"
proof -
  have n: "length (child (child sample_json ! 0)) = 3" by code_simp
  then show ?thesis using cjson_array_edits [of 1 "child sample_json ! 0" sample_json] by (auto simp: cJSON_GetArraySize_def)
qed

text \<open>Detaching by name takes out the member that a lookup finds, the first one whose name agrees up to case, and
  replacing by name puts the new item, under the new spelling of the name, where a lookup finds it.\<close>

theorem cjson_object_edits:
  assumes "cJSON_GetObjectItem obj key = Some c"
  shows "\<exists>pre post. child obj = pre @ c # post \<and> (\<forall>i\<in>set pre. \<not> strcasecmp_eq (jstring i) key)
    \<and> cJSON_DetachItemFromObject obj key = (Some c, set_child (pre @ post) obj)
    \<and> cJSON_DeleteItemFromObject obj key = (cJSON_Delete c, set_child (pre @ post) obj)
    \<and> (0 < mem s \<longrightarrow> (\<exists>obj'. cJSON_ReplaceItemInObject obj key (Some n) s = Inr ((cJSON_Delete c, obj'), s\<lparr>mem := mem s - 1\<rparr>)
        \<and> child obj' = pre @ set_name (Some key) n # post \<and> cJSON_GetObjectItem obj' key = Some (set_name (Some key) n)))"
proof -
  let ?f = "\<lambda>c. strcasecmp_eq (jstring c) key"
  obtain k where k: "key_index (child obj) key = Some (int k)" "k < length (child obj)" "child obj ! k = c"
    and first: "\<forall>j<k. \<not> ?f (child obj ! j)"
    using key_index_find [where cs = "child obj" and key = key] assms by (auto simp: cJSON_GetObjectItem_def split: option.splits)
  define pre post where "pre = take k (child obj)" and "post = drop (Suc k) (child obj)"
  have ch: "child obj = pre @ c # post" using id_take_nth_drop [OF k(2)] k(3) by (simp add: pre_def post_def)
  have pre: "\<forall>i\<in>set pre. \<not> ?f i" using first k(2) by (auto simp: pre_def in_set_conv_nth)
  have det: "cJSON_DetachItemFromObject obj key = (Some c, set_child (pre @ post) obj)"
    using DetachItemFromArray_at [OF k(2)] k by (simp add: cJSON_DetachItemFromObject_def pre_def post_def)
  have upd: "(child obj)[k := m] = pre @ m # post" for m using k(2) by (simp add: upd_conv_take_nth_drop pre_def post_def)
  have "find ?f (pre @ set_name (Some key) n # post) = Some (set_name (Some key) n)"
    using pre by (induction pre) (auto simp: set_name_def strcasecmp_eq_def)
  moreover have "cJSON_ReplaceItemInArray obj (int k) (Some m) = Inr (cJSON_Delete c, set_child (pre @ m # post) obj)" for m
    using replace_at_nth [OF k(2)] item_at_nth [OF k(2)] k(3) upd by (simp add: cJSON_ReplaceItemInArray_def)
  ultimately show ?thesis using ch pre det k(1)
    by (intro exI [of _ pre] exI [of _ post])
      (auto simp: cJSON_DeleteItemFromObject_def delete_detached_def cJSON_ReplaceItemInObject_def cJSON_strdup_def cJSON_GetObjectItem_def)
qed

theorem cjson_object_edits_witness:
  "\<exists>obj'. cJSON_ReplaceItemInObject sample_json ''E'' (Some sample_json) \<lparr>ep = None, mem = 1\<rparr> = Inr ((2, obj'), \<lparr>ep = None, mem = 0\<rparr>)
    \<and> cJSON_GetObjectItem obj' ''E'' = Some (set_name (Some ''E'') sample_json)"
proof -
  have f: "cJSON_GetObjectItem sample_json ''E'' = Some (child sample_json ! 1)" "cJSON_Delete (child sample_json ! 1) = 2" by code_simp+
  show ?thesis using cjson_object_edits [OF f(1), of "\<lparr>ep = None, mem = 1\<rparr>" sample_json] f(2) by auto
qed

section \<open>Duplicates and what deleting frees\<close>

text \<open>The duplicate of a tree, the blocks that go into it, and the names in it that deletion leaves alone.\<close>

primrec own :: "'d cJSON \<Rightarrow> 'd cJSON" where
  "own (Item ty vs vi vd st ch) = Item (ty AND NOT cJSON_IsReference) vs vi vd st (map own ch)"

abbreviation block_of :: "'a option \<Rightarrow> nat" where
  "block_of p \<equiv> (if p \<noteq> None then 1 else 0)"

primrec dup_allocs :: "'d cJSON \<Rightarrow> nat" where
  "dup_allocs (Item ty vs vi vd st ch) = 1 + (block_of vs + (block_of st + sum_list (map dup_allocs ch)))"

primrec const_names :: "'d cJSON \<Rightarrow> nat" where
  "const_names (Item ty vs vi vd st ch) = (if ty AND cJSON_StringIsConst \<noteq> 0 \<and> st \<noteq> None then 1 else 0) + sum_list (map const_names ch)"

lemma gives_dup_string: "(\<And>s. gives_text s (f t s) u c) \<Longrightarrow> gives_text s (dup_string t s f) u (block_of t + c)"
  by (cases t) (auto simp: dup_string_def cJSON_strdup_def gives_text_def)

lemma gives_dup_children:
  assumes "\<And>c s. c \<in> set ch \<Longrightarrow> gives_text s (f c True s) (g c) (n c)"
  shows "gives_text s (dup_children (map f ch) s) (map g ch) (sum_list (map n ch))"
  using assms
proof (induction ch arbitrary: s)
  case (Cons c ch)
  have "gives_text s (jbind (dup_children (map f ch) s) (\<lambda>cs s. Inr (Some (g c # cs), s))) (g c # map g ch) (sum_list (map n ch) + 0)" for s
    by (rule gives_text_bind) (use Cons in \<open>auto intro: gives_return\<close>)
  then show ?case unfolding dup_children.simps list.map sum_list.Cons
    by (intro gives_text_bind [OF Cons.prems [of c]]) simp_all
qed (simp add: gives_return)

lemma gives_New_Item: "(\<And>i s. gives_text s (f i s) t c) \<Longrightarrow> gives_text s (cJSON_New_Item D s f) t (1 + c)"
  unfolding cJSON_New_Item_def using gives_malloc by fastforce

lemma Duplicate_gives: "gives_text s (cJSON_Duplicate D t True s) (own t) (dup_allocs t)"
proof (induction t arbitrary: s)
  case (Item ty vs vi vd st ch)
  have kids: "gives_text s (dup_children (map (cJSON_Duplicate D) ch) s) (map own ch) (sum_list (map dup_allocs ch))" for s
    by (rule gives_dup_children) (rule Item)
  let ?i = "\<lambda>cs. Item (ty AND NOT cJSON_IsReference) vs vi vd st cs"
  have "gives_text s (jbind (dup_children (map (cJSON_Duplicate D) ch) s) (\<lambda>cs s. Inr (Some (?i cs), s))) (?i (map own ch))
      (sum_list (map dup_allocs ch) + 0)" for s
    by (rule gives_text_bind [OF kids]) (rule gives_return)
  then show ?case unfolding cJSON_Duplicate.simps dup_allocs.simps own.simps Let_def
    by (intro gives_New_Item gives_dup_string) (simp add: set_child_def)
qed

lemma type_bits: "(ty AND - 257) AND 256 = (0 :: int)" "(ty AND - 257) AND 512 = ty AND (512 :: int)"
  by (simp_all add: and.assoc)

lemma Delete_own: "cJSON_Delete (own t) + const_names t = dup_allocs t"
proof (induction t)
  case (Item ty vs vi vd st ch)
  then have "sum_list (map (cJSON_Delete \<circ> own) ch) + sum_list (map const_names ch) = sum_list (map dup_allocs ch)"
  proof (induction ch)
    case (Cons c ch)
    then have "cJSON_Delete (own c) + const_names c = dup_allocs c" "sum_list (map (cJSON_Delete \<circ> own) ch) + sum_list (map const_names ch)
      = sum_list (map dup_allocs ch)" by (auto simp: o_def)
    then show ?case by (simp add: o_def)
  qed simp
  then show ?case by (auto simp: type_bits)
qed

text \<open>Duplicating copies the whole tree, with its references turned into items of their own, and fails only for lack
  of memory. Deleting the duplicate gives back all its blocks but the copies of constant names.\<close>

theorem cjson_duplicate:
  "cJSON_Duplicate D t True s = Inr (if dup_allocs t \<le> mem s then (Some (own t), s\<lparr>mem := mem s - dup_allocs t\<rparr>) else (None, s\<lparr>mem := 0\<rparr>))
   \<and> cJSON_Delete (own t) + const_names t = dup_allocs t"
  using Duplicate_gives [of s D t] Delete_own [of t] unfolding gives_text_def by simp

lemma typed_delete: "typed D c \<Longrightarrow> cJSON_Delete c = 1 + block_of (jstring c) + allocs c"
proof (induction c)
  case (Item ty vs vi vd st ch)
  have bits: "ty AND 256 = 0 \<and> ty AND 512 = 0"
  proof -
    have "take_bit 3 ty = ty" using Item.prems by (simp add: take_bit_int_eq_self)
    then have "ty AND m = take_bit 3 ty AND m" for m by simp
    then have "ty AND 256 = ty AND (mask 3 AND 256)" "ty AND 512 = ty AND (mask 3 AND 512)"
      by (metis take_bit_eq_mask and.assoc)+
    then show ?thesis by (simp add: mask_eq_exp_minus_1)
  qed
  have kids: "cJSON_Delete c = 1 + block_of (jstring c) + allocs c" if "c \<in> set ch" for c using Item that by simp
  have "sum_list (map cJSON_Delete ch) = sum_list (map (\<lambda>c. allocs c + (if ty = cJSON_Object then 2 else 1)) ch)"
    by (rule arg_cong [where f = sum_list], rule map_cong [OF refl]) (use kids Item.prems in \<open>auto simp: c_name_def\<close>)
  then show ?case using bits Item.prems by (auto simp: o_def c_name_def)
qed

text \<open>C24: a tree that the parser returns for a C string is well typed: its types are those of the header, exactly the
  string items have a string, exactly the members of objects have a name, only arrays and objects have children, and no
  string contains a terminator; so every printer accepts it. Deleting it frees exactly the blocks that parsing took.\<close>

theorem cjson_parse_type:
  assumes "cJSON_Parse D k (t @ [NUL]) s = Inr (Some c, s')" "NUL \<notin> set t"
    and "\<forall>d. -2147483648 \<le> to_i D d \<and> to_i D d \<le> 2147483647"
  shows "typed D c \<and> jstring c = None \<and> json_ok c \<and> mem s = mem s' + cJSON_Delete c"
  using Parse_typed [OF assms(1,2)] typed_json_ok [OF assms(3)] typed_delete [of D c] by simp

definition wrap_dbl :: "int dbl" where
  "wrap_dbl = int_dbl\<lparr>to_i := \<lambda>d. max (-2147483648) (min 2147483647 d)\<rparr>"

text \<open>\<open>[1, {"a": "b"}]\<close>.\<close>

definition small_text :: ctext where
  "small_text = ''[1, {'' @ [CHR 0x22, CHR ''a'', CHR 0x22, CHR '':'', CHR 0x22, CHR ''b'', CHR 0x22] @ ''}]''"

theorem cjson_parse_type_witness:
  "\<exists>c s'. cJSON_Parse wrap_dbl 20 (small_text @ [NUL]) \<lparr>ep = None, mem = 9\<rparr> = Inr (Some c, s') \<and> typed wrap_dbl c \<and> 9 = mem s' + cJSON_Delete c"
proof -
  let ?s = "\<lparr>ep = None, mem = 9\<rparr>"
  have "case cJSON_Parse wrap_dbl 20 (small_text @ [NUL]) ?s of Inr (Some _, _) \<Rightarrow> True | _ \<Rightarrow> False" by code_simp
  then obtain c s' where p: "cJSON_Parse wrap_dbl 20 (small_text @ [NUL]) ?s = Inr (Some c, s')" by (auto split: sum.splits option.splits)
  have "NUL \<notin> set small_text" by code_simp
  then show ?thesis using p cjson_parse_type [OF p] by (auto simp: wrap_dbl_def)
qed

end
