(* ===== verification/Button.thy ===== *)
theory Button
  imports Main
begin

text \<open>
  The button monitor \<^verbatim>\<open>src/button_test/test_gree.cpp\<close>: the loop of \<open>button_run2\<close> as a state machine over what
  \<open>select\<close> and \<open>read\<close> give, with the calls of the callback counted. Opening and closing the device are left out.
\<close>

record time_val =
  tv_sec :: int
  tv_usec :: int

record phy_button =
  val :: int
  last_time :: time_val
  long_pressed :: bool

definition millis :: "time_val \<Rightarrow> int" where
  "millis t = tv_sec t * 1000 + tv_usec t div 1000"

definition is_long_pressed :: "time_val \<Rightarrow> time_val \<Rightarrow> int \<Rightarrow> bool" where
  "is_long_pressed now before interval \<longleftrightarrow> millis now - millis before \<ge> interval"

abbreviation (input) PRESS_TIME_MS :: int where "PRESS_TIME_MS \<equiv> 5000"
abbreviation (input) RECOVERY :: int where "RECOVERY \<equiv> 115"

text \<open>What a turn of the loop meets: the time limit of \<open>select\<close>, an error of \<open>select\<close>, or an event with its type, code
  and value. The times are those \<open>gettimeofday\<close> gives in that turn.\<close>

datatype input = Timeout time_val | SelectFails | Event int int int time_val

definition button_step :: "phy_button \<Rightarrow> input \<Rightarrow> phy_button \<times> nat" where
  "button_step b i = (case i of
     Timeout now \<Rightarrow>
       if val b = 1 \<and> is_long_pressed now (last_time b) PRESS_TIME_MS then (b\<lparr>long_pressed := True, last_time := now\<rparr>, 1) else (b, 0)
   | SelectFails \<Rightarrow> (b, 0)
   | Event ty code v now \<Rightarrow>
       if ty = 1 \<and> code = RECOVERY then
         (if val b = 0 \<and> v = 1 then (b\<lparr>last_time := now, val := v\<rparr>, 0)
          else if val b = 1 \<and> v = 0 then (b\<lparr>long_pressed := False, val := v\<rparr>, if long_pressed b then 0 else 1)
          else (b\<lparr>val := v\<rparr>, 0))
       else (b, 0))"

primrec button_run2 :: "phy_button \<Rightarrow> input list \<Rightarrow> phy_button \<times> nat" where
  "button_run2 b [] = (b, 0)"
| "button_run2 b (i # is) = (case button_step b i of (b, n) \<Rightarrow> case button_run2 b is of (b, m) \<Rightarrow> (b, n + m))"

lemma button_run2_append:
  "button_run2 b (is @ is') = (case button_run2 b is of (b, n) \<Rightarrow> case button_run2 b is' of (b, m) \<Rightarrow> (b, n + m))"
  by (induction "is" arbitrary: b) (simp_all split: prod.splits)

text \<open>Turns that are not events of the button, and their times.\<close>

fun foreign :: "input \<Rightarrow> bool" where
  "foreign (Event ty code v now) \<longleftrightarrow> \<not> (ty = 1 \<and> code = RECOVERY)"
| "foreign i \<longleftrightarrow> True"

text \<open>A reading of the clock in microseconds, and when five seconds lie between two readings, both cut to whole
  milliseconds.\<close>

definition clock_us :: "time_val \<Rightarrow> int" where
  "clock_us t = 1000000 * tv_sec t + tv_usec t"

definition five_seconds :: "time_val \<Rightarrow> time_val \<Rightarrow> bool" where
  "five_seconds t now \<longleftrightarrow> clock_us t div 1000 + 5000 \<le> clock_us now div 1000"

text \<open>How often five seconds pass, seen at the time limits only, counted from \<open>t\<close> and then from the limit that saw it.\<close>

fun long_marks :: "time_val \<Rightarrow> input list \<Rightarrow> nat" where
  "long_marks t [] = 0"
| "long_marks t (Timeout now # is) = (if five_seconds t now then Suc (long_marks now is) else long_marks t is)"
| "long_marks t (i # is) = long_marks t is"

lemma long_pressed_five: "is_long_pressed now t PRESS_TIME_MS \<longleftrightarrow> five_seconds t now"
proof -
  have "clock_us x div 1000 = millis x" for x
    using div_mult_self4 [of 1000 "1000 * tv_sec x" "tv_usec x"] by (simp add: clock_us_def millis_def algebra_simps)
  then show ?thesis by (auto simp: is_long_pressed_def five_seconds_def)
qed

lemma run_pressed:
  "\<forall>i\<in>set is. foreign i \<Longrightarrow> val b = 1 \<Longrightarrow>
   \<exists>b'. button_run2 b is = (b', long_marks (last_time b) is) \<and> val b' = 1 \<and> long_pressed b' = (long_pressed b \<or> 0 < long_marks (last_time b) is)"
proof (induction "is" arbitrary: b)
  case (Cons i "is")
  show ?case
  proof (cases "\<exists>now. i = Timeout now \<and> five_seconds (last_time b) now")
    case True
    then obtain now where i: "i = Timeout now" "five_seconds (last_time b) now" by blast
    show ?thesis using Cons.IH [of "b\<lparr>long_pressed := True, last_time := now\<rparr>"] Cons.prems i by (auto simp: button_step_def long_pressed_five)
  next
    case False
    then have "button_step b i = (b, 0)" "long_marks (last_time b) (i # is) = long_marks (last_time b) is"
      using Cons.prems by (cases i; auto simp: button_step_def long_pressed_five)+
    then show ?thesis using Cons.IH [of b] Cons.prems by auto
  qed
qed simp

lemma run_idle: "\<forall>i\<in>set is. foreign i \<Longrightarrow> val b \<noteq> 1 \<Longrightarrow> button_run2 b is = (b, 0)"
proof (induction "is")
  case (Cons i "is")
  then have "button_step b i = (b, 0)" by (cases i) (auto simp: button_step_def)
  then show ?case using Cons by simp
qed simp

definition released :: "phy_button \<Rightarrow> bool" where
  "released b \<longleftrightarrow> val b = 0 \<and> \<not> long_pressed b"

text \<open>A press at \<open>t\<close>, what happens while the button is held, and its release.\<close>

definition press :: "time_val \<Rightarrow> input list \<Rightarrow> time_val \<Rightarrow> input list" where
  "press t is t' = Event 1 RECOVERY 1 t # is @ [Event 1 RECOVERY 0 t']"

lemma one_press:
  assumes "released b" "\<forall>i\<in>set is. foreign i"
  shows "\<exists>b'. button_run2 b (press t is t') = (b', max 1 (long_marks t is)) \<and> released b'"
proof -
  have "button_step b (Event 1 RECOVERY 1 t) = (b\<lparr>last_time := t, val := 1\<rparr>, 0)" using assms(1) by (simp add: button_step_def released_def)
  moreover obtain b' where "button_run2 (b\<lparr>last_time := t, val := 1\<rparr>) is = (b', long_marks t is)" "val b' = 1"
    "long_pressed b' = (0 < long_marks t is)" using run_pressed [OF assms(2), of "b\<lparr>last_time := t, val := 1\<rparr>"] assms(1) by (auto simp: released_def)
  ultimately show ?thesis by (auto simp: press_def button_run2_append button_step_def released_def)
qed

lemma presses_run:
  assumes "released b" "\<forall>(t, is, t', gap)\<in>set ps. (\<forall>i\<in>set is. foreign i) \<and> (\<forall>i\<in>set gap. foreign i)"
  shows "\<exists>b'. button_run2 b (concat (map (\<lambda>(t, is, t', gap). press t is t' @ gap) ps))
    = (b', sum_list (map (\<lambda>(t, is, _). max 1 (long_marks t is)) ps)) \<and> released b'"
  using assms
proof (induction ps arbitrary: b)
  case (Cons p ps)
  obtain t "is" t' gap where p: "p = (t, is, t', gap)" by (cases p)
  then have f: "\<forall>i\<in>set is. foreign i" "\<forall>i\<in>set gap. foreign i" using Cons.prems(2) by auto
  obtain b1 where 1: "button_run2 b (press t is t') = (b1, max 1 (long_marks t is))" "released b1"
    using one_press [OF Cons.prems(1) f(1)] by blast
  have g: "button_run2 b1 gap = (b1, 0)" using run_idle [OF f(2)] 1(2) by (simp add: released_def)
  have rest: "\<forall>(t, is, t', gap)\<in>set ps. (\<forall>i\<in>set is. foreign i) \<and> (\<forall>i\<in>set gap. foreign i)" using Cons.prems(2) by simp
  obtain b2 where 2: "button_run2 b1 (concat (map (\<lambda>(t, is, t', gap). press t is t' @ gap) ps))
      = (b2, sum_list (map (\<lambda>(t, is, _). max 1 (long_marks t is)) ps))" "released b2"
    using Cons.IH [OF 1(2) rest] by blast
  show ?case using 1(1) g 2 by (simp add: p button_run2_append)
qed simp

text \<open>A key that repeats (value 2) is not foreseen: nothing is called for the press, and when a long press was noted before
  the repetition, the note stays and swallows the next short press.\<close>

definition repeating_press :: "time_val \<Rightarrow> input list \<Rightarrow> time_val \<Rightarrow> input list \<Rightarrow> time_val \<Rightarrow> input list" where
  "repeating_press t is t1 held t2 = Event 1 RECOVERY 1 t # is @ [Event 1 RECOVERY 2 t1] @ held @ [Event 1 RECOVERY 0 t2]"

lemma button_repeats:
  assumes "released b" "\<forall>i\<in>set is. foreign i" "\<forall>i\<in>set held. foreign i"
  shows "snd (button_run2 b (repeating_press t is t1 held t2)) = long_marks t is"
    and "snd (button_run2 b (repeating_press t is t1 held t2 @ press t3 [] t4)) = (if 0 < long_marks t is then long_marks t is else 1)"
proof -
  have s: "button_step b (Event 1 RECOVERY 1 t) = (b\<lparr>last_time := t, val := 1\<rparr>, 0)" using assms(1) by (simp add: button_step_def released_def)
  obtain b' where b': "button_run2 (b\<lparr>last_time := t, val := 1\<rparr>) is = (b', long_marks t is)" "val b' = 1"
    "long_pressed b' = (0 < long_marks t is)" using run_pressed [OF assms(2), of "b\<lparr>last_time := t, val := 1\<rparr>"] assms(1) by (auto simp: released_def)
  have h: "button_run2 (b'\<lparr>val := 2\<rparr>) held = (b'\<lparr>val := 2\<rparr>, 0)" by (rule run_idle [OF assms(3)]) simp
  let ?run = "repeating_press t is t1 held t2"
  have r: "button_run2 b ?run = (b'\<lparr>val := 0\<rparr>, long_marks t is)"
    using s b'(1,2) h by (simp add: repeating_press_def button_run2_append button_step_def)
  show "snd (button_run2 b ?run) = long_marks t is" unfolding r by simp
  show "snd (button_run2 b (?run @ press t3 [] t4)) = (if 0 < long_marks t is then long_marks t is else 1)"
    unfolding button_run2_append [of b ?run] r using b'(3) by (simp add: press_def button_step_def)
qed

text \<open>C27: presses of the button, each held for a while and released without key repeats, among any other turns of the loop. A
  press calls the callback once when it is released, unless a time limit of \<open>select\<close> finds that 5000 milliseconds have
  passed while it was held: then it calls it each time a limit finds that, and not at the release. After each press
  the machine is as before. A press after that in which the key repeats (an event of value 2) is not counted the same way: nothing
  is called at its release, and if a limit had found the 5000 milliseconds before the repetition, the next short press
  calls nothing either.\<close>

theorem button_presses:
  assumes "released b" "\<forall>(t, is, t', gap)\<in>set ps. (\<forall>i\<in>set is. foreign i) \<and> (\<forall>i\<in>set gap. foreign i)"
    and "\<forall>i\<in>set is. foreign i" "\<forall>i\<in>set held. foreign i"
  shows "\<exists>b'. button_run2 b (concat (map (\<lambda>(t, is, t', gap). press t is t' @ gap) ps))
      = (b', sum_list (map (\<lambda>(t, is, _). max 1 (long_marks t is)) ps)) \<and> released b'
    \<and> snd (button_run2 b' (repeating_press t is t1 held t2)) = long_marks t is
    \<and> snd (button_run2 b' (repeating_press t is t1 held t2 @ press t3 [] t4)) = (if 0 < long_marks t is then long_marks t is else 1)"
proof -
  obtain b' where b': "button_run2 b (concat (map (\<lambda>(t, is, t', gap). press t is t' @ gap) ps))
      = (b', sum_list (map (\<lambda>(t, is, _). max 1 (long_marks t is)) ps))" "released b'"
    using presses_run [OF assms(1,2)] by blast
  then show ?thesis using button_repeats [OF b'(2) assms(3,4)] by auto
qed

lemma button_presses_witness:
  "\<exists>b. button_run2 \<lparr>val = 0, last_time = \<lparr>tv_sec = 0, tv_usec = 0\<rparr>, long_pressed = False\<rparr>
      (press \<lparr>tv_sec = 1, tv_usec = 900000\<rparr> [Timeout \<lparr>tv_sec = 6, tv_usec = 0\<rparr>, Timeout \<lparr>tv_sec = 7, tv_usec = 0\<rparr>] \<lparr>tv_sec = 8, tv_usec = 0\<rparr>) = (b, 1)
    \<and> released b \<and> snd (button_run2 b (repeating_press \<lparr>tv_sec = 9, tv_usec = 0\<rparr> [] \<lparr>tv_sec = 9, tv_usec = 250000\<rparr> [] \<lparr>tv_sec = 10, tv_usec = 0\<rparr>)) = 0"
  using button_presses [of "\<lparr>val = 0, last_time = \<lparr>tv_sec = 0, tv_usec = 0\<rparr>, long_pressed = False\<rparr>"
      "[(\<lparr>tv_sec = 1, tv_usec = 900000\<rparr>, [Timeout \<lparr>tv_sec = 6, tv_usec = 0\<rparr>, Timeout \<lparr>tv_sec = 7, tv_usec = 0\<rparr>], \<lparr>tv_sec = 8, tv_usec = 0\<rparr>, [])]"
      "[]" "[]" "\<lparr>tv_sec = 9, tv_usec = 0\<rparr>" "\<lparr>tv_sec = 9, tv_usec = 250000\<rparr>" "\<lparr>tv_sec = 10, tv_usec = 0\<rparr>"
      "\<lparr>tv_sec = 11, tv_usec = 0\<rparr>" "\<lparr>tv_sec = 12, tv_usec = 0\<rparr>"]
  by (fastforce simp: released_def five_seconds_def clock_us_def)

end
