(* ===== verification/Exercises.thy ===== *)
theory Exercises
  imports LineInput "HOL-Library.Word" "HOL-Library.Multiset"
begin

text \<open>
  The small programs of the repository, each in a section: \<^verbatim>\<open>loop_run\<close>, the datagram server and the packet of
  \<^verbatim>\<open>data_server_test\<close>, the pair of pipe programs \<^verbatim>\<open>fifo3\<close> and \<^verbatim>\<open>fifo4\<close>, \<^verbatim>\<open>popen3\<close>, \<^verbatim>\<open>qsort\<close>,
  \<^verbatim>\<open>float2hex\<close> and the reader of \<^verbatim>\<open>sqlite_red\<close>.
\<close>

unbundle bit_operations_syntax

section \<open>Running a command at an interval\<close>

record loop_timer =
  time_run :: int
  time_tmp :: int

definition loop_start :: "int \<Rightarrow> char list \<Rightarrow> (loop_timer \<times> char list) res" where
  "loop_start sec cmd = rbind (strcpy_block cmd (replicate 128 NUL)) (\<lambda>b. Inr (\<lparr>time_run = sec, time_tmp = sec\<rparr>, b))"

text \<open>A signal: the new timer, and whether the command runs.\<close>

definition timer_handle :: "loop_timer \<Rightarrow> (loop_timer \<times> bool) res" where
  "timer_handle s = (let t = time_tmp s - 1 in
     if t < - (2 ^ 31) then Inl Overflow
     else if t = 0 then Inr (s\<lparr>time_tmp := time_run s\<rparr>, True) else Inr (s\<lparr>time_tmp := t\<rparr>, False))"

primrec signals :: "nat \<Rightarrow> loop_timer \<Rightarrow> (loop_timer \<times> nat) res" where
  "signals 0 s = Inr (s, 0)"
| "signals (Suc k) s = rbind (timer_handle s) (\<lambda>(s, runs). rbind (signals k s) (\<lambda>(s, n). Inr (s, if runs then Suc n else n)))"

lemma signals_from:
  assumes "0 < n"
  shows "1 \<le> t \<Longrightarrow> t \<le> n \<Longrightarrow> \<exists>t'. signals k \<lparr>time_run = n, time_tmp = t\<rparr>
    = Inr (\<lparr>time_run = n, time_tmp = t'\<rparr>, nat ((int k + n - t) div n)) \<and> 1 \<le> t' \<and> t' \<le> n"
proof (induction k arbitrary: t)
  case 0
  then have "(n - t) div n = 0" by simp
  then show ?case using 0 by simp
next
  case (Suc k)
  show ?case
  proof (cases "t = 1")
    case True
    have "(int (Suc k) + n - t) div n = (int k + n - n) div n + 1" using assms by (simp add: True div_add_self2)
    then show ?thesis using Suc.IH [of n] assms True by (auto simp: timer_handle_def nat_add_distrib pos_imp_zdiv_nonneg_iff)
  next
    case False
    have e: "int k + n - (t - 1) = int (Suc k) + n - t" by simp
    have "1 \<le> t - 1" "t - 1 \<le> n" using Suc.prems False by auto
    from Suc.IH [OF this] show ?thesis using False Suc.prems unfolding e by (auto simp: timer_handle_def simp del: of_nat_Suc)
  qed
qed

text \<open>With an interval of \<open>n > 0\<close> seconds, \<open>k\<close> signals (one a second) run the command \<open>k div n\<close> times.\<close>

lemma loop_run_period: "0 < n \<Longrightarrow> \<exists>s. signals k \<lparr>time_run = n, time_tmp = n\<rparr> = Inr (s, nat (int k div n))"
  using signals_from [of n n k] by auto

text \<open>With 0 or less it never runs before the counter overflows.\<close>

lemma loop_run_never: "n \<le> 0 \<Longrightarrow> t \<le> 0 \<Longrightarrow> - (2 ^ 31) \<le> t - int k \<Longrightarrow> \<exists>s. signals k \<lparr>time_run = n, time_tmp = t\<rparr> = Inr (s, 0)"
proof (induction k arbitrary: t)
  case (Suc k)
  then have "t - 1 \<le> 0" "- (2 ^ 31) \<le> t - 1 - int k" by simp_all
  then obtain s where "signals k \<lparr>time_run = n, time_tmp = t - 1\<rparr> = Inr (s, 0)" using Suc.IH [OF Suc.prems(1)] by blast
  then show ?case using Suc.prems by (simp add: timer_handle_def)
qed simp

section \<open>The datagram server and its client\<close>

text \<open>A turn of the server on a datagram: what is printed and what is sent back. The answer is \<open>+Ok\<close> in four bytes, but as
  many bytes are sent as were received.\<close>

definition data_server_turn :: "char list \<Rightarrow> (char list \<times> char list) res" where
  "data_server_turn m = (let d = take 1024 m in
     if length d = 1024 then Inl OutOfBounds
     else if length d > 4 then Inl OutOfBounds
     else Inr (cstr (d @ [NUL]), take (length d) (''+Ok'' @ [NUL])))"

text \<open>The client: what it sends of the bytes it has read from the terminal.\<close>

definition data_client_turn :: "char list \<Rightarrow> char list option" where
  "data_client_turn d = (if d = [] then None else Some (cstr (d[length d - 1 := NUL])))"

text \<open>The program \<^verbatim>\<open>test.c\<close> sends one datagram and prints the answer \<open>d\<close> from an array of 20 bytes.\<close>

definition data_test_answer :: "char list option \<Rightarrow> (nat \<times> char list) option res" where
  "data_test_answer r = (case r of None \<Rightarrow> Inr None
     | Some d \<Rightarrow> let d = take 20 d in
         if length d = 20 then Inl OutOfBounds else Inr (Some (length d, cstr (d @ [NUL]))))"

lemma data_client_line: "NUL \<notin> set l \<Longrightarrow> data_client_turn (l @ [c]) = Some l"
  by (simp add: data_client_turn_def)

lemma data_server_answers:
  "NUL \<notin> set l \<Longrightarrow> data_server_turn l = (if length l \<le> 4 then Inr (l, take (length l) (''+Ok'' @ [NUL])) else Inl OutOfBounds)"
  using cstr_append [of l "[]"] by (auto simp: data_server_turn_def Let_def)

section \<open>The data packet\<close>

definition scan_digit :: "char \<Rightarrow> nat option" where
  "scan_digit c = (let n = of_char c in
     if 48 \<le> n \<and> n \<le> (57 :: nat) then Some (n - 48) else if 65 \<le> n \<and> n \<le> 70 then Some (n - 55)
     else if 97 \<le> n \<and> n \<le> 102 then Some (n - 87) else None)"

text \<open>\<open>sscanf\<close> with \<open>n\<close> fields \<open>%2X\<close>, on a text of hexadecimal digits.\<close>

fun hex_fields :: "nat \<Rightarrow> char list \<Rightarrow> nat list" where
  "hex_fields (Suc n) (c # d # s) = (case scan_digit c of None \<Rightarrow> []
     | Some x \<Rightarrow> (case scan_digit d of None \<Rightarrow> x # hex_fields n (d # s) | Some y \<Rightarrow> (16 * x + y) # hex_fields n s))"
| "hex_fields (Suc n) [c] = (case scan_digit c of None \<Rightarrow> [] | Some x \<Rightarrow> [x])"
| "hex_fields n s = []"

definition mac_bytes :: "char list \<Rightarrow> nat list" where
  "mac_bytes s = (let xs = hex_fields 6 s in xs @ replicate (6 - length xs) 0)"

text \<open>The packet with \<open>len\<close> bytes of \<open>dyn\<close> behind its header; the array of 1024 bytes starts with zeros.\<close>

definition data_packet :: "char list \<Rightarrow> char list \<Rightarrow> char list \<Rightarrow> nat \<Rightarrow> nat \<Rightarrow> nat list \<Rightarrow> nat \<Rightarrow> nat list \<Rightarrow> nat list" where
  "data_packet login target mac mid vender tm len dyn =
     [0x66, 0x67] @ (if len \<ge> 256 then [len div 256 mod 256, len mod 256] else [0, len mod 256])
     @ mac_bytes login @ mac_bytes target @ mac_bytes mac
     @ map (\<lambda>k. mid div 2 ^ k mod 256) [24, 16, 8, 0] @ map (\<lambda>k. vender div 2 ^ k mod 256) [24, 16, 8, 0] @ [1, 0]
     @ [(tm ! 0 - 2000) mod 256, tm ! 1 mod 256, tm ! 2 mod 256, tm ! 3 mod 256, tm ! 4 mod 256, tm ! 5 mod 256] @ [2]
     @ take len dyn"

definition test_data_ready :: "nat list" where
  "test_data_ready = data_packet ''cabc63e18304'' [] ''cabc63e18304'' 0 0 [2019, 10, 19, 8, 9, 0] 0 []"

lemma hex_6: "hex_fields 6 s = hex_fields (Suc (Suc (Suc (Suc (Suc (Suc 0)))))) s"
  by (simp add: numeral_eq_Suc)

lemma test_macs: "mac_bytes ''cabc63e18304'' = [0xCA, 0xBC, 0x63, 0xE1, 0x83, 0x04]" "mac_bytes [] = [0, 0, 0, 0, 0, 0]"
  by (simp_all add: mac_bytes_def hex_6 scan_digit_def) (simp_all add: numeral_eq_Suc)

lemma test_packet:
  "test_data_ready = [0x66, 0x67, 0, 0, 0xCA, 0xBC, 0x63, 0xE1, 0x83, 0x04, 0, 0, 0, 0, 0, 0, 0xCA, 0xBC, 0x63, 0xE1, 0x83, 0x04,
     0, 0, 0, 0, 0, 0, 0, 0, 1, 0, 19, 10, 19, 8, 9, 0, 2]"
  by (simp add: test_data_ready_def data_packet_def test_macs)

text \<open>The length is stored with its high byte first in both branches.\<close>

lemma packet_length:
  "len < 65536 \<Longrightarrow> data_packet l t m mid v tm len dyn ! 2 * 256 + data_packet l t m mid v tm len dyn ! 3 = len"
proof -
  assume len: "len < 65536"
  have "len div 256 < 256" by (rule less_mult_imp_div_less) (use len in simp)
  then have e: "(if len \<ge> 256 then [len div 256 mod 256, len mod 256] else [0, len mod 256]) = [len div 256, len mod 256]"
    by (cases "256 \<le> len") simp_all
  obtain r where r: "data_packet l t m mid v tm len dyn = 0x66 # 0x67 # len div 256 # len mod 256 # r"
    unfolding data_packet_def e append_Cons append_Nil by blast
  show ?thesis unfolding r by simp
qed

section \<open>Ten megabytes through a pipe\<close>

datatype 'a progress = Running | Stopped 'a | Failing

text \<open>\<open>fifo3\<close> over the results of \<open>write\<close>, \<open>fifo4\<close> over those of \<open>read\<close>.\<close>

fun fifo3 :: "int \<Rightarrow> int list \<Rightarrow> int progress" where
  "fifo3 sent rs = (if sent \<ge> 1024 * 1024 * 10 then Stopped sent
     else case rs of [] \<Rightarrow> Running | r # rs \<Rightarrow> if r = -1 then Failing else fifo3 (sent + r) rs)"

declare fifo3.simps [simp del]

primrec fifo4 :: "int \<Rightarrow> int list \<Rightarrow> int progress" where
  "fifo4 got [] = Running"
| "fifo4 got (r # rs) = (if r > 0 then fifo4 (got + r) rs else Stopped (got + r))"

lemma fifo3_sum: "\<forall>r\<in>set rs. 0 < r \<Longrightarrow> fifo3 a rs = Stopped n \<Longrightarrow> \<exists>k. n = a + sum_list (take k rs)"
proof (induction rs arbitrary: a)
  case Nil
  then show ?case by (auto simp: fifo3.simps [of a] split: if_splits)
next
  case (Cons r rs)
  show ?case
  proof (cases "a \<ge> 1024 * 1024 * 10")
    case True
    then have "n = a" using Cons.prems by (simp add: fifo3.simps [of a])
    then show ?thesis by (intro exI [of _ 0]) simp
  next
    case False
    then have "fifo3 (a + r) rs = Stopped n" using Cons.prems by (simp add: fifo3.simps [of a])
    then obtain k where "n = (a + r) + sum_list (take k rs)" using Cons.IH [of "a + r"] Cons.prems by auto
    then show ?thesis by (intro exI [of _ "Suc k"]) simp
  qed
qed

text \<open>The reader reports what arrived up to the end of the pipe, and one byte less when the last read fails.\<close>

lemma fifo4_sum: "\<forall>r\<in>set rs. 0 < r \<Longrightarrow> e \<le> 0 \<Longrightarrow> fifo4 a (rs @ e # es) = Stopped (a + sum_list rs + e)"
  by (induction rs arbitrary: a) auto

section \<open>Watching a pipe\<close>

text \<open>\<open>pipe_ctrl\<close>: in each turn the pipe is opened (it may fail) and read; what is printed, the number of descriptors left
  open, and how the program ends (\<open>None\<close>: it goes on). A buffer of 1024 bytes is printed as a string.\<close>

datatype ctrl_read = OpenFails | ReadFails | Got "char list"

primrec pipe_ctrl :: "nat \<Rightarrow> ctrl_read list \<Rightarrow> (char list list \<times> nat \<times> int option) res" where
  "pipe_ctrl fds [] = Inr ([], fds, None)"
| "pipe_ctrl fds (r # rs) = (case r of OpenFails \<Rightarrow> Inr ([], fds, Some (-1)) | ReadFails \<Rightarrow> Inr ([], Suc fds, Some 1)
     | Got d \<Rightarrow>
         if d = [] then pipe_ctrl (Suc fds) rs
         else rbind (get_str (take 1024 d @ replicate (1024 - length d) NUL)) (\<lambda>s.
           rbind (pipe_ctrl fds rs) (\<lambda>(out, n, e). Inr (s # out, n, e))))"

text \<open>Short messages are printed one by one; a turn that reads nothing keeps its descriptor.\<close>

lemma pipe_ctrl_prints:
  "\<forall>d\<in>set ds. NUL \<notin> set d \<and> length d < 1024 \<Longrightarrow>
   pipe_ctrl fds (map Got ds) = Inr (filter (\<lambda>d. d \<noteq> []) ds, fds + length (filter (\<lambda>d. d = []) ds), None)"
proof (induction ds arbitrary: fds)
  case (Cons d ds)
  have "get_str (d @ replicate (1024 - length d) NUL) = Inr d" using Cons.prems
    by (cases "1024 - length d") (auto simp: get_str_def)
  then show ?case using Cons by simp
qed simp

section \<open>The output of a command\<close>

text \<open>\<open>popen3\<close> prints the output in blocks of 8192 bytes, each with its last byte replaced by a terminator.\<close>

function popen3 :: "char list \<Rightarrow> char list list" where
  "popen3 t = (if t = [] then [] else cstr ((take 8192 t)[length (take 8192 t) - 1 := NUL]) # popen3 (drop 8192 t))"
  by pat_completeness auto
termination by (relation "measure length") auto

declare popen3.simps [simp del]

text \<open>So one byte of every block is lost, not only the last newline.\<close>

lemma popen3_drops: "NUL \<notin> set t \<Longrightarrow> length (concat (popen3 t)) + length (popen3 t) = length t"
proof (induction t rule: popen3.induct)
  case (1 t)
  show ?case
  proof (cases "t = []")
    case False
    let ?b = "take 8192 t"
    obtain l c where b: "?b = l @ [c]" using False by (cases ?b rule: rev_cases) auto
    then have "NUL \<notin> set l" using 1(2) set_take_subset [of 8192 t] by auto
    then have c: "cstr (?b[length ?b - 1 := NUL]) = l" by (simp add: b)
    have "NUL \<notin> set (drop 8192 t)" using 1(2) by (auto dest: in_set_dropD)
    then have "length (concat (popen3 (drop 8192 t))) + length (popen3 (drop 8192 t)) = length t - 8192" using 1(1) [OF False] by simp
    moreover have "length l + 1 = min (length t) 8192" using arg_cong [OF b, of length] by simp
    ultimately show ?thesis using False c by (simp add: popen3.simps [of t])
  qed (simp add: popen3.simps)
qed

section \<open>Sorting\<close>

text \<open>The comparison subtracts, in \<open>int\<close>.\<close>

definition comp_int :: "int \<Rightarrow> int \<Rightarrow> int res" where
  "comp_int a b = (let d = a - b in if - (2 ^ 31) \<le> d \<and> d < 2 ^ 31 then Inr d else Inl Overflow)"

text \<open>The program: \<open>n\<close> and that many numbers of those that follow are read, \<open>qsort\<close> is the function of the library, and the result is
  printed.\<close>

definition sort_main :: "((int \<Rightarrow> int \<Rightarrow> int) \<Rightarrow> int list \<Rightarrow> int list) \<Rightarrow> nat \<Rightarrow> int list \<Rightarrow> int list res" where
  "sort_main qsort n xs = (let a = take n xs in
     if \<exists>x\<in>set a. \<exists>y\<in>set a. \<not> (\<exists>d. comp_int x y = Inr d) then Inl Overflow
     else Inr (qsort (\<lambda>x y. case comp_int x y of Inr d \<Rightarrow> d | Inl e \<Rightarrow> 0) a))"

text \<open>What the standard says of \<open>qsort\<close>: with a comparison that is consistent with an order on the elements, the result is
  a permutation in that order.\<close>

definition qsort_law :: "((int \<Rightarrow> int \<Rightarrow> int) \<Rightarrow> int list \<Rightarrow> int list) \<Rightarrow> bool" where
  "qsort_law qsort \<longleftrightarrow> (\<forall>cmp a. (\<forall>x\<in>set a. \<forall>y\<in>set a. cmp x y \<le> 0 \<longleftrightarrow> x \<le> y) \<longrightarrow>
     mset (qsort cmp a) = mset a \<and> sorted (qsort cmp a))"

lemma sort_program:
  assumes "qsort_law qsort" "\<forall>x\<in>set (take n xs). - (2 ^ 30) \<le> x \<and> x \<le> 2 ^ 30 - 1"
  shows "\<exists>ys. sort_main qsort n xs = Inr ys \<and> ys = sort (take n xs)"
proof -
  have ok: "comp_int x y = Inr (x - y)" if "x \<in> set (take n xs)" "y \<in> set (take n xs)" for x y
  proof -
    have "- (2 ^ 30) \<le> x" "x \<le> 2 ^ 30 - 1" "- (2 ^ 30) \<le> y" "y \<le> 2 ^ 30 - 1" using assms(2) that by blast+
    then show ?thesis by (simp add: comp_int_def Let_def)
  qed
  let ?cmp = "\<lambda>x y. case comp_int x y of Inr d \<Rightarrow> d | Inl e \<Rightarrow> 0"
  have "mset (qsort ?cmp (take n xs)) = mset (take n xs) \<and> sorted (qsort ?cmp (take n xs))"
    using assms(1) ok unfolding qsort_law_def by simp
  then have "qsort ?cmp (take n xs) = sort (take n xs)" by (metis properties_for_sort)
  then show ?thesis using ok by (auto simp: sort_main_def Let_def)
qed

text \<open>Far apart numbers overflow the comparison.\<close>

lemma comp_int_overflow: "comp_int (2 ^ 31 - 1) (-1) = Inl Overflow" "comp_int (- (2 ^ 31)) 1 = Inl Overflow"
  by (simp_all add: comp_int_def)

section \<open>The bytes of a float\<close>

definition float2hex :: "u32 \<Rightarrow> u8 list" where
  "float2hex w = [ucast (drop_bit 24 w) AND 0xFF, ucast (drop_bit 16 w) AND 0xFF, ucast (drop_bit 8 w) AND 0xFF, ucast w AND 0xFF]"

definition hex2float :: "u8 list \<Rightarrow> u32" where
  "hex2float b = push_bit 24 (ucast (b ! 0)) OR push_bit 16 (ucast (b ! 1)) OR push_bit 8 (ucast (b ! 2)) OR ucast (b ! 3)"

lemma and_255: "(x :: u8) AND 0xFF = x"
proof -
  have "(0xFF :: u8) = - 1" by simp
  then show ?thesis by (simp only: and.right_neutral)
qed

lemma float2hex_bytes: "hex2float (float2hex w) = w"
proof (rule bit_word_eqI)
  fix n assume "n < LENGTH(32)"
  then consider "n < 8" | "8 \<le> n" "n < 16" | "16 \<le> n" "n < 24" | "24 \<le> n" "n < 32" by fastforce
  then show "bit (hex2float (float2hex w)) n = bit w n"
    by cases (auto simp: hex2float_def float2hex_def and_255 bit_simps)
qed

section \<open>The infrared code of \<open>sqlite_red\<close>\<close>

text \<open>What is printed of the output of the command.\<close>

definition get_redcode_buf :: "char list \<Rightarrow> (char list \<times> char list) res" where
  "get_redcode_buf d = (let redCode = take 8192 d @ replicate (8192 - length d) NUL in
     rbind (get_str redCode) (\<lambda>s. Inr (redCode, ''redCode:'' @ s @ [LF])))"

lemma redcode_overrun: "NUL \<notin> set d \<Longrightarrow> get_redcode_buf d = Inl OutOfBounds \<longleftrightarrow> 8192 \<le> length d"
  by (cases "8192 \<le> length d") (auto simp: get_redcode_buf_def get_str_def Let_def dest: in_set_takeD)

end
