(* ===== verification/Base64.thy ===== *)
theory Base64
  imports Prelude
begin

text \<open>
  Base 64 as in \<^verbatim>\<open>src/aes_test/library/base64.c\<close>. A source and its length are one list, a destination is the block
  it points to, and \<open>dlen\<close> the size the caller gives for it. A \<open>size_t\<close> is a natural number where the code makes
  sure that it does not wrap.
\<close>

unbundle bit_operations_syntax

section \<open>The code\<close>

definition MBEDTLS_ERR_BASE64_BUFFER_TOO_SMALL :: int where "MBEDTLS_ERR_BASE64_BUFFER_TOO_SMALL = - 0x2A"
definition MBEDTLS_ERR_BASE64_INVALID_CHARACTER :: int where "MBEDTLS_ERR_BASE64_INVALID_CHARACTER = - 0x2C"
definition BASE64_SIZE_T_MAX :: nat where "BASE64_SIZE_T_MAX = 2 ^ 64 - 1"

definition base64_enc_map :: "u8 list" where
  "base64_enc_map = map of_char ''ABCDEFGHIJKLMNOPQRSTUVWXYZabcdefghijklmnopqrstuvwxyz0123456789+/''"

definition base64_dec_map :: "u8 list" where
  "base64_dec_map =
    [127, 127, 127, 127, 127, 127, 127, 127, 127, 127,
     127, 127, 127, 127, 127, 127, 127, 127, 127, 127,
     127, 127, 127, 127, 127, 127, 127, 127, 127, 127,
     127, 127, 127, 127, 127, 127, 127, 127, 127, 127,
     127, 127, 127,  62, 127, 127, 127,  63,  52,  53,
      54,  55,  56,  57,  58,  59,  60,  61, 127, 127,
     127,  64, 127, 127, 127,   0,   1,   2,   3,   4,
       5,   6,   7,   8,   9,  10,  11,  12,  13,  14,
      15,  16,  17,  18,  19,  20,  21,  22,  23,  24,
      25, 127, 127, 127, 127, 127, 127,  26,  27,  28,
      29,  30,  31,  32,  33,  34,  35,  36,  37,  38,
      39,  40,  41,  42,  43,  44,  45,  46,  47,  48,
      49,  50,  51, 127, 127, 127, 127, 127]"

definition enc_char :: "u32 \<Rightarrow> u8" where
  "enc_char x = base64_enc_map ! unat (x AND 0x3F)"

text \<open>What the loop and the branch for the last one or two bytes write.\<close>

fun encode_loop :: "u8 list \<Rightarrow> u8 list" where
  "encode_loop (c1 # c2 # c3 # src) =
     (let C1 = ucast c1 :: u32; C2 = ucast c2; C3 = ucast c3 in
      [enc_char (drop_bit 2 C1), enc_char (push_bit 4 (C1 AND 3) + drop_bit 4 C2),
       enc_char (push_bit 2 (C2 AND 15) + drop_bit 6 C3), enc_char C3] @ encode_loop src)"
| "encode_loop [c1, c2] =
     (let C1 = ucast c1 :: u32; C2 = ucast c2 in
      [enc_char (drop_bit 2 C1), enc_char (push_bit 4 (C1 AND 3) + drop_bit 4 C2), enc_char (push_bit 2 (C2 AND 15)), 0x3D])"
| "encode_loop [c1] =
     (let C1 = ucast c1 :: u32; C2 = 0 in
      [enc_char (drop_bit 2 C1), enc_char (push_bit 4 (C1 AND 3) + drop_bit 4 C2), 0x3D, 0x3D])"
| "encode_loop [] = []"

text \<open>Bytes written to the front of a block, one after the other.\<close>

definition put_front :: "u8 list \<Rightarrow> u8 list \<Rightarrow> u8 list res" where
  "put_front w b = (if length w \<le> length b then Inr (w @ drop (length w) b) else Inl OutOfBounds)"

text \<open>The result, \<open>*olen\<close> and the block of \<open>dst\<close> (\<open>None\<close> is a null pointer).\<close>

definition mbedtls_base64_encode :: "u8 list option \<Rightarrow> nat \<Rightarrow> u8 list \<Rightarrow> (int \<times> nat \<times> u8 list option) res" where
  "mbedtls_base64_encode dst dlen src =
     (let slen = length src in
      if slen = 0 then Inr (0, 0, dst)
      else let n = slen div 3 + (if slen mod 3 \<noteq> 0 then 1 else 0) in
        if n > (BASE64_SIZE_T_MAX - 1) div 4 then Inr (MBEDTLS_ERR_BASE64_BUFFER_TOO_SMALL, BASE64_SIZE_T_MAX, dst)
        else let n = 4 * n in
          case dst of None \<Rightarrow> Inr (MBEDTLS_ERR_BASE64_BUFFER_TOO_SMALL, n + 1, dst)
          | Some b \<Rightarrow> if dlen < n + 1 then Inr (MBEDTLS_ERR_BASE64_BUFFER_TOO_SMALL, n + 1, dst)
              else let w = encode_loop src in rbind (put_front (w @ [0]) b) (\<lambda>b. Inr (0, length w, Some b)))"

lemma check_chars_shrinks: "c # cs = dropWhile P src \<Longrightarrow> length cs < length src"
  using length_dropWhile_le [of P src] by (metis Suc_le_lessD length_Cons)

text \<open>The first pass: \<open>n\<close> and \<open>j\<close> at its end, or \<open>None\<close> where the code returns an error. One call is one turn of the
  outer loop; \<open>rest\<close> is the source behind the spaces.\<close>

function check_chars :: "nat \<Rightarrow> nat \<Rightarrow> u8 list \<Rightarrow> (nat \<times> nat) option" where
  "check_chars n j src =
     (let rest = dropWhile (\<lambda>c. c = 0x20) src; x = length src - length rest in
      case rest of [] \<Rightarrow> Some (n, j)
      | c # cs \<Rightarrow>
          if c = 0x0D \<and> cs \<noteq> [] \<and> hd cs = 0x0A then check_chars n j cs
          else if c = 0x0A then check_chars n j cs
          else if x \<noteq> 0 then None
          else let j' = (if c = 0x3D then j + 1 else j) in
            if c = 0x3D \<and> j' > 2 then None
            else if c > 127 \<or> base64_dec_map ! unat c = 127 then None
            else if base64_dec_map ! unat c < 64 \<and> j' \<noteq> 0 then None
            else check_chars (n + 1) j' cs)"
  by pat_completeness auto

termination by (relation "measure (\<lambda>(n, j, src). length src)") (auto dest: check_chars_shrinks)

declare check_chars.simps [simp del]

text \<open>The second pass: what is written.\<close>

fun decode_loop :: "u32 \<Rightarrow> nat \<Rightarrow> u32 \<Rightarrow> u8 list \<Rightarrow> u8 list res" where
  "decode_loop j n x [] = Inr []"
| "decode_loop j n x (c # src) =
     (if c = 0x0D \<or> c = 0x0A \<or> c = 0x20 then decode_loop j n x src
      else if length base64_dec_map \<le> unat c then Inl OutOfBounds
      else let d = base64_dec_map ! unat c; j = (if d = 64 then j - 1 else j); x = push_bit 6 x OR (ucast d AND 0x3F) in
        if n + 1 = 4 then
          rbind (decode_loop j 0 x src) (\<lambda>w. Inr ((if j > 0 then [ucast (drop_bit 16 x)] else []) @
            (if j > 1 then [ucast (drop_bit 8 x)] else []) @ (if j > 2 then [ucast x] else []) @ w))
        else decode_loop j (n + 1) x src)"

definition mbedtls_base64_decode :: "u8 list option \<Rightarrow> nat \<Rightarrow> u8 list \<Rightarrow> (int \<times> nat option \<times> u8 list option) res" where
  "mbedtls_base64_decode dst dlen src =
     (case check_chars 0 0 src of None \<Rightarrow> Inr (MBEDTLS_ERR_BASE64_INVALID_CHARACTER, None, dst)
      | Some (n, j) \<Rightarrow>
          if n = 0 then Inr (0, Some 0, dst)
          else let n = 6 * drop_bit 3 n + drop_bit 3 (6 * (n AND 7) + 7) - j in
            case dst of None \<Rightarrow> Inr (MBEDTLS_ERR_BASE64_BUFFER_TOO_SMALL, Some n, dst)
            | Some b \<Rightarrow> if dlen < n then Inr (MBEDTLS_ERR_BASE64_BUFFER_TOO_SMALL, Some n, dst)
                else rbind (decode_loop 3 0 0 src) (\<lambda>w. rbind (put_front w b) (\<lambda>b. Inr (0, Some (length w), Some b))))"

section \<open>The tables\<close>

lemma enc_map_length: "length base64_enc_map = 64" "length base64_dec_map = 128"
  by (simp_all add: base64_enc_map_def base64_dec_map_def)

lemma enc_map_bytes: "base64_enc_map = [65, 66, 67, 68, 69, 70, 71, 72, 73, 74, 75, 76, 77, 78, 79, 80, 81, 82, 83, 84, 85, 86, 87, 88, 89, 90, 97, 98, 99, 100, 101, 102, 103, 104, 105, 106, 107, 108, 109, 110, 111, 112, 113, 114, 115, 116, 117, 118, 119, 120, 121, 122, 48, 49, 50, 51, 52, 53, 54, 55, 56, 57, 43, 47]"
  by (simp add: base64_enc_map_def)

lemma dec_enc: "map (\<lambda>c. base64_dec_map ! unat c) base64_enc_map = map of_nat [0..<64]"
  unfolding enc_map_bytes base64_dec_map_def by (simp add: upt_conv_Cons)

lemma enc_plain: "\<forall>c\<in>set base64_enc_map. c < 128 \<and> c \<noteq> 0x0D \<and> c \<noteq> 0x0A \<and> c \<noteq> 0x20 \<and> c \<noteq> 0x3D"
  by (simp add: enc_map_bytes)

lemma pad_checked: "base64_dec_map ! 61 = 64"
  by (simp add: base64_dec_map_def)

section \<open>Groups of four characters\<close>

lemma and_masks: "x AND 0x3F = take_bit 6 x" "x AND 3 = take_bit 2 x" "x AND 15 = take_bit 4 x" for x :: u32
  by (simp_all add: take_bit_eq_mask mask_eq_exp_minus_1)

lemma sextet_less: "unat (x AND 0x3F) < 64" for x :: u32
proof -
  have "x AND 0x3F \<le> 0x3F" by (rule word_and_le1)
  then show ?thesis by (simp add: word_le_nat_alt)
qed

lemma enc_char_in: "enc_char x \<in> set base64_enc_map"
  using sextet_less [of x] by (simp add: enc_char_def enc_map_length)

lemma enc_char_plain: "enc_char x < 128" "enc_char x \<noteq> 0x0D" "enc_char x \<noteq> 0x0A" "enc_char x \<noteq> 0x20" "enc_char x \<noteq> 0x3D"
  using enc_char_in enc_plain by blast+

lemma dec_enc_char: "base64_dec_map ! unat (enc_char x) = ucast (x AND 0x3F)"
proof -
  let ?i = "unat (x AND 0x3F)"
  have "map (\<lambda>c. base64_dec_map ! unat c) base64_enc_map ! ?i = map of_nat [0..<64] ! ?i" by (simp only: dec_enc)
  then show ?thesis using sextet_less [of x] by (simp add: enc_char_def enc_map_length)
qed

lemma sextet_value: "ucast (ucast (x AND 0x3F) :: u8) AND 0x3F = (x AND 0x3F :: u32)"
  unfolding and_masks by (rule bit_word_eqI) (auto simp: bit_simps)

lemma sextet_small: "(ucast (x AND 0x3F) :: u8) < 64" for x :: u32
proof -
  have "unat (ucast (x AND 0x3F) :: u8) = unat (x AND 0x3F)" using sextet_less [of x] by (simp add: unsigned_ucast_eq take_bit_nat_eq_self)
  then show ?thesis using sextet_less [of x] by (simp add: word_less_nat_alt)
qed

text \<open>A sextet shifted into the accumulator.\<close>

definition shift_in :: "u32 \<Rightarrow> u32 \<Rightarrow> u32" where
  "shift_in x y = push_bit 6 x OR take_bit 6 y"

definition sextet :: "u8 \<Rightarrow> bool" where
  "sextet c \<longleftrightarrow> unat c < 128 \<and> base64_dec_map ! unat c < 64"

lemma sextet_visible: "sextet c \<Longrightarrow> c \<noteq> 0x0D \<and> c \<noteq> 0x0A \<and> c \<noteq> 0x20 \<and> c \<noteq> 0x3D"
  by (auto simp: sextet_def base64_dec_map_def)

lemma decode_data:
  "sextet c \<Longrightarrow> decode_loop j n x (c # src) =
     (let y = shift_in x (ucast (base64_dec_map ! unat c)) in
      if n + 1 = 4 then
        rbind (decode_loop j 0 y src) (\<lambda>w. Inr ((if j > 0 then [ucast (drop_bit 16 y)] else []) @
          (if j > 1 then [ucast (drop_bit 8 y)] else []) @ (if j > 2 then [ucast y] else []) @ w))
      else decode_loop j (n + 1) y src)"
  using sextet_visible [of c] by (auto simp: sextet_def enc_map_length Let_def and_masks [symmetric] shift_in_def)

lemma sextet_enc_char: "sextet (enc_char y)"
  using enc_char_plain(1) [of y] sextet_small [of y] by (simp add: sextet_def dec_enc_char word_less_nat_alt)

lemma decode_char:
  "decode_loop j n x (enc_char y # src) =
     (if n + 1 = 4 then
        rbind (decode_loop j 0 (shift_in x y) src) (\<lambda>w. Inr ((if j > 0 then [ucast (drop_bit 16 (shift_in x y))] else []) @
          (if j > 1 then [ucast (drop_bit 8 (shift_in x y))] else []) @ (if j > 2 then [ucast (shift_in x y)] else []) @ w))
      else decode_loop j (n + 1) (shift_in x y) src)"
proof -
  have "shift_in x (ucast (ucast (y AND 0x3F) :: u8)) = shift_in x y"
    unfolding shift_in_def and_masks [symmetric] by (simp only: sextet_value)
  then show ?thesis by (simp add: decode_data [OF sextet_enc_char] dec_enc_char Let_def del: decode_loop.simps)
qed

lemma decode_pad:
  "decode_loop j n x (0x3D # src) =
     (let y = shift_in x 0; j = j - 1 in
      if n + 1 = 4 then
        rbind (decode_loop j 0 y src) (\<lambda>w. Inr ((if j > 0 then [ucast (drop_bit 16 y)] else []) @
          (if j > 1 then [ucast (drop_bit 8 y)] else []) @ (if j > 2 then [ucast y] else []) @ w))
      else decode_loop j (n + 1) y src)"
  by (simp add: pad_checked enc_map_length Let_def shift_in_def)

declare decode_loop.simps(2) [simp del]

lemma less_8: "n < 8 \<Longrightarrow> n = 0 \<or> n = 1 \<or> n = 2 \<or> n = 3 \<or> n = 4 \<or> n = 5 \<or> n = 6 \<or> n = (7 :: nat)"
  by arith

lemma plus_is_or:
  "push_bit 4 (take_bit 2 (ucast c1 :: u32)) + drop_bit 4 (ucast (c2 :: u8)) = push_bit 4 (take_bit 2 (ucast (c1 :: u8))) OR drop_bit 4 (ucast c2)"
  "push_bit 2 (take_bit 4 (ucast c2 :: u32)) + drop_bit 6 (ucast (c3 :: u8)) = push_bit 2 (take_bit 4 (ucast (c2 :: u8))) OR drop_bit 6 (ucast c3)"
  by (rule disjunctive_add_eq_or; rule bit_word_eqI; auto simp: bit_simps dest: bit_u8_lt)+

lemma quad_bits:
  fixes c1 c2 c3 :: u8 and x :: u32
  defines "y \<equiv> shift_in (shift_in (shift_in (shift_in x (drop_bit 2 (ucast c1)))
    (push_bit 4 (take_bit 2 (ucast c1)) OR drop_bit 4 (ucast c2))) (push_bit 2 (take_bit 4 (ucast c2)) OR drop_bit 6 (ucast c3))) (ucast c3)"
  shows "ucast (drop_bit 16 y) = c1" "ucast (drop_bit 8 y) = c2" "ucast y = c3"
  by (rule bit_word_eqI; auto dest!: less_8 dest: bit_u8_lt simp: y_def shift_in_def bit_simps numeral_2_eq_2 [symmetric])+

lemma decode_encode: "decode_loop 3 0 x (encode_loop src) = Inr src"
proof (induction src arbitrary: x rule: encode_loop.induct)
  case (1 c1 c2 c3 src)
  show ?case by (simp add: decode_char Let_def and_masks plus_is_or 1 quad_bits)
next
  case (2 c1 c2)
  show ?case using quad_bits(1,2) [of x c1 c2 0] by (simp add: decode_char decode_pad Let_def and_masks plus_is_or)
next
  case (3 c1)
  show ?case using quad_bits(1) [of x c1 0 0] by (simp add: decode_char decode_pad Let_def and_masks plus_is_or)
qed simp

lemma length_encode: "length (encode_loop src) = 4 * ((length src + 2) div 3)"
proof (induction src rule: encode_loop.induct)
  case (1 c1 c2 c3 src)
  have "(5 + length src) div 3 = Suc (Suc (Suc (length src)) div 3)" by presburger
  then show ?case using 1 by (simp add: Let_def)
qed (simp_all add: Let_def)

lemma check_encoded_char: "check_chars n 0 (enc_char y # src) = check_chars (Suc n) 0 src"
proof -
  have "\<not> enc_char y > 127" using enc_char_plain(1) [of y] by (simp add: word_less_nat_alt)
  moreover have "(ucast (y AND 0x3F) :: u8) \<noteq> 127" using sextet_small [of y] by auto
  ultimately show ?thesis using enc_char_plain [of y] by (simp add: check_chars.simps [of n] dec_enc_char)
qed

lemma check_padding: "check_chars n 0 [0x3D] = Some (Suc n, 1)" "check_chars n 0 [0x3D, 0x3D] = Some (n + 2, 2)"
  by (simp_all add: check_chars.simps pad_checked)

lemma check_encoded:
  "check_chars n 0 (encode_loop src) = Some (n + length (encode_loop src), if length src mod 3 = 1 then 2 else if length src mod 3 = 2 then 1 else 0)"
proof (induction src arbitrary: n rule: encode_loop.induct)
  case (1 c1 c2 c3 src)
  show ?case by (simp add: check_encoded_char Let_def 1)
next
  case 4
  show ?case by (simp add: check_chars.simps)
qed (simp_all add: check_encoded_char check_padding Let_def)

lemma decoded_size: "6 * drop_bit 3 n + drop_bit 3 (6 * (n AND 7) + 7) = (6 * n + 7) div (8 :: nat)"
proof -
  have "n AND 7 = n mod 8" using take_bit_eq_mask [of 3 n] by (simp add: take_bit_eq_mod mask_eq_exp_minus_1)
  moreover have "(6 * n + 7) div 8 = 6 * (n div 8) + (6 * (n mod 8) + 7) div 8"
  proof -
    have "6 * n + 7 = (6 * (n mod 8) + 7) + 6 * (n div 8) * 8" using div_mult_mod_eq [of n 8] by linarith
    then show ?thesis by simp
  qed
  ultimately show ?thesis by (simp add: drop_bit_eq_div)
qed

section \<open>Any text\<close>

abbreviation (input) skipped :: "u8 \<Rightarrow> bool" where "skipped c \<equiv> c = 0x0D \<or> c = 0x0A \<or> c = 0x20"

lemma dec_map_kinds: "i < 128 \<Longrightarrow> base64_dec_map ! i < 64 \<or> base64_dec_map ! i = 127 \<or> i = 61"
proof -
  have "\<forall>(i, d)\<in>set (enumerate 0 base64_dec_map). d < 64 \<or> d = 127 \<or> i = 61" by (simp add: base64_dec_map_def)
  moreover assume "i < 128"
  then have "(i, base64_dec_map ! i) \<in> set (enumerate 0 base64_dec_map)" by (simp add: in_set_enumerate_eq enc_map_length)
  ultimately show ?thesis by fast
qed

lemma decode_visible: "decode_loop j n x src = decode_loop j n x (filter (\<lambda>c. \<not> skipped c) src)"
  by (induction j n x src rule: decode_loop.induct) (simp_all add: decode_loop.simps(2) Let_def cong: if_cong)

lemma filter_spaces: "filter (\<lambda>c. \<not> skipped c) (dropWhile (\<lambda>c. c = 0x20) src) = filter (\<lambda>c. \<not> skipped c) src"
  by (induction src) auto

text \<open>What the first pass accepts: sextets, then at most two padding characters, with blanks between them.\<close>

lemma check_accepts:
  "check_chars n j src = Some (n', j') \<Longrightarrow> j \<le> 2 \<Longrightarrow> j \<le> j' \<and> j' \<le> 2 \<and>
   (\<exists>ds. filter (\<lambda>c. \<not> skipped c) src = ds @ replicate (j' - j) 0x3D \<and> list_all sextet ds \<and> (j = 0 \<or> ds = []) \<and> n' = n + length ds + (j' - j))"
proof (induction n j src rule: check_chars.induct)
  case (1 n j src)
  show ?case
  proof (cases "dropWhile (\<lambda>c. c = 0x20) src")
    case Nil
    then have "check_chars n j src = Some (n, j)" by (simp only: check_chars.simps [of n j src] Let_def list.case)
    then show ?thesis using 1(4,5) filter_spaces [of src] Nil by simp
  next
    case (Cons c cs)
    have v: "filter (\<lambda>c. \<not> skipped c) src = filter (\<lambda>c. \<not> skipped c) (c # cs)" using filter_spaces [of src] Cons by simp
    note eq = 1(4) [unfolded check_chars.simps [of n j src], simplified Cons Let_def list.case]
    show ?thesis
    proof (cases "c = 0x0D \<and> cs \<noteq> [] \<and> hd cs = 0x0A \<or> c = 0x0A")
      case True
      then have "check_chars n j cs = Some (n', j')" using eq by (auto split: if_splits)
      then show ?thesis using 1(1,2) [OF refl refl Cons] 1(5) True v by auto
    next
      case False
      let ?j = "if c = 0x3D then j + 1 else j"
      have c: "\<not> c > 127" "base64_dec_map ! unat c \<noteq> 127" "\<not> (c = 0x3D \<and> ?j > 2)" "\<not> (base64_dec_map ! unat c < 64 \<and> ?j \<noteq> 0)"
          "length src - length (c # cs) = 0" "check_chars (n + 1) ?j cs = Some (n', j')"
        using eq False by (auto split: if_splits)
      then have ih: "?j \<le> j' \<and> j' \<le> 2 \<and> (\<exists>ds. filter (\<lambda>c. \<not> skipped c) cs = ds @ replicate (j' - ?j) 0x3D \<and> list_all sextet ds \<and>
          (?j = 0 \<or> ds = []) \<and> n' = n + 1 + length ds + (j' - ?j))"
        using 1(3) [OF refl refl Cons _ _ _ refl] False Cons 1(5) by (auto split: if_splits)
      show ?thesis
      proof (cases "c = 0x3D")
        case True
        then have f: "filter (\<lambda>c. \<not> skipped c) cs = replicate (j' - (j + 1)) 0x3D" "j + 1 \<le> j'" "j' \<le> 2" "n' = n + 1 + (j' - (j + 1))"
          using ih by auto
        then obtain k where "j' - j = Suc k" "j' - (j + 1) = k" by (metis Suc_diff_le Suc_eq_plus1 diff_Suc_Suc)
        then show ?thesis using f True v by auto
      next
        case False
        have "unat c < 128" using c(1) by (simp add: word_less_nat_alt)
        moreover have "unat c \<noteq> 61" using False by (auto simp: word_unat_eq_iff)
        ultimately have "sextet c" using dec_map_kinds [of "unat c"] c(2) by (simp add: sextet_def)
        moreover from this have "j = 0" using c(4) False by (auto simp: sextet_def)
        moreover obtain ds where "filter (\<lambda>c. \<not> skipped c) cs = ds @ replicate (j' - j) 0x3D" "list_all sextet ds" "n' = n + 1 + length ds + (j' - j)"
          using ih False by auto
        ultimately show ?thesis
          using v ih sextet_visible [of c] by (intro conjI exI [of _ "c # ds"]) auto
      qed
    qed
  qed
qed

lemma decode_bound:
  "list_all sextet ds \<Longrightarrow> k \<le> 2 \<Longrightarrow>
   \<exists>w. decode_loop 3 0 x (ds @ replicate k 0x3D) = Inr w \<and> length w + k \<le> (6 * (length ds + k) + 7) div 8"
proof (induction "length ds" arbitrary: ds x rule: less_induct)
  case less
  show ?case
  proof (cases "length ds < 4")
    case True
    then consider "ds = []" | a where "ds = [a]" | a b where "ds = [a, b]" | a b c where "ds = [a, b, c]"
      by (auto simp: numeral_eq_Suc less_Suc_eq length_Suc_conv)
    moreover have "k = 0 \<or> k = 1 \<or> k = 2" using less(3) by linarith
    ultimately show ?thesis using less(2) by cases (auto simp: decode_data decode_pad Let_def numeral_2_eq_2)
  next
    case False
    then obtain a b c d r where ds: "ds = a # b # c # d # r" by (auto simp: not_less numeral_eq_Suc Suc_le_length_iff)
    then have "length r < length ds" "list_all sextet r" using less(2) by simp_all
    note ih = less(1) [OF this less(3)]
    have "6 * (length ds + k) + 7 = (6 * (length r + k) + 7) + 3 * 8" by (simp add: ds)
    then have "(6 * (length ds + k) + 7) div 8 = (6 * (length r + k) + 7) div 8 + 3" by simp
    moreover obtain y :: u32 and w where "decode_loop 3 0 x (ds @ replicate k 0x3D) = Inr (ucast (drop_bit 16 y) # ucast (drop_bit 8 y) # ucast y # w)"
        "length w + k \<le> (6 * (length r + k) + 7) div 8"
    proof -
      let ?v = "\<lambda>c. ucast (base64_dec_map ! unat c)"
      let ?y = "shift_in (shift_in (shift_in (shift_in x (?v a)) (?v b)) (?v c)) (?v d)"
      obtain w where "decode_loop 3 0 ?y (r @ replicate k 0x3D) = Inr w" "length w + k \<le> (6 * (length r + k) + 7) div 8"
        using ih [of ?y] by blast
      then show ?thesis using less(2) that [of ?y w] by (simp add: ds decode_data Let_def)
    qed
    ultimately show ?thesis by simp
  qed
qed

section \<open>Encoding and decoding\<close>

text \<open>The size a caller must provide for the text of \<open>src\<close> with its terminator, as reported in \<open>*olen\<close>.\<close>

definition text_size :: "u8 list \<Rightarrow> nat" where
  "text_size src = (if src = [] then 0 else 4 * ((length src + 2) div 3) + 1)"

lemma groups: "m div 3 + (if m mod 3 \<noteq> 0 then 1 else 0) = (m + 2) div (3 :: nat)"
  by presburger

lemma padded_length: "3 * ((m + 2) div 3) - (if m mod 3 = 1 then 2 else if m mod 3 = 2 then 1 else 0) = (m :: nat)"
  by presburger

lemma decode_text:
  assumes "length src \<le> dlen" "dlen \<le> length b"
  shows "mbedtls_base64_decode (Some b) dlen (encode_loop src) = Inr (0, Some (length src), Some (src @ drop (length src) b))"
proof (cases "src = []")
  case True
  then show ?thesis by (simp add: mbedtls_base64_decode_def check_chars.simps)
next
  case False
  let ?j = "if length src mod 3 = 1 then 2 else if length src mod 3 = 2 then 1 else 0 :: nat"
  define n where "n = 4 * ((length src + 2) div 3)"
  have q: "0 < (length src + 2) div 3" using False by (cases src) simp_all
  have "6 * n + 7 = 7 + 3 * ((length src + 2) div 3) * 8" by (simp add: n_def)
  then have "(6 * n + 7) div 8 = 3 * ((length src + 2) div 3)" by simp
  then have s: "(6 * n + 7) div 8 - ?j = length src" using padded_length [of "length src"] by simp
  have c: "check_chars 0 0 (encode_loop src) = Some (n, ?j)"
    using check_encoded [of 0 src] unfolding n_def by (simp only: length_encode add_0)
  have "n \<noteq> 0" using q unfolding n_def by simp
  then show ?thesis
    using assms unfolding mbedtls_base64_decode_def c option.case prod.case Let_def decoded_size s decode_encode by (simp add: put_front_def)
qed

text \<open>C5: what has been encoded decodes to itself. A call of \<open>mbedtls_base64_encode\<close> either finds the destination too
  small, writes nothing and reports the size it needs, or writes four characters for every three bytes begun and a
  terminator and leaves the rest of the block as it was; decoding those characters into any block with room for the
  source gives the source back.\<close>

theorem base64_round_trip:
  assumes "length src \<le> 2 ^ 62" "dlen \<le> length b" "length src \<le> dlen2" "dlen2 \<le> length b2"
  shows "if dlen < text_size src then mbedtls_base64_encode (Some b) dlen src = Inr (MBEDTLS_ERR_BASE64_BUFFER_TOO_SMALL, text_size src, Some b)
    else \<exists>b'. mbedtls_base64_encode (Some b) dlen src = Inr (0, text_size src - 1, Some b') \<and> length b' = length b \<and>
      drop (text_size src) b' = drop (text_size src) b \<and> (src \<noteq> [] \<longrightarrow> b' ! (text_size src - 1) = 0) \<and>
      mbedtls_base64_decode (Some b2) dlen2 (take (text_size src - 1) b') = Inr (0, Some (length src), Some (src @ drop (length src) b2))"
proof (cases "src = []")
  case True
  then show ?thesis using decode_text [of "[]" dlen2 b2] assms(4) by (simp add: mbedtls_base64_encode_def text_size_def)
next
  case False
  let ?q = "(length src + 2) div 3"
  have "?q \<le> (BASE64_SIZE_T_MAX - 1) div 4" using assms(1) by (simp add: BASE64_SIZE_T_MAX_def)
  then have "mbedtls_base64_encode (Some b) dlen src = (if dlen < text_size src then Inr (MBEDTLS_ERR_BASE64_BUFFER_TOO_SMALL, text_size src, Some b)
      else rbind (put_front (encode_loop src @ [0]) b) (\<lambda>b. Inr (0, 4 * ?q, Some b)))"
    unfolding mbedtls_base64_encode_def Let_def groups length_encode text_size_def using False by simp
  then show ?thesis
    using False assms(2) decode_text [OF assms(3,4)] by (auto simp: put_front_def length_encode text_size_def nth_append)
qed

theorem base64_round_trip_witness:
  "\<exists>b'. mbedtls_base64_encode (Some (replicate 12 1)) 12 [104, 101, 108, 108, 111] = Inr (0, 8, Some b') \<and>
    mbedtls_base64_decode (Some (replicate 5 0)) 5 (take 8 b') = Inr (0, Some 5, Some [104, 101, 108, 108, 111])"
  using base64_round_trip [of "[104, 101, 108, 108, 111]" 12 "replicate 12 1" 5 "replicate 5 0"] by (auto simp: text_size_def)

text \<open>C28: decoding is safe for every text. A call with a null pointer reports a size, and a call for a block of at
  least that size succeeds and writes at most so many bytes; for a smaller one nothing is written and the same size is
  reported. A text with characters outside the alphabet, blanks inside a line or padding before its end is refused.\<close>

theorem base64_decode_safe:
  assumes "dlen \<le> length b"
  shows "\<exists>ret size dst. mbedtls_base64_decode None 0 src = Inr (ret, size, None) \<and>
    (if ret = MBEDTLS_ERR_BASE64_BUFFER_TOO_SMALL \<and> the size \<le> dlen then
       \<exists>w. mbedtls_base64_decode (Some b) dlen src = Inr (0, Some (length w), Some (w @ drop (length w) b)) \<and> length w \<le> the size
     else mbedtls_base64_decode (Some b) dlen src = Inr (ret, size, Some b))"
proof (cases "check_chars 0 0 src")
  case None
  then show ?thesis by (simp add: mbedtls_base64_decode_def MBEDTLS_ERR_BASE64_BUFFER_TOO_SMALL_def MBEDTLS_ERR_BASE64_INVALID_CHARACTER_def)
next
  case (Some r)
  obtain n j where r: "check_chars 0 0 src = Some (n, j)" using Some by (cases r) auto
  obtain ds where "filter (\<lambda>c. \<not> skipped c) src = ds @ replicate j 0x3D" "list_all sextet ds" "j \<le> 2" "n = length ds + j"
    using check_accepts [OF r] by auto
  then obtain w where "decode_loop 3 0 0 src = Inr w" "length w + j \<le> (6 * n + 7) div 8"
    using decode_bound [of ds j 0] decode_visible [of 3 0 0 src] by auto
  then show ?thesis
    using assms r by (cases "n = 0") (auto simp: mbedtls_base64_decode_def decoded_size put_front_def MBEDTLS_ERR_BASE64_BUFFER_TOO_SMALL_def Let_def)
qed

theorem base64_decode_safe_witness:
  "\<exists>w. mbedtls_base64_decode (Some [1, 2, 3]) 3 [0x51, 0x51, 0x3D, 0x0A, 0x3D] = Inr (0, Some (length w), Some (w @ drop (length w) [1, 2, 3]))"
proof -
  have "check_chars 0 0 [0x51, 0x51, 0x3D, 0x0A, 0x3D] = Some (4, 2)" by (simp add: check_chars.simps base64_dec_map_def)
  then have "mbedtls_base64_decode None 0 [0x51, 0x51, 0x3D, 0x0A, 0x3D] = Inr (MBEDTLS_ERR_BASE64_BUFFER_TOO_SMALL, Some 1, None)"
    by (simp add: mbedtls_base64_decode_def decoded_size)
  then show ?thesis using base64_decode_safe [of 3 "[1, 2, 3]" "[0x51, 0x51, 0x3D, 0x0A, 0x3D]"] by auto
qed

end
