(* ===== verification/Xtea.thy ===== *)
theory Xtea
  imports Cbc
begin

text \<open>
  The block cipher XTEA of \<^verbatim>\<open>src/aes_test/library/xtea.c\<close>: 32-bit words with wrap-around, read and written with
  their high byte first. A block and an initialisation vector are lists of 8 bytes.
\<close>

unbundle bit_operations_syntax

section \<open>The code\<close>

definition MBEDTLS_XTEA_ENCRYPT :: int where "MBEDTLS_XTEA_ENCRYPT = 1"
definition MBEDTLS_XTEA_DECRYPT :: int where "MBEDTLS_XTEA_DECRYPT = 0"
definition MBEDTLS_ERR_XTEA_INVALID_INPUT_LENGTH :: int where "MBEDTLS_ERR_XTEA_INVALID_INPUT_LENGTH = - 0x28"

definition GET_UINT32_BE :: "u8 list \<Rightarrow> nat \<Rightarrow> u32 res" where
  "GET_UINT32_BE b i = (if i + 3 < length b then
       Inr (push_bit 24 (ucast (b ! i)) OR push_bit 16 (ucast (b ! (i + 1))) OR push_bit 8 (ucast (b ! (i + 2))) OR ucast (b ! (i + 3)))
     else Inl OutOfBounds)"

definition PUT_UINT32_BE :: "u32 \<Rightarrow> u8 list" where
  "PUT_UINT32_BE n = [ucast (drop_bit 24 n), ucast (drop_bit 16 n), ucast (drop_bit 8 n), ucast n]"

text \<open>The context is the array \<open>k\<close> of four words.\<close>

definition mbedtls_xtea_init :: "u32 list" where
  "mbedtls_xtea_init = replicate 4 0"

definition mbedtls_xtea_free :: "u32 list \<Rightarrow> u32 list" where
  "mbedtls_xtea_free ctx = map (\<lambda>_. 0) ctx"

definition mbedtls_xtea_setup :: "u8 list \<Rightarrow> u32 list res" where
  "mbedtls_xtea_setup key =
     rbind (GET_UINT32_BE key 0) (\<lambda>k0. rbind (GET_UINT32_BE key 4) (\<lambda>k1.
     rbind (GET_UINT32_BE key 8) (\<lambda>k2. rbind (GET_UINT32_BE key 12) (\<lambda>k3. Inr [k0, k1, k2, k3]))))"

definition delta :: u32 where "delta = 0x9E3779B9"

definition mix :: "u32 \<Rightarrow> u32 \<Rightarrow> u32 \<Rightarrow> u32" where
  "mix v s k = ((push_bit 4 v XOR drop_bit 5 v) + v) XOR (s + k)"

text \<open>The bodies of the two loops, on \<open>v0\<close>, \<open>v1\<close> and \<open>sum\<close>.\<close>

definition enc_turn :: "u32 list \<Rightarrow> u32 \<times> u32 \<times> u32 \<Rightarrow> u32 \<times> u32 \<times> u32" where
  "enc_turn k = (\<lambda>(v0, v1, sum).
     let v0 = v0 + mix v1 sum (k ! unat (sum AND 3));
         sum = sum + delta;
         v1 = v1 + mix v0 sum (k ! unat (drop_bit 11 sum AND 3))
     in (v0, v1, sum))"

definition dec_turn :: "u32 list \<Rightarrow> u32 \<times> u32 \<times> u32 \<Rightarrow> u32 \<times> u32 \<times> u32" where
  "dec_turn k = (\<lambda>(v0, v1, sum).
     let v1 = v1 - mix v0 sum (k ! unat (drop_bit 11 sum AND 3));
         sum = sum - delta;
         v0 = v0 - mix v1 sum (k ! unat (sum AND 3))
     in (v0, v1, sum))"

definition mbedtls_xtea_crypt_ecb :: "u32 list \<Rightarrow> int \<Rightarrow> u8 list \<Rightarrow> (int \<times> u8 list) res" where
  "mbedtls_xtea_crypt_ecb k mode input =
     rbind (GET_UINT32_BE input 0) (\<lambda>v0. rbind (GET_UINT32_BE input 4) (\<lambda>v1.
       let (v0, v1, sum) = (if mode = MBEDTLS_XTEA_ENCRYPT then (enc_turn k ^^ 32) (v0, v1, 0) else (dec_turn k ^^ 32) (v0, v1, delta * 32))
       in Inr (0, PUT_UINT32_BE v0 @ PUT_UINT32_BE v1)))"

definition mbedtls_xtea_crypt_cbc :: "u32 list \<Rightarrow> int \<Rightarrow> u8 list \<Rightarrow> u8 list \<Rightarrow> (int \<times> u8 list \<times> u8 list) res" where
  "mbedtls_xtea_crypt_cbc k mode iv input =
     (if length input mod 8 \<noteq> 0 then Inr (MBEDTLS_ERR_XTEA_INVALID_INPUT_LENGTH, iv, [])
      else rbind (if mode = MBEDTLS_XTEA_DECRYPT then cbc_decrypt 8 (mbedtls_xtea_crypt_ecb k mode) (length input div 8) iv input
                  else cbc_encrypt 8 (mbedtls_xtea_crypt_ecb k mode) (length input div 8) iv input) (\<lambda>(iv, out). Inr (0, iv, out)))"

section \<open>Words and bytes\<close>

lemma get_put_be:
  fixes u v :: u32
  shows "GET_UINT32_BE (PUT_UINT32_BE v @ r) 0 = Inr v" "GET_UINT32_BE (PUT_UINT32_BE u @ PUT_UINT32_BE v) 4 = Inr v"
proof -
  have "push_bit 24 (ucast (ucast (drop_bit 24 v) :: u8)) OR push_bit 16 (ucast (ucast (drop_bit 16 v) :: u8)) OR
      push_bit 8 (ucast (ucast (drop_bit 8 v) :: u8)) OR ucast (ucast v :: u8) = v" (is "?w = v") for v :: u32
  proof (rule bit_word_eqI)
    fix n assume "n < LENGTH(32)"
    then consider "n < 8" | "8 \<le> n" "n < 16" | "16 \<le> n" "n < 24" | "24 \<le> n" "n < 32" by fastforce
    then show "bit ?w n = bit v n"
      by cases (auto simp: bit_simps)
  qed
  then show "GET_UINT32_BE (PUT_UINT32_BE v @ r) 0 = Inr v" "GET_UINT32_BE (PUT_UINT32_BE u @ PUT_UINT32_BE v) 4 = Inr v"
    by (simp_all add: GET_UINT32_BE_def PUT_UINT32_BE_def)
qed

lemma put_get_be: "i + 3 < length b \<Longrightarrow> \<exists>v. GET_UINT32_BE b i = Inr v \<and> PUT_UINT32_BE v = take 4 (drop i b)"
proof -
  assume i: "i + 3 < length b"
  have "drop i b = b ! i # b ! (i + 1) # b ! (i + 2) # b ! (i + 3) # drop (i + 4) b"
    using i by (simp add: Cons_nth_drop_Suc [symmetric] numeral_eq_Suc)
  moreover have "ucast (drop_bit 24 (push_bit 24 (ucast a) OR push_bit 16 (ucast c) OR push_bit 8 (ucast d) OR ucast e :: u32)) = a"
      "ucast (drop_bit 16 (push_bit 24 (ucast a) OR push_bit 16 (ucast c) OR push_bit 8 (ucast d) OR ucast e :: u32)) = c"
      "ucast (drop_bit 8 (push_bit 24 (ucast a) OR push_bit 16 (ucast c) OR push_bit 8 (ucast d) OR ucast e :: u32)) = d"
      "ucast (push_bit 24 (ucast a) OR push_bit 16 (ucast c) OR push_bit 8 (ucast d) OR ucast e :: u32) = e" for a c d e :: u8
    by (rule bit_word_eqI; auto simp: bit_simps dest: bit_u8_lt)+
  ultimately show ?thesis using i by (simp add: GET_UINT32_BE_def PUT_UINT32_BE_def)
qed

lemma length_put_be [simp]: "length (PUT_UINT32_BE v) = 4"
  by (simp add: PUT_UINT32_BE_def)

section \<open>The rounds\<close>

lemma dec_enc_turn: "dec_turn k (enc_turn k t) = t"
  by (cases t) (simp add: dec_turn_def enc_turn_def Let_def)

lemma dec_enc_turns: "(dec_turn k ^^ n) ((enc_turn k ^^ n) t) = t"
proof (induction n arbitrary: t)
  case (Suc n)
  have "(dec_turn k ^^ Suc n) ((enc_turn k ^^ Suc n) t) = (dec_turn k ^^ n) (dec_turn k (enc_turn k ((enc_turn k ^^ n) t)))"
    by (simp add: funpow_swap1)
  then show ?case by (simp add: dec_enc_turn Suc)
qed simp

lemma enc_sum: "snd (snd ((enc_turn k ^^ n) t)) = snd (snd t) + of_nat n * delta"
proof (induction n)
  case (Suc n)
  have "snd (snd (enc_turn k u)) = snd (snd u) + delta" for u by (cases u) (simp add: enc_turn_def Let_def)
  then show ?case using Suc by (simp add: algebra_simps)
qed simp

lemma ecb_round_trip:
  assumes "length b = 8"
  shows "\<exists>out. mbedtls_xtea_crypt_ecb k MBEDTLS_XTEA_ENCRYPT b = Inr (0, out) \<and> length out = 8 \<and>
    mbedtls_xtea_crypt_ecb k MBEDTLS_XTEA_DECRYPT out = Inr (0, b)"
proof -
  obtain v0 v1 where v: "GET_UINT32_BE b 0 = Inr v0" "PUT_UINT32_BE v0 = take 4 b" "GET_UINT32_BE b 4 = Inr v1" "PUT_UINT32_BE v1 = drop 4 b"
    using put_get_be [of 0 b] put_get_be [of 4 b] assms by auto
  obtain w0 w1 s where w: "(enc_turn k ^^ 32) (v0, v1, 0) = (w0, w1, s)" by (cases "(enc_turn k ^^ 32) (v0, v1, 0)") auto
  have s: "s = delta * 32" using enc_sum [where n = 32 and k = k and t = "(v0, v1, 0)"] by (simp add: w mult.commute)
  have "(dec_turn k ^^ 32) (w0, w1, delta * 32) = (v0, v1, 0)" using dec_enc_turns [where n = 32 and k = k and t = "(v0, v1, 0)"] by (simp only: w s)
  then show ?thesis
    using v w by (simp add: mbedtls_xtea_crypt_ecb_def get_put_be MBEDTLS_XTEA_ENCRYPT_def MBEDTLS_XTEA_DECRYPT_def)
qed

section \<open>CBC\<close>

interpretation xtea: block_pair 8 "mbedtls_xtea_crypt_ecb k MBEDTLS_XTEA_ENCRYPT" "mbedtls_xtea_crypt_ecb k MBEDTLS_XTEA_DECRYPT" for k
  by unfold_locales (rule ecb_round_trip)

text \<open>For any key, decryption in CBC mode undoes encryption of a whole number of blocks, and both leave the same
  vector for the next call; input of another length is refused with nothing written.\<close>

theorem xtea_cbc_round_trip:
  assumes "length key = 16" "length iv = 8"
  shows "\<exists>k. mbedtls_xtea_setup key = Inr k \<and>
    (if length input mod 8 = 0
     then \<exists>iv' out. mbedtls_xtea_crypt_cbc k MBEDTLS_XTEA_ENCRYPT iv input = Inr (0, iv', out) \<and> length out = length input \<and>
       mbedtls_xtea_crypt_cbc k MBEDTLS_XTEA_DECRYPT iv out = Inr (0, iv', input)
     else mbedtls_xtea_crypt_cbc k mode iv input = Inr (MBEDTLS_ERR_XTEA_INVALID_INPUT_LENGTH, iv, []))"
proof -
  obtain k where k: "mbedtls_xtea_setup key = Inr k" using assms(1) by (simp add: mbedtls_xtea_setup_def GET_UINT32_BE_def)
  show ?thesis
  proof (cases "length input mod 8 = 0")
    case True
    then have "length input = 8 * (length input div 8)" by presburger
    then obtain iv' out where "cbc_encrypt 8 (mbedtls_xtea_crypt_ecb k MBEDTLS_XTEA_ENCRYPT) (length input div 8) iv input = Inr (iv', out)"
        "length out = 8 * (length input div 8)" "cbc_decrypt 8 (mbedtls_xtea_crypt_ecb k MBEDTLS_XTEA_DECRYPT) (length input div 8) iv out = Inr (iv', input)"
      using xtea.cbc_round_trip [OF assms(2)] by blast
    then show ?thesis using k True by (auto simp: mbedtls_xtea_crypt_cbc_def MBEDTLS_XTEA_ENCRYPT_def MBEDTLS_XTEA_DECRYPT_def)
  qed (simp add: k mbedtls_xtea_crypt_cbc_def)
qed

theorem xtea_cbc_round_trip_witness:
  "\<exists>k iv' out. mbedtls_xtea_setup (replicate 16 7) = Inr k \<and>
    mbedtls_xtea_crypt_cbc k MBEDTLS_XTEA_ENCRYPT (replicate 8 1) (replicate 24 9) = Inr (0, iv', out) \<and>
    mbedtls_xtea_crypt_cbc k MBEDTLS_XTEA_DECRYPT (replicate 8 1) out = Inr (0, iv', replicate 24 9)"
  using xtea_cbc_round_trip [of "replicate 16 7" "replicate 8 1" "replicate 24 9" 0] by simp blast

text \<open>The first of the test vectors in the file.\<close>

lemma funpow_32: "(f ^^ 32) x = f (f (f (f (f (f (f (f (f (f (f (f (f (f (f (f (f (f (f (f (f (f (f (f (f (f (f (f (f (f (f (f x)))))))))))))))))))))))))))))))"
  by (simp add: numeral_eq_Suc)

lemma enc_turn_triple: "enc_turn k (v0, v1, s) =
    (let v0 = v0 + mix v1 s (k ! unat (s AND 3)); s = s + delta; v1 = v1 + mix v0 s (k ! unat (drop_bit 11 s AND 3)) in (v0, v1, s))"
  by (simp add: enc_turn_def)

lemma xtea_vector:
  "mbedtls_xtea_setup [0, 1, 2, 3, 4, 5, 6, 7, 8, 9, 10, 11, 12, 13, 14, 15] = Inr [0x00010203, 0x04050607, 0x08090A0B, 0x0C0D0E0F]"
  "mbedtls_xtea_crypt_ecb [0x00010203, 0x04050607, 0x08090A0B, 0x0C0D0E0F] MBEDTLS_XTEA_ENCRYPT [0x41, 0x42, 0x43, 0x44, 0x45, 0x46, 0x47, 0x48]
    = Inr (0, [0x49, 0x7d, 0xf3, 0xd0, 0x72, 0x61, 0x2c, 0xb5])"
proof -
  show "mbedtls_xtea_setup [0, 1, 2, 3, 4, 5, 6, 7, 8, 9, 10, 11, 12, 13, 14, 15] = Inr [0x00010203, 0x04050607, 0x08090A0B, 0x0C0D0E0F]"
    by (simp add: mbedtls_xtea_setup_def GET_UINT32_BE_def)
  have g: "GET_UINT32_BE [0x41, 0x42, 0x43, 0x44, 0x45, 0x46, 0x47, 0x48] 0 = Inr 0x41424344"
      "GET_UINT32_BE [0x41, 0x42, 0x43, 0x44, 0x45, 0x46, 0x47, 0x48] 4 = Inr 0x45464748"
    by (simp_all add: GET_UINT32_BE_def)
  have r: "(enc_turn [0x00010203, 0x04050607, 0x08090A0B, 0x0C0D0E0F] ^^ 32) (0x41424344, 0x45464748, 0) = (0x497df3d0, 0x72612cb5, delta * 32)"
    unfolding funpow_32 by (simp add: enc_turn_triple mix_def delta_def Let_def)
  show "mbedtls_xtea_crypt_ecb [0x00010203, 0x04050607, 0x08090A0B, 0x0C0D0E0F] MBEDTLS_XTEA_ENCRYPT [0x41, 0x42, 0x43, 0x44, 0x45, 0x46, 0x47, 0x48]
    = Inr (0, [0x49, 0x7d, 0xf3, 0xd0, 0x72, 0x61, 0x2c, 0xb5])"
    unfolding mbedtls_xtea_crypt_ecb_def g rbind_Inr if_P [OF refl] r by (simp add: PUT_UINT32_BE_def)
qed

end
