(* ===== verification/Arc4.thy ===== *)
theory Arc4
  imports Prelude "HOL-Library.Multiset"
begin

text \<open>
  The stream cipher ARC4 of \<^verbatim>\<open>src/aes_test/library/arc4.c\<close>: a permutation of the 256 bytes with two indices. A key
  and its length are one list.
\<close>

unbundle bit_operations_syntax

record mbedtls_arc4_context =
  cx :: nat
  cy :: nat
  cm :: "u8 list"

definition mbedtls_arc4_init :: mbedtls_arc4_context where
  "mbedtls_arc4_init = \<lparr>cx = 0, cy = 0, cm = replicate 256 0\<rparr>"

definition mbedtls_arc4_free :: "mbedtls_arc4_context \<Rightarrow> mbedtls_arc4_context" where
  "mbedtls_arc4_free ctx = \<lparr>cx = 0, cy = 0, cm = map (\<lambda>_. 0) (cm ctx)\<rparr>"

text \<open>The second loop of the key schedule, from \<open>i\<close> on with \<open>n\<close> turns left.\<close>

primrec schedule :: "u8 list \<Rightarrow> nat \<Rightarrow> nat \<Rightarrow> nat \<Rightarrow> nat \<Rightarrow> u8 list \<Rightarrow> u8 list res" where
  "schedule key 0 i j k m = Inr m"
| "schedule key (Suc n) i j k m =
     (let k = (if k \<ge> length key then 0 else k) in
      if k \<ge> length key then Inl OutOfBounds
      else let a = m ! i; j = (j + unat a + unat (key ! k)) AND 0xFF; m = m[i := m ! j]; m = m[j := a]
        in schedule key n (i + 1) j (k + 1) m)"

definition mbedtls_arc4_setup :: "u8 list \<Rightarrow> mbedtls_arc4_context res" where
  "mbedtls_arc4_setup key =
     rbind (schedule key 256 0 0 0 (map of_nat [0..<256])) (\<lambda>m. Inr \<lparr>cx = 0, cy = 0, cm = m\<rparr>)"

definition arc4_byte :: "nat \<times> nat \<times> u8 list \<Rightarrow> u8 \<Rightarrow> (nat \<times> nat \<times> u8 list) \<times> u8" where
  "arc4_byte = (\<lambda>(x, y, m) c.
     let x = (x + 1) AND 0xFF; a = m ! x;
         y = (y + unat a) AND 0xFF; b = m ! y;
         m = m[x := b]; m = m[y := a]
     in ((x, y, m), c XOR m ! unat (a + b)))"

primrec arc4_loop :: "nat \<times> nat \<times> u8 list \<Rightarrow> u8 list \<Rightarrow> (nat \<times> nat \<times> u8 list) \<times> u8 list" where
  "arc4_loop s [] = (s, [])"
| "arc4_loop s (c # cs) = (case arc4_byte s c of (s, o1) \<Rightarrow> case arc4_loop s cs of (s, os) \<Rightarrow> (s, o1 # os))"

definition mbedtls_arc4_crypt :: "mbedtls_arc4_context \<Rightarrow> u8 list \<Rightarrow> mbedtls_arc4_context \<times> u8 list" where
  "mbedtls_arc4_crypt ctx input =
     (case arc4_loop (cx ctx, cy ctx, cm ctx) input of ((x, y, m), out) \<Rightarrow> (\<lparr>cx = x, cy = y, cm = m\<rparr>, out))"

section \<open>The permutation\<close>

definition arc4_ok :: "mbedtls_arc4_context \<Rightarrow> bool" where
  "arc4_ok ctx \<longleftrightarrow> cx ctx < 256 \<and> cy ctx < 256 \<and> mset (cm ctx) = mset (map of_nat [0..<256])"

lemma byte_mask: "n AND 0xFF = n mod 256" for n :: nat
  using take_bit_eq_mask [of 8 n] by (simp add: take_bit_eq_mod mask_eq_exp_minus_1)

lemma swap_mset: "i < length m \<Longrightarrow> j < length m \<Longrightarrow> mset (m[i := m ! j, j := m ! i]) = mset m"
  by (rule mset_swap)

lemma bytes_length: "mset m = mset (map of_nat [0..<256]) \<Longrightarrow> length m = 256"
  by (drule arg_cong [where f = size]) simp

lemma schedule_mset:
  "0 < length key \<Longrightarrow> length m = 256 \<Longrightarrow> i + n \<le> 256 \<Longrightarrow> \<exists>m'. schedule key n i j k m = Inr m' \<and> mset m' = mset m"
proof (induction n arbitrary: i j k m)
  case (Suc n)
  let ?k = "if k \<ge> length key then 0 else k"
  let ?j = "(j + unat (m ! i) + unat (key ! ?k)) AND 0xFF"
  have "?j < length m" "i < length m" using Suc.prems by (simp_all add: byte_mask)
  then show ?case using Suc.IH [of "m[i := m ! ?j, ?j := m ! i]" "i + 1" ?j "?k + 1"] Suc.prems
    by (simp add: Let_def swap_mset)
qed simp

lemma arc4_byte_twice: "arc4_byte s c = (s', d) \<Longrightarrow> arc4_byte s d = (s', c)"
  by (cases s) (auto simp: arc4_byte_def Let_def xor.assoc)

lemma arc4_loop_twice: "arc4_loop s cs = (s', ds) \<Longrightarrow> arc4_loop s ds = (s', cs)"
proof (induction cs arbitrary: s ds)
  case (Cons c cs)
  obtain s1 d where 1: "arc4_byte s c = (s1, d)" by fastforce
  then obtain ds' where "arc4_loop s1 cs = (s', ds')" "ds = d # ds'" using Cons.prems by (auto split: prod.splits)
  then show ?case using Cons.IH arc4_byte_twice [OF 1] by simp
qed simp

lemma arc4_loop_append:
  "arc4_loop s (cs @ es) = (case arc4_loop s cs of (s, o1) \<Rightarrow> case arc4_loop s es of (s, o2) \<Rightarrow> (s, o1 @ o2))"
  by (induction cs arbitrary: s) (simp_all split: prod.splits)

lemma arc4_byte_ok:
  "mset m = mset (map of_nat [0..<256]) \<Longrightarrow> arc4_byte (x, y, m) c = ((x', y', m'), d) \<Longrightarrow>
   x' < 256 \<and> y' < 256 \<and> mset m' = mset (map of_nat [0..<256])"
  using bytes_length [of m] by (auto simp: arc4_byte_def Let_def byte_mask swap_mset)

lemma arc4_loop_ok:
  "x < 256 \<Longrightarrow> y < 256 \<Longrightarrow> mset m = mset (map of_nat [0..<256]) \<Longrightarrow> arc4_loop (x, y, m) cs = ((x', y', m'), out) \<Longrightarrow>
   x' < 256 \<and> y' < 256 \<and> mset m' = mset (map of_nat [0..<256]) \<and> length out = length cs"
proof (induction cs arbitrary: x y m out)
  case (Cons c cs)
  obtain x1 y1 m1 d where 1: "arc4_byte (x, y, m) c = ((x1, y1, m1), d)" by (metis prod.exhaust)
  then obtain out' where "arc4_loop (x1, y1, m1) cs = ((x', y', m'), out')" "out = d # out'"
    using Cons.prems(4) by (auto split: prod.splits)
  then show ?case using Cons.IH arc4_byte_ok [OF Cons.prems(3) 1] by auto
qed simp

text \<open>With a key that is not empty the schedule makes a context whose table is a permutation of the bytes, and every
  call keeps it one. A call works on data in any pieces as on the whole, and a second run from the same context turns
  the output back into the input and ends in the same context. An empty key is read at index 0.\<close>

theorem arc4_stream:
  assumes "key \<noteq> []"
  shows "\<exists>ctx. mbedtls_arc4_setup key = Inr ctx \<and> arc4_ok ctx \<and> mbedtls_arc4_setup [] = Inl OutOfBounds \<and>
    (\<forall>ctx input rest. arc4_ok ctx \<longrightarrow> (case mbedtls_arc4_crypt ctx input of (ctx', out) \<Rightarrow>
       arc4_ok ctx' \<and> length out = length input \<and> mbedtls_arc4_crypt ctx out = (ctx', input) \<and>
       mbedtls_arc4_crypt ctx (input @ rest) = (case mbedtls_arc4_crypt ctx' rest of (c, out') \<Rightarrow> (c, out @ out'))))"
proof -
  obtain m where m: "schedule key 256 0 0 0 (map of_nat [0..<256]) = Inr m" "mset m = mset (map of_nat [0..<256] :: u8 list)"
    using schedule_mset [of key "map of_nat [0..<256]" 0 256 0 0] assms by auto
  have e: "mbedtls_arc4_setup [] = Inl OutOfBounds" by (simp add: mbedtls_arc4_setup_def numeral_eq_Suc)
  have "case mbedtls_arc4_crypt ctx input of (ctx', out) \<Rightarrow>
       arc4_ok ctx' \<and> length out = length input \<and> mbedtls_arc4_crypt ctx out = (ctx', input) \<and>
       mbedtls_arc4_crypt ctx (input @ rest) = (case mbedtls_arc4_crypt ctx' rest of (c, out') \<Rightarrow> (c, out @ out'))"
    if "arc4_ok ctx" for ctx input rest
  proof -
    obtain x y m out where l: "arc4_loop (cx ctx, cy ctx, cm ctx) input = ((x, y, m), out)" by (metis prod.exhaust)
    show ?thesis
      using that arc4_loop_ok [OF _ _ _ l] arc4_loop_twice [OF l]
      by (auto simp: mbedtls_arc4_crypt_def l arc4_loop_append arc4_ok_def split: prod.splits)
  qed
  then show ?thesis using m e by (auto simp: mbedtls_arc4_setup_def arc4_ok_def)
qed

theorem arc4_stream_witness:
  "\<exists>ctx ctx' out. mbedtls_arc4_setup [1, 2, 3] = Inr ctx \<and> mbedtls_arc4_crypt ctx [4, 5, 6, 7] = (ctx', out) \<and>
     length out = 4 \<and> mbedtls_arc4_crypt ctx out = (ctx', [4, 5, 6, 7])"
proof -
  obtain ctx where c: "mbedtls_arc4_setup [1, 2, 3] = Inr ctx" "arc4_ok ctx" and
      a: "\<forall>ctx input rest. arc4_ok ctx \<longrightarrow> (case mbedtls_arc4_crypt ctx input of (ctx', out) \<Rightarrow>
       arc4_ok ctx' \<and> length out = length input \<and> mbedtls_arc4_crypt ctx out = (ctx', input) \<and>
       mbedtls_arc4_crypt ctx (input @ rest) = (case mbedtls_arc4_crypt ctx' rest of (c, out') \<Rightarrow> (c, out @ out')))"
    using arc4_stream [of "[1, 2, 3]"] by blast
  obtain ctx' out where e: "mbedtls_arc4_crypt ctx [4, 5, 6, 7] = (ctx', out)" by fastforce
  then have "length out = 4 \<and> mbedtls_arc4_crypt ctx out = (ctx', [4, 5, 6, 7])" using a [rule_format, OF c(2), of "[4, 5, 6, 7]" "[]"] by simp
  then show ?thesis using c e by blast
qed

end
