(* ===== verification/Asn1.thy ===== *)
theory Asn1
  imports Prelude "HOL-Library.Sublist"
begin

text \<open>
  Reading ASN.1, \<^verbatim>\<open>src/aes_test/library/asn1parse.c\<close>. The pair of pointers \<open>*p\<close> and \<open>end\<close> is the list of bytes between
  them, so a read behind \<open>end\<close> is a fault; a pointer to a part of the text is that part. A function that fails returns
  its error code and leaves its results unused.
\<close>

unbundle bit_operations_syntax

section \<open>Results\<close>

datatype stop = Fault fault | Fails int

type_synonym 'a asn = "stop + 'a"

definition abind :: "'a asn \<Rightarrow> ('a \<Rightarrow> 'b asn) \<Rightarrow> 'b asn" where
  "abind m f = (case m of Inl e \<Rightarrow> Inl e | Inr x \<Rightarrow> f x)"

lemma abind_simps [simp]: "abind (Inl e) f = Inl e" "abind (Inr x) f = f x"
  by (simp_all add: abind_def)

lemma abind_cong [fundef_cong]: "m = m' \<Longrightarrow> (\<And>x. m' = Inr x \<Longrightarrow> f x = f' x) \<Longrightarrow> abind m f = abind m' f'"
  by (cases m') simp_all

lemma abind_eq_Inr: "abind m f = Inr y \<longleftrightarrow> (\<exists>x. m = Inr x \<and> f x = Inr y)"
  by (cases m) simp_all

abbreviation (input) OUT_OF_DATA :: int where "OUT_OF_DATA \<equiv> - 0x60"
abbreviation (input) UNEXPECTED_TAG :: int where "UNEXPECTED_TAG \<equiv> - 0x62"
abbreviation (input) INVALID_LENGTH :: int where "INVALID_LENGTH \<equiv> - 0x64"
abbreviation (input) LENGTH_MISMATCH :: int where "LENGTH_MISMATCH \<equiv> - 0x66"
abbreviation (input) INVALID_DATA :: int where "INVALID_DATA \<equiv> - 0x68"
abbreviation (input) ALLOC_FAILED :: int where "ALLOC_FAILED \<equiv> - 0x6A"
abbreviation (input) BUF_TOO_SMALL :: int where "BUF_TOO_SMALL \<equiv> - 0x6C"

abbreviation (input) ASN1_BOOLEAN :: u8 where "ASN1_BOOLEAN \<equiv> 0x01"
abbreviation (input) ASN1_INTEGER :: u8 where "ASN1_INTEGER \<equiv> 0x02"
abbreviation (input) ASN1_BIT_STRING :: u8 where "ASN1_BIT_STRING \<equiv> 0x03"
abbreviation (input) ASN1_OCTET_STRING :: u8 where "ASN1_OCTET_STRING \<equiv> 0x04"
abbreviation (input) ASN1_NULL :: u8 where "ASN1_NULL \<equiv> 0x05"
abbreviation (input) ASN1_OID :: u8 where "ASN1_OID \<equiv> 0x06"
abbreviation (input) ASN1_CONSTRUCTED_SEQUENCE :: u8 where "ASN1_CONSTRUCTED_SEQUENCE \<equiv> 0x30"

definition byte_at :: "u8 list \<Rightarrow> nat \<Rightarrow> u8 asn" where
  "byte_at p i = (if i < length p then Inr (p ! i) else Inl (Fault OutOfBounds))"

section \<open>The code\<close>

text \<open>A length and what lies behind it.\<close>

definition mbedtls_asn1_get_len :: "u8 list \<Rightarrow> (nat \<times> u8 list) asn" where
  "mbedtls_asn1_get_len p =
     (if length p < 1 then Inl (Fails OUT_OF_DATA)
      else abind (byte_at p 0) (\<lambda>c.
      abind (if c AND 0x80 = 0 then Inr (unat c, drop 1 p)
        else if c AND 0x7F = 1 then
          (if length p < 2 then Inl (Fails OUT_OF_DATA) else abind (byte_at p 1) (\<lambda>c1. Inr (unat c1, drop 2 p)))
        else if c AND 0x7F = 2 then
          (if length p < 3 then Inl (Fails OUT_OF_DATA)
           else abind (byte_at p 1) (\<lambda>c1. abind (byte_at p 2) (\<lambda>c2. Inr (push_bit 8 (unat c1) OR unat c2, drop 3 p))))
        else if c AND 0x7F = 3 then
          (if length p < 4 then Inl (Fails OUT_OF_DATA)
           else abind (byte_at p 1) (\<lambda>c1. abind (byte_at p 2) (\<lambda>c2. abind (byte_at p 3) (\<lambda>c3.
             Inr (push_bit 16 (unat c1) OR push_bit 8 (unat c2) OR unat c3, drop 4 p)))))
        else if c AND 0x7F = 4 then
          (if length p < 5 then Inl (Fails OUT_OF_DATA)
           else abind (byte_at p 1) (\<lambda>c1. abind (byte_at p 2) (\<lambda>c2. abind (byte_at p 3) (\<lambda>c3. abind (byte_at p 4) (\<lambda>c4.
             Inr (push_bit 24 (unat c1) OR push_bit 16 (unat c2) OR push_bit 8 (unat c3) OR unat c4, drop 5 p))))))
        else Inl (Fails INVALID_LENGTH))
      (\<lambda>(len, p). if len > length p then Inl (Fails OUT_OF_DATA) else Inr (len, p))))"

definition mbedtls_asn1_get_tag :: "u8 list \<Rightarrow> u8 \<Rightarrow> (nat \<times> u8 list) asn" where
  "mbedtls_asn1_get_tag p tag =
     (if length p < 1 then Inl (Fails OUT_OF_DATA)
      else abind (byte_at p 0) (\<lambda>c. if c \<noteq> tag then Inl (Fails UNEXPECTED_TAG) else mbedtls_asn1_get_len (drop 1 p)))"

definition mbedtls_asn1_get_bool :: "u8 list \<Rightarrow> (int \<times> u8 list) asn" where
  "mbedtls_asn1_get_bool p =
     abind (mbedtls_asn1_get_tag p ASN1_BOOLEAN) (\<lambda>(len, p).
       if len \<noteq> 1 then Inl (Fails INVALID_LENGTH)
       else abind (byte_at p 0) (\<lambda>c. Inr (if c \<noteq> 0 then 1 else 0, drop 1 p)))"

text \<open>The loop that collects a value; an \<open>int\<close> that gets too large is an overflow.\<close>

primrec int_bytes_loop :: "nat \<Rightarrow> int \<Rightarrow> u8 list \<Rightarrow> (int \<times> u8 list) asn" where
  "int_bytes_loop 0 v p = Inr (v, p)"
| "int_bytes_loop (Suc len) v p =
     abind (byte_at p 0) (\<lambda>c. if 2 ^ 31 \<le> push_bit 8 v then Inl (Fault Overflow)
       else int_bytes_loop len (push_bit 8 v OR uint c) (drop 1 p))"

definition mbedtls_asn1_get_int :: "u8 list \<Rightarrow> (int \<times> u8 list) asn" where
  "mbedtls_asn1_get_int p =
     abind (mbedtls_asn1_get_tag p ASN1_INTEGER) (\<lambda>(len, p).
       if len = 0 \<or> len > 4 then Inl (Fails INVALID_LENGTH)
       else abind (byte_at p 0) (\<lambda>c. if c AND 0x80 \<noteq> 0 then Inl (Fails INVALID_LENGTH) else int_bytes_loop len 0 p))"

text \<open>The number of unused bits and the bytes.\<close>

definition mbedtls_asn1_get_bitstring :: "u8 list \<Rightarrow> (u8 \<times> u8 list) asn" where
  "mbedtls_asn1_get_bitstring p =
     abind (mbedtls_asn1_get_tag p ASN1_BIT_STRING) (\<lambda>(len, p).
       if len < 1 then Inl (Fails OUT_OF_DATA)
       else abind (byte_at p 0) (\<lambda>unused.
         if unused > 7 then Inl (Fails INVALID_LENGTH)
         else let p = drop 1 p; len = len - 1 in
           if drop len p \<noteq> [] then Inl (Fails LENGTH_MISMATCH) else Inr (unused, take len p)))"

definition mbedtls_asn1_get_bitstring_null :: "u8 list \<Rightarrow> (nat \<times> u8 list) asn" where
  "mbedtls_asn1_get_bitstring_null p =
     abind (mbedtls_asn1_get_tag p ASN1_BIT_STRING) (\<lambda>(len, p).
       if len < 2 then Inl (Fails INVALID_DATA)
       else abind (byte_at p 0) (\<lambda>c. if c \<noteq> 0 then Inl (Fails INVALID_DATA) else Inr (len - 1, drop 1 p)))"

lemma get_len_shrinks: "mbedtls_asn1_get_len p = Inr (len, q) \<Longrightarrow> len \<le> length q \<and> length q < length p"
  by (auto simp: mbedtls_asn1_get_len_def abind_eq_Inr split: if_splits)

lemma get_tag_shrinks: "mbedtls_asn1_get_tag p t = Inr (len, q) \<Longrightarrow> len \<le> length q \<and> length q + 1 < length p"
  by (auto simp: mbedtls_asn1_get_tag_def abind_eq_Inr dest!: get_len_shrinks split: if_splits)

text \<open>The loop over the elements of a sequence; \<open>mem\<close> allocations still succeed. The elements are their contents.\<close>

function sequence_loop :: "u8 \<Rightarrow> nat \<Rightarrow> u8 list \<Rightarrow> u8 list list asn" where
  "sequence_loop tag mem p =
     (if p = [] then Inr []
      else abind (mbedtls_asn1_get_tag p tag) (\<lambda>(len, q).
        if drop len q = [] then Inr [take len q]
        else if mem = 0 then Inl (Fails ALLOC_FAILED)
        else abind (sequence_loop tag (mem - 1) (drop len q)) (\<lambda>bufs. Inr (take len q # bufs))))"
  by pat_completeness auto
termination by (relation "measure (\<lambda>(tag, mem, p). length p)") (auto dest: get_tag_shrinks)

declare sequence_loop.simps [simp del]

definition mbedtls_asn1_get_sequence_of :: "u8 list \<Rightarrow> u8 \<Rightarrow> nat \<Rightarrow> u8 list list asn" where
  "mbedtls_asn1_get_sequence_of p tag mem =
     abind (mbedtls_asn1_get_tag p ASN1_CONSTRUCTED_SEQUENCE) (\<lambda>(len, p).
       if len \<noteq> length p then Inl (Fails LENGTH_MISMATCH) else sequence_loop tag mem p)"

text \<open>The identifier of an algorithm, the tag and the bytes of its parameters (a zero tag where there are none), and what
  lies behind.\<close>

definition mbedtls_asn1_get_alg :: "u8 list \<Rightarrow> ((u8 list \<times> u8 \<times> u8 list) \<times> u8 list) asn" where
  "mbedtls_asn1_get_alg p =
     abind (mbedtls_asn1_get_tag p ASN1_CONSTRUCTED_SEQUENCE) (\<lambda>(len, p).
       if length p < 1 then Inl (Fails OUT_OF_DATA)
       else abind (byte_at p 0) (\<lambda>alg_tag. let behind = drop len p; p = take len p in
         abind (mbedtls_asn1_get_tag p ASN1_OID) (\<lambda>(alg_len, p). let alg = take alg_len p; p = drop alg_len p in
           if p = [] then Inr ((alg, 0, []), behind)
           else abind (byte_at p 0) (\<lambda>params_tag. abind (mbedtls_asn1_get_len (drop 1 p)) (\<lambda>(params_len, p).
             if drop params_len p \<noteq> [] then Inl (Fails LENGTH_MISMATCH)
             else Inr ((alg, params_tag, take params_len p), behind))))))"

definition mbedtls_asn1_get_alg_null :: "u8 list \<Rightarrow> (u8 list \<times> u8 list) asn" where
  "mbedtls_asn1_get_alg_null p =
     abind (mbedtls_asn1_get_alg p) (\<lambda>((alg, tag, params), behind).
       if tag \<noteq> ASN1_NULL \<and> tag \<noteq> 0 \<or> params \<noteq> [] then Inl (Fails INVALID_DATA) else Inr (alg, behind))"

section \<open>Safety\<close>

definition no_fault :: "'a asn \<Rightarrow> bool" where
  "no_fault r \<longleftrightarrow> (\<forall>e. r \<noteq> Inl (Fault e))"

lemma no_fault_simps [simp]: "no_fault (Inr x)" "no_fault (Inl (Fails e))" "\<not> no_fault (Inl (Fault e'))"
  by (simp_all add: no_fault_def)

lemma no_fault_abind [intro]: "no_fault m \<Longrightarrow> (\<And>x. m = Inr x \<Longrightarrow> no_fault (f x)) \<Longrightarrow> no_fault (abind m f)"
  by (cases m) (auto simp: no_fault_def)

lemma byte_at_ok [simp]: "i < length p \<Longrightarrow> byte_at p i = Inr (p ! i)"
  by (simp add: byte_at_def)

lemma no_fault_byte_at [simp]: "no_fault (byte_at p i) \<longleftrightarrow> i < length p"
  by (simp add: byte_at_def)

lemma get_len_safe [simp]: "no_fault (mbedtls_asn1_get_len p)"
  unfolding mbedtls_asn1_get_len_def by (auto simp: Let_def)

lemma get_tag_safe [simp]: "no_fault (mbedtls_asn1_get_tag p t)"
  unfolding mbedtls_asn1_get_tag_def by auto

lemma high_bit: "c AND 0x80 = 0 \<longleftrightarrow> c < 0x80" for c :: u8
proof -
  have "c AND 0x80 = 0 \<longleftrightarrow> \<not> bit c 7" using and_exp_eq_0_iff_not_bit [of c 7] by simp
  also have "bit c 7 \<longleftrightarrow> bit (unat c) 7" by (simp add: bit_unsigned_iff)
  also have "(\<not> bit (unat c) 7) \<longleftrightarrow> even (unat c div 128)" by (simp add: bit_iff_odd)
  also have "\<dots> \<longleftrightarrow> unat c < 128"
  proof -
    have "unat c div 128 < 2" using unat_u8_le [of c] by (simp add: less_mult_imp_div_less)
    then have "unat c div 128 = 0 \<or> unat c div 128 = 1" by linarith
    then show ?thesis by (auto simp: div_eq_0_iff)
  qed
  finally show ?thesis by (simp add: word_less_nat_alt)
qed

lemma or_byte: "0 \<le> v \<Longrightarrow> push_bit 8 v OR uint (c :: u8) = 256 * v + uint c"
proof -
  have "push_bit 8 v AND uint c = 0" by (rule bit_eqI) (auto simp: bit_simps dest: bit_u8_lt)
  then have "push_bit 8 v + uint c = push_bit 8 v OR uint c" by (rule disjunctive_add_eq_or)
  then show ?thesis by (simp add: push_bit_eq_mult)
qed

lemma int_loop_safe:
  "len \<le> length p \<Longrightarrow> 0 \<le> v \<Longrightarrow> (v + 1) * 256 ^ len \<le> 2 ^ 31 \<Longrightarrow>
   \<exists>w. int_bytes_loop len v p = Inr (w, drop len p) \<and> 0 \<le> w \<and> w < 2 ^ 31"
proof (induction len arbitrary: v p)
  case (Suc len)
  let ?c = "uint (p ! 0)"
  let ?v = "256 * v + ?c"
  have c: "0 \<le> ?c" "?c < 256" using uint_bounded [of "p ! 0"] by simp_all
  have l: "0 < length p" "len \<le> length (drop 1 p)" using Suc.prems(1) by auto
  have "(?v + 1) * 256 ^ len \<le> (256 * v + 256) * 256 ^ len" using c by (intro mult_right_mono) simp_all
  also have "\<dots> = (v + 1) * 256 ^ Suc len" by (simp add: algebra_simps)
  also have "\<dots> \<le> 2 ^ 31" by (rule Suc.prems(3))
  finally have b: "(?v + 1) * 256 ^ len \<le> 2 ^ 31" .
  have "?v + 1 \<le> (?v + 1) * 256 ^ len" using mult_left_mono [of 1 "256 ^ len" "?v + 1"] Suc.prems(2) c by simp
  then have "256 * v + 1 \<le> 2 ^ 31" using b c(1) by linarith
  then have "push_bit 8 v < 2 ^ 31" by (simp add: push_bit_eq_mult)
  moreover obtain w where "int_bytes_loop len ?v (drop 1 p) = Inr (w, drop len (drop 1 p))" "0 \<le> w \<and> w < 2 ^ 31"
    using Suc.IH [OF l(2) _ b] Suc.prems(2) c by auto
  ultimately show ?case using l(1) Suc.prems(2) by (simp add: or_byte)
qed simp

lemma get_int_safe:
  "no_fault (mbedtls_asn1_get_int p) \<and> (\<forall>v q. mbedtls_asn1_get_int p = Inr (v, q) \<longrightarrow> 0 \<le> v \<and> v < 2 ^ 31)"
proof (cases "mbedtls_asn1_get_tag p ASN1_INTEGER")
  case (Inl e)
  then show ?thesis using get_tag_safe [of p ASN1_INTEGER] by (simp add: mbedtls_asn1_get_int_def no_fault_def)
next
  case (Inr r)
  obtain len q where r: "r = (len, q)" by (cases r) auto
  then have l: "len \<le> length q" using Inr get_tag_shrinks by blast
  show ?thesis
  proof (cases "len = 0 \<or> len > 4 \<or> q ! 0 AND 0x80 \<noteq> 0")
    case True
    then show ?thesis using l by (auto simp: mbedtls_asn1_get_int_def Inr r byte_at_def)
  next
    case False
    then obtain n where n: "len = Suc n" "n \<le> 3" by (cases len) auto
    have "q ! 0 < 0x80" using False by (simp add: high_bit)
    then have "uint (q ! 0) + 1 \<le> 128" by (simp add: word_less_def)
    moreover have "(256 :: int) ^ n \<le> 256 ^ 3" by (rule power_increasing) (use n in simp_all)
    ultimately have "(uint (q ! 0) + 1) * 256 ^ n \<le> 128 * 256 ^ 3" by (intro mult_mono) simp_all
    moreover have "n \<le> length (drop 1 q)" using l n by auto
    ultimately obtain w where "int_bytes_loop n (uint (q ! 0)) (drop 1 q) = Inr (w, drop n (drop 1 q))" "0 \<le> w \<and> w < 2 ^ 31"
      using int_loop_safe [of n "drop 1 q" "uint (q ! 0)"] by auto
    moreover have "0 < length q" using l n by auto
    ultimately show ?thesis using False n by (simp add: mbedtls_asn1_get_int_def Inr r)
  qed
qed

text \<open>What a function leaves of its text: a fault is excluded, and a success goes on with an end part of the text.\<close>

definition keeps_to :: "u8 list \<Rightarrow> ('a \<times> u8 list) asn \<Rightarrow> bool" where
  "keeps_to p r \<longleftrightarrow> no_fault r \<and> (\<forall>x q. r = Inr (x, q) \<longrightarrow> suffix q p)"

lemma get_len_suffix: "mbedtls_asn1_get_len p = Inr (len, q) \<Longrightarrow> suffix q p"
  by (auto simp: mbedtls_asn1_get_len_def abind_eq_Inr suffix_drop split: if_splits)

lemma get_tag_suffix: "mbedtls_asn1_get_tag p t = Inr (len, q) \<Longrightarrow> suffix q p"
  by (auto simp: mbedtls_asn1_get_tag_def abind_eq_Inr dest!: get_len_suffix split: if_splits)
     (metis suffix_drop suffix_order.trans)

lemma drop_suffix: "suffix q p \<Longrightarrow> suffix (drop n q) p"
  by (metis suffix_drop suffix_order.trans)

lemma int_loop_rest: "int_bytes_loop len v p = Inr (w, q) \<Longrightarrow> q = drop len p"
proof (induction len arbitrary: v p)
  case (Suc len)
  then obtain c :: u8 where "int_bytes_loop len (push_bit 8 v OR uint c) (drop 1 p) = Inr (w, q)" by (auto simp: abind_eq_Inr split: if_splits)
  then show ?case using Suc.IH [of _ "drop 1 p"] by (simp add: drop_drop)
qed simp

lemma get_alg_safe: "keeps_to p (mbedtls_asn1_get_alg p)"
  unfolding keeps_to_def
proof (intro conjI allI impI)
  show "no_fault (mbedtls_asn1_get_alg p)"
    unfolding mbedtls_asn1_get_alg_def by (auto simp: Let_def intro!: no_fault_abind)
  fix x q assume "mbedtls_asn1_get_alg p = Inr (x, q)"
  then show "suffix q p"
    by (auto simp: mbedtls_asn1_get_alg_def Let_def abind_eq_Inr dest!: get_tag_suffix intro!: drop_suffix split: if_splits)
qed

lemma sequence_loop_safe: "no_fault (sequence_loop t mem p)"
proof (induction t mem p rule: sequence_loop.induct)
  case (1 t mem p)
  then show ?case by (subst sequence_loop.simps) (auto intro!: no_fault_abind)
qed

text \<open>C19: reading stays within the text, whatever it holds. No function reads behind \<open>end\<close> or lets an \<open>int\<close> overflow;
  a length that is returned does not exceed what is left, the text goes on with an end part of itself, and an integer
  is never negative. Only an error code can come instead.\<close>

theorem asn1_reads_within:
  "keeps_to p (mbedtls_asn1_get_len p) \<and> keeps_to p (mbedtls_asn1_get_tag p t) \<and> keeps_to p (mbedtls_asn1_get_bool p) \<and>
   keeps_to p (mbedtls_asn1_get_int p) \<and> keeps_to p (mbedtls_asn1_get_bitstring_null p) \<and>
   keeps_to p (mbedtls_asn1_get_alg p) \<and> keeps_to p (mbedtls_asn1_get_alg_null p) \<and>
   no_fault (mbedtls_asn1_get_bitstring p) \<and> no_fault (mbedtls_asn1_get_sequence_of p t mem) \<and>
   (case mbedtls_asn1_get_len p of Inr (len, q) \<Rightarrow> len \<le> length q | _ \<Rightarrow> True) \<and>
   (case mbedtls_asn1_get_int p of Inr (v, q) \<Rightarrow> 0 \<le> v \<and> v < 2 ^ 31 | _ \<Rightarrow> True)"
proof (intro conjI)
  show "keeps_to p (mbedtls_asn1_get_len p)" by (simp add: keeps_to_def get_len_suffix)
  show "keeps_to p (mbedtls_asn1_get_tag p t)" by (simp add: keeps_to_def get_tag_suffix)
  have "no_fault (mbedtls_asn1_get_bool p)" unfolding mbedtls_asn1_get_bool_def by (auto dest!: get_tag_shrinks intro!: no_fault_abind)
  then show "keeps_to p (mbedtls_asn1_get_bool p)" unfolding keeps_to_def
    by (auto simp: mbedtls_asn1_get_bool_def abind_eq_Inr dest!: get_tag_suffix intro!: drop_suffix split: if_splits)
  show "keeps_to p (mbedtls_asn1_get_int p)" unfolding keeps_to_def
    using get_int_safe [of p]
    by (auto simp: mbedtls_asn1_get_int_def abind_eq_Inr dest!: get_tag_suffix int_loop_rest intro!: drop_suffix split: if_splits)
  have "no_fault (mbedtls_asn1_get_bitstring_null p)" unfolding mbedtls_asn1_get_bitstring_null_def
    by (auto simp: not_less dest!: get_tag_shrinks intro!: no_fault_abind)
  then show "keeps_to p (mbedtls_asn1_get_bitstring_null p)" unfolding keeps_to_def
    by (auto simp: mbedtls_asn1_get_bitstring_null_def abind_eq_Inr dest!: get_tag_suffix intro!: drop_suffix split: if_splits)
  show "keeps_to p (mbedtls_asn1_get_alg p)" by (rule get_alg_safe)
  show "keeps_to p (mbedtls_asn1_get_alg_null p)"
    using get_alg_safe [of p] by (auto simp: keeps_to_def mbedtls_asn1_get_alg_null_def abind_eq_Inr intro!: no_fault_abind split: if_splits)
  show "no_fault (mbedtls_asn1_get_bitstring p)" unfolding mbedtls_asn1_get_bitstring_def
    by (auto simp: Let_def dest!: get_tag_shrinks intro!: no_fault_abind)
  show "no_fault (mbedtls_asn1_get_sequence_of p t mem)" unfolding mbedtls_asn1_get_sequence_of_def
    by (auto simp: sequence_loop_safe intro!: no_fault_abind)
  show "case mbedtls_asn1_get_len p of Inr (len, q) \<Rightarrow> len \<le> length q | _ \<Rightarrow> True"
    by (auto dest: get_len_shrinks split: sum.split)
  show "case mbedtls_asn1_get_int p of Inr (v, q) \<Rightarrow> 0 \<le> v \<and> v < 2 ^ 31 | _ \<Rightarrow> True"
    using get_int_safe [of p] by (auto split: sum.split)
qed

end
