(* ===== verification/Asn1Write.thy ===== *)
theory Asn1Write
  imports Asn1
begin

text \<open>
  Writing ASN.1, \<^verbatim>\<open>src/aes_test/library/asn1write.c\<close>. The functions write backwards: the state is the room between
  \<open>start\<close> and \<open>*p\<close> and the bytes from \<open>*p\<close> on. \<open>tlv\<close> is what an element with a tag and a content is in bytes, and what
  the functions of both files are about.
\<close>

section \<open>The code\<close>

type_synonym out = "nat \<times> u8 list"

text \<open>\<open>*--(*p) = b\<close>, and several of them.\<close>

definition push :: "u8 \<Rightarrow> out \<Rightarrow> out asn" where
  "push b s = (case s of (room, w) \<Rightarrow> if room = 0 then Inl (Fault OutOfBounds) else Inr (room - 1, b # w))"

primrec pushes :: "u8 list \<Rightarrow> out \<Rightarrow> out asn" where
  "pushes [] s = Inr s"
| "pushes (b # bs) s = abind (push b s) (pushes bs)"

definition mbedtls_asn1_write_len :: "nat \<Rightarrow> out \<Rightarrow> (nat \<times> out) asn" where
  "mbedtls_asn1_write_len len s =
     (let byte = (\<lambda>k. of_nat (drop_bit k len AND 0xFF));
          wr = (\<lambda>n bs. if fst s < n then Inl (Fails BUF_TOO_SMALL) else abind (pushes bs s) (\<lambda>s. Inr (n, s)))
      in if len < 0x80 then wr 1 [of_nat len]
         else if len \<le> 0xFF then wr 2 [of_nat len, 0x81]
         else if len \<le> 0xFFFF then wr 3 [byte 0, byte 8, 0x82]
         else if len \<le> 0xFFFFFF then wr 4 [byte 0, byte 8, byte 16, 0x83]
         else if len \<le> 0xFFFFFFFF then wr 5 [byte 0, byte 8, byte 16, byte 24, 0x84]
         else Inl (Fails INVALID_LENGTH))"

definition mbedtls_asn1_write_tag :: "u8 \<Rightarrow> out \<Rightarrow> (nat \<times> out) asn" where
  "mbedtls_asn1_write_tag tag s =
     (if fst s < 1 then Inl (Fails BUF_TOO_SMALL) else abind (push tag s) (\<lambda>s. Inr (1, s)))"

definition mbedtls_asn1_write_raw_buffer :: "u8 list \<Rightarrow> out \<Rightarrow> (nat \<times> out) asn" where
  "mbedtls_asn1_write_raw_buffer buf s = (case s of (room, w) \<Rightarrow>
     if room < length buf then Inl (Fails BUF_TOO_SMALL) else Inr (length buf, room - length buf, buf @ w))"

text \<open>The macro \<open>MBEDTLS_ASN1_CHK_ADD\<close>.\<close>

definition chk_add :: "nat \<Rightarrow> (nat \<times> out) asn \<Rightarrow> (nat \<Rightarrow> out \<Rightarrow> 'b asn) \<Rightarrow> 'b asn" where
  "chk_add len m f = abind m (\<lambda>(ret, s). f (len + ret) s)"

text \<open>The length and the tag that end most functions.\<close>

definition close_element :: "u8 \<Rightarrow> nat \<Rightarrow> out \<Rightarrow> (nat \<times> out) asn" where
  "close_element tag len s =
     chk_add len (mbedtls_asn1_write_len len s) (\<lambda>len s. chk_add len (mbedtls_asn1_write_tag tag s) (\<lambda>len s. Inr (len, s)))"

definition mbedtls_asn1_write_null :: "out \<Rightarrow> (nat \<times> out) asn" where
  "mbedtls_asn1_write_null s = close_element ASN1_NULL 0 s"

definition mbedtls_asn1_write_oid :: "u8 list \<Rightarrow> out \<Rightarrow> (nat \<times> out) asn" where
  "mbedtls_asn1_write_oid oid s = chk_add 0 (mbedtls_asn1_write_raw_buffer oid s) (close_element ASN1_OID)"

definition mbedtls_asn1_write_algorithm_identifier :: "u8 list \<Rightarrow> nat \<Rightarrow> out \<Rightarrow> (nat \<times> out) asn" where
  "mbedtls_asn1_write_algorithm_identifier oid par_len s =
     (let rest = (\<lambda>len s. chk_add len (mbedtls_asn1_write_oid oid s) (close_element ASN1_CONSTRUCTED_SEQUENCE))
      in if par_len = 0 then chk_add 0 (mbedtls_asn1_write_null s) rest else rest par_len s)"

definition mbedtls_asn1_write_bool :: "bool \<Rightarrow> out \<Rightarrow> (nat \<times> out) asn" where
  "mbedtls_asn1_write_bool b s =
     (if fst s < 1 then Inl (Fails BUF_TOO_SMALL)
      else abind (push (if b then 255 else 0) s) (close_element ASN1_BOOLEAN 1))"

text \<open>\<open>val\<close> is converted to one \<open>unsigned char\<close>.\<close>

definition mbedtls_asn1_write_int :: "int \<Rightarrow> out \<Rightarrow> (nat \<times> out) asn" where
  "mbedtls_asn1_write_int v s =
     (if fst s < 1 then Inl (Fails BUF_TOO_SMALL)
      else abind (push (of_int v) s) (\<lambda>s.
        if v > 0 \<and> (of_int v :: u8) AND 0x80 \<noteq> 0 then
          (if fst s < 1 then Inl (Fails BUF_TOO_SMALL) else abind (push 0 s) (close_element ASN1_INTEGER 2))
        else close_element ASN1_INTEGER 1 s))"

definition mbedtls_asn1_write_tagged_string :: "u8 \<Rightarrow> u8 list \<Rightarrow> out \<Rightarrow> (nat \<times> out) asn" where
  "mbedtls_asn1_write_tagged_string tag txt s = chk_add 0 (mbedtls_asn1_write_raw_buffer txt s) (close_element tag)"

definition mbedtls_asn1_write_utf8_string :: "u8 list \<Rightarrow> out \<Rightarrow> (nat \<times> out) asn" where
  "mbedtls_asn1_write_utf8_string = mbedtls_asn1_write_tagged_string 0x0C"

definition mbedtls_asn1_write_printable_string :: "u8 list \<Rightarrow> out \<Rightarrow> (nat \<times> out) asn" where
  "mbedtls_asn1_write_printable_string = mbedtls_asn1_write_tagged_string 0x13"

definition mbedtls_asn1_write_ia5_string :: "u8 list \<Rightarrow> out \<Rightarrow> (nat \<times> out) asn" where
  "mbedtls_asn1_write_ia5_string = mbedtls_asn1_write_tagged_string 0x16"

definition mbedtls_asn1_write_octet_string :: "u8 list \<Rightarrow> out \<Rightarrow> (nat \<times> out) asn" where
  "mbedtls_asn1_write_octet_string buf s = chk_add 0 (mbedtls_asn1_write_raw_buffer buf s) (close_element ASN1_OCTET_STRING)"

text \<open>\<open>bits\<close> bits of \<open>buf\<close>.\<close>

definition mbedtls_asn1_write_bitstring :: "u8 list \<Rightarrow> nat \<Rightarrow> out \<Rightarrow> (nat \<times> out) asn" where
  "mbedtls_asn1_write_bitstring buf bits s =
     (let byte_len = (bits + 7) div 8; unused_bits = byte_len * 8 - bits in
      if fst s < byte_len + 1 then Inl (Fails BUF_TOO_SMALL)
      else abind (if byte_len > 0 then
             abind (byte_at buf (byte_len - 1)) (\<lambda>c.
             abind (push (c AND NOT (push_bit unused_bits 1 - 1)) s) (\<lambda>(room, w).
             Inr (room - (byte_len - 1), take (byte_len - 1) buf @ w)))
           else Inr s) (\<lambda>s.
        abind (push (of_nat unused_bits) s) (close_element ASN1_BIT_STRING (byte_len + 1))))"

text \<open>The loop that leaves out zeros at the end: \<open>i\<close> is the index of the current byte.\<close>

function trailing_zeros :: "u8 list \<Rightarrow> nat \<Rightarrow> u8 \<Rightarrow> nat \<Rightarrow> nat asn" where
  "trailing_zeros buf i shifted bits =
     (if bits = 0 then Inr 0
      else if shifted AND 1 \<noteq> 0 then Inr bits
      else let shifted = drop_bit 1 shifted; bits = bits - 1 in
        if bits = 0 then Inr 0
        else if bits mod 8 = 0 then
          (if i = 0 then Inl (Fault OutOfBounds) else abind (byte_at buf (i - 1)) (\<lambda>c. trailing_zeros buf (i - 1) c bits))
        else trailing_zeros buf i shifted bits)"
  by pat_completeness auto
termination by (relation "measure (\<lambda>(buf, i, shifted, bits). bits)") auto

declare trailing_zeros.simps [simp del]

definition mbedtls_asn1_write_named_bitstring :: "u8 list \<Rightarrow> nat \<Rightarrow> out \<Rightarrow> (nat \<times> out) asn" where
  "mbedtls_asn1_write_named_bitstring buf bits s =
     (let byte_len = (bits + 7) div 8; unused_bits = byte_len * 8 - bits in
      abind (if bits \<noteq> 0 then
          abind (byte_at buf (byte_len - 1)) (\<lambda>c. trailing_zeros buf (byte_len - 1) (drop_bit unused_bits c) bits)
        else Inr 0)
      (\<lambda>bits. mbedtls_asn1_write_bitstring buf bits s))"

section \<open>Elements\<close>

definition len_bytes :: "nat \<Rightarrow> u8 list" where
  "len_bytes n =
     (if n < 0x80 then [of_nat n] else if n \<le> 0xFF then [0x81, of_nat n]
      else if n \<le> 0xFFFF then [0x82, of_nat (n div 2 ^ 8), of_nat n]
      else if n \<le> 0xFFFFFF then [0x83, of_nat (n div 2 ^ 16), of_nat (n div 2 ^ 8), of_nat n]
      else [0x84, of_nat (n div 2 ^ 24), of_nat (n div 2 ^ 16), of_nat (n div 2 ^ 8), of_nat n])"

definition tlv :: "u8 \<Rightarrow> u8 list \<Rightarrow> u8 list" where
  "tlv tag c = tag # len_bytes (length c) @ c"

lemma nat_and_255: "n AND 0xFF = n mod 256" for n :: nat
  using take_bit_eq_mask [of 8 n] by (simp add: take_bit_eq_mod mask_eq_exp_minus_1)

lemma of_nat_mod_byte [simp]: "(of_nat (n mod 256) :: u8) = of_nat n"
  by (simp add: word_unat_eq_iff unsigned_of_nat take_bit_eq_mod)

lemma pushes_fit: "length bs \<le> room \<Longrightarrow> pushes bs (room, w) = Inr (room - length bs, rev bs @ w)"
  by (induction bs arbitrary: room w) (simp_all add: push_def)

lemma write_len_spec:
  "n < 2 ^ 32 \<Longrightarrow> mbedtls_asn1_write_len n (room, w) =
     (if room < length (len_bytes n) then Inl (Fails BUF_TOO_SMALL)
      else Inr (length (len_bytes n), room - length (len_bytes n), len_bytes n @ w))"
  by (simp add: mbedtls_asn1_write_len_def len_bytes_def Let_def pushes_fit nat_and_255 drop_bit_eq_div del: pushes.simps)

lemma shift_or: "b < 256 \<Longrightarrow> push_bit 8 a OR b = 256 * a + b" for a b :: nat
proof -
  assume "b < 256"
  then have b: "take_bit 8 b = b" by (simp add: take_bit_nat_eq_self)
  have "push_bit 8 a AND b = 0" by (subst b [symmetric], rule bit_eqI) (auto simp: bit_simps)
  then have "push_bit 8 a + b = push_bit 8 a OR b" by (rule disjunctive_add_eq_or)
  then show ?thesis by (simp add: push_bit_eq_mult)
qed

lemma shift_or3: "push_bit 16 a OR push_bit 8 b OR c = push_bit 8 (push_bit 8 a OR b) OR c" for a b c :: nat
  by (simp add: push_bit_or or.assoc)

lemma shift_or4: "push_bit 24 a OR push_bit 16 b OR push_bit 8 c OR d = push_bit 8 (push_bit 8 (push_bit 8 a OR b) OR c) OR d" for a b c d :: nat
  by (simp add: push_bit_or or.assoc)

lemma or3_value: "b < 256 \<Longrightarrow> c < 256 \<Longrightarrow> push_bit 16 a OR push_bit 8 b OR c = 256 * (256 * a + b) + (c :: nat)"
  unfolding shift_or3 by (simp only: shift_or)

lemma or4_value: "b < 256 \<Longrightarrow> c < 256 \<Longrightarrow> d < 256 \<Longrightarrow>
    push_bit 24 a OR push_bit 16 b OR push_bit 8 c OR d = 256 * (256 * (256 * a + b) + c) + (d :: nat)"
  unfolding shift_or4 by (simp only: shift_or)

lemma unat_byte: "unat (of_nat n :: u8) = n mod 256"
  by (simp add: unsigned_of_nat take_bit_eq_mod)

lemma short_byte: "n < 128 \<Longrightarrow> (of_nat n :: u8) AND 0x80 = 0"
  by (simp add: high_bit word_less_nat_alt unat_byte)

lemma get_len_bytes: "n < 2 ^ 32 \<Longrightarrow> n \<le> length r \<Longrightarrow> mbedtls_asn1_get_len (len_bytes n @ r) = Inr (n, r)"
proof -
  assume n: "n < 2 ^ 32" "n \<le> length r"
  have "n = 256 * (n div 256) + n mod 256" "n div 256 = 256 * (n div 256 div 256) + n div 256 mod 256" by simp_all
  then have s: "65536 * (n div 256 div 256) + 256 * (n div 256 mod 256) + n mod 256 = n" by linarith
  have d: "n div 65536 = n div 256 div 256" "n div 16777216 = n div 256 div 256 div 256" by (simp_all add: div_mult2_eq [symmetric])
  consider "n < 0x80" | "0x80 \<le> n" "n \<le> 0xFF" | "0xFF < n" "n \<le> 0xFFFF" | "0xFFFF < n" "n \<le> 0xFFFFFF" | "0xFFFFFF < n" by linarith
  then show ?thesis
  proof cases
    case 1
    then show ?thesis using n by (simp add: len_bytes_def mbedtls_asn1_get_len_def short_byte unat_byte)
  next
    case 2
    then show ?thesis using n by (simp add: len_bytes_def mbedtls_asn1_get_len_def unat_byte)
  next
    case 3
    then have "n div 256 < 256" by (simp add: div_less_iff_less_mult)
    then show ?thesis using n 3 by (simp add: len_bytes_def mbedtls_asn1_get_len_def unat_byte shift_or)
  next
    case 4
    then have "n div 256 div 256 < 256" by (simp add: div_less_iff_less_mult)
    then show ?thesis using n 4 s by (simp add: len_bytes_def mbedtls_asn1_get_len_def unat_byte or3_value d)
  next
    case 5
    have "n div 256 div 256 div 256 < 256" using n(1) by (simp add: div_less_iff_less_mult)
    moreover have "n div 256 div 256 = 256 * (n div 256 div 256 div 256) + n div 256 div 256 mod 256" by simp
    then have "16777216 * (n div 256 div 256 div 256) + 65536 * (n div 256 div 256 mod 256) + 256 * (n div 256 mod 256) + n mod 256 = n"
      using s by linarith
    ultimately show ?thesis using n 5 by (simp add: len_bytes_def mbedtls_asn1_get_len_def unat_byte or4_value d)
  qed
qed

lemma len_bytes_ne: "0 < length (len_bytes n)" "length (len_bytes n) \<le> 5"
  by (simp_all add: len_bytes_def)

lemma get_tag_tlv: "length c < 2 ^ 32 \<Longrightarrow> mbedtls_asn1_get_tag (tlv t c @ r) t = Inr (length c, c @ r)"
  using get_len_bytes [of "length c" "c @ r"] by (simp add: mbedtls_asn1_get_tag_def tlv_def)

lemma close_element_spec:
  "n < 2 ^ 32 \<Longrightarrow> close_element t n (room, w) =
     (if room < length (len_bytes n) + 1 then Inl (Fails BUF_TOO_SMALL)
      else Inr (n + length (len_bytes n) + 1, room - (length (len_bytes n) + 1), t # len_bytes n @ w))"
  by (auto simp: close_element_def chk_add_def write_len_spec mbedtls_asn1_write_tag_def push_def)

text \<open>An element is written whole or refused.\<close>

definition element_written :: "u8 list \<Rightarrow> out \<Rightarrow> (nat \<times> out) asn" where
  "element_written e s = (if fst s < length e then Inl (Fails BUF_TOO_SMALL) else Inr (length e, fst s - length e, e @ snd s))"

lemma write_element:
  "length c < 2 ^ 32 \<Longrightarrow> chk_add 0 (mbedtls_asn1_write_raw_buffer c (room, w)) (close_element t) = element_written (tlv t c) (room, w)"
  by (auto simp: chk_add_def mbedtls_asn1_write_raw_buffer_def close_element_spec element_written_def tlv_def)

lemma write_null: "mbedtls_asn1_write_null (room, w) = element_written (tlv ASN1_NULL []) (room, w)"
  by (auto simp: mbedtls_asn1_write_null_def close_element_spec element_written_def tlv_def)

section \<open>What is written is read back\<close>

lemma get_alg_tlv:
  assumes "length oid < 2 ^ 31" "length c < 2 ^ 30"
  shows "mbedtls_asn1_get_alg (tlv ASN1_CONSTRUCTED_SEQUENCE (tlv ASN1_OID oid @ tlv t c) @ w) = Inr ((oid, t, c), w)"
proof -
  let ?e = "tlv ASN1_OID oid @ tlv t c"
  have "length ?e < 2 ^ 32" using assms len_bytes_ne(2) [of "length oid"] len_bytes_ne(2) [of "length c"] by (simp add: tlv_def)
  then have s: "mbedtls_asn1_get_tag (tlv ASN1_CONSTRUCTED_SEQUENCE ?e @ w) ASN1_CONSTRUCTED_SEQUENCE = Inr (length ?e, ?e @ w)" by (rule get_tag_tlv)
  have o1: "mbedtls_asn1_get_tag ?e ASN1_OID = Inr (length oid, oid @ tlv t c)" using assms by (intro get_tag_tlv) simp
  have l: "mbedtls_asn1_get_len (len_bytes (length c) @ c) = Inr (length c, c)" using get_len_bytes [of "length c" c] assms by simp
  have "?e \<noteq> []" by (simp add: tlv_def)
  then show ?thesis unfolding mbedtls_asn1_get_alg_def s using o1 l by (simp add: Let_def tlv_def)
qed

lemma write_enclosed:
  assumes "length (a @ e) < 2 ^ 32"
  shows "chk_add (length e) (element_written a (room, e @ w)) (close_element t) =
    (if room < length (tlv t (a @ e)) - length e then Inl (Fails BUF_TOO_SMALL)
     else Inr (length (tlv t (a @ e)), room - (length (tlv t (a @ e)) - length e), tlv t (a @ e) @ w))"
proof -
  have "close_element t (length e + length a) (r, u) = (if r < length (len_bytes (length (a @ e))) + 1 then Inl (Fails BUF_TOO_SMALL)
      else Inr (length e + length a + length (len_bytes (length (a @ e))) + 1, r - (length (len_bytes (length (a @ e))) + 1),
        t # len_bytes (length (a @ e)) @ u))" for r u
    using close_element_spec [of "length (a @ e)" t r u] assms by (simp add: add.commute)
  moreover have "length (tlv t (a @ e)) = length e + length a + length (len_bytes (length (a @ e))) + 1"
      "tlv t (a @ e) @ w = t # len_bytes (length (a @ e)) @ a @ e @ w" by (simp_all add: tlv_def)
  ultimately show ?thesis by (auto simp: chk_add_def element_written_def)
qed

text \<open>C18: an algorithm identifier that is written is read back. Behind parameters that have been written, an element of
  at most \<open>2 ^ 30\<close> bytes, the record is written whole or refused because the room is too small; reading it gives the
  identifier, the tag and the content of the parameters and the bytes behind. Without parameters a null is written,
  and the reader that expects none accepts it.\<close>

theorem asn1_alg_round_trip:
  assumes "length oid < 2 ^ 30" "length c < 2 ^ 30"
  shows "let record = tlv ASN1_CONSTRUCTED_SEQUENCE (tlv ASN1_OID oid @ tlv t c); added = length record - length (tlv t c);
             plain = tlv ASN1_CONSTRUCTED_SEQUENCE (tlv ASN1_OID oid @ tlv ASN1_NULL [])
    in mbedtls_asn1_write_algorithm_identifier oid (length (tlv t c)) (room, tlv t c @ w)
         = (if room < added then Inl (Fails BUF_TOO_SMALL) else Inr (length record, room - added, record @ w)) \<and>
       mbedtls_asn1_get_alg (record @ w) = Inr ((oid, t, c), w) \<and>
       mbedtls_asn1_write_algorithm_identifier oid 0 (room, w)
         = (if room < length plain then Inl (Fails BUF_TOO_SMALL) else Inr (length plain, room - length plain, plain @ w)) \<and>
       mbedtls_asn1_get_alg_null (plain @ w) = Inr (oid, w)"
proof -
  have l: "length (tlv ASN1_OID oid) \<le> length oid + 6" "length (tlv t c) \<le> length c + 6" "tlv t c \<noteq> []"
    using len_bytes_ne(2) [of "length oid"] len_bytes_ne(2) [of "length c"] by (simp_all add: tlv_def)
  have n2: "length (tlv ASN1_NULL []) = 2" by (simp add: tlv_def len_bytes_def)
  have wo: "mbedtls_asn1_write_oid oid (r, u) = element_written (tlv ASN1_OID oid) (r, u)" for r u
    using assms(1) by (simp add: mbedtls_asn1_write_oid_def write_element)
  have f: "length (tlv ASN1_OID oid @ tlv t c) < 2 ^ 32" "length (tlv ASN1_OID oid @ tlv ASN1_NULL []) < 2 ^ 32"
    using l n2 assms by simp_all
  note we = write_enclosed [OF f(1), of room w ASN1_CONSTRUCTED_SEQUENCE]
    write_enclosed [OF f(2), of "room - length (tlv ASN1_NULL [])" w ASN1_CONSTRUCTED_SEQUENCE]
  have g: "mbedtls_asn1_get_alg (tlv ASN1_CONSTRUCTED_SEQUENCE (tlv ASN1_OID oid @ tlv t c) @ w) = Inr ((oid, t, c), w)"
      "mbedtls_asn1_get_alg (tlv ASN1_CONSTRUCTED_SEQUENCE (tlv ASN1_OID oid @ tlv ASN1_NULL []) @ w) = Inr ((oid, ASN1_NULL, []), w)"
    using get_alg_tlv [of oid c t w] get_alg_tlv [of oid "[]" ASN1_NULL w] assms by simp_all
  have w1: "mbedtls_asn1_write_algorithm_identifier oid (length (tlv t c)) (room, tlv t c @ w)
      = chk_add (length (tlv t c)) (element_written (tlv ASN1_OID oid) (room, tlv t c @ w)) (close_element ASN1_CONSTRUCTED_SEQUENCE)"
    using l(3) by (simp add: mbedtls_asn1_write_algorithm_identifier_def wo)
  have w2: "mbedtls_asn1_write_algorithm_identifier oid 0 (room, w) = (if room < 2 then Inl (Fails BUF_TOO_SMALL)
      else chk_add 2 (element_written (tlv ASN1_OID oid) (room - 2, tlv ASN1_NULL [] @ w)) (close_element ASN1_CONSTRUCTED_SEQUENCE))"
    by (simp add: mbedtls_asn1_write_algorithm_identifier_def wo write_null chk_add_def [of 0] element_written_def [of "tlv ASN1_NULL []"] n2)
  have big: "2 < length (tlv ASN1_CONSTRUCTED_SEQUENCE (tlv ASN1_OID oid @ tlv ASN1_NULL []))" using n2 by (simp add: tlv_def)
  show ?thesis unfolding Let_def w1 w2 using we g big n2 by (auto simp: mbedtls_asn1_get_alg_null_def)
qed

theorem asn1_alg_round_trip_witness:
  "\<exists>r. mbedtls_asn1_write_algorithm_identifier [0x2A, 0x03] 0 (20, []) = Inr (8, 12, r) \<and> mbedtls_asn1_get_alg_null r = Inr ([0x2A, 0x03], [])"
  using asn1_alg_round_trip [of "[0x2A, 0x03]" "[]" 5 20 "[]"] by (auto simp: tlv_def len_bytes_def Let_def)

text \<open>Strings, booleans and integers.\<close>

lemma write_strings:
  assumes "length c < 2 ^ 32"
  shows "mbedtls_asn1_write_tagged_string t c (room, w) = element_written (tlv t c) (room, w)"
    "mbedtls_asn1_write_octet_string c (room, w) = element_written (tlv ASN1_OCTET_STRING c) (room, w)"
    "mbedtls_asn1_write_oid c (room, w) = element_written (tlv ASN1_OID c) (room, w)"
  using assms by (simp_all add: mbedtls_asn1_write_tagged_string_def mbedtls_asn1_write_octet_string_def mbedtls_asn1_write_oid_def write_element)

lemma get_small_tlv: "length c < 2 ^ 32 \<Longrightarrow> mbedtls_asn1_get_tag (t # len_bytes (length c) @ c @ w) t = Inr (length c, c @ w)"
  using get_tag_tlv [of c t w] by (simp add: tlv_def)

lemma bool_round_trip:
  "3 \<le> room \<Longrightarrow> \<exists>w'. mbedtls_asn1_write_bool b (room, w) = Inr (3, room - 3, w') \<and> mbedtls_asn1_get_bool w' = Inr (if b then 1 else 0, w)"
  using get_small_tlv [of "[if b then 255 else 0]" ASN1_BOOLEAN w]
  by (auto simp: mbedtls_asn1_write_bool_def mbedtls_asn1_get_bool_def push_def close_element_spec len_bytes_def)

lemma two_bytes: "int_bytes_loop 2 0 (0 # b # w) = Inr (uint b, w)"
  by (simp add: numeral_2_eq_2)

lemma byte_sign: "(of_int v :: u8) AND 0x80 = 0 \<longleftrightarrow> v mod 256 < 128"
  by (simp add: high_bit word_less_def uint_word_of_int)

text \<open>C36: only the last byte of an integer is written. What \<open>mbedtls_asn1_write_int\<close> writes is read back as the value
  modulo 256, so exactly the values from 0 to 255 come back; zero and a negative value whose last byte has its high
  bit set are written without a zero in front, and the negative ones are refused by the reader.\<close>

theorem asn1_small_ints:
  assumes "4 \<le> room"
  shows "\<exists>n room' w'. mbedtls_asn1_write_int v (room, w) = Inr (n, room', w') \<and> room' + n = room \<and>
    mbedtls_asn1_get_int w' = (if 0 < v \<or> v mod 256 < 128 then Inr (v mod 256, w) else Inl (Fails INVALID_LENGTH)) \<and>
    (mbedtls_asn1_get_int w' = Inr (v, w) \<longleftrightarrow> 0 \<le> v \<and> v < 256)"
proof -
  have u: "uint (of_int v :: u8) = v mod 256" by (simp add: uint_word_of_int)
  have m: "v mod 256 = v \<longleftrightarrow> 0 \<le> v \<and> v < 256" by (metis mod_pos_pos_trivial pos_mod_bound pos_mod_sign zero_less_numeral)
  show ?thesis
  proof (cases "0 < v \<and> \<not> v mod 256 < 128")
    case True
    have "mbedtls_asn1_get_int (ASN1_INTEGER # len_bytes 2 @ [0, of_int v] @ w) = Inr (v mod 256, w)"
    proof -
      have "mbedtls_asn1_get_tag (ASN1_INTEGER # len_bytes 2 @ 0 # of_int v # w) ASN1_INTEGER = Inr (2, 0 # of_int v # w)"
        using get_small_tlv [of "[0, of_int v]" ASN1_INTEGER w] by (simp add: numeral_2_eq_2 [symmetric])
      then show ?thesis by (simp add: mbedtls_asn1_get_int_def two_bytes u)
    qed
    then show ?thesis using True assms m
      by (simp add: mbedtls_asn1_write_int_def push_def byte_sign close_element_spec len_bytes_def)
  next
    case False
    have "mbedtls_asn1_get_int (ASN1_INTEGER # len_bytes 1 @ [of_int v] @ w) =
        (if v mod 256 < 128 then Inr (v mod 256, w) else Inl (Fails INVALID_LENGTH))"
      using get_small_tlv [of "[of_int v]" ASN1_INTEGER w] byte_sign [of v] by (simp add: mbedtls_asn1_get_int_def u)
    then show ?thesis using False assms m
      by (auto simp: mbedtls_asn1_write_int_def push_def byte_sign close_element_spec len_bytes_def)
  qed
qed

theorem asn1_small_ints_witness:
  "\<exists>n room' w'. mbedtls_asn1_write_int 300 (10, []) = Inr (n, room', w') \<and> mbedtls_asn1_get_int w' = Inr (44, [])"
  using asn1_small_ints [of 10 300 "[]"] by auto

section \<open>Sequences\<close>

lemma tlv_ne [simp]: "tlv t c \<noteq> []"
  by (simp add: tlv_def)

lemma sequence_loop_tlv:
  "\<forall>c\<in>set cs. length c < 2 ^ 32 \<Longrightarrow> sequence_loop t mem (concat (map (tlv t) cs)) =
     (if length cs \<le> mem + 1 then Inr cs else Inl (Fails ALLOC_FAILED))"
proof (induction cs arbitrary: mem)
  case (Cons c cs)
  have g: "mbedtls_asn1_get_tag (tlv t c @ concat (map (tlv t) cs)) t = Inr (length c, c @ concat (map (tlv t) cs))"
    using Cons.prems by (intro get_tag_tlv) simp
  have "concat (map (tlv t) cs) = [] \<longleftrightarrow> cs = []" by (cases cs) simp_all
  then have "sequence_loop t mem (tlv t c @ concat (map (tlv t) cs)) =
      (if cs = [] then Inr [c] else if mem = 0 then Inl (Fails ALLOC_FAILED)
       else abind (sequence_loop t (mem - 1) (concat (map (tlv t) cs))) (\<lambda>bufs. Inr (c # bufs)))"
    by (subst sequence_loop.simps) (simp add: g)
  then show ?case using Cons by (cases cs) auto
qed (simp add: sequence_loop.simps)

lemma sequence_round_trip:
  assumes "\<forall>c\<in>set cs. length c < 2 ^ 32" "length (concat (map (tlv t) cs)) < 2 ^ 32"
  shows "mbedtls_asn1_get_sequence_of (tlv ASN1_CONSTRUCTED_SEQUENCE (concat (map (tlv t) cs))) t mem =
    (if length cs \<le> mem + 1 then Inr cs else Inl (Fails ALLOC_FAILED))"
  using get_tag_tlv [OF assms(2), of ASN1_CONSTRUCTED_SEQUENCE "[]"] sequence_loop_tlv [OF assms(1)]
  by (simp add: mbedtls_asn1_get_sequence_of_def)

section \<open>Bit strings\<close>

text \<open>Bit \<open>b\<close> of a bit string, the first bit of a byte being its highest.\<close>

definition bit_of :: "u8 list \<Rightarrow> nat \<Rightarrow> bool" where
  "bit_of buf b = bit (buf ! (b div 8)) (7 - b mod 8)"

lemma byte_before: "0 < k \<Longrightarrow> k mod 8 = 0 \<Longrightarrow> k div 8 \<noteq> 0 \<and> k div 8 - 1 = (k - 1) div 8 \<and> (k - 1) mod 8 = (7 :: nat)"
proof -
  assume k: "0 < k" "k mod 8 = 0"
  then obtain m where "k = 8 * m" "m \<noteq> 0" by (auto simp: mod_eq_0_iff_dvd elim: dvdE)
  then obtain q where "k = 8 * Suc q" by (cases m) auto
  moreover from this have "k - 1 = 7 + q * 8" by simp
  ultimately show ?thesis by simp
qed

lemma same_byte: "k mod 8 \<noteq> 0 \<Longrightarrow> k div 8 = (k - 1) div 8 \<and> 7 - (k - 1) mod 8 = Suc (7 - k mod (8 :: nat))"
proof -
  assume k: "k mod 8 \<noteq> 0"
  obtain r where "k mod 8 = Suc r" using k by (cases "k mod 8") auto
  moreover have "k mod 8 < 8" by simp
  ultimately have r: "k mod 8 = Suc r" "r < 7" by simp_all
  have "k = k div 8 * 8 + k mod 8" by simp
  then have "k - 1 = r + k div 8 * 8" using r(1) by simp
  moreover have "(r + k div 8 * 8) div 8 = k div 8" "(r + k div 8 * 8) mod 8 = r" using r(2) by simp_all
  ultimately show ?thesis using r by simp
qed

lemma trailing_zeros_spec:
  "bits \<le> 8 * length buf \<Longrightarrow> 0 < bits \<Longrightarrow> i = (bits - 1) div 8 \<Longrightarrow> shifted = drop_bit (7 - (bits - 1) mod 8) (buf ! i) \<Longrightarrow>
   \<exists>r. trailing_zeros buf i shifted bits = Inr r \<and> r \<le> bits \<and> (\<forall>b. r \<le> b \<longrightarrow> b < bits \<longrightarrow> \<not> bit_of buf b) \<and> (r \<noteq> 0 \<longrightarrow> bit_of buf (r - 1))"
proof (induction buf i shifted bits rule: trailing_zeros.induct)
  case (1 buf i shifted bits)
  have one: "shifted AND 1 \<noteq> 0 \<longleftrightarrow> bit_of buf (bits - 1)"
    using 1(5,6) by (simp add: bit_of_def and_one_eq odd_iff_mod_2_eq_one [symmetric] bit_0 [symmetric] bit_drop_bit_eq)
  show ?case
  proof (cases "shifted AND 1 \<noteq> 0")
    case True
    then show ?thesis using 1(4) one by (simp add: trailing_zeros.simps [of buf i])
  next
    case False
    have le: "bits - 1 \<le> 8 * length buf" using 1(3) by simp
    have last: "\<not> bit_of buf (bits - 1)" using False one by simp
    have ext: "\<exists>r. trailing_zeros buf i shifted bits = Inr r \<and> r \<le> bits \<and> (\<forall>b. r \<le> b \<longrightarrow> b < bits \<longrightarrow> \<not> bit_of buf b) \<and> (r \<noteq> 0 \<longrightarrow> bit_of buf (r - 1))"
      if "trailing_zeros buf i shifted bits = Inr r" "r \<le> bits - 1" "\<forall>b. r \<le> b \<longrightarrow> b < bits - 1 \<longrightarrow> \<not> bit_of buf b" "r \<noteq> 0 \<longrightarrow> bit_of buf (r - 1)" for r
    proof -
      have "\<not> bit_of buf b" if "r \<le> b" "b < bits" for b using that \<open>\<forall>b. r \<le> b \<longrightarrow> _ \<longrightarrow> _\<close> last by (cases "b = bits - 1") auto
      then show ?thesis using that by auto
    qed
    consider "bits - 1 = 0" | "bits - 1 \<noteq> 0" "(bits - 1) mod 8 = 0" | "bits - 1 \<noteq> 0" "(bits - 1) mod 8 \<noteq> 0" by blast
    then show ?thesis
    proof cases
      case 1
      then show ?thesis using False \<open>0 < bits\<close> by (intro ext [of 0]) (simp_all add: trailing_zeros.simps [of buf i])
    next
      case 2
      then have i: "i \<noteq> 0" "i - 1 = (bits - 1 - 1) div 8" "(bits - 1 - 1) mod 8 = 7" "i - 1 < length buf"
        using byte_before [of "bits - 1"] 1(3,5) by auto
      obtain r where "trailing_zeros buf (i - 1) (buf ! (i - 1)) (bits - 1) = Inr r" "r \<le> bits - 1"
          "\<forall>b. r \<le> b \<longrightarrow> b < bits - 1 \<longrightarrow> \<not> bit_of buf b" "r \<noteq> 0 \<longrightarrow> bit_of buf (r - 1)"
        using 1(1) [OF _ _ refl refl, of "buf ! (i - 1)"] le 2 i False \<open>0 < bits\<close> by auto
      then show ?thesis using False \<open>0 < bits\<close> 2 i by (intro ext [of r]) (simp_all add: trailing_zeros.simps [of buf i shifted])
    next
      case 3
      then have i: "i = (bits - 1 - 1) div 8" "7 - (bits - 1 - 1) mod 8 = Suc (7 - (bits - 1) mod 8)"
        using same_byte [of "bits - 1"] 1(5) by auto
      have "drop_bit 1 shifted = drop_bit (7 - (bits - 1 - 1) mod 8) (buf ! i)"
        unfolding i(2) 1(6) by (simp only: drop_bit_drop_bit plus_1_eq_Suc)
      moreover have "bits \<noteq> 0" "0 < bits - 1" using \<open>0 < bits\<close> 3(1) by simp_all
      ultimately obtain r where "trailing_zeros buf i (drop_bit 1 shifted) (bits - 1) = Inr r" "r \<le> bits - 1"
          "\<forall>b. r \<le> b \<longrightarrow> b < bits - 1 \<longrightarrow> \<not> bit_of buf b" "r \<noteq> 0 \<longrightarrow> bit_of buf (r - 1)"
        using 1(2) [OF _ False refl refl 3(1,2) le _ i(1)] by blast
      then show ?thesis using False \<open>0 < bits\<close> 3 by (intro ext [of r]) (simp_all add: trailing_zeros.simps [of buf i shifted])
    qed
  qed
qed

definition bits_kept :: "u8 list \<Rightarrow> nat \<Rightarrow> u8 list" where
  "bits_kept buf r = (let n = (r + 7) div 8 in
     if n = 0 then [] else take (n - 1) buf @ [buf ! (n - 1) AND NOT (mask (8 * n - r))])"

lemma last_byte: "r \<noteq> 0 \<Longrightarrow> (r + 7) div 8 = Suc ((r - 1) div 8)" "r \<le> 8 * ((r + 7) div 8)" "8 * ((r + 7) div 8) - r < (8 :: nat)"
proof -
  have "r + 7 = 8 * ((r + 7) div 8) + (r + 7) mod 8" by simp
  moreover have "(r + 7) mod 8 < 8" by simp
  ultimately show "r \<le> 8 * ((r + 7) div 8)" "8 * ((r + 7) div 8) - r < 8" by linarith+
  show "(r + 7) div 8 = Suc ((r - 1) div 8)" if "r \<noteq> 0"
  proof -
    have "r + 7 = (r - 1) + 8" using that by simp
    then show ?thesis by simp
  qed
qed

lemma length_bits_kept: "r \<le> 8 * length buf \<Longrightarrow> length (bits_kept buf r) = (r + 7) div 8"
  using last_byte(1) [of r] by (cases "r = 0") (auto simp: bits_kept_def Let_def min_def)

lemma bits_kept_bits:
  assumes "r \<le> 8 * length buf" "b < 8 * ((r + 7) div 8)"
  shows "bit_of (bits_kept buf r) b \<longleftrightarrow> b < r \<and> bit_of buf b"
proof -
  let ?n = "(r + 7) div 8"
  have r: "r \<noteq> 0" using assms(2) by (cases r) simp_all
  have n: "?n = Suc (?n - 1)" "?n - 1 < length buf" using last_byte(1) [OF r] assms(1) r by auto
  have k: "bits_kept buf r = take (?n - 1) buf @ [buf ! (?n - 1) AND NOT (mask (8 * ?n - r))]"
    unfolding bits_kept_def Let_def by (subst if_not_P) (use n(1) in simp_all)
  have b: "b = 8 * (b div 8) + b mod 8" "b mod 8 < 8" "b div 8 < ?n" using assms(2) by (simp_all add: less_mult_imp_div_less mult.commute)
  have l: "r \<le> 8 * ?n" "8 * ?n - r < 8" by (rule last_byte)+
  show ?thesis
  proof (cases "b div 8 < ?n - 1")
    case True
    then have "b < 8 * (?n - 1)" using b(1,2) by linarith
    then have "b < r" using n(1) l by linarith
    then show ?thesis using True n(2) by (simp add: k bit_of_def nth_append)
  next
    case False
    then have d: "b div 8 = ?n - 1" using b(3) by linarith
    have "8 * ?n - r \<le> 7 - b mod 8 \<longleftrightarrow> b < r" using b(1,2) d n(1) l by linarith
    then show ?thesis using d n(2) by (auto simp: k bit_of_def nth_append bit_simps dest: bit_u8_lt)
  qed
qed

lemma small_byte: "n < 8 \<Longrightarrow> \<not> (of_nat n :: u8) > 7"
  by (simp add: word_less_nat_alt unat_byte)

lemma write_bitstring:
  assumes "r \<le> 8 * length buf" "length buf < 2 ^ 31"
  shows "mbedtls_asn1_write_bitstring buf r (room, w) =
    element_written (tlv ASN1_BIT_STRING (of_nat (8 * ((r + 7) div 8) - r) # bits_kept buf r)) (room, w)"
proof -
  let ?n = "(r + 7) div 8"
  let ?e = "tlv ASN1_BIT_STRING (of_nat (8 * ?n - r) # bits_kept buf r)"
  have n: "?n \<le> length buf" using assms(1) by linarith
  have len: "length (of_nat (8 * ?n - r) # bits_kept buf r) = ?n + 1" using length_bits_kept [OF assms(1)] by simp
  have le: "length ?e = ?n + 1 + length (len_bytes (?n + 1)) + 1" unfolding tlv_def by (simp add: length_bits_kept [OF assms(1)])
  have ce: "close_element ASN1_BIT_STRING (?n + 1) (r', u) = (if r' < length (len_bytes (?n + 1)) + 1 then Inl (Fails BUF_TOO_SMALL)
      else Inr (?n + 1 + length (len_bytes (?n + 1)) + 1, r' - (length (len_bytes (?n + 1)) + 1), ASN1_BIT_STRING # len_bytes (?n + 1) @ u))" for r' u
    using close_element_spec [of "?n + 1"] n assms(2) by simp
  show ?thesis
  proof (cases "room < ?n + 1")
    case True
    then show ?thesis using le by (simp add: mbedtls_asn1_write_bitstring_def element_written_def Let_def)
  next
    case False
    have kept: "(if ?n > 0 then abind (byte_at buf (?n - 1)) (\<lambda>c. abind (push (c AND NOT (push_bit (?n * 8 - r) 1 - 1)) (room, w)) (\<lambda>(room, w).
        Inr (room - (?n - 1), take (?n - 1) buf @ w))) else Inr (room, w)) = Inr (room - ?n, bits_kept buf r @ w)"
      using False n by (auto simp: push_def bits_kept_def Let_def mask_eq_exp_minus_1 push_bit_eq_mult mult.commute)
    have "mbedtls_asn1_write_bitstring buf r (room, w) =
        abind (push (of_nat (8 * ?n - r)) (room - ?n, bits_kept buf r @ w)) (close_element ASN1_BIT_STRING (?n + 1))"
      unfolding mbedtls_asn1_write_bitstring_def Let_def using False kept by (simp add: mult.commute)
    then show ?thesis using False le len by (auto simp: push_def ce [unfolded Suc_eq_plus1 [symmetric]] element_written_def tlv_def) (simp add: add.commute)
  qed
qed

text \<open>A named bit string is written without the zeros at its end and read back. The writer keeps the bits up to the
  last one that is set and never looks outside the buffer; the reader gives as many bytes as those bits take, with the
  number of unused bits, the same bits and zeros behind them.\<close>

theorem asn1_named_bits:
  assumes "bits \<le> 8 * length buf" "length buf < 2 ^ 31"
  shows "\<exists>r e ds. r \<le> bits \<and> (\<forall>b. r \<le> b \<longrightarrow> b < bits \<longrightarrow> \<not> bit_of buf b) \<and> (r \<noteq> 0 \<longrightarrow> bit_of buf (r - 1)) \<and>
    mbedtls_asn1_write_named_bitstring buf bits (room, w) = element_written e (room, w) \<and>
    mbedtls_asn1_get_bitstring e = Inr (of_nat (8 * length ds - r), ds) \<and> length ds = (r + 7) div 8 \<and>
    (\<forall>b < 8 * length ds. bit_of ds b \<longleftrightarrow> b < r \<and> bit_of buf b)"
proof -
  obtain r where r: "r \<le> bits" "\<forall>b. r \<le> b \<longrightarrow> b < bits \<longrightarrow> \<not> bit_of buf b" "r \<noteq> 0 \<longrightarrow> bit_of buf (r - 1)"
    and w: "mbedtls_asn1_write_named_bitstring buf bits (room, w) = mbedtls_asn1_write_bitstring buf r (room, w)"
  proof (cases "bits = 0")
    case True
    then show ?thesis using that [of 0] by (simp add: mbedtls_asn1_write_named_bitstring_def)
  next
    case False
    then have n: "(bits + 7) div 8 - 1 = (bits - 1) div 8" "(bits - 1) div 8 < length buf" using last_byte(1) [of bits] assms(1) by auto
    have "bits - 1 = 8 * ((bits - 1) div 8) + (bits - 1) mod 8" by simp
    then have "8 * ((bits + 7) div 8) - bits = 7 - (bits - 1) mod 8" using last_byte(1) [OF False] False by linarith
    then obtain r where t: "trailing_zeros buf ((bits - 1) div 8) (drop_bit ((bits + 7) div 8 * 8 - bits) (buf ! ((bits - 1) div 8))) bits = Inr r"
      "r \<le> bits" "\<forall>b. r \<le> b \<longrightarrow> b < bits \<longrightarrow> \<not> bit_of buf b" "r \<noteq> 0 \<longrightarrow> bit_of buf (r - 1)"
      using trailing_zeros_spec [OF assms(1) _ refl refl] False by (auto simp: mult.commute)
    then show ?thesis using that [of r] False n by (simp add: mbedtls_asn1_write_named_bitstring_def Let_def)
  qed
  have rb: "r \<le> 8 * length buf" using r(1) assms(1) by simp
  let ?u = "8 * ((r + 7) div 8) - r" and ?ds = "bits_kept buf r"
  let ?e = "tlv ASN1_BIT_STRING (of_nat ?u # ?ds)"
  have "(r + 7) div 8 \<le> length buf" using rb by linarith
  then have l: "length (of_nat ?u # ?ds) < 2 ^ 32" using length_bits_kept [OF rb] assms(2) by simp
  have u: "\<not> (of_nat ?u :: u8) > 7" using last_byte(3) [of r] by (rule small_byte)
  have "mbedtls_asn1_get_bitstring ?e = Inr (of_nat ?u, ?ds)"
    using get_tag_tlv [OF l, of ASN1_BIT_STRING "[]"] u by (simp add: mbedtls_asn1_get_bitstring_def)
  then have "mbedtls_asn1_get_bitstring ?e = Inr (of_nat (8 * length ?ds - r), ?ds)" by (simp only: length_bits_kept [OF rb])
  moreover have "\<forall>b < 8 * length ?ds. bit_of ?ds b \<longleftrightarrow> b < r \<and> bit_of buf b"
    using bits_kept_bits [OF rb] by (simp only: length_bits_kept [OF rb]) blast
  moreover have "mbedtls_asn1_write_named_bitstring buf bits (room, w) = element_written ?e (room, w)"
    by (simp only: w write_bitstring [OF rb assms(2)])
  ultimately show ?thesis using r length_bits_kept [OF rb] by blast
qed


theorem asn1_named_bits_witness:
  "\<exists>r e ds. r \<le> 12 \<and> mbedtls_asn1_write_named_bitstring [0x80, 0x20] 12 (30, []) = element_written e (30, []) \<and>
     mbedtls_asn1_get_bitstring e = Inr (of_nat (8 * length ds - r), ds)"
  using asn1_named_bits [of 12 "[0x80, 0x20]" 30 "[]"] by auto

section \<open>Named data\<close>

text \<open>A list of identifiers with values. \<open>mbedtls_asn1_store_named_data\<close> takes a value or, for a null pointer, only its
  length; \<open>mem\<close> allocations succeed. The result is the list and whether the call returned an entry.\<close>

fun mbedtls_asn1_find_named_data :: "(u8 list \<times> u8 list) list \<Rightarrow> u8 list \<Rightarrow> u8 list option" where
  "mbedtls_asn1_find_named_data [] oid = None"
| "mbedtls_asn1_find_named_data ((o1, v) # ds) oid = (if o1 = oid then Some v else mbedtls_asn1_find_named_data ds oid)"

fun set_named :: "(u8 list \<times> u8 list) list \<Rightarrow> u8 list \<Rightarrow> u8 list \<Rightarrow> (u8 list \<times> u8 list) list" where
  "set_named [] oid v = []"
| "set_named ((o1, v1) # ds) oid v = (if o1 = oid then (o1, v) # ds else (o1, v1) # set_named ds oid v)"

definition mbedtls_asn1_store_named_data ::
    "nat \<Rightarrow> (u8 list \<times> u8 list) list \<Rightarrow> u8 list \<Rightarrow> u8 list option \<Rightarrow> nat \<Rightarrow> (u8 list \<times> u8 list) list \<times> bool" where
  "mbedtls_asn1_store_named_data mem head oid v val_len =
     (let copy = (\<lambda>buf. case v of None \<Rightarrow> buf | Some d \<Rightarrow> take val_len d @ drop val_len buf) in
      case mbedtls_asn1_find_named_data head oid of
        None \<Rightarrow> if mem < 3 then (head, False) else ((oid, copy (replicate val_len 0)) # head, True)
      | Some old \<Rightarrow>
          if length old < val_len then
            (if mem < 1 then (head, False) else (set_named head oid (copy (replicate val_len 0)), True))
          else (set_named head oid (copy old), True))"

lemma find_set_named:
  "mbedtls_asn1_find_named_data (set_named ds oid v) oid' =
     (if oid = oid' \<and> mbedtls_asn1_find_named_data ds oid \<noteq> None then Some v else mbedtls_asn1_find_named_data ds oid')"
  by (induction ds oid v rule: set_named.induct) auto

text \<open>A stored value is found, with what a longer old value had behind it; other identifiers keep theirs, and a call that
  fails changes nothing.\<close>

lemma store_then_find:
  assumes "mbedtls_asn1_store_named_data mem head oid (Some d) (length d) = (head', ok)"
  shows "if ok then mbedtls_asn1_find_named_data head' oid =
      Some (d @ (case mbedtls_asn1_find_named_data head oid of None \<Rightarrow> [] | Some old \<Rightarrow> drop (length d) old))
    else head' = head"
    and "oid' \<noteq> oid \<Longrightarrow> mbedtls_asn1_find_named_data head' oid' = mbedtls_asn1_find_named_data head oid'"
  using assms by (auto simp: mbedtls_asn1_store_named_data_def find_set_named split: option.splits if_splits)

end
