(* ===== verification/Spec2Isabelle.thy ===== *)
theory Spec2Isabelle
  imports Hlw8032 HList LinkQueue ConfigFile ChatServer ChatSelect ChatClient SocketTalk MutexTickets CondBuffer SemBuffer Ping Pipe Http
    AesModes CJsonBuffer CJsonMinify CJsonEdit Button Exercises Base64 Xtea Arc4 Asn1Write
begin

text \<open>
  A model of the C programs of this repository and the theorems that make them correct. The repository is a
  collection of small independent Linux programs and libraries with two vendored third-party trees (mbed TLS
  under \<^verbatim>\<open>src/aes_test\<close>, the SQLite shell under \<^verbatim>\<open>src/sqliteapi_test\<close>). The model follows the
  repository's own code, the two vendored files its programs run, \<^verbatim>\<open>cJSON.c\<close> and \<^verbatim>\<open>aes.c\<close>, and five further
  files of mbed TLS that stand by themselves: every
  function is a definition with the function's name, every structure a record with its fields, and a statement that can leave defined behaviour (a null, dangling or out-of-range access, a
  division by zero, a missing \<open>return\<close>) is a branch with the value \<open>Inl\<close> of a \<open>fault\<close>.

  \<^bold>\<open>The parts and their theories.\<close>

  \<^item> \<open>Prelude\<close>: faults and results, machine integers, C strings in byte arrays, heaps of records with
    addresses, allocation and release, and linked paths through such a heap. \<open>Decimal\<close>: \<open>%d\<close>.
    \<open>Fifo\<close> and \<open>Runs\<close>: the contracts (locales) of a queue and of a step relation with an invariant or with
    an end; they are interpreted on the models in \<open>LinkQueue\<close>, \<open>ChatSelect\<close>, \<open>MutexTickets\<close>, \<open>CondBuffer\<close> and
    \<open>SemBuffer\<close>. \<open>LineInput\<close>: \<open>fgets\<close>, a line of a text or as much of it as fits.
  \<^item> \<open>Hlw8032\<close>: the energy meter reader \<^verbatim>\<open>src/wt_hlw8032.c\<close>. Its globals and static variables are
    the record \<open>hlw\<close>, \<open>DealUartInf\<close> takes a 24-byte frame to the new record and what is printed, \<open>deal_data\<close>
    is the read loop over signals and the results of \<open>read\<close>; the copies between its buffers are faults outside them.
  \<^item> \<open>KList\<close> and \<open>HList\<close>: the circular and the singly headed lists of
    \<^verbatim>\<open>src/config_item/include/list.h\<close> over heaps of links; the loop macros take the body as a function.
  \<^item> \<open>ConfigItem\<close> and \<open>ConfigFile\<close>: \<^verbatim>\<open>src/config_item/src\<close>, items in a \<open>KList\<close> and an INI file
    read and written in place through a stream with a position.
  \<^item> \<open>LinkQueue\<close>: \<^verbatim>\<open>src/queue_test/queue.c\<close>, the queue and the program.
  \<^item> \<open>UserList\<close>, \<open>ChatServer\<close>, \<open>ChatSelect\<close>: the chat server
    \<^verbatim>\<open>src/socket_test/ChatRome -- select/server\<close>, from the list of online users over the handlers of
    requests to the accept loop and its threads. The answers of the database and of the sockets are inputs, in a turn of the
    accept loop also the moments at which threads write to its variable. The handlers take the sizes of the structures
    that received blocks are copied to as arguments: with the real sizes the copies overrun them before a handler is reached
    (\<open>requests_overflow\<close>), so what the handlers do with a message is stated of each handler.
    \<open>ChatClient\<close>: the client beside it, its menus over what is typed, the layout of a message in bytes and the thread
    that shows what arrives, which has the real size of a message built in and overruns it with the first one.
  \<^item> \<open>EchoServer\<close>, \<open>EchoEpoll\<close>, \<open>EchoClient\<close>, \<open>SocketTalk\<close>: the other pairs under \<^verbatim>\<open>src/socket_test\<close>. A turn of a
    server's loop is a function of what the kernel answers to a log of what is received and sent. \<open>echo_table\<close> is the
    contract of a table of clients and \<open>echo_service\<close> that of a server that answers each client with its own bytes; the
    select and the poll server fulfil both, \<open>EchoEpoll\<close> says what the third does instead. \<open>EchoClient\<close> has the line
    clients, \<open>SocketTalk\<close> the datagram pair, the talk of \<^verbatim>\<open>pthread_socket\<close> and the receiver of \<^verbatim>\<open>tcp_socket\<close>.
  \<^item> \<open>MutexTickets\<close>, \<open>CondBuffer\<close>, \<open>SemBuffer\<close>: the thread programs \<^verbatim>\<open>src/mutex_test\<close>,
    \<^verbatim>\<open>src/pthread_cond_test\<close> and \<^verbatim>\<open>src/semaphore_test\<close> as step relations with one step for each point
    at which another thread can run. The buffer of \<open>SemBuffer\<close> is an array of \<open>n\<close> numbers of which both threads use the
    second: with the \<open>n\<close> of the source, 1, every run ends in a fault.
  \<^item> \<open>Ping\<close>: \<^verbatim>\<open>src/ping_test/ping.c\<close>, packets as byte lists and the two threads over a list of events.
  \<^item> \<open>CJson\<close>, \<open>CJsonPrint\<close>, \<open>CJsonParse\<close>: \<^verbatim>\<open>src/pipe_ser_clnt/cJSON.c\<close>, and \<open>Pipe\<close>: the programs that
    use it. A pointer into a text is the rest of its block, an item a tree, the state the number of allocations
    that still succeed; the arithmetic of \<open>double\<close> is a record of operations, with what the proofs use of it as
    the hypotheses \<open>exact_ints\<close> (integers up to \<open>2 ^ 53\<close> are exact) and \<open>number_formats\<close> (the lengths of
    \<open>%f\<close>, \<open>%e\<close> and \<open>%.0f\<close>). Both hold of the integers (\<open>int_dbl\<close>), on which the examples run.
    \<open>CJsonType\<close>: what the parser does with any text (its contract is the locale \<open>value_parser\<close>). The lengths of printed blocks are C \<open>int\<close>s, with
    their overflow. \<open>CJsonBuffer\<close>: the printer into one growing buffer, whose bytes are explicit; it relies on fresh blocks of the size asked for
    (\<open>blocks_ok\<close>) and on \<open>sprintf\<close> writing no zero byte (\<open>formats_NUL\<close>). \<open>CJsonMinify\<close>: \<open>cJSON_Minify\<close>.
    \<open>CJsonEdit\<close>: constructors, references, deletion, detaching, insertion, replacement and duplication.
  \<^item> \<open>AesFips\<close>, \<open>AesTables\<close>, \<open>Aes\<close>, \<open>AesCipher\<close>, \<open>AesMain\<close>, \<open>AesModes\<close>: \<^verbatim>\<open>src/aes_test/library/aes.c\<close>.
    \<open>AesFips\<close> is the reference, FIPS 197 over bytes; \<open>AesTables\<close> the tables, those in the file and those computed by
    \<open>aes_gen_tables\<close>; \<open>Aes\<close> the contexts, key schedules and block functions on 32-bit words; \<open>AesCipher\<close> the
    lemmas that connect words with bytes; \<open>AesMain\<close> the test program \<open>my_test\<close>, which
    \<^verbatim>\<open>src/aes_test/main.c\<close> calls; \<open>AesModes\<close> the modes CBC, CFB, OFB, CTR and XTS.
    \<open>Cbc\<close> holds the CBC loops, which \<^verbatim>\<open>aes.c\<close> and \<^verbatim>\<open>xtea.c\<close> share but for the block size, and their contract \<open>block_pair\<close>.
  \<^item> \<open>Base64\<close>, \<open>Xtea\<close>, \<open>Arc4\<close>, \<open>Asn1\<close>, \<open>Asn1Write\<close>: the files \<^verbatim>\<open>base64.c\<close>, \<^verbatim>\<open>xtea.c\<close>, \<^verbatim>\<open>arc4.c\<close>,
    \<^verbatim>\<open>asn1parse.c\<close> and \<^verbatim>\<open>asn1write.c\<close> of the same library. A reader of ASN.1 works on the bytes up to \<open>end\<close>, where a read
    beyond is a fault apart from the error codes (\<open>stop\<close>); a writer on the room left and the bytes already behind it.
  \<^item> \<open>Http\<close>: \<^verbatim>\<open>src/http-client/http-client.c\<close>, from the URL to the saved file; name resolution, the
    connection, uninitialised memory and an older file are a record of inputs.
  \<^item> \<open>Button\<close>: \<^verbatim>\<open>src/button_test/test_gree.cpp\<close>, the loop that turns key events into calls. \<open>Exercises\<close>: the loops and
    functions of \<^verbatim>\<open>loop_run\<close>, \<^verbatim>\<open>data_server_test\<close>, \<^verbatim>\<open>pipe_test\<close> (\<open>fifo3\<close>, \<open>fifo4\<close>, \<open>popen3\<close>), \<^verbatim>\<open>pipe_ctrl.c\<close>, \<^verbatim>\<open>qsort_test\<close>,
    \<^verbatim>\<open>syntax/float2hex.c\<close> and of \<^verbatim>\<open>sqlite_red.c\<close> the reader; \<open>qsort\<close> is a parameter with its contract \<open>qsort_law\<close>.

  \<^bold>\<open>How the parts interact.\<close> \<open>ConfigItem\<close> keeps its items in the lists of \<open>KList\<close>. \<open>ChatServer\<close> calls the
  operations of \<open>UserList\<close>, and \<open>ChatSelect\<close> starts its handlers; \<open>chat_list_end_to_end\<close> takes a request from
  \<open>ChatClient\<close> through the handler of the server and back to what the client's switch shows, and says where both sides fault. The select server of \<open>EchoServer\<close> has the table of
  \<open>ChatSelect\<close>. \<open>EchoClient\<close> runs its client with each of the three servers: they are interpretations of \<open>one_client\<close>, a
  server that faces one client, which is a \<open>line_server\<close>, the contract the client's lemmas rest on. The programs of \<open>Pipe\<close> exchange texts that
  \<open>CJson\<close> prints and parses: \<open>query_breaks_clients\<close> runs the sender and the receivers together. The modes of
  \<open>AesModes\<close> call the block functions of \<open>Aes\<close>, and those read the tables the first key schedule has made.

  \<^bold>\<open>What the groups of lemmas show.\<close>

  \<^item> Meter: which frames are accepted, which fault, that the energy follows the pulses through overflows of the
    counter, that no copy of the read loop leaves its buffers and which frames it processes, that the filter is the median.
  \<^item> Lists and queue: the shape (\<open>dll\<close>, \<open>hlist\<close>, \<open>lq_inv\<close>) each operation takes to which shape, what it
    leaves alone, that the loops end; the queue refines a list.
  \<^item> Files and items: what a read returns and a write changes, and when the rest of the file survives.
  \<^item> Chat: who gets which message, what the user list is after each request, that no name is online twice, which
    requests overflow a buffer; the table of the accept loop and the race for its socket variable; what the client
    sends and shows; what is stored of a message.
  \<^item> Sockets: each client of the select and the poll server gets back what it sent, whoever comes and goes; the epoll
    server sends the last message of anyone; a line client prints the text it was given; when a talk ends.
  \<^item> Button and exercises: the calls for each press; how often the interval command runs; the packet; what is lost of
    the output of a command; sorting with a subtracting comparison.
  \<^item> Threads: mutual exclusion, order of the output, that every run ends and how.
  \<^item> Ping: the checksum and the round trip of a packet, bounds and result of a test.
  \<^item> JSON and pipes: the printer writes the text \<open>render\<close>, which is given by the escapes and separators of JSON, into
    blocks of sufficient size, the parser gives a tree back whose numbers are integers of the range of \<open>int\<close>, and the messages of the pipe programs have the stated effects. The parser ends on every text and what
    it returns is well typed; the growing buffer receives the same text as the exact blocks; editing an object
    follows the first member of a name; a duplicate prints as its original.
  \<^item> AES: the tables and the unrolled schedule compute FIPS 197, decryption is the inverse, and each mode
    decrypts what it has encrypted.
  \<^item> Encodings: base 64 decodes what it has encoded and never writes more than it reports; XTEA and ARC4 decrypt what
    they have encrypted; reading ASN.1 stays inside any text, and elements, bit strings and algorithm identifiers that
    are written are read back (integers only from 0 to 255).
  \<^item> HTTP: the parts of a URL, the end of the header, and that the file begins with the body.

  \<^bold>\<open>Bounds and fuel.\<close> A loop over data is structural. The loops over a heap take fuel, and a lemma says how much
  is enough: the length of the list. The loops of the JSON parser have the length of the text, and every turn
  consumes a character; its recursion takes the nesting \<open>k\<close>, and \<open>nesting t\<close> is enough for a text of \<open>t\<close>;
  on an arbitrary text any \<open>k\<close> above its length is. Both printers are shown exact for texts of up to \<open>2 ^ 30 - 64\<close> bytes:
  the \<open>int\<close> sizes they compute are at most about twice that. Loops of AES run a number of times the C code fixes. The
  events of \<open>deal_data\<close>, \<open>ping_run\<close> and \<open>gree_loop\<close> are lists: a run over a list is a prefix of the endless loop.
  Integers that can wrap are words of their C width; a C \<open>int\<close> that stays small is an \<open>int\<close>, and so are, without bound, the exponent that
  the JSON parser collects, the length it counts of a string, the depth the JSON printer indents by and the numbers \<open>sscanf\<close>
  reads in \<open>Http\<close>.

  \<^bold>\<open>Not modelled.\<close> The rest of the vendored trees: of mbed TLS everything but the six files named, with the large integers
  of ASN.1 and the self tests, and of \<^verbatim>\<open>aes.c\<close> the
  branches for AES-NI and VIA Padlock, which hand the work to the processor; SQLite and its shell.
  An item of cJSON that is in two trees at once has no model, and a change made through a reference is not seen in
  the item it refers to; the blocks that are freed are counted, not tracked. Allocation in
  cJSON fails for good once it has failed. The creation of sockets, pipes, threads and terminals, except the terminal
  settings of the meter, and the text of menus and prompts. Programs that are calls of the C library or of
  \<^verbatim>\<open>sqlite3\<close> in a row: \<^verbatim>\<open>timer_test\<close>, \<^verbatim>\<open>reg_test\<close>, \<^verbatim>\<open>thread_test\<close>, \<^verbatim>\<open>file_ctl\<close>, the rest of
  \<^verbatim>\<open>pipe_test\<close> and of \<^verbatim>\<open>sqlite_red.c\<close>; \<^verbatim>\<open>sqlite_test.c\<close> and \<^verbatim>\<open>pipe2.c\<close> do not compile and
  \<^verbatim>\<open>print-in-order.c\<close> is empty.
\<close>

end
